(* ===== verification/Prelude.thy ===== *)
theory Prelude
  imports Main "HOL-Library.Word" "HOL-Library.Multiset"
begin

text \<open>
  Shared vocabulary of the development: the machine integer types of Go, the
  outcome of a call (a value, a returned \<open>error\<close>, or a panic), sequencing of
  calls with and without state, checked indexing and slicing of Go slices, and
  the generic lemmas on lists and words the component theories use.
\<close>

unbundle bit_operations_syntax

section \<open>Types\<close>

text \<open>
  Signed and unsigned Go integers of one width share a word type: the
  signed reading is \<^const>\<open>sint\<close>, the unsigned one \<^const>\<open>uint\<close> or
  \<^const>\<open>unat\<close>.  Go's \<open>int\<close> used as an index or a length is \<^typ>\<open>int\<close>; where
  its 64-bit wrap-around can be reached it is a 64-bit word.
\<close>

type_synonym u8 = "8 word"
type_synonym u16 = "16 word"
type_synonym u32 = "32 word"
type_synonym u64 = "64 word"
type_synonym i16 = "16 word"
type_synonym i32 = "32 word"
type_synonym i64 = "64 word"

text \<open>
  Where a client passes an offset or a length as an \<open>int64\<close> that no array bounds, the sum is
  reduced to 64 bits.  A sum of two lengths of arrays in memory is not: no Go array is
  longer than the address space.
\<close>

definition wrap64 :: "int \<Rightarrow> int" where
  "wrap64 x = (x + 2 ^ 63) mod 2 ^ 64 - 2 ^ 63"

lemma wrap64_id [simp]: "- (2 ^ 63) \<le> x \<Longrightarrow> x < 2 ^ 63 \<Longrightarrow> wrap64 x = x"
  by (simp add: wrap64_def)

lemma wrap64_over: "2 ^ 63 \<le> x \<Longrightarrow> x < 3 * 2 ^ 63 \<Longrightarrow> wrap64 x = x - 2 ^ 64"
proof -
  assume x: "2 ^ 63 \<le> x" "x < 3 * 2 ^ 63"
  have "(x + 2 ^ 63) mod 2 ^ 64 = (x + 2 ^ 63 - 2 ^ 64) mod 2 ^ 64" by (simp only: minus_mod_self2)
  also have "\<dots> = x + 2 ^ 63 - 2 ^ 64" using x by (intro mod_pos_pos_trivial) simp_all
  finally show ?thesis by (simp add: wrap64_def)
qed

lemma wrap64_le: "- (2 ^ 63) \<le> x \<Longrightarrow> wrap64 x \<le> x"
  using zmod_le_nonneg_dividend [of "x + 2 ^ 63" "2 ^ 64"] by (simp add: wrap64_def)

section \<open>Outcomes of Go calls\<close>

text \<open>
  Errors are values: \<open>EOF\<close> is \<open>io.EOF\<close>, \<open>Errorf\<close> carries the constant part of the
  message of an \<open>errors.New\<close> or \<open>fmt.Errorf\<close>.  A run-time panic is the third
  outcome.
\<close>

datatype go_error = EOF | Errorf string

datatype 'a outcome = Ok 'a | Err go_error | Panic string

type_synonym ('s, 'a) act = "'s \<Rightarrow> 'a outcome \<times> 's"

primrec bind_out :: "'a outcome \<Rightarrow> ('a \<Rightarrow> 'b outcome) \<Rightarrow> 'b outcome" where
  "bind_out (Ok a) f = f a"
| "bind_out (Err e) f = Err e"
| "bind_out (Panic p) f = Panic p"

definition ret_act :: "'a \<Rightarrow> ('s, 'a) act" where
  "ret_act a s = (Ok a, s)"

definition fail_act :: "go_error \<Rightarrow> ('s, 'a) act" where
  "fail_act e s = (Err e, s)"

definition bind_act :: "('s, 'a) act \<Rightarrow> ('a \<Rightarrow> ('s, 'b) act) \<Rightarrow> ('s, 'b) act" where
  "bind_act m f s = (case m s of (Ok a, s') \<Rightarrow> f a s' | (Err e, s') \<Rightarrow> (Err e, s') | (Panic p, s') \<Rightarrow> (Panic p, s'))"

text \<open>Sequencing that ignores the value of the first call.\<close>

definition seq_act :: "('s, unit) act \<Rightarrow> ('s, 'b) act \<Rightarrow> ('s, 'b) act" where
  "seq_act m k = bind_act m (\<lambda>_. k)"

lemma bind_out_cong [fundef_cong]:
  "m = m' \<Longrightarrow> (\<And>a. m' = Ok a \<Longrightarrow> f a = g a) \<Longrightarrow> bind_out m f = bind_out m' g"
  by (cases m') simp_all

lemma bind_out_split:
  "P (bind_out m f) \<longleftrightarrow>
     ((\<forall>a. m = Ok a \<longrightarrow> P (f a)) \<and> (\<forall>e. m = Err e \<longrightarrow> P (Err e)) \<and> (\<forall>p. m = Panic p \<longrightarrow> P (Panic p)))"
  by (cases m) simp_all

lemma bind_out_Ok_iff: "bind_out m f = Ok b \<longleftrightarrow> (\<exists>a. m = Ok a \<and> f a = Ok b)"
  by (cases m) simp_all

lemma bind_act_Ok: "m s = (Ok a, s') \<Longrightarrow> bind_act m f s = f a s'"
  by (simp add: bind_act_def)

lemma bind_act_Err: "m s = (Err e, s') \<Longrightarrow> bind_act m f s = (Err e, s')"
  by (simp add: bind_act_def)

lemma seq_act_Ok: "m s = (Ok (), s') \<Longrightarrow> seq_act m k s = k s'"
  by (simp add: seq_act_def bind_act_Ok)

lemma bind_act_assoc: "bind_act (bind_act m f) g = bind_act m (\<lambda>a. bind_act (f a) g)"
  by (rule ext) (simp add: bind_act_def split: prod.splits outcome.splits)

lemma bind_act_eq_Ok_iff:
  "bind_act m f s = (Ok b, t) \<longleftrightarrow> (\<exists>a s'. m s = (Ok a, s') \<and> f a s' = (Ok b, t))"
  by (auto simp: bind_act_def split: prod.splits outcome.splits)

section \<open>Go slices\<close>

definition index :: "'a list \<Rightarrow> int \<Rightarrow> 'a outcome" where
  "index xs i =
     (if 0 \<le> i \<and> i < int (length xs) then Ok (xs ! nat i) else Panic ''index out of range'')"

definition store :: "'a list \<Rightarrow> int \<Rightarrow> 'a \<Rightarrow> 'a list outcome" where
  "store xs i v =
     (if 0 \<le> i \<and> i < int (length xs) then Ok (xs[nat i := v]) else Panic ''index out of range'')"

text \<open>\<open>xs[lo:hi]\<close> of a slice whose capacity is its length.\<close>

definition subslice :: "'a list \<Rightarrow> int \<Rightarrow> int \<Rightarrow> 'a list outcome" where
  "subslice xs lo hi =
     (if 0 \<le> lo \<and> lo \<le> hi \<and> hi \<le> int (length xs)
      then Ok (take (nat (hi - lo)) (drop (nat lo) xs)) else Panic ''slice bounds out of range'')"

text \<open>\<open>copy(dst[at:], src)\<close>: as many elements as fit.\<close>

definition copy_at :: "'a list \<Rightarrow> int \<Rightarrow> 'a list \<Rightarrow> 'a list outcome" where
  "copy_at dst at src =
     (if 0 \<le> at \<and> at \<le> int (length dst)
      then Ok (let n = min (length dst - nat at) (length src)
               in take (nat at) dst @ take n src @ drop (nat at + n) dst)
      else Panic ''slice bounds out of range'')"

lemma index_Ok [simp]: "0 \<le> i \<Longrightarrow> i < int (length xs) \<Longrightarrow> index xs i = Ok (xs ! nat i)"
  by (simp add: index_def)

lemma store_Ok [simp]: "0 \<le> i \<Longrightarrow> i < int (length xs) \<Longrightarrow> store xs i v = Ok (xs[nat i := v])"
  by (simp add: store_def)

lemma subslice_Ok [simp]:
  "0 \<le> lo \<Longrightarrow> lo \<le> hi \<Longrightarrow> hi \<le> int (length xs) \<Longrightarrow>
   subslice xs lo hi = Ok (take (nat (hi - lo)) (drop (nat lo) xs))"
  by (simp add: subslice_def)

lemma subslice_full [simp]: "subslice xs 0 (int (length xs)) = Ok xs"
  by (simp add: subslice_def)

lemma copy_at_fits:
  "0 \<le> at \<Longrightarrow> at + int (length src) \<le> int (length dst) \<Longrightarrow>
   copy_at dst at src = Ok (take (nat at) dst @ src @ drop (nat at + length src) dst)"
  by (auto simp: copy_at_def min_def Let_def)

section \<open>Words\<close>

text \<open>\<open>bits.Len\<close> of the package \<^verbatim>\<open>math/bits\<close>: the number of bits a value needs.\<close>

fun len_bits :: "nat \<Rightarrow> nat" where
  "len_bits n = (if n = 0 then 0 else Suc (len_bits (n div 2)))"

declare len_bits.simps [simp del]

lemma len_bits_le_iff: "len_bits n \<le> k \<longleftrightarrow> n < 2 ^ k"
proof (induction n arbitrary: k rule: len_bits.induct)
  case (1 n)
  show ?case
  proof (cases "n = 0")
    case True
    then show ?thesis by (simp add: len_bits.simps)
  next
    case False
    then show ?thesis
      by (cases k) (simp_all add: len_bits.simps [of n] 1 less_mult_imp_div_less div_less_iff_less_mult mult.commute)
  qed
qed

declare push_bit_Suc [simp del] drop_bit_Suc [simp del]

text \<open>A statement about all bits of a 64-bit word, bit by bit.\<close>

lemma all_less_64:
  "(\<forall>n<64. P (n::nat)) \<longleftrightarrow> P 0 \<and> P 1 \<and> P 2 \<and> P 3 \<and> P 4 \<and> P 5 \<and> P 6 \<and> P 7 \<and> P 8 \<and> P 9 \<and> P 10 \<and> P 11
   \<and> P 12 \<and> P 13 \<and> P 14 \<and> P 15 \<and> P 16 \<and> P 17 \<and> P 18 \<and> P 19 \<and> P 20 \<and> P 21 \<and> P 22 \<and> P 23 \<and> P 24
   \<and> P 25 \<and> P 26 \<and> P 27 \<and> P 28 \<and> P 29 \<and> P 30 \<and> P 31 \<and> P 32 \<and> P 33 \<and> P 34 \<and> P 35 \<and> P 36 \<and> P 37
   \<and> P 38 \<and> P 39 \<and> P 40 \<and> P 41 \<and> P 42 \<and> P 43 \<and> P 44 \<and> P 45 \<and> P 46 \<and> P 47 \<and> P 48 \<and> P 49 \<and> P 50
   \<and> P 51 \<and> P 52 \<and> P 53 \<and> P 54 \<and> P 55 \<and> P 56 \<and> P 57 \<and> P 58 \<and> P 59 \<and> P 60 \<and> P 61 \<and> P 62 \<and> P 63"
proof -
  have "[0..<64] =
    [0::nat, 1, 2, 3, 4, 5, 6, 7, 8, 9, 10, 11, 12, 13, 14, 15, 16, 17, 18, 19, 20, 21, 22, 23,
     24, 25, 26, 27, 28, 29, 30, 31, 32, 33, 34, 35, 36, 37, 38, 39, 40, 41, 42, 43, 44,
     45, 46, 47, 48, 49, 50, 51, 52, 53, 54, 55, 56, 57, 58, 59, 60, 61, 62, 63]" by code_simp
  moreover have "(\<forall>n<64. P n) \<longleftrightarrow> (\<forall>n\<in>set [0..<64]. P n)" by auto
  ultimately show ?thesis by simp
qed

lemma word64_eqI: "(\<forall>n<64. bit x n = bit y n) \<Longrightarrow> x = (y::u64)"
  by (rule bit_word_eqI) simp

lemma bit64_False: "64 \<le> n \<Longrightarrow> \<not> bit (w :: u64) n"
  by (auto dest: bit_imp_le_length)

lemma neg_and_1: "- (w AND 1 :: 'a::len word) = (if bit w 0 then - 1 else 0)"
  by (cases "bit w 0") (simp_all add: and_one_eq bit_0 mod2_eq_if)

lemma bit_top_iff: "bit (w :: 'a::len word) (LENGTH('a) - 1) \<longleftrightarrow> 2 ^ (LENGTH('a) - 1) \<le> uint w"
proof -
  let ?p = "2 ^ (LENGTH('a) - 1) :: int"
  have b: "uint w < 2 * ?p" "0 \<le> uint w"
    using uint_lt2p [of w] by (cases "LENGTH('a)") simp_all
  have "uint w div ?p = (if ?p \<le> uint w then 1 else 0)"
    using b by (auto simp: div_pos_pos_trivial intro!: int_div_pos_eq [of _ _ _ "uint w - ?p"])
  then have "odd (uint w div ?p) \<longleftrightarrow> ?p \<le> uint w" by simp
  then show ?thesis
    by (simp add: bit_iff_odd [of "uint w", symmetric] bit_uint_iff)
qed

lemma sint_as_uint:
  "sint (w :: 'a::len word) = uint w - (if bit w (LENGTH('a) - 1) then 2 ^ LENGTH('a) else 0)"
proof -
  obtain m where m: "LENGTH('a) = Suc m" by (cases "LENGTH('a)") simp_all
  have "sint w = signed_take_bit m (uint w)"
    by (simp add: sint_uint m)
  also have "\<dots> = uint w - 2 ^ Suc m * of_bool (bit (uint w) m)"
    using uint_lt2p [of w] by (simp add: signed_take_bit_eq_take_bit_minus m take_bit_int_eq_self)
  finally show ?thesis by (simp add: m bit_uint_iff)
qed

lemma uint_max: "uint (- 1 :: 'a::len word) = 2 ^ LENGTH('a) - 1"
  by (simp add: unsigned_minus_1_eq_mask mask_eq_exp_minus_1)

lemma uint_not: "uint (NOT w :: 'a::len word) = 2 ^ LENGTH('a) - 1 - uint w"
proof -
  have "NOT w = - 1 - w" by (simp add: not_eq_complement)
  moreover have "uint (- 1 - w) = uint (- 1 :: 'a word) - uint w"
    using uint_lt2p [of w] by (simp add: uint_sub_if' uint_max)
  ultimately show ?thesis by (simp add: uint_max)
qed

lemma mod_once: "m \<le> a \<Longrightarrow> a < 2 * m \<Longrightarrow> a mod m = a - (m::int)"
  using mod_pos_pos_trivial [of "a - m" m] by (simp add: mod_diff_right_eq [symmetric])

lemma uint_push_bit: "uint (push_bit n w :: 'a::len word) = (2 ^ n * uint w) mod 2 ^ LENGTH('a)"
  unfolding unsigned_push_bit_eq by (simp add: take_bit_eq_mod push_bit_eq_mult mult.commute)

lemma signed_drop_bit_nonneg: "\<not> bit (w :: 'a::len word) (LENGTH('a) - 1) \<Longrightarrow> signed_drop_bit n w = drop_bit n w"
  by (rule bit_word_eqI) (auto simp: bit_simps min_def dest: bit_imp_le_length)

lemma ex_bit_ge_iff: "(\<exists>j\<ge>i. bit (w :: 'a::len word) j) \<longleftrightarrow> 2 ^ i \<le> uint w"
proof -
  have "uint w < 2 ^ i \<longleftrightarrow> drop_bit i (uint w) = 0"
    using uint_ge_0 [of w] by (auto simp: drop_bit_eq_div zdiv_eq_0_iff simp del: uint_ge_0)
  also have "\<dots> \<longleftrightarrow> (\<forall>n. \<not> bit w (i + n))"
    by (auto simp: bit_eq_iff bit_simps)
  also have "\<dots> \<longleftrightarrow> (\<forall>j\<ge>i. \<not> bit w j)"
    by (metis le_add1 nat_le_iff_add)
  finally show ?thesis by (auto simp: not_less [symmetric])
qed

lemma uint_2p_word64: "m < 64 \<Longrightarrow> uint (2 ^ m :: u64) = 2 ^ m"
  by (rule uint_2p) (simp add: word_gt_0)

lemma sint_pos_i64:
  assumes "0 < sint (v :: i64)"
  shows "uint v = sint v" "uint v < 2 ^ 63" "uint (v - 1) = sint v - 1" "\<not> bit (v - 1) 63"
proof -
  have nb: "\<not> bit v 63" using assms bit_last_iff [of v] by simp
  then show u: "uint v = sint v" using sint_as_uint [of v] by simp
  show l: "uint v < 2 ^ 63" using nb bit_top_iff [of v] by simp
  have "1 \<le> uint v" using u assms by simp
  then show w: "uint (v - 1) = sint v - 1" using u uint_sub_lem [of 1 v] by simp
  show "\<not> bit (v - 1) 63" using bit_top_iff [of "v - 1"] w u l by simp
qed

lemma bit_highest:
  assumes "2 ^ n \<le> uint (w :: 'a::len word)" and "uint w < 2 ^ Suc n"
  shows "bit w n"
proof -
  obtain j where j: "n \<le> j" "bit w j" using assms(1) ex_bit_ge_iff [of n w] by auto
  moreover have "\<not> Suc n \<le> j" using assms(2) j(2) ex_bit_ge_iff [of "Suc n" w] by force
  ultimately show ?thesis by (metis le_antisym not_less_eq_eq)
qed

lemma ex_highest:
  assumes "uint (w :: 'a::len word) < 2 ^ k"
  obtains m where "m \<le> k" "\<And>i. 2 ^ i \<le> uint w \<longleftrightarrow> i < m" "uint w < 2 ^ m"
proof -
  define m where "m = (LEAST m. uint w < 2 ^ m)"
  have m: "uint w < 2 ^ m" unfolding m_def by (rule LeastI) (rule assms)
  have le: "m \<le> k" if "uint w < 2 ^ k" for k unfolding m_def using that by (rule Least_le)
  have "2 ^ i \<le> uint w \<longleftrightarrow> i < m" for i
  proof (cases "i < m")
    case True
    then show ?thesis using le [of i] by (meson not_less)
  next
    case False
    then have "(2::int) ^ m \<le> 2 ^ i" by (simp add: power_increasing)
    with m False show ?thesis by linarith
  qed
  then show thesis using that m le [OF assms] by blast
qed

end
