(* ===== verification/Bit_Util.thy ===== *)
theory Bit_Util
  imports Prelude
begin

text \<open>
  \<^verbatim>\<open>util/bit_util.go\<close>: bit interleaving, zig-zag coding, powers of two.  Go's
  \<open>int\<close> and \<open>int64\<close> are 64-bit words read with \<^const>\<open>sint\<close>.  The lemmas give each
  routine its bit-level or arithmetic reading; the properties are the round trips
  and the one routine that leaves its documented range.
\<close>

section \<open>Definitions\<close>

definition magic0 :: u64 where "magic0 = 0x5555555555555555"
definition magic1 :: u64 where "magic1 = 0x3333333333333333"
definition magic2 :: u64 where "magic2 = 0x0F0F0F0F0F0F0F0F"
definition magic3 :: u64 where "magic3 = 0x00FF00FF00FF00FF"
definition magic4 :: u64 where "magic4 = 0x0000FFFF0000FFFF"
definition magic5 :: u64 where "magic5 = 0x00000000FFFFFFFF"
definition magic6 :: u64 where "magic6 = 0xAAAAAAAAAAAAAAAA"

lemmas magic_defs = magic0_def magic1_def magic2_def magic3_def magic4_def magic5_def magic6_def

text \<open>
  The lines \<open>v |= v >> k\<close> in sequence; \<open>>>\<close> on a signed integer is arithmetic.
\<close>

definition smear_right :: "nat list \<Rightarrow> i64 \<Rightarrow> i64" where
  "smear_right ks v = fold (\<lambda>k v. v OR signed_drop_bit k v) ks v"

definition NextHighestPowerOfTwo :: "i64 \<Rightarrow> i64" where
  "NextHighestPowerOfTwo v =
     (if v \<le>s 0 then v else smear_right [1, 2, 4, 8, 16] (v - 1) + 1)"

definition NextHighestPowerOfTwoInt64 :: "i64 \<Rightarrow> i64" where
  "NextHighestPowerOfTwoInt64 v =
     (if v \<le>s 0 then v else smear_right [1, 2, 4, 8, 16, 32] (v - 1) + 1)"

text \<open>One line \<open>v = (v | (v << k)) & m\<close> of \<open>Interleave\<close>.\<close>

definition spread_step :: "nat \<Rightarrow> u64 \<Rightarrow> u64 \<Rightarrow> u64" where
  "spread_step k m v = (v OR push_bit k v) AND m"

definition spread :: "u64 \<Rightarrow> u64" where
  "spread v =
     (let v = spread_step 16 magic4 v;
          v = spread_step 8 magic3 v;
          v = spread_step 4 magic2 v;
          v = spread_step 2 magic1 v
      in spread_step 1 magic0 v)"

definition Interleave :: "i64 \<Rightarrow> i64 \<Rightarrow> i64" where
  "Interleave evn odb =
     (let v1 = spread (ucast (ucast evn :: u32));
          v2 = spread (ucast (ucast odb :: u32))
      in push_bit 1 v2 OR v1)"

text \<open>One line \<open>v = (v ^ (v >> k)) & m\<close> of \<open>Deinterleave\<close>.\<close>

definition gather_step :: "nat \<Rightarrow> u64 \<Rightarrow> u64 \<Rightarrow> u64" where
  "gather_step k m v = (v XOR drop_bit k v) AND m"

definition Deinterleave :: "i64 \<Rightarrow> i64" where
  "Deinterleave b =
     (let v = b AND magic0;
          v = gather_step 1 magic1 v;
          v = gather_step 2 magic2 v;
          v = gather_step 4 magic3 v;
          v = gather_step 8 magic4 v
      in gather_step 16 magic5 v)"

definition FlipFlop :: "i64 \<Rightarrow> i64" where
  "FlipFlop v = drop_bit 1 (v AND magic6) OR push_bit 1 (v AND magic0)"

definition ZigZagEncodeInt :: "i64 \<Rightarrow> i64" where
  "ZigZagEncodeInt i = (let v = ucast i :: i32 in scast (signed_drop_bit 31 v XOR push_bit 1 v))"

definition ZigZagEncodeInt64 :: "i64 \<Rightarrow> i64" where
  "ZigZagEncodeInt64 l = signed_drop_bit 63 l XOR push_bit 1 l"

definition ZigZagDecodeInt :: "i64 \<Rightarrow> i64" where
  "ZigZagDecodeInt i =
     (let u = ucast i :: u32 in scast (drop_bit 1 u XOR (- (ucast (i AND 1) :: i32))))"

definition ZigZagDecodeInt64 :: "i64 \<Rightarrow> i64" where
  "ZigZagDecodeInt64 l = drop_bit 1 l XOR (- (l AND 1))"

definition IsZeroOrPowerOfTwo :: "i64 \<Rightarrow> bool" where
  "IsZeroOrPowerOfTwo x \<longleftrightarrow> x AND (x - 1) = 0"

definition IsZeroOrPowerOfTwoInt64 :: "i64 \<Rightarrow> bool" where
  "IsZeroOrPowerOfTwoInt64 x \<longleftrightarrow> x AND (x - 1) = 0"

section \<open>Interleaving\<close>

lemma bit_magic:
  "\<forall>n<64. bit magic0 n = even n"
  "\<forall>n<64. bit magic1 n = even (n div 2)"
  "\<forall>n<64. bit magic2 n = even (n div 4)"
  "\<forall>n<64. bit magic3 n = even (n div 8)"
  "\<forall>n<64. bit magic4 n = even (n div 16)"
  "\<forall>n<64. bit magic5 n = even (n div 32)"
  "\<forall>n<64. bit magic6 n = odd n"
  unfolding all_less_64 magic_defs by code_simp+

lemmas bit_magic_at = bit_magic [rule_format]

lemma bit_spread_step:
  "bit (spread_step k m v) n = ((bit v n \<or> k \<le> n \<and> bit v (n - k)) \<and> n < 64 \<and> bit m n)"
  by (auto simp: spread_step_def bit_simps dest: bit_imp_le_length)

lemma bit_gather_step:
  "bit (gather_step k m v) n = ((bit v n \<noteq> bit v (n + k)) \<and> n < 64 \<and> bit m n)"
  by (auto simp: gather_step_def bit_simps add.commute dest: bit_imp_le_length)

lemma bit_ucast32: "bit (ucast (w :: u32) :: u64) n = (n < 32 \<and> bit w n)"
  by (auto simp: bit_ucast_iff dest: bit_imp_le_length)

lemma bit_spread: "\<forall>n<64. bit (spread (ucast (w :: u32))) n = (even n \<and> bit w (n div 2))"
  unfolding all_less_64 spread_def Let_def
  by (simp add: bit_spread_step bit_magic_at bit_ucast32 numeral_One [symmetric] del: One_nat_def numeral_One)

lemma bit_Deinterleave: "\<forall>n<64. bit (Deinterleave v) n = (n < 32 \<and> bit v (2 * n))"
  unfolding all_less_64 Deinterleave_def Let_def
  by (simp add: bit_gather_step bit_magic_at bit_and_iff numeral_2_eq_2 [symmetric])

lemma bit_FlipFlop:
  "n < 64 \<Longrightarrow> bit (FlipFlop v) n = (if even n then bit v (n + 1) else bit v (n - 1))"
  by (auto simp: FlipFlop_def bit_simps bit_magic_at odd_pos
      dest: bit_imp_le_length elim: oddE)

lemma bit_Interleave:
  "n < 64 \<Longrightarrow> bit (Interleave e d) n = (if even n then bit e (n div 2) else bit d (n div 2))"
  by (cases n) (auto simp: Interleave_def Let_def bit_simps bit_spread [rule_format]
      elim: oddE)

section \<open>Zig-zag coding\<close>

lemma signed_drop_bit_63: "signed_drop_bit 63 (l :: i64) = (if bit l 63 then - 1 else 0)"
proof (rule bit_word_eqI)
  fix n assume "n < LENGTH(64)"
  then show "bit (signed_drop_bit 63 l) n = bit (if bit l 63 then - 1 else 0 :: i64) n"
    by (cases n) (auto simp: bit_simps min_def)
qed

lemma ZigZagEncodeInt64_value:
  "uint (ZigZagEncodeInt64 l) = (if 0 \<le> sint l then 2 * sint l else - 2 * sint l - 1)"
proof (cases "bit l 63")
  case True
  then have b: "2 ^ 63 \<le> uint l" and s: "sint l = uint l - 2 ^ 64"
    using bit_top_iff [of l] sint_as_uint [of l] by simp_all
  have "ZigZagEncodeInt64 l = NOT (push_bit 1 l)"
    using True by (simp add: ZigZagEncodeInt64_def signed_drop_bit_63 xor.commute)
  moreover have "(2 * uint l) mod 2 ^ 64 = 2 * uint l - 2 ^ 64"
    using b uint_lt2p [of l] by (intro mod_once) simp_all
  ultimately show ?thesis
    using s uint_lt2p [of l] by (simp add: uint_not uint_push_bit)
next
  case False
  then show ?thesis 
    using bit_top_iff [of l] sint_as_uint [of l] uint_lt2p [of l]
    by (simp add: ZigZagEncodeInt64_def signed_drop_bit_63 uint_push_bit)
qed

lemma bit_ZigZagEncodeInt64:
  "n < 64 \<Longrightarrow> bit (ZigZagEncodeInt64 l) n = (bit l 63 \<noteq> (0 < n \<and> bit l (n - 1)))"
  by (cases n) (auto simp: ZigZagEncodeInt64_def bit_simps min_def dest: bit_imp_le_length)

lemma bit32_False: "32 \<le> n \<Longrightarrow> \<not> bit (w :: u32) n"
  by (auto dest: bit_imp_le_length)

text \<open>The 32-bit core of \<open>ZigZagEncodeInt\<close>.\<close>

definition zz32 :: "i32 \<Rightarrow> i32" where "zz32 v = signed_drop_bit 31 v XOR push_bit 1 v"

lemma bit_zz32:
  "n < 32 \<Longrightarrow> bit (zz32 l) n = (bit l 31 \<noteq> (0 < n \<and> bit l (n - 1)))"
  by (cases n) (auto simp: zz32_def bit_simps min_def dest: bit_imp_le_length)

lemma ucast_scast_i32: "ucast (scast (v :: i32) :: i64) = v"
  by (simp add: bit_eq_iff bit_simps)

lemma ucast_and_1: "(ucast (w AND 1 :: i64) :: i32) = ucast w AND 1"
  by (rule bit_word_eqI) (auto simp: bit_simps)

lemma ZigZagEncodeInt_eq: "ZigZagEncodeInt i = scast (zz32 (ucast i))"
  by (simp add: ZigZagEncodeInt_def zz32_def Let_def)

section \<open>Powers of two\<close>

definition smear :: "nat list \<Rightarrow> u64 \<Rightarrow> u64" where
  "smear ks v = fold (\<lambda>k v. v OR drop_bit k v) ks v"

lemma smear_step:
  assumes "\<And>i. bit y i \<longleftrightarrow> (\<exists>j\<ge>i. j < i + m \<and> bit v j)"
  shows "bit (y OR drop_bit m y) i \<longleftrightarrow> (\<exists>j\<ge>i. j < i + (m + m) \<and> bit v j)" (is "?l \<longleftrightarrow> ?r")
proof
  have l: "?l \<longleftrightarrow> bit y i \<or> bit y (m + i)"
    by (auto simp: bit_simps)
  show ?r if ?l
  proof -
    from that l consider "bit y i" | "bit y (m + i)" by blast
    then show ?thesis
    proof cases
      case 2
      then obtain j where "m + i \<le> j" "j < m + i + m" "bit v j" unfolding assms by auto
      then show ?thesis by (auto intro!: exI [of _ j])
    qed (auto simp: assms)
  qed
  show ?l if ?r
  proof -
    from that obtain j where j: "i \<le> j" "j < i + (m + m)" "bit v j" by auto
    show ?thesis
      unfolding l assms using j by (cases "j < i + m") (auto intro!: exI [of _ j])
  qed
qed

lemma bit_smear_rec:
  assumes "\<And>i. bit y i \<longleftrightarrow> (\<exists>j\<ge>i. j < i + 2 ^ a \<and> bit v j)"
  shows "bit (fold (\<lambda>k v. v OR drop_bit k v) (map ((^) 2) [a..<b]) y) i \<longleftrightarrow> (\<exists>j\<ge>i. j < i + 2 ^ max a b \<and> bit (v::u64) j)"
  using assms
proof (induction "b - a" arbitrary: a y i)
  case 0
  then show ?case by (simp add: max_def)
next
  case (Suc d)
  then have u: "[a..<b] = a # [Suc a..<b]" by (simp add: upt_rec)
  have step: "bit (y OR drop_bit (2 ^ a) y) i \<longleftrightarrow> (\<exists>j\<ge>i. j < i + 2 ^ Suc a \<and> bit v j)" for i
    using smear_step [of y "2 ^ a" v i] Suc.prems by (simp add: mult_2)
  have "d = b - Suc a" "max (Suc a) b = max a b" using Suc.hyps(2) by simp_all
  with Suc.hyps(1) [of "Suc a" "y OR drop_bit (2 ^ a) y" i] step show ?case
    by (simp add: u)
qed

lemma bit_smear:
  "bit (smear (map ((^) 2) [0..<b]) v) i \<longleftrightarrow> (\<exists>j\<ge>i. j < i + 2 ^ b \<and> bit v j)"
proof -
  have "bit v i \<longleftrightarrow> (\<exists>j\<ge>i. j < i + 2 ^ 0 \<and> bit v j)" for i
    by (auto dest: le_antisym)
  from bit_smear_rec [of v 0 v b i, OF this] show ?thesis by (simp add: smear_def)
qed

lemma smear_64: "bit (smear [1, 2, 4, 8, 16, 32] w) i \<longleftrightarrow> 2 ^ i \<le> uint w"
proof -
  have "[1, 2, 4, 8, 16, 32] = map ((^) (2::nat)) [0..<6]" by (simp add: upt_rec)
  moreover have "(\<exists>j\<ge>i. j < i + 2 ^ 6 \<and> bit w j) \<longleftrightarrow> (\<exists>j\<ge>i. bit w j)"
  proof -
    have "j < i + 64" if "bit w j" for j using bit_imp_le_length [OF that] by simp
    then show ?thesis by auto
  qed
  ultimately show ?thesis using bit_smear [of 6 w i] ex_bit_ge_iff [of i w] by simp
qed

lemma word_le_zero_s: "v \<le>s 0 \<longleftrightarrow> sint v \<le> 0"
  by (simp add: word_sle_eq)

lemma smear_signed:
  "\<not> bit v 63 \<Longrightarrow> 0 \<notin> set ks \<Longrightarrow> smear_right ks v = smear ks v"
proof (induction ks arbitrary: v)
  case (Cons k ks)
  have "v OR signed_drop_bit k v = v OR drop_bit k v"
    using Cons.prems(1) by (simp add: signed_drop_bit_nonneg)
  moreover have "\<not> bit (v OR drop_bit k v) 63"
    using Cons.prems by (simp add: bit_or_iff bit_drop_bit_eq bit64_False)
  ultimately show ?case using Cons by (simp add: smear_def smear_right_def)
qed (simp add: smear_def smear_right_def)

lemma NextHighestPowerOfTwoInt64_smear:
  assumes "0 < sint v"
  shows "NextHighestPowerOfTwoInt64 v = smear [1, 2, 4, 8, 16, 32] (v - 1) + 1"
  using assms smear_signed [OF sint_pos_i64(4) [OF assms], of "[1, 2, 4, 8, 16, 32]"]
  by (simp add: NextHighestPowerOfTwoInt64_def word_le_zero_s)

lemma and_pred_zero_iff: "x AND (x - 1) = 0 \<longleftrightarrow> x = 0 \<or> (\<exists>n<64. x = (2 ^ n :: u64))"
proof
  assume z: "x AND (x - 1) = 0"
  show "x = 0 \<or> (\<exists>n<64. x = 2 ^ n)"
  proof (cases "x = 0")
    case False
    obtain m where m: "m \<le> 64" "\<And>i. 2 ^ i \<le> uint x \<longleftrightarrow> i < m" "uint x < 2 ^ m"
      using ex_highest [of x 64] uint_lt2p [of x] by auto
    have "0 < uint x" using False by (simp add: word_neq_0_conv word_less_def)
    then obtain n where n: "m = Suc n" using m(2) [of 0] by (cases m) auto
    have lo: "2 ^ n \<le> uint x" using m(2) [of n] n by simp
    have pred: "uint (x - 1) = uint x - 1"
      using \<open>0 < uint x\<close> uint_sub_lem [of 1 x] by simp
    have "uint x = 2 ^ n"
    proof (rule ccontr)
      assume "uint x \<noteq> 2 ^ n"
      then have "bit (x - 1) n" "bit x n"
        using lo m(3) pred n by (auto intro!: bit_highest)
      then have "bit (x AND (x - 1)) n" by (simp add: bit_and_iff)
      with z show False by simp
    qed
    moreover have "uint x = uint (2 ^ n :: u64)" using calculation n m(1) by (simp add: uint_2p_word64)
    ultimately have "x = 2 ^ n" by (simp only: word_uint_eq_iff)
    moreover have "n < 64" using n m(1) by simp
    ultimately show ?thesis by blast
  qed simp
next
  assume "x = 0 \<or> (\<exists>n<64. x = 2 ^ n)"
  moreover have "2 ^ n AND (2 ^ n - 1) = (0 :: u64)" for n
    by (rule bit_word_eqI) (auto simp: mask_eq_exp_minus_1 [symmetric] bit_simps)
  ultimately show "x AND (x - 1) = 0" by auto
qed

lemma zigzag64_inverse: "ZigZagDecodeInt64 (ZigZagEncodeInt64 l) = l"
proof (rule bit_word_eqI)
  fix n assume "n < LENGTH(64)"
  then show "bit (ZigZagDecodeInt64 (ZigZagEncodeInt64 l)) n = bit l n"
    by (cases "n = 63")
       (auto simp: ZigZagDecodeInt64_def neg_and_1 bit_simps bit_ZigZagEncodeInt64 bit64_False)
qed

lemma zigzag32_inverse: "ZigZagDecodeInt (ZigZagEncodeInt (scast (v :: i32))) = scast v"
proof -
  have "drop_bit 1 (zz32 v) XOR (- (zz32 v AND 1)) = v"
  proof (rule bit_word_eqI)
    fix n assume "n < LENGTH(32)"
    then show "bit (drop_bit 1 (zz32 v) XOR (- (zz32 v AND 1))) n = bit v n"
      by (cases "n = 31") (auto simp: neg_and_1 bit_simps bit_zz32 bit32_False)
  qed
  then show ?thesis
    by (simp add: ZigZagEncodeInt_eq ZigZagDecodeInt_def ucast_scast_i32 ucast_and_1)
qed

section \<open>Properties\<close>

text \<open>
  C19: zig-zag coding of 32-bit and 64-bit integers is inverted by its decoder, and
  the 64-bit code of a value is twice its absolute value, less one when it is
  negative, so that small magnitudes get small codes.
\<close>

theorem zigzag_roundtrip:
  "ZigZagDecodeInt64 (ZigZagEncodeInt64 l) = l \<and>
   ZigZagDecodeInt (ZigZagEncodeInt (scast (v :: i32))) = scast v \<and>
   uint (ZigZagEncodeInt64 l) = (if 0 \<le> sint l then 2 * \<bar>sint l\<bar> else 2 * \<bar>sint l\<bar> - 1)"
  by (simp add: zigzag64_inverse zigzag32_inverse ZigZagEncodeInt64_value)

text \<open>
  interleaving the low 32 bits of two integers loses nothing.  \<open>Deinterleave\<close>
  recovers the low 32 bits of the even argument, and after \<open>FlipFlop\<close> those of the
  odd one.
\<close>

theorem interleave_roundtrip:
  "Deinterleave (Interleave e d) = ucast (ucast e :: u32) \<and>
   Deinterleave (FlipFlop (Interleave e d)) = ucast (ucast d :: u32)"
proof (intro conjI; rule bit_word_eqI)
  fix n assume n: "n < LENGTH(64)"
  show "bit (Deinterleave (Interleave e d)) n = bit (ucast (ucast e :: u32) :: u64) n"
    using n by (auto simp: bit_Deinterleave [rule_format] bit_Interleave bit_ucast32 bit_ucast_iff)
  show "bit (Deinterleave (FlipFlop (Interleave e d))) n = bit (ucast (ucast d :: u32) :: u64) n"
    using n by (auto simp: bit_Deinterleave [rule_format] bit_Interleave bit_FlipFlop bit_ucast32 bit_ucast_iff)
qed

text \<open>
  for every argument from 1 to \<open>2^62\<close>, \<open>NextHighestPowerOfTwoInt64\<close> returns the
  least power of two that is not below it.
\<close>

theorem next_highest_power_of_two_int64:
  assumes "0 < sint v" and "sint v \<le> 2 ^ 62"
  shows "\<exists>m. sint (NextHighestPowerOfTwoInt64 v) = 2 ^ m \<and> sint v \<le> 2 ^ m \<and> (m = 0 \<or> 2 ^ (m - 1) < sint v)"
proof -
  note w = sint_pos_i64(3) [OF assms(1)]
  have "uint (v - 1) < 2 ^ 62" using w assms(2) by simp
  then obtain m where m: "m \<le> 62" "\<And>i. 2 ^ i \<le> uint (v - 1) \<longleftrightarrow> i < m" "uint (v - 1) < 2 ^ m"
    using ex_highest [of "v - 1" 62] by metis
  have "smear [1, 2, 4, 8, 16, 32] (v - 1) = mask m"
    using m(1,2) by (intro bit_word_eqI) (simp add: smear_64 bit_mask_iff del: One_nat_def)
  then have r: "NextHighestPowerOfTwoInt64 v = 2 ^ m"
    using assms(1) by (simp add: NextHighestPowerOfTwoInt64_smear mask_eq_exp_minus_1)
  have "sint (2 ^ m :: i64) = 2 ^ m"
    using m(1) by (simp add: sint_as_uint bit_simps uint_2p_word64)
  moreover have "m = 0 \<or> 2 ^ (m - 1) \<le> uint (v - 1)"
    using m(2) [of "m - 1"] by force
  ultimately show ?thesis using m(3) w r by auto
qed

theorem next_highest_power_of_two_int64_witness:
  "\<exists>m. sint (NextHighestPowerOfTwoInt64 4294967297) = 2 ^ m \<and> sint (4294967297 :: i64) \<le> 2 ^ m
     \<and> (m = 0 \<or> 2 ^ (m - 1) < sint (4294967297 :: i64))"
  by (rule next_highest_power_of_two_int64) simp_all

text \<open>
  \<open>NextHighestPowerOfTwo\<close> takes a Go \<open>int\<close>, 64 bits wide, but smears only 32
  bits: above \<open>2^32\<close> its result need not be a power of two.  At \<open>2^32 + 1\<close> it
  returns \<open>2^33 - 1\<close>, which the \<open>int64\<close> variant computes correctly as \<open>2^33\<close> and
  which \<open>IsZeroOrPowerOfTwo\<close> rejects.
\<close>

theorem next_highest_power_of_two_int_bug:
  "NextHighestPowerOfTwo 4294967297 = 8589934591 \<and>
   NextHighestPowerOfTwoInt64 4294967297 = 8589934592 \<and>
   \<not> IsZeroOrPowerOfTwo (NextHighestPowerOfTwo 4294967297)"
  by code_simp

text \<open>
  the bit test of \<open>IsZeroOrPowerOfTwo\<close> and its \<open>int64\<close> variant holds exactly of
  zero and of the 64 powers of two, read as unsigned integers.
\<close>

theorem is_zero_or_power_of_two:
  "(IsZeroOrPowerOfTwo x \<longleftrightarrow> x = 0 \<or> (\<exists>n<64. x = 2 ^ n)) \<and>
   (IsZeroOrPowerOfTwoInt64 x \<longleftrightarrow> x = 0 \<or> (\<exists>n<64. x = 2 ^ n))"
  by (simp add: IsZeroOrPowerOfTwo_def IsZeroOrPowerOfTwoInt64_def and_pred_zero_iff)

end
