(* ===== verification/Data_IO.thy ===== *)
theory Data_IO
  imports Bit_Util
begin

text \<open>
  \<^verbatim>\<open>store/data_output.go\<close>, \<^verbatim>\<open>spi/base_data_input.go\<close>,
  \<^verbatim>\<open>store/byte_array_data_output.go\<close> and \<^verbatim>\<open>store/byte_array_data_input.go\<close>:
  Lucene's low-level encodings over a primitive writer and a primitive reader,
  and the two byte-array implementations of those primitives.

  The Go interfaces \<open>PrimitiveWriter\<close> and \<open>DataInputCore\<close> are records of functions
  over an implementation state.  A buffer that a callee fills is passed in and
  returned.  A read loop runs until the input delivers a byte without its
  continuation bit; over an arbitrary input it need not stop, so the derived
  readers return \<open>None\<close> for divergence.

  Locale \<open>byte_sink\<close> is what an output promises, \<open>byte_source\<close> what an input
  promises; both are interpreted on the byte-array implementations.
\<close>

section \<open>The primitive interfaces\<close>

record 's prim_writer =
  pw_WriteByte :: "u8 \<Rightarrow> ('s, unit) act"
  pw_WriteBytes :: "u8 list \<Rightarrow> int \<Rightarrow> int \<Rightarrow> ('s, unit) act"

record 's input_core =
  ic_ReadByte :: "('s, u8) act"
  ic_ReadBytes :: "u8 list \<Rightarrow> int \<Rightarrow> int \<Rightarrow> ('s, u8 list) act"
  ic_SkipBytes :: "int \<Rightarrow> ('s, unit) act"

text \<open>A reading call that may diverge.\<close>

type_synonym ('s, 'a) ract = "'s \<Rightarrow> ('a outcome \<times> 's) option"

definition lift_ract :: "('s, 'a) act \<Rightarrow> ('s, 'a) ract" where
  "lift_ract m s = Some (m s)"

definition ret_ract :: "'a \<Rightarrow> ('s, 'a) ract" where
  "ret_ract a s = Some (Ok a, s)"

definition fail_ract :: "go_error \<Rightarrow> ('s, 'a) ract" where
  "fail_ract e s = Some (Err e, s)"

definition panic_ract :: "string \<Rightarrow> ('s, 'a) ract" where
  "panic_ract p s = Some (Panic p, s)"

definition bind_ract :: "('s, 'a) ract \<Rightarrow> ('a \<Rightarrow> ('s, 'b) ract) \<Rightarrow> ('s, 'b) ract" where
  "bind_ract m f s = (case m s of None \<Rightarrow> None
     | Some (r, s') \<Rightarrow> (case r of Ok a \<Rightarrow> f a s' | Err e \<Rightarrow> Some (Err e, s') | Panic p \<Rightarrow> Some (Panic p, s')))"

definition of_outcome :: "'a outcome \<Rightarrow> ('s, 'a) ract" where
  "of_outcome r s = Some (r, s)"

section \<open>BaseDataOutput\<close>

definition WriteByte :: "'s prim_writer \<Rightarrow> u8 \<Rightarrow> ('s, unit) act" where
  "WriteByte W val = pw_WriteByte W val"

definition WriteBytes :: "'s prim_writer \<Rightarrow> u8 list \<Rightarrow> int \<Rightarrow> int \<Rightarrow> ('s, unit) act" where
  "WriteBytes W val offset len = pw_WriteBytes W val offset len"

definition WriteBytesN :: "'s prim_writer \<Rightarrow> u8 list \<Rightarrow> int \<Rightarrow> ('s, unit) act" where
  "WriteBytesN W val n = WriteBytes W val 0 n"

definition WriteInt :: "'s prim_writer \<Rightarrow> i32 \<Rightarrow> ('s, unit) act" where
  "WriteInt W i =
     seq_act (WriteByte W (ucast i))
    (seq_act (WriteByte W (ucast (signed_drop_bit 8 i)))
    (seq_act (WriteByte W (ucast (signed_drop_bit 16 i)))
             (WriteByte W (ucast (signed_drop_bit 24 i)))))"

definition WriteShort :: "'s prim_writer \<Rightarrow> i16 \<Rightarrow> ('s, unit) act" where
  "WriteShort W i =
     seq_act (WriteByte W (ucast i))
             (WriteByte W (ucast (signed_drop_bit 8 i)))"

text \<open>
  The loop shared by \<open>WriteVInt\<close> (\<open>val\<close> a \<open>uint32\<close>) and \<open>writeSignedVLong\<close> (a
  \<open>uint64\<close>).
\<close>

function write_vloop :: "'s prim_writer \<Rightarrow> 'w::len word \<Rightarrow> ('s, unit) act" where
  "write_vloop W val =
     (if val AND NOT 0x7F \<noteq> 0
      then seq_act (WriteByte W (ucast ((val AND 0x7F) OR 0x80))) (write_vloop W (drop_bit 7 val))
      else WriteByte W (ucast val))"
  by pat_completeness auto
termination
proof (relation "measure (\<lambda>(W, val). unat val)", goal_cases)
  case (2 W val)
  then have "val \<noteq> 0" by auto
  then have "0 < unat val" by (simp add: unat_gt_0)
  then have "drop_bit 7 (unat val) < unat val" by (simp add: drop_bit_eq_div)
  then show ?case by (simp only: in_measure prod.case unat_drop_bit_eq)
qed simp

declare write_vloop.simps [simp del]

definition WriteVInt :: "'s prim_writer \<Rightarrow> i32 \<Rightarrow> ('s, unit) act" where
  "WriteVInt W i = write_vloop W i"

definition WriteZInt :: "'s prim_writer \<Rightarrow> i32 \<Rightarrow> ('s, unit) act" where
  "WriteZInt W i = WriteVInt W (ucast (ZigZagEncodeInt (scast i)))"

definition WriteLong :: "'s prim_writer \<Rightarrow> i64 \<Rightarrow> ('s, unit) act" where
  "WriteLong W i = seq_act (WriteInt W (ucast i)) (WriteInt W (ucast (signed_drop_bit 32 i)))"

definition writeSignedVLong :: "'s prim_writer \<Rightarrow> i64 \<Rightarrow> ('s, unit) act" where
  "writeSignedVLong W i = write_vloop W i"

definition WriteVLong :: "'s prim_writer \<Rightarrow> i64 \<Rightarrow> ('s, unit) act" where
  "WriteVLong W i =
     (if i <s 0 then fail_act (Errorf ''cannot write negative vLong'') else writeSignedVLong W i)"

definition WriteZLong :: "'s prim_writer \<Rightarrow> i64 \<Rightarrow> ('s, unit) act" where
  "WriteZLong W i = writeSignedVLong W (ZigZagEncodeInt64 i)"

text \<open>A Go string is its sequence of bytes.\<close>

type_synonym gostring = "u8 list"

definition WriteString :: "'s prim_writer \<Rightarrow> gostring \<Rightarrow> ('s, unit) act" where
  "WriteString W s =
     seq_act (WriteVInt W (word_of_int (int (length s))))
             (WriteBytes W s 0 (int (length s)))"

text \<open>A map is written in the order in which the range loop visits it.\<close>

fun write_pairs :: "'s prim_writer \<Rightarrow> (gostring \<times> gostring) list \<Rightarrow> ('s, unit) act" where
  "write_pairs W [] = ret_act ()"
| "write_pairs W ((k, v) # kvs) =
     seq_act (WriteString W k) (seq_act (WriteString W v) (write_pairs W kvs))"

definition WriteMapOfStrings :: "'s prim_writer \<Rightarrow> (gostring \<times> gostring) list \<Rightarrow> ('s, unit) act" where
  "WriteMapOfStrings W m =
     seq_act (WriteVInt W (word_of_int (int (length m)))) (write_pairs W m)"

fun write_strings :: "'s prim_writer \<Rightarrow> gostring list \<Rightarrow> ('s, unit) act" where
  "write_strings W [] = ret_act ()"
| "write_strings W (v # vs) = seq_act (WriteString W v) (write_strings W vs)"

definition WriteSetOfStrings :: "'s prim_writer \<Rightarrow> gostring list \<Rightarrow> ('s, unit) act" where
  "WriteSetOfStrings W s =
     seq_act (WriteVInt W (word_of_int (int (length s)))) (write_strings W s)"

text \<open>
  \<open>CopyBytes\<close> moves bytes from an input to this output through a buffer; the state
  is the pair of both.
\<close>

definition copyBufferSize :: int where "copyBufferSize = 16384"

function copy_loop ::
  "'i input_core \<Rightarrow> 's prim_writer \<Rightarrow> int \<Rightarrow> u8 list \<Rightarrow> ('i \<times> 's) \<Rightarrow> unit outcome \<times> ('i \<times> 's)" where
  "copy_loop C W left buf (si, so) =
     (if left > 0
      then (let toCopy = (if left > copyBufferSize then copyBufferSize else left)
            in case ic_ReadBytes C buf 0 toCopy si of
                 (Err e, si') \<Rightarrow> (Err e, (si', so))
               | (Panic p, si') \<Rightarrow> (Panic p, (si', so))
               | (Ok buf', si') \<Rightarrow>
                   (case WriteBytes W buf' 0 toCopy so of
                      (Err e, so') \<Rightarrow> (Err e, (si', so'))
                    | (Panic p, so') \<Rightarrow> (Panic p, (si', so'))
                    | (Ok _, so') \<Rightarrow> copy_loop C W (left - toCopy) buf' (si', so')))
      else (Ok (), (si, so)))"
  by pat_completeness auto
termination
  by (relation "measure (\<lambda>(C, W, left, buf, s). nat left)") (auto simp: copyBufferSize_def)

declare copy_loop.simps [simp del]

text \<open>\<open>copyBuffer\<close> is the scratch slice of the output, \<open>None\<close> before the first call.\<close>

definition CopyBytes ::
  "'i input_core \<Rightarrow> 's prim_writer \<Rightarrow> u8 list option \<Rightarrow> int \<Rightarrow> ('i \<times> 's) \<Rightarrow> unit outcome \<times> ('i \<times> 's)" where
  "CopyBytes C W copyBuffer numBytes st =
     (if numBytes < 0 then (Err (Errorf ''numBytes must be non-negative''), st)
      else copy_loop C W numBytes
        (case copyBuffer of None \<Rightarrow> replicate (nat copyBufferSize) 0 | Some b \<Rightarrow> b) st)"

definition copyBuffer_ok :: "u8 list option \<Rightarrow> bool" where
  "copyBuffer_ok cb \<longleftrightarrow> (case cb of None \<Rightarrow> True | Some b \<Rightarrow> int (length b) = copyBufferSize)"

section \<open>BaseDataInput\<close>

definition ReadByte :: "'s input_core \<Rightarrow> ('s, u8) ract" where
  "ReadByte C = lift_ract (ic_ReadByte C)"

definition ReadBytes :: "'s input_core \<Rightarrow> u8 list \<Rightarrow> int \<Rightarrow> int \<Rightarrow> ('s, u8 list) ract" where
  "ReadBytes C b offset len = lift_ract (ic_ReadBytes C b offset len)"

definition ReadBytesBuffered :: "'s input_core \<Rightarrow> u8 list \<Rightarrow> int \<Rightarrow> int \<Rightarrow> bool \<Rightarrow> ('s, u8 list) ract" where
  "ReadBytesBuffered C buf offset len useBuffer = ReadBytes C buf offset len"

definition ReadShort :: "'s input_core \<Rightarrow> ('s, i16) ract" where
  "ReadShort C =
     bind_ract (ReadByte C) (\<lambda>b1.
     bind_ract (ReadByte C) (\<lambda>b2.
     ret_ract (push_bit 8 (ucast b2 AND 0xFF) OR (ucast b1 AND 0xFF))))"

definition ReadInt :: "'s input_core \<Rightarrow> ('s, i32) ract" where
  "ReadInt C =
     bind_ract (ReadByte C) (\<lambda>b1.
     bind_ract (ReadByte C) (\<lambda>b2.
     bind_ract (ReadByte C) (\<lambda>b3.
     bind_ract (ReadByte C) (\<lambda>b4.
     ret_ract (push_bit 24 (ucast b4) OR push_bit 16 (ucast b3) OR push_bit 8 (ucast b2) OR ucast b1)))))"

text \<open>The loop shared by \<open>ReadVInt\<close> and \<open>ReadVLong\<close>.\<close>

partial_function (option) read_vloop ::
  "'s input_core \<Rightarrow> 'w::len word \<Rightarrow> nat \<Rightarrow> u8 \<Rightarrow> 's \<Rightarrow> ('w word outcome \<times> 's) option" where
  "read_vloop C i shift bVal s =
     (if bVal AND 0x80 \<noteq> 0
      then (case ic_ReadByte C s of
              (r, s') \<Rightarrow> (case r of
                 Err e \<Rightarrow> Some (Err e, s')
               | Panic p \<Rightarrow> Some (Panic p, s')
               | Ok b \<Rightarrow> read_vloop C (i OR push_bit shift (ucast (b AND 0x7F))) (shift + 7) b s'))
      else Some (Ok i, s))"

definition ReadVInt :: "'s input_core \<Rightarrow> ('s, i32) ract" where
  "ReadVInt C = bind_ract (ReadByte C) (\<lambda>bVal. read_vloop C (ucast (bVal AND 0x7F)) 7 bVal)"

definition ReadZInt :: "'s input_core \<Rightarrow> ('s, i32) ract" where
  "ReadZInt C = bind_ract (ReadVInt C) (\<lambda>v. ret_ract (ucast (ZigZagDecodeInt (scast v))))"

definition ReadLong :: "'s input_core \<Rightarrow> ('s, i64) ract" where
  "ReadLong C =
     bind_ract (ReadInt C) (\<lambda>low.
     bind_ract (ReadInt C) (\<lambda>high.
     ret_ract (ucast low OR push_bit 32 (scast high))))"

text \<open>The loops of \<open>ReadLongs\<close>, \<open>ReadInts\<close> and \<open>ReadFloats\<close>: \<open>dst[offset+i] = v\<close> for \<open>i < length\<close>.\<close>

fun read_into :: "('s, 'a) ract \<Rightarrow> nat \<Rightarrow> int \<Rightarrow> 'a list \<Rightarrow> ('s, 'a list) ract" where
  "read_into rd 0 at dst = ret_ract dst"
| "read_into rd (Suc n) at dst =
     bind_ract rd (\<lambda>v. bind_ract (of_outcome (store dst at v)) (read_into rd n (at + 1)))"

definition ReadLongs :: "'s input_core \<Rightarrow> i64 list \<Rightarrow> int \<Rightarrow> int \<Rightarrow> ('s, i64 list) ract" where
  "ReadLongs C dst offset len =
     (if offset + len > int (length dst) then fail_ract (Errorf ''index out of bounds'')
      else read_into (ReadLong C) (nat len) offset dst)"

definition ReadInts :: "'s input_core \<Rightarrow> i32 list \<Rightarrow> int \<Rightarrow> int \<Rightarrow> ('s, i32 list) ract" where
  "ReadInts C dst offset len =
     (if offset + len > int (length dst) then fail_ract (Errorf ''index out of bounds'')
      else read_into (ReadInt C) (nat len) offset dst)"

text \<open>A \<open>float32\<close> is its bit pattern; \<open>math.Float32frombits\<close> is the identity on patterns.\<close>

definition ReadFloats :: "'s input_core \<Rightarrow> u32 list \<Rightarrow> int \<Rightarrow> int \<Rightarrow> ('s, u32 list) ract" where
  "ReadFloats C dst offset len =
     (if offset + len > int (length dst) then fail_ract (Errorf ''index out of bounds'')
      else read_into (ReadInt C) (nat len) offset dst)"

definition ReadVLong :: "'s input_core \<Rightarrow> ('s, i64) ract" where
  "ReadVLong C = bind_ract (ReadByte C) (\<lambda>bVal. read_vloop C (ucast (bVal AND 0x7F)) 7 bVal)"

definition ReadZLong :: "'s input_core \<Rightarrow> ('s, i64) ract" where
  "ReadZLong C = bind_ract (ReadVLong C) (\<lambda>v. ret_ract (ZigZagDecodeInt64 v))"

text \<open>\<open>make([]byte, n)\<close> panics when \<open>n\<close> is negative.\<close>

definition ReadString :: "'s input_core \<Rightarrow> ('s, gostring) ract" where
  "ReadString C =
     bind_ract (ReadVInt C) (\<lambda>len.
       if sint len < 0 then panic_ract ''makeslice: len out of range''
       else ReadBytes C (replicate (nat (sint len)) 0) 0 (sint len))"

fun read_pairs :: "'s input_core \<Rightarrow> nat \<Rightarrow> (gostring \<rightharpoonup> gostring) \<Rightarrow> ('s, gostring \<rightharpoonup> gostring) ract" where
  "read_pairs C 0 res = ret_ract res"
| "read_pairs C (Suc n) res =
     bind_ract (ReadString C) (\<lambda>k.
     bind_ract (ReadString C) (\<lambda>v.
     read_pairs C n (res(k \<mapsto> v))))"

definition ReadMapOfStrings :: "'s input_core \<Rightarrow> ('s, gostring \<rightharpoonup> gostring) ract" where
  "ReadMapOfStrings C =
     bind_ract (ReadVInt C) (\<lambda>count.
       if count = 0 then ret_ract Map.empty
       else read_pairs C (nat (sint count)) Map.empty)"

fun read_strings :: "'s input_core \<Rightarrow> nat \<Rightarrow> gostring list \<Rightarrow> ('s, gostring list) ract" where
  "read_strings C 0 res = ret_ract res"
| "read_strings C (Suc n) res = bind_ract (ReadString C) (\<lambda>s. read_strings C n (res @ [s]))"

definition ReadSetOfStrings :: "'s input_core \<Rightarrow> ('s, gostring list) ract" where
  "ReadSetOfStrings C =
     bind_ract (ReadVInt C) (\<lambda>count.
       if count = 0 then ret_ract []
       else if sint count < 0 then panic_ract ''makeslice: cap out of range''
       else read_strings C (nat (sint count)) [])"

definition SkipBytes :: "'s input_core \<Rightarrow> int \<Rightarrow> ('s, unit) ract" where
  "SkipBytes C numBytes = lift_ract (ic_SkipBytes C numBytes)"


section \<open>Contracts of outputs and inputs\<close>

text \<open>The bytes of Lucene's variable-length and fixed-width encodings.\<close>

fun vbytes :: "nat \<Rightarrow> u8 list" where
  "vbytes n = (if n < 128 then [of_nat n] else of_nat (n mod 128 + 128) # vbytes (n div 128))"

declare vbytes.simps [simp del]

definition int_bytes :: "i32 \<Rightarrow> u8 list" where
  "int_bytes i = [ucast i, ucast (drop_bit 8 i), ucast (drop_bit 16 i), ucast (drop_bit 24 i)]"

definition long_bytes :: "i64 \<Rightarrow> u8 list" where
  "long_bytes i = int_bytes (ucast i) @ int_bytes (ucast (drop_bit 32 i))"

definition string_bytes :: "gostring \<Rightarrow> u8 list" where
  "string_bytes s = vbytes (length s) @ s"

definition map_bytes :: "(gostring \<times> gostring) list \<Rightarrow> u8 list" where
  "map_bytes m = vbytes (length m) @ concat (map (\<lambda>(k, v). string_bytes k @ string_bytes v) m)"

definition set_bytes :: "gostring list \<Rightarrow> u8 list" where
  "set_bytes s = vbytes (length s) @ concat (map string_bytes s)"

text \<open>
  \<open>writes ok room written m bs\<close>: in every good state with room for \<open>bs\<close> the call \<open>m\<close>
  succeeds and appends exactly \<open>bs\<close>.  \<open>reads ok rest rd bs v\<close>: in every good state whose
  unread bytes start with \<open>bs\<close> the call \<open>rd\<close> returns \<open>v\<close> and consumes exactly \<open>bs\<close>.
\<close>

definition writes :: "('s \<Rightarrow> bool) \<Rightarrow> ('s \<Rightarrow> nat) \<Rightarrow> ('s \<Rightarrow> u8 list) \<Rightarrow> ('s, unit) act \<Rightarrow> u8 list \<Rightarrow> bool" where
  "writes ok room written m bs \<longleftrightarrow>
     (\<forall>s. ok s \<longrightarrow> length bs \<le> room s \<longrightarrow>
        (\<exists>s'. m s = (Ok (), s') \<and> ok s' \<and> written s' = written s @ bs \<and> room s' = room s - length bs))"

definition reads :: "('s \<Rightarrow> bool) \<Rightarrow> ('s \<Rightarrow> u8 list) \<Rightarrow> ('s, 'a) ract \<Rightarrow> u8 list \<Rightarrow> 'a \<Rightarrow> bool" where
  "reads ok rest rd bs v \<longleftrightarrow>
     (\<forall>s ys. ok s \<longrightarrow> rest s = bs @ ys \<longrightarrow> (\<exists>s'. rd s = Some (Ok v, s') \<and> ok s' \<and> rest s' = ys))"

lemma writesD:
  assumes "writes ok room written m bs" "ok s" "length bs \<le> room s"
  obtains s' where "m s = (Ok (), s')" "ok s'" "written s' = written s @ bs" "room s' = room s - length bs"
  using assms unfolding writes_def by blast

lemma readsD:
  assumes "reads ok rest rd bs v" "ok s" "rest s = bs @ ys"
  obtains s' where "rd s = Some (Ok v, s')" "ok s'" "rest s' = ys"
  using assms unfolding reads_def by blast

lemma writes_ret: "writes ok room written (ret_act ()) []"
  by (simp add: writes_def ret_act_def)

lemma writes_seq:
  assumes m: "writes ok room written m bs" and k: "writes ok room written k cs"
  shows "writes ok room written (seq_act m k) (bs @ cs)"
  unfolding writes_def
proof (intro allI impI)
  fix s assume s: "ok s" "length (bs @ cs) \<le> room s"
  obtain s1 where s1: "m s = (Ok (), s1)" "ok s1" "written s1 = written s @ bs" "room s1 = room s - length bs"
    by (rule writesD [OF m s(1)]) (use s(2) in auto)
  obtain s2 where "k s1 = (Ok (), s2)" "ok s2" "written s2 = written s1 @ cs" "room s2 = room s1 - length cs"
    by (rule writesD [OF k s1(2)]) (use s(2) s1(4) in auto)
  with s1 show "\<exists>s'. seq_act m k s = (Ok (), s') \<and> ok s' \<and> written s' = written s @ bs @ cs \<and> room s' = room s - length (bs @ cs)"
    by (auto simp: seq_act_Ok)
qed

lemma writes_Cons:
  "writes ok room written m [b] \<Longrightarrow> writes ok room written k bs \<Longrightarrow> writes ok room written (seq_act m k) (b # bs)"
  using writes_seq [of ok room written m "[b]" k bs] by simp

lemma reads_ret: "reads ok rest (ret_ract v) [] v"
  by (simp add: reads_def ret_ract_def)

lemma reads_bind:
  assumes rd: "reads ok rest rd bs a" and f: "reads ok rest (f a) cs v"
  shows "reads ok rest (bind_ract rd f) (bs @ cs) v"
  unfolding reads_def
proof (intro allI impI)
  fix s ys assume s: "ok s" "rest s = (bs @ cs) @ ys"
  obtain s1 where s1: "rd s = Some (Ok a, s1)" "ok s1" "rest s1 = cs @ ys"
    by (rule readsD [OF rd s(1), of "cs @ ys"]) (use s(2) in auto)
  obtain s2 where "f a s1 = Some (Ok v, s2)" "ok s2" "rest s2 = ys"
    by (rule readsD [OF f s1(2,3)])
  with s1 show "\<exists>s'. bind_ract rd f s = Some (Ok v, s') \<and> ok s' \<and> rest s' = ys"
    by (auto simp: bind_ract_def)
qed

lemma reads_bind_Cons:
  "reads ok rest rd [b] a \<Longrightarrow> reads ok rest (f a) bs v \<Longrightarrow> reads ok rest (bind_ract rd f) (b # bs) v"
  using reads_bind [of ok rest rd "[b]" a f bs v] by simp

lemma reads_bind_ret: "reads ok rest rd bs a \<Longrightarrow> reads ok rest (bind_ract rd (\<lambda>x. ret_ract (f x))) bs (f a)"
  using reads_bind [of ok rest rd bs a "\<lambda>x. ret_ract (f x)" "[]" "f a"] by (simp add: reads_ret)

subsection \<open>Seven-bit groups\<close>

lemma low7:
  assumes "m < 128"
  shows "(of_nat m :: u8) AND 0x7F = of_nat m" "(of_nat m :: u8) AND 0x80 = 0"
    "(of_nat (m + 128) :: u8) AND 0x7F = of_nat m" "(of_nat (m + 128) :: u8) AND 0x80 \<noteq> 0"
proof -
  have *: "\<forall>m\<in>set [0..<128]. (of_nat m :: u8) AND 0x7F = of_nat m \<and> (of_nat m :: u8) AND 0x80 = 0
     \<and> (of_nat (m + 128) :: u8) AND 0x7F = of_nat m \<and> (of_nat (m + 128) :: u8) AND 0x80 \<noteq> 0"
    by code_simp
  have "m \<in> set [0..<128]" using assms by simp
  from bspec [OF * this]
  show "(of_nat m :: u8) AND 0x7F = of_nat m" "(of_nat m :: u8) AND 0x80 = 0"
    "(of_nat (m + 128) :: u8) AND 0x7F = of_nat m" "(of_nat (m + 128) :: u8) AND 0x80 \<noteq> 0"
    by blast+
qed

lemma seven_mask: "(0x7F :: 'w::len word) = mask 7"
  by (simp add: mask_eq_exp_minus_1)

lemma and_not_7F: "(val :: 'w::len word) AND NOT 0x7F = 0 \<longleftrightarrow> unat val < 128"
proof -
  have "val AND NOT 0x7F = 0 \<longleftrightarrow> val = take_bit 7 val"
    unfolding seven_mask take_bit_eq_mask 
    by (auto simp: bit_eq_iff bit_simps)
  also have "\<dots> \<longleftrightarrow> unat val = take_bit 7 (unat val)"
    by (metis unsigned_take_bit_eq word_unat_eq_iff)
  also have "\<dots> \<longleftrightarrow> unat val < 128"
    by (simp add: take_bit_eq_mod) (metis mod_less mod_less_divisor zero_less_numeral)
  finally show ?thesis .
qed

lemma ucast_of_nat_unat: "ucast (w :: 'a::len word) = (of_nat (unat w) :: 'b::len word)"
  by simp

lemma group7: "ucast (((val :: 'w::len word) AND 0x7F) OR 0x80) = (of_nat (unat val mod 128 + 128) :: u8)"
  if "8 \<le> LENGTH('w)"
proof -
  have "unat (val AND 0x7F) = unat val mod 128"
    unfolding seven_mask take_bit_eq_mask [symmetric] unsigned_take_bit_eq by (simp add: take_bit_eq_mod)
  then have "ucast (val AND 0x7F) = (of_nat (unat val mod 128) :: u8)"
    by (simp only: ucast_of_nat_unat)
  moreover have "ucast ((val AND 0x7F) OR 0x80) = (ucast (val AND 0x7F) OR 0x80 :: u8)"
  proof -
    have "ucast (0x80 :: 'w word) = (0x80 :: u8)"
      using that by (simp add: unsigned_ucast_eq take_bit_word_eq_self)
    then show ?thesis by (simp add: unsigned_or_eq)
  qed
  moreover have "(of_nat m OR 0x80 :: u8) = of_nat (m + 128)" if "m < 128" for m
  proof -
    have *: "\<forall>m\<in>set [0..<128]. (of_nat m OR 0x80 :: u8) = of_nat (m + 128)"
      by code_simp
    show ?thesis using bspec [OF *, of m] that by simp
  qed
  ultimately show ?thesis by simp
qed

lemma of_nat_group7:
  "(of_nat n :: 'w::len word) = of_nat (n mod 128) OR push_bit 7 (of_nat (n div 128))"
proof -
  have "of_nat n = (of_nat (n mod 128) + push_bit 7 (of_nat (n div 128)) :: 'w word)"
  proof -
    have "of_nat n = (of_nat (n mod 128 + (n div 128) * 128) :: 'w word)" by simp
    also have "\<dots> = of_nat (n mod 128) + of_nat (n div 128) * 2 ^ 7"
      by (simp only: of_nat_add of_nat_mult) simp
    finally show ?thesis by (simp only: push_bit_eq_mult)
  qed
  also have "\<dots> = of_nat (n mod 128) OR push_bit 7 (of_nat (n div 128))"
  proof (rule disjunctive_add)
    fix k
    have "\<not> bit (of_nat (n mod 128) :: 'w word) k" if "7 \<le> k"
    proof -
      have "n mod 128 = take_bit 7 n" by (simp add: take_bit_eq_mod)
      then show ?thesis using that by (simp add: bit_simps)
    qed
    then show "\<not> bit (of_nat (n mod 128) :: 'w word) k \<or> \<not> bit (push_bit 7 (of_nat (n div 128)) :: 'w word) k"
      by (auto simp: bit_simps)
  qed
  finally show ?thesis .
qed

lemma ucast_low7: "m < 128 \<Longrightarrow> ucast (of_nat m :: u8) = (of_nat m :: 'w::len word)"
  unfolding ucast_of_nat_unat by (simp add: unat_of_nat)

section \<open>What an output promises\<close>

locale byte_sink =
  fixes W :: "'s prim_writer" and ok :: "'s \<Rightarrow> bool" and room :: "'s \<Rightarrow> nat" and written :: "'s \<Rightarrow> u8 list"
  assumes WriteByte_law: "writes ok room written (pw_WriteByte W b) [b]"
    and WriteBytes_law: "0 \<le> offset \<Longrightarrow> 0 \<le> len \<Longrightarrow> offset + len \<le> int (length bs) \<Longrightarrow>
      writes ok room written (pw_WriteBytes W bs offset len) (take (nat len) (drop (nat offset) bs))"
begin

lemma WriteByte_writes: "writes ok room written (WriteByte W b) [b]"
  by (simp add: WriteByte_def WriteByte_law)

lemma WriteBytes_writes: "writes ok room written (WriteBytes W bs 0 (int (length bs))) bs"
  using WriteBytes_law [of 0 "int (length bs)" bs] by (simp add: WriteBytes_def)

lemma WriteShort_writes: "writes ok room written (WriteShort W i) [ucast i, ucast (drop_bit 8 i)]"
proof -
  have "(ucast (signed_drop_bit 8 i) :: u8) = ucast (drop_bit 8 i)"
    by (rule bit_word_eqI) (auto simp: bit_simps)
  then show ?thesis unfolding WriteShort_def by (auto intro!: writes_Cons WriteByte_writes)
qed

lemma WriteInt_writes: "writes ok room written (WriteInt W i) (int_bytes i)"
proof -
  have "(ucast (signed_drop_bit n i) :: u8) = ucast (drop_bit n i)" if "n + 8 \<le> 32" for n
    using that by (intro bit_word_eqI) (auto simp: bit_simps)
  then show ?thesis unfolding WriteInt_def int_bytes_def
    by (simp add: writes_Cons WriteByte_writes)
qed

lemma WriteLong_writes: "writes ok room written (WriteLong W i) (long_bytes i)"
proof -
  have "(ucast (signed_drop_bit 32 i) :: i32) = ucast (drop_bit 32 i)"
    by (rule bit_word_eqI) (auto simp: bit_simps)
  then show ?thesis unfolding WriteLong_def long_bytes_def
    by (simp add: writes_seq WriteInt_writes)
qed

lemma write_vloop_writes: "8 \<le> LENGTH('w::len) \<Longrightarrow> writes ok room written (write_vloop W (val :: 'w word)) (vbytes (unat val))"
proof (induction "unat val" arbitrary: val rule: less_induct)
  case less
  show ?case
  proof (cases "unat val < 128")
    case True
    then show ?thesis using and_not_7F [of val]
      by (simp add: write_vloop.simps [of W val] vbytes.simps WriteByte_writes)
  next
    case False
    have d: "unat (drop_bit 7 val) = unat val div 128"
      by (simp only: unat_drop_bit_eq) (simp add: drop_bit_eq_div)
    have "writes ok room written (write_vloop W (drop_bit 7 val)) (vbytes (unat val div 128))"
      using less.hyps [of "drop_bit 7 val"] less.prems False by (simp add: d)
    then show ?thesis using False and_not_7F [of val] group7 [OF less.prems, of val]
      by (simp add: write_vloop.simps [of W val] vbytes.simps [of "unat val"] writes_Cons WriteByte_writes)
  qed
qed

lemma WriteVInt_writes: "writes ok room written (WriteVInt W i) (vbytes (unat i))"
  unfolding WriteVInt_def by (rule write_vloop_writes) simp

lemma WriteVLong_writes: "0 \<le> sint i \<Longrightarrow> writes ok room written (WriteVLong W i) (vbytes (unat i))"
  unfolding WriteVLong_def writeSignedVLong_def using write_vloop_writes [of i]
  by (simp add: word_sless_alt)

lemma WriteZInt_writes: "writes ok room written (WriteZInt W i) (vbytes (unat (ucast (ZigZagEncodeInt (scast i)) :: i32)))"
  unfolding WriteZInt_def by (rule WriteVInt_writes)

lemma WriteZLong_writes: "writes ok room written (WriteZLong W i) (vbytes (unat (ZigZagEncodeInt64 i)))"
  unfolding WriteZLong_def writeSignedVLong_def by (rule write_vloop_writes) simp

lemma WriteString_writes:
  assumes "length s < 2 ^ 31"
  shows "writes ok room written (WriteString W s) (string_bytes s)"
proof -
  have "unat (word_of_int (int (length s)) :: i32) = length s"
    using assms by (simp add: unat_of_nat)
  then show ?thesis unfolding WriteString_def string_bytes_def
    by (metis writes_seq WriteVInt_writes WriteBytes_writes)
qed

lemma write_strings_writes:
  "list_all (\<lambda>s. length s < 2 ^ 31) vs \<Longrightarrow> writes ok room written (write_strings W vs) (concat (map string_bytes vs))"
  by (induction vs) (auto simp: writes_ret intro!: writes_seq WriteString_writes)

lemma write_pairs_writes:
  "list_all (\<lambda>(k, v). length k < 2 ^ 31 \<and> length v < 2 ^ 31) kvs \<Longrightarrow>
   writes ok room written (write_pairs W kvs) (concat (map (\<lambda>(k, v). string_bytes k @ string_bytes v) kvs))"
  by (induction kvs) (auto simp: writes_ret intro!: writes_seq WriteString_writes)

lemma WriteSetOfStrings_writes:
  assumes "length vs < 2 ^ 31" "list_all (\<lambda>s. length s < 2 ^ 31) vs"
  shows "writes ok room written (WriteSetOfStrings W vs) (set_bytes vs)"
  using WriteVInt_writes [of "word_of_int (int (length vs))"] assms(1)
  unfolding WriteSetOfStrings_def set_bytes_def
  by (auto simp: unat_of_nat intro!: writes_seq write_strings_writes assms)

lemma WriteMapOfStrings_writes:
  assumes "length m < 2 ^ 31" "list_all (\<lambda>(k, v). length k < 2 ^ 31 \<and> length v < 2 ^ 31) m"
  shows "writes ok room written (WriteMapOfStrings W m) (map_bytes m)"
  using WriteVInt_writes [of "word_of_int (int (length m))"] assms(1)
  unfolding WriteMapOfStrings_def map_bytes_def
  by (auto simp: unat_of_nat intro!: writes_seq write_pairs_writes assms)

end


section \<open>What an input promises\<close>

locale byte_source =
  fixes C :: "'s input_core" and ok :: "'s \<Rightarrow> bool" and rest :: "'s \<Rightarrow> u8 list"
    and eof :: go_error and eofs :: go_error
  assumes ReadByte_law: "ok s \<Longrightarrow> rest s = b # bs \<Longrightarrow> \<exists>s'. ic_ReadByte C s = (Ok b, s') \<and> ok s' \<and> rest s' = bs"
    and ReadByte_EOF: "ok s \<Longrightarrow> rest s = [] \<Longrightarrow> ic_ReadByte C s = (Err eof, s)"
    and ReadBytes_law: "ok s \<Longrightarrow> 0 \<le> offset \<Longrightarrow> 0 \<le> len \<Longrightarrow> offset + len \<le> int (length buf) \<Longrightarrow>
      nat len \<le> length (rest s) \<Longrightarrow>
      \<exists>s'. ic_ReadBytes C buf offset len s
             = (Ok (take (nat offset) buf @ take (nat len) (rest s) @ drop (nat (offset + len)) buf), s')
           \<and> ok s' \<and> rest s' = drop (nat len) (rest s)"
    and ReadBytes_EOF: "ok s \<Longrightarrow> int (length (rest s)) < len \<Longrightarrow> ic_ReadBytes C buf offset len s = (Err eofs, s)"
begin

lemma ReadByte_reads: "reads ok rest (ReadByte C) [b] b"
  unfolding reads_def ReadByte_def lift_ract_def using ReadByte_law by fastforce

lemma ReadBytes_reads:
  "reads ok rest (ReadBytes C (replicate (length bs) 0) 0 (int (length bs))) bs bs"
  unfolding reads_def ReadBytes_def lift_ract_def
proof (intro allI impI)
  fix s ys assume "ok s" "rest s = bs @ ys"
  then show "\<exists>s'. Some (ic_ReadBytes C (replicate (length bs) 0) 0 (int (length bs)) s) = Some (Ok bs, s') \<and> ok s' \<and> rest s' = ys"
    using ReadBytes_law [of s 0 "int (length bs)" "replicate (length bs) 0"] by simp
qed

lemma ReadShort_reads: "reads ok rest (ReadShort C) [ucast i, ucast (drop_bit 8 i)] i"
proof -
  have "push_bit 8 (ucast (ucast (drop_bit 8 i) :: u8) AND 0xFF) OR (ucast (ucast i :: u8) AND 0xFF) = i"
  proof -
    have ff: "(0xFF :: i16) = mask 8" by (simp add: mask_eq_exp_minus_1)
    show ?thesis unfolding ff by (rule bit_word_eqI) (auto simp: bit_simps)
  qed
  then show ?thesis unfolding ReadShort_def
    by (metis (no_types, lifting) reads_bind_Cons reads_ret ReadByte_reads)
qed

lemma ReadInt_reads: "reads ok rest (ReadInt C) (int_bytes i) i"
proof -
  let ?b = "\<lambda>n. ucast (drop_bit n i) :: u8"
  have i: "push_bit 24 (ucast (?b 24)) OR push_bit 16 (ucast (?b 16)) OR push_bit 8 (ucast (?b 8)) OR ucast (ucast i :: u8) = i"
  proof (rule bit_word_eqI)
    fix n assume "n < LENGTH(32)"
    then consider "n < 8" | "8 \<le> n" "n < 16" | "16 \<le> n" "n < 24" | "24 \<le> n" "n < 32" by fastforce
    then show "bit (push_bit 24 (ucast (?b 24)) OR push_bit 16 (ucast (?b 16)) OR push_bit 8 (ucast (?b 8)) OR ucast (ucast i :: u8) :: i32) n = bit i n"
      by cases (auto simp: bit_simps)
  qed
  have "reads ok rest (ReadInt C) (int_bytes i)
     (push_bit 24 (ucast (?b 24)) OR push_bit 16 (ucast (?b 16)) OR push_bit 8 (ucast (?b 8)) OR ucast (ucast i :: u8))"
    unfolding ReadInt_def int_bytes_def
    by (rule reads_bind_Cons, rule ReadByte_reads)+ (rule reads_ret)
  then show ?thesis by (simp only: i)
qed

lemma ReadLong_reads: "reads ok rest (ReadLong C) (long_bytes i) i"
proof -
  let ?lo = "ucast i :: i32" and ?hi = "ucast (drop_bit 32 i) :: i32"
  have i: "ucast ?lo OR push_bit 32 (scast ?hi) = i"
  proof (rule bit_word_eqI)
    fix n assume "n < LENGTH(64)"
    then consider "n < 32" | "32 \<le> n" "n < 63" | "n = 63" by fastforce
    then show "bit (ucast ?lo OR push_bit 32 (scast ?hi) :: i64) n = bit i n"
      by cases (auto simp: bit_simps)
  qed
  have "reads ok rest (ReadLong C) (int_bytes ?lo @ int_bytes ?hi @ []) (ucast ?lo OR push_bit 32 (scast ?hi))"
    unfolding ReadLong_def by (rule reads_bind, rule ReadInt_reads)+ (rule reads_ret)
  then show ?thesis by (simp add: i long_bytes_def)
qed

lemma read_vloop_done: "bVal AND 0x80 = 0 \<Longrightarrow> read_vloop C i sh bVal = ret_ract i"
  by (rule ext) (simp add: read_vloop.simps [of C i sh bVal] ret_ract_def)

lemma read_vloop_more:
  "bVal AND 0x80 \<noteq> 0 \<Longrightarrow>
   read_vloop C i sh bVal = bind_ract (ReadByte C) (\<lambda>b. read_vloop C (i OR push_bit sh (ucast (b AND 0x7F))) (sh + 7) b)"
  by (rule ext) (simp add: read_vloop.simps [of C i sh bVal] bind_ract_def ReadByte_def lift_ract_def split: prod.splits outcome.splits)

lemma read_vbytes:
  "reads ok rest (bind_ract (ReadByte C) (\<lambda>b. read_vloop C (i OR push_bit sh (ucast (b AND 0x7F))) (sh + 7) b))
     (vbytes n) (i OR push_bit sh (of_nat n :: 'w::len word))"
proof (induction n arbitrary: i sh rule: vbytes.induct)
  case (1 n)
  show ?case
  proof (cases "n < 128")
    case True
    then show ?thesis
      by (simp add: vbytes.simps [of n] low7 ucast_low7 read_vloop_done reads_bind_Cons [OF ReadByte_reads] reads_ret)
  next
    case False
    let ?b = "of_nat (n mod 128 + 128) :: u8" and ?m = "of_nat (n mod 128) :: 'w word"
    have b: "?b AND 0x7F = of_nat (n mod 128)" "?b AND 0x80 \<noteq> 0" by (rule low7; simp)+
    have u: "ucast (of_nat (n mod 128) :: u8) = ?m" by (rule ucast_low7) simp
    have v: "(i OR push_bit sh ?m) OR push_bit (sh + 7) (of_nat (n div 128)) = i OR push_bit sh (of_nat n)"
      unfolding of_nat_group7 [of n] push_bit_or by (simp add: or.assoc)
    have "reads ok rest (read_vloop C (i OR push_bit sh (ucast (?b AND 0x7F))) (sh + 7) ?b) (vbytes (n div 128))
       ((i OR push_bit sh ?m) OR push_bit (sh + 7) (of_nat (n div 128)))"
      unfolding read_vloop_more [OF b(2)] b(1) u by (rule 1 [OF False])
    then show ?thesis
      unfolding v using False by (simp add: vbytes.simps [of n] reads_bind_Cons [OF ReadByte_reads])
  qed
qed

lemma ReadVInt_reads: "reads ok rest (ReadVInt C) (vbytes (unat i)) i"
  using read_vbytes [of "0 :: i32" 0 "unat i"] by (simp add: ReadVInt_def)

lemma ReadVLong_reads: "reads ok rest (ReadVLong C) (vbytes (unat i)) i"
  using read_vbytes [of "0 :: i64" 0 "unat i"] by (simp add: ReadVLong_def)

lemma ReadZLong_reads: "reads ok rest (ReadZLong C) (vbytes (unat (ZigZagEncodeInt64 i))) i"
  using reads_bind_ret [OF ReadVLong_reads [of "ZigZagEncodeInt64 i"], of ZigZagDecodeInt64]
  by (simp add: ReadZLong_def zigzag64_inverse)

lemma ReadZInt_reads: "reads ok rest (ReadZInt C) (vbytes (unat (ucast (ZigZagEncodeInt (scast i)) :: i32))) i"
proof -
  have "scast (ucast (ZigZagEncodeInt (scast i)) :: i32) = ZigZagEncodeInt (scast i)"
    by (simp add: ZigZagEncodeInt_eq ucast_scast_i32)
  then show ?thesis unfolding ReadZInt_def
    using reads_bind_ret [OF ReadVInt_reads [of "ucast (ZigZagEncodeInt (scast i))"], of "\<lambda>v. ucast (ZigZagDecodeInt (scast v)) :: i32"]
    by (simp add: zigzag32_inverse ucast_scast_i32)
qed

lemma len_i32:
  assumes "n < 2 ^ 31"
  shows "unat (of_nat n :: i32) = n" "sint (of_nat n :: i32) = int n"
proof -
  show u: "unat (of_nat n :: i32) = n" using assms by (simp add: unat_of_nat)
  then have "uint (of_nat n :: i32) = int n" by (metis uint_nat)
  then show "sint (of_nat n :: i32) = int n"
    using assms bit_top_iff [of "of_nat n :: i32"] by (simp add: sint_as_uint)
qed

lemma ReadString_reads:
  assumes "length s < 2 ^ 31"
  shows "reads ok rest (ReadString C) (string_bytes s) s"
proof -
  let ?n = "of_nat (length s) :: i32"
  have n: "unat ?n = length s" "sint ?n = int (length s)"
    using len_i32 [OF assms] by simp_all
  have "reads ok rest (ReadString C) (vbytes (unat ?n) @ s) s"
    unfolding ReadString_def by (rule reads_bind [OF ReadVInt_reads]) (simp add: n ReadBytes_reads)
  then show ?thesis by (simp only: n string_bytes_def)
qed

lemma read_strings_reads:
  "list_all (\<lambda>s. length s < 2 ^ 31) vs \<Longrightarrow>
   reads ok rest (read_strings C (length vs) acc) (concat (map string_bytes vs)) (acc @ vs)"
proof (induction vs arbitrary: acc)
  case (Cons v vs)
  have "reads ok rest (bind_ract (ReadString C) (\<lambda>s. read_strings C (length vs) (acc @ [s])))
      (string_bytes v @ concat (map string_bytes vs)) ((acc @ [v]) @ vs)"
    using Cons.prems by (intro reads_bind [OF ReadString_reads Cons.IH]) simp_all
  then show ?case by simp
qed (simp add: reads_ret)

lemma ReadSetOfStrings_reads:
  assumes "length vs < 2 ^ 31" "list_all (\<lambda>s. length s < 2 ^ 31) vs"
  shows "reads ok rest (ReadSetOfStrings C) (set_bytes vs) vs"
proof -
  let ?n = "of_nat (length vs) :: i32"
  note n = len_i32 [OF assms(1)]
  have z: "?n = 0 \<longleftrightarrow> vs = []" using n(1) by (metis length_0_conv unat_0_iff)
  have "reads ok rest (ReadSetOfStrings C) (vbytes (unat ?n) @ concat (map string_bytes vs)) vs"
    unfolding ReadSetOfStrings_def
    by (rule reads_bind [OF ReadVInt_reads]) (use read_strings_reads [OF assms(2), of "[]"] in \<open>auto simp: z n reads_ret\<close>)
  then show ?thesis by (simp only: n set_bytes_def)
qed

lemma read_pairs_reads:
  "list_all (\<lambda>(k, v). length k < 2 ^ 31 \<and> length v < 2 ^ 31) kvs \<Longrightarrow>
   reads ok rest (read_pairs C (length kvs) m) (concat (map (\<lambda>(k, v). string_bytes k @ string_bytes v) kvs)) (m ++ map_of (rev kvs))"
proof (induction kvs arbitrary: m)
  case (Cons kv kvs)
  obtain k v where kv: "kv = (k, v)" by fastforce
  have "reads ok rest (bind_ract (ReadString C) (\<lambda>k. bind_ract (ReadString C) (\<lambda>v. read_pairs C (length kvs) (m(k \<mapsto> v)))))
      (string_bytes k @ string_bytes v @ concat (map (\<lambda>(k, v). string_bytes k @ string_bytes v) kvs))
      (m(k \<mapsto> v) ++ map_of (rev kvs))"
    using Cons.prems kv by (intro reads_bind [OF ReadString_reads] Cons.IH) simp_all
  then show ?case by (simp add: kv)
qed (simp add: reads_ret)

lemma ReadMapOfStrings_reads:
  assumes "length kvs < 2 ^ 31" "list_all (\<lambda>(k, v). length k < 2 ^ 31 \<and> length v < 2 ^ 31) kvs"
  shows "reads ok rest (ReadMapOfStrings C) (map_bytes kvs) (map_of (rev kvs))"
proof -
  let ?n = "of_nat (length kvs) :: i32"
  note n = len_i32 [OF assms(1)]
  have z: "?n = 0 \<longleftrightarrow> kvs = []" using n(1) by (metis length_0_conv unat_0_iff)
  have "reads ok rest (ReadMapOfStrings C) (vbytes (unat ?n) @ concat (map (\<lambda>(k, v). string_bytes k @ string_bytes v) kvs)) (map_of (rev kvs))"
    unfolding ReadMapOfStrings_def
    by (rule reads_bind [OF ReadVInt_reads]) (use read_pairs_reads [OF assms(2), of Map.empty] in \<open>auto simp: z n reads_ret\<close>)
  then show ?thesis by (simp only: n map_bytes_def)
qed

text \<open>
  Every variable-length read over a finite input ends, with a value or with
  the end-of-file error; on an encoding cut short it is that error.
\<close>

lemma ReadByte_cases:
  assumes "ok s"
  obtains (none) "rest s = []" "ReadByte C s = Some (Err eof, s)"
    | (byte) b s' where "rest s = b # rest s'" "ReadByte C s = Some (Ok b, s')" "ok s'"
proof (cases "rest s")
  case Nil
  then show thesis using ReadByte_EOF [OF assms] none by (simp add: ReadByte_def lift_ract_def)
next
  case (Cons b bs)
  then obtain s' where "ic_ReadByte C s = (Ok b, s')" "ok s'" "rest s' = bs"
    using ReadByte_law [OF assms] by blast
  then show thesis using byte [of b s'] Cons by (simp add: ReadByte_def lift_ract_def)
qed

lemma read_vloop_total:
  "ok s \<Longrightarrow> \<exists>r s'. read_vloop C i sh b s = Some (r, s') \<and> ok s' \<and> (r = Err eof \<or> (\<exists>v. r = Ok v)) \<and> length (rest s') \<le> length (rest s)"
proof (induction "length (rest s)" arbitrary: s i sh b rule: less_induct)
  case less
  show ?case
  proof (cases "b AND 0x80 = 0")
    case True
    then show ?thesis using less.prems by (simp add: read_vloop_done ret_ract_def)
  next
    case False
    from less.prems show ?thesis
    proof (cases rule: ReadByte_cases)
      case none
      then show ?thesis using less.prems by (simp add: read_vloop_more [OF False] bind_ract_def [of "ReadByte C"])
    next
      case (byte b' s')
      let ?i = "i OR push_bit sh (ucast (b' AND 0x7F))"
      have e: "read_vloop C i sh b s = read_vloop C ?i (sh + 7) b' s'"
        using byte(2) by (simp add: read_vloop_more [OF False] bind_ract_def [of "ReadByte C"])
      have l: "length (rest s') < length (rest s)" using byte(1) by simp
      show ?thesis unfolding e using less.hyps [OF l byte(3), of ?i "sh + 7" b'] l
        by (blast intro: order.trans less_imp_le_nat)
    qed
  qed
qed

lemma ReadVInt_total:
  assumes "ok s"
  shows "\<exists>r s'. ReadVInt C s = Some (r, s') \<and> ok s' \<and> (r = Err eof \<or> (\<exists>v. r = Ok v)) \<and> length (rest s') \<le> length (rest s)"
  using assms
proof (cases rule: ReadByte_cases)
  case (byte b s')
  then show ?thesis using read_vloop_total [of s' "ucast (b AND 0x7F) :: i32" 7 b]
    by (auto simp: ReadVInt_def bind_ract_def intro: le_SucI)
qed (simp add: ReadVInt_def bind_ract_def assms)

lemma ReadVLong_total:
  assumes "ok s"
  shows "\<exists>r s'. ReadVLong C s = Some (r, s') \<and> ok s' \<and> (r = Err eof \<or> (\<exists>v. r = Ok v)) \<and> length (rest s') \<le> length (rest s)"
  using assms
proof (cases rule: ReadByte_cases)
  case (byte b s')
  then show ?thesis using read_vloop_total [of s' "ucast (b AND 0x7F) :: i64" 7 b]
    by (auto simp: ReadVLong_def bind_ract_def intro: le_SucI)
qed (simp add: ReadVLong_def bind_ract_def assms)

lemma read_vbytes_cut:
  "ok s \<Longrightarrow> rest s = take k (vbytes n) \<Longrightarrow> k < length (vbytes n) \<Longrightarrow>
   \<exists>s'. bind_ract (ReadByte C) (\<lambda>b. read_vloop C (f b) (sh b) b) s = Some (Err eof, s') \<and> rest s' = []"
proof (induction n arbitrary: s k f sh rule: vbytes.induct)
  case (1 n)
  note s = \<open>ok s\<close>
  show ?case using s
  proof (cases rule: ReadByte_cases)
    case none
    then show ?thesis by (simp add: bind_ract_def)
  next
    case (byte b s')
    have n: "\<not> n < 128" using byte(1) 1(3,4) by (auto simp: vbytes.simps [of n] split: if_splits)
    then obtain k' where k: "k = Suc k'" "rest s' = take k' (vbytes (n div 128))" "k' < length (vbytes (n div 128))"
      and b: "b = of_nat (n mod 128 + 128)"
      using byte(1) 1(3,4) by (cases k) (auto simp: vbytes.simps [of n])
    have c: "b AND 0x80 \<noteq> 0" unfolding b by (rule low7) simp
    show ?thesis using 1(1) [OF n byte(3) k(2,3)] byte
      by (simp add: bind_ract_def [of "ReadByte C" _ s] read_vloop_more [OF c])
  qed
qed

lemma ReadVInt_cut:
  "ok s \<Longrightarrow> rest s = take k (vbytes n) \<Longrightarrow> k < length (vbytes n) \<Longrightarrow> \<exists>s'. ReadVInt C s = Some (Err eof, s') \<and> rest s' = []"
  unfolding ReadVInt_def by (rule read_vbytes_cut)

lemma ReadVLong_cut:
  "ok s \<Longrightarrow> rest s = take k (vbytes n) \<Longrightarrow> k < length (vbytes n) \<Longrightarrow> \<exists>s'. ReadVLong C s = Some (Err eof, s') \<and> rest s' = []"
  unfolding ReadVLong_def by (rule read_vbytes_cut)

end

section \<open>Copying from an input to an output\<close>

locale copy_pair = src: byte_source C oki rest eof eofs + snk: byte_sink W oko room written
  for C :: "'i input_core" and oki and rest and eof and eofs and W :: "'s prim_writer" and oko and room and written
begin

lemma copy_loop_moves:
  "oki si \<Longrightarrow> oko so \<Longrightarrow> 0 \<le> left \<Longrightarrow> nat left \<le> length (rest si) \<Longrightarrow> nat left \<le> room so \<Longrightarrow>
   int (length buf) = copyBufferSize \<Longrightarrow>
   \<exists>si' so'. copy_loop C W left buf (si, so) = (Ok (), (si', so')) \<and> oki si' \<and> oko so'
     \<and> written so' = written so @ take (nat left) (rest si) \<and> rest si' = drop (nat left) (rest si)"
proof (induction "nat left" arbitrary: left buf si so rule: less_induct)
  case less
  show ?case
  proof (cases "left > 0")
    case False
    then have "left = 0" using less.prems by simp
    then show ?thesis using less.prems by (simp add: copy_loop.simps [of C W 0])
  next
    case True
    define n where "n = (if left > copyBufferSize then copyBufferSize else left)"
    have n: "0 < n" "n \<le> left" "n \<le> copyBufferSize" "n \<le> int (length buf)" "nat n \<le> length (rest si)"
      using True less.prems by (auto simp: n_def copyBufferSize_def)
    let ?buf = "take (nat n) (rest si) @ drop (nat n) buf"
    obtain si' where i: "ic_ReadBytes C buf 0 n si = (Ok ?buf, si')" "oki si'" "rest si' = drop (nat n) (rest si)"
      using src.ReadBytes_law [of si 0 n buf] n less.prems by auto
    have w: "writes oko room written (WriteBytes W ?buf 0 n) (take (nat n) (rest si))"
      using snk.WriteBytes_law [of 0 n ?buf] n by (simp add: WriteBytes_def)
    obtain so' where o': "WriteBytes W ?buf 0 n so = (Ok (), so')" "oko so'"
        "written so' = written so @ take (nat n) (rest si)" "room so' = room so - nat n"
      by (rule writesD [OF w less.prems(2)]) (use n less.prems in \<open>auto simp: min_def\<close>)
    have step: "copy_loop C W left buf (si, so) = copy_loop C W (left - n) ?buf (si', so')"
      using True i(1) o'(1) by (subst copy_loop.simps) (simp add: Let_def n_def [symmetric])
    have "take (nat left) (rest si) = take (nat n) (rest si) @ take (nat (left - n)) (drop (nat n) (rest si))"
      using n by (simp add: take_add [symmetric] nat_add_distrib [symmetric])
    moreover have "drop (nat left) (rest si) = drop (nat (left - n)) (drop (nat n) (rest si))"
      using n by (simp add: nat_add_distrib [symmetric])
    ultimately show ?thesis
      using less.hyps [of "left - n" si' so' ?buf] n i(2,3) o'(2-4) less.prems unfolding step by (auto simp: min_def)
  qed
qed

lemma CopyBytes_moves:
  assumes "oki si" "oko so" "0 \<le> n" "nat n \<le> length (rest si)" "nat n \<le> room so" "copyBuffer_ok cb"
  shows "\<exists>si' so'. CopyBytes C W cb n (si, so) = (Ok (), (si', so')) \<and> oki si' \<and> oko so'
     \<and> written so' = written so @ take (nat n) (rest si) \<and> rest si' = drop (nat n) (rest si)"
  using copy_loop_moves [OF assms(1-5)] assms(3,6)
  by (simp add: CopyBytes_def copyBuffer_ok_def copyBufferSize_def split: option.splits)

end

end
