(* ===== verification/Byte_Array_IO.thy ===== *)
theory Byte_Array_IO
  imports Data_IO
begin

text \<open>
  \<^verbatim>\<open>store/byte_array_data_output.go\<close> and \<^verbatim>\<open>store/byte_array_data_input.go\<close>: the
  implementations of the primitive interfaces over a byte slice.  They provide
  the contracts \<open>byte_sink\<close> and \<open>byte_source\<close> of \<open>Data_IO\<close>; the properties are the
  round trips of every encoding through a byte array, on whole streams of values,
  and what happens at the end of the array.
\<close>

section \<open>ByteArrayDataOutput\<close>

record ByteArrayDataOutput =
  bao_bytes :: "u8 list"
  bao_pos :: int
  bao_limit :: int

definition bao_ResetWithOffset :: "u8 list \<Rightarrow> int \<Rightarrow> int \<Rightarrow> ByteArrayDataOutput \<Rightarrow> ByteArrayDataOutput" where
  "bao_ResetWithOffset bytes offset len out = out\<lparr>bao_bytes := bytes, bao_pos := offset, bao_limit := offset + len\<rparr>"

definition bao_Reset :: "u8 list \<Rightarrow> ByteArrayDataOutput \<Rightarrow> ByteArrayDataOutput" where
  "bao_Reset bytes out = bao_ResetWithOffset bytes 0 (int (length bytes)) out"

definition NewByteArrayDataOutput :: "u8 list \<Rightarrow> ByteArrayDataOutput" where
  "NewByteArrayDataOutput bytes = bao_Reset bytes \<lparr>bao_bytes = [], bao_pos = 0, bao_limit = 0\<rparr>"

definition NewByteArrayDataOutputWithOffset :: "u8 list \<Rightarrow> int \<Rightarrow> int \<Rightarrow> ByteArrayDataOutput" where
  "NewByteArrayDataOutputWithOffset bytes offset len =
     bao_ResetWithOffset bytes offset len \<lparr>bao_bytes = [], bao_pos = 0, bao_limit = 0\<rparr>"

definition bao_GetPosition :: "ByteArrayDataOutput \<Rightarrow> int" where
  "bao_GetPosition out = bao_pos out"

definition bao_WriteByte :: "u8 \<Rightarrow> (ByteArrayDataOutput, unit) act" where
  "bao_WriteByte b out =
     (case store (bao_bytes out) (bao_pos out) b of
        Ok bytes' \<Rightarrow> (Ok (), out\<lparr>bao_bytes := bytes', bao_pos := bao_pos out + 1\<rparr>)
      | Err e \<Rightarrow> (Err e, out) | Panic p \<Rightarrow> (Panic p, out))"

definition bao_WriteBytes :: "u8 list \<Rightarrow> int \<Rightarrow> int \<Rightarrow> (ByteArrayDataOutput, unit) act" where
  "bao_WriteBytes b offset len out =
     (case bind_out (subslice b offset (offset + len)) (copy_at (bao_bytes out) (bao_pos out)) of
        Ok bytes' \<Rightarrow> (Ok (), out\<lparr>bao_bytes := bytes', bao_pos := bao_pos out + len\<rparr>)
      | Err e \<Rightarrow> (Err e, out) | Panic p \<Rightarrow> (Panic p, out))"

definition bao_GetBytes :: "ByteArrayDataOutput \<Rightarrow> u8 list" where
  "bao_GetBytes out = bao_bytes out"

definition bao_Length :: "ByteArrayDataOutput \<Rightarrow> int" where
  "bao_Length out = bao_limit out"

text \<open>The methods as the \<open>PrimitiveWriter\<close> that \<open>out.primitive = out\<close> installs.\<close>

definition bao_primitive :: "ByteArrayDataOutput prim_writer" where
  "bao_primitive = \<lparr>pw_WriteByte = bao_WriteByte, pw_WriteBytes = bao_WriteBytes\<rparr>"

section \<open>ByteArrayDataInput\<close>

record ByteArrayDataInput =
  bai_bytes :: "u8 list"
  bai_pos :: int
  bai_limit :: int

definition bai_ResetWithSlice :: "u8 list \<Rightarrow> int \<Rightarrow> int \<Rightarrow> ByteArrayDataInput \<Rightarrow> ByteArrayDataInput" where
  "bai_ResetWithSlice bytes offset len inp = inp\<lparr>bai_bytes := bytes, bai_pos := offset, bai_limit := offset + len\<rparr>"

definition bai_Reset :: "u8 list \<Rightarrow> ByteArrayDataInput \<Rightarrow> ByteArrayDataInput" where
  "bai_Reset bytes inp = bai_ResetWithSlice bytes 0 (int (length bytes)) inp"

definition NewByteArrayDataInput :: "u8 list \<Rightarrow> ByteArrayDataInput" where
  "NewByteArrayDataInput bytes = bai_Reset bytes \<lparr>bai_bytes = [], bai_pos = 0, bai_limit = 0\<rparr>"

definition NewByteArrayDataInputWithOffset :: "u8 list \<Rightarrow> int \<Rightarrow> int \<Rightarrow> ByteArrayDataInput" where
  "NewByteArrayDataInputWithOffset bytes offset len =
     bai_ResetWithSlice bytes offset len \<lparr>bai_bytes = [], bai_pos = 0, bai_limit = 0\<rparr>"

definition bai_Rewind :: "ByteArrayDataInput \<Rightarrow> ByteArrayDataInput" where
  "bai_Rewind inp = inp\<lparr>bai_pos := 0\<rparr>"

definition bai_GetPosition :: "ByteArrayDataInput \<Rightarrow> int" where
  "bai_GetPosition inp = bai_pos inp"

definition bai_SetPosition :: "int \<Rightarrow> ByteArrayDataInput \<Rightarrow> ByteArrayDataInput" where
  "bai_SetPosition p inp = inp\<lparr>bai_pos := p\<rparr>"

definition bai_Length :: "ByteArrayDataInput \<Rightarrow> int" where
  "bai_Length inp = bai_limit inp"

definition bai_EOF :: "ByteArrayDataInput \<Rightarrow> bool" where
  "bai_EOF inp \<longleftrightarrow> bai_pos inp = bai_limit inp"

definition bai_ReadByte :: "(ByteArrayDataInput, u8) act" where
  "bai_ReadByte inp =
     (if bai_pos inp \<ge> bai_limit inp then (Err EOF, inp)
      else case index (bai_bytes inp) (bai_pos inp) of
             Ok b \<Rightarrow> (Ok b, inp\<lparr>bai_pos := bai_pos inp + 1\<rparr>)
           | Err e \<Rightarrow> (Err e, inp) | Panic p \<Rightarrow> (Panic p, inp))"

definition bai_ReadBytes :: "u8 list \<Rightarrow> int \<Rightarrow> int \<Rightarrow> (ByteArrayDataInput, u8 list) act" where
  "bai_ReadBytes b offset len inp =
     (if bai_pos inp + len > bai_limit inp then (Err EOF, inp)
      else case bind_out (subslice (bai_bytes inp) (bai_pos inp) (bai_pos inp + len)) (copy_at b offset) of
             Ok b' \<Rightarrow> (Ok b', inp\<lparr>bai_pos := bai_pos inp + len\<rparr>)
           | Err e \<Rightarrow> (Err e, inp) | Panic p \<Rightarrow> (Panic p, inp))"

definition bai_SkipBytes :: "int \<Rightarrow> (ByteArrayDataInput, unit) act" where
  "bai_SkipBytes cnt inp = (Ok (), inp\<lparr>bai_pos := bai_pos inp + cnt\<rparr>)"

definition bai_Clone :: "ByteArrayDataInput \<Rightarrow> ByteArrayDataInput" where
  "bai_Clone inp = \<lparr>bai_bytes = bai_bytes inp, bai_pos = bai_pos inp, bai_limit = bai_limit inp\<rparr>"

definition bai_core :: "ByteArrayDataInput input_core" where
  "bai_core = \<lparr>ic_ReadByte = bai_ReadByte, ic_ReadBytes = bai_ReadBytes, ic_SkipBytes = bai_SkipBytes\<rparr>"

section \<open>The contracts hold\<close>

definition bao_ok :: "ByteArrayDataOutput \<Rightarrow> bool" where
  "bao_ok out \<longleftrightarrow> 0 \<le> bao_pos out \<and> bao_pos out \<le> int (length (bao_bytes out))"

definition bao_room :: "ByteArrayDataOutput \<Rightarrow> nat" where
  "bao_room out = length (bao_bytes out) - nat (bao_pos out)"

definition bao_written :: "ByteArrayDataOutput \<Rightarrow> u8 list" where
  "bao_written out = take (nat (bao_pos out)) (bao_bytes out)"

definition bai_ok :: "ByteArrayDataInput \<Rightarrow> bool" where
  "bai_ok inp \<longleftrightarrow> 0 \<le> bai_pos inp \<and> bai_pos inp \<le> bai_limit inp \<and> bai_limit inp \<le> int (length (bai_bytes inp))"

definition bai_rest :: "ByteArrayDataInput \<Rightarrow> u8 list" where
  "bai_rest inp = take (nat (bai_limit inp - bai_pos inp)) (drop (nat (bai_pos inp)) (bai_bytes inp))"

lemma bao_WriteBytes_fits:
  assumes "bao_ok out" "length bs \<le> bao_room out" "subslice b offset (offset + len) = Ok bs" "int (length bs) = len"
  shows "\<exists>out'. bao_WriteBytes b offset len out = (Ok (), out') \<and> bao_ok out'
    \<and> bao_written out' = bao_written out @ bs \<and> bao_room out' = bao_room out - length bs"
proof -
  have "copy_at (bao_bytes out) (bao_pos out) bs
      = Ok (take (nat (bao_pos out)) (bao_bytes out) @ bs @ drop (nat (bao_pos out) + length bs) (bao_bytes out))"
    using assms(1,2) by (intro copy_at_fits) (auto simp: bao_ok_def bao_room_def)
  moreover have "nat (bao_pos out + len) = nat (bao_pos out) + length bs"
    using assms(1,4) by (auto simp: bao_ok_def)
  ultimately show ?thesis using assms
    by (auto simp: bao_WriteBytes_def bao_ok_def bao_room_def bao_written_def min_def)
qed

lemma bao_WriteByte_fits:
  assumes "bao_ok out" "1 \<le> bao_room out"
  shows "\<exists>out'. bao_WriteByte b out = (Ok (), out') \<and> bao_ok out'
    \<and> bao_written out' = bao_written out @ [b] \<and> bao_room out' = bao_room out - 1"
proof -
  let ?p = "nat (bao_pos out)"
  have p: "?p < length (bao_bytes out)" "0 \<le> bao_pos out" using assms by (auto simp: bao_ok_def bao_room_def)
  then have "take (Suc ?p) ((bao_bytes out)[?p := b]) = take ?p (bao_bytes out) @ [b]"
    by (simp add: take_Suc_conv_app_nth)
  with p show ?thesis
    by (auto simp: bao_WriteByte_def bao_ok_def bao_room_def bao_written_def nat_add_distrib)
qed

interpretation bao: byte_sink bao_primitive bao_ok bao_room bao_written
proof unfold_locales
  show "writes bao_ok bao_room bao_written (pw_WriteByte bao_primitive b) [b]" for b
    using bao_WriteByte_fits by (simp add: writes_def bao_primitive_def)
next
  fix offset len :: int and bs :: "u8 list"
  assume "0 \<le> offset" "0 \<le> len" "offset + len \<le> int (length bs)"
  then show "writes bao_ok bao_room bao_written (pw_WriteBytes bao_primitive bs offset len) (take (nat len) (drop (nat offset) bs))"
    unfolding writes_def bao_primitive_def prim_writer.simps
    by (intro allI impI bao_WriteBytes_fits) auto
qed

lemma bai_rest_Cons:
  assumes "bai_ok inp" "bai_rest inp = b # bs"
  shows "bai_pos inp < bai_limit inp" "bai_bytes inp ! nat (bai_pos inp) = b"
    "bai_rest (inp\<lparr>bai_pos := bai_pos inp + 1\<rparr>) = bs"
proof -
  let ?p = "nat (bai_pos inp)" and ?n = "nat (bai_limit inp - bai_pos inp)"
  show lt: "bai_pos inp < bai_limit inp" using assms by (cases "?n") (auto simp: bai_rest_def)
  then have p: "?p < length (bai_bytes inp)" using assms by (auto simp: bai_ok_def)
  have n: "?n = Suc (nat (bai_limit inp - (bai_pos inp + 1)))" using lt by auto
  have "bai_rest inp = bai_bytes inp ! ?p # take (nat (bai_limit inp - (bai_pos inp + 1))) (drop (Suc ?p) (bai_bytes inp))"
    unfolding bai_rest_def n Cons_nth_drop_Suc [OF p, symmetric] by simp
  with assms lt show "bai_bytes inp ! ?p = b" "bai_rest (inp\<lparr>bai_pos := bai_pos inp + 1\<rparr>) = bs"
    by (auto simp: bai_rest_def bai_ok_def nat_add_distrib)
qed

lemma bai_ReadBytes_fits:
  assumes "bai_ok inp" "0 \<le> offset" "0 \<le> len" "offset + len \<le> int (length buf)" "nat len \<le> length (bai_rest inp)"
  shows "\<exists>inp'. bai_ReadBytes buf offset len inp
      = (Ok (take (nat offset) buf @ take (nat len) (bai_rest inp) @ drop (nat (offset + len)) buf), inp')
    \<and> bai_ok inp' \<and> bai_rest inp' = drop (nat len) (bai_rest inp)"
proof -
  let ?p = "nat (bai_pos inp)"
  have b: "0 \<le> bai_pos inp" "bai_pos inp + len \<le> bai_limit inp" "bai_limit inp \<le> int (length (bai_bytes inp))"
    using assms by (auto simp: bai_ok_def bai_rest_def)
  have t: "take (nat len) (drop ?p (bai_bytes inp)) = take (nat len) (bai_rest inp)"
    using b assms(3) by (simp add: bai_rest_def min_def)
  then have "subslice (bai_bytes inp) (bai_pos inp) (bai_pos inp + len) = Ok (take (nat len) (bai_rest inp))"
    using b assms(3) by simp
  moreover have "copy_at buf offset (take (nat len) (bai_rest inp))
      = Ok (take (nat offset) buf @ take (nat len) (bai_rest inp) @ drop (nat (offset + len)) buf)"
    using assms by (subst copy_at_fits) (auto simp: min_def nat_add_distrib)
  moreover have "bai_rest (inp\<lparr>bai_pos := bai_pos inp + len\<rparr>) = drop (nat len) (bai_rest inp)"
    using b assms(3) by (simp add: bai_rest_def drop_take nat_add_distrib nat_diff_distrib' add.commute algebra_simps)
  ultimately show ?thesis using b assms by (auto simp: bai_ReadBytes_def bai_ok_def)
qed

interpretation bai: byte_source bai_core bai_ok bai_rest EOF EOF
proof unfold_locales
  fix s b bs assume "bai_ok s" "bai_rest s = b # bs"
  then show "\<exists>s'. ic_ReadByte bai_core s = (Ok b, s') \<and> bai_ok s' \<and> bai_rest s' = bs"
    using bai_rest_Cons [of s b bs] by (auto simp: bai_core_def bai_ReadByte_def bai_ok_def)
next
  fix s assume "bai_ok s" "bai_rest s = []"
  then show "ic_ReadByte bai_core s = (Err EOF, s)"
    by (auto simp: bai_core_def bai_ReadByte_def bai_ok_def bai_rest_def)
next
  fix s offset len and buf :: "u8 list"
  assume "bai_ok s" "0 \<le> offset" "0 \<le> len" "offset + len \<le> int (length buf)" "nat len \<le> length (bai_rest s)"
  then show "\<exists>s'. ic_ReadBytes bai_core buf offset len s
      = (Ok (take (nat offset) buf @ take (nat len) (bai_rest s) @ drop (nat (offset + len)) buf), s')
    \<and> bai_ok s' \<and> bai_rest s' = drop (nat len) (bai_rest s)"
    using bai_ReadBytes_fits by (simp add: bai_core_def)
next
  fix s len offset and buf :: "u8 list"
  assume "bai_ok s" "int (length (bai_rest s)) < len"
  then show "ic_ReadBytes bai_core buf offset len s = (Err EOF, s)"
    by (auto simp: bai_core_def bai_ReadBytes_def bai_ok_def bai_rest_def)
qed

interpretation array_copy: copy_pair bai_core bai_ok bai_rest EOF EOF bao_primitive bao_ok bao_room bao_written
  by unfold_locales

section \<open>Streams of values\<close>

text \<open>
  A client that writes a stream of values, one call per value, and a reader that
  makes the corresponding calls.
\<close>

datatype item = I_Byte u8 | I_Short i16 | I_Int i32 | I_Long i64 | I_VInt i32 | I_VLong i64
  | I_ZInt i32 | I_ZLong i64 | I_String gostring | I_Set "gostring list"

fun item_ok :: "item \<Rightarrow> bool" where
  "item_ok (I_VLong v) \<longleftrightarrow> 0 \<le> sint v"
| "item_ok (I_String v) \<longleftrightarrow> length v < 2 ^ 31"
| "item_ok (I_Set vs) \<longleftrightarrow> length vs < 2 ^ 31 \<and> list_all (\<lambda>v. length v < 2 ^ 31) vs"
| "item_ok _ \<longleftrightarrow> True"

fun write_item :: "'s prim_writer \<Rightarrow> item \<Rightarrow> ('s, unit) act" where
  "write_item W (I_Byte v) = WriteByte W v"
| "write_item W (I_Short v) = WriteShort W v"
| "write_item W (I_Int v) = WriteInt W v"
| "write_item W (I_Long v) = WriteLong W v"
| "write_item W (I_VInt v) = WriteVInt W v"
| "write_item W (I_VLong v) = WriteVLong W v"
| "write_item W (I_ZInt v) = WriteZInt W v"
| "write_item W (I_ZLong v) = WriteZLong W v"
| "write_item W (I_String v) = WriteString W v"
| "write_item W (I_Set vs) = WriteSetOfStrings W vs"

fun read_item :: "'s input_core \<Rightarrow> item \<Rightarrow> ('s, item) ract" where
  "read_item C (I_Byte _) = bind_ract (ReadByte C) (\<lambda>v. ret_ract (I_Byte v))"
| "read_item C (I_Short _) = bind_ract (ReadShort C) (\<lambda>v. ret_ract (I_Short v))"
| "read_item C (I_Int _) = bind_ract (ReadInt C) (\<lambda>v. ret_ract (I_Int v))"
| "read_item C (I_Long _) = bind_ract (ReadLong C) (\<lambda>v. ret_ract (I_Long v))"
| "read_item C (I_VInt _) = bind_ract (ReadVInt C) (\<lambda>v. ret_ract (I_VInt v))"
| "read_item C (I_VLong _) = bind_ract (ReadVLong C) (\<lambda>v. ret_ract (I_VLong v))"
| "read_item C (I_ZInt _) = bind_ract (ReadZInt C) (\<lambda>v. ret_ract (I_ZInt v))"
| "read_item C (I_ZLong _) = bind_ract (ReadZLong C) (\<lambda>v. ret_ract (I_ZLong v))"
| "read_item C (I_String _) = bind_ract (ReadString C) (\<lambda>v. ret_ract (I_String v))"
| "read_item C (I_Set _) = bind_ract (ReadSetOfStrings C) (\<lambda>v. ret_ract (I_Set v))"

fun write_items :: "'s prim_writer \<Rightarrow> item list \<Rightarrow> ('s, unit) act" where
  "write_items W [] = ret_act ()"
| "write_items W (x # xs) = seq_act (write_item W x) (write_items W xs)"

fun read_items :: "'s input_core \<Rightarrow> item list \<Rightarrow> ('s, item list) ract" where
  "read_items C [] = ret_ract []"
| "read_items C (x # xs) = bind_ract (read_item C x) (\<lambda>v. bind_ract (read_items C xs) (\<lambda>vs. ret_ract (v # vs)))"

text \<open>The bytes of a value.\<close>

fun item_bytes :: "item \<Rightarrow> u8 list" where
  "item_bytes (I_Byte v) = [v]"
| "item_bytes (I_Short v) = [ucast v, ucast (drop_bit 8 v)]"
| "item_bytes (I_Int v) = int_bytes v"
| "item_bytes (I_Long v) = long_bytes v"
| "item_bytes (I_VInt v) = vbytes (unat v)"
| "item_bytes (I_VLong v) = vbytes (unat v)"
| "item_bytes (I_ZInt v) = vbytes (unat (ucast (ZigZagEncodeInt (scast v)) :: i32))"
| "item_bytes (I_ZLong v) = vbytes (unat (ZigZagEncodeInt64 v))"
| "item_bytes (I_String v) = string_bytes v"
| "item_bytes (I_Set vs) = set_bytes vs"

context byte_sink
begin

lemma write_item_writes: "item_ok x \<Longrightarrow> writes ok room written (write_item W x) (item_bytes x)"
  by (cases x) (simp_all add: WriteByte_writes WriteShort_writes WriteInt_writes WriteLong_writes
      WriteVInt_writes WriteVLong_writes WriteZInt_writes WriteZLong_writes
      WriteString_writes WriteSetOfStrings_writes)

lemma write_items_writes:
  "list_all item_ok xs \<Longrightarrow> writes ok room written (write_items W xs) (concat (map item_bytes xs))"
  by (induction xs) (auto simp: writes_ret intro!: writes_seq write_item_writes)

end

context byte_source
begin

lemma read_item_reads: "item_ok x \<Longrightarrow> reads ok rest (read_item C x) (item_bytes x) x"
  by (cases x) (simp_all add: reads_bind_ret ReadByte_reads ReadShort_reads ReadInt_reads
      ReadLong_reads ReadVInt_reads ReadVLong_reads ReadZInt_reads ReadZLong_reads
      ReadString_reads ReadSetOfStrings_reads)

lemma read_items_reads:
  "list_all item_ok xs \<Longrightarrow> reads ok rest (read_items C xs) (concat (map item_bytes xs)) xs"
  by (induction xs) (auto simp: reads_ret intro!: reads_bind read_item_reads reads_bind_ret)

end

text \<open>Whatever one call writes and another reads back goes through a fresh array.\<close>

lemma array_write:
  assumes w: "writes bao_ok bao_room bao_written m bs" and "length bs \<le> length buf"
  obtains out where "m (NewByteArrayDataOutput buf) = (Ok (), out)" "bao_GetPosition out = int (length bs)"
    "bai_rest (NewByteArrayDataInput (bao_GetBytes out)) = bs @ drop (length bs) (bao_bytes out)"
proof -
  let ?o = "NewByteArrayDataOutput buf"
  have o: "bao_ok ?o" "bao_room ?o = length buf" "bao_written ?o = []"
    by (simp_all add: bao_ok_def bao_room_def bao_written_def NewByteArrayDataOutput_def bao_Reset_def bao_ResetWithOffset_def)
  obtain out where out: "m ?o = (Ok (), out)" "bao_ok out" "bao_written out = bs" "bao_room out = length buf - length bs"
    by (rule writesD [OF w o(1)]) (use o assms(2) in auto)
  have p: "bao_GetPosition out = int (length bs)" "take (length bs) (bao_bytes out) = bs"
    using out(2,3) by (auto simp: bao_ok_def bao_written_def bao_GetPosition_def min_def split: if_splits)
  have "bai_rest (NewByteArrayDataInput (bao_GetBytes out)) = bs @ drop (length bs) (bao_bytes out)"
    using append_take_drop_id [of "length bs" "bao_bytes out"] unfolding p(2)
    by (simp_all add: bai_rest_def NewByteArrayDataInput_def bai_Reset_def bai_ResetWithSlice_def bao_GetBytes_def)
  then show thesis using out(1) p(1) that by blast
qed

lemma array_roundtrip_via:
  assumes w: "writes bao_ok bao_room bao_written m bs" and r: "reads okr bai_rest rd bs v"
    and "length bs \<le> length buf" and okr: "\<And>bytes. okr (NewByteArrayDataInput bytes)"
  shows "\<exists>out inp. m (NewByteArrayDataOutput buf) = (Ok (), out)
     \<and> rd (NewByteArrayDataInput (bao_GetBytes out)) = Some (Ok v, inp)
     \<and> bao_GetPosition out = int (length bs)
     \<and> bai_rest inp = drop (nat (bao_GetPosition out)) (bao_GetBytes out)"
proof -
  obtain out where out: "m (NewByteArrayDataOutput buf) = (Ok (), out)" "bao_GetPosition out = int (length bs)"
      "bai_rest (NewByteArrayDataInput (bao_GetBytes out)) = bs @ drop (length bs) (bao_bytes out)"
    by (rule array_write [OF w assms(3)])
  obtain inp where "rd (NewByteArrayDataInput (bao_GetBytes out)) = Some (Ok v, inp)" "bai_rest inp = drop (length bs) (bao_bytes out)"
    by (rule readsD [OF r okr out(3)])
  with out(1,2) show ?thesis by (auto simp: bao_GetBytes_def)
qed

lemma NewByteArrayDataInput_ok: "bai_ok (NewByteArrayDataInput bytes)"
  by (simp add: bai_ok_def NewByteArrayDataInput_def bai_Reset_def bai_ResetWithSlice_def)

lemmas array_roundtrip = array_roundtrip_via [where okr = bai_ok, OF _ _ _ NewByteArrayDataInput_ok]

lemma vbytes_length: "n < 128 ^ Suc k \<Longrightarrow> 1 \<le> length (vbytes n) \<and> length (vbytes n) \<le> Suc k"
proof (induction k arbitrary: n)
  case 0
  then show ?case by (simp add: vbytes.simps [of n])
next
  case (Suc k)
  then have "n div 128 < 128 ^ Suc k" by (simp add: less_mult_imp_div_less mult.commute)
  with Suc.IH show ?case by (force simp: vbytes.simps [of n])
qed

section \<open>Properties\<close>

text \<open>
  C10: any sequence of values written through \<open>BaseDataOutput\<close> to a byte array
  with enough room is written without error and read back, value for value, by the
  corresponding sequence of \<open>BaseDataInput\<close> calls; the reader stops exactly where
  the writer did.
\<close>

theorem stream_roundtrip:
  assumes "list_all item_ok xs" "length (concat (map item_bytes xs)) \<le> length buf"
  shows "\<exists>out inp. write_items bao_primitive xs (NewByteArrayDataOutput buf) = (Ok (), out)
     \<and> read_items bai_core xs (NewByteArrayDataInput (bao_GetBytes out)) = Some (Ok xs, inp)
     \<and> bao_GetPosition out = int (length (concat (map item_bytes xs)))
     \<and> bai_rest inp = drop (nat (bao_GetPosition out)) (bao_GetBytes out)"
  using assms by (intro array_roundtrip bao.write_items_writes bai.read_items_reads)

theorem stream_roundtrip_witness:
  "\<exists>out inp. write_items bao_primitive [I_VInt 300, I_String [104, 105], I_ZLong (- 7)] (NewByteArrayDataOutput (replicate 16 0)) = (Ok (), out)
     \<and> read_items bai_core [I_VInt 300, I_String [104, 105], I_ZLong (- 7)] (NewByteArrayDataInput (bao_GetBytes out))
        = Some (Ok [I_VInt 300, I_String [104, 105], I_ZLong (- 7)], inp)
     \<and> bao_GetPosition out = 6 \<and> bai_rest inp = drop (nat (bao_GetPosition out)) (bao_GetBytes out)"
proof -
  have l: "length (concat (map item_bytes [I_VInt 300, I_String [104, 105], I_ZLong (- 7)])) = 6"
    by code_simp
  show ?thesis
    using stream_roundtrip [of "[I_VInt 300, I_String [104, 105], I_ZLong (- 7)]" "replicate 16 0"] unfolding l by simp
qed

text \<open>
  a map of strings written by \<open>WriteMapOfStrings\<close>, in whatever order its range
  loop visits the distinct keys, is read back as the same map by
  \<open>ReadMapOfStrings\<close>.
\<close>

theorem map_of_strings_roundtrip:
  assumes "distinct (map fst m)" "length m < 2 ^ 31"
    and "list_all (\<lambda>(k, v). length k < 2 ^ 31 \<and> length v < 2 ^ 31) m"
    and "length (map_bytes m) \<le> length buf"
  shows "\<exists>out inp. WriteMapOfStrings bao_primitive m (NewByteArrayDataOutput buf) = (Ok (), out)
     \<and> ReadMapOfStrings bai_core (NewByteArrayDataInput (bao_GetBytes out)) = Some (Ok (map_of m), inp)"
proof -
  have "map_of (rev m) = map_of m" using assms(1) by (subst map_of_inject_set) (simp_all add: rev_map [symmetric])
  then show ?thesis
    using array_roundtrip [OF bao.WriteMapOfStrings_writes [OF assms(2,3)] bai.ReadMapOfStrings_reads [OF assms(2,3)] assms(4)]
    by auto
qed

theorem map_of_strings_roundtrip_witness:
  "\<exists>out inp. WriteMapOfStrings bao_primitive [([97], [98]), ([99], [])] (NewByteArrayDataOutput (replicate 9 0)) = (Ok (), out)
     \<and> ReadMapOfStrings bai_core (NewByteArrayDataInput (bao_GetBytes out)) = Some (Ok (map_of [([97], [98]), ([99], [])]), inp)"
proof -
  have "length (map_bytes [([97], [98]), ([99], [])]) = 8" by code_simp
  then show ?thesis
    using map_of_strings_roundtrip [of "[([97], [98]), ([99], [])]" "replicate 9 0"] by simp
qed

text \<open>
  C18: \<open>ReadVInt\<close> and \<open>ReadVLong\<close> return on every byte-array input, whatever it
  contains, with a value or with \<open>io.EOF\<close> and never a panic; on an encoding that
  was cut short they return \<open>io.EOF\<close>.
\<close>

theorem vint_read_total:
  assumes "bai_ok inp"
  shows "(\<exists>r inp'. ReadVInt bai_core inp = Some (r, inp') \<and> bai_ok inp' \<and> (r = Err EOF \<or> (\<exists>v. r = Ok v)))
     \<and> (\<exists>r inp'. ReadVLong bai_core inp = Some (r, inp') \<and> bai_ok inp' \<and> (r = Err EOF \<or> (\<exists>v. r = Ok v)))
     \<and> (bai_rest inp = take k (vbytes n) \<and> k < length (vbytes n) \<longrightarrow>
          (\<exists>inp'. ReadVInt bai_core inp = Some (Err EOF, inp')) \<and> (\<exists>inp'. ReadVLong bai_core inp = Some (Err EOF, inp')))"
  using bai.ReadVInt_total [OF assms] bai.ReadVLong_total [OF assms]
    bai.ReadVInt_cut [OF assms] bai.ReadVLong_cut [OF assms] by blast

theorem vint_read_total_witness:
  "\<exists>inp'. ReadVInt bai_core (NewByteArrayDataInput [0x80]) = Some (Err EOF, inp')"
proof -
  have "bai_ok (NewByteArrayDataInput [0x80])" "bai_rest (NewByteArrayDataInput [0x80]) = take 1 (vbytes 128)"
    "1 < length (vbytes 128)" by code_simp+
  then show ?thesis using vint_read_total [of "NewByteArrayDataInput [0x80]" 1 128] by blast
qed

text \<open>
  a \<open>WriteVInt\<close> takes one to five bytes and a \<open>WriteVLong\<close> of a non-negative
  value one to nine, whatever the value; a negative \<open>WriteVLong\<close> is an error that
  writes nothing.
\<close>

theorem vint_size:
  assumes "9 \<le> length buf"
  shows "(\<exists>out. WriteVInt bao_primitive i (NewByteArrayDataOutput buf) = (Ok (), out)
       \<and> 1 \<le> bao_GetPosition out \<and> bao_GetPosition out \<le> 5)
     \<and> (if 0 \<le> sint l
        then \<exists>out. WriteVLong bao_primitive l (NewByteArrayDataOutput buf) = (Ok (), out)
               \<and> 1 \<le> bao_GetPosition out \<and> bao_GetPosition out \<le> 9
        else WriteVLong bao_primitive l (NewByteArrayDataOutput buf)
               = (Err (Errorf ''cannot write negative vLong''), NewByteArrayDataOutput buf))"
proof -
  have i: "1 \<le> length (vbytes (unat i)) \<and> length (vbytes (unat i)) \<le> 5"
  proof -
    have "unat i < 2 ^ LENGTH(32)" by (rule unsigned_less)
    then show ?thesis using vbytes_length [of "unat i" 4] by simp
  qed
  have l: "1 \<le> length (vbytes (unat l)) \<and> length (vbytes (unat l)) \<le> 9" if "0 \<le> sint l"
  proof -
    have "\<not> bit l 63" using that bit_last_iff [of l] by simp
    then have "uint l < 2 ^ 63" using bit_top_iff [of l] by simp
    then have "int (unat l) < int (2 ^ 63)" by (simp only: uint_nat of_nat_power of_nat_numeral)
    then have "unat l < 2 ^ 63" by (simp only: of_nat_less_iff)
    then show ?thesis using vbytes_length [of "unat l" 8] by simp
  qed
  have n: "WriteVLong bao_primitive l = fail_act (Errorf ''cannot write negative vLong'')" if "\<not> 0 \<le> sint l"
    using that by (simp add: WriteVLong_def word_sless_alt)
  obtain out where oi: "WriteVInt bao_primitive i (NewByteArrayDataOutput buf) = (Ok (), out)"
      "bao_GetPosition out = int (length (vbytes (unat i)))"
    using array_roundtrip [OF bao.WriteVInt_writes bai.ReadVInt_reads, of i buf] i assms by auto
  have ol: "\<exists>out. WriteVLong bao_primitive l (NewByteArrayDataOutput buf) = (Ok (), out)
       \<and> bao_GetPosition out = int (length (vbytes (unat l)))" if "0 \<le> sint l"
    using array_roundtrip [OF bao.WriteVLong_writes [OF that] bai.ReadVLong_reads, of buf] l [OF that] assms by auto
  show ?thesis
  proof (intro conjI)
    show "\<exists>out. WriteVInt bao_primitive i (NewByteArrayDataOutput buf) = (Ok (), out) \<and> 1 \<le> bao_GetPosition out \<and> bao_GetPosition out \<le> 5"
      using oi i by simp
    show "if 0 \<le> sint l
        then \<exists>out. WriteVLong bao_primitive l (NewByteArrayDataOutput buf) = (Ok (), out)
               \<and> 1 \<le> bao_GetPosition out \<and> bao_GetPosition out \<le> 9
        else WriteVLong bao_primitive l (NewByteArrayDataOutput buf)
               = (Err (Errorf ''cannot write negative vLong''), NewByteArrayDataOutput buf)"
    proof (cases "0 \<le> sint l")
      case True
      obtain out where "WriteVLong bao_primitive l (NewByteArrayDataOutput buf) = (Ok (), out)"
          "bao_GetPosition out = int (length (vbytes (unat l)))" using ol [OF True] by blast
      then show ?thesis using l [OF True] True by simp
    qed (simp add: n fail_act_def)
  qed
qed

theorem vint_size_witness:
  "\<exists>out. WriteVInt bao_primitive (- 1) (NewByteArrayDataOutput (replicate 9 0)) = (Ok (), out)
     \<and> 1 \<le> bao_GetPosition out \<and> bao_GetPosition out \<le> 5"
  using vint_size [of "replicate 9 0" "- 1" 0] by simp

text \<open>
  C17: \<open>CopyBytes\<close> between byte arrays moves exactly the requested bytes, in order
  and through any number of buffer refills, and advances both sides by that count;
  a negative count is an error that moves nothing.
\<close>

theorem copy_bytes_moves:
  assumes "bai_ok inp" "bao_ok out" "nat n \<le> length (bai_rest inp)" "nat n \<le> bao_room out" "copyBuffer_ok cb"
  shows "if n < 0 then CopyBytes bai_core bao_primitive cb n (inp, out) = (Err (Errorf ''numBytes must be non-negative''), (inp, out))
     else \<exists>inp' out'. CopyBytes bai_core bao_primitive cb n (inp, out) = (Ok (), (inp', out'))
       \<and> bao_written out' = bao_written out @ take (nat n) (bai_rest inp) \<and> bai_rest inp' = drop (nat n) (bai_rest inp)"
proof (cases "n < 0")
  case True
  then show ?thesis by (simp add: CopyBytes_def)
next
  case False
  then show ?thesis using array_copy.CopyBytes_moves [OF assms(1,2) _ assms(3-5)] by auto
qed

theorem copy_bytes_moves_witness:
  "\<exists>inp' out'. CopyBytes bai_core bao_primitive None 2 (NewByteArrayDataInput [1, 2, 3], NewByteArrayDataOutput [0, 0])
       = (Ok (), (inp', out')) \<and> bao_written out' = [1, 2] \<and> bai_rest inp' = [3]"
proof -
  have "bai_ok (NewByteArrayDataInput [1, 2, 3])" "bai_rest (NewByteArrayDataInput [1, 2, 3]) = [1, 2, 3]"
    "bao_ok (NewByteArrayDataOutput [0, 0])" "bao_room (NewByteArrayDataOutput [0, 0]) = 2"
    "bao_written (NewByteArrayDataOutput [0, 0]) = []"
    by code_simp+
  then show ?thesis
    using copy_bytes_moves [of "NewByteArrayDataInput [1, 2, 3]" "NewByteArrayDataOutput [0, 0]" 2 None] by (simp add: copyBuffer_ok_def)
qed

text \<open>
  at the end of the array \<open>WriteByte\<close> panics, while \<open>WriteBytes\<close> reports
  success, stores only the bytes that fit and still advances the position by the
  full length, past the end of the array.
\<close>

theorem write_past_end:
  assumes "bao_ok out" "bao_room out < length bs"
  shows "(bao_room out = 0 \<longrightarrow> bao_WriteByte b out = (Panic ''index out of range'', out))
     \<and> bao_WriteBytes bs 0 (int (length bs)) out
        = (Ok (), out\<lparr>bao_bytes := bao_written out @ take (bao_room out) bs,
                      bao_pos := bao_pos out + int (length bs)\<rparr>)
     \<and> int (length (bao_bytes out)) < bao_pos out + int (length bs)"
  using assms
  by (auto simp: bao_ok_def bao_room_def bao_written_def bao_WriteByte_def bao_WriteBytes_def store_def copy_at_def min_def Let_def)

theorem write_past_end_witness:
  "bao_WriteBytes [1, 2, 3] 0 3 (NewByteArrayDataOutput [0, 0]) = (Ok (), \<lparr>bao_bytes = [1, 2], bao_pos = 3, bao_limit = 2\<rparr>)"
proof -
  have "bao_ok (NewByteArrayDataOutput [0, 0])" "bao_room (NewByteArrayDataOutput [0, 0]) < length [1, 2, 3 :: u8]"
    by code_simp+
  from write_past_end [OF this] show ?thesis
    by (simp add: NewByteArrayDataOutput_def bao_Reset_def bao_ResetWithOffset_def bao_written_def bao_room_def)
qed

end
