(* ===== verification/Group_VInt.thy ===== *)
theory Group_VInt
  imports Byte_Array_IO
begin

text \<open>
  \<^verbatim>\<open>store/group_vint_util.go\<close>, \<^verbatim>\<open>util/group_vint_util.go\<close>,
  \<^verbatim>\<open>store/random_access_input.go\<close> and \<open>BaseDataOutput.WriteGroupVInts\<close>: the
  group-varint format of the postings.  Four integers share a control byte with
  their lengths; a tail of fewer than four is written as ordinary vInts.

  The four encoders of the two files run one loop, \<open>group_loop\<close>, with their own
  way to fetch a value and to emit a group.  The reader of \<^verbatim>\<open>store\<close> has a fast
  path for inputs with random access; locale \<open>random_source\<close> says what it relies
  on, and the fast path is shown equivalent to the baseline.
\<close>

section \<open>Lengths and control byte\<close>

definition GroupVIntMaxLengthPerGroup :: int where "GroupVIntMaxLengthPerGroup = 1 + 4 * 4"

definition LeadingZeros32 :: "u32 \<Rightarrow> int" where
  "LeadingZeros32 x = 32 - int (len_bits (unat x))"

definition numBytes :: "u32 \<Rightarrow> int" where
  "numBytes v = 4 - LeadingZeros32 (v OR 1) div 8"

definition store_ToInt32 :: "u64 \<Rightarrow> i32 outcome" where
  "store_ToInt32 v = (if v > 0xFFFFFFFF then Err (Errorf ''group vint: integer overflow'') else Ok (ucast v))"

definition util_ToInt32 :: "i64 \<Rightarrow> i32 outcome" where
  "util_ToInt32 v =
     (if sint v < -2147483648 \<or> sint v > 2147483647 then Err (Errorf ''group-varint integer overflow'')
      else Ok (ucast v))"

section \<open>Writing\<close>

text \<open>
  \<open>writeLE32(scratch[at:], v, n)\<close> and \<open>binary.LittleEndian.PutUint32(scratch[at:], v)\<close>:
  four bytes are stored, the write position moves by \<open>n\<close>.
\<close>

definition writeLE32 :: "u8 list \<Rightarrow> int \<Rightarrow> u32 \<Rightarrow> int \<Rightarrow> (u8 list \<times> int) outcome" where
  "writeLE32 dst at v n =
     (if 0 \<le> at \<and> at + 4 \<le> int (length dst)
      then Ok (take (nat at) dst @ [ucast v, ucast (drop_bit 8 v), ucast (drop_bit 16 v), ucast (drop_bit 24 v)]
                 @ drop (nat at + 4) dst, at + n)
      else Panic ''index out of range'')"

definition group_flag :: "int \<Rightarrow> int \<Rightarrow> int \<Rightarrow> int \<Rightarrow> u8" where
  "group_flag n1m1 n2m1 n3m1 n4m1 = word_of_int (push_bit 6 n1m1 OR push_bit 4 n2m1 OR push_bit 2 n3m1 OR n4m1)"

definition encode_group :: "u8 list \<Rightarrow> u32 \<Rightarrow> u32 \<Rightarrow> u32 \<Rightarrow> u32 \<Rightarrow> (u8 list \<times> int) outcome" where
  "encode_group scratch v1 v2 v3 v4 =
     (let n1m1 = numBytes v1 - 1; n2m1 = numBytes v2 - 1; n3m1 = numBytes v3 - 1; n4m1 = numBytes v4 - 1
      in bind_out (store scratch 0 (group_flag n1m1 n2m1 n3m1 n4m1)) (\<lambda>s0.
         bind_out (writeLE32 s0 1 v1 (n1m1 + 1)) (\<lambda>(s1, p1).
         bind_out (writeLE32 s1 p1 v2 (n2m1 + 1)) (\<lambda>(s2, p2).
         bind_out (writeLE32 s2 p2 v3 (n3m1 + 1)) (\<lambda>(s3, p3).
         writeLE32 s3 p3 v4 (n4m1 + 1))))))"

text \<open>
  The loop of the encoders.  \<open>fetch i\<close> is \<open>values[i]\<close>, narrowed by \<open>ToInt32\<close> in the
  \<open>int64\<close> variants; \<open>emit\<close> writes the first \<open>writePos\<close> bytes of the scratch slice.
\<close>

definition fetch_group :: "(int \<Rightarrow> i32 outcome) \<Rightarrow> int \<Rightarrow> u8 list \<Rightarrow> (u8 list \<times> int) outcome" where
  "fetch_group fetch readPos scratch =
     bind_out (fetch readPos) (\<lambda>v1.
     bind_out (fetch (readPos + 1)) (\<lambda>v2.
     bind_out (fetch (readPos + 2)) (\<lambda>v3.
     bind_out (fetch (readPos + 3)) (\<lambda>v4. encode_group scratch v1 v2 v3 v4))))"

definition lift_out :: "'a outcome \<Rightarrow> ('s, 'a) act" where
  "lift_out r s = (r, s)"

function tail_loop :: "(int \<Rightarrow> i32 outcome) \<Rightarrow> (i32 \<Rightarrow> ('s, unit) act) \<Rightarrow> int \<Rightarrow> int \<Rightarrow> ('s, unit) act" where
  "tail_loop fetch wv limit readPos =
     (if readPos < limit
      then bind_act (lift_out (fetch readPos)) (\<lambda>v. seq_act (wv v) (tail_loop fetch wv limit (readPos + 1)))
      else ret_act ())"
  by pat_completeness auto
termination by (relation "measure (\<lambda>(fetch, wv, limit, readPos). nat (limit - readPos))") auto

declare tail_loop.simps [simp del]

function group_loop ::
  "(int \<Rightarrow> i32 outcome) \<Rightarrow> (u8 list \<Rightarrow> int \<Rightarrow> ('s, unit) act) \<Rightarrow> (i32 \<Rightarrow> ('s, unit) act) \<Rightarrow> int \<Rightarrow> int \<Rightarrow> u8 list \<Rightarrow> ('s, unit) act" where
  "group_loop fetch emit wv limit readPos scratch =
     (if limit - readPos \<ge> 4
      then bind_act (lift_out (fetch_group fetch readPos scratch)) (\<lambda>(scratch', writePos).
           seq_act (emit scratch' writePos) (group_loop fetch emit wv limit (readPos + 4) scratch'))
      else tail_loop fetch wv limit readPos)"
  by pat_completeness auto
termination by (relation "measure (\<lambda>(fetch, emit, wv, limit, readPos, scratch). nat (limit - readPos))") auto

declare group_loop.simps [simp del]

definition store_emit :: "'s prim_writer \<Rightarrow> u8 list \<Rightarrow> int \<Rightarrow> ('s, unit) act" where
  "store_emit W scratch writePos =
     bind_act (lift_out (subslice scratch 0 writePos)) (\<lambda>b. WriteBytesN W b writePos)"

definition util_emit :: "'s prim_writer \<Rightarrow> u8 list \<Rightarrow> int \<Rightarrow> ('s, unit) act" where
  "util_emit W scratch writePos = WriteBytes W scratch 0 writePos"

definition store_WriteGroupVInts :: "'s prim_writer \<Rightarrow> u8 list \<Rightarrow> i32 list \<Rightarrow> int \<Rightarrow> ('s, unit) act" where
  "store_WriteGroupVInts W scratch values limit =
     (if limit < 0 then fail_act (Errorf ''group vint: negative limit'')
      else if limit > int (length values) then fail_act (Errorf ''group vint: values shorter than limit'')
      else if int (length scratch) < GroupVIntMaxLengthPerGroup then fail_act (Errorf ''group vint: scratch below minimum'')
      else group_loop (index values) (store_emit W) (WriteVInt W) limit 0 scratch)"

definition store_WriteGroupVIntsInt64 :: "'s prim_writer \<Rightarrow> u8 list \<Rightarrow> i64 list \<Rightarrow> int \<Rightarrow> ('s, unit) act" where
  "store_WriteGroupVIntsInt64 W scratch values limit =
     (if limit < 0 then fail_act (Errorf ''group vint: negative limit'')
      else if limit > int (length values) then fail_act (Errorf ''group vint: values shorter than limit'')
      else if int (length scratch) < GroupVIntMaxLengthPerGroup then fail_act (Errorf ''group vint: scratch below minimum'')
      else group_loop (\<lambda>i. bind_out (index values i) store_ToInt32) (store_emit W) (WriteVInt W) limit 0 scratch)"

text \<open>
  The encoders of package \<^verbatim>\<open>util\<close> call the output's own \<open>WriteVInt\<close> for the tail; it is
  the argument \<open>wv\<close>.  Those of package \<^verbatim>\<open>store\<close> use a local \<open>writeVInt\<close>, the loop of
  \<open>BaseDataOutput.WriteVInt\<close>.
\<close>

definition util_WriteGroupVInts :: "'s prim_writer \<Rightarrow> (i32 \<Rightarrow> ('s, unit) act) \<Rightarrow> u8 list \<Rightarrow> i32 list \<Rightarrow> int \<Rightarrow> ('s, unit) act" where
  "util_WriteGroupVInts W wv scratch values limit =
     (if int (length scratch) < GroupVIntMaxLengthPerGroup then lift_out (Panic ''scratch buffer too small'')
      else group_loop (index values) (util_emit W) wv limit 0 scratch)"

definition util_WriteGroupVIntsInt64 :: "'s prim_writer \<Rightarrow> (i32 \<Rightarrow> ('s, unit) act) \<Rightarrow> u8 list \<Rightarrow> i64 list \<Rightarrow> int \<Rightarrow> ('s, unit) act" where
  "util_WriteGroupVIntsInt64 W wv scratch values limit =
     (if int (length scratch) < GroupVIntMaxLengthPerGroup then lift_out (Panic ''scratch buffer too small'')
      else group_loop (\<lambda>i. bind_out (index values i) util_ToInt32) (util_emit W) wv limit 0 scratch)"

text \<open>\<open>BaseDataOutput.WriteGroupVInts\<close>; \<open>groupVIntBytes\<close> is the scratch slice, \<open>None\<close> at first.\<close>

definition WriteGroupVInts :: "'s prim_writer \<Rightarrow> u8 list option \<Rightarrow> i32 list \<Rightarrow> int \<Rightarrow> ('s, unit) act" where
  "WriteGroupVInts W groupVIntBytes values limit =
     util_WriteGroupVInts W (WriteVInt W)
       (case groupVIntBytes of None \<Rightarrow> replicate (nat GroupVIntMaxLengthPerGroup) 0 | Some b \<Rightarrow> b) values limit"

section \<open>Reading\<close>

text \<open>
  What \<open>readGroupVInt32\<close> uses of an input that is both an \<open>IndexInput\<close> and a
  \<open>RandomAccessInput\<close>.  The readers take \<open>None\<close> for an input that is not.
\<close>

record 's random_access =
  ra_GetFilePointer :: "'s \<Rightarrow> int"
  ra_Length :: "'s \<Rightarrow> int"
  ra_ReadIntAt :: "int \<Rightarrow> ('s, i32) act"
  ra_SetPosition :: "int \<Rightarrow> ('s, unit) act"

definition intMasks :: "u32 list" where "intMasks = [0xFF, 0xFFFF, 0xFFFFFF, 0xFFFFFFFF]"

text \<open>\<open>readIntInGroup\<close>: \<open>b\<close> runs to \<open>numBytesMinus1\<close>; \<open>k\<close> bytes are left.\<close>

fun read_payload :: "'s input_core \<Rightarrow> nat \<Rightarrow> nat \<Rightarrow> u32 \<Rightarrow> ('s, u32) act" where
  "read_payload C 0 b v = ret_act v"
| "read_payload C (Suc k) b v =
     bind_act (ic_ReadByte C) (\<lambda>x. read_payload C k (Suc b) (v OR push_bit (8 * b) (ucast x)))"

definition store_readIntInGroup :: "'s input_core \<Rightarrow> nat \<Rightarrow> ('s, u32) act" where
  "store_readIntInGroup C numBytesMinus1 = read_payload C (numBytesMinus1 + 1) 0 0"

function store_readVInt_loop :: "'s input_core \<Rightarrow> i32 \<Rightarrow> nat \<Rightarrow> u8 \<Rightarrow> ('s, i32) act" where
  "store_readVInt_loop C v shift b =
     (if b AND 0x80 \<noteq> 0
      then if shift \<ge> 32 then fail_act (Errorf ''group vint: corrupted VInt'')
           else bind_act (ic_ReadByte C) (\<lambda>b'. store_readVInt_loop C (v OR push_bit shift (ucast (b' AND 0x7F))) (shift + 7) b')
      else ret_act v)"
  by pat_completeness auto
termination by (relation "measure (\<lambda>(C, v, shift, b). 32 - shift)") auto

declare store_readVInt_loop.simps [simp del]

definition store_readVInt :: "'s input_core \<Rightarrow> ('s, i32) act" where
  "store_readVInt C = bind_act (ic_ReadByte C) (\<lambda>b. store_readVInt_loop C (ucast b AND 0x7F) 7 b)"

definition flag_field :: "nat \<Rightarrow> u8 \<Rightarrow> nat" where
  "flag_field sh flag = unat (drop_bit sh flag AND 0x03)"

definition slow_group :: "'s input_core \<Rightarrow> (u32 \<Rightarrow> 'v) \<Rightarrow> 'v list \<Rightarrow> int \<Rightarrow> u8 \<Rightarrow> ('s, 'v list) act" where
  "slow_group C conv dst offset flag =
     bind_act (store_readIntInGroup C (unat (drop_bit 6 flag))) (\<lambda>v1.
     bind_act (lift_out (store dst offset (conv v1))) (\<lambda>d1.
     bind_act (store_readIntInGroup C (flag_field 4 flag)) (\<lambda>v2.
     bind_act (lift_out (store d1 (offset + 1) (conv v2))) (\<lambda>d2.
     bind_act (store_readIntInGroup C (flag_field 2 flag)) (\<lambda>v3.
     bind_act (lift_out (store d2 (offset + 2) (conv v3))) (\<lambda>d3.
     bind_act (store_readIntInGroup C (flag_field 0 flag)) (\<lambda>v4.
     lift_out (store d3 (offset + 3) (conv v4)))))))))"

definition readGroupVInt32Baseline :: "'s input_core \<Rightarrow> i32 list \<Rightarrow> int \<Rightarrow> ('s, i32 list) act" where
  "readGroupVInt32Baseline C dst offset =
     (if offset + 4 > int (length dst) then fail_act (Errorf ''group vint: dst overflow'')
      else bind_act (ic_ReadByte C) (slow_group C id dst offset))"

definition readGroupVInt64 :: "'s input_core \<Rightarrow> i64 list \<Rightarrow> int \<Rightarrow> ('s, i64 list) act" where
  "readGroupVInt64 C dst offset =
     (if offset + 4 > int (length dst) then fail_act (Errorf ''group vint: dst overflow'')
      else bind_act (ic_ReadByte C) (slow_group C ucast dst offset))"

text \<open>One step of the fast path: a masked absolute read, then \<open>pos += 1 + n\<close>.\<close>

definition fast_read ::
  "'s random_access \<Rightarrow> i32 list \<Rightarrow> int \<Rightarrow> int \<Rightarrow> nat \<Rightarrow> ('s, i32 list \<times> int) act" where
  "fast_read R dst offset pos nm1 =
     bind_act (ra_ReadIntAt R pos) (\<lambda>v.
     bind_act (lift_out (index intMasks (int nm1))) (\<lambda>m.
     bind_act (lift_out (store dst offset (v AND m))) (\<lambda>d.
     ret_act (d, pos + int (1 + nm1)))))"

definition fast_group :: "'s random_access \<Rightarrow> i32 list \<Rightarrow> int \<Rightarrow> u8 \<Rightarrow> int \<Rightarrow> ('s, i32 list) act" where
  "fast_group R dst offset flag pos =
     bind_act (fast_read R dst offset pos (unat (drop_bit 6 flag))) (\<lambda>(d1, p1).
     bind_act (fast_read R d1 (offset + 1) p1 (flag_field 4 flag)) (\<lambda>(d2, p2).
     bind_act (fast_read R d2 (offset + 2) p2 (flag_field 2 flag)) (\<lambda>(d3, p3).
     bind_act (fast_read R d3 (offset + 3) p3 (flag_field 0 flag)) (\<lambda>(d4, p4).
     seq_act (ra_SetPosition R p4) (ret_act d4)))))"

definition readGroupVInt32 ::
  "'s input_core \<Rightarrow> 's random_access option \<Rightarrow> i32 list \<Rightarrow> int \<Rightarrow> ('s, i32 list) act" where
  "readGroupVInt32 C RO dst offset =
     (if offset + 4 > int (length dst) then fail_act (Errorf ''group vint: dst overflow'')
      else bind_act (ic_ReadByte C) (\<lambda>flag s.
        case RO of None \<Rightarrow> slow_group C id dst offset flag s
        | Some R \<Rightarrow>
            let pos = ra_GetFilePointer R s
            in if ra_Length R s - pos \<ge> 4 * 4 then fast_group R dst offset flag pos s
               else slow_group C id dst offset flag s))"

definition ReadGroupVInt :: "'s input_core \<Rightarrow> 's random_access option \<Rightarrow> i32 list \<Rightarrow> int \<Rightarrow> ('s, i32 list) act" where
  "ReadGroupVInt C RO dst offset = readGroupVInt32 C RO dst offset"

definition ReadGroupVIntInt64 :: "'s input_core \<Rightarrow> i64 list \<Rightarrow> int \<Rightarrow> ('s, i64 list) act" where
  "ReadGroupVIntInt64 C dst offset = readGroupVInt64 C dst offset"

function read_tail :: "'s input_core \<Rightarrow> (i32 \<Rightarrow> 'v) \<Rightarrow> int \<Rightarrow> int \<Rightarrow> 'v list \<Rightarrow> ('s, 'v list) act" where
  "read_tail C conv limit i dst =
     (if i < limit
      then bind_act (store_readVInt C) (\<lambda>v. bind_act (lift_out (store dst i (conv v))) (read_tail C conv limit (i + 1)))
      else ret_act dst)"
  by pat_completeness auto
termination by (relation "measure (\<lambda>(C, conv, limit, i, dst). nat (limit - i))") auto

declare read_tail.simps [simp del]

function read_groups ::
  "('v list \<Rightarrow> int \<Rightarrow> ('s, 'v list) act) \<Rightarrow> 's input_core \<Rightarrow> (i32 \<Rightarrow> 'v) \<Rightarrow> int \<Rightarrow> int \<Rightarrow> 'v list \<Rightarrow> ('s, 'v list) act" where
  "read_groups rg C conv limit i dst =
     (if i \<le> limit - 4 then bind_act (rg dst i) (read_groups rg C conv limit (i + 4))
      else read_tail C conv limit i dst)"
  by pat_completeness auto
termination by (relation "measure (\<lambda>(rg, C, conv, limit, i, dst). nat (limit - i))") auto

declare read_groups.simps [simp del]

definition check_limit :: "int \<Rightarrow> 'v list \<Rightarrow> ('s, 'v list) act \<Rightarrow> ('s, 'v list) act" where
  "check_limit limit dst m =
     (if limit < 0 then fail_act (Errorf ''group vint: negative limit'')
      else if limit > int (length dst) then fail_act (Errorf ''group vint: dst shorter than limit'')
      else m)"

definition store_ReadGroupVInts :: "'s input_core \<Rightarrow> 's random_access option \<Rightarrow> i32 list \<Rightarrow> int \<Rightarrow> ('s, i32 list) act" where
  "store_ReadGroupVInts C RO dst limit =
     check_limit limit dst (read_groups (readGroupVInt32 C RO) C id limit 0 dst)"

definition ReadGroupVIntsBaseline :: "'s input_core \<Rightarrow> i32 list \<Rightarrow> int \<Rightarrow> ('s, i32 list) act" where
  "ReadGroupVIntsBaseline C dst limit =
     check_limit limit dst (read_groups (readGroupVInt32Baseline C) C id limit 0 dst)"

definition ReadGroupVIntsInt64 :: "'s input_core \<Rightarrow> i64 list \<Rightarrow> int \<Rightarrow> ('s, i64 list) act" where
  "ReadGroupVIntsInt64 C dst limit =
     check_limit limit dst (read_groups (readGroupVInt64 C) C ucast limit 0 dst)"

definition ReadGroupVIntCustom :: "(int \<times> go_error)" where
  "ReadGroupVIntCustom = (0, Errorf ''group vint: no longer implemented'')"

text \<open>The reader of \<^verbatim>\<open>util\<close>, over the derived reads of \<open>BaseDataInput\<close>.\<close>

definition util_readIntInGroup :: "'s input_core \<Rightarrow> nat \<Rightarrow> ('s, i32) ract" where
  "util_readIntInGroup C numBytesMinus1 =
     (if numBytesMinus1 = 0 then bind_ract (ReadByte C) (\<lambda>b. ret_ract (ucast b))
      else if numBytesMinus1 = 1 then bind_ract (ReadShort C) (\<lambda>s. ret_ract (ucast s))
      else if numBytesMinus1 = 2 then
        bind_ract (ReadShort C) (\<lambda>s. bind_ract (ReadByte C) (\<lambda>b. ret_ract (ucast s OR push_bit 16 (ucast b))))
      else ReadInt C)"

definition util_readGroupVInt :: "'s input_core \<Rightarrow> i32 list \<Rightarrow> int \<Rightarrow> ('s, i32 list) ract" where
  "util_readGroupVInt C dst offset =
     bind_ract (ReadByte C) (\<lambda>flag.
     bind_ract (util_readIntInGroup C (unat (drop_bit 6 flag))) (\<lambda>v1.
     bind_ract (of_outcome (store dst offset v1)) (\<lambda>d1.
     bind_ract (util_readIntInGroup C (flag_field 4 flag)) (\<lambda>v2.
     bind_ract (of_outcome (store d1 (offset + 1) v2)) (\<lambda>d2.
     bind_ract (util_readIntInGroup C (flag_field 2 flag)) (\<lambda>v3.
     bind_ract (of_outcome (store d2 (offset + 2) v3)) (\<lambda>d3.
     bind_ract (util_readIntInGroup C (flag_field 0 flag)) (\<lambda>v4.
     of_outcome (store d3 (offset + 3) v4)))))))))"

function util_read_tail :: "'s input_core \<Rightarrow> int \<Rightarrow> int \<Rightarrow> i32 list \<Rightarrow> ('s, i32 list) ract" where
  "util_read_tail C len i dst =
     (if i < len
      then bind_ract (ReadVInt C) (\<lambda>v. bind_ract (of_outcome (store dst i v)) (util_read_tail C len (i + 1)))
      else ret_ract dst)"
  by pat_completeness auto
termination by (relation "measure (\<lambda>(C, len, i, dst). nat (len - i))") auto

declare util_read_tail.simps [simp del]

function util_read_loop :: "'s input_core \<Rightarrow> int \<Rightarrow> int \<Rightarrow> i32 list \<Rightarrow> ('s, i32 list) ract" where
  "util_read_loop C len i dst =
     (if i \<le> len - 4 then bind_ract (util_readGroupVInt C dst i) (util_read_loop C len (i + 4))
      else util_read_tail C len i dst)"
  by pat_completeness auto
termination by (relation "measure (\<lambda>(C, len, i, dst). nat (len - i))") auto

declare util_read_loop.simps [simp del]

definition util_ReadGroupVInts :: "'s input_core \<Rightarrow> i32 list \<Rightarrow> int \<Rightarrow> ('s, i32 list) ract" where
  "util_ReadGroupVInts C dst len = util_read_loop C len 0 dst"

section \<open>ByteArrayRandomAccessInput\<close>

record ByteArrayRandomAccessInput = bra_bytes :: "u8 list"

definition NewByteArrayRandomAccessInput :: "u8 list \<Rightarrow> ByteArrayRandomAccessInput" where
  "NewByteArrayRandomAccessInput bytes = \<lparr>bra_bytes = bytes\<rparr>"

definition le_val :: "u8 list \<Rightarrow> 'w::len word" where
  "le_val bs = foldr (\<lambda>b v. ucast b OR push_bit 8 v) bs 0"

definition read_le_at :: "nat \<Rightarrow> ByteArrayRandomAccessInput \<Rightarrow> int \<Rightarrow> 'w::len word outcome" where
  "read_le_at n inp pos =
     (if pos < 0 \<or> pos + int n > int (length (bra_bytes inp)) then Err (Errorf ''position out of range'')
      else Ok (le_val (take n (drop (nat pos) (bra_bytes inp)))))"

definition bra_ReadByteAt :: "ByteArrayRandomAccessInput \<Rightarrow> int \<Rightarrow> u8 outcome" where
  "bra_ReadByteAt inp pos =
     (if pos < 0 \<or> pos \<ge> int (length (bra_bytes inp)) then Err (Errorf ''position out of range'')
      else index (bra_bytes inp) pos)"

definition bra_ReadShortAt :: "ByteArrayRandomAccessInput \<Rightarrow> int \<Rightarrow> i16 outcome" where
  "bra_ReadShortAt inp pos = read_le_at 2 inp pos"

definition bra_ReadIntAt :: "ByteArrayRandomAccessInput \<Rightarrow> int \<Rightarrow> i32 outcome" where
  "bra_ReadIntAt inp pos = read_le_at 4 inp pos"

definition bra_ReadLongAt :: "ByteArrayRandomAccessInput \<Rightarrow> int \<Rightarrow> i64 outcome" where
  "bra_ReadLongAt inp pos = read_le_at 8 inp pos"

definition bra_Length :: "ByteArrayRandomAccessInput \<Rightarrow> int" where
  "bra_Length inp = int (length (bra_bytes inp))"

definition bra_Slice :: "ByteArrayRandomAccessInput \<Rightarrow> int \<Rightarrow> int \<Rightarrow> ByteArrayRandomAccessInput outcome" where
  "bra_Slice inp offset len =
     (if offset < 0 then Err (Errorf ''slice offset is negative'')
      else if len < 0 then Err (Errorf ''slice length is negative'')
      else if offset + len > int (length (bra_bytes inp)) then Err (Errorf ''slice exceeds input length'')
      else bind_out (subslice (bra_bytes inp) offset (offset + len)) (\<lambda>b. Ok (NewByteArrayRandomAccessInput b)))"

text \<open>
  An in-memory input with both views: the sequential one of
  \<open>ByteArrayDataInput\<close> and the random-access one over the same bytes.
\<close>

definition bai_random :: "ByteArrayDataInput random_access" where
  "bai_random =
     \<lparr>ra_GetFilePointer = bai_GetPosition,
      ra_Length = (\<lambda>s. bra_Length (NewByteArrayRandomAccessInput (bai_bytes s))),
      ra_ReadIntAt = (\<lambda>pos s. (bra_ReadIntAt (NewByteArrayRandomAccessInput (bai_bytes s)) pos, s)),
      ra_SetPosition = (\<lambda>pos s. (Ok (), bai_SetPosition pos s))\<rparr>"

section \<open>The bytes of an encoding\<close>

definition payload :: "u32 \<Rightarrow> u8 list" where
  "payload v = take (nat (numBytes v)) (int_bytes v)"

definition group_bytes :: "u32 \<Rightarrow> u32 \<Rightarrow> u32 \<Rightarrow> u32 \<Rightarrow> u8 list" where
  "group_bytes a b c d =
     group_flag (numBytes a - 1) (numBytes b - 1) (numBytes c - 1) (numBytes d - 1)
       # payload a @ payload b @ payload c @ payload d"

fun group_encoding :: "i32 list \<Rightarrow> u8 list" where
  "group_encoding (a # b # c # d # vs) = group_bytes a b c d @ group_encoding vs"
| "group_encoding vs = concat (map (\<lambda>v. vbytes (unat v)) vs)"

lemma numBytes_range: "1 \<le> numBytes v" "numBytes v \<le> 4"
proof -
  have "v OR 1 \<noteq> 0" by (metis bit_0_eq bit_1_iff bit_or_iff zero_neq_one bot_apply bot_bool_def)
  then have "\<not> len_bits (unat (v OR 1)) \<le> 0" unfolding len_bits_le_iff by (simp add: unat_eq_zero)
  moreover have "len_bits (unat (v OR 1)) \<le> 32" unfolding len_bits_le_iff by (rule order.strict_trans2 [OF unsigned_less]) simp
  ultimately show "1 \<le> numBytes v" "numBytes v \<le> 4"
    unfolding numBytes_def LeadingZeros32_def by linarith+
qed

lemma numBytes_enough: "unat v < 256 ^ nat (numBytes v)"
proof -
  let ?l = "len_bits (unat (v OR 1))"
  have "?l \<le> 8 * nat (numBytes v)"
    unfolding numBytes_def LeadingZeros32_def using numBytes_range [of v, unfolded numBytes_def LeadingZeros32_def] by linarith
  then have "unat (v OR 1) < 2 ^ (8 * nat (numBytes v))" by (simp only: len_bits_le_iff)
  moreover have "v \<le> v OR 1" by (simp add: word_le_def unsigned_or_eq or_greater_eq)
  then have "unat v \<le> unat (v OR 1)" by (simp only: word_le_nat_alt)
  ultimately show ?thesis by (simp add: power_mult)
qed

lemma length_int_bytes [simp]: "length (int_bytes v) = 4"
  by (simp add: int_bytes_def)

lemma length_payload [simp]: "length (payload v) = nat (numBytes v)"
  using numBytes_range [of v] by (simp add: payload_def)

lemma length_group_bytes: "length (group_bytes a b c d) \<le> 17"
  using numBytes_range [of a] numBytes_range [of b] numBytes_range [of c] numBytes_range [of d]
  by (simp add: group_bytes_def)

lemma writeLE32_step:
  assumes "take (length pre) s = pre" "length pre + 4 \<le> length s" "at = int (length pre)"
  obtains s' where "writeLE32 s at v (numBytes v) = Ok (s', int (length (pre @ payload v)))"
    "take (length (pre @ payload v)) s' = pre @ payload v" "length s' = length s"
proof -
  define s' where "s' = take (length pre) s @ int_bytes v @ drop (length pre + 4) s"
  have "writeLE32 s at v (numBytes v) = Ok (s', int (length (pre @ payload v)))"
    using assms numBytes_range [of v] by (simp add: writeLE32_def s'_def int_bytes_def)
  moreover have "take (length (pre @ payload v)) s' = pre @ payload v"
    unfolding s'_def assms(1) using numBytes_range [of v] by (simp add: payload_def)
  moreover have "length s' = length s" using assms(2) by (simp add: s'_def)
  ultimately show thesis by (rule that)
qed

lemma encode_group_ok:
  assumes "GroupVIntMaxLengthPerGroup \<le> int (length scratch)"
  obtains s' where "encode_group scratch a b c d = Ok (s', int (length (group_bytes a b c d)))"
    "take (length (group_bytes a b c d)) s' = group_bytes a b c d" "length s' = length scratch"
proof -
  let ?f = "group_flag (numBytes a - 1) (numBytes b - 1) (numBytes c - 1) (numBytes d - 1)"
  note l = assms [unfolded GroupVIntMaxLengthPerGroup_def]
  note n = numBytes_range [of a] numBytes_range [of b] numBytes_range [of c] numBytes_range [of d]
  obtain x xs where x: "scratch = x # xs" using l by (cases scratch) auto
  have s0: "store scratch 0 ?f = Ok (?f # xs)" by (simp add: x)
  obtain s1 where s1: "writeLE32 (?f # xs) 1 a (numBytes a) = Ok (s1, int (length ([?f] @ payload a)))"
      "take (length ([?f] @ payload a)) s1 = [?f] @ payload a" "length s1 = length (?f # xs)"
    by (rule writeLE32_step [of "[?f]" "?f # xs" 1 a]) (use l x in auto)
  obtain s2 where s2: "writeLE32 s1 (int (length ([?f] @ payload a))) b (numBytes b) = Ok (s2, int (length (([?f] @ payload a) @ payload b)))"
      "take (length (([?f] @ payload a) @ payload b)) s2 = ([?f] @ payload a) @ payload b" "length s2 = length s1"
    by (rule writeLE32_step [OF s1(2) _ refl, where v = b]) (use l n s1(3) x in \<open>simp\<close>, blast)
  obtain s3 where s3: "writeLE32 s2 (int (length (([?f] @ payload a) @ payload b))) c (numBytes c)
        = Ok (s3, int (length ((([?f] @ payload a) @ payload b) @ payload c)))"
      "take (length ((([?f] @ payload a) @ payload b) @ payload c)) s3 = (([?f] @ payload a) @ payload b) @ payload c" "length s3 = length s2"
    by (rule writeLE32_step [OF s2(2) _ refl, where v = c]) (use l n s1(3) s2(3) x in \<open>simp\<close>, blast)
  obtain s4 where s4: "writeLE32 s3 (int (length ((([?f] @ payload a) @ payload b) @ payload c))) d (numBytes d)
        = Ok (s4, int (length (((([?f] @ payload a) @ payload b) @ payload c) @ payload d)))"
      "take (length (((([?f] @ payload a) @ payload b) @ payload c) @ payload d)) s4 = ((([?f] @ payload a) @ payload b) @ payload c) @ payload d"
      "length s4 = length s3"
    by (rule writeLE32_step [OF s3(2) _ refl, where v = d]) (use l n s1(3) s2(3) s3(3) x in \<open>simp\<close>, blast)
  show thesis
    by (rule that [of s4])
       (use s0 s1 s2 s3 s4 x in \<open>simp_all add: encode_group_def group_bytes_def\<close>)
qed

lemma bind_lift_Ok [simp]: "bind_act (lift_out (Ok x)) f = f x"
  by (rule ext) (simp add: bind_act_def lift_out_def)

lemma group_encoding_short: "length vs < 4 \<Longrightarrow> group_encoding vs = concat (map (\<lambda>v. vbytes (unat v)) vs)"
  by (cases vs rule: group_encoding.cases) auto

lemma drop_four:
  assumes "n + 4 \<le> length vs"
  shows "drop n vs = vs ! n # vs ! (n + 1) # vs ! (n + 2) # vs ! (n + 3) # drop (n + 4) vs"
proof -
  have one: "drop k vs = vs ! k # drop l vs" if "k < length vs" "l = Suc k" for k l
    using that by (simp add: Cons_nth_drop_Suc)
  have "drop n vs = vs ! n # drop (n + 1) vs" "drop (n + 1) vs = vs ! (n + 1) # drop (n + 2) vs"
    "drop (n + 2) vs = vs ! (n + 2) # drop (n + 3) vs" "drop (n + 3) vs = vs ! (n + 3) # drop (n + 4) vs"
    by (rule one; use assms in simp)+
  then show ?thesis by (simp only:)
qed

section \<open>Encoders\<close>

context byte_sink
begin

lemma tail_loop_writes:
  assumes "int (length vs) = limit" "\<And>i. 0 \<le> i \<Longrightarrow> i < limit \<Longrightarrow> fetch i = Ok (vs ! nat i)"
  shows "0 \<le> readPos \<Longrightarrow>
    writes ok room written (tail_loop fetch (WriteVInt W) limit readPos) (concat (map (\<lambda>v. vbytes (unat v)) (drop (nat readPos) vs)))"
proof (induction "nat (limit - readPos)" arbitrary: readPos)
  case 0
  then show ?case using assms(1) by (simp add: tail_loop.simps [of fetch "WriteVInt W" limit readPos] writes_ret)
next
  case (Suc k)
  then have r: "0 \<le> readPos" "readPos < limit" by auto
  have d: "drop (nat readPos) vs = vs ! nat readPos # drop (nat (readPos + 1)) vs"
    using r assms(1) by (simp add: Cons_nth_drop_Suc nat_add_distrib)
  have "writes ok room written (tail_loop fetch (WriteVInt W) limit (readPos + 1)) (concat (map (\<lambda>v. vbytes (unat v)) (drop (nat (readPos + 1)) vs)))"
    using Suc by simp
  then show ?case using r assms(2) [OF r]
    by (simp add: d tail_loop.simps [of fetch "WriteVInt W" limit readPos] writes_seq WriteVInt_writes)
qed

lemma group_loop_writes:
  assumes vs: "int (length vs) = limit" "\<And>i. 0 \<le> i \<Longrightarrow> i < limit \<Longrightarrow> fetch i = Ok (vs ! nat i)"
    and emit: "\<And>s p. p \<le> length s \<Longrightarrow> writes ok room written (emit s (int p)) (take p s)"
  shows "0 \<le> readPos \<Longrightarrow> readPos \<le> limit \<Longrightarrow> GroupVIntMaxLengthPerGroup \<le> int (length scratch) \<Longrightarrow>
    writes ok room written (group_loop fetch emit (WriteVInt W) limit readPos scratch) (group_encoding (drop (nat readPos) vs))"
proof (induction "nat (limit - readPos)" arbitrary: readPos scratch rule: less_induct)
  case less
  show ?case
  proof (cases "limit - readPos \<ge> 4")
    case False
    then show ?thesis using tail_loop_writes [OF vs less.prems(1)] vs(1) less.prems
      by (simp add: group_loop.simps [of fetch emit "WriteVInt W" limit readPos scratch] group_encoding_short)
  next
    case True
    let ?r = "nat readPos"
    let ?g = "group_bytes (vs ! ?r) (vs ! (?r + 1)) (vs ! (?r + 2)) (vs ! (?r + 3))"
    obtain s' where s': "encode_group scratch (vs ! ?r) (vs ! (?r + 1)) (vs ! (?r + 2)) (vs ! (?r + 3)) = Ok (s', int (length ?g))"
        "take (length ?g) s' = ?g" "length s' = length scratch"
      by (rule encode_group_ok [OF less.prems(3)])
    have "fetch readPos = Ok (vs ! ?r)" "fetch (readPos + 1) = Ok (vs ! (?r + 1))"
      "fetch (readPos + 2) = Ok (vs ! (?r + 2))" "fetch (readPos + 3) = Ok (vs ! (?r + 3))"
      using True less.prems(1) by (simp_all add: vs(2) nat_add_distrib)
    then have f: "fetch_group fetch readPos scratch = Ok (s', int (length ?g))"
      by (simp only: fetch_group_def bind_out.simps s'(1))
    have "length ?g \<le> length s'" using arg_cong [OF s'(2), of length] unfolding length_take by linarith
    then have e: "writes ok room written (emit s' (int (length ?g))) ?g"
      using emit [of "length ?g" s'] s'(2) by simp
    have "writes ok room written (group_loop fetch emit (WriteVInt W) limit (readPos + 4) s') (group_encoding (drop (nat (readPos + 4)) vs))"
      by (rule less.hyps) (use True less.prems s'(3) in auto)
    moreover have "nat (readPos + 4) = ?r + 4" "?r + 4 \<le> length vs" using True less.prems(1) vs(1) by auto
    ultimately have "writes ok room written (seq_act (emit s' (int (length ?g))) (group_loop fetch emit (WriteVInt W) limit (readPos + 4) s'))
        (group_encoding (drop ?r vs))"
      using e by (simp only: drop_four group_encoding.simps writes_seq)
    then show ?thesis
      unfolding group_loop.simps [of fetch emit "WriteVInt W" limit readPos scratch] f using True by simp
  qed
qed

lemma store_emit_writes: "p \<le> length s \<Longrightarrow> writes ok room written (store_emit W s (int p)) (take p s)"
  using WriteBytes_law [of 0 "int p" "take p s"]
  by (simp add: store_emit_def WriteBytesN_def WriteBytes_def)

lemma util_emit_writes: "p \<le> length s \<Longrightarrow> writes ok room written (util_emit W s (int p)) (take p s)"
  using WriteBytes_law [of 0 "int p" s] by (simp add: util_emit_def WriteBytes_def)

lemma store_WriteGroupVInts_writes:
  assumes "0 \<le> limit" "limit \<le> int (length values)" "GroupVIntMaxLengthPerGroup \<le> int (length scratch)"
  shows "writes ok room written (store_WriteGroupVInts W scratch values limit) (group_encoding (take (nat limit) values))"
  using group_loop_writes [of "take (nat limit) values" limit "index values" "store_emit W" 0 scratch, OF _ _ store_emit_writes] assms
  by (simp add: store_WriteGroupVInts_def)

lemma util_WriteGroupVInts_writes:
  assumes "0 \<le> limit" "limit \<le> int (length values)" "GroupVIntMaxLengthPerGroup \<le> int (length scratch)"
  shows "writes ok room written (util_WriteGroupVInts W (WriteVInt W) scratch values limit) (group_encoding (take (nat limit) values))"
  using group_loop_writes [of "take (nat limit) values" limit "index values" "util_emit W" 0 scratch, OF _ _ util_emit_writes] assms
  by (simp add: util_WriteGroupVInts_def)

lemma WriteGroupVInts_writes:
  assumes "0 \<le> limit" "limit \<le> int (length values)"
    and "\<And>b. gb = Some b \<Longrightarrow> GroupVIntMaxLengthPerGroup \<le> int (length b)"
  shows "writes ok room written (WriteGroupVInts W gb values limit) (group_encoding (take (nat limit) values))"
  using util_WriteGroupVInts_writes [OF assms(1,2)] assms(3)
  by (simp add: WriteGroupVInts_def GroupVIntMaxLengthPerGroup_def split: option.splits)

end

section \<open>Decoders\<close>

lemma lift_bind: "lift_ract (bind_act m f) = bind_ract (lift_ract m) (\<lambda>a. lift_ract (f a))"
  by (rule ext) (simp add: lift_ract_def bind_act_def bind_ract_def split: prod.splits outcome.splits)

lemma lift_ret: "lift_ract (ret_act v) = ret_ract v"
  by (rule ext) (simp add: lift_ract_def ret_act_def ret_ract_def)

lemma bind_of_outcome_Ok [simp]: "bind_ract (of_outcome (Ok v)) f = f v"
  by (rule ext) (simp add: bind_ract_def of_outcome_def)

lemma of_outcome_Ok: "of_outcome (Ok v) = ret_ract v"
  by (rule ext) (simp add: of_outcome_def ret_ract_def)

lemma lift_out_Ok: "lift_ract (lift_out (Ok v)) = ret_ract v"
  by (rule ext) (simp add: lift_ract_def lift_out_def ret_ract_def)

lemma bind_lift_out [simp]: "bind_ract (lift_ract (lift_out (Ok x))) f = f x"
  by (rule ext) (simp add: lift_ract_def lift_out_def bind_ract_def)

lemma lift_ReadByte: "lift_ract (ic_ReadByte C) = ReadByte C"
  by (simp add: ReadByte_def)

lemmas lift_simps = lift_bind lift_ret lift_out_Ok lift_ReadByte

lemma le_val_simps [simp]: "le_val [] = 0" "le_val (b # bs) = ucast b OR push_bit 8 (le_val bs)"
  by (simp_all add: le_val_def)

lemma bit_le_val:
  "bit (le_val bs :: 'w::len word) k \<longleftrightarrow> k < LENGTH('w) \<and> k div 8 < length bs \<and> bit (bs ! (k div 8)) (k mod 8)"
proof (induction bs arbitrary: k)
  case (Cons b bs)
  show ?case
  proof (cases "k < 8")
    case True
    then show ?thesis by (auto simp: bit_simps)
  next
    case False
    then obtain j where j: "k = 8 + j" using le_Suc_ex by (metis not_less)
    have "\<not> bit b (8 + j)" "(8 + j) div 8 = Suc (j div 8)" "(8 + j) mod 8 = j mod 8"
      by (auto dest: bit_imp_le_length)
    then show ?thesis by (auto simp: j bit_simps Cons.IH)
  qed
qed simp

lemma take_bit_le_val: "n \<le> length bs \<Longrightarrow> take_bit (8 * n) (le_val bs :: 'w::len word) = le_val (take n bs)"
  by (rule bit_word_eqI) (auto simp: bit_simps bit_le_val less_mult_imp_div_less mult.commute div_less_iff_less_mult)

lemma le_val_int_bytes: "le_val (int_bytes v) = v"
proof -
  have "i = 0 \<or> i = 1 \<or> i = 2 \<or> i = 3" if "i < 4" for i :: nat using that by auto
  then have "bit (int_bytes v ! i) j = bit v (8 * i + j)" if "i < 4" "j < 8" for i j
    using that by (fastforce simp: int_bytes_def bit_simps)
  then show ?thesis by (intro bit_word_eqI) (simp add: bit_le_val div_less_iff_less_mult)
qed

lemma le_val_payload: "le_val (payload v) = v"
proof -
  have "le_val (payload v) = take_bit (8 * nat (numBytes v)) v"
    using take_bit_le_val [of "nat (numBytes v)" "int_bytes v", where 'w = 32] numBytes_range [of v]
    by (simp add: payload_def le_val_int_bytes)
  also have "\<dots> = v"
  proof (rule word_unat_eq_iff [THEN iffD2])
    have "unat v < 2 ^ (8 * nat (numBytes v))" using numBytes_enough [of v] by (simp add: power_mult)
    then show "unat (take_bit (8 * nat (numBytes v)) v) = unat v"
      by (simp only: unsigned_take_bit_eq take_bit_nat_eq_self)
  qed
  finally show ?thesis .
qed

lemma group_flag_fields:
  fixes a b c d :: int
  assumes "0 \<le> a" "a < 4" "0 \<le> b" "b < 4" "0 \<le> c" "c < 4" "0 \<le> d" "d < 4"
  shows "int (unat (drop_bit 6 (group_flag a b c d))) = a" "int (flag_field 4 (group_flag a b c d)) = b"
    "int (flag_field 2 (group_flag a b c d)) = c" "int (flag_field 0 (group_flag a b c d)) = d"
proof -
  have *: "\<forall>a\<in>set [0, 1, 2, 3]. \<forall>b\<in>set [0, 1, 2, 3]. \<forall>c\<in>set [0, 1, 2, 3]. \<forall>d\<in>set [0, 1, 2, 3].
      int (unat (drop_bit 6 (group_flag a b c d))) = a \<and> int (flag_field 4 (group_flag a b c d)) = b \<and>
      int (flag_field 2 (group_flag a b c d)) = c \<and> int (flag_field 0 (group_flag a b c d)) = d"
    by code_simp
  have m: "x \<in> set [0, 1, 2, 3]" if "0 \<le> x" "x < 4" for x :: int using that by auto
  note f = * [rule_format, OF m m m m, OF assms]
  from f show "int (unat (drop_bit 6 (group_flag a b c d))) = a" "int (flag_field 4 (group_flag a b c d)) = b"
    "int (flag_field 2 (group_flag a b c d)) = c" "int (flag_field 0 (group_flag a b c d)) = d" by blast+
qed

lemma group_flag_lengths:
  fixes v1 v2 v3 v4 :: u32
  defines "f \<equiv> group_flag (numBytes v1 - 1) (numBytes v2 - 1) (numBytes v3 - 1) (numBytes v4 - 1)"
  shows "unat (drop_bit 6 f) + 1 = length (payload v1)" "flag_field 4 f + 1 = length (payload v2)"
    "flag_field 2 f + 1 = length (payload v3)" "flag_field 0 f + 1 = length (payload v4)"
proof -
  have r: "0 \<le> numBytes v - 1" "numBytes v - 1 < 4" for v using numBytes_range [of v] by simp_all
  have n: "int x = numBytes v - 1 \<Longrightarrow> x + 1 = length (payload v)" for x v
    using numBytes_range [of v] unfolding length_payload by linarith
  note f = group_flag_fields [OF r r r r, of v1 v2 v3 v4, folded f_def]
  show "unat (drop_bit 6 f) + 1 = length (payload v1)" "flag_field 4 f + 1 = length (payload v2)"
    "flag_field 2 f + 1 = length (payload v3)" "flag_field 0 f + 1 = length (payload v4)"
    by (rule n, rule f)+
qed

text \<open>Four values stored into a slice.\<close>

definition put4 :: "'v list \<Rightarrow> int \<Rightarrow> 'v \<Rightarrow> 'v \<Rightarrow> 'v \<Rightarrow> 'v \<Rightarrow> 'v list" where
  "put4 dst i a b c d = dst[nat i := a, nat (i + 1) := b, nat (i + 2) := c, nat (i + 3) := d]"

context byte_source
begin

lemma read_payload_reads:
  "length bs = k \<Longrightarrow> reads ok rest (lift_ract (read_payload C k b v)) bs (v OR push_bit (8 * b) (le_val bs))"
proof (induction bs arbitrary: k b v)
  case Nil
  then show ?case by (simp add: lift_simps reads_ret)
next
  case (Cons x bs)
  then obtain k' where k: "k = Suc k'" "length bs = k'" by auto
  have e: "v OR push_bit (8 * b) (le_val (x # bs)) = (v OR push_bit (8 * b) (ucast x)) OR push_bit (8 * Suc b) (le_val bs)"
    by (simp add: push_bit_or or.assoc add.commute)
  show ?case unfolding e k(1) read_payload.simps lift_bind lift_ReadByte
    by (rule reads_bind_Cons [OF ReadByte_reads]) (rule Cons.IH [OF k(2)])
qed

lemma readIntInGroup_reads:
  "n + 1 = length bs \<Longrightarrow> reads ok rest (lift_ract (store_readIntInGroup C n)) bs (le_val bs)"
  unfolding store_readIntInGroup_def using read_payload_reads [of bs "n + 1" 0 0] by simp

lemma reads_bind_store:
  assumes "reads ok rest rd bs v" "0 \<le> i" "i < int (length dst)" "reads ok rest (f (dst[nat i := g v])) cs r"
  shows "reads ok rest (bind_ract rd (\<lambda>v. bind_ract (lift_ract (lift_out (store dst i (g v)))) f)) (bs @ cs) r"
proof (rule reads_bind [OF assms(1)])
  have "bind_ract (ret_ract x) f = f x" for x
    by (rule ext) (simp add: bind_ract_def ret_ract_def)
  then show "reads ok rest (bind_ract (lift_ract (lift_out (store dst i (g v)))) f) cs r"
    using assms by (simp add: lift_out_Ok)
qed

lemma slow_group_reads:
  assumes i: "0 \<le> i" "i + 4 \<le> int (length dst)"
    and l: "unat (drop_bit 6 flag) + 1 = length b1" "flag_field 4 flag + 1 = length b2"
      "flag_field 2 flag + 1 = length b3" "flag_field 0 flag + 1 = length b4"
  shows "reads ok rest (lift_ract (slow_group C conv dst i flag)) (b1 @ b2 @ b3 @ b4)
    (put4 dst i (conv (le_val b1)) (conv (le_val b2)) (conv (le_val b3)) (conv (le_val b4)))"
proof -
  have last: "reads ok rest (bind_ract (lift_ract (store_readIntInGroup C (flag_field 0 flag))) (\<lambda>v4. lift_ract (lift_out (store d (i + 3) (conv v4)))))
      b4 (d[nat (i + 3) := conv (le_val b4)])" if "length d = length dst" for d
    using reads_bind [OF readIntInGroup_reads [OF l(4)], of "\<lambda>v4. lift_ract (lift_out (store d (i + 3) (conv v4)))" "[]"] i that
    by (simp add: lift_out_Ok reads_ret)
  show ?thesis unfolding slow_group_def lift_bind put4_def
    by (intro reads_bind_store [OF readIntInGroup_reads [OF l(1)]] reads_bind_store [OF readIntInGroup_reads [OF l(2)]]
          reads_bind_store [OF readIntInGroup_reads [OF l(3)]] last) (use i in simp_all)
qed

lemma group_reads:
  assumes "0 \<le> i" "i + 4 \<le> int (length dst)"
  shows "reads ok rest (bind_ract (ReadByte C) (\<lambda>flag. lift_ract (slow_group C conv dst i flag))) (group_bytes a b c d)
    (put4 dst i (conv a) (conv b) (conv c) (conv d))"
  unfolding group_bytes_def
  by (rule reads_bind_Cons [OF ReadByte_reads])
     (use slow_group_reads [OF assms group_flag_lengths, of conv a b c d] in \<open>simp only: le_val_payload\<close>)

lemma readGroupVInt32Baseline_reads:
  assumes "0 \<le> i" "i + 4 \<le> int (length dst)"
  shows "reads ok rest (lift_ract (readGroupVInt32Baseline C dst i)) (group_bytes a b c d) (put4 dst i a b c d)"
  using group_reads [OF assms, of id a b c d] assms
  by (simp add: readGroupVInt32Baseline_def lift_simps)

lemma readGroupVInt64_reads:
  assumes "0 \<le> i" "i + 4 \<le> int (length dst)"
  shows "reads ok rest (lift_ract (readGroupVInt64 C dst i)) (group_bytes a b c d)
    (put4 dst i (ucast a) (ucast b) (ucast c) (ucast d))"
  using group_reads [OF assms, of ucast a b c d] assms
  by (simp add: readGroupVInt64_def lift_simps)

text \<open>The bounded reader agrees with the encoder, since five groups of seven bits cover 32.\<close>

lemma store_vloop_done: "b AND 0x80 = 0 \<Longrightarrow> store_readVInt_loop C v sh b = ret_act v"
  by (simp add: store_readVInt_loop.simps [of C v sh b])

lemma store_vloop_more:
  "b AND 0x80 \<noteq> 0 \<Longrightarrow> sh < 32 \<Longrightarrow> store_readVInt_loop C v sh b =
     bind_act (ic_ReadByte C) (\<lambda>b'. store_readVInt_loop C (v OR push_bit sh (ucast (b' AND 0x7F))) (sh + 7) b')"
  by (simp add: store_readVInt_loop.simps [of C v sh b])

lemma store_vloop_reads:
  "sh \<le> 35 \<Longrightarrow> n < 2 ^ (35 - sh) \<Longrightarrow> sh mod 7 = 0 \<Longrightarrow> sh < 32 \<Longrightarrow>
   reads ok rest (bind_ract (ReadByte C) (\<lambda>b. lift_ract (store_readVInt_loop C (i OR push_bit sh (ucast (b AND 0x7F))) (sh + 7) b)))
     (vbytes n) (i OR push_bit sh (of_nat n))"
proof (induction n arbitrary: i sh rule: vbytes.induct)
  case (1 n)
  show ?case
  proof (cases "n < 128")
    case True
    then show ?thesis
      by (simp add: vbytes.simps [of n] low7 ucast_low7 store_vloop_done lift_ret
            reads_bind_Cons [OF ReadByte_reads] reads_ret)
  next
    case False
    let ?b = "of_nat (n mod 128 + 128) :: u8" and ?m = "of_nat (n mod 128) :: i32"
    have b: "?b AND 0x7F = of_nat (n mod 128)" "?b AND 0x80 \<noteq> 0" by (rule low7; simp)+
    have u: "ucast (of_nat (n mod 128) :: u8) = ?m" by (rule ucast_low7) simp
    have v: "(i OR push_bit sh ?m) OR push_bit (sh + 7) (of_nat (n div 128)) = i OR push_bit sh (of_nat n)"
      unfolding of_nat_group7 [of n] push_bit_or by (simp add: or.assoc)
    have s: "sh + 7 < 32" "(sh + 7) mod 7 = 0" "n div 128 < 2 ^ (35 - (sh + 7))"
    proof -
      have "sh \<le> 27"
      proof (rule ccontr)
        assume "\<not> sh \<le> 27"
        then have "sh = 28" using 1(4,5) by presburger
        then show False using 1(3) False by simp
      qed
      then show "sh + 7 < 32" using 1(4) by presburger
      show "(sh + 7) mod 7 = 0" using 1(4) by presburger
      have e: "35 - sh = (35 - (sh + 7)) + 7" using \<open>sh \<le> 27\<close> by simp
      have "n < 2 ^ (35 - (sh + 7)) * 128" using 1(3) unfolding e power_add by simp
      then show "n div 128 < 2 ^ (35 - (sh + 7))" by (rule less_mult_imp_div_less)
    qed
    have "reads ok rest (lift_ract (store_readVInt_loop C (i OR push_bit sh (ucast (?b AND 0x7F))) (sh + 7) ?b)) (vbytes (n div 128))
       ((i OR push_bit sh ?m) OR push_bit (sh + 7) (of_nat (n div 128)))"
      unfolding b(1) u store_vloop_more [OF b(2) s(1)] lift_bind lift_ReadByte
      by (rule 1(1) [OF False _ s(3,2,1)]) (use s(1) in simp)
    then show ?thesis
      unfolding v using False by (simp add: vbytes.simps [of n] reads_bind_Cons [OF ReadByte_reads])
  qed
qed

lemma store_readVInt_reads: "reads ok rest (lift_ract (store_readVInt C)) (vbytes (unat v)) v"
proof -
  have "(ucast b :: i32) AND 0x7F = ucast (b AND 0x7F)" for b :: u8
    unfolding seven_mask by (rule bit_word_eqI) (auto simp: bit_simps)
  moreover have "unat v < 2 ^ 35"
  proof -
    have "unat v < 2 ^ LENGTH(32)" by (rule unsigned_less)
    then show ?thesis by simp
  qed
  ultimately show ?thesis using store_vloop_reads [of 0 "unat v" 0] by (simp add: store_readVInt_def lift_simps)
qed

end

text \<open>The slice after the first values have been replaced.\<close>

lemma put4_splice:
  assumes "0 \<le> i" "nat i + 4 \<le> length dst"
  shows "put4 dst i a b c d = take (nat i) dst @ [a, b, c, d] @ drop (nat i + 4) dst"
proof -
  have "nat (i + 1) = nat i + 1" "nat (i + 2) = nat i + 2" "nat (i + 3) = nat i + 3" using assms(1) by auto
  then show ?thesis unfolding put4_def using assms(2)
    by (intro nth_equalityI) (auto simp: nth_list_update nth_append nth_Cons' less_Suc_eq)
qed

lemma splice_step:
  assumes "0 \<le> i" "nat i < length dst"
  shows "take (nat (i + 1)) (dst[nat i := v]) @ vs @ drop (nat (i + 1) + length vs) (dst[nat i := v])
       = take (nat i) dst @ (v # vs) @ drop (nat i + length (v # vs)) dst"
  using assms by (simp add: nat_add_distrib take_Suc_conv_app_nth)

lemma splice_step4:
  assumes "0 \<le> i" "nat i + 4 \<le> length dst"
  shows "take (nat (i + 4)) (put4 dst i a b c d) @ vs @ drop (nat (i + 4) + length vs) (put4 dst i a b c d)
       = take (nat i) dst @ (a # b # c # d # vs) @ drop (nat i + length (a # b # c # d # vs)) dst"
proof -
  have n: "nat (i + 4) = nat i + 4" using assms(1) by simp
  show ?thesis unfolding put4_splice [OF assms] n using assms(2)
    by (simp add: add.commute add.left_commute numeral_eq_Suc)
qed

context byte_source
begin

lemma read_tail_reads:
  "0 \<le> i \<Longrightarrow> limit = i + int (length vs) \<Longrightarrow> limit \<le> int (length dst) \<Longrightarrow>
   reads ok rest (lift_ract (read_tail C conv limit i dst)) (concat (map (\<lambda>v. vbytes (unat v)) vs))
     (take (nat i) dst @ map conv vs @ drop (nat i + length vs) dst)"
proof (induction vs arbitrary: i dst)
  case Nil
  then show ?case by (subst read_tail.simps) (simp add: lift_simps reads_ret)
next
  case (Cons v vs)
  have "reads ok rest (lift_ract (read_tail C conv limit (i + 1) (dst[nat i := conv v]))) (concat (map (\<lambda>v. vbytes (unat v)) vs))
     (take (nat (i + 1)) (dst[nat i := conv v]) @ map conv vs @ drop (nat (i + 1) + length vs) (dst[nat i := conv v]))"
    by (rule Cons.IH) (use Cons.prems in auto)
  then have r: "reads ok rest (lift_ract (read_tail C conv limit (i + 1) (dst[nat i := conv v]))) (concat (map (\<lambda>v. vbytes (unat v)) vs))
     (take (nat i) dst @ map conv (v # vs) @ drop (nat i + length (v # vs)) dst)"
    using splice_step [of i dst "conv v" "map conv vs"] Cons.prems by simp
  have i: "0 \<le> i" "i < int (length dst)" "i < limit" using Cons.prems by simp_all
  then have "lift_ract (read_tail C conv limit i dst) =
      bind_ract (lift_ract (store_readVInt C)) (\<lambda>v. bind_ract (lift_ract (lift_out (store dst i (conv v)))) (\<lambda>d. lift_ract (read_tail C conv limit (i + 1) d)))"
    by (simp add: read_tail.simps [of C conv limit i dst] lift_bind)
  moreover have "reads ok rest \<dots> (vbytes (unat v) @ concat (map (\<lambda>v. vbytes (unat v)) vs))
     (take (nat i) dst @ map conv (v # vs) @ drop (nat i + length (v # vs)) dst)"
    by (rule reads_bind_store [where v = v]) (fact store_readVInt_reads i r)+
  ultimately show ?case by simp
qed

lemma read_groups_reads:
  assumes rg: "\<And>dst i a b c d. 0 \<le> i \<Longrightarrow> i + 4 \<le> int (length dst) \<Longrightarrow>
    reads ok rest (lift_ract (rg dst i)) (group_bytes a b c d) (put4 dst i (conv a) (conv b) (conv c) (conv d))"
  shows "0 \<le> i \<Longrightarrow> limit = i + int (length vs) \<Longrightarrow> limit \<le> int (length dst) \<Longrightarrow>
   reads ok rest (lift_ract (read_groups rg C conv limit i dst)) (group_encoding vs)
     (take (nat i) dst @ map conv vs @ drop (nat i + length vs) dst)"
proof (induction vs arbitrary: i dst rule: group_encoding.induct)
  have short: "reads ok rest (lift_ract (read_groups rg C conv limit i dst)) (group_encoding vs)
     (take (nat i) dst @ map conv vs @ drop (nat i + length vs) dst)"
    if "length vs < 4" "0 \<le> i" "limit = i + int (length vs)" "limit \<le> int (length dst)" for i vs and dst
    using read_tail_reads [OF that(2-4), of conv] that(1,3)
    by (simp add: read_groups.simps [of rg C conv] group_encoding_short)
  {
    case "2_1" then show ?case by (rule short [rotated]) simp
  next
    case "2_2" then show ?case by (rule short [rotated]) simp
  next
    case "2_3" then show ?case by (rule short [rotated]) simp
  next
    case "2_4" then show ?case by (rule short [rotated]) simp
  }
  case (1 a b c d vs)
  let ?dst = "put4 dst i (conv a) (conv b) (conv c) (conv d)"
  have "reads ok rest (lift_ract (read_groups rg C conv limit (i + 4) ?dst)) (group_encoding vs)
     (take (nat (i + 4)) ?dst @ map conv vs @ drop (nat (i + 4) + length vs) ?dst)"
    by (rule 1(1)) (use 1 in \<open>auto simp: put4_def\<close>)
  then have r: "reads ok rest (lift_ract (read_groups rg C conv limit (i + 4) ?dst)) (group_encoding vs)
     (take (nat i) dst @ map conv (a # b # c # d # vs) @ drop (nat i + length (a # b # c # d # vs)) dst)"
    using splice_step4 [of i dst "conv a" "conv b" "conv c" "conv d" "map conv vs"] 1(2-) by simp
  have "i \<le> limit - 4" "i + 4 \<le> int (length dst)" using 1(2-) by simp_all
  then have "lift_ract (read_groups rg C conv limit i dst) = bind_ract (lift_ract (rg dst i)) (\<lambda>d. lift_ract (read_groups rg C conv limit (i + 4) d))"
    by (simp add: read_groups.simps [of rg C conv limit i dst] lift_bind)
  moreover have "reads ok rest (bind_ract (lift_ract (rg dst i)) (\<lambda>d. lift_ract (read_groups rg C conv limit (i + 4) d)))
      (group_bytes a b c d @ group_encoding vs)
      (take (nat i) dst @ map conv (a # b # c # d # vs) @ drop (nat i + length (a # b # c # d # vs)) dst)"
    by (rule reads_bind [where a = ?dst]) (rule rg, fact, fact, fact r)
  ultimately show ?case by simp
qed

end

section \<open>Random access\<close>

text \<open>
  What the fast path relies on: the file pointer is where the unread bytes begin, an
  absolute read within them returns their little-endian value and leaves the position,
  and \<open>SetPosition\<close> moves within them.
\<close>

locale random_source = byte_source C ok rest eof eofs
  for C :: "'s input_core" and ok :: "'s \<Rightarrow> bool" and rest :: "'s \<Rightarrow> u8 list" and eof and eofs +
  fixes R :: "'s random_access"
  assumes Length_law: "ok s \<Longrightarrow> ra_Length R s - ra_GetFilePointer R s = int (length (rest s))"
    and ReadIntAt_law: "ok s \<Longrightarrow> k + 4 \<le> length (rest s) \<Longrightarrow> pos = ra_GetFilePointer R s + int k \<Longrightarrow>
      \<exists>s'. ra_ReadIntAt R pos s = (Ok (le_val (take 4 (drop k (rest s)))), s') \<and> ok s' \<and> rest s' = rest s
         \<and> ra_GetFilePointer R s' = ra_GetFilePointer R s"
    and SetPosition_law: "ok s \<Longrightarrow> k \<le> length (rest s) \<Longrightarrow> pos = ra_GetFilePointer R s + int k \<Longrightarrow>
      \<exists>s'. ra_SetPosition R pos s = (Ok (), s') \<and> ok s' \<and> rest s' = drop k (rest s)"
begin

lemma mask_index: "n < 4 \<Longrightarrow> index intMasks (int n) = Ok (mask (8 * (n + 1)))"
proof -
  assume "n < 4"
  then consider "n = 0" | "n = 1" | "n = 2" | "n = 3" by linarith
  then show ?thesis by cases (simp_all add: index_def intMasks_def mask_eq_exp_minus_1)
qed

lemma fast_read_ok:
  assumes "ok s" "k + 4 \<le> length (rest s)" "n < 4" "0 \<le> i" "i < int (length dst)" "pos = ra_GetFilePointer R s + int k"
  shows "\<exists>s'. fast_read R dst i pos n s = (Ok (dst[nat i := le_val (take (n + 1) (drop k (rest s)))], pos + int (1 + n)), s')
    \<and> ok s' \<and> rest s' = rest s \<and> ra_GetFilePointer R s' = ra_GetFilePointer R s"
proof -
  obtain s' where s': "ra_ReadIntAt R pos s = (Ok (le_val (take 4 (drop k (rest s)))), s')" "ok s'" "rest s' = rest s"
      "ra_GetFilePointer R s' = ra_GetFilePointer R s"
    using ReadIntAt_law [OF assms(1,2,6)] by blast
  have "(le_val (take 4 (drop k (rest s))) :: u32) AND mask (8 * (n + 1)) = le_val (take (n + 1) (drop k (rest s)))"
  proof -
    have "n + 1 \<le> length (take 4 (drop k (rest s)))" "min (n + 1) 4 = n + 1" using assms(2,3) by auto
    then show ?thesis
      using take_bit_le_val [of "n + 1" "take 4 (drop k (rest s))", where 'w = 32]
      by (simp only: take_bit_eq_mask take_take)
  qed
  then show ?thesis using s' assms(4,5)
    by (auto simp: fast_read_def bind_act_Ok [where m = "ra_ReadIntAt R pos" and s = s] mask_index [OF assms(3)] ret_act_def)
qed

lemma fast_group_ok:
  assumes s: "ok s" "16 \<le> length (rest s)" and i: "0 \<le> i" "i + 4 \<le> int (length dst)"
    and n: "n1 = unat (drop_bit 6 flag)" "n2 = flag_field 4 flag" "n3 = flag_field 2 flag" "n4 = flag_field 0 flag"
      "n1 < 4" "n2 < 4" "n3 < 4" "n4 < 4"
    and b: "rest s = b1 @ b2 @ b3 @ b4 @ ys" "length b1 = n1 + 1" "length b2 = n2 + 1" "length b3 = n3 + 1" "length b4 = n4 + 1"
  shows "\<exists>s'. fast_group R dst i flag (ra_GetFilePointer R s) s = (Ok (put4 dst i (le_val b1) (le_val b2) (le_val b3) (le_val b4)), s')
    \<and> ok s' \<and> rest s' = ys"
proof -
  let ?p = "ra_GetFilePointer R s"
  let ?d1 = "dst[nat i := le_val b1]" and ?d2 = "dst[nat i := le_val b1, nat (i + 1) := le_val b2]"
  let ?d3 = "dst[nat i := le_val b1, nat (i + 1) := le_val b2, nat (i + 2) := le_val b3]"
  obtain s1 where s1: "fast_read R dst i ?p n1 s = (Ok (?d1, ?p + int (1 + n1)), s1)" "ok s1" "rest s1 = rest s"
      "ra_GetFilePointer R s1 = ?p"
    using fast_read_ok [OF s(1), of 0 n1 i dst ?p] s(2) i n b by auto
  obtain s2 where s2: "fast_read R ?d1 (i + 1) (?p + int (1 + n1)) n2 s1 = (Ok (?d2, ?p + int (1 + n1) + int (1 + n2)), s2)" "ok s2" "rest s2 = rest s"
      "ra_GetFilePointer R s2 = ?p"
    using fast_read_ok [OF s1(2), of "1 + n1" n2 "i + 1" ?d1 "?p + int (1 + n1)"] s(2) s1(3,4) i n b by auto
  obtain s3 where s3: "fast_read R ?d2 (i + 2) (?p + int (1 + n1) + int (1 + n2)) n3 s2 = (Ok (?d3, ?p + int (1 + n1) + int (1 + n2) + int (1 + n3)), s3)"
      "ok s3" "rest s3 = rest s" "ra_GetFilePointer R s3 = ?p"
    using fast_read_ok [OF s2(2), of "(1 + n1) + (1 + n2)" n3 "i + 2" ?d2 "?p + int (1 + n1) + int (1 + n2)"] s(2) s2(3,4) i n b by auto
  obtain s4 where s4: "fast_read R ?d3 (i + 3) (?p + int (1 + n1) + int (1 + n2) + int (1 + n3)) n4 s3
        = (Ok (?d3[nat (i + 3) := le_val b4], ?p + int (1 + n1) + int (1 + n2) + int (1 + n3) + int (1 + n4)), s4)"
      "ok s4" "rest s4 = rest s" "ra_GetFilePointer R s4 = ?p"
    using fast_read_ok [OF s3(2), of "(1 + n1) + (1 + n2) + (1 + n3)" n4 "i + 3" ?d3 "?p + int (1 + n1) + int (1 + n2) + int (1 + n3)"]
      s(2) s3(3,4) i n b by auto
  obtain s5 where s5: "ra_SetPosition R (?p + int (1 + n1) + int (1 + n2) + int (1 + n3) + int (1 + n4)) s4 = (Ok (), s5)" "ok s5" "rest s5 = ys"
    using SetPosition_law [OF s4(2), of "(1 + n1) + (1 + n2) + (1 + n3) + (1 + n4)"
        "?p + int (1 + n1) + int (1 + n2) + int (1 + n3) + int (1 + n4)"] s4(3,4) b by auto
  show ?thesis
    using s1(1) s2(1) s3(1) s4(1) s5
    by (simp add: fast_group_def n(1-4) [symmetric] bind_act_def seq_act_def ret_act_def put4_def)
qed

lemma flag_lt4: "unat (drop_bit 6 (flag :: u8)) < 4" "flag_field sh flag < 4"
proof -
  have "drop_bit 6 (unat flag) < 4" using unsigned_less [of flag, where 'a = nat] by (simp add: drop_bit_eq_div)
  then show "unat (drop_bit 6 flag) < 4" by (simp only: unat_drop_bit_eq)
  have three: "(0x03 :: u8) = mask 2" by (simp add: mask_eq_exp_minus_1)
  have "take_bit 2 (unat (drop_bit sh flag)) < 2 ^ 2" by (rule take_bit_nat_less_exp)
  then show "flag_field sh flag < 4"
    unfolding flag_field_def three take_bit_eq_mask [symmetric] unsigned_take_bit_eq by simp
qed

text \<open>On every input the fast path and the baseline decode the same values and stop at the same place.\<close>

lemma readGroupVInt32_equiv:
  assumes "ok s" "0 \<le> i"
  shows "\<exists>r s1 s2. readGroupVInt32 C (Some R) dst i s = (r, s1) \<and> readGroupVInt32Baseline C dst i s = (r, s2)
    \<and> (s1 = s2 \<or> ok s1 \<and> ok s2 \<and> rest s1 = rest s2)"
proof (cases "i + 4 > int (length dst)")
  case True
  then show ?thesis by (simp add: readGroupVInt32_def readGroupVInt32Baseline_def fail_act_def)
next
  case False
  from assms(1) show ?thesis
  proof (cases rule: ReadByte_cases)
    case none
    then show ?thesis using False
      by (simp add: readGroupVInt32_def readGroupVInt32Baseline_def ReadByte_def lift_ract_def bind_act_def)
  next
    case (byte flag s')
    have rb: "ic_ReadByte C s = (Ok flag, s')" using byte(2) by (simp add: ReadByte_def lift_ract_def)
    have len: "ra_Length R s' - ra_GetFilePointer R s' = int (length (rest s'))" by (rule Length_law [OF byte(3)])
    show ?thesis
    proof (cases "16 \<le> length (rest s')")
      case short: False
      then show ?thesis using False rb len
        by (cases "slow_group C id dst i flag s'") (simp add: readGroupVInt32_def readGroupVInt32Baseline_def bind_act_def Let_def)
    next
      case long: True
      define n1 where "n1 = unat (drop_bit 6 flag)"
      define n2 where "n2 = flag_field 4 flag"
      define n3 where "n3 = flag_field 2 flag"
      define n4 where "n4 = flag_field 0 flag"
      have n: "n1 < 4" "n2 < 4" "n3 < 4" "n4 < 4" by (simp_all add: n1_def n2_def n3_def n4_def flag_lt4)
      let ?r = "rest s'"
      define b1 where "b1 = take (n1 + 1) ?r"
      define b2 where "b2 = take (n2 + 1) (drop (n1 + 1) ?r)"
      define b3 where "b3 = take (n3 + 1) (drop (n1 + 1 + (n2 + 1)) ?r)"
      define b4 where "b4 = take (n4 + 1) (drop (n1 + 1 + (n2 + 1) + (n3 + 1)) ?r)"
      define ys where "ys = drop (n1 + 1 + (n2 + 1) + (n3 + 1) + (n4 + 1)) ?r"
      have l: "length b1 = n1 + 1" "length b2 = n2 + 1" "length b3 = n3 + 1" "length b4 = n4 + 1"
        using long n by (simp_all add: b1_def b2_def b3_def b4_def)
      have "?r = b1 @ drop (n1 + 1) ?r" by (simp add: b1_def del: append_assoc)
      moreover have "drop (n1 + 1) ?r = b2 @ drop (n1 + 1 + (n2 + 1)) ?r"
        unfolding b2_def by (metis append_take_drop_id drop_drop add.commute)
      moreover have "drop (n1 + 1 + (n2 + 1)) ?r = b3 @ drop (n1 + 1 + (n2 + 1) + (n3 + 1)) ?r"
        unfolding b3_def by (metis append_take_drop_id drop_drop add.commute)
      moreover have "drop (n1 + 1 + (n2 + 1) + (n3 + 1)) ?r = b4 @ ys"
        unfolding b4_def ys_def by (metis append_take_drop_id drop_drop add.commute)
      ultimately have r: "?r = b1 @ b2 @ b3 @ b4 @ ys" by metis
      have d: "i + 4 \<le> int (length dst)" using False by simp
      obtain t1 where t1: "fast_group R dst i flag (ra_GetFilePointer R s') s'
          = (Ok (put4 dst i (le_val b1) (le_val b2) (le_val b3) (le_val b4)), t1)" "ok t1" "rest t1 = ys"
        using fast_group_ok [OF byte(3) long assms(2) d n1_def n2_def n3_def n4_def n r l] by blast
      obtain t2 where t2: "lift_ract (slow_group C id dst i flag) s' = Some (Ok (put4 dst i (le_val b1) (le_val b2) (le_val b3) (le_val b4)), t2)"
          "ok t2" "rest t2 = ys"
        by (rule readsD [OF slow_group_reads [OF assms(2) d, of flag b1 b2 b3 b4 id] byte(3), of ys])
           (use l r in \<open>simp_all add: n1_def n2_def n3_def n4_def\<close>)
      show ?thesis using False rb len long t1 t2
        by (simp add: readGroupVInt32_def readGroupVInt32Baseline_def bind_act_def Let_def lift_ract_def)
    qed
  qed
qed

lemma readGroupVInt32_reads:
  assumes "0 \<le> i" "i + 4 \<le> int (length dst)"
  shows "reads ok rest (lift_ract (readGroupVInt32 C (Some R) dst i)) (group_bytes a b c d) (put4 dst i a b c d)"
  unfolding reads_def
proof (intro allI impI)
  fix s ys assume s: "ok s" "rest s = group_bytes a b c d @ ys"
  obtain s2 where s2: "lift_ract (readGroupVInt32Baseline C dst i) s = Some (Ok (put4 dst i a b c d), s2)" "ok s2" "rest s2 = ys"
    by (rule readsD [OF readGroupVInt32Baseline_reads [OF assms] s])
  with readGroupVInt32_equiv [OF s(1) assms(1), of dst]
  show "\<exists>s'. lift_ract (readGroupVInt32 C (Some R) dst i) s = Some (Ok (put4 dst i a b c d), s') \<and> ok s' \<and> rest s' = ys"
    by (auto simp: lift_ract_def)
qed

end

context byte_source
begin

lemma readGroupVInt32_None: "readGroupVInt32 C None dst i = readGroupVInt32Baseline C dst i"
  by (simp add: readGroupVInt32_def readGroupVInt32Baseline_def)

lemma store_ReadGroupVInts_reads:
  assumes "int (length vs) \<le> int (length dst)" "limit = int (length vs)"
    and rg: "\<And>dst i a b c d. 0 \<le> i \<Longrightarrow> i + 4 \<le> int (length dst) \<Longrightarrow>
      reads ok rest (lift_ract (readGroupVInt32 C RO dst i)) (group_bytes a b c d) (put4 dst i a b c d)"
  shows "reads ok rest (lift_ract (store_ReadGroupVInts C RO dst limit)) (group_encoding vs) (vs @ drop (length vs) dst)"
  using read_groups_reads [of "readGroupVInt32 C RO" id 0 limit vs dst] rg assms(1,2)
  by (simp add: store_ReadGroupVInts_def check_limit_def)

lemma ReadGroupVIntsBaseline_reads:
  assumes "int (length vs) \<le> int (length dst)" "limit = int (length vs)"
  shows "reads ok rest (lift_ract (ReadGroupVIntsBaseline C dst limit)) (group_encoding vs) (vs @ drop (length vs) dst)"
  using read_groups_reads [of "readGroupVInt32Baseline C" id 0 limit vs dst] readGroupVInt32Baseline_reads assms
  by (simp add: ReadGroupVIntsBaseline_def check_limit_def)

lemma ReadGroupVIntsInt64_reads:
  assumes "int (length vs) \<le> int (length dst)" "limit = int (length vs)"
  shows "reads ok rest (lift_ract (ReadGroupVIntsInt64 C dst limit)) (group_encoding vs) (map ucast vs @ drop (length vs) dst)"
  using read_groups_reads [of "readGroupVInt64 C" ucast 0 limit vs dst] readGroupVInt64_reads assms
  by (simp add: ReadGroupVIntsInt64_def check_limit_def)

end

text \<open>The in-memory input satisfies the contract when its limit is the end of the slice.\<close>

definition bar_ok :: "ByteArrayDataInput \<Rightarrow> bool" where
  "bar_ok inp \<longleftrightarrow> bai_ok inp \<and> bai_limit inp = int (length (bai_bytes inp))"

lemma bai_read_frame:
  "bai_ReadByte inp = (r, inp') \<Longrightarrow> bai_limit inp' = bai_limit inp \<and> bai_bytes inp' = bai_bytes inp"
  "bai_ReadBytes buf offset len inp = (r', inp') \<Longrightarrow> bai_limit inp' = bai_limit inp \<and> bai_bytes inp' = bai_bytes inp"
  by (auto simp: bai_ReadByte_def bai_ReadBytes_def split: if_splits outcome.splits)

lemma bai_rest_whole: "bar_ok s \<Longrightarrow> bai_rest s = drop (nat (bai_pos s)) (bai_bytes s)"
  by (auto simp: bar_ok_def bai_ok_def bai_rest_def)

interpretation bar: random_source bai_core bar_ok bai_rest EOF EOF bai_random
proof unfold_locales
  fix s b bs assume s: "bar_ok s" "bai_rest s = b # bs"
  then obtain s' where "bai_ReadByte s = (Ok b, s')" "bai_ok s'" "bai_rest s' = bs"
    using bai.ReadByte_law [of s b bs] by (auto simp: bar_ok_def bai_core_def)
  then show "\<exists>s'. ic_ReadByte bai_core s = (Ok b, s') \<and> bar_ok s' \<and> bai_rest s' = bs"
    using s bai_read_frame(1) [of s "Ok b" s'] by (auto simp: bar_ok_def bai_core_def)
next
  fix s assume "bar_ok s" "bai_rest s = []"
  then show "ic_ReadByte bai_core s = (Err EOF, s)"
    using bai.ReadByte_EOF by (simp add: bar_ok_def)
next
  fix s offset len and buf :: "u8 list"
  assume s: "bar_ok s" "0 \<le> offset" "0 \<le> len" "offset + len \<le> int (length buf)" "nat len \<le> length (bai_rest s)"
  then obtain s' where "bai_ReadBytes buf offset len s
      = (Ok (take (nat offset) buf @ take (nat len) (bai_rest s) @ drop (nat (offset + len)) buf), s')"
      "bai_ok s'" "bai_rest s' = drop (nat len) (bai_rest s)"
    using bai_ReadBytes_fits [of s offset len buf] by (auto simp: bar_ok_def)
  then show "\<exists>s'. ic_ReadBytes bai_core buf offset len s
      = (Ok (take (nat offset) buf @ take (nat len) (bai_rest s) @ drop (nat (offset + len)) buf), s')
    \<and> bar_ok s' \<and> bai_rest s' = drop (nat len) (bai_rest s)"
    using s(1) bai_read_frame(2) [of buf offset len s _ s'] by (auto simp: bar_ok_def bai_core_def)
next
  fix s len offset and buf :: "u8 list"
  assume "bar_ok s" "int (length (bai_rest s)) < len"
  then show "ic_ReadBytes bai_core buf offset len s = (Err EOF, s)"
    using bai.ReadBytes_EOF by (simp add: bar_ok_def)
next
  fix s assume "bar_ok s"
  then show "ra_Length bai_random s - ra_GetFilePointer bai_random s = int (length (bai_rest s))"
    by (auto simp: bai_rest_whole bai_random_def bra_Length_def NewByteArrayRandomAccessInput_def bai_GetPosition_def bar_ok_def bai_ok_def)
next
  fix s k pos assume "bar_ok s" "k + 4 \<le> length (bai_rest s)" "pos = ra_GetFilePointer bai_random s + int k"
  then show "\<exists>s'. ra_ReadIntAt bai_random pos s = (Ok (le_val (take 4 (drop k (bai_rest s)))), s') \<and> bar_ok s' \<and> bai_rest s' = bai_rest s
         \<and> ra_GetFilePointer bai_random s' = ra_GetFilePointer bai_random s"
    by (auto simp: bai_rest_whole bai_random_def bra_ReadIntAt_def read_le_at_def NewByteArrayRandomAccessInput_def bai_GetPosition_def
        bar_ok_def bai_ok_def nat_add_distrib add.commute)
next
  fix s k pos assume "bar_ok s" "k \<le> length (bai_rest s)" "pos = ra_GetFilePointer bai_random s + int k"
  then show "\<exists>s'. ra_SetPosition bai_random pos s = (Ok (), s') \<and> bar_ok s' \<and> bai_rest s' = drop k (bai_rest s)"
    by (auto simp: bai_rest_whole bai_random_def bai_SetPosition_def bai_GetPosition_def bai_rest_def
        bar_ok_def bai_ok_def nat_add_distrib add.commute)
qed

lemma NewByteArrayDataInput_random_ok: "bar_ok (NewByteArrayDataInput bytes)"
  by (simp add: bar_ok_def NewByteArrayDataInput_ok) (simp add: NewByteArrayDataInput_def bai_Reset_def bai_ResetWithSlice_def)

lemma GroupVInt_scratch: "GroupVIntMaxLengthPerGroup \<le> int (length (replicate 17 (0 :: u8)))"
  by (simp add: GroupVIntMaxLengthPerGroup_def)

section \<open>Properties\<close>

text \<open>
  C14: integers written by the group-varint encoders are read back unchanged by
  \<open>ReadGroupVInts\<close>, through its random-access fast path as through the baseline.  The
  encoders of \<^verbatim>\<open>store\<close> and \<^verbatim>\<open>util\<close>, the latter behind \<open>BaseDataOutput.WriteGroupVInts\<close>,
  write the same bytes.
\<close>

theorem group_vint_roundtrip:
  assumes "length (group_encoding vs) \<le> length buf" "length vs \<le> length dst"
  shows "\<exists>out out' inp inp' inp''.
       store_WriteGroupVInts bao_primitive (replicate 17 0) vs (int (length vs)) (NewByteArrayDataOutput buf) = (Ok (), out)
     \<and> WriteGroupVInts bao_primitive None vs (int (length vs)) (NewByteArrayDataOutput buf) = (Ok (), out')
     \<and> bao_written out' = bao_written out
     \<and> store_ReadGroupVInts bai_core (Some bai_random) dst (int (length vs)) (NewByteArrayDataInput (bao_GetBytes out))
         = (Ok (vs @ drop (length vs) dst), inp)
     \<and> ReadGroupVIntsBaseline bai_core dst (int (length vs)) (NewByteArrayDataInput (bao_GetBytes out'))
         = (Ok (vs @ drop (length vs) dst), inp')
     \<and> ReadGroupVIntsInt64 bai_core dst64 (int (length vs)) (NewByteArrayDataInput (bao_GetBytes out))
         = (if length vs \<le> length dst64 then Ok (map ucast vs @ drop (length vs) dst64)
            else Err (Errorf ''group vint: dst shorter than limit''), inp'')"
proof -
  let ?n = "int (length vs)" and ?o = "NewByteArrayDataOutput buf"
  have w: "writes bao_ok bao_room bao_written (store_WriteGroupVInts bao_primitive (replicate 17 0) vs ?n) (group_encoding vs)"
    using bao.store_WriteGroupVInts_writes [OF _ _ GroupVInt_scratch, of ?n vs] by simp
  have w': "writes bao_ok bao_room bao_written (WriteGroupVInts bao_primitive None vs ?n) (group_encoding vs)"
    using bao.WriteGroupVInts_writes [of ?n vs None] by simp
  have r: "reads bar_ok bai_rest (lift_ract (store_ReadGroupVInts bai_core (Some bai_random) dst ?n)) (group_encoding vs) (vs @ drop (length vs) dst)"
    using bar.store_ReadGroupVInts_reads [OF _ refl bar.readGroupVInt32_reads] assms(2) by simp
  have r': "reads bai_ok bai_rest (lift_ract (ReadGroupVIntsBaseline bai_core dst ?n)) (group_encoding vs) (vs @ drop (length vs) dst)"
    using bai.ReadGroupVIntsBaseline_reads [OF _ refl] assms(2) by simp
  obtain out inp where 1: "store_WriteGroupVInts bao_primitive (replicate 17 0) vs ?n ?o = (Ok (), out)"
      "store_ReadGroupVInts bai_core (Some bai_random) dst ?n (NewByteArrayDataInput (bao_GetBytes out)) = (Ok (vs @ drop (length vs) dst), inp)"
    using array_roundtrip_via [OF w r assms(1) NewByteArrayDataInput_random_ok] by (auto simp: lift_ract_def)
  obtain out' inp' where 2: "WriteGroupVInts bao_primitive None vs ?n ?o = (Ok (), out')"
      "ReadGroupVIntsBaseline bai_core dst ?n (NewByteArrayDataInput (bao_GetBytes out')) = (Ok (vs @ drop (length vs) dst), inp')"
    using array_roundtrip [OF w' r' assms(1)] by (auto simp: lift_ract_def)
  have o: "bao_ok ?o" "length (group_encoding vs) \<le> bao_room ?o"
    using assms(1) by (simp_all add: bao_ok_def bao_room_def NewByteArrayDataOutput_def bao_Reset_def bao_ResetWithOffset_def)
  have 3: "bao_written out' = bao_written out"
    using writesD [OF w o] writesD [OF w' o] 1(1) 2(1) by (metis Pair_inject)
  have 4: "\<exists>inp''. ReadGroupVIntsInt64 bai_core dst64 ?n (NewByteArrayDataInput (bao_GetBytes out))
      = (if length vs \<le> length dst64 then Ok (map ucast vs @ drop (length vs) dst64)
         else Err (Errorf ''group vint: dst shorter than limit''), inp'')"
  proof (cases "length vs \<le> length dst64")
    case True
    then have "reads bai_ok bai_rest (lift_ract (ReadGroupVIntsInt64 bai_core dst64 ?n)) (group_encoding vs) (map ucast vs @ drop (length vs) dst64)"
      using bai.ReadGroupVIntsInt64_reads [OF _ refl] by simp
    from array_roundtrip [OF w this assms(1)] 1(1) True show ?thesis by (auto simp: lift_ract_def)
  next
    case False
    then show ?thesis by (simp add: ReadGroupVIntsInt64_def check_limit_def fail_act_def)
  qed
  from 1 2 3 4 show ?thesis by metis
qed

theorem group_vint_roundtrip_witness:
  "\<exists>out inp. store_WriteGroupVInts bao_primitive (replicate 17 0) [1, 300, 70000, - 1, 5] 5 (NewByteArrayDataOutput (replicate 18 0)) = (Ok (), out)
     \<and> store_ReadGroupVInts bai_core (Some bai_random) (replicate 5 0) 5 (NewByteArrayDataInput (bao_GetBytes out))
         = (Ok [1, 300, 70000, - 1, 5], inp)"
proof -
  let ?vs = "[1, 300, 70000, - 1, 5] :: i32 list"
  have l: "length (group_encoding ?vs) \<le> length (replicate 18 (0 :: u8))" "length ?vs \<le> length (replicate 5 (0 :: i32))"
    using length_group_bytes [of 1 300 70000 "- 1"] by (simp_all add: vbytes.simps)
  have e: "?vs @ drop (length ?vs) (replicate 5 0) = ?vs" "int (length ?vs) = 5" by simp_all
  show ?thesis using group_vint_roundtrip [OF l, of "[]"] unfolding e by blast
qed

text \<open>
  C15: on every input the random-access fast path of \<open>readGroupVInt32\<close> and the
  sequential \<open>readGroupVInt32Baseline\<close> return the same result, whatever the bytes, and
  leave the same bytes unread.
\<close>

theorem group_vint_fast_path:
  assumes "bar_ok inp" "0 \<le> offset"
  shows "\<exists>r inp1 inp2. readGroupVInt32 bai_core (Some bai_random) dst offset inp = (r, inp1)
     \<and> readGroupVInt32Baseline bai_core dst offset inp = (r, inp2) \<and> bai_rest inp1 = bai_rest inp2"
  using bar.readGroupVInt32_equiv [OF assms, of dst] by metis

theorem group_vint_fast_path_witness:
  "\<exists>r inp1 inp2. readGroupVInt32 bai_core (Some bai_random) [0, 0, 0, 0] 0 (NewByteArrayDataInput (replicate 17 0x41)) = (r, inp1)
     \<and> readGroupVInt32Baseline bai_core [0, 0, 0, 0] 0 (NewByteArrayDataInput (replicate 17 0x41)) = (r, inp2)
     \<and> bai_rest inp1 = bai_rest inp2"
  by (rule group_vint_fast_path) (simp_all add: NewByteArrayDataInput_random_ok)

text \<open>
  the two \<open>ToInt32\<close> conversions disagree.  That of \<^verbatim>\<open>store\<close> accepts exactly the
  values below \<open>2 ^ 32\<close>, so it refuses every negative \<open>int64\<close>; that of \<^verbatim>\<open>util\<close>
  accepts exactly the signed 32-bit range, so it refuses the upper half of the
  unsigned one.  Both keep the low 32 bits of what they accept.
\<close>

theorem to_int32_ranges:
  "store_ToInt32 v = (if 0 \<le> sint v \<and> sint v < 2 ^ 32 then Ok (ucast v) else Err (Errorf ''group vint: integer overflow'')) \<and>
   util_ToInt32 v = (if - (2 ^ 31) \<le> sint v \<and> sint v < 2 ^ 31 then Ok (ucast v) else Err (Errorf ''group-varint integer overflow''))"
proof
  have "v > 0xFFFFFFFF \<longleftrightarrow> \<not> (0 \<le> sint v \<and> sint v < 2 ^ 32)"
  proof (cases "bit v 63")
    case True
    then have "2 ^ 63 \<le> uint v" "sint v < 0" using bit_top_iff [of v] bit_last_iff [of v] by simp_all
    then show ?thesis by (simp add: word_less_def)
  next
    case False
    then have "sint v = uint v" using sint_as_uint [of v] by simp
    then show ?thesis by (auto simp: word_less_def)
  qed
  then show "store_ToInt32 v = (if 0 \<le> sint v \<and> sint v < 2 ^ 32 then Ok (ucast v) else Err (Errorf ''group vint: integer overflow''))"
    by (simp add: store_ToInt32_def)
  show "util_ToInt32 v = (if - (2 ^ 31) \<le> sint v \<and> sint v < 2 ^ 31 then Ok (ucast v) else Err (Errorf ''group-varint integer overflow''))"
    by (auto simp: util_ToInt32_def)
qed

end
