(* ===== verification/Byte_Buffers_Directory.thy ===== *)
theory Byte_Buffers_Directory
  imports Group_VInt "HOL-Library.AList" "HOL-Library.List_Lexorder"
begin

text \<open>
  \<^verbatim>\<open>store/byte_buffers_directory.go\<close>, the parts of \<open>BaseDirectory\<close>
  (\<^verbatim>\<open>store/directory.go\<close>) and of \<open>BaseIndexInput\<close>, \<open>BaseIndexOutput\<close>
  (\<^verbatim>\<open>spi/base_index_input.go\<close>, \<^verbatim>\<open>spi/base_index_output.go\<close>) it uses: the in-memory
  directory, its outputs and its chunked inputs.

  A \<open>*byteBufferFile\<close> is shared by the directory and by open handles, so files live in a
  store \<open>bd_heap\<close> addressed by number and the directory maps names to addresses; mutexes
  only serialise the operations and are not modelled.  A handle's methods also consult
  the directory, so their state is the pair of both.

  Both handle types embed a base type and override part of its methods; the model of a
  handle has its own methods first, and the promoted ones only where nothing overrides
  them.  Sums of a client's \<open>int64\<close> arguments wrap (\<open>wrap64\<close>); the length of a buffer added to
  a position in a file, and the chunk size added to the length of a file, are taken to stay below \<open>2 ^ 63\<close>.

  The lemmas show that an output appends and an input delivers bytes as the contracts
  of \<open>Data_IO\<close> ask, for every chunking, and that the directory implements a map from
  names to contents.
\<close>

section \<open>Errors\<close>

definition ErrFileNotFound :: go_error where "ErrFileNotFound = Errorf ''file not found''"
definition ErrFileAlreadyExists :: go_error where "ErrFileAlreadyExists = Errorf ''file already exists''"
definition ErrFileIsOpen :: go_error where "ErrFileIsOpen = Errorf ''file is currently open''"
definition ErrIllegalState :: go_error where "ErrIllegalState = Errorf ''illegal state''"

section \<open>The directory's state\<close>

record byteBufferFile =
  bf_name :: gostring
  bf_content :: "u8 list"

record ByteBuffersDirectory =
  bd_isOpen :: bool
  bd_openFiles :: "gostring \<rightharpoonup> int"
  bd_files :: "(gostring \<times> nat) list"
  bd_heap :: "nat \<rightharpoonup> byteBufferFile"
  bd_fresh :: nat
  bd_tempCounter :: u64
  bd_chunkSize :: int

definition NewByteBuffersDirectory :: ByteBuffersDirectory where
  "NewByteBuffersDirectory =
     \<lparr>bd_isOpen = True, bd_openFiles = Map.empty, bd_files = [], bd_heap = Map.empty,
      bd_fresh = 0, bd_tempCounter = 0, bd_chunkSize = 0\<rparr>"

definition NewByteBuffersDirectoryWithChunkSize :: "int \<Rightarrow> ByteBuffersDirectory outcome" where
  "NewByteBuffersDirectoryWithChunkSize chunkSize =
     (if chunkSize < 1 then Panic ''chunkSize must be >= 1''
      else Ok (NewByteBuffersDirectory\<lparr>bd_chunkSize := chunkSize\<rparr>))"

definition EnsureOpen :: "(ByteBuffersDirectory, unit) act" where
  "EnsureOpen d = (if \<not> bd_isOpen d then (Err ErrIllegalState, d) else (Ok (), d))"

definition AddOpenFile :: "gostring \<Rightarrow> ByteBuffersDirectory \<Rightarrow> ByteBuffersDirectory" where
  "AddOpenFile name d =
     d\<lparr>bd_openFiles := (bd_openFiles d)(name \<mapsto> (case bd_openFiles d name of None \<Rightarrow> 0 | Some c \<Rightarrow> c) + 1)\<rparr>"

definition RemoveOpenFile :: "gostring \<Rightarrow> ByteBuffersDirectory \<Rightarrow> ByteBuffersDirectory" where
  "RemoveOpenFile name d =
     (case bd_openFiles d name of
        None \<Rightarrow> d
      | Some c \<Rightarrow> d\<lparr>bd_openFiles := (if c \<le> 1 then (bd_openFiles d)(name := None)
                                        else (bd_openFiles d)(name \<mapsto> c - 1))\<rparr>)"

definition IsFileOpen :: "gostring \<Rightarrow> ByteBuffersDirectory \<Rightarrow> bool" where
  "IsFileOpen name d \<longleftrightarrow> (case bd_openFiles d name of None \<Rightarrow> False | Some c \<Rightarrow> c > 0)"

definition GetOpenFileCount :: "gostring \<Rightarrow> ByteBuffersDirectory \<Rightarrow> int" where
  "GetOpenFileCount name d = (case bd_openFiles d name of None \<Rightarrow> 0 | Some c \<Rightarrow> c)"

section \<open>Directory operations\<close>

definition bd_ListAll :: "(ByteBuffersDirectory, gostring list) act" where
  "bd_ListAll = seq_act EnsureOpen (\<lambda>d. (Ok (sort (map fst (bd_files d))), d))"

definition bd_FileExists :: "gostring \<Rightarrow> ByteBuffersDirectory \<Rightarrow> bool" where
  "bd_FileExists name d = (if \<not> bd_isOpen d then False else map_of (bd_files d) name \<noteq> None)"

text \<open>\<open>*p\<close> of a file pointer; addresses in the directory and in handles are allocated.\<close>

definition deref :: "ByteBuffersDirectory \<Rightarrow> nat \<Rightarrow> byteBufferFile" where
  "deref d r = (case bd_heap d r of None \<Rightarrow> \<lparr>bf_name = [], bf_content = []\<rparr> | Some f \<Rightarrow> f)"

definition bd_FileLength :: "gostring \<Rightarrow> (ByteBuffersDirectory, int) act" where
  "bd_FileLength name = seq_act EnsureOpen (\<lambda>d.
     case map_of (bd_files d) name of
       None \<Rightarrow> (Err ErrFileNotFound, d)
     | Some r \<Rightarrow> (Ok (int (length (bf_content (deref d r)))), d))"

definition bd_DeleteFile :: "gostring \<Rightarrow> (ByteBuffersDirectory, unit) act" where
  "bd_DeleteFile name = seq_act EnsureOpen (\<lambda>d.
     if map_of (bd_files d) name = None then (Err ErrFileNotFound, d)
     else (Ok (), d\<lparr>bd_files := AList.delete name (bd_files d)\<rparr>))"

record ByteBuffersIndexOutput =
  bbo_name :: gostring
  bbo_filePointer :: int
  bbo_file :: "nat option"
  bbo_data :: "u8 list"

definition bd_CreateOutput :: "gostring \<Rightarrow> (ByteBuffersDirectory, ByteBuffersIndexOutput) act" where
  "bd_CreateOutput name = seq_act EnsureOpen (\<lambda>d.
     if map_of (bd_files d) name \<noteq> None then (Err ErrFileAlreadyExists, d)
     else let r = bd_fresh d;
              d1 = d\<lparr>bd_heap := (bd_heap d)(r \<mapsto> \<lparr>bf_name = name, bf_content = []\<rparr>), bd_fresh := r + 1,
                     bd_files := (name, r) # bd_files d\<rparr>;
              d2 = AddOpenFile name d1
          in (Ok \<lparr>bbo_name = name, bbo_filePointer = 0, bbo_file = Some r, bbo_data = []\<rparr>, d2))"

record ByteBuffersIndexInput =
  bbi_chunks :: "u8 list list"
  bbi_cumLens :: "int list"
  bbi_position :: int
  bbi_filePointer :: int
  bbi_length :: int
  bbi_name :: gostring

fun cum_lens :: "int \<Rightarrow> u8 list list \<Rightarrow> int list" where
  "cum_lens tot [] = []"
| "cum_lens tot (c # cs) = tot # cum_lens (tot + int (length c)) cs"

definition newByteBuffersIndexInput :: "u8 list list \<Rightarrow> gostring \<Rightarrow> ByteBuffersIndexInput" where
  "newByteBuffersIndexInput chunks name =
     \<lparr>bbi_chunks = chunks, bbi_cumLens = cum_lens 0 chunks, bbi_position = 0, bbi_filePointer = 0,
      bbi_length = int (length (concat chunks)), bbi_name = name\<rparr>"

definition splitIntoChunks :: "u8 list \<Rightarrow> int \<Rightarrow> u8 list list" where
  "splitIntoChunks data chunkSize =
     (if data = [] then [[]]
      else let n = nat ((int (length data) + chunkSize - 1) div chunkSize); cs = nat chunkSize
           in map (\<lambda>i. let start = i * cs; end0 = start + cs;
                          endp = (if end0 > length data then length data else end0)
                      in take (endp - start) (drop start data)) [0..<n])"

definition bd_OpenInput :: "gostring \<Rightarrow> (ByteBuffersDirectory, ByteBuffersIndexInput) act" where
  "bd_OpenInput name = seq_act EnsureOpen (\<lambda>d.
     case map_of (bd_files d) name of
       None \<Rightarrow> (Err ErrFileNotFound, d)
     | Some r \<Rightarrow>
         let content = bf_content (deref d r);
             chunks = (if bd_chunkSize d > 0 then splitIntoChunks content (bd_chunkSize d) else [content])
         in (Ok (newByteBuffersIndexInput chunks name), AddOpenFile name d))"

text \<open>Decimal digits of \<open>fmt.Sprintf("%d")\<close>, as bytes.\<close>

fun decimal :: "nat \<Rightarrow> gostring" where
  "decimal n = (if n < 10 then [of_nat (48 + n)] else decimal (n div 10) @ [of_nat (48 + n mod 10)])"

declare decimal.simps [simp del]

definition bd_generateTempFileName :: "gostring \<Rightarrow> gostring \<Rightarrow> (ByteBuffersDirectory, gostring) act" where
  "bd_generateTempFileName prefix suffix d =
     (let counter = bd_tempCounter d + 1
      in (Ok (prefix @ [95] @ decimal (unat counter) @ suffix), d\<lparr>bd_tempCounter := counter\<rparr>))"

definition bd_CreateTempOutput :: "gostring \<Rightarrow> gostring \<Rightarrow> (ByteBuffersDirectory, ByteBuffersIndexOutput) act" where
  "bd_CreateTempOutput prefix suffix =
     seq_act EnsureOpen (bind_act (bd_generateTempFileName prefix suffix) bd_CreateOutput)"

definition bd_Sync :: "gostring list \<Rightarrow> (ByteBuffersDirectory, unit) act" where
  "bd_Sync names = EnsureOpen"

definition bd_Rename :: "gostring \<Rightarrow> gostring \<Rightarrow> (ByteBuffersDirectory, unit) act" where
  "bd_Rename source dest = seq_act EnsureOpen (\<lambda>d.
     if IsFileOpen source d then (Err ErrFileIsOpen, d)
     else case map_of (bd_files d) source of
            None \<Rightarrow> (Err ErrFileNotFound, d)
          | Some r \<Rightarrow>
              if map_of (bd_files d) dest \<noteq> None then (Err ErrFileAlreadyExists, d)
              else (Ok (), d\<lparr>bd_files := (dest, r) # AList.delete source (bd_files d),
                             bd_heap := (bd_heap d)(r \<mapsto> (deref d r)\<lparr>bf_name := dest\<rparr>)\<rparr>))"

definition bd_Close :: "(ByteBuffersDirectory, unit) act" where
  "bd_Close d = (if \<not> bd_isOpen d then (Ok (), d) else (Ok (), d\<lparr>bd_files := [], bd_isOpen := False\<rparr>))"

section \<open>ByteBuffersIndexInput\<close>

type_synonym bbi_state = "ByteBuffersDirectory \<times> ByteBuffersIndexInput"

text \<open>\<open>sort.Search\<close> of the standard library: its binary search.\<close>

function search_loop :: "(nat \<Rightarrow> bool) \<Rightarrow> nat \<Rightarrow> nat \<Rightarrow> nat" where
  "search_loop f i j =
     (if i < j then let h = (i + j) div 2 in if \<not> f h then search_loop f (h + 1) j else search_loop f i h
      else i)"
  by pat_completeness auto
termination by (relation "measure (\<lambda>(f, i, j). j - i)") auto

declare search_loop.simps [simp del]

definition Search :: "nat \<Rightarrow> (nat \<Rightarrow> bool) \<Rightarrow> nat" where
  "Search n f = search_loop f 0 n"

definition chunk_index :: "int list \<Rightarrow> int \<Rightarrow> nat" where
  "chunk_index cumLens pos = Search (length cumLens) (\<lambda>i. cumLens ! i > pos) - 1"

definition findChunk :: "ByteBuffersIndexInput \<Rightarrow> int \<Rightarrow> (nat \<times> int) outcome" where
  "findChunk inp pos =
     (let idx = chunk_index (bbi_cumLens inp) pos
      in bind_out (index (bbi_cumLens inp) (int idx)) (\<lambda>c. Ok (idx, pos - c)))"

definition readByteAt :: "ByteBuffersIndexInput \<Rightarrow> int \<Rightarrow> u8 outcome" where
  "readByteAt inp pos =
     (if pos < 0 \<or> pos \<ge> bbi_length inp then Err (Errorf ''position out of range'')
      else bind_out (findChunk inp pos) (\<lambda>(idx, offset).
           bind_out (index (bbi_chunks inp) (int idx)) (\<lambda>chunk. index chunk offset)))"

text \<open>
  The loop of \<open>readBytesAt\<close>, which returns the bytes it copies.  A position behind the last
  chunk makes the slice bound negative and panics.  A chunk with exactly no byte left at the
  position would make the Go loop run forever; the model stops there too, and no
  well-formed input reaches that case.
\<close>

function read_chunks :: "ByteBuffersIndexInput \<Rightarrow> int \<Rightarrow> int \<Rightarrow> u8 list outcome" where
  "read_chunks inp pos n =
     (if n > 0
      then bind_out (findChunk inp pos) (\<lambda>(idx, offset).
           bind_out (index (bbi_chunks inp) (int idx)) (\<lambda>chunk.
             let avail = int (length chunk) - offset; toRead = (if n > avail then avail else n)
             in if toRead \<le> 0 then Panic ''no progress''
                else bind_out (subslice chunk offset (offset + toRead)) (\<lambda>bs.
                     bind_out (read_chunks inp (pos + toRead) (n - toRead)) (\<lambda>rest. Ok (bs @ rest)))))
      else Ok [])"
  by pat_completeness auto
termination by (relation "measure (\<lambda>(inp, pos, n). nat n)") auto

declare read_chunks.simps [simp del]

definition readBytesAt :: "ByteBuffersIndexInput \<Rightarrow> int \<Rightarrow> int \<Rightarrow> u8 list outcome" where
  "readBytesAt inp pos n =
     (if wrap64 (pos + n) > bbi_length inp then Err (Errorf ''not enough data available'')
      else read_chunks inp pos n)"

definition bbi_ReadByte :: "(bbi_state, u8) act" where
  "bbi_ReadByte s =
     (case s of (d, inp) \<Rightarrow>
        if \<not> bd_isOpen d then (Err ErrIllegalState, s)
        else if bbi_position inp \<ge> bbi_length inp then (Err (Errorf ''EOF''), s)
        else case readByteAt inp (bbi_position inp) of
               Err e \<Rightarrow> (Err e, s) | Panic p \<Rightarrow> (Panic p, s)
             | Ok b \<Rightarrow> (Ok b, (d, inp\<lparr>bbi_position := bbi_position inp + 1, bbi_filePointer := bbi_position inp + 1\<rparr>)))"

definition bbi_ReadBytes :: "u8 list \<Rightarrow> int \<Rightarrow> int \<Rightarrow> (bbi_state, u8 list) act" where
  "bbi_ReadBytes b offset len s =
     (case s of (d, inp) \<Rightarrow>
        if \<not> bd_isOpen d then (Err ErrIllegalState, s)
        else if bbi_position inp + len > bbi_length inp then (Err (Errorf ''not enough data available''), s)
        else case bind_out (subslice b offset (offset + len)) (\<lambda>_.
                  bind_out (readBytesAt inp (bbi_position inp) len) (copy_at b offset)) of
               Err e \<Rightarrow> (Err e, s) | Panic p \<Rightarrow> (Panic p, s)
             | Ok b' \<Rightarrow> (Ok b', (d, inp\<lparr>bbi_position := bbi_position inp + len, bbi_filePointer := bbi_position inp + len\<rparr>)))"

definition bbi_ReadBytesN :: "int \<Rightarrow> (bbi_state, u8 list) act" where
  "bbi_ReadBytesN n =
     (if n < 0 then lift_out (Panic ''makeslice: len out of range'')
      else bbi_ReadBytes (replicate (nat n) 0) 0 n)"

definition bbi_ReadShort :: "(bbi_state, i16) act" where
  "bbi_ReadShort = bind_act (bbi_ReadBytes (replicate 2 0) 0 2) (\<lambda>buf. ret_act (le_val buf))"

definition bbi_ReadInt :: "(bbi_state, i32) act" where
  "bbi_ReadInt = bind_act (bbi_ReadBytes (replicate 4 0) 0 4) (\<lambda>buf. ret_act (le_val buf))"

definition bbi_ReadLong :: "(bbi_state, i64) act" where
  "bbi_ReadLong = bind_act (bbi_ReadBytes (replicate 8 0) 0 8) (\<lambda>buf. ret_act (le_val buf))"

fun fill_from :: "('s, 'v) act \<Rightarrow> nat \<Rightarrow> int \<Rightarrow> 'v list \<Rightarrow> ('s, 'v list) act" where
  "fill_from rd 0 at dst = ret_act dst"
| "fill_from rd (Suc n) at dst = bind_act rd (\<lambda>v. bind_act (lift_out (store dst at v)) (fill_from rd n (at + 1)))"

definition bbi_ReadFloats :: "u32 list \<Rightarrow> int \<Rightarrow> int \<Rightarrow> (bbi_state, u32 list) act" where
  "bbi_ReadFloats dst offset len = fill_from bbi_ReadInt (nat len) offset dst"

definition bbi_ReadInts :: "i32 list \<Rightarrow> int \<Rightarrow> int \<Rightarrow> (bbi_state, i32 list) act" where
  "bbi_ReadInts dst offset len = fill_from bbi_ReadInt (nat len) offset dst"

definition bbi_ReadLongs :: "i64 list \<Rightarrow> int \<Rightarrow> int \<Rightarrow> (bbi_state, i64 list) act" where
  "bbi_ReadLongs dst offset len = fill_from bbi_ReadLong (nat len) offset dst"

text \<open>The loop of \<open>ReadVInt\<close> (\<open>width\<close> 32) and \<open>ReadVLong\<close> (\<open>width\<close> 64).\<close>

function bounded_vloop :: "('s, u8) act \<Rightarrow> string \<Rightarrow> nat \<Rightarrow> 'w::len word \<Rightarrow> nat \<Rightarrow> ('s, 'w word) act" where
  "bounded_vloop rd msg width result shift =
     bind_act rd (\<lambda>b.
       let result' = result OR push_bit shift (ucast (b AND 0x7F))
       in if b AND 0x80 = 0 then ret_act result'
          else if shift + 7 \<ge> width then fail_act (Errorf msg)
          else bounded_vloop rd msg width result' (shift + 7))"
  by pat_completeness auto
termination by (relation "measure (\<lambda>(rd, msg, width, result, shift). width - shift)") auto

declare bounded_vloop.simps [simp del]

definition bbi_ReadVInt :: "(bbi_state, i32) act" where
  "bbi_ReadVInt = bounded_vloop bbi_ReadByte ''corrupted VInt'' 32 0 0"

definition bbi_ReadVLong :: "(bbi_state, i64) act" where
  "bbi_ReadVLong = bounded_vloop bbi_ReadByte ''corrupted VLong'' 64 0 0"

definition bbi_ReadString :: "(bbi_state, gostring) act" where
  "bbi_ReadString =
     bind_act bbi_ReadVInt (\<lambda>len.
       if sint len < 0 then lift_out (Panic ''makeslice: len out of range'')
       else bbi_ReadBytes (replicate (nat (sint len)) 0) 0 (sint len))"

definition bbi_SetPosition :: "int \<Rightarrow> (bbi_state, unit) act" where
  "bbi_SetPosition pos s =
     (case s of (d, inp) \<Rightarrow>
        if pos < 0 \<or> pos > bbi_length inp then (Err (Errorf ''invalid position''), s)
        else (Ok (), (d, inp\<lparr>bbi_position := pos, bbi_filePointer := pos\<rparr>)))"

text \<open>\<open>BaseIndexInput.SkipBytes\<close>, to which \<open>SkipBytes\<close> delegates.\<close>

definition bbi_SkipBytes :: "int \<Rightarrow> (bbi_state, unit) act" where
  "bbi_SkipBytes n s =
     (case s of (d, inp) \<Rightarrow>
        if n < 0 then (Err (Errorf ''cannot skip negative bytes''), s)
        else let newPos = wrap64 (bbi_filePointer inp + n)
             in if newPos > bbi_length inp then (Err (Errorf ''cannot skip past end of file''), s)
                else (Ok (), (d, inp\<lparr>bbi_filePointer := newPos\<rparr>)))"

definition bbi_GetFilePointer :: "bbi_state \<Rightarrow> int" where
  "bbi_GetFilePointer s = bbi_filePointer (snd s)"

definition bbi_Length :: "bbi_state \<Rightarrow> int" where
  "bbi_Length s = bbi_length (snd s)"

definition bbi_Clone :: "bbi_state \<Rightarrow> bbi_state" where
  "bbi_Clone s =
     (case s of (d, inp) \<Rightarrow>
        (AddOpenFile (bbi_name inp) d,
         (newByteBuffersIndexInput (bbi_chunks inp) (bbi_name inp))
           \<lparr>bbi_position := bbi_position inp, bbi_filePointer := bbi_position inp\<rparr>))"

definition buildChunksFromSlice :: "u8 list list \<Rightarrow> int list \<Rightarrow> int \<Rightarrow> int \<Rightarrow> u8 list list outcome" where
  "buildChunksFromSlice chunks cumLens offset len =
     (if len = 0 then Ok [[]]
      else if chunks = [] then Ok [[]]
      else
        let startIdx = chunk_index cumLens offset;
            endPos = wrap64 (offset + len - 1);
            endIdx = chunk_index cumLens endPos
        in bind_out (index cumLens (int startIdx)) (\<lambda>cs.
           bind_out (index cumLens (int endIdx)) (\<lambda>ce.
             let startOff = offset - cs; endOff = endPos - ce
             in if int endIdx - int startIdx + 1 < 0 then Panic ''makeslice: cap out of range''
                else foldr (\<lambda>i acc. bind_out (index chunks (int i)) (\<lambda>chunk.
                      bind_out (subslice chunk (if i = startIdx then startOff else 0)
                                  (if i = endIdx then wrap64 (endOff + 1) else int (length chunk))) (\<lambda>c.
                      bind_out acc (\<lambda>r. Ok (c # r)))))
                  [startIdx..<endIdx + 1] (Ok []))))"

definition bbi_Slice :: "int \<Rightarrow> int \<Rightarrow> (bbi_state, ByteBuffersIndexInput) act" where
  "bbi_Slice offset len s =
     (case s of (d, inp) \<Rightarrow>
        if offset < 0 \<or> len < 0 \<or> wrap64 (offset + len) > bbi_length inp then (Err (Errorf ''invalid slice parameters''), s)
        else let s' = (AddOpenFile (bbi_name inp) d, inp)
             in case buildChunksFromSlice (bbi_chunks inp) (bbi_cumLens inp) offset len of
               Err e \<Rightarrow> (Err e, s') | Panic p \<Rightarrow> (Panic p, s')
             | Ok cs \<Rightarrow> (Ok (newByteBuffersIndexInput cs (bbi_name inp)), s'))"

definition bbi_Close :: "bbi_state \<Rightarrow> bbi_state" where
  "bbi_Close s = (case s of (d, inp) \<Rightarrow> (RemoveOpenFile (bbi_name inp) d, inp))"

definition bbi_ReadByteAt :: "int \<Rightarrow> (bbi_state, u8) act" where
  "bbi_ReadByteAt pos s =
     (case s of (d, inp) \<Rightarrow> if \<not> bd_isOpen d then (Err ErrIllegalState, s) else (readByteAt inp pos, s))"

definition bbi_ReadLongAt :: "int \<Rightarrow> (bbi_state, i64) act" where
  "bbi_ReadLongAt pos s =
     (case s of (d, inp) \<Rightarrow>
        if \<not> bd_isOpen d then (Err ErrIllegalState, s)
        else if pos < 0 \<or> wrap64 (pos + 8) > bbi_length inp then (Err (Errorf ''position out of range for 8-byte read''), s)
        else (bind_out (readBytesAt inp pos 8) (\<lambda>buf. Ok (le_val buf)), s))"

text \<open>
  \<open>in.Core = in\<close>: the three methods that the promoted methods of the embedded \<open>BaseDataInput\<close>
  call.  Of those only the ones that are not overridden above are methods of this type:
  \<open>ReadZInt\<close>, \<open>ReadZLong\<close>, \<open>ReadMapOfStrings\<close>, \<open>ReadSetOfStrings\<close>.
\<close>

definition bbi_core :: "bbi_state input_core" where
  "bbi_core = \<lparr>ic_ReadByte = bbi_ReadByte, ic_ReadBytes = bbi_ReadBytes, ic_SkipBytes = bbi_SkipBytes\<rparr>"

section \<open>ByteBuffersIndexOutput\<close>

type_synonym bbo_state = "ByteBuffersDirectory \<times> ByteBuffersIndexOutput"

text \<open>\<open>append(data, make([]byte, n)...)\<close> up to length \<open>n\<close>.\<close>

definition extend_to :: "int \<Rightarrow> u8 list \<Rightarrow> u8 list" where
  "extend_to n data = data @ replicate (nat (n - int (length data))) 0"

definition bbo_WriteByte :: "u8 \<Rightarrow> (bbo_state, unit) act" where
  "bbo_WriteByte b s =
     (case s of (d, out) \<Rightarrow>
        if \<not> bd_isOpen d then (Err ErrIllegalState, s)
        else let pos = bbo_filePointer out;
                 data = (if pos \<ge> int (length (bbo_data out)) then extend_to (pos + 1) (bbo_data out) else bbo_data out)
             in case store data pos b of
                  Ok data' \<Rightarrow> (Ok (), (d, out\<lparr>bbo_data := data', bbo_filePointer := pos + 1\<rparr>))
                | Err e \<Rightarrow> (Err e, s) | Panic p \<Rightarrow> (Panic p, s))"

definition bbo_WriteBytes :: "u8 list \<Rightarrow> int \<Rightarrow> int \<Rightarrow> (bbo_state, unit) act" where
  "bbo_WriteBytes b offset len s =
     (case s of (d, out) \<Rightarrow>
        if \<not> bd_isOpen d then (Err ErrIllegalState, s)
        else let pos = bbo_filePointer out; endp = pos + len;
                 data = (if endp > int (length (bbo_data out)) then extend_to endp (bbo_data out) else bbo_data out)
             in case bind_out (subslice data pos endp) (\<lambda>_.
                     bind_out (subslice b offset (offset + len)) (copy_at data pos)) of
                  Ok data' \<Rightarrow> (Ok (), (d, out\<lparr>bbo_data := data', bbo_filePointer := pos + len\<rparr>))
                | Err e \<Rightarrow> (Err e, s) | Panic p \<Rightarrow> (Panic p, s))"

definition bbo_WriteBytesN :: "u8 list \<Rightarrow> int \<Rightarrow> (bbo_state, unit) act" where
  "bbo_WriteBytesN b n =
     (if n > int (length b) then fail_act (Errorf ''n exceeds buffer length'') else bbo_WriteBytes b 0 n)"

definition bbo_WriteShort :: "i16 \<Rightarrow> (bbo_state, unit) act" where
  "bbo_WriteShort i = bbo_WriteBytes [ucast i, ucast (signed_drop_bit 8 i)] 0 2"

definition bbo_WriteInt :: "i32 \<Rightarrow> (bbo_state, unit) act" where
  "bbo_WriteInt i =
     bbo_WriteBytes [ucast i, ucast (signed_drop_bit 8 i), ucast (signed_drop_bit 16 i), ucast (signed_drop_bit 24 i)] 0 4"

definition bbo_WriteLong :: "i64 \<Rightarrow> (bbo_state, unit) act" where
  "bbo_WriteLong i =
     bbo_WriteBytes [ucast i, ucast (signed_drop_bit 8 i), ucast (signed_drop_bit 16 i), ucast (signed_drop_bit 24 i),
       ucast (signed_drop_bit 32 i), ucast (signed_drop_bit 40 i), ucast (signed_drop_bit 48 i), ucast (signed_drop_bit 56 i)] 0 8"

function bbo_copy_loop ::
  "'i input_core \<Rightarrow> int \<Rightarrow> u8 list \<Rightarrow> ('i \<times> bbo_state) \<Rightarrow> unit outcome \<times> ('i \<times> bbo_state)" where
  "bbo_copy_loop C remaining buf (si, so) =
     (if remaining > 0
      then (let toRead = (if remaining > 8192 then 8192 else remaining)
            in case ic_ReadBytes C buf 0 toRead si of
                 (Err e, si') \<Rightarrow> (Err e, (si', so))
               | (Panic p, si') \<Rightarrow> (Panic p, (si', so))
               | (Ok buf', si') \<Rightarrow>
                   (case bbo_WriteBytes buf' 0 toRead so of
                      (Err e, so') \<Rightarrow> (Err e, (si', so'))
                    | (Panic p, so') \<Rightarrow> (Panic p, (si', so'))
                    | (Ok _, so') \<Rightarrow> bbo_copy_loop C (remaining - toRead) buf' (si', so')))
      else (Ok (), (si, so)))"
  by pat_completeness auto
termination by (relation "measure (\<lambda>(C, remaining, buf, s). nat remaining)") auto

declare bbo_copy_loop.simps [simp del]

definition bbo_CopyBytes :: "'i input_core \<Rightarrow> int \<Rightarrow> ('i \<times> bbo_state) \<Rightarrow> unit outcome \<times> ('i \<times> bbo_state)" where
  "bbo_CopyBytes C nbytes = bbo_copy_loop C nbytes (replicate 8192 0)"

definition bbo_GetFilePointer :: "bbo_state \<Rightarrow> int" where
  "bbo_GetFilePointer s = bbo_filePointer (snd s)"

definition bbo_Length :: "bbo_state \<Rightarrow> int" where
  "bbo_Length s = int (length (bbo_data (snd s)))"

definition bbo_SetPosition :: "int \<Rightarrow> (bbo_state, unit) act" where
  "bbo_SetPosition pos s =
     (case s of (d, out) \<Rightarrow>
        if pos < 0 then (Err (Errorf ''negative position''), s)
        else (Ok (), (d, out\<lparr>bbo_data := (if pos > int (length (bbo_data out)) then extend_to pos (bbo_data out) else bbo_data out),
                             bbo_filePointer := pos\<rparr>)))"

definition bbo_Close :: "bbo_state \<Rightarrow> bbo_state" where
  "bbo_Close s =
     (case s of (d, out) \<Rightarrow>
        case bbo_file out of None \<Rightarrow> s
        | Some r \<Rightarrow>
            let f = (deref d r)\<lparr>bf_content := bbo_data out\<rparr>
            in (RemoveOpenFile (bf_name f) (d\<lparr>bd_heap := (bd_heap d)(r \<mapsto> f)\<rparr>), out))"

text \<open>
  \<open>NewBaseDataOutput(out)\<close>: the two methods that the promoted methods of the embedded
  \<open>BaseDataOutput\<close> call; \<open>WriteShort\<close>, \<open>WriteInt\<close> and \<open>WriteLong\<close> are overridden above.
\<close>

definition bbo_primitive :: "bbo_state prim_writer" where
  "bbo_primitive = \<lparr>pw_WriteByte = bbo_WriteByte, pw_WriteBytes = bbo_WriteBytes\<rparr>"

section \<open>Chunked files are flat files\<close>

definition chunks_ok :: "u8 list list \<Rightarrow> bool" where
  "chunks_ok cs \<longleftrightarrow> cs = [[]] \<or> (cs \<noteq> [] \<and> [] \<notin> set cs)"

lemma search_loop_spec:
  "\<forall>a b. a \<le> b \<longrightarrow> b < n \<longrightarrow> f a \<longrightarrow> f b \<Longrightarrow> i \<le> j \<Longrightarrow> j \<le> n \<Longrightarrow> \<forall>k < i. \<not> f k \<Longrightarrow> \<forall>k. j \<le> k \<longrightarrow> k < n \<longrightarrow> f k \<Longrightarrow>
    search_loop f i j \<le> n \<and> (\<forall>k < search_loop f i j. \<not> f k) \<and> (\<forall>k. search_loop f i j \<le> k \<longrightarrow> k < n \<longrightarrow> f k)"
proof (induction f i j rule: search_loop.induct)
  case (1 f i j)
  note IH = 1(1,2) and mono = 1(3) and ij = 1(4,5) and lo = 1(6) and hi = 1(7)
  show ?case
  proof (cases "i < j")
    case False
    then have "search_loop f i j = i" by (simp add: search_loop.simps [of f i j])
    then show ?thesis using False ij lo hi by simp
  next
    case True
    let ?h = "(i + j) div 2"
    have h: "i \<le> ?h" "?h < j" "?h < n" using True ij by auto
    show ?thesis
    proof (cases "f ?h")
      case fh: False
      have e: "search_loop f i j = search_loop f (?h + 1) j" using True fh by (simp add: search_loop.simps [of f i j] Let_def)
      have "\<forall>k < ?h + 1. \<not> f k" using mono fh h(3) by (metis Suc_eq_plus1 less_Suc_eq_le)
      then show ?thesis unfolding e using IH(1) [OF True refl fh mono _ ij(2) _ hi] h(2) by fastforce
    next
      case fh: True
      have e: "search_loop f i j = search_loop f i ?h" using True fh by (simp add: search_loop.simps [of f i j] Let_def)
      have "\<forall>k. ?h \<le> k \<longrightarrow> k < n \<longrightarrow> f k" using mono fh by blast
      then show ?thesis unfolding e using IH(2) [OF True refl _ mono h(1) _ lo] fh h(3) by fastforce
    qed
  qed
qed

lemma length_cum_lens [simp]: "length (cum_lens t cs) = length cs"
  by (induction cs arbitrary: t) simp_all

lemma cum_lens_nth: "i < length cs \<Longrightarrow> cum_lens t cs ! i = t + int (length (concat (take i cs)))"
  by (induction cs arbitrary: t i) (auto simp: nth_Cons split: nat.splits)

lemma length_concat_take_mono: "i \<le> j \<Longrightarrow> length (concat (take i cs)) \<le> length (concat (take j cs))"
  by (metis append_take_drop_id concat_append length_append le_add1 min.absorb1 take_take)

lemma concat_split_at:
  "i < length cs \<Longrightarrow> concat cs = concat (take i cs) @ cs ! i @ concat (drop (Suc i) cs)"
  by (metis concat.simps(2) concat_append id_take_nth_drop)

lemma search_cum:
  fixes cs pos
  assumes "r = Search (length cs) (\<lambda>i. cum_lens 0 cs ! i > pos)"
  shows "r \<le> length cs \<and> (\<forall>k < r. \<not> cum_lens 0 cs ! k > pos) \<and> (\<forall>k. r \<le> k \<longrightarrow> k < length cs \<longrightarrow> cum_lens 0 cs ! k > pos)"
proof -
  let ?f = "\<lambda>i. cum_lens 0 cs ! i > pos" and ?n = "length cs"
  have mono: "?f b" if "a \<le> b" "b < ?n" "?f a" for a b
    using that length_concat_take_mono [of a b cs] by (simp add: cum_lens_nth)
  have m: "\<forall>a b. a \<le> b \<longrightarrow> b < ?n \<longrightarrow> ?f a \<longrightarrow> ?f b" using mono by blast
  show ?thesis unfolding assms Search_def by (rule search_loop_spec [OF m]) simp_all
qed

lemma chunk_index_less: "cs \<noteq> [] \<Longrightarrow> chunk_index (cum_lens 0 cs) pos < length cs"
proof -
  assume "cs \<noteq> []"
  then have "0 < length cs" by simp
  then show ?thesis using search_cum [of _ cs pos, OF refl, THEN conjunct1] unfolding chunk_index_def length_cum_lens by linarith
qed

lemma chunk_index_behind:
  assumes "cs \<noteq> []" "int (length (concat cs)) \<le> pos"
  shows "chunk_index (cum_lens 0 cs) pos = length cs - 1"
proof -
  let ?r = "Search (length cs) (\<lambda>i. cum_lens 0 cs ! i > pos)"
  have "\<not> cum_lens 0 cs ! k > pos" if "k < length cs" for k
    using that assms(2) length_concat_take_mono [of k "length cs" cs] by (simp add: cum_lens_nth)
  then have "\<not> ?r < length cs" using search_cum [of _ cs pos, OF refl] by blast
  then have "?r = length cs" using search_cum [of _ cs pos, OF refl, THEN conjunct1] by linarith
  then show ?thesis by (simp add: chunk_index_def)
qed

lemma chunk_index_negative: "cs \<noteq> [] \<Longrightarrow> pos < 0 \<Longrightarrow> chunk_index (cum_lens 0 cs) pos = 0"
proof -
  assume c: "cs \<noteq> []" "pos < 0"
  let ?r = "Search (length cs) (\<lambda>i. cum_lens 0 cs ! i > pos)"
  have "cum_lens 0 cs ! 0 > pos" using c by (simp add: cum_lens_nth)
  then have "\<not> 0 < ?r" using search_cum [of _ cs pos, OF refl] by blast
  then show ?thesis by (simp add: chunk_index_def)
qed

lemma chunk_index_spec:
  assumes "chunks_ok cs" "0 \<le> pos" "pos < int (length (concat cs))"
  defines "idx \<equiv> chunk_index (cum_lens 0 cs) pos"
  shows "idx < length cs" "cum_lens 0 cs ! idx = int (length (concat (take idx cs)))"
    "int (length (concat (take idx cs))) \<le> pos" "pos < int (length (concat (take idx cs))) + int (length (cs ! idx))"
proof -
  let ?f = "\<lambda>i. cum_lens 0 cs ! i > pos" and ?n = "length cs"
  have ne: "[] \<notin> set cs" "cs \<noteq> []" using assms(1,2,3) by (auto simp: chunks_ok_def)
  define r where "r = Search ?n ?f"
  note r3 = search_cum [OF r_def]
  note r = r3 [THEN conjunct1] r3 [THEN conjunct2, THEN conjunct1] r3 [THEN conjunct2, THEN conjunct2]
  have "\<not> ?f 0" using ne(2) assms(2) by (simp add: cum_lens_nth)
  then have r0: "0 < r" using r(3) ne(2) by (cases r) auto
  have idx: "idx = r - 1" by (simp add: idx_def chunk_index_def r_def)
  then show i: "idx < ?n" using r0 r(1) by linarith
  then show c: "cum_lens 0 cs ! idx = int (length (concat (take idx cs)))" by (simp add: cum_lens_nth)
  have "\<not> ?f idx" using r(2) idx r0 by simp
  then show "int (length (concat (take idx cs))) \<le> pos" by (simp add: c)
  have s: "int (length (concat (take idx cs))) + int (length (cs ! idx)) = int (length (concat (take (Suc idx) cs)))"
    using i by (simp add: take_Suc_conv_app_nth)
  show "pos < int (length (concat (take idx cs))) + int (length (cs ! idx))"
  proof (cases "Suc idx < ?n")
    case True
    then have "?f (Suc idx)" using r(3) idx r0 by simp
    then show ?thesis unfolding s using True by (simp add: cum_lens_nth)
  next
    case False
    then show ?thesis unfolding s using i assms(3) by simp
  qed
qed

text \<open>Well-formed inputs, and the bytes still to be read.\<close>

definition bbi_wf :: "ByteBuffersIndexInput \<Rightarrow> bool" where
  "bbi_wf inp \<longleftrightarrow> chunks_ok (bbi_chunks inp) \<and> bbi_cumLens inp = cum_lens 0 (bbi_chunks inp)
     \<and> bbi_length inp = int (length (concat (bbi_chunks inp)))
     \<and> 0 \<le> bbi_position inp \<and> bbi_position inp \<le> bbi_length inp \<and> bbi_filePointer inp = bbi_position inp"

definition bbi_ok :: "bbi_state \<Rightarrow> bool" where
  "bbi_ok s \<longleftrightarrow> bd_isOpen (fst s) \<and> bbi_wf (snd s)"

definition bbi_bytes :: "bbi_state \<Rightarrow> u8 list" where
  "bbi_bytes s = concat (bbi_chunks (snd s))"

definition bbi_rest :: "bbi_state \<Rightarrow> u8 list" where
  "bbi_rest s = drop (nat (bbi_position (snd s))) (bbi_bytes s)"

lemma findChunk_flat:
  assumes "bbi_wf inp" "0 \<le> pos" "pos < bbi_length inp"
  obtains idx offset chunk where "findChunk inp pos = Ok (idx, int offset)" "index (bbi_chunks inp) (int idx) = Ok chunk"
    "offset < length chunk" "drop (nat pos) (concat (bbi_chunks inp)) = drop offset chunk @ concat (drop (Suc idx) (bbi_chunks inp))"
proof -
  let ?cs = "bbi_chunks inp" and ?i = "chunk_index (cum_lens 0 (bbi_chunks inp)) pos"
  let ?l = "length (concat (take ?i ?cs))"
  have w: "chunks_ok ?cs" "bbi_cumLens inp = cum_lens 0 ?cs" "pos < int (length (concat ?cs))"
    using assms by (auto simp: bbi_wf_def)
  note c = chunk_index_spec [OF w(1) assms(2) w(3)]
  have "findChunk inp pos = Ok (?i, int (nat pos - ?l))"
    using c assms(2) by (simp add: findChunk_def w(2) Let_def)
  moreover have "drop (nat pos) (concat ?cs) = drop (nat pos - ?l) (?cs ! ?i) @ concat (drop (Suc ?i) ?cs)"
    using c assms(2) by (subst concat_split_at [OF c(1)]) (simp add: le_nat_iff nat_le_iff)
  ultimately show thesis using that [of ?i "nat pos - ?l" "?cs ! ?i"] c by auto
qed

lemma read_chunks_flat:
  "bbi_wf inp \<Longrightarrow> 0 \<le> pos \<Longrightarrow> 0 \<le> n \<Longrightarrow> pos + n \<le> bbi_length inp \<Longrightarrow>
   read_chunks inp pos n = Ok (take (nat n) (drop (nat pos) (concat (bbi_chunks inp))))"
proof (induction "nat n" arbitrary: pos n rule: less_induct)
  case less
  show ?case
  proof (cases "n > 0")
    case False
    then have "n = 0" using less.prems by simp
    then show ?thesis by (simp add: read_chunks.simps [of inp pos 0])
  next
    case True
    have "pos < bbi_length inp" using True less.prems by simp
    then obtain idx offset chunk where c: "findChunk inp pos = Ok (idx, int offset)" "index (bbi_chunks inp) (int idx) = Ok chunk"
      "offset < length chunk" "drop (nat pos) (concat (bbi_chunks inp)) = drop offset chunk @ concat (drop (Suc idx) (bbi_chunks inp))"
      using findChunk_flat [OF less.prems(1,2)] by blast
    define t where "t = (if n > int (length chunk) - int offset then int (length chunk) - int offset else n)"
    have t: "0 < t" "t \<le> n" "int offset + t \<le> int (length chunk)" using True c(3) by (auto simp: t_def)
    have "read_chunks inp (pos + t) (n - t) = Ok (take (nat (n - t)) (drop (nat (pos + t)) (concat (bbi_chunks inp))))"
      by (rule less.hyps) (use t less.prems in auto)
    then have "read_chunks inp pos n = Ok (take (nat t) (drop offset chunk) @ take (nat (n - t)) (drop (nat (pos + t)) (concat (bbi_chunks inp))))"
      using True c(1,2) t by (simp add: read_chunks.simps [of inp pos n] t_def [symmetric] Let_def)
    moreover have "drop (nat (pos + t)) (concat (bbi_chunks inp)) = drop (nat t) (drop (nat pos) (concat (bbi_chunks inp)))"
      using t less.prems(2) by (simp add: nat_add_distrib add.commute)
    moreover have "take (nat t) (drop offset chunk) = take (nat t) (drop (nat pos) (concat (bbi_chunks inp)))"
      using t by (simp add: c(4))
    moreover have "nat n = nat t + nat (n - t)" using t by simp
    ultimately show ?thesis by (simp only: take_add)
  qed
qed

lemma readBytesAt_flat:
  "bbi_wf inp \<Longrightarrow> 0 \<le> pos \<Longrightarrow> 0 \<le> n \<Longrightarrow> pos + n \<le> bbi_length inp \<Longrightarrow>
   readBytesAt inp pos n = Ok (take (nat n) (drop (nat pos) (concat (bbi_chunks inp))))"
  using wrap64_le [of "pos + n"] by (simp add: readBytesAt_def read_chunks_flat)

lemma readByteAt_flat:
  assumes "bbi_wf inp" "0 \<le> pos" "pos < bbi_length inp"
  shows "readByteAt inp pos = Ok (concat (bbi_chunks inp) ! nat pos)"
proof -
  obtain idx offset chunk where c: "findChunk inp pos = Ok (idx, int offset)" "index (bbi_chunks inp) (int idx) = Ok chunk"
      "offset < length chunk" "drop (nat pos) (concat (bbi_chunks inp)) = drop offset chunk @ concat (drop (Suc idx) (bbi_chunks inp))"
    by (rule findChunk_flat [OF assms])
  have l: "nat pos < length (concat (bbi_chunks inp))" using assms by (auto simp: bbi_wf_def)
  have "concat (bbi_chunks inp) ! nat pos = hd (drop (nat pos) (concat (bbi_chunks inp)))"
    using l by (simp add: hd_drop_conv_nth)
  also have "\<dots> = chunk ! offset" using c(3) by (simp add: c(4) hd_drop_conv_nth)
  finally show ?thesis using c assms by (simp add: readByteAt_def)
qed

lemma bbi_restD:
  assumes "bbi_ok (d, inp)"
  shows "length (bbi_rest (d, inp)) = nat (bbi_length inp - bbi_position inp)" "0 \<le> bbi_position inp"
    "bbi_position inp \<le> bbi_length inp" "bbi_length inp = int (length (concat (bbi_chunks inp)))" "bbi_wf inp" "bd_isOpen d"
  using assms by (auto simp: bbi_ok_def bbi_rest_def bbi_bytes_def bbi_wf_def)

lemma bbi_advance:
  assumes "bbi_ok (d, inp)" "0 \<le> n" "bbi_position inp + n \<le> bbi_length inp"
  defines "s' \<equiv> (d, inp\<lparr>bbi_position := bbi_position inp + n, bbi_filePointer := bbi_position inp + n\<rparr>)"
  shows "bbi_ok s'" "bbi_rest s' = drop (nat n) (bbi_rest (d, inp))"
  using assms by (auto simp: bbi_ok_def bbi_wf_def bbi_rest_def bbi_bytes_def nat_add_distrib add.commute)

interpretation bbi: byte_source bbi_core bbi_ok bbi_rest "Errorf ''EOF''" "Errorf ''not enough data available''"
proof unfold_locales
  fix s b bs assume s: "bbi_ok s" "bbi_rest s = b # bs"
  obtain d inp where di: "s = (d, inp)" by fastforce
  note r = bbi_restD [OF s(1) [unfolded di]]
  have lt: "bbi_position inp < bbi_length inp" using r(1-3) s(2) by (simp add: di)
  have "concat (bbi_chunks inp) ! nat (bbi_position inp) = b"
    using s(2) r(2,4) lt by (metis bbi_bytes_def bbi_rest_def di hd_drop_conv_nth list.sel(1) nat_less_iff snd_conv)
  then have "bbi_ReadByte s = (Ok b, (d, inp\<lparr>bbi_position := bbi_position inp + 1, bbi_filePointer := bbi_position inp + 1\<rparr>))"
    using lt r(2,6) by (simp add: di bbi_ReadByte_def readByteAt_flat [OF r(5)])
  then show "\<exists>s'. ic_ReadByte bbi_core s = (Ok b, s') \<and> bbi_ok s' \<and> bbi_rest s' = bs"
    using bbi_advance [of d inp 1] s lt by (simp add: di bbi_core_def)
next
  fix s assume s: "bbi_ok s" "bbi_rest s = []"
  obtain d inp where di: "s = (d, inp)" by fastforce
  show "ic_ReadByte bbi_core s = (Err (Errorf ''EOF''), s)"
    using bbi_restD [OF s(1) [unfolded di]] s(2) by (simp add: di bbi_core_def bbi_ReadByte_def)
next
  fix s offset len and buf :: "u8 list"
  assume s: "bbi_ok s" "0 \<le> offset" "0 \<le> len" "offset + len \<le> int (length buf)" "nat len \<le> length (bbi_rest s)"
  obtain d inp where di: "s = (d, inp)" by fastforce
  note r = bbi_restD [OF s(1) [unfolded di]]
  have le: "bbi_position inp + len \<le> bbi_length inp" using r(1-3) s(3,5) by (simp add: di)
  have rest: "drop (nat (bbi_position inp)) (concat (bbi_chunks inp)) = bbi_rest s"
    by (simp add: di bbi_rest_def bbi_bytes_def)
  have "copy_at buf offset (take (nat len) (bbi_rest s))
      = Ok (take (nat offset) buf @ take (nat len) (bbi_rest s) @ drop (nat (offset + len)) buf)"
    using s by (subst copy_at_fits) (auto simp: min_def nat_add_distrib)
  then have "bbi_ReadBytes buf offset len s = (Ok (take (nat offset) buf @ take (nat len) (bbi_rest s) @ drop (nat (offset + len)) buf),
      (d, inp\<lparr>bbi_position := bbi_position inp + len, bbi_filePointer := bbi_position inp + len\<rparr>))"
    using le r(2,6) s(2-4) by (simp add: di bbi_ReadBytes_def readBytesAt_flat [OF r(5)] rest [unfolded di])
  then show "\<exists>s'. ic_ReadBytes bbi_core buf offset len s
      = (Ok (take (nat offset) buf @ take (nat len) (bbi_rest s) @ drop (nat (offset + len)) buf), s')
    \<and> bbi_ok s' \<and> bbi_rest s' = drop (nat len) (bbi_rest s)"
    using bbi_advance [of d inp len] s(1,3) le by (simp add: di bbi_core_def)
next
  fix s len offset and buf :: "u8 list"
  assume s: "bbi_ok s" "int (length (bbi_rest s)) < len"
  obtain d inp where di: "s = (d, inp)" by fastforce
  show "ic_ReadBytes bbi_core buf offset len s = (Err (Errorf ''not enough data available''), s)"
    using bbi_restD [OF s(1) [unfolded di]] s(2) by (simp add: di bbi_core_def bbi_ReadBytes_def)
qed

subsection \<open>The overriding readers\<close>

context byte_source
begin

lemma bounded_vloop_reads:
  "n < 2 ^ (K - sh) \<Longrightarrow> sh mod 7 = 0 \<Longrightarrow> K mod 7 = 0 \<Longrightarrow> sh < K \<Longrightarrow> K < w + 7 \<Longrightarrow>
   reads ok rest (lift_ract (bounded_vloop (ic_ReadByte C) msg w i sh)) (vbytes n) (i OR push_bit sh (of_nat n))"
proof (induction n arbitrary: i sh rule: vbytes.induct)
  case (1 n)
  have step: "lift_ract (bounded_vloop (ic_ReadByte C) msg w i sh) = bind_ract (ReadByte C) (\<lambda>b. lift_ract
      (let i' = i OR push_bit sh (ucast (b AND 0x7F)) in if b AND 0x80 = 0 then ret_act i'
       else if sh + 7 \<ge> w then fail_act (Errorf msg) else bounded_vloop (ic_ReadByte C) msg w i' (sh + 7)))"
    unfolding bounded_vloop.simps [of _ _ _ i sh] lift_bind lift_ReadByte ..
  show ?case
  proof (cases "n < 128")
    case True
    then show ?thesis unfolding step vbytes.simps [of n]
      by (simp add: low7 ucast_low7 lift_ret reads_bind_Cons [OF ReadByte_reads] reads_ret)
  next
    case False
    let ?b = "of_nat (n mod 128 + 128) :: u8" and ?m = "of_nat (n mod 128)"
    have b: "?b AND 0x7F = of_nat (n mod 128)" "?b AND 0x80 \<noteq> 0" by (rule low7; simp)+
    have u: "ucast (of_nat (n mod 128) :: u8) = ?m" by (rule ucast_low7) simp
    have v: "(i OR push_bit sh ?m) OR push_bit (sh + 7) (of_nat (n div 128)) = i OR push_bit sh (of_nat n)"
      unfolding of_nat_group7 [of n] push_bit_or by (simp add: or.assoc)
    have "\<not> K - sh \<le> 7"
    proof
      assume "K - sh \<le> 7"
      then have "(2::nat) ^ (K - sh) \<le> 2 ^ 7" by (intro power_increasing) simp_all
      then show False using 1(2) False by simp
    qed
    then have K: "sh + 7 < K" by simp
    have kw: "sh + 7 < w" using K 1(3,4,6) by presburger
    have "n < 2 ^ (K - (sh + 7)) * 128"
    proof -
      have "K - sh = (K - (sh + 7)) + 7" using K by simp
      then have "(2::nat) ^ (K - sh) = 2 ^ (K - (sh + 7)) * 2 ^ 7" by (metis power_add)
      then show ?thesis using 1(2) by simp
    qed
    then have d: "n div 128 < 2 ^ (K - (sh + 7))" by (rule less_mult_imp_div_less)
    have "(sh + 7) mod 7 = 0" using 1(3) by simp
    from 1(1) [OF False d this 1(4) K 1(6), of "i OR push_bit sh ?m"]
    have "reads ok rest (lift_ract (bounded_vloop (ic_ReadByte C) msg w (i OR push_bit sh ?m) (sh + 7))) (vbytes (n div 128))
        (i OR push_bit sh (of_nat n))" unfolding v .
    moreover have "vbytes n = ?b # vbytes (n div 128)" using False by (simp add: vbytes.simps [of n])
    ultimately show ?thesis unfolding step
      by (simp only:) (rule reads_bind_Cons [OF ReadByte_reads], simp only: b u Let_def if_False not_le [THEN iffD2, OF kw])
  qed
qed

lemma bounded_vint_reads: "reads ok rest (lift_ract (bounded_vloop (ic_ReadByte C) msg 32 0 0)) (vbytes (unat v)) (v :: i32)"
proof -
  have "unat v < 2 ^ LENGTH(32)" by (rule unsigned_less)
  then show ?thesis using bounded_vloop_reads [of "unat v" 35 0 32 msg "0 :: i32"] by simp
qed

lemma bounded_vlong_reads: "reads ok rest (lift_ract (bounded_vloop (ic_ReadByte C) msg 64 0 0)) (vbytes (unat v)) (v :: i64)"
proof -
  have "unat v < 2 ^ LENGTH(64)" by (rule unsigned_less)
  then show ?thesis using bounded_vloop_reads [of "unat v" 70 0 64 msg "0 :: i64"] by simp
qed

end

lemma bbi_ReadVInt_reads: "reads bbi_ok bbi_rest (lift_ract bbi_ReadVInt) (vbytes (unat v)) v"
  using bbi.bounded_vint_reads by (simp add: bbi_ReadVInt_def bbi_core_def)

lemma bbi_ReadVLong_reads: "reads bbi_ok bbi_rest (lift_ract bbi_ReadVLong) (vbytes (unat v)) v"
  using bbi.bounded_vlong_reads by (simp add: bbi_ReadVLong_def bbi_core_def)

lemma bbi_ReadString_reads:
  assumes "length s < 2 ^ 31"
  shows "reads bbi_ok bbi_rest (lift_ract bbi_ReadString) (string_bytes s) s"
proof -
  let ?n = "of_nat (length s) :: i32"
  note n = bbi.len_i32 [OF assms]
  have "lift_ract bbi_ReadString = bind_ract (lift_ract bbi_ReadVInt) (\<lambda>len. lift_ract
      (if sint len < 0 then lift_out (Panic ''makeslice: len out of range'')
       else bbi_ReadBytes (replicate (nat (sint len)) 0) 0 (sint len)))"
    by (simp add: bbi_ReadString_def lift_bind)
  moreover have "reads bbi_ok bbi_rest \<dots> (vbytes (unat ?n) @ s) s"
    by (rule reads_bind [OF bbi_ReadVInt_reads])
       (use bbi.ReadBytes_reads [of s] in \<open>simp add: n ReadBytes_def bbi_core_def\<close>)
  ultimately show ?thesis by (simp only: n string_bytes_def)
qed

section \<open>Outputs append\<close>

text \<open>An output handle on the file at address \<open>r\<close> of directory \<open>D\<close>, positioned at its end.\<close>

definition bbo_ok :: "ByteBuffersDirectory \<Rightarrow> nat \<Rightarrow> bbo_state \<Rightarrow> bool" where
  "bbo_ok D r s \<longleftrightarrow> fst s = D \<and> bd_isOpen D \<and> bbo_file (snd s) = Some r
     \<and> bbo_filePointer (snd s) = int (length (bbo_data (snd s)))"

lemma bbo_WriteBytes_appends:
  assumes "bbo_ok D r s" "subslice b offset (offset + len) = Ok bs" "int (length bs) = len"
  shows "\<exists>s'. bbo_WriteBytes b offset len s = (Ok (), s') \<and> bbo_ok D r s' \<and> bbo_data (snd s') = bbo_data (snd s) @ bs"
proof -
  obtain d out where s: "s = (d, out)" by fastforce
  let ?data = "bbo_data out" and ?n = "length (bbo_data out)"
  have e: "extend_to (int ?n + len) ?data = ?data @ replicate (length bs) 0"
    using assms(3) by (auto simp: extend_to_def)
  have c: "copy_at (?data @ replicate (length bs) 0) (int ?n) bs = Ok (?data @ bs)"
    by (subst copy_at_fits) simp_all
  show ?thesis
  proof (cases "bs = []")
    case True
    then have "copy_at ?data (int ?n) [] = Ok ?data" by (subst copy_at_fits) simp_all
    then show ?thesis using assms True by (simp add: s bbo_ok_def bbo_WriteBytes_def)
  next
    case False
    then have "0 < len" using assms(3) by (cases bs) auto
    then show ?thesis using assms(1) e c by (simp add: s bbo_ok_def bbo_WriteBytes_def Let_def assms(2) [unfolded assms(3) [symmetric]] assms(3) [symmetric])
  qed
qed

lemma bbo_WriteByte_appends:
  assumes "bbo_ok D r s"
  shows "\<exists>s'. bbo_WriteByte b s = (Ok (), s') \<and> bbo_ok D r s' \<and> bbo_data (snd s') = bbo_data (snd s) @ [b]"
proof -
  obtain d out where s: "s = (d, out)" by fastforce
  have "extend_to (int (length (bbo_data out)) + 1) (bbo_data out) = bbo_data out @ [0]" by (simp add: extend_to_def)
  then show ?thesis using assms by (simp add: s bbo_ok_def bbo_WriteByte_def)
qed

interpretation bbo: byte_sink bbo_primitive "bbo_ok D r" "\<lambda>s. N - length (bbo_data (snd s))" "\<lambda>s. bbo_data (snd s)" for D r N
proof unfold_locales
  fix b show "writes (bbo_ok D r) (\<lambda>s. N - length (bbo_data (snd s))) (\<lambda>s. bbo_data (snd s)) (pw_WriteByte bbo_primitive b) [b]"
    unfolding writes_def bbo_primitive_def prim_writer.simps using bbo_WriteByte_appends [of D r _ b] by fastforce
next
  fix offset len :: int and bs :: "u8 list"
  assume "0 \<le> offset" "0 \<le> len" "offset + len \<le> int (length bs)"
  then have "subslice bs offset (offset + len) = Ok (take (nat len) (drop (nat offset) bs))"
    "int (length (take (nat len) (drop (nat offset) bs))) = len" by auto
  from bbo_WriteBytes_appends [OF _ this]
  show "writes (bbo_ok D r) (\<lambda>s. N - length (bbo_data (snd s))) (\<lambda>s. bbo_data (snd s)) (pw_WriteBytes bbo_primitive bs offset len)
      (take (nat len) (drop (nat offset) bs))"
    unfolding writes_def bbo_primitive_def prim_writer.simps by fastforce
qed

section \<open>Values through the methods of the two types\<close>

text \<open>
  The call that a client makes for a value: the type's own method where it has one, the
  method promoted from the embedded base type otherwise.
\<close>

fun bbo_write_item :: "item \<Rightarrow> (bbo_state, unit) act" where
  "bbo_write_item (I_Byte v) = bbo_WriteByte v"
| "bbo_write_item (I_Short v) = bbo_WriteShort v"
| "bbo_write_item (I_Int v) = bbo_WriteInt v"
| "bbo_write_item (I_Long v) = bbo_WriteLong v"
| "bbo_write_item (I_VInt v) = WriteVInt bbo_primitive v"
| "bbo_write_item (I_VLong v) = WriteVLong bbo_primitive v"
| "bbo_write_item (I_ZInt v) = WriteZInt bbo_primitive v"
| "bbo_write_item (I_ZLong v) = WriteZLong bbo_primitive v"
| "bbo_write_item (I_String v) = WriteString bbo_primitive v"
| "bbo_write_item (I_Set vs) = WriteSetOfStrings bbo_primitive vs"

fun bbi_read_item :: "item \<Rightarrow> (bbi_state, item) ract" where
  "bbi_read_item (I_Byte _) = bind_ract (lift_ract bbi_ReadByte) (\<lambda>v. ret_ract (I_Byte v))"
| "bbi_read_item (I_Short _) = bind_ract (lift_ract bbi_ReadShort) (\<lambda>v. ret_ract (I_Short v))"
| "bbi_read_item (I_Int _) = bind_ract (lift_ract bbi_ReadInt) (\<lambda>v. ret_ract (I_Int v))"
| "bbi_read_item (I_Long _) = bind_ract (lift_ract bbi_ReadLong) (\<lambda>v. ret_ract (I_Long v))"
| "bbi_read_item (I_VInt _) = bind_ract (lift_ract bbi_ReadVInt) (\<lambda>v. ret_ract (I_VInt v))"
| "bbi_read_item (I_VLong _) = bind_ract (lift_ract bbi_ReadVLong) (\<lambda>v. ret_ract (I_VLong v))"
| "bbi_read_item (I_ZInt _) = bind_ract (ReadZInt bbi_core) (\<lambda>v. ret_ract (I_ZInt v))"
| "bbi_read_item (I_ZLong _) = bind_ract (ReadZLong bbi_core) (\<lambda>v. ret_ract (I_ZLong v))"
| "bbi_read_item (I_String _) = bind_ract (lift_ract bbi_ReadString) (\<lambda>v. ret_ract (I_String v))"
| "bbi_read_item (I_Set _) = bind_ract (ReadSetOfStrings bbi_core) (\<lambda>v. ret_ract (I_Set v))"

fun bbo_write_items :: "item list \<Rightarrow> (bbo_state, unit) act" where
  "bbo_write_items [] = ret_act ()"
| "bbo_write_items (x # xs) = seq_act (bbo_write_item x) (bbo_write_items xs)"

fun bbi_read_items :: "item list \<Rightarrow> (bbi_state, item list) ract" where
  "bbi_read_items [] = ret_ract []"
| "bbi_read_items (x # xs) = bind_ract (bbi_read_item x) (\<lambda>v. bind_ract (bbi_read_items xs) (\<lambda>vs. ret_ract (v # vs)))"

text \<open>The bytes that the fixed-width methods put into one \<open>WriteBytes\<close>.\<close>

lemma low_byte_shift: "n + 8 \<le> LENGTH('a::len) \<Longrightarrow> (ucast (signed_drop_bit n (i :: 'a word)) :: u8) = ucast (drop_bit n i)"
  by (intro bit_word_eqI) (auto simp: bit_simps)

lemma short_bytes_eq: "[ucast i, ucast (signed_drop_bit 8 i)] = item_bytes (I_Short i)"
  by (simp add: low_byte_shift)

lemma int_bytes_eq: "[ucast i, ucast (signed_drop_bit 8 i), ucast (signed_drop_bit 16 i), ucast (signed_drop_bit 24 i)] = int_bytes i"
  by (simp add: low_byte_shift int_bytes_def)

lemma long_bytes_eq:
  "[ucast i, ucast (signed_drop_bit 8 i), ucast (signed_drop_bit 16 i), ucast (signed_drop_bit 24 i),
    ucast (signed_drop_bit 32 i), ucast (signed_drop_bit 40 i), ucast (signed_drop_bit 48 i), ucast (signed_drop_bit 56 i)]
   = long_bytes i"
  unfolding long_bytes_def int_bytes_def append_Cons append_Nil list.inject
  by (intro conjI TrueI refl; intro bit_word_eqI) (auto simp: bit_simps)

text \<open>A little-endian value is the bytes of its fixed-width encoding.\<close>

lemma le_val_short: "le_val (item_bytes (I_Short i)) = i"
  by (intro bit_word_eqI) (auto simp: bit_le_val bit_simps nth_Cons split: nat.splits)

lemma le_val_long: "le_val (long_bytes i) = i"
proof -
  have n: "length (long_bytes i) = 8" by (simp add: long_bytes_def int_bytes_def)
  have "bit (long_bytes i ! m) k \<longleftrightarrow> k < 8 \<and> bit i (8 * m + k)" if "m < 8" for m k
    using that by (auto simp: long_bytes_def int_bytes_def nth_Cons numeral_eq_Suc bit_simps less_Suc_eq add.commute split: nat.splits)
  then show ?thesis by (intro bit_word_eqI) (simp add: bit_le_val n div_less_iff_less_mult)
qed

context byte_sink
begin

lemma WriteBytes_all_writes: "n = int (length bs) \<Longrightarrow> writes ok room written (pw_WriteBytes W bs 0 n) bs"
  using WriteBytes_law [of 0 "int (length bs)" bs] by simp

end

lemma bbo_write_item_writes:
  "item_ok x \<Longrightarrow> writes (bbo_ok D r) (\<lambda>s. N - length (bbo_data (snd s))) (\<lambda>s. bbo_data (snd s)) (bbo_write_item x) (item_bytes x)"
proof -
  assume x: "item_ok x"
  have all: "writes (bbo_ok D r) (\<lambda>s. N - length (bbo_data (snd s))) (\<lambda>s. bbo_data (snd s)) (bbo_WriteBytes bs 0 n) bs"
    if "n = int (length bs)" for bs n
    using bbo.WriteBytes_all_writes [OF that] by (simp add: bbo_primitive_def)
  have g: "writes (bbo_ok D r) (\<lambda>s. N - length (bbo_data (snd s))) (\<lambda>s. bbo_data (snd s)) (write_item bbo_primitive x) (item_bytes x)"
    using bbo.write_item_writes x by blast
  show ?thesis
  proof (cases x)
    case (I_Byte v)
    then show ?thesis using g by (simp add: WriteByte_def bbo_primitive_def)
  next
    case (I_Short v)
    then show ?thesis by (simp only: bbo_write_item.simps bbo_WriteShort_def short_bytes_eq) (rule all, simp)
  next
    case (I_Int v)
    then show ?thesis by (simp only: bbo_write_item.simps bbo_WriteInt_def int_bytes_eq item_bytes.simps) (rule all, simp add: int_bytes_def)
  next
    case (I_Long v)
    then show ?thesis
      by (simp only: bbo_write_item.simps bbo_WriteLong_def long_bytes_eq item_bytes.simps) (rule all, simp add: long_bytes_def int_bytes_def)
  qed (use g in simp_all)
qed

lemma bbo_write_items_writes:
  "list_all item_ok xs \<Longrightarrow>
   writes (bbo_ok D r) (\<lambda>s. N - length (bbo_data (snd s))) (\<lambda>s. bbo_data (snd s)) (bbo_write_items xs) (concat (map item_bytes xs))"
  by (induction xs) (auto simp: writes_ret intro!: writes_seq bbo_write_item_writes)

lemma bbi_fixed_reads:
  assumes "length bs = n" "le_val bs = v"
  shows "reads bbi_ok bbi_rest (lift_ract (bind_act (bbi_ReadBytes (replicate n 0) 0 (int n)) (\<lambda>buf. ret_act (le_val buf)))) bs v"
proof -
  have "reads bbi_ok bbi_rest (lift_ract (bbi_ReadBytes (replicate n 0) 0 (int n))) bs bs"
    using bbi.ReadBytes_reads [of bs] assms(1) by (simp add: ReadBytes_def bbi_core_def)
  then show ?thesis unfolding lift_bind lift_ret using reads_bind_ret assms(2) by metis
qed

lemma bbi_read_item_reads: "item_ok x \<Longrightarrow> reads bbi_ok bbi_rest (bbi_read_item x) (item_bytes x) x"
proof (cases x)
  case (I_Byte v)
  then show ?thesis using bbi.read_item_reads [of x] by (simp add: ReadByte_def bbi_core_def)
next
  case (I_Short v)
  have "reads bbi_ok bbi_rest (lift_ract bbi_ReadShort) (item_bytes x) v"
    using bbi_fixed_reads [of "item_bytes (I_Short v)" 2, OF _ le_val_short] by (simp add: I_Short bbi_ReadShort_def)
  then show ?thesis using reads_bind_ret by (auto simp: I_Short)
next
  case (I_Int v)
  have "reads bbi_ok bbi_rest (lift_ract bbi_ReadInt) (item_bytes x) v"
    using bbi_fixed_reads [of "int_bytes v" 4, OF _ le_val_int_bytes] by (simp add: I_Int bbi_ReadInt_def int_bytes_def)
  then show ?thesis using reads_bind_ret by (auto simp: I_Int)
next
  case (I_Long v)
  have "reads bbi_ok bbi_rest (lift_ract bbi_ReadLong) (item_bytes x) v"
    using bbi_fixed_reads [of "long_bytes v" 8, OF _ le_val_long] by (simp add: I_Long bbi_ReadLong_def long_bytes_def int_bytes_def)
  then show ?thesis using reads_bind_ret by (auto simp: I_Long)
next
  case (I_VInt v)
  then show ?thesis using reads_bind_ret [OF bbi_ReadVInt_reads, of _ v] by simp
next
  case (I_VLong v)
  then show ?thesis using reads_bind_ret [OF bbi_ReadVLong_reads, of _ v] by simp
next
  case (I_String v)
  assume "item_ok x"
  then show ?thesis using reads_bind_ret [OF bbi_ReadString_reads] I_String by simp
qed (use bbi.read_item_reads [of x] in simp_all)

lemma bbi_read_items_reads:
  "list_all item_ok xs \<Longrightarrow> reads bbi_ok bbi_rest (bbi_read_items xs) (concat (map item_bytes xs)) xs"
  by (induction xs) (auto simp: reads_ret intro!: reads_bind bbi_read_item_reads reads_bind_ret)

section \<open>Chunking and slicing\<close>

lemma concat_blocks: "concat (map (\<lambda>i. take c (drop (i * c) xs)) [0..<n]) = take (n * c) xs"
proof (induction n)
  case (Suc n)
  have "take (n * c + c) xs = take (n * c) xs @ take c (drop (n * c) xs)" by (rule take_add)
  then show ?case using Suc by (simp add: add.commute)
qed simp

lemma splitIntoChunks_blocks:
  assumes "0 < c" "data \<noteq> []"
  shows "splitIntoChunks data c = map (\<lambda>i. take (nat c) (drop (i * nat c) data)) [0..<nat ((int (length data) + c - 1) div c)]"
  using assms by (auto simp: splitIntoChunks_def Let_def intro!: map_cong)

lemma ceil_div:
  fixes L c :: int
  assumes "0 < c"
  defines "n \<equiv> (L + c - 1) div c"
  shows "L \<le> n * c" "n * c < L + c"
proof -
  have e: "n * c + (L + c - 1) mod c = L + c - 1" unfolding n_def by (rule div_mult_mod_eq)
  have "0 \<le> (L + c - 1) mod c" "(L + c - 1) mod c < c" using assms(1) by simp_all
  with e show "L \<le> n * c" "n * c < L + c" by linarith+
qed

lemma splitIntoChunks_ok:
  assumes "0 < c"
  shows "concat (splitIntoChunks data c) = data" "chunks_ok (splitIntoChunks data c)"
proof -
  define n where "n = nat ((int (length data) + c - 1) div c)"
  define k where "k = nat c"
  have k: "c = int k" "0 < k" using assms by (simp_all add: k_def)
  have "0 \<le> (int (length data) + c - 1) div c" using assms by (simp add: pos_imp_zdiv_nonneg_iff)
  then have "int (length data) \<le> int n * int k" "int n * int k < int (length data) + int k"
    using ceil_div [OF assms, of "int (length data)"] by (simp_all add: n_def k(1))
  then have n: "length data \<le> n * k" "n * k < length data + k"
    by (simp_all only: of_nat_mult [symmetric] of_nat_add [symmetric] of_nat_le_iff of_nat_less_iff)
  have blocks: "splitIntoChunks data c = map (\<lambda>i. take k (drop (i * k) data)) [0..<n]" if "data \<noteq> []"
    by (simp add: splitIntoChunks_blocks [OF assms that] n_def k_def)
  show "concat (splitIntoChunks data c) = data"
    by (cases "data = []") (simp_all add: blocks concat_blocks n(1), simp add: splitIntoChunks_def)
  show "chunks_ok (splitIntoChunks data c)"
  proof (cases "data = []")
    case False
    have "take k (drop (i * k) data) \<noteq> []" if "i < n" for i
    proof -
      have "Suc i * k \<le> n * k" using that by (intro mult_le_mono1) simp
      then have "i * k < length data" using n(2) by simp
      then show ?thesis using k(2) by simp
    qed
    moreover have "0 < n" using n(1) False by (cases n) auto
    ultimately show ?thesis by (auto simp: chunks_ok_def blocks [OF False])
  qed (simp add: splitIntoChunks_def chunks_ok_def)
qed

text \<open>A slice of the chunks between two positions.\<close>

definition slice_chunk :: "u8 list list \<Rightarrow> nat \<Rightarrow> nat \<Rightarrow> nat \<Rightarrow> nat \<Rightarrow> nat \<Rightarrow> u8 list" where
  "slice_chunk cs s e so eo i =
     (let lo = (if i = s then so else 0); hi = (if i = e then eo + 1 else length (cs ! i))
      in take (hi - lo) (drop lo (cs ! i)))"

lemma slice_fold:
  assumes "\<And>i. i \<in> set is \<Longrightarrow> i < length cs \<and> (i = s \<longrightarrow> so \<le> (if i = e then eo + 1 else length (cs ! i))) \<and> (i = e \<longrightarrow> eo < length (cs ! i))"
  shows "foldr (\<lambda>i acc. bind_out (index cs (int i)) (\<lambda>chunk.
            bind_out (subslice chunk (if i = s then int so else 0) (if i = e then int eo + 1 else int (length chunk))) (\<lambda>c.
            bind_out acc (\<lambda>r. Ok (c # r))))) is (Ok [])
      = Ok (map (slice_chunk cs s e so eo) is)"
  using assms
proof (induction "is")
  case (Cons i "is")
  have i: "i < length cs" "i = s \<longrightarrow> so \<le> (if i = e then eo + 1 else length (cs ! i))" "i = e \<longrightarrow> eo < length (cs ! i)"
    using Cons.prems [of i] by auto
  have "subslice (cs ! i) (if i = s then int so else 0) (if i = e then int eo + 1 else int (length (cs ! i)))
      = Ok (slice_chunk cs s e so eo i)"
    using i(2,3) by (cases "i = s"; cases "i = e") (auto simp: subslice_def slice_chunk_def nat_diff_distrib nat_add_distrib)
  then show ?case using Cons.IH [OF Cons.prems [OF list.set_intros(2)]] i(1) by simp
qed simp

lemma concat_slices:
  assumes "s < e" "e < length cs"
  shows "concat (map (slice_chunk cs s e so eo) [s..<e + 1])
       = drop so (cs ! s) @ concat (take (e - Suc s) (drop (Suc s) cs)) @ take (eo + 1) (cs ! e)"
proof -
  have "[s..<e + 1] = s # [Suc s..<e] @ [e]" using assms(1) by (simp add: upt_conv_Cons)
  moreover have "map (slice_chunk cs s e so eo) [Suc s..<e] = take (e - Suc s) (drop (Suc s) cs)"
    using assms by (intro nth_equalityI) (auto simp: slice_chunk_def)
  ultimately show ?thesis using assms(1) by (simp add: slice_chunk_def)
qed

lemma take_concat_between:
  assumes "s < e" "e < length cs" "so < length (cs ! s)" "eo < length (cs ! e)"
    "n = (length (cs ! s) - so) + length (concat (take (e - Suc s) (drop (Suc s) cs))) + (eo + 1)"
  shows "take n (drop so (cs ! s) @ concat (drop (Suc s) cs))
       = drop so (cs ! s) @ concat (take (e - Suc s) (drop (Suc s) cs)) @ take (eo + 1) (cs ! e)"
proof -
  let ?t = "drop (Suc s) cs" and ?k = "e - Suc s"
  have "?k < length ?t" "?t ! ?k = cs ! e" using assms(1,2) by simp_all
  then have "concat ?t = concat (take ?k ?t) @ cs ! e @ concat (drop (Suc ?k) ?t)"
    using concat_split_at [of ?k ?t] by simp
  then show ?thesis using assms(3-5) by simp
qed

lemma buildChunksFromSlice_flat:
  assumes cs: "chunks_ok cs" and b: "0 \<le> offset" "0 \<le> len" "offset + len \<le> int (length (concat cs))"
    and T: "int (length (concat cs)) < 2 ^ 63"
  obtains cs' where "buildChunksFromSlice cs (cum_lens 0 cs) offset len = Ok cs'" "chunks_ok cs'"
    "concat cs' = take (nat len) (drop (nat offset) (concat cs))"
proof (cases "len = 0")
  case True
  then show thesis using that [of "[[]]"] by (simp add: buildChunksFromSlice_def chunks_ok_def)
next
  case False
  let ?c = "\<lambda>i. length (concat (take i cs))"
  define s where "s = chunk_index (cum_lens 0 cs) offset"
  define e where "e = chunk_index (cum_lens 0 cs) (offset + len - 1)"
  have "offset < int (length (concat cs))" "0 \<le> offset + len - 1" "offset + len - 1 < int (length (concat cs))"
    using b False by auto
  note S = chunk_index_spec [OF cs b(1) this(1), folded s_def] and E = chunk_index_spec [OF cs this(2,3), folded e_def]
  define so where "so = nat offset - ?c s"
  define eo where "eo = nat (offset + len - 1) - ?c e"
  have so: "offset - int (?c s) = int so" "so < length (cs ! s)" using S b(1) by (auto simp: so_def)
  have eo: "offset + len - 1 - int (?c e) = int eo" "eo < length (cs ! e)" using E b(1,2) False by (auto simp: eo_def)
  have ne: "cs \<noteq> []" using S(1) by auto
  have end_id: "wrap64 (offset + len - 1) = offset + len - 1" using b T False by (intro wrap64_id) auto
  have "length (cs ! e) \<le> length (concat cs)" using E(1) by (subst concat_split_at [OF E(1)]) simp
  then have eo_id: "wrap64 (int eo + 1) = int eo + 1" using eo(2) T by (intro wrap64_id) auto
  have se: "s \<le> e"
  proof (rule ccontr)
    assume "\<not> s \<le> e"
    then have "?c (Suc e) \<le> ?c s" by (intro length_concat_take_mono) simp
    moreover have "?c (Suc e) = ?c e + length (cs ! e)" using E(1) by (simp add: take_Suc_conv_app_nth)
    ultimately show False using S(3) E(4) b(2) False by linarith
  qed
  then have cap: "\<not> int e - int s + 1 < 0" by simp
  have B: "buildChunksFromSlice cs (cum_lens 0 cs) offset len
      = foldr (\<lambda>i acc. bind_out (index cs (int i)) (\<lambda>chunk.
            bind_out (subslice chunk (if i = s then int so else 0) (if i = e then int eo + 1 else int (length chunk))) (\<lambda>c.
            bind_out acc (\<lambda>r. Ok (c # r))))) [s..<e + 1] (Ok [])"
  proof -
    have "index (cum_lens 0 cs) (int s) = Ok (int (?c s))" "index (cum_lens 0 cs) (int e) = Ok (int (?c e))"
      using S(1,2) E(1,2) by simp_all
    then show ?thesis unfolding buildChunksFromSlice_def Let_def end_id s_def [symmetric] e_def [symmetric]
      by (simp only: False ne if_False bind_out.simps so(1) eo(1) eo_id cap)
  qed
  have bnd: "so \<le> eo + 1" if "s = e" using so eo that b(2) by simp
  have R: "buildChunksFromSlice cs (cum_lens 0 cs) offset len = Ok (map (slice_chunk cs s e so eo) [s..<e + 1])"
    unfolding B by (rule slice_fold) (use se E(1) so(2) eo(2) bnd in auto)
  have flat: "drop (nat offset) (concat cs) = drop so (cs ! s) @ concat (drop (Suc s) cs)"
    using S b(1) by (subst concat_split_at [OF S(1)]) (simp add: so_def le_nat_iff nat_le_iff)
  have C: "concat (map (slice_chunk cs s e so eo) [s..<e + 1]) = take (nat len) (drop (nat offset) (concat cs))"
  proof (cases "s = e")
    case True
    have "nat len = eo + 1 - so" using so(1) eo(1) bnd [OF True] True b(2) False by (auto simp: nat_eq_iff)
    then show ?thesis unfolding flat using True so(2) eo(2) bnd by (simp add: slice_chunk_def)
  next
    case neq: False
    have "take e cs = take s cs @ cs ! s # take (e - Suc s) (drop (Suc s) cs)"
      using se neq S(1) E(1) by (metis Cons_nth_drop_Suc Suc_diff_Suc le_add_diff_inverse nat_less_le take_Suc_Cons take_add)
    then have "?c e = ?c s + length (cs ! s) + length (concat (take (e - Suc s) (drop (Suc s) cs)))" by simp
    then have "nat len = (length (cs ! s) - so) + length (concat (take (e - Suc s) (drop (Suc s) cs))) + (eo + 1)"
      using so eo b(2) False by linarith
    from take_concat_between [OF _ E(1) so(2) eo(2) this] concat_slices [of s e cs so eo] se neq E(1)
    show ?thesis by (simp add: flat)
  qed
  have "slice_chunk cs s e so eo i \<noteq> []" if "s \<le> i" "i \<le> e" for i
  proof -
    have "cs ! i \<in> set cs" using that E(1) by simp
    then have "cs ! i \<noteq> []" using cs so(2) S(1) by (cases "cs = [[]]") (auto simp: chunks_ok_def)
    moreover have "so < eo + 1" if "s = e" using so(1) eo(1) that b(2) False by auto
    ultimately show ?thesis using that so(2) eo(2) by (auto simp: slice_chunk_def Let_def)
  qed
  then have "[] \<notin> slice_chunk cs s e so eo ` {s..e}" by fastforce
  then have "chunks_ok (map (slice_chunk cs s e so eo) [s..<e + 1])"
    using se by (simp add: chunks_ok_def atLeastLessThanSuc_atLeastAtMost del: upt_Suc)
  then show thesis by (rule that [OF R _ C])
qed

text \<open>
  When the sum of offset and length overflows, the guard of \<open>Slice\<close> lets the call pass: it
  panics, or, for an offset in the second chunk, builds no chunk at all.
\<close>

definition slice_loop :: "u8 list list \<Rightarrow> (nat \<Rightarrow> int) \<Rightarrow> (nat \<Rightarrow> u8 list \<Rightarrow> int) \<Rightarrow> nat list \<Rightarrow> u8 list list outcome" where
  "slice_loop cs lo hi is = foldr (\<lambda>i acc. bind_out (index cs (int i)) (\<lambda>chunk.
     bind_out (subslice chunk (lo i) (hi i chunk)) (\<lambda>c. bind_out acc (\<lambda>r. Ok (c # r))))) is (Ok [])"

lemma slice_loop_panics:
  "j \<in> set is \<Longrightarrow> j < length cs \<Longrightarrow> \<not> (0 \<le> lo j \<and> lo j \<le> hi j (cs ! j) \<and> hi j (cs ! j) \<le> int (length (cs ! j))) \<Longrightarrow>
   \<exists>p. slice_loop cs lo hi is = Panic p"
proof (induction "is")
  case (Cons i "is")
  have step: "slice_loop cs lo hi (i # is) = bind_out (index cs (int i)) (\<lambda>chunk.
     bind_out (subslice chunk (lo i) (hi i chunk)) (\<lambda>c. bind_out (slice_loop cs lo hi is) (\<lambda>r. Ok (c # r))))"
    by (simp add: slice_loop_def)
  show ?case
  proof (cases "i = j")
    case True
    then show ?thesis using Cons.prems unfolding step by (auto simp: subslice_def)
  next
    case False
    then obtain p where "slice_loop cs lo hi is = Panic p" using Cons by auto
    then show ?thesis unfolding step by (auto simp: index_def subslice_def)
  qed
qed simp

lemma buildChunksFromSlice_overflow:
  assumes cs: "chunks_ok cs" "int (length (concat cs)) < 2 ^ 63"
    and b: "0 \<le> offset" "offset < 2 ^ 63" "0 \<le> len" "len < 2 ^ 63" "2 ^ 63 \<le> offset + len"
  shows "if 2 ^ 63 < offset + len \<and> chunk_index (cum_lens 0 cs) offset = 1
     then buildChunksFromSlice cs (cum_lens 0 cs) offset len = Ok []
     else \<exists>p. buildChunksFromSlice cs (cum_lens 0 cs) offset len = Panic p"
proof -
  have ne: "cs \<noteq> []" "len \<noteq> 0" using cs(1) b by (auto simp: chunks_ok_def)
  define E where "E = wrap64 (offset + len - 1)"
  define s where "s = chunk_index (cum_lens 0 cs) offset"
  define e where "e = chunk_index (cum_lens 0 cs) E"
  let ?so = "offset - cum_lens 0 cs ! s" and ?eo = "E - cum_lens 0 cs ! e"
  let ?lo = "\<lambda>i. if i = s then ?so else 0" and ?hi = "\<lambda>i chunk. if i = e then wrap64 (?eo + 1) else int (length chunk)"
  have se: "s < length cs" "e < length cs" using chunk_index_less [OF ne(1)] by (simp_all add: s_def e_def)
  have B: "buildChunksFromSlice cs (cum_lens 0 cs) offset len
      = (if int e - int s + 1 < 0 then Panic ''makeslice: cap out of range'' else slice_loop cs ?lo ?hi [s..<e + 1])"
    unfolding buildChunksFromSlice_def Let_def slice_loop_def E_def [symmetric] s_def [symmetric] e_def [symmetric]
    using ne se by simp
  have z: "cum_lens 0 cs ! 0 = 0" using ne(1) by (simp add: cum_lens_nth)
  show ?thesis
  proof (cases "2 ^ 63 < offset + len")
    case True
    have E: "E = offset + len - 1 - 2 ^ 64" unfolding E_def using b True by (intro wrap64_over) simp_all
    have e0: "e = 0" unfolding e_def by (rule chunk_index_negative) (use ne E b in simp_all)
    have w: "wrap64 (?eo + 1) = E + 1" unfolding e0 z using E b True by simp
    consider "s = 0" | "s = 1" | "2 \<le> s" by linarith
    then show ?thesis
    proof cases
      case 1
      have "\<exists>p. slice_loop cs ?lo ?hi [s..<e + 1] = Panic p"
        by (rule slice_loop_panics [of e]) (use 1 e0 se w E b True in auto)
      then show ?thesis using B 1 e0 unfolding s_def by simp
    next
      case 2
      then show ?thesis using B True e0 unfolding s_def by (simp add: slice_loop_def)
    next
      case 3
      then show ?thesis using B e0 unfolding s_def by simp
    qed
  next
    case False
    then have E: "E = 2 ^ 63 - 1" using b unfolding E_def by simp
    have e: "e = length cs - 1" unfolding e_def by (rule chunk_index_behind) (use ne E cs(2) in simp_all)
    let ?c = "int (length (concat (take e cs)))"
    have c: "cum_lens 0 cs ! e = ?c" using se by (simp add: cum_lens_nth)
    have "?c + int (length (cs ! e)) \<le> int (length (concat cs))" by (subst concat_split_at [OF se(2)]) simp
    then have l: "0 \<le> ?c" "?c < 2 ^ 63" "int (length (cs ! e)) < 2 ^ 63 - ?c" using cs(2) by linarith+
    have "wrap64 (?eo + 1) = 2 ^ 63 - ?c" if "?c \<noteq> 0"
      unfolding E c using l that by (subst wrap64_id) linarith+
    then have "?c = 0 \<or> wrap64 (?eo + 1) = 2 ^ 63 - ?c \<and> int (length (cs ! e)) < 2 ^ 63 - ?c"
      using l by blast
    moreover have "wrap64 (?eo + 1) < 0" if "?c = 0" unfolding E c that using wrap64_over [of "2 ^ 63"] by simp
    ultimately have "\<not> (0 \<le> wrap64 (?eo + 1) \<and> wrap64 (?eo + 1) \<le> int (length (cs ! e)))" by linarith
    then have "\<exists>p. slice_loop cs ?lo ?hi [s..<e + 1] = Panic p"
      by (intro slice_loop_panics [of e]) (use e se in auto)
    then show ?thesis using B False e se unfolding s_def by simp
  qed
qed

section \<open>The directory as a map from names to contents\<close>

definition bd_abs :: "ByteBuffersDirectory \<Rightarrow> gostring \<rightharpoonup> u8 list" where
  "bd_abs d name = map_option (\<lambda>r. bf_content (deref d r)) (map_of (bd_files d) name)"

text \<open>
  Names are unique, no two names share a file, every address is allocated, and a listed
  file knows its name.
\<close>

definition counts_pos :: "(gostring \<rightharpoonup> int) \<Rightarrow> bool" where
  "counts_pos m \<longleftrightarrow> (\<forall>n c. m n = Some c \<longrightarrow> 0 < c)"

definition bd_wf :: "ByteBuffersDirectory \<Rightarrow> bool" where
  "bd_wf d \<longleftrightarrow> distinct (map fst (bd_files d)) \<and> distinct (map snd (bd_files d))
     \<and> dom (bd_heap d) = {..<bd_fresh d}
     \<and> (\<forall>(n, r) \<in> set (bd_files d). r < bd_fresh d \<and> bf_name (deref d r) = n)
     \<and> counts_pos (bd_openFiles d) \<and> 0 \<le> bd_chunkSize d"

lemma AddOpenFile_frame [simp]:
  "bd_isOpen (AddOpenFile n d) = bd_isOpen d" "bd_files (AddOpenFile n d) = bd_files d" "bd_heap (AddOpenFile n d) = bd_heap d"
  "bd_fresh (AddOpenFile n d) = bd_fresh d" "bd_chunkSize (AddOpenFile n d) = bd_chunkSize d"
  "deref (AddOpenFile n d) = deref d" "bd_abs (AddOpenFile n d) = bd_abs d"
  by (simp_all add: AddOpenFile_def deref_def bd_abs_def fun_eq_iff)

lemma RemoveOpenFile_frame [simp]:
  "bd_isOpen (RemoveOpenFile n d) = bd_isOpen d" "bd_files (RemoveOpenFile n d) = bd_files d" "bd_heap (RemoveOpenFile n d) = bd_heap d"
  "bd_fresh (RemoveOpenFile n d) = bd_fresh d" "bd_chunkSize (RemoveOpenFile n d) = bd_chunkSize d"
  "deref (RemoveOpenFile n d) = deref d" "bd_abs (RemoveOpenFile n d) = bd_abs d"
  by (auto simp: RemoveOpenFile_def deref_def bd_abs_def fun_eq_iff split: option.splits)

lemma open_counts_pos:
  assumes "counts_pos (bd_openFiles d)"
  shows "counts_pos (bd_openFiles (AddOpenFile m d))" "counts_pos (bd_openFiles (RemoveOpenFile m d))"
  using assms by (auto simp: counts_pos_def AddOpenFile_def RemoveOpenFile_def less_imp_le split: option.splits if_splits)

lemma bd_wf_open [simp]:
  assumes "bd_wf d" shows "bd_wf (AddOpenFile m d)" "bd_wf (RemoveOpenFile m d)"
  using assms by (simp_all add: bd_wf_def open_counts_pos)

lemma EnsureOpen_open [simp]: "bd_isOpen d \<Longrightarrow> seq_act EnsureOpen k d = k d"
  by (simp add: seq_act_def bind_act_def EnsureOpen_def)

lemma EnsureOpen_closed [simp]: "\<not> bd_isOpen d \<Longrightarrow> seq_act EnsureOpen k d = (Err ErrIllegalState, d)"
  by (simp add: seq_act_def bind_act_def EnsureOpen_def)

lemma bd_abs_None: "bd_abs d name = None \<longleftrightarrow> map_of (bd_files d) name = None"
  by (simp add: bd_abs_def)

lemma map_of_delete: "map_of (AList.delete k xs) = (map_of xs)(k := None)"
  by (rule AList.delete_conv')

lemma create_ok:
  assumes "bd_wf d" "bd_isOpen d" "bd_abs d name = None"
  obtains out d' where "bd_CreateOutput name d = (Ok out, d')" "bd_wf d'" "bd_isOpen d'" "bd_abs d' = (bd_abs d)(name \<mapsto> [])"
    "out = \<lparr>bbo_name = name, bbo_filePointer = 0, bbo_file = Some (bd_fresh d), bbo_data = []\<rparr>"
    "map_of (bd_files d') name = Some (bd_fresh d)" "bf_name (deref d' (bd_fresh d)) = name" "bd_chunkSize d' = bd_chunkSize d"
proof -
  let ?r = "bd_fresh d"
  let ?d1 = "d\<lparr>bd_heap := (bd_heap d)(?r \<mapsto> \<lparr>bf_name = name, bf_content = []\<rparr>), bd_fresh := ?r + 1, bd_files := (name, ?r) # bd_files d\<rparr>"
  have old: "r < ?r" if "map_of (bd_files d) n = Some r" for n r
    using assms(1) map_of_SomeD [OF that] by (auto simp: bd_wf_def)
  have deref: "deref ?d1 r = deref d r" if "r < ?r" for r using that by (simp add: deref_def)
  have n: "name \<notin> fst ` set (bd_files d)" using assms(3) by (simp add: bd_abs_None map_of_eq_None_iff)
  have r: "?r \<notin> snd ` set (bd_files d)" using assms(1) by (auto simp: bd_wf_def)
  have "bd_wf ?d1" unfolding bd_wf_def
  proof (intro conjI)
    show "\<forall>(n, r)\<in>set (bd_files ?d1). r < bd_fresh ?d1 \<and> bf_name (deref ?d1 r) = n"
      using assms(1) deref by (fastforce simp: bd_wf_def deref_def)
    show "dom (bd_heap ?d1) = {..<bd_fresh ?d1}" using assms(1) by (auto simp: bd_wf_def)
  qed (use assms(1) n r in \<open>auto simp: bd_wf_def\<close>)
  moreover have "bd_abs ?d1 = (bd_abs d)(name \<mapsto> [])"
  proof
    fix n
    have "bf_content (deref ?d1 ?r) = []" by (simp add: deref_def)
    moreover have "bf_content (deref ?d1 r) = bf_content (deref d r)" if "map_of (bd_files d) n = Some r" for r
      using deref [OF old [OF that]] by simp
    ultimately show "bd_abs ?d1 n = ((bd_abs d)(name \<mapsto> [])) n"
      by (cases "map_of (bd_files d) n") (simp_all add: bd_abs_def)
  qed
  ultimately show thesis
    using assms(2,3) that [of "\<lparr>bbo_name = name, bbo_filePointer = 0, bbo_file = Some ?r, bbo_data = []\<rparr>" "AddOpenFile name ?d1"]
    by (simp add: bd_CreateOutput_def Let_def bd_abs_None deref_def)
qed

lemma delete_ok:
  assumes "bd_wf d" "bd_isOpen d" "bd_abs d name \<noteq> None"
  obtains d' where "bd_DeleteFile name d = (Ok (), d')" "bd_wf d'" "bd_isOpen d'" "bd_abs d' = (bd_abs d)(name := None)"
    "bd_heap d' = bd_heap d"
proof -
  let ?d = "d\<lparr>bd_files := AList.delete name (bd_files d)\<rparr>"
  have sub: "set (AList.delete name (bd_files d)) \<subseteq> set (bd_files d)" by (auto simp: AList.delete_eq)
  have "distinct (map snd (AList.delete name (bd_files d)))"
    using assms(1) by (simp add: bd_wf_def AList.delete_eq distinct_map_filter)
  moreover have "distinct (map fst (AList.delete name (bd_files d)))"
    using assms(1) by (simp add: bd_wf_def AList.delete_eq distinct_map_filter)
  moreover have "deref ?d = deref d" by (simp add: deref_def fun_eq_iff)
  moreover have "\<forall>(n, r)\<in>set (AList.delete name (bd_files d)). r < bd_fresh d \<and> bf_name (deref d r) = n"
    using assms(1) sub unfolding bd_wf_def by blast
  ultimately have "bd_wf ?d" using assms(1) by (simp add: bd_wf_def)
  moreover have "bd_abs ?d = (bd_abs d)(name := None)"
    by (simp add: bd_abs_def fun_eq_iff map_of_delete deref_def)
  ultimately show thesis using that [of ?d] assms(2,3) by (simp add: bd_DeleteFile_def bd_abs_None)
qed

lemma update_file_wf:
  assumes "bd_wf d" "r < bd_fresh d" "bf_name f = bf_name (deref d r)"
  shows "bd_wf (d\<lparr>bd_heap := (bd_heap d)(r \<mapsto> f)\<rparr>)"
proof -
  let ?d = "d\<lparr>bd_heap := (bd_heap d)(r \<mapsto> f)\<rparr>"
  have "bf_name (deref ?d q) = bf_name (deref d q)" for q using assms(3) by (simp add: deref_def)
  moreover have "dom (bd_heap ?d) = {..<bd_fresh ?d}" using assms(1,2) by (auto simp: bd_wf_def)
  ultimately show ?thesis using assms(1) by (simp add: bd_wf_def)
qed

lemma addr_inj: "bd_wf d \<Longrightarrow> map_of (bd_files d) a = Some r \<Longrightarrow> map_of (bd_files d) b = Some r \<Longrightarrow> a = b"
proof -
  assume "bd_wf d" and ab: "map_of (bd_files d) a = Some r" "map_of (bd_files d) b = Some r"
  then have "inj_on snd (set (bd_files d))" by (simp add: bd_wf_def distinct_map)
  then have "(a, r) = (b, r)" by (rule inj_onD) (use ab [THEN map_of_SomeD] in simp_all)
  then show "a = b" by simp
qed

lemma addr_bound: "bd_wf d \<Longrightarrow> map_of (bd_files d) a = Some r \<Longrightarrow> r < bd_fresh d \<and> bf_name (deref d r) = a"
  unfolding bd_wf_def using map_of_SomeD by fastforce

lemma bbo_Close_ok:
  assumes "bd_wf d" "bbo_file out = Some r" "r < bd_fresh d"
  obtains d' where "bbo_Close (d, out) = (d', out)" "bd_wf d'" "bd_isOpen d' = bd_isOpen d" "bd_chunkSize d' = bd_chunkSize d"
    "bd_files d' = bd_files d"
    "bd_abs d' = (\<lambda>n. if map_of (bd_files d) n = Some r then Some (bbo_data out) else bd_abs d n)"
proof -
  let ?f = "(deref d r)\<lparr>bf_content := bbo_data out\<rparr>" and ?d = "d\<lparr>bd_heap := (bd_heap d)(r \<mapsto> (deref d r)\<lparr>bf_content := bbo_data out\<rparr>)\<rparr>"
  have w: "bd_wf ?d" by (rule update_file_wf [OF assms(1,3)]) simp
  have "bd_abs ?d = (\<lambda>n. if map_of (bd_files d) n = Some r then Some (bbo_data out) else bd_abs d n)"
  proof
    fix n show "bd_abs ?d n = (if map_of (bd_files d) n = Some r then Some (bbo_data out) else bd_abs d n)"
      by (cases "map_of (bd_files d) n") (simp_all add: bd_abs_def deref_def)
  qed
  then show thesis using w that [of "RemoveOpenFile (bf_name (deref d r)) ?d"] assms(2) by (simp add: bbo_Close_def Let_def)
qed

lemma rename_ok:
  assumes "bd_wf d" "bd_isOpen d" "\<not> IsFileOpen source d" "bd_abs d source = Some content" "bd_abs d dest = None"
  obtains d' where "bd_Rename source dest d = (Ok (), d')" "bd_wf d'" "bd_isOpen d'"
    "bd_abs d' = (bd_abs d)(source := None, dest \<mapsto> content)"
proof -
  obtain r where r: "map_of (bd_files d) source = Some r" "content = bf_content (deref d r)"
    using assms(4) by (auto simp: bd_abs_def)
  let ?fs = "AList.delete source (bd_files d)"
  let ?d = "d\<lparr>bd_files := (dest, r) # ?fs, bd_heap := (bd_heap d)(r \<mapsto> (deref d r)\<lparr>bf_name := dest\<rparr>)\<rparr>"
  note b = addr_bound [OF assms(1) r(1)]
  have dn: "map_of (bd_files d) dest = None" using assms(5) by (simp add: bd_abs_None)
  have other: "q \<noteq> r \<and> q < bd_fresh d \<and> bf_name (deref d q) = n" if "(n, q) \<in> set ?fs" for n q
  proof -
    have "(n, q) \<in> set (bd_files d)" "n \<noteq> source" using that by (auto simp: AList.delete_eq)
    moreover have "map_of (bd_files d) n = Some q"
      using calculation(1) assms(1) by (simp add: bd_wf_def)
    ultimately show ?thesis using addr_inj [OF assms(1) _ r(1)] addr_bound [OF assms(1)] by blast
  qed
  have "deref ?d q = deref d q" if "q \<noteq> r" for q using that by (simp add: deref_def)
  then have names: "\<forall>(n, q)\<in>set ((dest, r) # ?fs). q < bd_fresh d \<and> bf_name (deref ?d q) = n"
    using other b by (auto simp: deref_def)
  have "distinct (map snd ((dest, r) # ?fs))"
  proof -
    have "r \<notin> snd ` set ?fs" using other by fastforce
    moreover have "distinct (map snd ?fs)" using assms(1) by (simp add: bd_wf_def AList.delete_eq distinct_map_filter)
    ultimately show ?thesis by simp
  qed
  moreover have "distinct (map fst ((dest, r) # ?fs))"
    using assms(1) dn by (auto simp: bd_wf_def AList.delete_eq distinct_map_filter map_of_eq_None_iff)
  moreover have "dom (bd_heap ?d) = {..<bd_fresh ?d}" using assms(1) b by (auto simp: bd_wf_def)
  ultimately have w: "bd_wf ?d" using assms(1) names by (simp add: bd_wf_def)
  have "bd_abs ?d = (bd_abs d)(source := None, dest \<mapsto> content)"
  proof
    fix n
    have "bf_content (deref ?d q) = bf_content (deref d q)" for q by (simp add: deref_def)
    then show "bd_abs ?d n = ((bd_abs d)(source := None, dest \<mapsto> content)) n"
      by (cases "n = dest") (simp_all add: bd_abs_def map_of_delete r(2))
  qed
  then show thesis using that [of ?d] w assms(2,3) r(1) dn by (simp add: bd_Rename_def)
qed

text \<open>Closing an output that \<open>CreateOutput\<close> returned stores its bytes under its name.\<close>

lemma close_new_file:
  assumes "bd_wf d1" "bd_isOpen d1" "map_of (bd_files d1) name = Some r" "bbo_file out' = Some r"
  obtains d2 where "bbo_Close (d1, out') = (d2, out')" "bd_wf d2" "bd_isOpen d2" "bd_abs d2 = (bd_abs d1)(name \<mapsto> bbo_data out')"
proof -
  have r: "r < bd_fresh d1" using addr_bound [OF assms(1,3)] by simp
  obtain d2 where cl: "bbo_Close (d1, out') = (d2, out')" "bd_wf d2" "bd_isOpen d2 = bd_isOpen d1"
      "bd_abs d2 = (\<lambda>n. if map_of (bd_files d1) n = Some r then Some (bbo_data out') else bd_abs d1 n)"
    by (rule bbo_Close_ok [OF assms(1,4) r])
  have "bd_abs d2 = (bd_abs d1)(name \<mapsto> bbo_data out')"
  proof
    fix n show "bd_abs d2 n = ((bd_abs d1)(name \<mapsto> bbo_data out')) n"
    proof (cases "n = name")
      case False
      then have "map_of (bd_files d1) n \<noteq> Some r" using addr_inj [OF assms(1) _ assms(3), of n] by blast
      then show ?thesis using False by (simp add: cl(4))
    qed (simp add: cl(4) assms(3))
  qed
  then show thesis using that cl(1-3) assms(2) by simp
qed

lemma open_ok:
  assumes "bd_wf d" "bd_isOpen d" "bd_abs d name = Some content"
  obtains inp d' where "bd_OpenInput name d = (Ok inp, d')" "bd_wf d'" "bd_abs d' = bd_abs d"
    "bbi_ok (d', inp)" "bbi_bytes (d', inp) = content" "bbi_rest (d', inp) = content"
proof -
  obtain r where r: "map_of (bd_files d) name = Some r" "content = bf_content (deref d r)"
    using assms(3) by (auto simp: bd_abs_def)
  let ?cs = "if bd_chunkSize d > 0 then splitIntoChunks content (bd_chunkSize d) else [content]"
  have "chunks_ok ?cs" "concat ?cs = content"
    by (auto simp: splitIntoChunks_ok) (auto simp: chunks_ok_def)
  then have "bbi_wf (newByteBuffersIndexInput ?cs name)" by (simp add: bbi_wf_def newByteBuffersIndexInput_def)
  moreover have "concat (bbi_chunks (newByteBuffersIndexInput ?cs name)) = content" "bbi_position (newByteBuffersIndexInput ?cs name) = 0"
    using \<open>concat ?cs = content\<close> by (simp_all add: newByteBuffersIndexInput_def)
  ultimately show thesis using that [of "newByteBuffersIndexInput ?cs name" "AddOpenFile name d"] assms r
    by (simp add: bd_OpenInput_def Let_def bbi_ok_def bbi_bytes_def bbi_rest_def)
qed

section \<open>Reachable directories\<close>

text \<open>
  A directory and the handles clients may hold: an output is closed on any file that was
  ever created, with any data, also after the file was deleted or renamed.
\<close>

inductive bd_reachable :: "ByteBuffersDirectory \<Rightarrow> bool" where
  new: "bd_reachable NewByteBuffersDirectory"
| new_chunked: "NewByteBuffersDirectoryWithChunkSize c = Ok d \<Longrightarrow> bd_reachable d"
| create: "bd_reachable d \<Longrightarrow> bd_CreateOutput name d = (res, d') \<Longrightarrow> bd_reachable d'"
| create_temp: "bd_reachable d \<Longrightarrow> bd_CreateTempOutput prefix suffix d = (res, d') \<Longrightarrow> bd_reachable d'"
| delete: "bd_reachable d \<Longrightarrow> bd_DeleteFile name d = (res', d') \<Longrightarrow> bd_reachable d'"
| rename: "bd_reachable d \<Longrightarrow> bd_Rename source dest d = (res', d') \<Longrightarrow> bd_reachable d'"
| open_input: "bd_reachable d \<Longrightarrow> bd_OpenInput name d = (resi, d') \<Longrightarrow> bd_reachable d'"
| close_input: "bd_reachable d \<Longrightarrow> bbi_Close (d, inp) = (d', inp') \<Longrightarrow> bd_reachable d'"
| clone_input: "bd_reachable d \<Longrightarrow> bbi_Clone (d, inp) = (d', inp') \<Longrightarrow> bd_reachable d'"
| slice_input: "bd_reachable d \<Longrightarrow> bbi_Slice offset len (d, inp) = (resi, (d', inp')) \<Longrightarrow> bd_reachable d'"
| close_output: "bd_reachable d \<Longrightarrow> bbo_file out = Some r \<Longrightarrow> r < bd_fresh d \<Longrightarrow> bbo_Close (d, out) = (d', out') \<Longrightarrow> bd_reachable d'"
| close: "bd_reachable d \<Longrightarrow> bd_Close d = (res', d') \<Longrightarrow> bd_reachable d'"

lemma create_wf: "bd_wf d \<Longrightarrow> bd_CreateOutput name d = (res, d') \<Longrightarrow> bd_wf d'"
proof (cases "bd_isOpen d \<and> bd_abs d name = None")
  case True
  assume "bd_wf d" "bd_CreateOutput name d = (res, d')"
  then show ?thesis using True create_ok [of d name] by auto
qed (auto simp: bd_CreateOutput_def bd_abs_None EnsureOpen_def seq_act_def bind_act_def split: if_splits)

lemma bd_reachable_wf: "bd_reachable d \<Longrightarrow> bd_wf d"
proof (induction rule: bd_reachable.induct)
  case new
  show ?case by (simp add: NewByteBuffersDirectory_def bd_wf_def counts_pos_def)
next
  case (new_chunked c d)
  then show ?case
    by (auto simp: NewByteBuffersDirectoryWithChunkSize_def NewByteBuffersDirectory_def bd_wf_def counts_pos_def split: if_splits)
next
  case (create d name res d')
  then show ?case by (blast intro: create_wf)
next
  case (create_temp d pre suf res d')
  have "bd_wf (d\<lparr>bd_tempCounter := c\<rparr>)" for c
    using create_temp.IH by (simp add: bd_wf_def deref_def)
  then show ?case using create_temp
    by (cases "bd_isOpen d") (auto simp: bd_CreateTempOutput_def bd_generateTempFileName_def bind_act_def Let_def intro: create_wf)
next
  case (delete d name res' d')
  show ?case
  proof (cases "bd_isOpen d \<and> bd_abs d name \<noteq> None")
    case True
    then show ?thesis using delete delete_ok [of d name] by (metis Pair_inject)
  next
    case False
    then show ?thesis using delete by (cases "bd_isOpen d") (auto simp: bd_DeleteFile_def bd_abs_None)
  qed
next
  case (rename d source dest res' d')
  show ?case
  proof (cases "bd_isOpen d \<and> \<not> IsFileOpen source d \<and> (\<exists>c. bd_abs d source = Some c) \<and> bd_abs d dest = None")
    case True
    then show ?thesis using rename rename_ok [of d source] by (metis Pair_inject)
  next
    case False
    then show ?thesis using rename
      by (cases "bd_isOpen d") (auto simp: bd_Rename_def bd_abs_None bd_abs_def split: if_splits option.splits)
  qed
next
  case (open_input d name resi d')
  then show ?case
    by (cases "bd_isOpen d") (auto simp: bd_OpenInput_def Let_def split: option.splits)
next
  case (close_output d out r d' out')
  then show ?case using bbo_Close_ok [of d out r] by (metis Pair_inject)
next
  case (close d res' d')
  then have "d' = d \<or> d' = d\<lparr>bd_files := [], bd_isOpen := False\<rparr>" by (auto simp: bd_Close_def split: if_splits)
  then show ?case using close.IH by (elim disjE) (simp_all add: bd_wf_def)
qed (auto simp: bbi_Close_def bbi_Clone_def bbi_Slice_def Let_def split: if_splits outcome.splits)

lemma bd_ListAll_names: "bd_isOpen d \<Longrightarrow> bd_ListAll d = (Ok (sort (map fst (bd_files d))), d)"
  by (simp add: bd_ListAll_def)

lemma dom_bd_abs: "dom (bd_abs d) = fst ` set (bd_files d)"
  unfolding dom_def bd_abs_None by (auto simp: map_of_eq_None_iff)

text \<open>
  What each operation does to the map, guard by guard in the order of the code.
\<close>

lemma create_refines:
  assumes "bd_wf d"
  shows "if \<not> bd_isOpen d then bd_CreateOutput name d = (Err ErrIllegalState, d)
     else if bd_abs d name \<noteq> None then bd_CreateOutput name d = (Err ErrFileAlreadyExists, d)
     else \<exists>out d'. bd_CreateOutput name d = (Ok out, d') \<and> bbo_data out = [] \<and> bbo_filePointer out = 0
        \<and> bd_isOpen d' \<and> bd_abs d' = (bd_abs d)(name \<mapsto> [])"
proof (cases "bd_isOpen d \<and> bd_abs d name = None")
  case True
  then obtain out d' where "bd_CreateOutput name d = (Ok out, d')" "bd_isOpen d'" "bd_abs d' = (bd_abs d)(name \<mapsto> [])"
      "out = \<lparr>bbo_name = name, bbo_filePointer = 0, bbo_file = Some (bd_fresh d), bbo_data = []\<rparr>"
    using create_ok [OF assms] by metis
  then show ?thesis using True by auto
next
  case False
  then show ?thesis using bd_abs_None [of d name] by (auto simp: bd_CreateOutput_def)
qed

lemma delete_refines:
  assumes "bd_wf d"
  shows "if \<not> bd_isOpen d then bd_DeleteFile name d = (Err ErrIllegalState, d)
     else if bd_abs d name = None then bd_DeleteFile name d = (Err ErrFileNotFound, d)
     else \<exists>d'. bd_DeleteFile name d = (Ok (), d') \<and> bd_isOpen d' \<and> bd_abs d' = (bd_abs d)(name := None)"
proof (cases "bd_isOpen d \<and> bd_abs d name \<noteq> None")
  case True
  then show ?thesis using delete_ok [OF assms, of name] by metis
next
  case False
  then show ?thesis using bd_abs_None [of d name] by (auto simp: bd_DeleteFile_def)
qed

lemma rename_refines:
  assumes "bd_wf d"
  shows "if \<not> bd_isOpen d then bd_Rename source dest d = (Err ErrIllegalState, d)
     else if IsFileOpen source d then bd_Rename source dest d = (Err ErrFileIsOpen, d)
     else if bd_abs d source = None then bd_Rename source dest d = (Err ErrFileNotFound, d)
     else if bd_abs d dest \<noteq> None then bd_Rename source dest d = (Err ErrFileAlreadyExists, d)
     else \<exists>d'. bd_Rename source dest d = (Ok (), d') \<and> bd_isOpen d' \<and> bd_abs d' = (bd_abs d)(source := None, dest := bd_abs d source)"
proof (cases "bd_isOpen d \<and> \<not> IsFileOpen source d \<and> bd_abs d source \<noteq> None \<and> bd_abs d dest = None")
  case True
  then obtain c where c: "bd_abs d source = Some c" by blast
  obtain d' where "bd_Rename source dest d = (Ok (), d')" "bd_isOpen d'" "bd_abs d' = (bd_abs d)(source := None, dest \<mapsto> c)"
    using rename_ok [OF assms _ _ c] True by metis
  then show ?thesis using True c by simp
next
  case False
  then show ?thesis using bd_abs_None [of d source] bd_abs_None [of d dest]
    by (auto simp: bd_Rename_def split: option.splits)
qed

lemma open_refines:
  assumes "bd_wf d"
  shows "if \<not> bd_isOpen d then bd_OpenInput name d = (Err ErrIllegalState, d)
     else case bd_abs d name of None \<Rightarrow> bd_OpenInput name d = (Err ErrFileNotFound, d)
       | Some c \<Rightarrow> \<exists>inp d'. bd_OpenInput name d = (Ok inp, d') \<and> bd_abs d' = bd_abs d \<and> bbi_ok (d', inp) \<and> bbi_rest (d', inp) = c"
proof (cases "bd_isOpen d")
  case True
  show ?thesis
  proof (cases "bd_abs d name")
    case None
    then show ?thesis using True bd_abs_None [of d name] by (simp add: bd_OpenInput_def)
  next
    case (Some c)
    obtain inp d' where "bd_OpenInput name d = (Ok inp, d')" "bd_abs d' = bd_abs d" "bbi_ok (d', inp)" "bbi_rest (d', inp) = c"
      by (rule open_ok [OF assms True Some])
    then show ?thesis using True Some by simp
  qed
qed (simp add: bd_OpenInput_def)

lemma read_only_refines:
  assumes "bd_wf d"
  shows "bd_FileLength name d = (if \<not> bd_isOpen d then Err ErrIllegalState
       else case bd_abs d name of None \<Rightarrow> Err ErrFileNotFound | Some c \<Rightarrow> Ok (int (length c)), d)"
    and "bd_FileExists name d \<longleftrightarrow> bd_isOpen d \<and> bd_abs d name \<noteq> None"
    and "\<exists>ns. bd_ListAll d = (if \<not> bd_isOpen d then Err ErrIllegalState else Ok ns, d)
       \<and> sorted ns \<and> distinct ns \<and> set ns = dom (bd_abs d)"
proof -
  show "bd_FileLength name d = (if \<not> bd_isOpen d then Err ErrIllegalState
       else case bd_abs d name of None \<Rightarrow> Err ErrFileNotFound | Some c \<Rightarrow> Ok (int (length c)), d)"
    by (cases "bd_isOpen d") (simp_all add: bd_FileLength_def bd_abs_def split: option.splits)
  show "bd_FileExists name d \<longleftrightarrow> bd_isOpen d \<and> bd_abs d name \<noteq> None"
    by (simp add: bd_FileExists_def bd_abs_None)
  show "\<exists>ns. bd_ListAll d = (if \<not> bd_isOpen d then Err ErrIllegalState else Ok ns, d)
       \<and> sorted ns \<and> distinct ns \<and> set ns = dom (bd_abs d)"
    by (rule exI [of _ "sort (map fst (bd_files d))"], cases "bd_isOpen d")
       (use assms in \<open>simp_all add: bd_ListAll_def dom_bd_abs bd_wf_def\<close>)
qed

lemma sync_refines: "bd_Sync names d = (if \<not> bd_isOpen d then Err ErrIllegalState else Ok (), d)"
  by (simp add: bd_Sync_def EnsureOpen_def)

lemma close_refines:
  "bd_Close d = (Ok (), snd (bd_Close d)) \<and> \<not> bd_isOpen (snd (bd_Close d)) \<and> (bd_isOpen d \<longrightarrow> bd_abs (snd (bd_Close d)) = Map.empty)"
  by (simp add: bd_Close_def bd_abs_def fun_eq_iff)

section \<open>Properties\<close>

text \<open>
  C13: in every reachable directory, names are unique, no two names share a file, every
  file address is allocated, each listed file carries the name it is listed under, and
  the open-handle counts are positive.
\<close>

theorem directory_invariant:
  assumes "bd_reachable d"
  shows "bd_wf d"
  using assms by (rule bd_reachable_wf)

theorem directory_invariant_witness:
  "bd_wf (snd (bd_CreateOutput [97] NewByteBuffersDirectory))"
  by (rule directory_invariant, rule bd_reachable.create [OF bd_reachable.new]) (rule surjective_pairing)





text \<open>
  C16: \<open>Slice\<close> of a chunked input, for every chunking and every pair of \<open>int64\<close> arguments.  A
  range within the file gives a well-formed input that holds exactly the requested bytes
  of its parent, and counts one more open handle.  A negative offset or length, and a range
  that ends behind the file, are refused and change nothing, as long as the sum of offset
  and length fits into an \<open>int64\<close>.  When it overflows, the guard lets the call pass and the handle
  is counted; the call panics, except that an offset in the second chunk gives
  an input without any bytes.
\<close>

theorem input_slice:
  assumes "bbi_ok (d, inp)" "bbi_length inp < 2 ^ 63"
    and "- (2 ^ 63) \<le> offset" "offset < 2 ^ 63" "- (2 ^ 63) \<le> len" "len < 2 ^ 63"
  shows "if offset < 0 \<or> len < 0 \<or> (bbi_length inp < offset + len \<and> offset + len < 2 ^ 63)
     then bbi_Slice offset len (d, inp) = (Err (Errorf ''invalid slice parameters''), (d, inp))
     else if offset + len \<le> bbi_length inp
     then \<exists>inp'. bbi_Slice offset len (d, inp) = (Ok inp', (AddOpenFile (bbi_name inp) d, inp))
        \<and> bbi_ok (d, inp') \<and> bbi_rest (d, inp') = take (nat len) (drop (nat offset) (bbi_bytes (d, inp)))
     else if 2 ^ 63 < offset + len \<and> chunk_index (bbi_cumLens inp) offset = 1
     then bbi_Slice offset len (d, inp) = (Ok (newByteBuffersIndexInput [] (bbi_name inp)), (AddOpenFile (bbi_name inp) d, inp))
     else \<exists>p. bbi_Slice offset len (d, inp) = (Panic p, (AddOpenFile (bbi_name inp) d, inp))"
proof -
  have w: "chunks_ok (bbi_chunks inp)" "bbi_cumLens inp = cum_lens 0 (bbi_chunks inp)"
      "bbi_length inp = int (length (concat (bbi_chunks inp)))" "bd_isOpen d"
    using assms(1) by (simp_all add: bbi_ok_def bbi_wf_def)
  show ?thesis
  proof (cases "offset < 0 \<or> len < 0 \<or> (bbi_length inp < offset + len \<and> offset + len < 2 ^ 63)")
    case True
    then have "offset < 0 \<or> len < 0 \<or> bbi_length inp < wrap64 (offset + len)"
      by (cases "offset < 0 \<or> len < 0") auto
    then show ?thesis using True by (simp add: bbi_Slice_def)
  next
    case nonneg: False
    show ?thesis
    proof (cases "offset + len \<le> bbi_length inp")
      case True
      obtain cs' where cs': "buildChunksFromSlice (bbi_chunks inp) (bbi_cumLens inp) offset len = Ok cs'" "chunks_ok cs'"
          "concat cs' = take (nat len) (drop (nat offset) (concat (bbi_chunks inp)))"
        using buildChunksFromSlice_flat [OF w(1), of offset len] nonneg True w(2,3) assms(2) by (metis not_le)
      let ?inp = "newByteBuffersIndexInput cs' (bbi_name inp)"
      have "bbi_ok (d, ?inp)" "bbi_rest (d, ?inp) = take (nat len) (drop (nat offset) (bbi_bytes (d, inp)))"
        using cs' w(4) by (simp_all add: bbi_ok_def bbi_wf_def bbi_rest_def bbi_bytes_def newByteBuffersIndexInput_def)
      then show ?thesis using nonneg True cs'(1) assms(2) by (simp add: bbi_Slice_def Let_def)
    next
      case False
      then have o: "0 \<le> offset" "0 \<le> len" "2 ^ 63 \<le> offset + len" using nonneg by auto
      then have "wrap64 (offset + len) \<le> bbi_length inp" using assms(4,6) w(3) wrap64_over [of "offset + len"] by simp
      moreover note buildChunksFromSlice_overflow [OF w(1) assms(2) [unfolded w(3)] o(1) assms(4) o(2) assms(6) o(3)]
      ultimately show ?thesis using o False nonneg by (auto simp: bbi_Slice_def Let_def w(2))
    qed
  qed
qed

text \<open>
  On the chunks \<open>[1, 2], [3, 4], [5]\<close>: a slice across a border, two ranges that are too long,
  and two whose end overflows.
\<close>

theorem input_slice_witness:
  "let s = (NewByteBuffersDirectory, newByteBuffersIndexInput [[1, 2], [3, 4], [5]] [97])
   in (\<exists>inp' d'. bbi_Slice 1 3 s = (Ok inp', (d', snd s)) \<and> bbi_rest (fst s, inp') = [2, 3, 4])
     \<and> fst (bbi_Slice 4 2 s) = Err (Errorf ''invalid slice parameters'')
     \<and> fst (bbi_Slice 0 (2 ^ 63 - 1) s) = Err (Errorf ''invalid slice parameters'')
     \<and> (\<exists>p. fst (bbi_Slice (2 ^ 63 - 1) 1 s) = Panic p)
     \<and> fst (bbi_Slice 3 (2 ^ 63 - 1) s) = Ok (newByteBuffersIndexInput [] [97])"
proof -
  let ?d = NewByteBuffersDirectory and ?inp = "newByteBuffersIndexInput [[1, 2], [3, 4], [5]] [97]"
  have ok: "bbi_ok (?d, ?inp)" "bbi_length ?inp < 2 ^ 63"
    by (simp_all add: bbi_ok_def bbi_wf_def newByteBuffersIndexInput_def chunks_ok_def NewByteBuffersDirectory_def)
  have i: "chunk_index (bbi_cumLens ?inp) 3 = 1" by code_simp
  note sl = input_slice [OF ok]
  show ?thesis
    using sl [of 1 3] sl [of 4 2] sl [of "2 ^ 63 - 1" 1] sl [of 0 "2 ^ 63 - 1"] sl [of 3 "2 ^ 63 - 1"] i
    by (auto simp: newByteBuffersIndexInput_def bbi_bytes_def)
qed

text \<open>
  \<open>SkipBytes\<close> of the in-memory input reports success and moves the file pointer,
  but not the position the reads use: the next \<open>ReadByte\<close> returns the byte that should
  have been skipped and sets the file pointer back.
\<close>

theorem input_skip_ineffective:
  assumes "bbi_ok (d, inp)" "0 \<le> n" "bbi_position inp + n \<le> bbi_length inp" "bbi_position inp < bbi_length inp" "bbi_length inp < 2 ^ 63"
  shows "\<exists>s1 s2. bbi_SkipBytes n (d, inp) = (Ok (), s1) \<and> bbi_GetFilePointer s1 = bbi_position inp + n
     \<and> bbi_ReadByte s1 = (Ok (bbi_bytes (d, inp) ! nat (bbi_position inp)), s2)
     \<and> bbi_GetFilePointer s2 = bbi_position inp + 1"
proof -
  let ?i = "inp\<lparr>bbi_filePointer := bbi_position inp + n\<rparr>"
  note r = bbi_restD [OF assms(1)]
  have f: "bbi_filePointer inp = bbi_position inp" using r(5) by (simp add: bbi_wf_def)
  have "readByteAt ?i (bbi_position inp) = readByteAt inp (bbi_position inp)"
    by (simp add: readByteAt_def findChunk_def)
  then have "readByteAt ?i (bbi_position inp) = Ok (concat (bbi_chunks inp) ! nat (bbi_position inp))"
    using readByteAt_flat [OF r(5,2) assms(4)] by simp
  moreover have "wrap64 (bbi_position inp + n) = bbi_position inp + n" using assms(2,3,5) r(2) by (intro wrap64_id) auto
  ultimately show ?thesis using assms(2-4) r(6) f
    by (simp add: bbi_SkipBytes_def bbi_ReadByte_def bbi_GetFilePointer_def bbi_bytes_def)
qed

theorem input_skip_ineffective_witness:
  "\<exists>s1 s2. bbi_SkipBytes 2 (NewByteBuffersDirectory, newByteBuffersIndexInput [[1, 2, 3]] []) = (Ok (), s1)
     \<and> bbi_GetFilePointer s1 = 2 \<and> bbi_ReadByte s1 = (Ok 1, s2) \<and> bbi_GetFilePointer s2 = 1"
proof -
  let ?inp = "newByteBuffersIndexInput [[1, 2, 3]] []"
  have "bbi_ok (NewByteBuffersDirectory, ?inp)"
    by (simp add: bbi_ok_def bbi_wf_def newByteBuffersIndexInput_def chunks_ok_def NewByteBuffersDirectory_def)
  from input_skip_ineffective [OF this, of 2] show ?thesis
    by (simp add: newByteBuffersIndexInput_def bbi_bytes_def)
qed

end
