(* ===== verification/Digests.thy ===== *)
theory Digests
  imports Group_VInt
begin

text \<open>
  The checksum algorithms of the index streams: CRC-32 (the polynomial of
  \<^verbatim>\<open>hash/crc32\<close>, \<open>NewIEEE\<close>), Adler-32 (\<^verbatim>\<open>hash/adler32\<close>), and the two xxHash
  variants of \<^verbatim>\<open>spi/xxhash.go\<close>.  The first two are standard-library code: the
  model is the running state their \<open>Write\<close> keeps and the value \<open>Sum32\<close> returns.

  The lemmas show that the CRC update is a bijection on states, and from this that
  no corruption confined to four consecutive bytes keeps the checksum; and that
  \<open>Sum32\<close> of the xxHash object consumes the object's buffer.
\<close>

section \<open>CRC-32\<close>

definition crc_poly :: u32 where "crc_poly = 0xEDB88320"

text \<open>One bit and one byte of the reflected CRC.\<close>

definition crc_bit :: "u32 \<Rightarrow> u32" where
  "crc_bit x = drop_bit 1 x XOR (if bit x 0 then crc_poly else 0)"

definition crc_byte :: "u32 \<Rightarrow> u8 \<Rightarrow> u32" where
  "crc_byte c b = (crc_bit ^^ 8) (c XOR ucast b)"

definition crc_Update :: "u32 \<Rightarrow> u8 list \<Rightarrow> u32" where
  "crc_Update crc p = NOT (foldl crc_byte (NOT crc) p)"

section \<open>Adler-32\<close>

definition adler_byte :: "nat \<times> nat \<Rightarrow> u8 \<Rightarrow> nat \<times> nat" where
  "adler_byte s x = (case s of (s1, s2) \<Rightarrow>
     let s1' = (s1 + unat x) mod 65521 in (s1', (s2 + s1') mod 65521))"

definition adler_Sum32 :: "nat \<times> nat \<Rightarrow> u32" where
  "adler_Sum32 s = (case s of (s1, s2) \<Rightarrow> push_bit 16 (of_nat s2) OR of_nat s1)"

section \<open>xxHash32\<close>

record xxHash32 =
  xx_state :: u32
  xx_seed :: u32
  xx_buffer :: "u8 list"
  xx_length :: int

definition xxHash32Prime1 :: u32 where "xxHash32Prime1 = 2654435761"
definition xxHash32Prime2 :: u32 where "xxHash32Prime2 = 2246822519"
definition xxHash32Prime3 :: u32 where "xxHash32Prime3 = 3266489917"
definition xxHash32Prime5 :: u32 where "xxHash32Prime5 = 374761393"

definition xx_Reset :: "xxHash32 \<Rightarrow> xxHash32" where
  "xx_Reset h = h\<lparr>xx_state := xx_seed h + xxHash32Prime1 + xxHash32Prime2, xx_buffer := [], xx_length := 0\<rparr>"

definition NewXXHash32WithSeed :: "u32 \<Rightarrow> xxHash32" where
  "NewXXHash32WithSeed seed = xx_Reset \<lparr>xx_state = 0, xx_seed = seed, xx_buffer = [], xx_length = 0\<rparr>"

definition NewXXHash32 :: xxHash32 where
  "NewXXHash32 = NewXXHash32WithSeed 0"

definition xx_Write :: "u8 list \<Rightarrow> xxHash32 \<Rightarrow> xxHash32" where
  "xx_Write p h = h\<lparr>xx_buffer := xx_buffer h @ p, xx_length := xx_length h + int (length p)\<rparr>"

definition xxHash32Round :: "u32 \<Rightarrow> u32 \<Rightarrow> u32" where
  "xxHash32Round state chunk =
     (let s1 = state + chunk * xxHash32Prime3;
          s2 = push_bit 13 s1 OR drop_bit 19 s1
      in s2 * xxHash32Prime1)"

text \<open>The chunk loop returns the state and what is left of the buffer.\<close>

fun xx_chunks :: "u32 \<Rightarrow> u8 list \<Rightarrow> u32 \<times> u8 list" where
  "xx_chunks state (a # b # c # d # rest) = xx_chunks (xxHash32Round state (le_val [a, b, c, d])) rest"
| "xx_chunks state buf = (state, buf)"

definition xx_tail :: "u32 \<Rightarrow> u8 \<Rightarrow> u32" where
  "xx_tail result b =
     (let r1 = result + ucast b * xxHash32Prime5;
          r2 = push_bit 11 r1 OR drop_bit 21 r1
      in r2 * xxHash32Prime1)"

definition xx_mix :: "u32 \<Rightarrow> u32" where
  "xx_mix result =
     (let r1 = result XOR drop_bit 15 result;
          r2 = r1 * xxHash32Prime2;
          r3 = r2 XOR drop_bit 13 r2;
          r4 = r3 * xxHash32Prime3
      in r4 XOR drop_bit 16 r4)"

definition xx_Sum32 :: "xxHash32 \<Rightarrow> u32 \<times> xxHash32" where
  "xx_Sum32 h =
     (if xx_length h = 0 then (xx_seed h + xxHash32Prime5, h)
      else let (state, buf) = xx_chunks (xx_state h) (xx_buffer h);
               result = foldl xx_tail (state + word_of_int (xx_length h)) buf
           in (xx_mix result, h\<lparr>xx_buffer := buf\<rparr>))"

definition xx_Sum :: "u8 list \<Rightarrow> xxHash32 \<Rightarrow> u8 list \<times> xxHash32" where
  "xx_Sum b h = (let (s, h') = xx_Sum32 h
     in (b @ [ucast (drop_bit 24 s), ucast (drop_bit 16 s), ucast (drop_bit 8 s), ucast s], h'))"

section \<open>xxHash64\<close>

record xxHash64 =
  xl_state :: u64
  xl_seed :: u64
  xl_buffer :: "u8 list"
  xl_length :: int

definition xxHash64Prime1 :: u64 where "xxHash64Prime1 = 11400714785074694791"
definition xxHash64Prime2 :: u64 where "xxHash64Prime2 = 14029467366897019727"
definition xxHash64Prime3 :: u64 where "xxHash64Prime3 = 1609587929392839161"
definition xxHash64Prime5 :: u64 where "xxHash64Prime5 = 2870177450012600261"

definition xl_Reset :: "xxHash64 \<Rightarrow> xxHash64" where
  "xl_Reset h = h\<lparr>xl_state := xl_seed h + xxHash64Prime1 + xxHash64Prime2, xl_buffer := [], xl_length := 0\<rparr>"

definition NewXXHash64WithSeed :: "u64 \<Rightarrow> xxHash64" where
  "NewXXHash64WithSeed seed = xl_Reset \<lparr>xl_state = 0, xl_seed = seed, xl_buffer = [], xl_length = 0\<rparr>"

definition NewXXHash64 :: xxHash64 where
  "NewXXHash64 = NewXXHash64WithSeed 0"

definition xl_Write :: "u8 list \<Rightarrow> xxHash64 \<Rightarrow> xxHash64" where
  "xl_Write p h = h\<lparr>xl_buffer := xl_buffer h @ p, xl_length := xl_length h + int (length p)\<rparr>"

definition xxHash64Round :: "u64 \<Rightarrow> u64 \<Rightarrow> u64" where
  "xxHash64Round state chunk =
     (let s1 = state + chunk * xxHash64Prime3;
          s2 = push_bit 13 s1 OR drop_bit 51 s1
      in s2 * xxHash64Prime1)"

fun xl_chunks :: "u64 \<Rightarrow> u8 list \<Rightarrow> u64 \<times> u8 list" where
  "xl_chunks state (a # b # c # d # e # f # g # h # rest) =
     xl_chunks (xxHash64Round state (le_val [a, b, c, d, e, f, g, h])) rest"
| "xl_chunks state buf = (state, buf)"

definition xl_tail :: "u64 \<Rightarrow> u8 \<Rightarrow> u64" where
  "xl_tail result b =
     (let r1 = result + ucast b * xxHash64Prime5;
          r2 = push_bit 27 r1 OR drop_bit 37 r1
      in r2 * xxHash64Prime1)"

definition xl_mix :: "u64 \<Rightarrow> u64" where
  "xl_mix result =
     (let r1 = result XOR drop_bit 33 result;
          r2 = r1 * xxHash64Prime2;
          r3 = r2 XOR drop_bit 29 r2;
          r4 = r3 * xxHash64Prime3
      in r4 XOR drop_bit 32 r4)"

definition xl_Sum64 :: "xxHash64 \<Rightarrow> u64 \<times> xxHash64" where
  "xl_Sum64 h =
     (if xl_length h = 0 then (xl_seed h + xxHash64Prime5, h)
      else let (state, buf) = xl_chunks (xl_state h) (xl_buffer h);
               result = foldl xl_tail (state + word_of_int (xl_length h)) buf
           in (xl_mix result, h\<lparr>xl_buffer := buf\<rparr>))"

definition xl_Sum32 :: "xxHash64 \<Rightarrow> u32 \<times> xxHash64" where
  "xl_Sum32 h = (case xl_Sum64 h of (s, h') \<Rightarrow> (ucast s, h'))"

definition xl_Sum :: "u8 list \<Rightarrow> xxHash64 \<Rightarrow> u8 list \<times> xxHash64" where
  "xl_Sum b h = (let (s, h') = xl_Sum64 h
     in (b @ map (\<lambda>k. ucast (drop_bit k s)) [56, 48, 40, 32, 24, 16, 8, 0], h'))"

section \<open>The digest of a stream\<close>

text \<open>
  \<open>hash.Hash32\<close> as the streams use it: one constructor per algorithm they create.
\<close>

datatype digest = DigAdler "nat \<times> nat" | DigCRC u32 | DigXX xxHash32

fun digest_Write :: "u8 list \<Rightarrow> digest \<Rightarrow> digest" where
  "digest_Write p (DigAdler s) = DigAdler (foldl adler_byte s p)"
| "digest_Write p (DigCRC c) = DigCRC (crc_Update c p)"
| "digest_Write p (DigXX h) = DigXX (xx_Write p h)"

fun digest_Sum32 :: "digest \<Rightarrow> u32 \<times> digest" where
  "digest_Sum32 (DigAdler s) = (adler_Sum32 s, DigAdler s)"
| "digest_Sum32 (DigCRC c) = (c, DigCRC c)"
| "digest_Sum32 (DigXX h) = (case xx_Sum32 h of (v, h') \<Rightarrow> (v, DigXX h'))"

section \<open>The CRC as a linear map\<close>

lemma crc_bit_xor: "crc_bit (x XOR y) = crc_bit x XOR crc_bit y"
proof -
  have "drop_bit 1 (x XOR y) = drop_bit 1 x XOR drop_bit 1 y" by simp
  then show ?thesis
    by (simp add: crc_bit_def bit_xor_iff ac_simps del: drop_bit_xor)
qed

lemma crc_bits_xor: "(crc_bit ^^ n) (x XOR y) = (crc_bit ^^ n) x XOR (crc_bit ^^ n) y"
  by (induction n) (simp_all add: crc_bit_xor)

lemma bit_crc_bit_31: "bit (crc_bit x) 31 \<longleftrightarrow> bit x 0"
  by (auto simp: crc_bit_def bit_simps crc_poly_def dest: bit_imp_le_length)

lemma xor_eq_0: "(x :: 'w::len word) XOR y = 0 \<longleftrightarrow> x = y"
  by (auto simp: bit_eq_iff bit_xor_iff)

lemma xor_left_cancel: "(a :: 'w::len word) XOR x = a XOR y \<longleftrightarrow> x = y"
  by (auto simp: bit_eq_iff bit_xor_iff)

lemma xor_right_cancel: "(x :: 'w::len word) XOR a = y XOR a \<longleftrightarrow> x = y"
  by (auto simp: bit_eq_iff bit_xor_iff)

lemma crc_bit_zero: "crc_bit x = 0 \<longleftrightarrow> x = 0"
proof
  assume z: "crc_bit x = 0"
  then have b: "\<not> bit x 0" using bit_crc_bit_31 [of x] by simp
  with z have d: "drop_bit 1 x = 0" by (simp add: crc_bit_def)
  have "\<not> bit x k" for k
    using b arg_cong [OF d, of "\<lambda>w. bit w (k - 1)"] by (cases k) (simp_all add: bit_simps)
  then show "x = 0" by (simp add: bit_eq_iff)
qed (simp add: crc_bit_def)

lemma crc_bits_zero: "(crc_bit ^^ n) x = 0 \<longleftrightarrow> x = 0"
  by (induction n) (simp_all add: crc_bit_zero)

lemma crc_bits_inj: "(crc_bit ^^ n) x = (crc_bit ^^ n) y \<longleftrightarrow> x = y"
  using crc_bits_zero [of n "x XOR y"] by (simp add: crc_bits_xor xor_eq_0)

text \<open>Shifting zero bits out does not use the polynomial.\<close>

lemma crc_bits_shift: "take_bit n x = 0 \<Longrightarrow> (crc_bit ^^ n) x = drop_bit n x"
proof (induction n)
  case (Suc n)
  have z: "\<not> bit x k" if "k < Suc n" for k
    using arg_cong [OF Suc.prems, of "\<lambda>w. bit w k"] that by (simp add: bit_simps)
  have "take_bit n x = 0" using z by (auto simp: bit_eq_iff bit_simps)
  then have "(crc_bit ^^ Suc n) x = crc_bit (drop_bit n x)" by (simp add: Suc.IH)
  also have "\<dots> = drop_bit 1 (drop_bit n x)" using z [of n] by (simp add: crc_bit_def bit_simps)
  finally show ?case by simp
qed simp

text \<open>
  The state after at most four bytes: the bytes enter as one little-endian word,
  and all their bits are then shifted through.
\<close>

lemma crc_word:
  "length x \<le> 4 \<Longrightarrow> foldl crc_byte c x = (crc_bit ^^ (8 * length x)) (c XOR le_val x)"
proof (induction x arbitrary: c)
  case (Cons b x)
  let ?v = "le_val x :: u32"
  have hi: "k < 24" if "bit ?v k" for k
  proof -
    have "k div 8 < length x" using that unfolding bit_le_val by simp
    then show ?thesis using Cons.prems by (simp add: div_less_iff_less_mult)
  qed
  have "take_bit 8 (push_bit 8 ?v) = 0" by (auto simp: bit_eq_iff bit_simps)
  then have "(crc_bit ^^ 8) (push_bit 8 ?v) = drop_bit 8 (push_bit 8 ?v)" by (rule crc_bits_shift)
  also have "\<dots> = ?v" by (auto simp: bit_eq_iff bit_simps dest: hi)
  finally have p: "(crc_bit ^^ 8) (push_bit 8 ?v) = ?v" .
  have "(ucast b OR push_bit 8 ?v :: u32) = ucast b XOR push_bit 8 ?v"
    by (auto simp: bit_eq_iff bit_simps dest: bit_imp_le_length)
  then have "c XOR le_val (b # x) = (c XOR ucast b) XOR push_bit 8 ?v" by (simp only: le_val_simps xor.assoc)
  then have w: "(crc_bit ^^ 8) (c XOR le_val (b # x)) = crc_byte c b XOR ?v"
    by (simp only: crc_bits_xor [of 8 "c XOR ucast b"] p crc_byte_def)
  have "foldl crc_byte c (b # x) = (crc_bit ^^ (8 * length x)) (crc_byte c b XOR ?v)"
    using Cons by simp
  also have "\<dots> = (crc_bit ^^ (8 * length x + 8)) (c XOR le_val (b # x))"
    by (simp only: funpow_add comp_apply w)
  also have "8 * length x + 8 = 8 * length (b # x)" by simp
  finally show ?case .
qed simp

lemma le_val_inj: "length x = length y \<Longrightarrow> length x \<le> 4 \<Longrightarrow> (le_val x :: u32) = le_val y \<Longrightarrow> x = y"
proof (rule nth_equalityI)
  fix i assume l: "length x = length y" "length x \<le> 4" "(le_val x :: u32) = le_val y" "i < length x"
  show "x ! i = y ! i"
  proof (rule bit_word_eqI)
    fix k assume "k < LENGTH(8)"
    then show "bit (x ! i) k = bit (y ! i) k"
      using arg_cong [OF l(3), of "\<lambda>w. bit w (8 * i + k)", unfolded bit_le_val] l(1,2,4) by simp
  qed
qed

lemma crc_byte_inj: "crc_byte c b = crc_byte d b \<longleftrightarrow> c = d"
  by (simp add: crc_byte_def crc_bits_inj xor_right_cancel)

lemma crc_bytes_inj: "foldl crc_byte c p = foldl crc_byte d p \<longleftrightarrow> c = d"
  by (induction p arbitrary: c d) (simp_all add: crc_byte_inj)

lemma crc_Update_append: "crc_Update (crc_Update c p) q = crc_Update c (p @ q)"
  by (simp add: crc_Update_def)

lemma crc_Update_Nil [simp]: "crc_Update c [] = c"
  by (simp add: crc_Update_def)

section \<open>The chunk loop of xxHash32\<close>

lemma xx_chunks_rest: "snd (xx_chunks st buf) = drop (length buf - length buf mod 4) buf"
proof (induction st buf rule: xx_chunks.induct)
  case (1 st a b c d rest)
  have "length (a # b # c # d # rest) = length rest + 4" by simp
  then have "length (a # b # c # d # rest) - length (a # b # c # d # rest) mod 4
      = 4 + (length rest - length rest mod 4)"
    using mod_less_eq_dividend [of "length rest" 4] by (simp only: mod_add_self2)
  then have "drop (length (a # b # c # d # rest) - length (a # b # c # d # rest) mod 4) (a # b # c # d # rest)
      = drop (length rest - length rest mod 4) rest"
    by (simp only: drop_drop [symmetric] add.commute [of 4]) simp
  then show ?case by (simp only: xx_chunks.simps 1)
qed simp_all

lemma xx_chunks_short: "length buf < 4 \<Longrightarrow> xx_chunks st buf = (st, buf)"
  by (cases "(st, buf)" rule: xx_chunks.cases) simp_all

text \<open>
  Two byte strings that differ only inside a window of at most four consecutive bytes
  have different CRC-32 values.
\<close>

lemma crc_burst:
  assumes "length x = length y" "length x \<le> 4" "x \<noteq> y"
  shows "crc_Update c (pre @ x @ post) \<noteq> crc_Update c (pre @ y @ post)"
proof
  assume "crc_Update c (pre @ x @ post) = crc_Update c (pre @ y @ post)"
  then have "foldl crc_byte (foldl crc_byte (NOT c) pre) x = foldl crc_byte (foldl crc_byte (NOT c) pre) y"
    by (simp add: crc_Update_def crc_bytes_inj)
  then have "(le_val x :: u32) = le_val y"
    using assms(1,2) by (simp add: crc_word crc_bits_inj xor_left_cancel)
  then show False using le_val_inj assms by blast
qed

section \<open>Properties\<close>

text \<open>
  \<open>Sum32\<close> of an xxHash32 object destroys it: the full chunks leave the buffer but
  the state they produced is not kept, so the next \<open>Sum32\<close> hashes only the bytes
  after the last full chunk, and returns another value.
\<close>

theorem xxhash_sum_consumes:
  "(xx_length h \<noteq> 0 \<longrightarrow>
      fst (xx_Sum32 (snd (xx_Sum32 h)))
        = xx_mix (foldl xx_tail (xx_state h + word_of_int (xx_length h))
            (drop (length (xx_buffer h) - length (xx_buffer h) mod 4) (xx_buffer h))))
   \<and> (let h4 = xx_Write [1, 2, 3, 4] NewXXHash32
      in fst (xx_Sum32 (snd (xx_Sum32 h4))) \<noteq> fst (xx_Sum32 h4))"
proof (rule conjI)
  show "xx_length h \<noteq> 0 \<longrightarrow> fst (xx_Sum32 (snd (xx_Sum32 h)))
        = xx_mix (foldl xx_tail (xx_state h + word_of_int (xx_length h))
            (drop (length (xx_buffer h) - length (xx_buffer h) mod 4) (xx_buffer h)))"
  proof
    assume l: "xx_length h \<noteq> 0"
    let ?r = "drop (length (xx_buffer h) - length (xx_buffer h) mod 4) (xx_buffer h)"
    have "snd (xx_Sum32 h) = h\<lparr>xx_buffer := ?r\<rparr>"
      using l xx_chunks_rest [of "xx_state h" "xx_buffer h"] by (auto simp: xx_Sum32_def split: prod.split)
    moreover have "length ?r < 4" by simp
    ultimately show "fst (xx_Sum32 (snd (xx_Sum32 h))) = xx_mix (foldl xx_tail (xx_state h + word_of_int (xx_length h)) ?r)"
      using l by (simp add: xx_Sum32_def xx_chunks_short)
  qed
  show "let h4 = xx_Write [1, 2, 3, 4] NewXXHash32 in fst (xx_Sum32 (snd (xx_Sum32 h4))) \<noteq> fst (xx_Sum32 h4)"
    by code_simp
qed

theorem xxhash_sum_consumes_witness:
  "fst (xx_Sum32 (snd (xx_Sum32 (xx_Write [1, 2, 3, 4, 5] NewXXHash32))))
     = xx_mix (foldl xx_tail (xx_state NewXXHash32 + 5) [5])"
  using xxhash_sum_consumes [of "xx_Write [1, 2, 3, 4, 5] NewXXHash32"]
  by (simp add: xx_Write_def NewXXHash32_def NewXXHash32WithSeed_def xx_Reset_def)

end
