(* ===== verification/Checksum_IO.thy ===== *)
theory Checksum_IO
  imports Byte_Buffers_Directory Digests
begin

text \<open>
  The checksumming streams of \<^verbatim>\<open>spi/checksum_index.go\<close>.  Both wrap another stream:
  the wrapped input and output are the records \<open>index_input\<close> and \<open>index_output\<close> of
  their methods, over a state that is a pair of what all streams share (the
  directory) and the stream object itself.

  Locales \<open>index_reader\<close> and \<open>index_source\<close> are what the wrapped input promises; they are interpreted on the
  input of the in-memory directory.  Inside it the checksumming input is shown to be
  a byte source again, with the invariant that its digest is the CRC-32 of all bytes
  before the file pointer.  The output is treated in the same way over \<open>byte_sink\<close>.
\<close>

section \<open>The wrapped interfaces\<close>

record ('g, 'i) index_input =
  ii_core :: "('g \<times> 'i) input_core"
  ii_ReadString :: "('g \<times> 'i, gostring) ract"
  ii_GetFilePointer :: "'g \<times> 'i \<Rightarrow> int"
  ii_Length :: "'g \<times> 'i \<Rightarrow> int"
  ii_SetPosition :: "int \<Rightarrow> ('g \<times> 'i, unit) act"
  ii_Clone :: "'g \<times> 'i \<Rightarrow> 'g \<times> 'i"
  ii_Slice :: "int \<Rightarrow> int \<Rightarrow> ('g \<times> 'i, 'i) act"
  ii_Close :: "'g \<times> 'i \<Rightarrow> 'g \<times> 'i"

record ('g, 'o) index_output =
  io_primitive :: "('g \<times> 'o) prim_writer"
  io_GetName :: "'g \<times> 'o \<Rightarrow> gostring"
  io_Length :: "'g \<times> 'o \<Rightarrow> int"
  io_SetPosition :: "int \<Rightarrow> ('g \<times> 'o, unit) act"
  io_Close :: "'g \<times> 'o \<Rightarrow> 'g \<times> 'o"

section \<open>Checksum types\<close>

type_synonym ChecksumType = int

definition ChecksumAdler32 :: ChecksumType where "ChecksumAdler32 = 0"
definition ChecksumCRC32 :: ChecksumType where "ChecksumCRC32 = 1"
definition ChecksumXXHash32 :: ChecksumType where "ChecksumXXHash32 = 2"
definition ChecksumXXHash64 :: ChecksumType where "ChecksumXXHash64 = 3"

definition ChecksumType_String :: "ChecksumType \<Rightarrow> string" where
  "ChecksumType_String c =
     (if c = ChecksumAdler32 then ''Adler32'' else if c = ChecksumCRC32 then ''CRC32''
      else if c = ChecksumXXHash32 then ''XXHash32'' else if c = ChecksumXXHash64 then ''XXHash64''
      else ''Unknown'')"

text \<open>The switch of both constructors and of \<open>cloneDigest\<close>.\<close>

definition newDigest :: "ChecksumType \<Rightarrow> digest" where
  "newDigest checksumType =
     (if checksumType = ChecksumAdler32 then DigAdler (1, 0)
      else if checksumType = ChecksumCRC32 then DigCRC 0
      else if checksumType = ChecksumXXHash32 then DigXX NewXXHash32
      else DigCRC 0)"

definition ErrInvalidBuffer :: go_error where "ErrInvalidBuffer = Errorf ''invalid buffer''"

section \<open>ChecksumIndexInput\<close>

text \<open>\<open>ci_filePointer\<close> is the file pointer of the embedded \<open>BaseIndexInput\<close>.\<close>

record 'i ChecksumIndexInput =
  ci_input :: 'i
  ci_digest :: digest
  ci_checksum :: ChecksumType
  ci_filePointer :: int

definition NewChecksumIndexInputWithType :: "'i \<Rightarrow> ChecksumType \<Rightarrow> 'i ChecksumIndexInput" where
  "NewChecksumIndexInputWithType input checksumType =
     \<lparr>ci_input = input, ci_digest = newDigest checksumType, ci_checksum = checksumType, ci_filePointer = 0\<rparr>"

definition NewChecksumIndexInput :: "'i \<Rightarrow> 'i ChecksumIndexInput" where
  "NewChecksumIndexInput input = NewChecksumIndexInputWithType input ChecksumCRC32"

text \<open>A call of the wrapped input.\<close>

definition on_input :: "('g \<times> 'i, 'a) act \<Rightarrow> ('g \<times> 'i ChecksumIndexInput, 'a) act" where
  "on_input m s = (case s of (g, c) \<Rightarrow>
     case m (g, ci_input c) of (r, (g', i')) \<Rightarrow> (r, (g', c\<lparr>ci_input := i'\<rparr>)))"

text \<open>\<open>digest.Write(p)\<close> and the move of the file pointer by \<open>n\<close>.\<close>

definition ci_update :: "u8 list \<Rightarrow> int \<Rightarrow> ('g \<times> 'i ChecksumIndexInput, unit) act" where
  "ci_update p n s = (case s of (g, c) \<Rightarrow>
     (Ok (), (g, c\<lparr>ci_digest := digest_Write p (ci_digest c), ci_filePointer := ci_filePointer c + n\<rparr>)))"

definition ci_ReadByte :: "('g, 'i) index_input \<Rightarrow> ('g \<times> 'i ChecksumIndexInput, u8) act" where
  "ci_ReadByte I = bind_act (on_input (ic_ReadByte (ii_core I))) (\<lambda>b. seq_act (ci_update [b] 1) (ret_act b))"

definition ci_ReadBytes :: "('g, 'i) index_input \<Rightarrow> u8 list \<Rightarrow> int \<Rightarrow> int \<Rightarrow> ('g \<times> 'i ChecksumIndexInput, u8 list) act" where
  "ci_ReadBytes I b offset len =
     bind_act (on_input (ic_ReadBytes (ii_core I) b offset len)) (\<lambda>b'.
     bind_act (lift_out (subslice b' offset (offset + len))) (\<lambda>p.
     seq_act (ci_update p len) (ret_act b')))"

definition ci_ReadBytesN :: "('g, 'i) index_input \<Rightarrow> int \<Rightarrow> ('g \<times> 'i ChecksumIndexInput, u8 list) act" where
  "ci_ReadBytesN I n =
     (if n < 0 then lift_out (Panic ''makeslice: len out of range'')
      else ci_ReadBytes I (replicate (nat n) 0) 0 n)"

definition ci_ReadShort :: "('g, 'i) index_input \<Rightarrow> ('g \<times> 'i ChecksumIndexInput, i16) act" where
  "ci_ReadShort I = bind_act (ci_ReadBytesN I 2) (\<lambda>b. ret_act (le_val b))"

definition ci_ReadInt :: "('g, 'i) index_input \<Rightarrow> ('g \<times> 'i ChecksumIndexInput, i32) act" where
  "ci_ReadInt I = bind_act (ci_ReadBytesN I 4) (\<lambda>b. ret_act (le_val b))"

definition ci_ReadLong :: "('g, 'i) index_input \<Rightarrow> ('g \<times> 'i ChecksumIndexInput, i64) act" where
  "ci_ReadLong I = bind_act (ci_ReadBytesN I 8) (\<lambda>b. ret_act (le_val b))"

definition ci_GetFilePointer :: "'g \<times> 'i ChecksumIndexInput \<Rightarrow> int" where
  "ci_GetFilePointer s = ci_filePointer (snd s)"

text \<open>The loop of \<open>SkipBytes\<close> over its buffer of 1024 bytes.\<close>

function ci_skip_loop :: "('g, 'i) index_input \<Rightarrow> int \<Rightarrow> u8 list \<Rightarrow> ('g \<times> 'i ChecksumIndexInput, unit) act" where
  "ci_skip_loop I n buffer =
     (if n > 0
      then let toRead = (if n > 1024 then 1024 else n)
           in bind_act (ci_ReadBytes I buffer 0 toRead) (\<lambda>buffer'. ci_skip_loop I (n - toRead) buffer')
      else ret_act ())"
  by pat_completeness auto
termination by (relation "measure (\<lambda>(I, n, buffer). nat n)") auto

declare ci_skip_loop.simps [simp del]

definition ci_SkipBytes :: "('g, 'i) index_input \<Rightarrow> int \<Rightarrow> ('g \<times> 'i ChecksumIndexInput, unit) act" where
  "ci_SkipBytes I n =
     (if n < 0 then fail_act (Errorf ''cannot skip negative bytes'')
      else if n = 0 then ret_act ()
      else ci_skip_loop I n (replicate 1024 0))"

definition ci_SetPosition :: "('g, 'i) index_input \<Rightarrow> int \<Rightarrow> ('g \<times> 'i ChecksumIndexInput, unit) act" where
  "ci_SetPosition I pos s =
     (let skip = pos - ci_GetFilePointer s
      in if skip < 0 then (Err (Errorf ''cannot seek backwards''), s) else ci_SkipBytes I skip s)"

definition ci_GetChecksum :: "'g \<times> 'i ChecksumIndexInput \<Rightarrow> u32 \<times> ('g \<times> 'i ChecksumIndexInput)" where
  "ci_GetChecksum s = (case s of (g, c) \<Rightarrow>
     case digest_Sum32 (ci_digest c) of (v, dg) \<Rightarrow> (v, (g, c\<lparr>ci_digest := dg\<rparr>)))"

text \<open>The error of a mismatch carries a second \<open>GetChecksum\<close>.\<close>

definition ci_VerifyChecksum :: "u32 \<Rightarrow> ('g \<times> 'i ChecksumIndexInput, unit) act" where
  "ci_VerifyChecksum expected s =
     (case ci_GetChecksum s of (v, s1) \<Rightarrow>
        if v \<noteq> expected then (Err (Errorf ''checksum verification failed''), snd (ci_GetChecksum s1))
        else (Ok (), s1))"

definition ci_Clone :: "('g, 'i) index_input \<Rightarrow> 'g \<times> 'i ChecksumIndexInput \<Rightarrow> 'g \<times> 'i ChecksumIndexInput" where
  "ci_Clone I s = (case s of (g, c) \<Rightarrow>
     case ii_Clone I (g, ci_input c) of (g', i') \<Rightarrow>
       (g', \<lparr>ci_input = i', ci_digest = newDigest (ci_checksum c), ci_checksum = ci_checksum c,
             ci_filePointer = ci_filePointer c\<rparr>))"

definition ci_Slice :: "('g, 'i) index_input \<Rightarrow> int \<Rightarrow> int \<Rightarrow> ('g \<times> 'i ChecksumIndexInput, 'i ChecksumIndexInput) act" where
  "ci_Slice I offset len s =
     bind_act (on_input (ii_Slice I offset len)) (\<lambda>i'.
       ret_act (NewChecksumIndexInputWithType i' (ci_checksum (snd s)))) s"

definition ci_Close :: "('g, 'i) index_input \<Rightarrow> 'g \<times> 'i ChecksumIndexInput \<Rightarrow> 'g \<times> 'i ChecksumIndexInput" where
  "ci_Close I s = (case s of (g, c) \<Rightarrow>
     case ii_Close I (g, ci_input c) of (g', i') \<Rightarrow> (g', c\<lparr>ci_input := i'\<rparr>))"

definition ci_Length :: "('g, 'i) index_input \<Rightarrow> 'g \<times> 'i ChecksumIndexInput \<Rightarrow> int" where
  "ci_Length I s = (case s of (g, c) \<Rightarrow> ii_Length I (g, ci_input c))"

definition ci_GetChecksumType :: "'i ChecksumIndexInput \<Rightarrow> ChecksumType" where
  "ci_GetChecksumType c = ci_checksum c"

definition ci_GetWrappedInput :: "'i ChecksumIndexInput \<Rightarrow> 'i" where
  "ci_GetWrappedInput c = ci_input c"

definition ci_core :: "('g, 'i) index_input \<Rightarrow> ('g \<times> 'i ChecksumIndexInput) input_core" where
  "ci_core I = \<lparr>ic_ReadByte = ci_ReadByte I, ic_ReadBytes = ci_ReadBytes I, ic_SkipBytes = ci_SkipBytes I\<rparr>"

text \<open>The input as an \<open>IndexInput\<close>; \<open>ReadString\<close> is the one of the embedded \<open>BaseDataInput\<close>.\<close>

definition ci_index_input :: "('g, 'i) index_input \<Rightarrow> ('g, 'i ChecksumIndexInput) index_input" where
  "ci_index_input I =
     \<lparr>ii_core = ci_core I, ii_ReadString = ReadString (ci_core I), ii_GetFilePointer = ci_GetFilePointer,
      ii_Length = ci_Length I, ii_SetPosition = ci_SetPosition I, ii_Clone = ci_Clone I,
      ii_Slice = ci_Slice I, ii_Close = ci_Close I\<rparr>"

section \<open>ChecksumIndexOutput\<close>

record 'o ChecksumIndexOutput =
  co_output :: 'o
  co_digest :: digest
  co_checksum :: ChecksumType
  co_copyBuffer :: "u8 list option"
  co_name :: gostring
  co_filePointer :: int

definition checksumCopyBufferSize :: int where "checksumCopyBufferSize = 16384"

definition NewChecksumIndexOutputWithType :: "('g, 'o) index_output \<Rightarrow> 'g \<times> 'o \<Rightarrow> ChecksumType \<Rightarrow> 'o ChecksumIndexOutput" where
  "NewChecksumIndexOutputWithType OT s checksumType =
     \<lparr>co_output = snd s, co_digest = newDigest checksumType, co_checksum = checksumType,
      co_copyBuffer = None, co_name = io_GetName OT s, co_filePointer = 0\<rparr>"

definition NewChecksumIndexOutput :: "('g, 'o) index_output \<Rightarrow> 'g \<times> 'o \<Rightarrow> 'o ChecksumIndexOutput" where
  "NewChecksumIndexOutput OT s = NewChecksumIndexOutputWithType OT s ChecksumCRC32"

definition on_output :: "('g \<times> 'o, 'a) act \<Rightarrow> ('g \<times> 'o ChecksumIndexOutput, 'a) act" where
  "on_output m s = (case s of (g, c) \<Rightarrow>
     case m (g, co_output c) of (r, (g', o')) \<Rightarrow> (r, (g', c\<lparr>co_output := o'\<rparr>)))"

definition co_update :: "u8 list \<Rightarrow> int \<Rightarrow> ('g \<times> 'o ChecksumIndexOutput, unit) act" where
  "co_update p n s = (case s of (g, c) \<Rightarrow>
     (Ok (), (g, c\<lparr>co_digest := digest_Write p (co_digest c), co_filePointer := co_filePointer c + n\<rparr>)))"

definition co_WriteByte :: "('g, 'o) index_output \<Rightarrow> u8 \<Rightarrow> ('g \<times> 'o ChecksumIndexOutput, unit) act" where
  "co_WriteByte OT b = seq_act (on_output (pw_WriteByte (io_primitive OT) b)) (co_update [b] 1)"

definition co_WriteBytes :: "('g, 'o) index_output \<Rightarrow> u8 list \<Rightarrow> int \<Rightarrow> int \<Rightarrow> ('g \<times> 'o ChecksumIndexOutput, unit) act" where
  "co_WriteBytes OT b offset len =
     seq_act (on_output (pw_WriteBytes (io_primitive OT) b offset len))
       (bind_act (lift_out (subslice b offset (offset + len))) (\<lambda>p. co_update p len))"

definition co_WriteBytesN :: "('g, 'o) index_output \<Rightarrow> u8 list \<Rightarrow> int \<Rightarrow> ('g \<times> 'o ChecksumIndexOutput, unit) act" where
  "co_WriteBytesN OT b n =
     (if n > int (length b) then fail_act ErrInvalidBuffer else co_WriteBytes OT b 0 n)"

definition co_WriteShort :: "('g, 'o) index_output \<Rightarrow> i16 \<Rightarrow> ('g \<times> 'o ChecksumIndexOutput, unit) act" where
  "co_WriteShort OT i = co_WriteBytes OT [ucast i, ucast (signed_drop_bit 8 i)] 0 2"

definition co_WriteInt :: "('g, 'o) index_output \<Rightarrow> i32 \<Rightarrow> ('g \<times> 'o ChecksumIndexOutput, unit) act" where
  "co_WriteInt OT i = co_WriteBytes OT (map (\<lambda>k. ucast (signed_drop_bit k i)) [0, 8, 16, 24]) 0 4"

definition co_WriteLong :: "('g, 'o) index_output \<Rightarrow> i64 \<Rightarrow> ('g \<times> 'o ChecksumIndexOutput, unit) act" where
  "co_WriteLong OT i =
     co_WriteBytes OT (map (\<lambda>k. ucast (signed_drop_bit k i)) [0, 8, 16, 24, 32, 40, 48, 56]) 0 8"

text \<open>
  \<open>writeVInt\<close> and \<open>writeVLong\<close> of \<^verbatim>\<open>spi/codec_util.go\<close>: the encoding goes into a slice,
  and the loop condition \<open>i >= 0x80\<close> is a signed comparison.
\<close>

function spi_vloop :: "u8 list \<Rightarrow> int \<Rightarrow> 'w::len word \<Rightarrow> (u8 list \<times> int) outcome" where
  "spi_vloop b n i =
     (if sint i \<ge> 0x80
      then bind_out (store b n (ucast i OR 0x80)) (\<lambda>b'. spi_vloop b' (n + 1) (signed_drop_bit 7 i))
      else bind_out (store b n (ucast i)) (\<lambda>b'. Ok (b', n + 1)))"
  by pat_completeness auto
termination
  by (relation "measure (\<lambda>(b, n, i). nat (sint i))")
     (auto simp: sint_signed_drop_bit_eq drop_bit_eq_div)

declare spi_vloop.simps [simp del]

definition spi_writeVInt :: "u8 list \<Rightarrow> i32 \<Rightarrow> (u8 list \<times> int) outcome" where
  "spi_writeVInt b v = spi_vloop b 0 v"

definition spi_writeVLong :: "u8 list \<Rightarrow> i64 \<Rightarrow> (u8 list \<times> int) outcome" where
  "spi_writeVLong b v = spi_vloop b 0 v"

definition co_WriteVInt :: "('g, 'o) index_output \<Rightarrow> i32 \<Rightarrow> ('g \<times> 'o ChecksumIndexOutput, unit) act" where
  "co_WriteVInt OT i = bind_act (lift_out (spi_writeVInt (replicate 5 0) i)) (\<lambda>(b, n). co_WriteBytes OT b 0 n)"

definition co_WriteVLong :: "('g, 'o) index_output \<Rightarrow> i64 \<Rightarrow> ('g \<times> 'o ChecksumIndexOutput, unit) act" where
  "co_WriteVLong OT i = bind_act (lift_out (spi_writeVLong (replicate 9 0) i)) (\<lambda>(b, n). co_WriteBytes OT b 0 n)"

definition co_WriteString :: "('g, 'o) index_output \<Rightarrow> gostring \<Rightarrow> ('g \<times> 'o ChecksumIndexOutput, unit) act" where
  "co_WriteString OT s = seq_act (co_WriteVInt OT (of_nat (length s))) (co_WriteBytes OT s 0 (int (length s)))"

definition co_WriteZInt :: "('g, 'o) index_output \<Rightarrow> i32 \<Rightarrow> ('g \<times> 'o ChecksumIndexOutput, unit) act" where
  "co_WriteZInt OT i = co_WriteVInt OT (ucast (ZigZagEncodeInt (scast i)))"

definition co_WriteZLong :: "('g, 'o) index_output \<Rightarrow> i64 \<Rightarrow> ('g \<times> 'o ChecksumIndexOutput, unit) act" where
  "co_WriteZLong OT i = co_WriteVLong OT (ZigZagEncodeInt64 i)"

text \<open>The map is given by the pairs in the order of its iteration.\<close>

fun co_write_pairs :: "('g, 'o) index_output \<Rightarrow> (gostring \<times> gostring) list \<Rightarrow> ('g \<times> 'o ChecksumIndexOutput, unit) act" where
  "co_write_pairs OT [] = ret_act ()"
| "co_write_pairs OT ((k, v) # m) = seq_act (co_WriteString OT k) (seq_act (co_WriteString OT v) (co_write_pairs OT m))"

definition co_WriteMapOfStrings :: "('g, 'o) index_output \<Rightarrow> (gostring \<times> gostring) list \<Rightarrow> ('g \<times> 'o ChecksumIndexOutput, unit) act" where
  "co_WriteMapOfStrings OT m = seq_act (co_WriteVInt OT (of_nat (length m))) (co_write_pairs OT m)"

fun co_write_strings :: "('g, 'o) index_output \<Rightarrow> gostring list \<Rightarrow> ('g \<times> 'o ChecksumIndexOutput, unit) act" where
  "co_write_strings OT [] = ret_act ()"
| "co_write_strings OT (v # vs) = seq_act (co_WriteString OT v) (co_write_strings OT vs)"

definition co_WriteSetOfStrings :: "('g, 'o) index_output \<Rightarrow> gostring list \<Rightarrow> ('g \<times> 'o ChecksumIndexOutput, unit) act" where
  "co_WriteSetOfStrings OT vs = seq_act (co_WriteVInt OT (of_nat (length vs))) (co_write_strings OT vs)"

definition co_primitive :: "('g, 'o) index_output \<Rightarrow> ('g \<times> 'o ChecksumIndexOutput) prim_writer" where
  "co_primitive OT = \<lparr>pw_WriteByte = co_WriteByte OT, pw_WriteBytes = co_WriteBytes OT\<rparr>"

definition co_WriteGroupVInts :: "('g, 'o) index_output \<Rightarrow> i32 list \<Rightarrow> int \<Rightarrow> ('g \<times> 'o ChecksumIndexOutput, unit) act" where
  "co_WriteGroupVInts OT values limit =
     util_WriteGroupVInts (co_primitive OT) (co_WriteVInt OT)
       (replicate (nat GroupVIntMaxLengthPerGroup) 0) values limit"

text \<open>\<open>CopyBytes\<close> runs on the state of the input read and of this output.\<close>

function co_copy_loop ::
  "('g, 'o) index_output \<Rightarrow> 'j input_core \<Rightarrow> int \<Rightarrow> u8 list \<Rightarrow> 'j \<times> 'g \<times> 'o ChecksumIndexOutput
     \<Rightarrow> unit outcome \<times> 'j \<times> 'g \<times> 'o ChecksumIndexOutput" where
  "co_copy_loop OT C left buf st =
     (if left > 0
      then let toCopy = (if left > checksumCopyBufferSize then checksumCopyBufferSize else left)
           in case st of (j, g, c) \<Rightarrow>
              (case ic_ReadBytes C buf 0 toCopy j of
                 (Err e, j') \<Rightarrow> (Err e, (j', g, c))
               | (Panic p, j') \<Rightarrow> (Panic p, (j', g, c))
               | (Ok buf', j') \<Rightarrow>
                   (case co_WriteBytes OT buf' 0 toCopy (g, c\<lparr>co_copyBuffer := Some buf'\<rparr>) of
                      (Err e, (g', c')) \<Rightarrow> (Err e, (j', g', c'))
                    | (Panic p, (g', c')) \<Rightarrow> (Panic p, (j', g', c'))
                    | (Ok u, (g', c')) \<Rightarrow> co_copy_loop OT C (left - toCopy) buf' (j', g', c')))
      else (Ok (), st))"
  by pat_completeness auto
termination
  by (relation "measure (\<lambda>(OT, C, left, buf, st). nat left)") (auto simp: checksumCopyBufferSize_def)

declare co_copy_loop.simps [simp del]

definition co_CopyBytes ::
  "('g, 'o) index_output \<Rightarrow> 'j input_core \<Rightarrow> int \<Rightarrow> 'j \<times> 'g \<times> 'o ChecksumIndexOutput
     \<Rightarrow> unit outcome \<times> 'j \<times> 'g \<times> 'o ChecksumIndexOutput" where
  "co_CopyBytes OT C n st =
     (if n < 0 then (Err (Errorf ''numBytes must be non-negative''), st)
      else case st of (j, g, c) \<Rightarrow>
        let buf = (case co_copyBuffer c of None \<Rightarrow> replicate (nat checksumCopyBufferSize) 0 | Some b \<Rightarrow> b)
        in co_copy_loop OT C n buf (j, g, c\<lparr>co_copyBuffer := Some buf\<rparr>))"

definition co_Length :: "('g, 'o) index_output \<Rightarrow> 'g \<times> 'o ChecksumIndexOutput \<Rightarrow> int" where
  "co_Length OT s = (case s of (g, c) \<Rightarrow> io_Length OT (g, co_output c))"

definition co_SetPosition :: "('g, 'o) index_output \<Rightarrow> int \<Rightarrow> ('g \<times> 'o ChecksumIndexOutput, unit) act" where
  "co_SetPosition OT pos = on_output (io_SetPosition OT pos)"

definition co_GetChecksum :: "'g \<times> 'o ChecksumIndexOutput \<Rightarrow> u32 \<times> ('g \<times> 'o ChecksumIndexOutput)" where
  "co_GetChecksum s = (case s of (g, c) \<Rightarrow>
     case digest_Sum32 (co_digest c) of (v, dg) \<Rightarrow> (v, (g, c\<lparr>co_digest := dg\<rparr>)))"

definition co_GetChecksumType :: "'o ChecksumIndexOutput \<Rightarrow> ChecksumType" where
  "co_GetChecksumType c = co_checksum c"

definition co_GetWrappedOutput :: "'o ChecksumIndexOutput \<Rightarrow> 'o" where
  "co_GetWrappedOutput c = co_output c"

definition co_Close :: "('g, 'o) index_output \<Rightarrow> 'g \<times> 'o ChecksumIndexOutput \<Rightarrow> 'g \<times> 'o ChecksumIndexOutput" where
  "co_Close OT s = (case s of (g, c) \<Rightarrow>
     case io_Close OT (g, co_output c) of (g', o') \<Rightarrow> (g', c\<lparr>co_output := o'\<rparr>))"

section \<open>The streams of the in-memory directory as wrapped streams\<close>

definition bbi_index_input :: "(ByteBuffersDirectory, ByteBuffersIndexInput) index_input" where
  "bbi_index_input =
     \<lparr>ii_core = bbi_core, ii_ReadString = lift_ract bbi_ReadString, ii_GetFilePointer = bbi_GetFilePointer,
      ii_Length = bbi_Length, ii_SetPosition = bbi_SetPosition, ii_Clone = bbi_Clone,
      ii_Slice = bbi_Slice, ii_Close = bbi_Close\<rparr>"

definition bbo_index_output :: "(ByteBuffersDirectory, ByteBuffersIndexOutput) index_output" where
  "bbo_index_output =
     \<lparr>io_primitive = bbo_primitive, io_GetName = (\<lambda>s. bbo_name (snd s)), io_Length = bbo_Length,
      io_SetPosition = bbo_SetPosition, io_Close = bbo_Close\<rparr>"

section \<open>What the wrapped input promises\<close>

text \<open>
  \<open>okc B s\<close>: the input is usable and \<open>B\<close> is the whole file.  An \<open>index_reader\<close> is read from its
  start; an \<open>index_source\<close> can also be positioned, cloned and closed.  Its last two laws say that
  an input stays usable when another stream of the same environment is used or
  closed.
\<close>

locale index_reader =
  fixes I :: "('g, 'i) index_input" and okc :: "u8 list \<Rightarrow> 'g \<times> 'i \<Rightarrow> bool" and restc :: "'g \<times> 'i \<Rightarrow> u8 list"
    and eof :: go_error and eofs :: go_error
  assumes core_law: "byte_source (ii_core I) (okc B) restc eof eofs"
    and fp_law: "okc B s \<Longrightarrow> 0 \<le> ii_GetFilePointer I s \<and> ii_GetFilePointer I s \<le> int (length B)
      \<and> restc s = drop (nat (ii_GetFilePointer I s)) B"
    and Length_law: "okc B s \<Longrightarrow> ii_Length I s = int (length B)"
    and ReadString_law: "length t < 2 ^ 31 \<Longrightarrow> reads (okc B) restc (ii_ReadString I) (string_bytes t) t"

locale index_source = index_reader I okc restc eof eofs
  for I :: "('g, 'i) index_input" and okc :: "u8 list \<Rightarrow> 'g \<times> 'i \<Rightarrow> bool" and restc :: "'g \<times> 'i \<Rightarrow> u8 list"
    and eof :: go_error and eofs :: go_error +
  assumes SetPosition_law: "okc B s \<Longrightarrow> 0 \<le> pos \<Longrightarrow> pos \<le> int (length B) \<Longrightarrow>
      \<exists>s'. ii_SetPosition I pos s = (Ok (), s') \<and> okc B s' \<and> ii_GetFilePointer I s' = pos"
    and Clone_law: "okc B s \<Longrightarrow> okc B (ii_Clone I s) \<and> ii_GetFilePointer I (ii_Clone I s) = ii_GetFilePointer I s"
    and Close_law: "okc B (g, i) \<Longrightarrow> ii_Close I (g, i) = (g', i') \<Longrightarrow> okc B (g', i)"
    and share_law: "okc B (g, i) \<Longrightarrow> okc B' (g', i') \<Longrightarrow> okc B (g', i)"

text \<open>
  The invariant of the checksumming input: its file pointer is that of the wrapped
  input and its digest is the CRC-32 of the bytes before it.
\<close>

definition ci_ok :: "('g, 'i) index_input \<Rightarrow> (u8 list \<Rightarrow> 'g \<times> 'i \<Rightarrow> bool) \<Rightarrow> u8 list \<Rightarrow> 'g \<times> 'i ChecksumIndexInput \<Rightarrow> bool" where
  "ci_ok I okc B s \<longleftrightarrow> (case s of (g, c) \<Rightarrow> okc B (g, ci_input c)
     \<and> ci_filePointer c = ii_GetFilePointer I (g, ci_input c)
     \<and> ci_digest c = DigCRC (crc_Update 0 (take (nat (ci_filePointer c)) B)))"

definition ci_rest :: "('g \<times> 'i \<Rightarrow> u8 list) \<Rightarrow> 'g \<times> 'i ChecksumIndexInput \<Rightarrow> u8 list" where
  "ci_rest restc s = (case s of (g, c) \<Rightarrow> restc (g, ci_input c))"

context index_reader
begin

lemma rest_length: "okc B s \<Longrightarrow> int (length (restc s)) = int (length B) - ii_GetFilePointer I s"
  using fp_law [of B s] by auto

lemma fp_advance:
  assumes "okc B s" "okc B s'" "restc s' = drop n (restc s)" "n \<le> length (restc s)"
  shows "ii_GetFilePointer I s' = ii_GetFilePointer I s + int n"
  using rest_length [OF assms(1)] rest_length [OF assms(2)] assms(3,4) by simp

text \<open>One step of the wrapped input over \<open>p\<close> and the matching update of the digest.\<close>

lemma ci_step:
  assumes "ci_ok I okc B (g, c)" "restc (g, ci_input c) = p @ ys" "okc B (g', i')" "restc (g', i') = ys"
  shows "\<exists>s'. ci_update p (int (length p)) (g', c\<lparr>ci_input := i'\<rparr>) = (Ok (), s') \<and> ci_ok I okc B s' \<and> ci_rest restc s' = ys"
proof -
  note c = assms(1) [unfolded ci_ok_def prod.case]
  let ?fp = "ci_filePointer c"
  have f: "0 \<le> ?fp" "drop (nat ?fp) B = p @ ys" using fp_law [of B "(g, ci_input c)"] c assms(2) by auto
  have fp: "ii_GetFilePointer I (g', i') = ?fp + int (length p)"
    using fp_advance [of B "(g, ci_input c)" "(g', i')" "length p"] c assms(2-4) by simp
  have "take (nat (?fp + int (length p))) B = take (nat ?fp) B @ p"
    using f by (simp add: nat_add_distrib take_add)
  then show ?thesis using c assms(3,4) fp f(1)
    by (simp add: ci_update_def ci_ok_def ci_rest_def crc_Update_append)
qed

end

sublocale index_reader \<subseteq> ck: byte_source "ci_core I" "ci_ok I okc B" "ci_rest restc" eof eofs for B
proof unfold_locales
  fix s b bs assume s: "ci_ok I okc B s" "ci_rest restc s = b # bs"
  obtain g c where gc: "s = (g, c)" by fastforce
  have r: "okc B (g, ci_input c)" "restc (g, ci_input c) = b # bs"
    using s by (simp_all add: gc ci_ok_def ci_rest_def)
  obtain g' i' where i': "ic_ReadByte (ii_core I) (g, ci_input c) = (Ok b, (g', i'))" "okc B (g', i')" "restc (g', i') = bs"
    using byte_source.ReadByte_law [OF core_law r] by auto
  show "\<exists>s'. ic_ReadByte (ci_core I) s = (Ok b, s') \<and> ci_ok I okc B s' \<and> ci_rest restc s' = bs"
    using ci_step [of B g c "[b]" bs g' i'] s r i'
    by (auto simp: gc ci_core_def ci_ReadByte_def bind_act_def seq_act_def on_input_def ret_act_def)
next
  fix s assume s: "ci_ok I okc B s" "ci_rest restc s = []"
  then show "ic_ReadByte (ci_core I) s = (Err eof, s)"
    using byte_source.ReadByte_EOF [OF core_law, of B "(fst s, ci_input (snd s))"]
    by (auto simp: ci_ok_def ci_rest_def ci_core_def ci_ReadByte_def bind_act_def on_input_def split: prod.splits)
next
  fix s offset len and buf :: "u8 list"
  assume s: "ci_ok I okc B s" "0 \<le> offset" "0 \<le> len" "offset + len \<le> int (length buf)" "nat len \<le> length (ci_rest restc s)"
  obtain g c where gc: "s = (g, c)" by fastforce
  let ?r = "restc (g, ci_input c)" and ?l = "nat len"
  have r: "okc B (g, ci_input c)" "?l \<le> length ?r" "ci_rest restc s = ?r" using s by (simp_all add: gc ci_ok_def ci_rest_def)
  let ?b = "take (nat offset) buf @ take ?l ?r @ drop (nat (offset + len)) buf"
  obtain g' i' where i': "ic_ReadBytes (ii_core I) buf offset len (g, ci_input c) = (Ok ?b, (g', i'))"
      "okc B (g', i')" "restc (g', i') = drop ?l ?r"
    using byte_source.ReadBytes_law [OF core_law r(1) s(2-4) r(2)] by auto
  have "subslice ?b offset (offset + len) = Ok (take ?l ?r)"
    using s(2-4) r(2) by (simp add: subslice_def)
  moreover obtain s' where "ci_update (take ?l ?r) len (g', c\<lparr>ci_input := i'\<rparr>) = (Ok (), s')"
      "ci_ok I okc B s'" "ci_rest restc s' = drop ?l ?r"
    using ci_step [of B g c "take ?l ?r" "drop ?l ?r" g' i'] s(1,3) r i' by (auto simp: gc)
  ultimately show "\<exists>s'. ic_ReadBytes (ci_core I) buf offset len s
      = (Ok (take (nat offset) buf @ take ?l (ci_rest restc s) @ drop (nat (offset + len)) buf), s')
    \<and> ci_ok I okc B s' \<and> ci_rest restc s' = drop ?l (ci_rest restc s)"
    using i'(1) by (simp add: r(3) [unfolded gc] gc ci_core_def ci_ReadBytes_def bind_act_def seq_act_def on_input_def lift_out_def ret_act_def)
next
  fix s len offset and buf :: "u8 list"
  assume "ci_ok I okc B s" "int (length (ci_rest restc s)) < len"
  then show "ic_ReadBytes (ci_core I) buf offset len s = (Err eofs, s)"
    using byte_source.ReadBytes_EOF [OF core_law, of B "(fst s, ci_input (snd s))" len buf offset]
    by (auto simp: ci_ok_def ci_rest_def ci_core_def ci_ReadBytes_def bind_act_def on_input_def split: prod.splits)
qed

context index_reader
begin

lemma new_ok:
  assumes "okc B (g, i)" "ii_GetFilePointer I (g, i) = 0"
  shows "ci_ok I okc B (g, NewChecksumIndexInput i)"
  using assms by (simp add: ci_ok_def NewChecksumIndexInput_def NewChecksumIndexInputWithType_def newDigest_def
      ChecksumCRC32_def ChecksumAdler32_def)

lemma ci_fp_rest:
  assumes "ci_ok I okc B s"
  shows "0 \<le> ci_GetFilePointer s" "ci_GetFilePointer s \<le> int (length B)"
    "ci_rest restc s = drop (nat (ci_GetFilePointer s)) B"
    "ci_digest (snd s) = DigCRC (crc_Update 0 (take (nat (ci_GetFilePointer s)) B))" "ci_Length I s = int (length B)"
  using assms fp_law [of B "(fst s, ci_input (snd s))"] Length_law [of B "(fst s, ci_input (snd s))"]
  by (auto simp: ci_ok_def ci_rest_def ci_GetFilePointer_def ci_Length_def split: prod.splits)

lemma ci_skip_loop_ok:
  "ci_ok I okc B s \<Longrightarrow> 0 \<le> n \<Longrightarrow> nat n \<le> length (ci_rest restc s) \<Longrightarrow> length buffer = 1024 \<Longrightarrow>
   \<exists>s'. ci_skip_loop I n buffer s = (Ok (), s') \<and> ci_ok I okc B s' \<and> ci_rest restc s' = drop (nat n) (ci_rest restc s)"
proof (induction "nat n" arbitrary: n buffer s rule: less_induct)
  case less
  show ?case
  proof (cases "n > 0")
    case False
    then have "ci_skip_loop I n buffer s = (Ok (), s)" by (simp add: ci_skip_loop.simps [of I n buffer] ret_act_def)
    then show ?thesis using False less.prems by (intro exI [of _ s]) simp
  next
    case True
    define t where "t = (if n > 1024 then 1024 else n)"
    have t: "0 < t" "t \<le> n" "t \<le> 1024" using True by (auto simp: t_def)
    let ?b = "take (nat t) (ci_rest restc s) @ drop (nat t) buffer"
    have len: "0 + t \<le> int (length buffer)" "nat t \<le> length (ci_rest restc s)" using t less.prems(3,4) by auto
    obtain s1 where s1: "ci_ReadBytes I buffer 0 t s = (Ok ?b, s1)" "ci_ok I okc B s1" "ci_rest restc s1 = drop (nat t) (ci_rest restc s)"
      using ck.ReadBytes_law [OF less.prems(1) order_refl less_imp_le [OF t(1)] len] by (auto simp: ci_core_def)
    have "\<exists>s'. ci_skip_loop I (n - t) ?b s1 = (Ok (), s') \<and> ci_ok I okc B s' \<and> ci_rest restc s' = drop (nat (n - t)) (ci_rest restc s1)"
      by (rule less.hyps) (use t s1 less.prems len in auto)
    moreover have "drop (nat (n - t)) (ci_rest restc s1) = drop (nat n) (ci_rest restc s)"
      using t by (simp add: s1(3) flip: nat_add_distrib)
    moreover have "ci_skip_loop I n buffer s = ci_skip_loop I (n - t) ?b s1"
      using True s1(1) by (simp add: ci_skip_loop.simps [of I n buffer] t_def [symmetric] Let_def bind_act_Ok)
    ultimately show ?thesis by metis
  qed
qed

text \<open>Seeking forward reads the bytes in between, so the invariant is kept.\<close>

lemma ci_SetPosition_ok:
  assumes "ci_ok I okc B s" "ci_GetFilePointer s \<le> pos" "pos \<le> int (length B)"
  shows "\<exists>s'. ci_SetPosition I pos s = (Ok (), s') \<and> ci_ok I okc B s' \<and> ci_GetFilePointer s' = pos"
proof -
  note f = ci_fp_rest [OF assms(1)]
  let ?n = "pos - ci_GetFilePointer s"
  have "\<exists>s'. ci_SkipBytes I ?n s = (Ok (), s') \<and> ci_ok I okc B s' \<and> ci_rest restc s' = drop (nat ?n) (ci_rest restc s)"
  proof (cases "?n = 0")
    case True
    then show ?thesis using assms(1) by (intro exI [of _ s]) (simp add: ci_SkipBytes_def ret_act_def)
  next
    case False
    then show ?thesis using ci_skip_loop_ok [OF assms(1), of ?n "replicate 1024 0"] assms f(1,3)
      by (simp add: ci_SkipBytes_def)
  qed
  then obtain s' where s': "ci_SkipBytes I ?n s = (Ok (), s')" "ci_ok I okc B s'" "ci_rest restc s' = drop (nat ?n) (ci_rest restc s)" by blast
  have "length (ci_rest restc s') = length B - nat pos" using assms(2) f by (simp add: s'(3))
  then have "ci_GetFilePointer s' = pos" using ci_fp_rest [OF s'(2)] assms f(1) by auto
  then show ?thesis using s' assms(2) by (auto simp: ci_SetPosition_def)
qed

lemma ci_SetPosition_backwards:
  "pos < ci_GetFilePointer s \<Longrightarrow> ci_SetPosition I pos s = (Err (Errorf ''cannot seek backwards''), s)"
  by (simp add: ci_SetPosition_def)

lemma ci_GetChecksum_ok:
  assumes "ci_ok I okc B s"
  shows "ci_GetChecksum s = (crc_Update 0 (take (nat (ci_GetFilePointer s)) B), s)"
  using ci_fp_rest(4) [OF assms] by (auto simp: ci_GetChecksum_def split: prod.splits)

end

subsection \<open>The input of the in-memory directory\<close>

text \<open>Reads do not change the content of the input.\<close>

lemma bind_act_frame:
  "(\<And>s. f (snd (m s)) = f s) \<Longrightarrow> (\<And>a s. f (snd (k a s)) = f s) \<Longrightarrow> f (snd (bind_act m k s)) = f s"
  by (simp add: bind_act_def split: prod.split outcome.split) (metis snd_conv)

lemma bounded_vloop_frame:
  assumes "\<And>s. f (snd (rb s)) = f s"
  shows "f (snd (bounded_vloop rb msg w i sh s)) = f s"
  using assms
proof (induction rb msg w i sh arbitrary: s rule: bounded_vloop.induct)
  case (1 rb msg w i sh)
  show ?case
    unfolding bounded_vloop.simps [of rb msg w i sh]
    by (rule bind_act_frame [of f]) (simp_all add: 1 Let_def ret_act_def fail_act_def)
qed

lemma bbi_ReadByte_frame: "bbi_bytes (snd (bbi_ReadByte s)) = bbi_bytes s"
  by (auto simp: bbi_ReadByte_def bbi_bytes_def split: prod.splits outcome.splits)

lemma bbi_ReadBytes_frame: "bbi_bytes (snd (bbi_ReadBytes buf offset len s)) = bbi_bytes s"
  by (auto simp: bbi_ReadBytes_def bbi_bytes_def split: prod.splits outcome.splits)

lemma bbi_ReadString_frame: "bbi_bytes (snd (bbi_ReadString s)) = bbi_bytes s"
  unfolding bbi_ReadString_def bbi_ReadVInt_def
  by (rule bind_act_frame [of bbi_bytes]) (simp_all add: bounded_vloop_frame bbi_ReadByte_frame bbi_ReadBytes_frame lift_out_def)

definition bbi_okc :: "u8 list \<Rightarrow> bbi_state \<Rightarrow> bool" where
  "bbi_okc B s \<longleftrightarrow> bbi_ok s \<and> bbi_bytes s = B"

lemma byte_source_frame:
  assumes "byte_source C ok rest eof eofs"
    and "\<And>s. f (snd (ic_ReadByte C s)) = f s" "\<And>buf off len s. f (snd (ic_ReadBytes C buf off len s)) = f s"
  shows "byte_source C (\<lambda>s. ok s \<and> f s = B) rest eof eofs"
proof (rule byte_source.intro)
  note l = byte_source.ReadByte_law [OF assms(1)] byte_source.ReadBytes_law [OF assms(1)]
  show "\<exists>s'. ic_ReadByte C s = (Ok b, s') \<and> (ok s' \<and> f s' = B) \<and> rest s' = bs"
    if "ok s \<and> f s = B" "rest s = b # bs" for s b bs
    using l(1) [of s b bs] that assms(2) [of s] by fastforce
  show "\<exists>s'. ic_ReadBytes C buf offset len s
      = (Ok (take (nat offset) buf @ take (nat len) (rest s) @ drop (nat (offset + len)) buf), s')
      \<and> (ok s' \<and> f s' = B) \<and> rest s' = drop (nat len) (rest s)"
    if "ok s \<and> f s = B" "0 \<le> offset" "0 \<le> len" "offset + len \<le> int (length buf)" "nat len \<le> length (rest s)" for s offset len buf
    using l(2) [of s offset len buf] that assms(3) [of buf offset len s] by fastforce
qed (use byte_source.ReadByte_EOF [OF assms(1)] byte_source.ReadBytes_EOF [OF assms(1)] in blast)+

lemma reads_frame:
  assumes "reads ok rest (lift_ract rd) bs v" "\<And>s. f (snd (rd s)) = f s"
  shows "reads (\<lambda>s. ok s \<and> f s = B) rest (lift_ract rd) bs v"
  unfolding reads_def lift_ract_def
proof (intro allI impI)
  fix s ys assume s: "ok s \<and> f s = B" "rest s = bs @ ys"
  then obtain s' where "rd s = (Ok v, s')" "ok s'" "rest s' = ys"
    by (auto simp: lift_ract_def elim: readsD [OF assms(1), of s ys])
  then show "\<exists>s'. Some (rd s) = Some (Ok v, s') \<and> (ok s' \<and> f s' = B) \<and> rest s' = ys"
    using assms(2) [of s] s by simp
qed

interpretation bbx: index_source bbi_index_input bbi_okc bbi_rest "Errorf ''EOF''" "Errorf ''not enough data available''"
proof (intro index_source.intro index_reader.intro index_source_axioms.intro)
  note d = bbi_index_input_def bbi_okc_def [abs_def]
  show "byte_source (ii_core bbi_index_input) (bbi_okc B) bbi_rest (Errorf ''EOF'') (Errorf ''not enough data available'')" for B
    using byte_source_frame [OF bbi.byte_source_axioms, of bbi_bytes B]
    by (simp add: d bbi_core_def bbi_ReadByte_frame bbi_ReadBytes_frame)
  show "length t < 2 ^ 31 \<Longrightarrow> reads (bbi_okc B) bbi_rest (ii_ReadString bbi_index_input) (string_bytes t) t" for t B
    using reads_frame [where f = bbi_bytes and rd = bbi_ReadString and B = B, OF bbi_ReadString_reads]
    by (simp add: d bbi_ReadString_frame)
  show "0 \<le> ii_GetFilePointer bbi_index_input s \<and> ii_GetFilePointer bbi_index_input s \<le> int (length B)
      \<and> bbi_rest s = drop (nat (ii_GetFilePointer bbi_index_input s)) B" if "bbi_okc B s" for B s
    using that by (auto simp: d bbi_ok_def bbi_wf_def bbi_bytes_def bbi_rest_def bbi_GetFilePointer_def)
  show "ii_Length bbi_index_input s = int (length B)" if "bbi_okc B s" for B s
    using that by (auto simp: d bbi_ok_def bbi_wf_def bbi_bytes_def bbi_Length_def)
  show "\<exists>s'. ii_SetPosition bbi_index_input pos s = (Ok (), s') \<and> bbi_okc B s' \<and> ii_GetFilePointer bbi_index_input s' = pos"
    if "bbi_okc B s" "0 \<le> pos" "pos \<le> int (length B)" for B s pos
    using that by (auto simp: d bbi_ok_def bbi_wf_def bbi_bytes_def bbi_SetPosition_def bbi_GetFilePointer_def split: prod.splits)
  show "bbi_okc B (ii_Clone bbi_index_input s) \<and> ii_GetFilePointer bbi_index_input (ii_Clone bbi_index_input s) = ii_GetFilePointer bbi_index_input s"
    if "bbi_okc B s" for B s
    using that by (auto simp: d bbi_ok_def bbi_wf_def bbi_bytes_def bbi_Clone_def newByteBuffersIndexInput_def bbi_GetFilePointer_def split: prod.splits)
  show "bbi_okc B (g', i)" if "bbi_okc B (g, i)" "ii_Close bbi_index_input (g, i) = (g', i')" for B g i g' i'
    using that by (auto simp: d bbi_ok_def bbi_bytes_def bbi_Close_def)
  show "bbi_okc B (g', i)" if "bbi_okc B (g, i)" "bbi_okc B' (g', i')" for B g i B' g' i'
    using that by (auto simp: bbi_okc_def bbi_ok_def bbi_bytes_def)
qed

section \<open>The checksumming output\<close>

text \<open>The invariant: the digest is the CRC-32 of the bytes written.\<close>

definition co_ok :: "('g \<times> 'o \<Rightarrow> bool) \<Rightarrow> ('g \<times> 'o \<Rightarrow> u8 list) \<Rightarrow> 'g \<times> 'o ChecksumIndexOutput \<Rightarrow> bool" where
  "co_ok ok written s \<longleftrightarrow> (case s of (g, c) \<Rightarrow> ok (g, co_output c)
     \<and> co_filePointer c = int (length (written (g, co_output c)))
     \<and> co_digest c = DigCRC (crc_Update 0 (written (g, co_output c))))"

definition on_wrapped :: "('g \<times> 'o \<Rightarrow> 'a) \<Rightarrow> 'g \<times> 'o ChecksumIndexOutput \<Rightarrow> 'a" where
  "on_wrapped f s = (case s of (g, c) \<Rightarrow> f (g, co_output c))"

locale checksum_sink = byte_sink "io_primitive OT" ok room written
  for OT :: "('g, 'o) index_output" and ok :: "'g \<times> 'o \<Rightarrow> bool" and room :: "'g \<times> 'o \<Rightarrow> nat" and written :: "'g \<times> 'o \<Rightarrow> u8 list"
begin

lemma co_step:
  assumes "writes ok room written m bs"
  shows "writes (co_ok ok written) (on_wrapped room) (on_wrapped written) (seq_act (on_output m) (co_update bs (int (length bs)))) bs"
  unfolding writes_def
proof (intro allI impI)
  fix s assume s: "co_ok ok written s" "length bs \<le> on_wrapped room s"
  obtain g c where gc: "s = (g, c)" by fastforce
  have "ok (g, co_output c)" "length bs \<le> room (g, co_output c)" using s by (simp_all add: gc co_ok_def on_wrapped_def)
  then obtain t where t: "m (g, co_output c) = (Ok (), t)" "ok t" "written t = written (g, co_output c) @ bs"
      "room t = room (g, co_output c) - length bs" by (rule writesD [OF assms])
  obtain g' o' where "t = (g', o')" by fastforce
  then show "\<exists>s'. seq_act (on_output m) (co_update bs (int (length bs))) s = (Ok (), s') \<and> co_ok ok written s'
      \<and> on_wrapped written s' = on_wrapped written s @ bs \<and> on_wrapped room s' = on_wrapped room s - length bs"
    using t s(1) by (simp add: gc seq_act_def bind_act_def on_output_def co_update_def co_ok_def on_wrapped_def crc_Update_append)
qed

end

sublocale checksum_sink \<subseteq> ck: byte_sink "co_primitive OT" "co_ok ok written" "on_wrapped room" "on_wrapped written"
proof unfold_locales
  show "writes (co_ok ok written) (on_wrapped room) (on_wrapped written) (pw_WriteByte (co_primitive OT) b) [b]" for b
    using co_step [OF WriteByte_law, of b] by (simp add: co_primitive_def co_WriteByte_def)
  fix offset len :: int and bs :: "u8 list"
  assume a: "0 \<le> offset" "0 \<le> len" "offset + len \<le> int (length bs)"
  let ?p = "take (nat len) (drop (nat offset) bs)"
  have "co_WriteBytes OT bs offset len
      = seq_act (on_output (pw_WriteBytes (io_primitive OT) bs offset len)) (co_update ?p (int (length ?p)))"
    using a by (simp add: co_WriteBytes_def)
  then show "writes (co_ok ok written) (on_wrapped room) (on_wrapped written) (pw_WriteBytes (co_primitive OT) bs offset len) ?p"
    using co_step [OF WriteBytes_law [OF a]] by (simp add: co_primitive_def)
qed

subsection \<open>The variable-length encoders of the checksumming output\<close>

lemma sint_nonneg_unat: "0 \<le> sint (i :: 'w::len word) \<Longrightarrow> sint i = int (unat i)"
proof -
  assume "0 \<le> sint i"
  then have "\<not> bit i (LENGTH('w) - 1)" using bit_last_iff [of i] by simp
  then show ?thesis by (simp only: sint_as_uint if_False diff_0_right uint_nat)
qed

lemma or_80_group7: "8 \<le> LENGTH('w) \<Longrightarrow> ucast (i :: 'w::len word) OR (0x80 :: u8) = of_nat (unat i mod 128 + 128)"
proof -
  assume w: "8 \<le> LENGTH('w)"
  have "(ucast ((i AND mask 7) OR push_bit 7 1) :: u8) = ucast i OR push_bit 7 1"
    using w by (intro bit_word_eqI) (auto simp: bit_simps less_Suc_eq eval_nat_numeral)
  moreover have "(i AND 0x7F) OR 0x80 = (i AND mask 7) OR push_bit 7 1" "(push_bit 7 1 :: u8) = 0x80"
    by (simp_all add: mask_eq_exp_minus_1 push_bit_eq_mult)
  ultimately show ?thesis using group7 [OF w, of i] by simp
qed

lemma spi_vloop_ok:
  assumes w: "8 \<le> LENGTH('w::len)"
  shows "0 \<le> sint (i :: 'w word) \<Longrightarrow> n + length (vbytes (unat i)) \<le> length b \<Longrightarrow>
    spi_vloop b (int n) i = Ok (take n b @ vbytes (unat i) @ drop (n + length (vbytes (unat i))) b, int (n + length (vbytes (unat i))))"
proof (induction "unat i" arbitrary: i n b rule: less_induct)
  case less
  have si: "sint i = int (unat i)" using less.prems(1) by (rule sint_nonneg_unat)
  then have c: "sint i \<ge> 0x80 \<longleftrightarrow> \<not> unat i < 128" by linarith
  show ?case
  proof (cases "unat i < 128")
    case True
    then have "vbytes (unat i) = [ucast i]" by (simp only: vbytes.simps [of "unat i"] if_True ucast_of_nat_unat)
    then show ?thesis using True less.prems(2) by (simp add: spi_vloop.simps [of b "int n" i] c upd_conv_take_nth_drop)
  next
    case False
    let ?j = "signed_drop_bit 7 i" and ?x = "of_nat (unat i mod 128 + 128) :: u8"
    have sj: "sint ?j = sint i div 128" by (simp add: sint_signed_drop_bit_eq drop_bit_eq_div)
    have j1: "0 \<le> sint ?j" using less.prems(1) by (simp add: sj)
    have "int (unat ?j) = int (unat i div 128)"
      using sint_nonneg_unat [OF j1] by (simp only: sj si zdiv_int of_nat_numeral)
    then have j: "0 \<le> sint ?j" "unat ?j = unat i div 128" using j1 by (simp_all only: of_nat_eq_iff)
    have v: "vbytes (unat i) = ?x # vbytes (unat ?j)" using False by (simp only: vbytes.simps [of "unat i"] if_False j(2))
    have n: "n < length b" using less.prems(2) by (simp add: v)
    have "spi_vloop (b[n := ?x]) (int (Suc n)) ?j = Ok (take (Suc n) (b[n := ?x]) @ vbytes (unat ?j)
        @ drop (Suc n + length (vbytes (unat ?j))) (b[n := ?x]), int (Suc n + length (vbytes (unat ?j))))"
      by (rule less.hyps) (use False j less.prems(2) in \<open>simp_all add: v\<close>)
    moreover have "spi_vloop b (int n) i = spi_vloop (b[n := ?x]) (int (Suc n)) ?j"
      unfolding spi_vloop.simps [of b "int n" i] or_80_group7 [OF w] using False n by (simp add: c ac_simps)
    ultimately show ?thesis using n by (simp add: v take_Suc_conv_app_nth)
  qed
qed

context checksum_sink
begin

abbreviation co_writes where
  "co_writes \<equiv> writes (co_ok ok written) (on_wrapped room) (on_wrapped written)"

lemma co_WriteBytes_writes: "co_writes (co_WriteBytes OT bs 0 (int (length bs))) bs"
  using ck.WriteBytes_writes [of bs] by (simp add: WriteBytes_def co_primitive_def)

lemma co_vbytes_writes:
  assumes "length vs \<le> length b"
  shows "co_writes (co_WriteBytes OT (vs @ drop (length vs) b) 0 (int (length vs))) vs"
  using ck.WriteBytes_law [of 0 "int (length vs)" "vs @ drop (length vs) b"] by (simp add: co_primitive_def)

lemma co_WriteVInt_writes: "0 \<le> sint i \<Longrightarrow> co_writes (co_WriteVInt OT i) (vbytes (unat i))"
  using spi_vloop_ok [of i 0 "replicate 5 0"] vbytes_length [of "unat i" 4]
    co_vbytes_writes [of "vbytes (unat i)" "replicate 5 0"] unsigned_less [of i, where 'a = nat]
  by (simp add: co_WriteVInt_def spi_writeVInt_def)

lemma co_WriteVLong_writes: "0 \<le> sint i \<Longrightarrow> co_writes (co_WriteVLong OT i) (vbytes (unat i))"
proof -
  assume i: "0 \<le> sint i"
  have "int (unat i) < 2 ^ 63" using sint_less [of i] sint_nonneg_unat [OF i] by simp
  then have "unat i < 128 ^ Suc 8" by (simp del: of_nat_unat int_nat_eq add: of_nat_less_numeral_iff)
  then have "length (vbytes (unat i)) \<le> 9" using vbytes_length [of "unat i" 8] by simp
  then show ?thesis
    using spi_vloop_ok [of i 0 "replicate 9 0"] co_vbytes_writes [of "vbytes (unat i)" "replicate 9 0"] i
    by (simp add: co_WriteVLong_def spi_writeVLong_def)
qed

lemma co_WriteString_writes:
  assumes "length s < 2 ^ 31"
  shows "co_writes (co_WriteString OT s) (string_bytes s)"
  using writes_seq [OF co_WriteVInt_writes co_WriteBytes_writes, of "of_nat (length s)" s] bbi.len_i32 [OF assms]
  by (simp add: co_WriteString_def string_bytes_def)

lemma co_GetChecksum_ok: "co_ok ok written s \<Longrightarrow> co_GetChecksum s = (crc_Update 0 (on_wrapped written s), s)"
  by (auto simp: co_ok_def co_GetChecksum_def on_wrapped_def)

lemma new_output_ok: "ok s \<Longrightarrow> written s = [] \<Longrightarrow> co_ok ok written (fst s, NewChecksumIndexOutput OT s)"
  by (simp add: co_ok_def NewChecksumIndexOutput_def NewChecksumIndexOutputWithType_def newDigest_def
      ChecksumCRC32_def ChecksumAdler32_def)

end

interpretation cko: checksum_sink bbo_index_output "bbo_ok D r" "\<lambda>s. N - length (bbo_data (snd s))" "\<lambda>s. bbo_data (snd s)" for D r N
  using bbo.byte_sink_axioms [of D r N] by (simp add: checksum_sink_def bbo_index_output_def)

section \<open>Every way of reading keeps the digest\<close>

text \<open>
  The states of a checksumming input over the file \<open>B\<close>: a new one at the start of the
  file, and those any call leaves, whether it succeeds or fails.
\<close>

inductive ck_reachable :: "u8 list \<Rightarrow> ByteBuffersDirectory \<times> ByteBuffersIndexInput ChecksumIndexInput \<Rightarrow> bool" for B where
  new: "bbi_okc B (d, inp) \<Longrightarrow> bbi_position inp = 0 \<Longrightarrow> ck_reachable B (d, NewChecksumIndexInput inp)"
| read_byte: "ck_reachable B s \<Longrightarrow> ci_ReadByte bbi_index_input s = (rb, s') \<Longrightarrow> ck_reachable B s'"
| read_bytes: "ck_reachable B s \<Longrightarrow> 0 \<le> offset \<Longrightarrow> 0 \<le> len \<Longrightarrow> offset + len \<le> int (length buf) \<Longrightarrow>
    ci_ReadBytes bbi_index_input buf offset len s = (rs, s') \<Longrightarrow> ck_reachable B s'"
| skip: "ck_reachable B s \<Longrightarrow> ci_SkipBytes bbi_index_input n s = (ru, s') \<Longrightarrow> ck_reachable B s'"
| seek: "ck_reachable B s \<Longrightarrow> ci_SetPosition bbi_index_input pos s = (ru, s') \<Longrightarrow> ck_reachable B s'"
| sum: "ck_reachable B s \<Longrightarrow> ci_GetChecksum s = (v, s') \<Longrightarrow> ck_reachable B s'"
| verify: "ck_reachable B s \<Longrightarrow> ci_VerifyChecksum v s = (ru, s') \<Longrightarrow> ck_reachable B s'"

context index_source
begin

lemma ci_ReadByte_keeps: "ci_ok I okc B s \<Longrightarrow> ci_ok I okc B (snd (ci_ReadByte I s))"
  using ck.ReadByte_law [of B s] ck.ReadByte_EOF [of B s]
  by (cases "ci_rest restc s") (fastforce simp: ci_core_def)+

lemma ci_ReadBytes_keeps:
  assumes "ci_ok I okc B s" "0 \<le> offset" "0 \<le> len" "offset + len \<le> int (length buf)"
  shows "ci_ok I okc B (snd (ci_ReadBytes I buf offset len s))"
    and "ci_ReadBytes I buf offset len s = (Ok b, s') \<Longrightarrow> length b = length buf"
proof -
  consider "nat len \<le> length (ci_rest restc s)" | "int (length (ci_rest restc s)) < len" using assms(3) by linarith
  then have "ci_ok I okc B (snd (ci_ReadBytes I buf offset len s))
      \<and> (ci_ReadBytes I buf offset len s = (Ok b, s') \<longrightarrow> length b = length buf)"
  proof cases
    case 1
    then show ?thesis using ck.ReadBytes_law [OF assms 1] assms(2-4) by (auto simp: ci_core_def)
  next
    case 2
    then show ?thesis using ck.ReadBytes_EOF [OF assms(1) 2, of buf offset] assms(1) by (simp add: ci_core_def)
  qed
  then show "ci_ok I okc B (snd (ci_ReadBytes I buf offset len s))"
    and "ci_ReadBytes I buf offset len s = (Ok b, s') \<Longrightarrow> length b = length buf" by blast+
qed

lemma ci_skip_loop_keeps:
  "ci_ok I okc B s \<Longrightarrow> length buffer = 1024 \<Longrightarrow> ci_ok I okc B (snd (ci_skip_loop I n buffer s))"
proof (induction "nat n" arbitrary: n buffer s rule: less_induct)
  case less
  show ?case
  proof (cases "n > 0")
    case True
    define t where "t = (if n > 1024 then 1024 else n)"
    have t: "0 < t" "t \<le> 1024" using True by (auto simp: t_def)
    obtain r s1 where s1: "ci_ReadBytes I buffer 0 t s = (r, s1)" by (meson surj_pair)
    have k: "ci_ok I okc B s1" "\<And>b. r = Ok b \<Longrightarrow> length b = 1024"
      using ci_ReadBytes_keeps [OF less.prems(1), of 0 t buffer] t less.prems(2) s1 by auto
    have "ci_skip_loop I n buffer s = bind_act (ci_ReadBytes I buffer 0 t) (ci_skip_loop I (n - t)) s"
      using True by (simp add: ci_skip_loop.simps [of I n buffer] t_def [symmetric] Let_def)
    moreover have "ci_ok I okc B (snd (ci_skip_loop I (n - t) b s1))" if "r = Ok b" for b
      by (rule less.hyps) (use True t k that in auto)
    ultimately show ?thesis using k(1) s1 by (cases r) (simp_all add: bind_act_def)
  qed (use less.prems in \<open>simp add: ci_skip_loop.simps [of I n buffer] ret_act_def\<close>)
qed

lemma ci_SkipBytes_keeps: "ci_ok I okc B s \<Longrightarrow> ci_ok I okc B (snd (ci_SkipBytes I n s))"
  using ci_skip_loop_keeps [of B s "replicate 1024 0" n] by (simp add: ci_SkipBytes_def fail_act_def ret_act_def)

lemma ci_SetPosition_keeps: "ci_ok I okc B s \<Longrightarrow> ci_ok I okc B (snd (ci_SetPosition I pos s))"
  using ci_SkipBytes_keeps [of B s] by (simp add: ci_SetPosition_def Let_def)

end

lemma ck_reachable_ok: "ck_reachable B s \<Longrightarrow> ci_ok bbi_index_input bbi_okc B s"
proof (induction rule: ck_reachable.induct)
  case (new d inp)
  then have "ii_GetFilePointer bbi_index_input (d, inp) = 0"
    by (simp add: bbi_okc_def bbi_ok_def bbi_wf_def bbi_index_input_def bbi_GetFilePointer_def)
  then show ?case using new by (intro bbx.new_ok) simp_all
next
  case (read_byte s rb s')
  then show ?case using bbx.ci_ReadByte_keeps [of B s] by simp
next
  case (read_bytes s offset len buf rs s')
  then show ?case using bbx.ci_ReadBytes_keeps(1) [of B s offset len buf] by simp
next
  case (skip s n ru s')
  then show ?case using bbx.ci_SkipBytes_keeps [of B s n] by simp
next
  case (seek s pos ru s')
  then show ?case using bbx.ci_SetPosition_keeps [of B s pos] by simp
next
  case (sum s v s')
  then show ?case using bbx.ci_GetChecksum_ok [of B s] by simp
next
  case (verify s v ru s')
  then show ?case using bbx.ci_GetChecksum_ok [of B s] by (auto simp: ci_VerifyChecksum_def split: if_splits)
qed

section \<open>Properties\<close>

text \<open>
  C6: whatever sequence of reads, skips and seeks a client makes on a checksumming
  input, failing calls included, the checksum it reports is the CRC-32 of all bytes of
  the file before the file pointer, and a seek never moves backwards.
\<close>

theorem checksum_covers_prefix:
  assumes "ck_reachable B s"
  shows "0 \<le> ci_GetFilePointer s \<and> ci_GetFilePointer s \<le> int (length B)
     \<and> fst (ci_GetChecksum s) = crc_Update 0 (take (nat (ci_GetFilePointer s)) B)
     \<and> (pos < ci_GetFilePointer s \<longrightarrow> ci_SetPosition bbi_index_input pos s = (Err (Errorf ''cannot seek backwards''), s))
     \<and> (ci_GetFilePointer s \<le> pos \<and> pos \<le> int (length B) \<longrightarrow>
          (\<exists>s'. ci_SetPosition bbi_index_input pos s = (Ok (), s') \<and> ci_GetFilePointer s' = pos
             \<and> fst (ci_GetChecksum s') = crc_Update 0 (take (nat pos) B)))"
proof -
  note ok = ck_reachable_ok [OF assms]
  have "\<exists>s'. ci_SetPosition bbi_index_input pos s = (Ok (), s') \<and> ci_GetFilePointer s' = pos
      \<and> fst (ci_GetChecksum s') = crc_Update 0 (take (nat pos) B)"
    if "ci_GetFilePointer s \<le> pos" "pos \<le> int (length B)"
    using bbx.ci_SetPosition_ok [OF ok that] bbx.ci_GetChecksum_ok by fastforce
  then show ?thesis
    using bbx.ci_fp_rest(1,2) [OF ok] bbx.ci_GetChecksum_ok [OF ok] bbx.ci_SetPosition_backwards [of pos s] by simp
qed

lemma fresh_input_okc: "bbi_okc B (NewByteBuffersDirectory, newByteBuffersIndexInput [B] nm)"
  by (auto simp: bbi_okc_def bbi_ok_def bbi_wf_def bbi_bytes_def newByteBuffersIndexInput_def chunks_ok_def NewByteBuffersDirectory_def)

theorem checksum_covers_prefix_witness:
  "\<exists>s'. ci_SetPosition bbi_index_input 2 (NewByteBuffersDirectory, NewChecksumIndexInput (newByteBuffersIndexInput [[1, 2, 3]] [97]))
         = (Ok (), s') \<and> ci_GetFilePointer s' = 2 \<and> fst (ci_GetChecksum s') = crc_Update 0 [1, 2]"
proof -
  have "ck_reachable [1, 2, 3] (NewByteBuffersDirectory, NewChecksumIndexInput (newByteBuffersIndexInput [[1, 2, 3]] [97]))"
    by (rule ck_reachable.new [OF fresh_input_okc]) (simp add: newByteBuffersIndexInput_def)
  from checksum_covers_prefix [OF this, of 2] show ?thesis
    by (simp add: ci_GetFilePointer_def NewChecksumIndexInput_def NewChecksumIndexInputWithType_def)
qed

lemma vbytes_length_ge: "128 ^ k \<le> n \<Longrightarrow> Suc k \<le> length (vbytes n)"
proof (induction k arbitrary: n)
  case (Suc k)
  then have "128 ^ k \<le> n div 128" by (simp add: less_eq_div_iff_mult_less_eq mult.commute)
  moreover have "128 * 1 \<le> (128 :: nat) * 128 ^ k" by (rule mult_le_mono2) simp
  then have "\<not> n < 128" using Suc.prems unfolding power_Suc by linarith
  ultimately show ?case using Suc.IH [of "n div 128"] by (simp add: vbytes.simps [of n])
next
  case 0
  show ?case by (simp add: vbytes.simps [of n])
qed

lemma negative_unat: "sint (i :: i32) < 0 \<Longrightarrow> 2 ^ 31 \<le> unat i"
proof -
  assume "sint i < 0"
  then have "bit i 31" using bit_last_iff [of i] by simp
  then have "uint i = sint i + 2 ^ 32" by (simp add: sint_as_uint)
  then have "int (2 ^ 31) \<le> int (unat i)" using sint_ge [of i] by (simp add: uint_nat [symmetric])
  then show ?thesis by (simp only: of_nat_le_iff)
qed

text \<open>
  C9: \<open>WriteVInt\<close> of the checksumming output writes a negative value as its single low
  byte, although the encoding of that value takes five bytes and \<open>WriteVInt\<close> of every
  other output writes them; a reader does not get the value back.
\<close>

theorem checksum_output_negative_vint:
  assumes "co_ok (bbo_ok D r) (\<lambda>s. bbo_data (snd s)) (d, c)" "sint (i :: i32) < 0"
  shows "\<exists>d' c'. co_WriteVInt bbo_index_output i (d, c) = (Ok (), (d', c'))
     \<and> bbo_data (co_output c') = bbo_data (co_output c) @ [ucast i] \<and> length (vbytes (unat i)) = 5"
proof -
  let ?N = "length (bbo_data (co_output c)) + 1"
  have "co_WriteVInt bbo_index_output i = co_WriteBytes bbo_index_output ([ucast i] @ drop 1 (replicate 5 0)) 0 1"
    using assms(2) by (simp add: co_WriteVInt_def spi_writeVInt_def spi_vloop.simps [of _ _ i] numeral_eq_Suc)
  moreover have w: "cko.co_writes D r ?N (co_WriteBytes bbo_index_output ([ucast i] @ drop 1 (replicate 5 0)) 0 1) [ucast i]"
    using cko.co_vbytes_writes [of "[ucast i]" "replicate 5 0" D r ?N] by simp
  moreover obtain s' where "co_WriteBytes bbo_index_output ([ucast i] @ drop 1 (replicate 5 0)) 0 1 (d, c) = (Ok (), s')"
      "on_wrapped (\<lambda>s. bbo_data (snd s)) s' = on_wrapped (\<lambda>s. bbo_data (snd s)) (d, c) @ [ucast i]"
    by (rule writesD [OF w assms(1)]) (simp_all add: on_wrapped_def)
  moreover have "length (vbytes (unat i)) = 5"
    using vbytes_length_ge [of 4 "unat i"] vbytes_length [of "unat i" 4] negative_unat [OF assms(2)] unsigned_less [of i, where 'a = nat] by simp
  ultimately show ?thesis by (cases s') (auto simp: on_wrapped_def)
qed

theorem checksum_output_negative_vint_witness:
  "\<exists>d' c'. co_WriteVInt bbo_index_output (- 1)
       (NewByteBuffersDirectory, NewChecksumIndexOutput bbo_index_output
          (NewByteBuffersDirectory, \<lparr>bbo_name = [97], bbo_filePointer = 0, bbo_file = Some 0, bbo_data = []\<rparr>)) = (Ok (), (d', c'))
     \<and> bbo_data (co_output c') = [0xFF] \<and> length (vbytes (unat (- 1 :: i32))) = 5"
proof -
  let ?o = "\<lparr>bbo_name = [97], bbo_filePointer = 0, bbo_file = Some 0, bbo_data = []\<rparr>"
  have "bbo_ok NewByteBuffersDirectory 0 (NewByteBuffersDirectory, ?o)"
    by (simp add: bbo_ok_def NewByteBuffersDirectory_def)
  then have c: "co_ok (bbo_ok NewByteBuffersDirectory 0) (\<lambda>s. bbo_data (snd s))
      (NewByteBuffersDirectory, NewChecksumIndexOutput bbo_index_output (NewByteBuffersDirectory, ?o))"
    using cko.new_output_ok [of NewByteBuffersDirectory 0 "(NewByteBuffersDirectory, ?o)"] by simp
  have "(ucast (- 1 :: i32) :: u8) = 0xFF" by code_simp
  then show ?thesis using checksum_output_negative_vint [OF c, of "- 1"]
    by (simp add: NewChecksumIndexOutput_def NewChecksumIndexOutputWithType_def)
qed

end
