(* ===== verification/Codec_Util.thy ===== *)
theory Codec_Util
  imports Checksum_IO
begin

text \<open>
  The envelope of every index file, \<^verbatim>\<open>store/codec_util.go\<close> and its twin
  \<^verbatim>\<open>spi/codec_util.go\<close>: a header with magic number, codec name, version, object id and
  suffix, and a footer with the CRC-32 of the file.

  Locales \<open>codec_sink\<close> and \<open>codec_source\<close> add the \<open>WriteString\<close> and \<open>ReadString\<close> of the
  stream at hand to the byte interfaces; they are interpreted on byte arrays and on
  the checksumming streams over the in-memory directory.  The properties are the round
  trip of header and footer, that a check accepts exactly what the writer wrote, that
  a file is accepted by \<open>ChecksumEntireFile\<close> exactly when it ends in the footer of its
  content, and that short corruptions are always found.
\<close>

section \<open>Constants and lengths\<close>

definition CODEC_MAGIC :: i32 where "CODEC_MAGIC = 0x3FD76C17"
definition FOOTER_MAGIC :: i32 where "FOOTER_MAGIC = NOT 0x3FD76C17"
definition idLength :: int where "idLength = 16"

definition HeaderLength :: "gostring \<Rightarrow> int" where
  "HeaderLength codec = 9 + int (length codec)"

definition IndexHeaderLength :: "gostring \<Rightarrow> gostring \<Rightarrow> int" where
  "IndexHeaderLength codec suffix = HeaderLength codec + idLength + 1 + int (length suffix)"

definition FooterLength :: int where "FooterLength = 16"

section \<open>The streams\<close>

text \<open>\<open>DataOutput\<close> and \<open>DataInput\<close> as far as this file calls them.\<close>

record 's data_output =
  dout_primitive :: "'s prim_writer"
  dout_WriteString :: "gostring \<Rightarrow> ('s, unit) act"

record 's data_input =
  din_core :: "'s input_core"
  din_ReadString :: "('s, gostring) ract"

definition ii_data :: "('g, 'i) index_input \<Rightarrow> ('g \<times> 'i) data_input" where
  "ii_data I = \<lparr>din_core = ii_core I, din_ReadString = ii_ReadString I\<rparr>"

definition base_data_output :: "'s prim_writer \<Rightarrow> 's data_output" where
  "base_data_output W = \<lparr>dout_primitive = W, dout_WriteString = WriteString W\<rparr>"

definition base_data_input :: "'s input_core \<Rightarrow> 's data_input" where
  "base_data_input C = \<lparr>din_core = C, din_ReadString = ReadString C\<rparr>"

definition co_data_output :: "('g, 'o) index_output \<Rightarrow> ('g \<times> 'o ChecksumIndexOutput) data_output" where
  "co_data_output OT = \<lparr>dout_primitive = co_primitive OT, dout_WriteString = co_WriteString OT\<rparr>"

section \<open>Big-endian integers\<close>

definition WriteBEInt :: "'s data_output \<Rightarrow> i32 \<Rightarrow> ('s, unit) act" where
  "WriteBEInt out i =
     seq_act (WriteByte (dout_primitive out) (ucast (signed_drop_bit 24 i)))
    (seq_act (WriteByte (dout_primitive out) (ucast (signed_drop_bit 16 i)))
    (seq_act (WriteByte (dout_primitive out) (ucast (signed_drop_bit 8 i)))
             (WriteByte (dout_primitive out) (ucast i))))"

definition WriteBELong :: "'s data_output \<Rightarrow> i64 \<Rightarrow> ('s, unit) act" where
  "WriteBELong out l = seq_act (WriteBEInt out (ucast (signed_drop_bit 32 l))) (WriteBEInt out (ucast l))"

definition ReadBEInt :: "'s data_input \<Rightarrow> ('s, i32) ract" where
  "ReadBEInt inp =
     bind_ract (ReadByte (din_core inp)) (\<lambda>b1.
     bind_ract (ReadByte (din_core inp)) (\<lambda>b2.
     bind_ract (ReadByte (din_core inp)) (\<lambda>b3.
     bind_ract (ReadByte (din_core inp)) (\<lambda>b4.
       ret_ract (push_bit 24 (ucast b1) OR push_bit 16 (ucast b2) OR push_bit 8 (ucast b3) OR ucast b4)))))"

definition ReadBELong :: "'s data_input \<Rightarrow> ('s, i64) ract" where
  "ReadBELong inp =
     bind_ract (ReadBEInt inp) (\<lambda>hi.
     bind_ract (ReadBEInt inp) (\<lambda>lo.
       ret_ract (push_bit 32 (scast hi) OR (scast lo AND 0xFFFFFFFF))))"

section \<open>Writing headers and footers\<close>

definition isSimpleASCII :: "gostring \<Rightarrow> bool" where
  "isSimpleASCII s \<longleftrightarrow> list_all (\<lambda>b. \<not> b > 127) s"

definition checkCodecName :: "gostring \<Rightarrow> ('s, unit) act" where
  "checkCodecName codec =
     (if \<not> isSimpleASCII codec \<or> length codec \<ge> 128
      then fail_act (Errorf ''codec must be simple ASCII, less than 128 characters in length'') else ret_act ())"

definition WriteHeader :: "'s data_output \<Rightarrow> gostring \<Rightarrow> i32 \<Rightarrow> ('s, unit) act" where
  "WriteHeader out codec version =
     seq_act (checkCodecName codec)
    (seq_act (WriteBEInt out CODEC_MAGIC)
    (seq_act (dout_WriteString out codec)
             (WriteBEInt out version)))"

definition writeSuffix :: "'s data_output \<Rightarrow> gostring \<Rightarrow> ('s, unit) act" where
  "writeSuffix out suffix =
     (if \<not> isSimpleASCII suffix \<or> length suffix \<ge> 256
      then fail_act (Errorf ''suffix must be simple ASCII, less than 256 characters in length'')
      else seq_act (WriteByte (dout_primitive out) (of_nat (length suffix)))
                   (WriteBytes (dout_primitive out) suffix 0 (int (length suffix))))"

text \<open>An id may be \<open>nil\<close>: \<open>None\<close>, of length zero.\<close>

definition WriteIndexHeader :: "'s data_output \<Rightarrow> gostring \<Rightarrow> i32 \<Rightarrow> u8 list option \<Rightarrow> gostring \<Rightarrow> ('s, unit) act" where
  "WriteIndexHeader out codec version oid suffix =
     (let iid = (case oid of None \<Rightarrow> [] | Some b \<Rightarrow> b)
      in if int (length iid) \<noteq> idLength then fail_act (Errorf ''Invalid id'')
         else seq_act (WriteHeader out codec version)
             (seq_act (WriteBytes (dout_primitive out) iid 0 (int (length iid)))
                      (writeSuffix out suffix)))"

definition CodecUtilWriteIndexHeader :: "'s data_output \<Rightarrow> gostring \<Rightarrow> i32 \<Rightarrow> u8 list option \<Rightarrow> gostring \<Rightarrow> ('s, unit) act" where
  "CodecUtilWriteIndexHeader = WriteIndexHeader"

text \<open>
  \<open>GetChecksum\<close> of an output, \<open>None\<close> for one that is no \<open>checksumWriter\<close>.
\<close>

type_synonym 's checksum_fun = "('s \<Rightarrow> u32 \<times> 's) option"

definition WriteCRC :: "'s data_output \<Rightarrow> 's checksum_fun \<Rightarrow> ('s, unit) act" where
  "WriteCRC out cw s =
     (case cw of None \<Rightarrow> (Err (Errorf ''output does not support checksums''), s)
      | Some GetChecksum \<Rightarrow>
          (case GetChecksum s of (c, s1) \<Rightarrow>
             let value = (ucast c :: i64)
             in if value AND NOT 0xFFFFFFFF \<noteq> 0 then (Err (Errorf ''Illegal CRC-32 checksum''), s1)
                else WriteBELong out value s1))"

definition WriteFooter :: "'s data_output \<Rightarrow> 's checksum_fun \<Rightarrow> ('s, unit) act" where
  "WriteFooter out cw = seq_act (WriteBEInt out FOOTER_MAGIC) (seq_act (WriteBEInt out 0) (WriteCRC out cw))"

definition CodecUtilWriteFooter :: "'s data_output \<Rightarrow> 's checksum_fun \<Rightarrow> ('s, unit) act" where
  "CodecUtilWriteFooter = WriteFooter"

section \<open>Checking headers\<close>

definition CheckHeaderNoMagic :: "'s data_input \<Rightarrow> gostring \<Rightarrow> i32 \<Rightarrow> i32 \<Rightarrow> ('s, i32) ract" where
  "CheckHeaderNoMagic inp codec minVersion maxVersion =
     bind_ract (din_ReadString inp) (\<lambda>actualCodec.
       if actualCodec \<noteq> codec then fail_ract (Errorf ''codec mismatch'')
       else bind_ract (ReadBEInt inp) (\<lambda>actualVersion.
         if sint actualVersion < sint minVersion then fail_ract (Errorf ''Format version is not supported'')
         else if sint actualVersion > sint maxVersion then fail_ract (Errorf ''Format version is not supported'')
         else ret_ract actualVersion))"

definition CheckHeader :: "'s data_input \<Rightarrow> gostring \<Rightarrow> i32 \<Rightarrow> i32 \<Rightarrow> ('s, i32) ract" where
  "CheckHeader inp codec minVersion maxVersion =
     bind_ract (ReadBEInt inp) (\<lambda>actualHeader.
       if actualHeader \<noteq> CODEC_MAGIC then fail_ract (Errorf ''codec header mismatch'')
       else CheckHeaderNoMagic inp codec minVersion maxVersion)"

definition CheckIndexHeaderID :: "'s data_input \<Rightarrow> u8 list option \<Rightarrow> ('s, u8 list) ract" where
  "CheckIndexHeaderID inp expectedID =
     bind_ract (ReadBytes (din_core inp) (replicate (nat idLength) 0) 0 idLength) (\<lambda>iid.
       if expectedID \<noteq> None \<and> Some iid \<noteq> expectedID then fail_ract (Errorf ''file mismatch, expected id'')
       else ret_ract iid)"

definition CheckIndexHeaderSuffix :: "'s data_input \<Rightarrow> gostring \<Rightarrow> ('s, gostring) ract" where
  "CheckIndexHeaderSuffix inp expectedSuffix =
     bind_ract (ReadByte (din_core inp)) (\<lambda>suffixLength.
     bind_ract (ReadBytes (din_core inp) (replicate (unat suffixLength) 0) 0 (int (unat suffixLength))) (\<lambda>suffix.
       if suffix \<noteq> expectedSuffix then fail_ract (Errorf ''file mismatch, expected suffix'')
       else ret_ract suffix))"

definition CheckIndexHeader :: "'s data_input \<Rightarrow> gostring \<Rightarrow> i32 \<Rightarrow> i32 \<Rightarrow> u8 list option \<Rightarrow> gostring \<Rightarrow> ('s, i32) ract" where
  "CheckIndexHeader inp codec minVersion maxVersion expectedID expectedSuffix =
     bind_ract (CheckHeader inp codec minVersion maxVersion) (\<lambda>version.
     bind_ract (CheckIndexHeaderID inp expectedID) (\<lambda>_.
     bind_ract (CheckIndexHeaderSuffix inp expectedSuffix) (\<lambda>_. ret_ract version)))"

text \<open>
  \<open>VerifyAndCopyIndexHeader\<close>: first everything is read, then everything is written.
\<close>

definition verify_read :: "('g, 'i) index_input \<Rightarrow> u8 list option \<Rightarrow> ('g \<times> 'i, gostring \<times> i32 \<times> u8 list) ract" where
  "verify_read I expectedID s =
     (let inp = ii_data I
      in if ii_Length I s < FooterLength + HeaderLength [] then Some (Err (Errorf ''file is too small''), s)
         else bind_ract (ReadBEInt inp) (\<lambda>actualHeader.
           if actualHeader \<noteq> CODEC_MAGIC then fail_ract (Errorf ''compound sub-files must have a valid codec header and footer'')
           else bind_ract (din_ReadString inp) (\<lambda>codec.
                bind_ract (ReadBEInt inp) (\<lambda>version.
                bind_ract (CheckIndexHeaderID inp expectedID) (\<lambda>_.
                bind_ract (ReadByte (din_core inp)) (\<lambda>suffixLength.
                bind_ract (ReadBytes (din_core inp) (replicate (unat suffixLength) 0) 0 (int (unat suffixLength))) (\<lambda>suffix.
                  ret_ract (codec, version, suffix))))))) s)"

definition verify_write :: "'s data_output \<Rightarrow> u8 list option \<Rightarrow> gostring \<times> i32 \<times> u8 list \<Rightarrow> ('s, unit) act" where
  "verify_write out expectedID = (\<lambda>(codec, version, suffix).
     let iid = (case expectedID of None \<Rightarrow> [] | Some b \<Rightarrow> b)
     in seq_act (WriteBEInt out CODEC_MAGIC)
       (seq_act (dout_WriteString out codec)
       (seq_act (WriteBEInt out version)
       (seq_act (WriteBytes (dout_primitive out) iid 0 (int (length iid)))
       (seq_act (WriteByte (dout_primitive out) (of_nat (length suffix)))
                (WriteBytes (dout_primitive out) suffix 0 (int (length suffix))))))))"

definition VerifyAndCopyIndexHeader ::
  "('g, 'i) index_input \<Rightarrow> 's data_output \<Rightarrow> u8 list option \<Rightarrow> ('g \<times> 'i) \<times> 's \<Rightarrow> (unit outcome \<times> ('g \<times> 'i) \<times> 's) option" where
  "VerifyAndCopyIndexHeader I out expectedID st =
     (case st of (j, s) \<Rightarrow>
        case verify_read I expectedID j of
          None \<Rightarrow> None
        | Some (Err e, j') \<Rightarrow> Some (Err e, (j', s))
        | Some (Panic p, j') \<Rightarrow> Some (Panic p, (j', s))
        | Some (Ok h, j') \<Rightarrow> (case verify_write out expectedID h s of (r, s') \<Rightarrow> Some (r, (j', s'))))"

definition ReadIndexHeader :: "('g, 'i) index_input \<Rightarrow> ('g \<times> 'i, u8 list) ract" where
  "ReadIndexHeader I =
     (let inp = ii_data I
      in bind_ract (lift_ract (ii_SetPosition I 0)) (\<lambda>_.
         bind_ract (ReadBEInt inp) (\<lambda>actualHeader.
           if actualHeader \<noteq> CODEC_MAGIC then fail_ract (Errorf ''codec header mismatch'')
           else bind_ract (din_ReadString inp) (\<lambda>codec.
                bind_ract (ReadBEInt inp) (\<lambda>_.
                bind_ract (\<lambda>s. lift_ract (ii_SetPosition I (ii_GetFilePointer I s + idLength)) s) (\<lambda>_.
                bind_ract (ReadByte (din_core inp)) (\<lambda>suffixLength.
                let n = HeaderLength codec + idLength + 1 + int (unat suffixLength)
                in bind_ract (lift_ract (ii_SetPosition I 0)) (\<lambda>_.
                   ReadBytes (din_core inp) (replicate (nat n) 0) 0 n))))))))"

section \<open>Checking footers\<close>

definition validateFooter :: "('g, 'i) index_input \<Rightarrow> ('g \<times> 'i, unit) ract" where
  "validateFooter I s =
     (let remaining = ii_Length I s - ii_GetFilePointer I s; inp = ii_data I
      in if remaining < FooterLength then Some (Err (Errorf ''misplaced codec footer (file truncated?)''), s)
         else if remaining > FooterLength then Some (Err (Errorf ''misplaced codec footer (file extended?)''), s)
         else bind_ract (ReadBEInt inp) (\<lambda>magic.
           if magic \<noteq> FOOTER_MAGIC then fail_ract (Errorf ''codec footer mismatch (file truncated?)'')
           else bind_ract (ReadBEInt inp) (\<lambda>algorithmID.
             if algorithmID \<noteq> 0 then fail_ract (Errorf ''codec footer mismatch: unknown algorithmID'')
             else ret_ract ())) s)"

definition ReadFooter :: "('g, 'i) index_input \<Rightarrow> ('g \<times> 'i, u8 list) ract" where
  "ReadFooter I s =
     (if ii_Length I s < FooterLength then Some (Err (Errorf ''misplaced codec footer (file truncated?)''), s)
      else bind_ract (lift_ract (ii_SetPosition I (ii_Length I s - FooterLength))) (\<lambda>_.
           bind_ract (validateFooter I) (\<lambda>_.
           bind_ract (\<lambda>s. lift_ract (ii_SetPosition I (ii_Length I s - FooterLength)) s) (\<lambda>_.
             ReadBytes (ii_core I) (replicate (nat FooterLength) 0) 0 FooterLength))) s)"

definition ReadCRC :: "'s data_input \<Rightarrow> ('s, i64) ract" where
  "ReadCRC inp =
     bind_ract (ReadBELong inp) (\<lambda>value.
       if value AND NOT 0xFFFFFFFF \<noteq> 0 then fail_ract (Errorf ''Illegal CRC-32 checksum'') else ret_ract value)"

definition CheckFooter :: "('g, 'i) index_input \<Rightarrow> ('g \<times> 'i ChecksumIndexInput, i64) ract" where
  "CheckFooter I =
     bind_ract (validateFooter (ci_index_input I)) (\<lambda>_ s.
       case ci_GetChecksum s of (c, s1) \<Rightarrow>
         let actualChecksum = (ucast c :: i64)
         in bind_ract (ReadCRC (ii_data (ci_index_input I))) (\<lambda>expectedChecksum.
              if expectedChecksum \<noteq> actualChecksum then fail_ract (Errorf ''checksum failed (hardware problem?)'')
              else ret_ract actualChecksum) s1)"

text \<open>
  The error of \<open>CheckFooterWithPriorError\<close> is \<open>errors.Join\<close> of one or two errors: the list
  of its members, empty for \<open>nil\<close>.
\<close>

definition join_footer :: "(i64 outcome \<times> 's) option \<Rightarrow> (i64 \<Rightarrow> go_error list) \<Rightarrow> (go_error \<Rightarrow> go_error list) \<Rightarrow> (go_error list outcome \<times> 's) option" where
  "join_footer r passed failed =
     (case r of None \<Rightarrow> None
      | Some (Ok c, s) \<Rightarrow> Some (Ok (passed c), s)
      | Some (Err e, s) \<Rightarrow> Some (Ok (failed e), s)
      | Some (Panic p, s) \<Rightarrow> Some (Panic p, s))"

definition CheckFooterWithPriorError ::
  "('g, 'i) index_input \<Rightarrow> go_error option \<Rightarrow> ('g \<times> 'i ChecksumIndexInput, go_error list) ract" where
  "CheckFooterWithPriorError I priorError s =
     (case priorError of
        None \<Rightarrow> join_footer (CheckFooter I s) (\<lambda>_. []) (\<lambda>e. [e])
      | Some prior \<Rightarrow>
          let remaining = ci_Length I s - ci_GetFilePointer s
          in if remaining < FooterLength
             then Some (Ok [Errorf ''checksum status indeterminate: remaining'', prior], s)
             else case ci_SkipBytes I (remaining - FooterLength) s of
                    (Err e, s1) \<Rightarrow> Some (Ok [prior, Errorf ''checksum status indeterminate: unexpected error''], s1)
                  | (Panic p, s1) \<Rightarrow> Some (Panic p, s1)
                  | (Ok u, s1) \<Rightarrow> join_footer (CheckFooter I s1) (\<lambda>_. [prior, Errorf ''checksum passed'']) (\<lambda>e. [e, prior]))"

text \<open>
  \<open>ChecksumEntireFile\<close> works on a clone, which the deferred \<open>Close\<close> closes on every
  path after its creation; the caller keeps its own input.
\<close>

definition ChecksumEntireFile :: "('g, 'i) index_input \<Rightarrow> ('g \<times> 'i, i64) ract" where
  "ChecksumEntireFile I s =
     (case ii_SetPosition I 0 (ii_Clone I s) of
        (Err e, (g, c)) \<Rightarrow> Some (Err e, (g, snd s))
      | (Panic p, (g, c)) \<Rightarrow> Some (Panic p, (g, snd s))
      | (Ok u, (g, c)) \<Rightarrow>
          (let cs = (g, NewChecksumIndexInput c)
           in case (if ci_Length I cs < FooterLength
                    then Some (Err (Errorf ''misplaced codec footer (file truncated?)''), cs)
                    else bind_ract (lift_ract (ci_SetPosition I (ci_Length I cs - FooterLength))) (\<lambda>_. CheckFooter I) cs) of
                None \<Rightarrow> None
              | Some (r, cs') \<Rightarrow> Some (r, (fst (ci_Close I cs'), snd s))))"

definition RetrieveChecksum :: "('g, 'i) index_input \<Rightarrow> ('g \<times> 'i, i64) ract" where
  "RetrieveChecksum I s =
     (if ii_Length I s < FooterLength then Some (Err (Errorf ''misplaced codec footer (file truncated?)''), s)
      else bind_ract (lift_ract (ii_SetPosition I (ii_Length I s - FooterLength))) (\<lambda>_.
           bind_ract (validateFooter I) (\<lambda>_. ReadCRC (ii_data I))) s)"

definition RetrieveChecksumWithExpectedLength :: "('g, 'i) index_input \<Rightarrow> int \<Rightarrow> ('g \<times> 'i, i64) ract" where
  "RetrieveChecksumWithExpectedLength I expectedLength s =
     (if expectedLength < FooterLength then Some (Err (Errorf ''expectedLength cannot be less than the footer length''), s)
      else if ii_Length I s < expectedLength then Some (Err (Errorf ''truncated file''), s)
      else if ii_Length I s > expectedLength then Some (Err (Errorf ''file too long''), s)
      else RetrieveChecksum I s)"

section \<open>File names\<close>

definition IndexFileNamesSegmentFileName :: "gostring \<Rightarrow> gostring \<Rightarrow> gostring \<Rightarrow> gostring" where
  "IndexFileNamesSegmentFileName segmentName segmentSuffix ext =
     (if segmentSuffix = [] then (if ext \<noteq> [] then segmentName @ [46] @ ext else segmentName)
      else if ext \<noteq> [] then segmentName @ [95] @ segmentSuffix @ [46] @ ext
      else segmentName @ [95] @ segmentSuffix)"

definition GetSegmentFileName :: "gostring \<Rightarrow> gostring \<Rightarrow> gostring \<Rightarrow> gostring" where
  "GetSegmentFileName segmentName segmentSuffix ext = IndexFileNamesSegmentFileName segmentName segmentSuffix ext"

section \<open>The copy in package spi\<close>

definition spi_WriteIndexHeader :: "'s data_output \<Rightarrow> gostring \<Rightarrow> i32 \<Rightarrow> u8 list option \<Rightarrow> gostring \<Rightarrow> ('s, unit) act" where
  "spi_WriteIndexHeader out codec version oid suffix =
     (let iid = (case oid of None \<Rightarrow> [] | Some b \<Rightarrow> b)
      in if length iid \<noteq> 16 then fail_act (Errorf ''WriteIndexHeader: id length must be 16'')
         else if length suffix > 255 then fail_act (Errorf ''WriteIndexHeader: suffix too long'')
         else seq_act (WriteBEInt out CODEC_MAGIC)
             (seq_act (dout_WriteString out codec)
             (seq_act (WriteBEInt out version)
             (seq_act (WriteBytes (dout_primitive out) iid 0 (int (length iid)))
             (seq_act (WriteByte (dout_primitive out) (of_nat (length suffix)))
                      (if length suffix > 0 then WriteBytes (dout_primitive out) suffix 0 (int (length suffix))
                       else ret_act ()))))))"

definition spi_CheckIndexHeader :: "'s data_input \<Rightarrow> gostring \<Rightarrow> i32 \<Rightarrow> i32 \<Rightarrow> u8 list option \<Rightarrow> gostring \<Rightarrow> ('s, i32) ract" where
  "spi_CheckIndexHeader inp codec minVersion maxVersion expectedID expectedSuffix =
     bind_ract (ReadBEInt inp) (\<lambda>magic.
       if magic \<noteq> CODEC_MAGIC then fail_ract (Errorf ''CheckIndexHeader: invalid magic'')
       else bind_ract (din_ReadString inp) (\<lambda>actualCodec.
         if actualCodec \<noteq> codec then fail_ract (Errorf ''CheckIndexHeader: codec mismatch'')
         else bind_ract (ReadBEInt inp) (\<lambda>version.
           if sint version < sint minVersion \<or> sint version > sint maxVersion
           then fail_ract (Errorf ''CheckIndexHeader: version out of range'')
           else bind_ract (ReadBytes (din_core inp) (replicate 16 0) 0 16) (\<lambda>iid.
             if expectedID \<noteq> None \<and> Some iid \<noteq> expectedID then fail_ract (Errorf ''CheckIndexHeader: segment ID mismatch'')
             else bind_ract (ReadByte (din_core inp)) (\<lambda>suffixLen.
               bind_ract (if suffixLen > 0
                          then ReadBytes (din_core inp) (replicate (unat suffixLen) 0) 0 (int (unat suffixLen))
                          else ret_ract []) (\<lambda>suffix.
                 if suffix \<noteq> expectedSuffix then fail_ract (Errorf ''CheckIndexHeader: suffix mismatch'')
                 else ret_ract version))))))"

definition spi_WriteFooter :: "('g, 'o) index_output \<Rightarrow> ('g \<times> 'o ChecksumIndexOutput, unit) act" where
  "spi_WriteFooter OT =
     seq_act (WriteBEInt (co_data_output OT) FOOTER_MAGIC)
    (seq_act (WriteBEInt (co_data_output OT) 0)
             (\<lambda>s. case co_GetChecksum s of (c, s1) \<Rightarrow> WriteBELong (co_data_output OT) (ucast c) s1))"

definition spi_CheckFooter :: "('g, 'i) index_input \<Rightarrow> ('g \<times> 'i ChecksumIndexInput, i64) ract" where
  "spi_CheckFooter I =
     (let inp = ii_data (ci_index_input I)
      in bind_ract (ReadBEInt inp) (\<lambda>magic.
           if magic \<noteq> FOOTER_MAGIC then fail_ract (Errorf ''CheckFooter: invalid footer magic'')
           else bind_ract (ReadBEInt inp) (\<lambda>algo.
             if algo \<noteq> 0 then fail_ract (Errorf ''CheckFooter: unknown checksum algorithm'')
             else (\<lambda>s. case ci_GetChecksum s of (c, s1) \<Rightarrow>
               bind_ract (ReadBELong inp) (\<lambda>expectedChecksum.
                 if ucast c \<noteq> expectedChecksum then fail_ract (Errorf ''CheckFooter: checksum mismatch'')
                 else ret_ract expectedChecksum) s1))))"

section \<open>The bytes of the envelope\<close>

definition be_int :: "i32 \<Rightarrow> u8 list" where
  "be_int i = [ucast (drop_bit 24 i), ucast (drop_bit 16 i), ucast (drop_bit 8 i), ucast i]"

definition be_long :: "i64 \<Rightarrow> u8 list" where
  "be_long l = be_int (ucast (drop_bit 32 l)) @ be_int (ucast l)"

definition header_bytes :: "gostring \<Rightarrow> i32 \<Rightarrow> u8 list" where
  "header_bytes codec version = be_int CODEC_MAGIC @ string_bytes codec @ be_int version"

definition index_header_bytes :: "gostring \<Rightarrow> i32 \<Rightarrow> u8 list \<Rightarrow> gostring \<Rightarrow> u8 list" where
  "index_header_bytes codec version iid suffix = header_bytes codec version @ iid @ [of_nat (length suffix)] @ suffix"

definition file_crc :: "u8 list \<Rightarrow> u32" where
  "file_crc content = crc_Update 0 (content @ be_int FOOTER_MAGIC @ be_int 0)"

definition footer_bytes :: "u8 list \<Rightarrow> u8 list" where
  "footer_bytes content = be_int FOOTER_MAGIC @ be_int 0 @ be_long (ucast (file_crc content))"

lemma length_be [simp]: "length (be_int i) = 4" "length (be_long l) = 8"
  by (simp_all add: be_int_def be_long_def)

lemma length_footer_bytes [simp]: "length (footer_bytes content) = 16"
  by (simp add: footer_bytes_def)

definition be_join :: "u8 \<Rightarrow> u8 \<Rightarrow> u8 \<Rightarrow> u8 \<Rightarrow> i32" where
  "be_join b1 b2 b3 b4 = push_bit 24 (ucast b1) OR push_bit 16 (ucast b2) OR push_bit 8 (ucast b3) OR ucast b4"

lemma be_int_join: "be_join (ucast (drop_bit 24 i)) (ucast (drop_bit 16 i)) (ucast (drop_bit 8 i)) (ucast i) = i"
proof (rule bit_word_eqI)
  fix n assume "n < LENGTH(32)"
  then consider "n < 8" | "8 \<le> n" "n < 16" | "16 \<le> n" "n < 24" | "24 \<le> n" "n < 32" by fastforce
  then show "bit (be_join (ucast (drop_bit 24 i)) (ucast (drop_bit 16 i)) (ucast (drop_bit 8 i)) (ucast i)) n = bit i n"
    by cases (auto simp: be_join_def bit_simps)
qed

lemma be_long_join:
  "push_bit 32 (scast (ucast (drop_bit 32 l) :: i32)) OR (scast (ucast l :: i32) AND 0xFFFFFFFF) = (l :: i64)" (is "?j = l")
proof (rule bit_word_eqI)
  have m: "(0xFFFFFFFF :: i64) = mask 32" by (simp add: mask_eq_exp_minus_1)
  fix n assume "n < LENGTH(64)"
  then consider "n < 31" | "n = 31" | "32 \<le> n" "n < 63" | "n = 63" by fastforce
  then show "bit ?j n = bit l n" unfolding m by cases (auto simp: bit_simps)
qed

lemma be_int_ucast: "(ucast (signed_drop_bit 24 i) :: u8) = ucast (drop_bit 24 (i :: i32))"
    "(ucast (signed_drop_bit 16 i) :: u8) = ucast (drop_bit 16 i)" "(ucast (signed_drop_bit 8 i) :: u8) = ucast (drop_bit 8 i)"
    "(ucast (signed_drop_bit 32 l) :: i32) = ucast (drop_bit 32 (l :: i64))"
  by (rule bit_word_eqI; auto simp: bit_simps min_def)+

lemma be_int_inj: "be_int i = be_int j \<longleftrightarrow> i = j"
proof
  assume "be_int i = be_int j"
  then have "be_join (ucast (drop_bit 24 i)) (ucast (drop_bit 16 i)) (ucast (drop_bit 8 i)) (ucast i)
      = be_join (ucast (drop_bit 24 j)) (ucast (drop_bit 16 j)) (ucast (drop_bit 8 j)) (ucast j)"
    by (simp only: be_int_def list.inject)
  then show "i = j" by (simp only: be_int_join)
qed simp

section \<open>Readers that may refuse\<close>

text \<open>
  \<open>yields ok rest rd bs r\<close>: on an input that continues with \<open>bs\<close> the call returns \<open>r\<close>,
  leaves a usable input, and when \<open>r\<close> is a value exactly \<open>bs\<close> is consumed.
\<close>

definition yields :: "('s \<Rightarrow> bool) \<Rightarrow> ('s \<Rightarrow> u8 list) \<Rightarrow> ('s, 'a) ract \<Rightarrow> u8 list \<Rightarrow> 'a outcome \<Rightarrow> bool" where
  "yields ok rest rd bs r \<longleftrightarrow>
     (\<forall>s ys. ok s \<longrightarrow> rest s = bs @ ys \<longrightarrow>
        (\<exists>s'. rd s = Some (r, s') \<and> ok s' \<and> (\<forall>v. r = Ok v \<longrightarrow> rest s' = ys)))"

lemma yieldsD:
  assumes "yields ok rest rd bs r" "ok s" "rest s = bs @ ys"
  obtains s' where "rd s = Some (r, s')" "ok s'" "\<forall>v. r = Ok v \<longrightarrow> rest s' = ys"
  using assms unfolding yields_def by blast

lemma yields_reads: "yields ok rest rd bs (Ok v) \<longleftrightarrow> reads ok rest rd bs v"
  by (simp add: yields_def reads_def)

lemma yields_fail: "yields ok rest (fail_ract e) bs (Err e)"
  by (simp add: yields_def fail_ract_def)

lemma yields_bind:
  assumes rd: "reads ok rest rd bs a" and f: "yields ok rest (f a) cs r"
  shows "yields ok rest (bind_ract rd f) (bs @ cs) r"
  unfolding yields_def
proof (intro allI impI)
  fix s ys assume s: "ok s" "rest s = (bs @ cs) @ ys"
  obtain s1 where s1: "rd s = Some (Ok a, s1)" "ok s1" "rest s1 = cs @ ys"
    by (rule readsD [OF rd s(1), of "cs @ ys"]) (use s(2) in auto)
  obtain s2 where "f a s1 = Some (r, s2)" "ok s2" "\<forall>v. r = Ok v \<longrightarrow> rest s2 = ys"
    by (rule yieldsD [OF f s1(2,3)])
  with s1 show "\<exists>s'. bind_ract rd f s = Some (r, s') \<and> ok s' \<and> (\<forall>v. r = Ok v \<longrightarrow> rest s' = ys)"
    by (auto simp: bind_ract_def)
qed

lemma yields_bind_Err:
  assumes "yields ok rest rd bs (Err e)"
  shows "yields ok rest (bind_ract rd f) (bs @ cs) (Err e)"
  unfolding yields_def
proof (intro allI impI)
  fix s ys assume s: "ok s" "rest s = (bs @ cs) @ ys"
  obtain s' where "rd s = Some (Err e, s')" "ok s'" by (rule yieldsD [OF assms s(1), of "cs @ ys"]) (use s(2) in auto)
  then show "\<exists>s'. bind_ract rd f s = Some (Err e, s') \<and> ok s' \<and> (\<forall>v. Err e = Ok v \<longrightarrow> rest s' = ys)"
    by (simp add: bind_ract_def)
qed

text \<open>A bind whose first part may refuse.\<close>

lemma yields_bind_out:
  assumes "yields ok rest rd bs r1" "\<And>a. r1 = Ok a \<Longrightarrow> yields ok rest (f a) cs (g a)" "\<And>p. r1 \<noteq> Panic p"
  shows "yields ok rest (bind_ract rd f) (bs @ cs) (bind_out r1 g)"
  using assms by (cases r1) (auto simp: yields_reads intro: yields_bind yields_bind_Err)

section \<open>Streams that carry the envelope\<close>

locale codec_sink = byte_sink "dout_primitive out" ok room written
  for out :: "'s data_output" and ok :: "'s \<Rightarrow> bool" and room :: "'s \<Rightarrow> nat" and written :: "'s \<Rightarrow> u8 list" +
  assumes WriteString_law: "length t < 2 ^ 31 \<Longrightarrow> writes ok room written (dout_WriteString out t) (string_bytes t)"
begin

lemma WriteBEInt_writes: "writes ok room written (WriteBEInt out i) (be_int i)"
  unfolding WriteBEInt_def be_int_ucast be_int_def by (intro writes_Cons WriteByte_writes)

lemma WriteBELong_writes: "writes ok room written (WriteBELong out l) (be_long l)"
  unfolding WriteBELong_def be_int_ucast be_long_def by (intro writes_seq WriteBEInt_writes)

lemma WriteHeader_writes:
  assumes "isSimpleASCII codec" "length codec < 128"
  shows "writes ok room written (WriteHeader out codec version) (header_bytes codec version)"
proof -
  have "WriteHeader out codec version = seq_act (WriteBEInt out CODEC_MAGIC) (seq_act (dout_WriteString out codec) (WriteBEInt out version))"
    using assms by (simp add: WriteHeader_def checkCodecName_def seq_act_def bind_act_def ret_act_def fun_eq_iff)
  moreover have "length codec < 2 ^ 31" using assms(2) by simp
  ultimately show ?thesis
    unfolding header_bytes_def by (auto intro!: writes_seq WriteBEInt_writes WriteString_law)
qed

lemma writeSuffix_writes:
  assumes "isSimpleASCII suffix" "length suffix < 256"
  shows "writes ok room written (writeSuffix out suffix) (of_nat (length suffix) # suffix)"
proof -
  have "writeSuffix out suffix = seq_act (WriteByte (dout_primitive out) (of_nat (length suffix)))
      (WriteBytes (dout_primitive out) suffix 0 (int (length suffix)))"
    using assms by (simp add: writeSuffix_def)
  then show ?thesis by (simp add: writes_Cons [OF WriteByte_writes WriteBytes_writes])
qed

lemma WriteIndexHeader_writes:
  assumes "isSimpleASCII codec" "length codec < 128" "length iid = 16" "isSimpleASCII suffix" "length suffix < 256"
  shows "writes ok room written (WriteIndexHeader out codec version (Some iid) suffix) (index_header_bytes codec version iid suffix)"
  using writes_seq [OF WriteHeader_writes [OF assms(1,2)] writes_seq [OF WriteBytes_writes [of iid] writeSuffix_writes [OF assms(4,5)]]] assms(3)
  by (simp add: WriteIndexHeader_def index_header_bytes_def idLength_def)

end

locale codec_source = byte_source "din_core inp" ok rest eof eofs
  for inp :: "'s data_input" and ok :: "'s \<Rightarrow> bool" and rest :: "'s \<Rightarrow> u8 list" and eof :: go_error and eofs :: go_error +
  assumes ReadString_law: "length t < 2 ^ 31 \<Longrightarrow> reads ok rest (din_ReadString inp) (string_bytes t) t"
begin

lemma ReadBEInt_reads: "reads ok rest (ReadBEInt inp) (be_int i) i"
proof -
  have "reads ok rest (ReadBEInt inp) (be_int i)
      (be_join (ucast (drop_bit 24 i)) (ucast (drop_bit 16 i)) (ucast (drop_bit 8 i)) (ucast i))"
    unfolding ReadBEInt_def be_int_def be_join_def
    apply (rule reads_bind_Cons [where a = "ucast (drop_bit 24 i)"], rule ReadByte_reads)
    apply (rule reads_bind_Cons [where a = "ucast (drop_bit 16 i)"], rule ReadByte_reads)
    apply (rule reads_bind_Cons [where a = "ucast (drop_bit 8 i)"], rule ReadByte_reads)
    apply (rule reads_bind_ret, rule ReadByte_reads)
    done
  then show ?thesis by (simp only: be_int_join)
qed

lemma ReadBELong_reads: "reads ok rest (ReadBELong inp) (be_long l) l"
proof -
  have "reads ok rest (ReadBELong inp) (be_long l)
      (push_bit 32 (scast (ucast (drop_bit 32 l) :: i32)) OR (scast (ucast l :: i32) AND 0xFFFFFFFF))"
    unfolding ReadBELong_def be_long_def
    by (rule reads_bind [where a = "ucast (drop_bit 32 l)"], rule ReadBEInt_reads, rule reads_bind_ret, rule ReadBEInt_reads)
  then show ?thesis by (simp only: be_long_join)
qed

text \<open>The verdicts on a header with the given fields.\<close>

lemma CheckHeader_yields:
  assumes "length codec < 2 ^ 31"
  shows "yields ok rest (CheckHeader inp codec' lo hi) (header_bytes codec v)
    (if codec \<noteq> codec' then Err (Errorf ''codec mismatch'')
     else if sint v < sint lo \<or> sint hi < sint v then Err (Errorf ''Format version is not supported'') else Ok v)"
proof -
  have v: "yields ok rest (bind_ract (ReadBEInt inp) (\<lambda>av. if sint av < sint lo then fail_ract (Errorf ''Format version is not supported'')
        else if sint hi < sint av then fail_ract (Errorf ''Format version is not supported'') else ret_ract av)) (be_int v @ [])
      (if sint v < sint lo \<or> sint hi < sint v then Err (Errorf ''Format version is not supported'') else Ok v)"
    by (rule yields_bind [OF ReadBEInt_reads]) (simp add: yields_fail yields_reads reads_ret)
  have "yields ok rest (CheckHeaderNoMagic inp codec' lo hi) (string_bytes codec @ be_int v)
      (if codec \<noteq> codec' then Err (Errorf ''codec mismatch'')
       else if sint v < sint lo \<or> sint hi < sint v then Err (Errorf ''Format version is not supported'') else Ok v)"
    unfolding CheckHeaderNoMagic_def
    by (rule yields_bind [OF ReadString_law [OF assms]]) (use v in \<open>simp add: yields_fail\<close>)
  then show ?thesis
    unfolding CheckHeader_def header_bytes_def by (intro yields_bind [OF ReadBEInt_reads]) simp
qed

lemma CheckIndexHeaderID_yields:
  assumes "length iid = 16"
  shows "yields ok rest (CheckIndexHeaderID inp expectedID) iid
    (if expectedID \<noteq> None \<and> expectedID \<noteq> Some iid then Err (Errorf ''file mismatch, expected id'') else Ok iid)"
proof -
  have "reads ok rest (ReadBytes (din_core inp) (replicate (nat idLength) 0) 0 idLength) iid iid"
    using ReadBytes_reads [of iid] assms by (simp add: idLength_def)
  then show ?thesis unfolding CheckIndexHeaderID_def
    by (rule yields_bind [where cs = "[]", simplified]) (auto simp: yields_fail yields_reads reads_ret)
qed

lemma CheckIndexHeaderSuffix_yields:
  assumes "length suffix < 256"
  shows "yields ok rest (CheckIndexHeaderSuffix inp suffix') ([of_nat (length suffix)] @ suffix)
    (if suffix \<noteq> suffix' then Err (Errorf ''file mismatch, expected suffix'') else Ok suffix)"
proof -
  let ?n = "of_nat (length suffix) :: u8"
  have n: "unat ?n = length suffix" using assms by (simp add: unat_of_nat)
  have "yields ok rest (bind_ract (ReadBytes (din_core inp) (replicate (unat ?n) 0) 0 (int (unat ?n))) (\<lambda>sf.
      if sf \<noteq> suffix' then fail_ract (Errorf ''file mismatch, expected suffix'') else ret_ract sf)) (suffix @ [])
      (if suffix \<noteq> suffix' then Err (Errorf ''file mismatch, expected suffix'') else Ok suffix)"
    unfolding n by (rule yields_bind [OF ReadBytes_reads]) (simp add: yields_fail yields_reads reads_ret)
  then show ?thesis unfolding CheckIndexHeaderSuffix_def
    by (intro yields_bind [OF ReadByte_reads]) simp
qed

end

definition header_verdict ::
  "gostring \<Rightarrow> i32 \<Rightarrow> u8 list \<Rightarrow> gostring \<Rightarrow> gostring \<Rightarrow> i32 \<Rightarrow> i32 \<Rightarrow> u8 list option \<Rightarrow> gostring \<Rightarrow> i32 outcome" where
  "header_verdict codec v iid suffix codec' lo hi expectedID suffix' =
     (if codec \<noteq> codec' then Err (Errorf ''codec mismatch'')
      else if sint v < sint lo \<or> sint hi < sint v then Err (Errorf ''Format version is not supported'')
      else if expectedID \<noteq> None \<and> expectedID \<noteq> Some iid then Err (Errorf ''file mismatch, expected id'')
      else if suffix \<noteq> suffix' then Err (Errorf ''file mismatch, expected suffix'')
      else Ok v)"

context codec_source
begin

lemma CheckIndexHeader_yields:
  assumes "length codec < 2 ^ 31" "length iid = 16" "length suffix < 256"
  shows "yields ok rest (CheckIndexHeader inp codec' lo hi expectedID suffix') (index_header_bytes codec v iid suffix)
    (header_verdict codec v iid suffix codec' lo hi expectedID suffix')"
proof -
  let ?h = "if codec \<noteq> codec' then Err (Errorf ''codec mismatch'')
     else if sint v < sint lo \<or> sint hi < sint v then Err (Errorf ''Format version is not supported'') else Ok v"
  let ?i = "if expectedID \<noteq> None \<and> expectedID \<noteq> Some iid then Err (Errorf ''file mismatch, expected id'') else Ok iid"
  let ?s = "if suffix \<noteq> suffix' then Err (Errorf ''file mismatch, expected suffix'') else Ok suffix"
  have s: "yields ok rest (bind_ract (CheckIndexHeaderSuffix inp suffix') (\<lambda>_. ret_ract w)) (([of_nat (length suffix)] @ suffix) @ [])
      (bind_out ?s (\<lambda>_. Ok w))" for w
    by (rule yields_bind_out [OF CheckIndexHeaderSuffix_yields [OF assms(3)]]) (auto simp: yields_reads reads_ret)
  have i: "yields ok rest (bind_ract (CheckIndexHeaderID inp expectedID) (\<lambda>_. bind_ract (CheckIndexHeaderSuffix inp suffix') (\<lambda>_. ret_ract w)))
      (iid @ [of_nat (length suffix)] @ suffix) (bind_out ?i (\<lambda>_. bind_out ?s (\<lambda>_. Ok w)))" for w
    by (rule yields_bind_out [OF CheckIndexHeaderID_yields [OF assms(2)]], rule s [simplified append_Nil2]) (simp split: if_splits)
  have "yields ok rest (CheckIndexHeader inp codec' lo hi expectedID suffix') (index_header_bytes codec v iid suffix)
      (bind_out ?h (\<lambda>w. bind_out ?i (\<lambda>_. bind_out ?s (\<lambda>_. Ok w))))"
    unfolding CheckIndexHeader_def index_header_bytes_def
    by (rule yields_bind_out [OF CheckHeader_yields [OF assms(1)]], rule i) (simp split: if_splits)
  then show ?thesis by (simp add: header_verdict_def if_distrib [of "\<lambda>r. bind_out r _"] cong: if_cong)
qed

end

section \<open>Footers\<close>

lemma be_int_surj: "length m = 4 \<Longrightarrow> \<exists>i. m = be_int i"
proof -
  assume "length m = 4"
  then obtain a b c d where m: "m = [a, b, c, d]" by (auto simp: numeral_eq_Suc length_Suc_conv)
  have "be_int (be_join a b c d) = m"
    unfolding m be_int_def list.inject
    by (intro conjI refl; rule bit_word_eqI) (auto simp: be_join_def bit_simps dest: bit_imp_le_length)
  then show ?thesis by metis
qed

lemma be_long_surj: "length m = 8 \<Longrightarrow> \<exists>l. m = be_long l"
proof -
  assume l: "length m = 8"
  obtain h where h: "take 4 m = be_int h" using be_int_surj [of "take 4 m"] l by auto
  obtain k where k: "drop 4 m = be_int k" using be_int_surj [of "drop 4 m"] l by auto
  let ?l = "push_bit 32 (ucast h) OR ucast k :: i64"
  have "ucast (drop_bit 32 ?l) = h" "ucast ?l = k"
    by (rule bit_word_eqI; auto simp: bit_simps dest: bit_imp_le_length)+
  then have "m = be_long ?l" unfolding be_long_def using h k by (metis append_take_drop_id)
  then show ?thesis by blast
qed

lemma be_long_inj: "be_long k = be_long l \<longleftrightarrow> k = l"
proof
  assume "be_long k = be_long l"
  then have e: "(ucast (drop_bit 32 k) :: i32) = ucast (drop_bit 32 l)" "(ucast k :: i32) = ucast l"
    by (simp_all only: be_long_def append_eq_append_conv length_be be_int_inj simp_thms)
  have "push_bit 32 (scast (ucast (drop_bit 32 k) :: i32)) OR (scast (ucast k :: i32) AND 0xFFFFFFFF)
      = push_bit 32 (scast (ucast (drop_bit 32 l) :: i32)) OR (scast (ucast l :: i32) AND (0xFFFFFFFF :: i64))"
    by (simp only: e)
  then show "k = l" by (simp only: be_long_join)
qed simp

lemma crc_value_legal: "(ucast (c :: u32) :: i64) AND NOT 0xFFFFFFFF = 0"
proof -
  have m: "(0xFFFFFFFF :: i64) = mask 32" by (simp add: mask_eq_exp_minus_1)
  show ?thesis unfolding m by (auto simp: bit_eq_iff bit_simps dest: bit_imp_le_length)
qed

lemma ucast_32_64_inj: "(ucast (a :: u32) :: i64) = ucast b \<Longrightarrow> a = b"
proof (rule bit_word_eqI)
  fix k assume "(ucast a :: i64) = ucast b" "k < LENGTH(32)"
  then show "bit a k = bit b k" using bit_ucast_iff [of a k, where 'a = 64] bit_ucast_iff [of b k, where 'a = 64] by simp
qed

text \<open>A file of at least sixteen bytes, cut at its footer.\<close>

lemma footer_split:
  assumes "16 \<le> length B"
  obtains mg al l where "drop (length B - 16) B = be_int mg @ be_int al @ be_long l"
    "drop (length B - 8) B = be_long l" "take (length B - 8) B = take (length B - 16) B @ be_int mg @ be_int al"
proof -
  let ?f = "drop (length B - 16) B"
  have len: "length ?f = 16" using assms by simp
  obtain mg where mg: "take 4 ?f = be_int mg" using be_int_surj [of "take 4 ?f"] len by auto
  obtain al where al: "take 4 (drop 4 ?f) = be_int al" using be_int_surj [of "take 4 (drop 4 ?f)"] len by auto
  obtain l where l: "drop 8 ?f = be_long l" using be_long_surj [of "drop 8 ?f"] len by auto
  have 1: "?f = be_int mg @ be_int al @ be_long l"
    using mg al l append_take_drop_id [of 4 ?f] append_take_drop_id [of 4 "drop 4 ?f"] by simp
  moreover have 2: "drop (length B - 8) B = be_long l" using l assms by simp
  moreover have "take (length B - 8) B @ drop (length B - 8) B = (take (length B - 16) B @ be_int mg @ be_int al) @ be_long l"
    using append_take_drop_id [of "length B - 16" B] unfolding 1 by simp
  then have "take (length B - 8) B = take (length B - 16) B @ be_int mg @ be_int al" unfolding 2 by simp
  ultimately show thesis by (rule that)
qed

sublocale index_reader \<subseteq> pl: codec_source "ii_data I" "okc B" restc eof eofs for B
  by (rule codec_source.intro) (simp_all add: ii_data_def core_law codec_source_axioms_def ReadString_law)

sublocale index_reader \<subseteq> ckc: codec_source "ii_data (ci_index_input I)" "ci_ok I okc B" "ci_rest restc" eof eofs for B
  by (rule codec_source.intro)
     (simp_all add: ii_data_def ci_index_input_def ck.byte_source_axioms codec_source_axioms_def ck.ReadString_reads)

lemma ci_index_input_sel [simp]:
  "ii_Length (ci_index_input I) = ci_Length I" "ii_GetFilePointer (ci_index_input I) = ci_GetFilePointer"
  by (simp_all add: ci_index_input_def)

text \<open>The verdict on a footer with the given fields after \<open>content\<close>.\<close>

definition footer_verdict :: "u8 list \<Rightarrow> i32 \<Rightarrow> i32 \<Rightarrow> i64 \<Rightarrow> i64 outcome" where
  "footer_verdict content mg al l =
     (if mg \<noteq> FOOTER_MAGIC then Err (Errorf ''codec footer mismatch (file truncated?)'')
      else if al \<noteq> 0 then Err (Errorf ''codec footer mismatch: unknown algorithmID'')
      else if l AND NOT 0xFFFFFFFF \<noteq> 0 then Err (Errorf ''Illegal CRC-32 checksum'')
      else if l \<noteq> ucast (file_crc content) then Err (Errorf ''checksum failed (hardware problem?)'')
      else Ok l)"

lemma footer_verdict_Ok:
  "footer_verdict content mg al l = Ok v \<longleftrightarrow> be_int mg @ be_int al @ be_long l = footer_bytes content \<and> v = ucast (file_crc content)"
  by (auto simp: footer_verdict_def footer_bytes_def be_int_inj be_long_inj crc_value_legal [simplified])

lemma footer_verdict_Err: "(\<exists>v. footer_verdict content mg al l = Ok v) \<or> (\<exists>e. footer_verdict content mg al l = Err e)"
  by (auto simp: footer_verdict_def)

context index_source
begin

lemma validateFooter_ok:
  assumes "ci_ok I okc B s" "ci_GetFilePointer s = int (length B) - 16" "ci_rest restc s = be_int mg @ be_int al @ be_long l"
  obtains r s' where "validateFooter (ci_index_input I) s = Some (r, s')" "ci_ok I okc B s'" "r = Ok () \<longrightarrow> ci_rest restc s' = be_long l"
    "r = (if mg \<noteq> FOOTER_MAGIC then Err (Errorf ''codec footer mismatch (file truncated?)'')
      else if al \<noteq> 0 then Err (Errorf ''codec footer mismatch: unknown algorithmID'') else Ok ())"
proof -
  let ?inp = "ii_data (ci_index_input I)"
  let ?r2 = "if al \<noteq> 0 then Err (Errorf ''codec footer mismatch: unknown algorithmID'') else Ok ()"
  let ?r = "if mg \<noteq> FOOTER_MAGIC then Err (Errorf ''codec footer mismatch (file truncated?)'') else ?r2"
  let ?k = "\<lambda>magic. if magic \<noteq> FOOTER_MAGIC then fail_ract (Errorf ''codec footer mismatch (file truncated?)'')
           else bind_ract (ReadBEInt ?inp) (\<lambda>algorithmID.
             if algorithmID \<noteq> 0 then fail_ract (Errorf ''codec footer mismatch: unknown algorithmID'') else ret_ract ())"
  have a: "yields (ci_ok I okc B) (ci_rest restc) (bind_ract (ReadBEInt ?inp) (\<lambda>algorithmID.
      if algorithmID \<noteq> 0 then fail_ract (Errorf ''codec footer mismatch: unknown algorithmID'') else ret_ract ())) (be_int al @ []) ?r2"
    by (rule yields_bind [OF ckc.ReadBEInt_reads]) (simp add: yields_fail yields_reads reads_ret)
  have y: "yields (ci_ok I okc B) (ci_rest restc) (bind_ract (ReadBEInt ?inp) ?k) (be_int mg @ be_int al) ?r"
    by (rule yields_bind [OF ckc.ReadBEInt_reads]) (use a in \<open>simp add: yields_fail\<close>)
  have "validateFooter (ci_index_input I) s = bind_ract (ReadBEInt ?inp) ?k s"
    using ci_fp_rest(5) [OF assms(1)] assms(2) by (simp add: validateFooter_def FooterLength_def Let_def)
  with yieldsD [OF y assms(1), of "be_long l"] assms(3) that show thesis by fastforce
qed

lemma CheckFooter_ok:
  assumes "ci_ok I okc B s" "ci_GetFilePointer s = int (length B) - 16"
    and "16 \<le> length B" "drop (length B - 16) B = be_int mg @ be_int al @ be_long l"
    and t8: "take (length B - 8) B = take (length B - 16) B @ be_int mg @ be_int al"
  obtains s' where "CheckFooter I s = Some (footer_verdict (take (length B - 16) B) mg al l, s')" "ci_ok I okc B s'"
proof -
  let ?inp = "ii_data (ci_index_input I)" and ?c = "take (length B - 16) B"
  have "ci_rest restc s = be_int mg @ be_int al @ be_long l"
    using ci_fp_rest(3) [OF assms(1)] assms(2-4) by (simp add: nat_diff_distrib)
  then obtain r s1 where v: "validateFooter (ci_index_input I) s = Some (r, s1)" "ci_ok I okc B s1"
      "r = Ok () \<longrightarrow> ci_rest restc s1 = be_long l"
      "r = (if mg \<noteq> FOOTER_MAGIC then Err (Errorf ''codec footer mismatch (file truncated?)'')
        else if al \<noteq> 0 then Err (Errorf ''codec footer mismatch: unknown algorithmID'') else Ok ())"
    by (rule validateFooter_ok [OF assms(1,2)])
  show thesis
  proof (cases "mg = FOOTER_MAGIC \<and> al = 0")
    case False
    then have "CheckFooter I s = Some (footer_verdict ?c mg al l, s1)"
      using v(1,4) by (auto simp: CheckFooter_def bind_ract_def footer_verdict_def)
    then show thesis using v(2) by (rule that)
  next
    case True
    then have rest: "ci_rest restc s1 = be_long l" and r: "r = Ok ()" using v(3,4) by simp_all
    have "drop (nat (ci_GetFilePointer s1)) B = be_long l" using ci_fp_rest(3) [OF v(2)] rest by simp
    from arg_cong [OF this, of length] have "length B - nat (ci_GetFilePointer s1) = 8" by simp
    then have "ci_GetFilePointer s1 = int (length B) - 8" using ci_fp_rest(1,2) [OF v(2)] by simp
    then have "nat (ci_GetFilePointer s1) = length B - 8" using assms(3) by simp
    then have ck: "ci_GetChecksum s1 = (file_crc ?c, s1)"
      using ci_GetChecksum_ok [OF v(2)] True by (simp add: t8 file_crc_def)
    let ?k = "\<lambda>expectedChecksum. if expectedChecksum \<noteq> ucast (file_crc ?c) then fail_ract (Errorf ''checksum failed (hardware problem?)'')
              else ret_ract (ucast (file_crc ?c))"
    let ?v = "if l AND NOT 0xFFFFFFFF \<noteq> 0 then Err (Errorf ''Illegal CRC-32 checksum'') else Ok l"
    have "yields (ci_ok I okc B) (ci_rest restc) (ReadCRC ?inp) (be_long l @ []) ?v"
      unfolding ReadCRC_def by (rule yields_bind [OF ckc.ReadBELong_reads]) (simp add: yields_fail yields_reads reads_ret)
    then have "yields (ci_ok I okc B) (ci_rest restc) (bind_ract (ReadCRC ?inp) ?k) ((be_long l @ []) @ [])
        (bind_out ?v (\<lambda>w. if w \<noteq> ucast (file_crc ?c) then Err (Errorf ''checksum failed (hardware problem?)'') else Ok w))"
      by (rule yields_bind_out) (auto simp: yields_fail yields_reads reads_ret)
    moreover have "bind_out ?v (\<lambda>w. if w \<noteq> ucast (file_crc ?c) then Err (Errorf ''checksum failed (hardware problem?)'') else Ok w)
        = footer_verdict ?c mg al l" using True by (simp add: footer_verdict_def)
    ultimately have y: "yields (ci_ok I okc B) (ci_rest restc) (bind_ract (ReadCRC ?inp) ?k) (be_long l) (footer_verdict ?c mg al l)" by simp
    obtain s2 where s2: "bind_ract (ReadCRC ?inp) ?k s1 = Some (footer_verdict ?c mg al l, s2)" "ci_ok I okc B s2"
      by (rule yieldsD [OF y v(2), of "[]"]) (simp_all add: rest)
    have "CheckFooter I s = bind_ract (ReadCRC ?inp) ?k s1"
      using v(1) by (simp add: r CheckFooter_def bind_ract_def ck Let_def)
    then show thesis using that s2 by simp
  qed
qed

text \<open>
  \<open>ChecksumEntireFile\<close> accepts exactly the files that end in the footer of their content,
  always returns, and leaves the caller's input as it was.
\<close>

lemma ChecksumEntireFile_ok:
  assumes "okc B (g, i)"
  obtains r g' where "ChecksumEntireFile I (g, i) = Some (r, (g', i))" "okc B (g', i)"
    "\<forall>v. r = Ok v \<longleftrightarrow> (\<exists>content. B = content @ footer_bytes content \<and> v = ucast (file_crc content))"
    "(\<exists>w. r = Ok w) \<or> (\<exists>e. r = Err e)"
proof -
  obtain gc c where cl: "ii_SetPosition I 0 (ii_Clone I (g, i)) = (Ok (), (gc, c))" "okc B (gc, c)" "ii_GetFilePointer I (gc, c) = 0"
    using SetPosition_law [of B "ii_Clone I (g, i)" 0] Clone_law [OF assms] by auto
  let ?cs = "(gc, NewChecksumIndexInput c)"
  have ok: "ci_ok I okc B ?cs" by (rule new_ok [OF cl(2,3)])
  have len: "ci_Length I ?cs = int (length B)" by (rule ci_fp_rest(5) [OF ok])
  have close: "okc B (fst (ci_Close I cs'), i)" if k: "ci_ok I okc B cs'" for cs'
  proof -
    obtain h d where cs': "cs' = (h, d)" by fastforce
    obtain h' d' where cc: "ii_Close I (h, ci_input d) = (h', d')" by fastforce
    have "okc B (h, ci_input d)" using k by (simp add: cs' ci_ok_def)
    then have "okc B (h', ci_input d)" using Close_law cc by blast
    then show ?thesis using share_law [OF assms] cc by (auto simp: cs' ci_Close_def)
  qed
  show thesis
  proof (cases "length B < 16")
    case True
    have "ChecksumEntireFile I (g, i) = Some (Err (Errorf ''misplaced codec footer (file truncated?)''), (fst (ci_Close I ?cs), i))"
      using True cl(1) len by (simp add: ChecksumEntireFile_def FooterLength_def Let_def)
    then show thesis using that close [OF ok] True by force
  next
    case False
    then have B: "16 \<le> length B" by simp
    have fp: "ci_GetFilePointer ?cs = 0"
      by (simp add: ci_GetFilePointer_def NewChecksumIndexInput_def NewChecksumIndexInputWithType_def)
    obtain s1 where s1: "ci_SetPosition I (int (length B) - 16) ?cs = (Ok (), s1)" "ci_ok I okc B s1" "ci_GetFilePointer s1 = int (length B) - 16"
      using ci_SetPosition_ok [OF ok, of "int (length B) - 16"] fp B by auto
    obtain mg al l where f: "drop (length B - 16) B = be_int mg @ be_int al @ be_long l"
        "take (length B - 8) B = take (length B - 16) B @ be_int mg @ be_int al" by (rule footer_split [OF B])
    let ?c = "take (length B - 16) B"
    obtain s2 where s2: "CheckFooter I s1 = Some (footer_verdict ?c mg al l, s2)" "ci_ok I okc B s2"
      by (rule CheckFooter_ok [OF s1(2,3) B f])
    have "ChecksumEntireFile I (g, i) = Some (footer_verdict ?c mg al l, (fst (ci_Close I s2), i))"
      using cl(1) s1(1) s2(1) B len
      by (simp add: ChecksumEntireFile_def FooterLength_def Let_def bind_ract_def lift_ract_def)
    moreover have "\<forall>v. footer_verdict ?c mg al l = Ok v \<longleftrightarrow> (\<exists>content. B = content @ footer_bytes content \<and> v = ucast (file_crc content))"
    proof
      fix v
      have "B = ?c @ drop (length B - 16) B" by simp
      moreover have "content = ?c" if "B = content @ footer_bytes content" for content
        using arg_cong [OF that, of length] arg_cong [OF that, of "take (length content)"] by simp
      ultimately show "footer_verdict ?c mg al l = Ok v \<longleftrightarrow> (\<exists>content. B = content @ footer_bytes content \<and> v = ucast (file_crc content))"
        unfolding footer_verdict_Ok f(1) [symmetric] by (metis same_append_eq)
    qed
    ultimately show thesis using that close [OF s2(2)] footer_verdict_Err by blast
  qed
qed

end

sublocale checksum_sink \<subseteq> cs: codec_sink "co_data_output OT" "co_ok ok written" "on_wrapped room" "on_wrapped written"
  by (rule codec_sink.intro)
     (simp_all add: co_data_output_def ck.byte_sink_axioms codec_sink_axioms_def co_WriteString_writes)

context checksum_sink
begin

lemma WriteFooter_ok:
  assumes "co_ok ok written s" "16 \<le> on_wrapped room s"
  obtains s' where "WriteFooter (co_data_output OT) (Some co_GetChecksum) s = (Ok (), s')" "co_ok ok written s'"
    "on_wrapped written s' = on_wrapped written s @ footer_bytes (on_wrapped written s)"
proof -
  let ?o = "co_data_output OT"
  obtain s1 where s1: "WriteBEInt ?o FOOTER_MAGIC s = (Ok (), s1)" "co_ok ok written s1"
      "on_wrapped written s1 = on_wrapped written s @ be_int FOOTER_MAGIC" "on_wrapped room s1 = on_wrapped room s - length (be_int FOOTER_MAGIC)"
    by (rule writesD [OF cs.WriteBEInt_writes assms(1)]) (use assms(2) in simp_all)
  obtain s2 where s2: "WriteBEInt ?o 0 s1 = (Ok (), s2)" "co_ok ok written s2"
      "on_wrapped written s2 = on_wrapped written s1 @ be_int 0" "on_wrapped room s2 = on_wrapped room s1 - length (be_int 0)"
    by (rule writesD [OF cs.WriteBEInt_writes s1(2)]) (use assms(2) s1(4) in simp_all)
  have ck: "co_GetChecksum s2 = (file_crc (on_wrapped written s), s2)"
    using co_GetChecksum_ok [OF s2(2)] s1(3) s2(3) by (simp add: file_crc_def)
  obtain s3 where s3: "WriteBELong ?o (ucast (file_crc (on_wrapped written s))) s2 = (Ok (), s3)" "co_ok ok written s3"
      "on_wrapped written s3 = on_wrapped written s2 @ be_long (ucast (file_crc (on_wrapped written s)))"
    by (rule writesD [OF cs.WriteBELong_writes s2(2)]) (use assms(2) s1(4) s2(4) in simp_all)
  have "WriteFooter ?o (Some co_GetChecksum) s = (Ok (), s3)"
    using s1(1) s2(1) s3(1) ck by (simp add: WriteFooter_def seq_act_Ok WriteCRC_def Let_def crc_value_legal [simplified])
  then show thesis using that s1(3) s2(3) s3(2,3) by (simp add: footer_bytes_def)
qed

end

interpretation bacs: codec_sink "base_data_output bao_primitive" bao_ok bao_room bao_written
  by (rule codec_sink.intro)
     (simp_all add: base_data_output_def bao.byte_sink_axioms codec_sink_axioms_def bao.WriteString_writes)

interpretation bacr: codec_source "base_data_input bai_core" bai_ok bai_rest EOF EOF
  by (rule codec_source.intro)
     (simp_all add: base_data_input_def bai.byte_source_axioms codec_source_axioms_def bai.ReadString_reads)

section \<open>Properties\<close>

text \<open>
  C4: \<open>ChecksumEntireFile\<close> always returns, with a value or an error and never a panic; it
  accepts a file exactly when the file is some content followed by the footer of that
  content, and then returns the CRC-32; the caller's input is unchanged and still usable.
\<close>

theorem checksum_entire_file:
  assumes "bbi_okc B (d, inp)"
  shows "\<exists>r d'. ChecksumEntireFile bbi_index_input (d, inp) = Some (r, (d', inp)) \<and> bbi_okc B (d', inp)
     \<and> (\<forall>v. r = Ok v \<longleftrightarrow> (\<exists>content. B = content @ footer_bytes content \<and> v = ucast (file_crc content)))
     \<and> ((\<exists>v. r = Ok v) \<or> (\<exists>e. r = Err e))"
  by (rule bbx.ChecksumEntireFile_ok [OF assms]) blast

theorem checksum_entire_file_witness:
  "\<exists>v d'. ChecksumEntireFile bbi_index_input (NewByteBuffersDirectory, newByteBuffersIndexInput [[1, 2] @ footer_bytes [1, 2]] [97])
     = Some (Ok v, (d', newByteBuffersIndexInput [[1, 2] @ footer_bytes [1, 2]] [97])) \<and> v = ucast (file_crc [1, 2])"
  using checksum_entire_file [OF fresh_input_okc [of "[1, 2] @ footer_bytes [1, 2]" "[97]"]] by blast

text \<open>
  C5: a file whose content was changed inside a window of at most four consecutive bytes
  after its footer was written is refused by \<open>ChecksumEntireFile\<close>.
\<close>

theorem corruption_detected:
  assumes "length x = length y" "length x \<le> 4" "x \<noteq> y"
    and "bbi_okc ((pre @ y @ post) @ footer_bytes (pre @ x @ post)) (d, inp)"
  shows "\<exists>e s'. ChecksumEntireFile bbi_index_input (d, inp) = Some (Err e, s')"
proof -
  let ?B = "(pre @ y @ post) @ footer_bytes (pre @ x @ post)"
  have ne: "file_crc (pre @ x @ post) \<noteq> file_crc (pre @ y @ post)"
    using crc_burst [OF assms(1-3), of 0 pre "post @ be_int FOOTER_MAGIC @ be_int 0"] by (simp add: file_crc_def)
  have "footer_bytes (pre @ y @ post) \<noteq> footer_bytes (pre @ x @ post)"
  proof
    assume "footer_bytes (pre @ y @ post) = footer_bytes (pre @ x @ post)"
    then have "(ucast (file_crc (pre @ y @ post)) :: i64) = ucast (file_crc (pre @ x @ post))"
      by (simp add: footer_bytes_def be_long_inj)
    then show False using ne ucast_32_64_inj by metis
  qed
  then have "\<nexists>content. ?B = content @ footer_bytes content"
    by (metis append_eq_append_conv length_footer_bytes)
  then show ?thesis by (metis bbx.ChecksumEntireFile_ok [OF assms(4)])
qed

theorem corruption_detected_witness:
  "\<exists>e s'. ChecksumEntireFile bbi_index_input
     (NewByteBuffersDirectory, newByteBuffersIndexInput [([1] @ [9, 3] @ [4]) @ footer_bytes ([1] @ [2, 3] @ [4])] [97]) = Some (Err e, s')"
  by (rule corruption_detected [OF _ _ _ fresh_input_okc]) simp_all

text \<open>
  C7: \<open>CheckIndexHeader\<close> on a header that \<open>WriteIndexHeader\<close> wrote returns the version when
  codec, version range, id and suffix are the expected ones, and otherwise the error of
  the first field that is not.
\<close>

theorem index_header_checked:
  assumes "isSimpleASCII codec" "length codec < 128" "length iid = 16" "isSimpleASCII suffix" "length suffix < 256"
    and "length (index_header_bytes codec v iid suffix) \<le> length buf"
  shows "\<exists>o1 s'. WriteIndexHeader (base_data_output bao_primitive) codec v (Some iid) suffix (NewByteArrayDataOutput buf) = (Ok (), o1)
     \<and> CheckIndexHeader (base_data_input bai_core) codec' lo hi expectedID suffix' (NewByteArrayDataInput (bao_GetBytes o1))
         = Some (header_verdict codec v iid suffix codec' lo hi expectedID suffix', s')"
proof -
  have c: "length codec < 2 ^ 31" using assms(2) by simp
  obtain o1 where "WriteIndexHeader (base_data_output bao_primitive) codec v (Some iid) suffix (NewByteArrayDataOutput buf) = (Ok (), o1)"
      "bai_rest (NewByteArrayDataInput (bao_GetBytes o1)) = index_header_bytes codec v iid suffix @ drop (length (index_header_bytes codec v iid suffix)) (bao_bytes o1)"
    by (rule array_write [OF bacs.WriteIndexHeader_writes [OF assms(1-5)] assms(6)])
  then show ?thesis
    using yieldsD [OF bacr.CheckIndexHeader_yields [OF c assms(3,5)] NewByteArrayDataInput_ok] by metis
qed

theorem index_header_checked_witness:
  "\<exists>o1 s'. WriteIndexHeader (base_data_output bao_primitive) [65, 66] 3 (Some (replicate 16 7)) [95] (NewByteArrayDataOutput (replicate 64 0)) = (Ok (), o1)
     \<and> CheckIndexHeader (base_data_input bai_core) [65, 66] 4 9 None [95] (NewByteArrayDataInput (bao_GetBytes o1))
         = Some (Err (Errorf ''Format version is not supported''), s')"
proof -
  have "isSimpleASCII [65, 66]" "isSimpleASCII [95]" by (simp_all add: isSimpleASCII_def)
  moreover have "length (index_header_bytes [65, 66] 3 (replicate 16 7) [95]) \<le> length (replicate 64 (0 :: u8))"
    by (simp add: index_header_bytes_def header_bytes_def string_bytes_def vbytes.simps)
  moreover have "header_verdict [65, 66] 3 (replicate 16 7) [95] [65, 66] 4 9 None [95] = Err (Errorf ''Format version is not supported'')"
    by (simp add: header_verdict_def)
  ultimately show ?thesis
    using index_header_checked [of "[65, 66]" "replicate 16 7" "[95]" 3 "replicate 64 0" "[65, 66]" 4 9 None "[95]"] by simp
qed

text \<open>The two halves of framing a file.\<close>

lemma framed_write:
  assumes "bbo_ok D r (d1, out)" "bbo_data out = []"
    and hdr: "isSimpleASCII codec" "length codec < 128" "length iid = 16" "isSimpleASCII suffix" "length suffix < 256"
  obtains s1 s2 out' c' where
    "WriteIndexHeader (co_data_output bbo_index_output) codec v (Some iid) suffix
       (d1, NewChecksumIndexOutput bbo_index_output (d1, out)) = (Ok (), s1)"
    "co_WriteBytes bbo_index_output body 0 (int (length body)) s1 = (Ok (), s2)"
    "WriteFooter (co_data_output bbo_index_output) (Some co_GetChecksum) s2 = (Ok (), (D, c'))"
    "co_output c' = out'" "bbo_ok D r (D, out')"
    "bbo_data out' = (index_header_bytes codec v iid suffix @ body) @ footer_bytes (index_header_bytes codec v iid suffix @ body)"
proof -
  let ?h = "index_header_bytes codec v iid suffix"
  let ?N = "length ?h + length body + 16" and ?w = "\<lambda>s. bbo_data (snd s)"
  let ?ok = "co_ok (bbo_ok D r) ?w"
  let ?s0 = "(d1, NewChecksumIndexOutput bbo_index_output (d1, out))"
  have o: "?ok ?s0" using cko.new_output_ok [of D r "(d1, out)"] assms(1,2) by simp
  have z: "on_wrapped ?w ?s0 = []" "on_wrapped (\<lambda>s. ?N - length (?w s)) ?s0 = ?N"
    using assms(2) by (simp_all add: on_wrapped_def NewChecksumIndexOutput_def NewChecksumIndexOutputWithType_def)
  obtain s1 where s1: "WriteIndexHeader (co_data_output bbo_index_output) codec v (Some iid) suffix ?s0 = (Ok (), s1)"
      "?ok s1" "on_wrapped ?w s1 = on_wrapped ?w ?s0 @ ?h"
      "on_wrapped (\<lambda>s. ?N - length (?w s)) s1 = on_wrapped (\<lambda>s. ?N - length (?w s)) ?s0 - length ?h"
    by (rule writesD [OF cko.cs.WriteIndexHeader_writes [where D = D and r = r and N = ?N and version = v, OF hdr] o]) (use z in simp_all)
  obtain s2 where s2: "co_WriteBytes bbo_index_output body 0 (int (length body)) s1 = (Ok (), s2)"
      "?ok s2" "on_wrapped ?w s2 = on_wrapped ?w s1 @ body"
      "on_wrapped (\<lambda>s. ?N - length (?w s)) s2 = on_wrapped (\<lambda>s. ?N - length (?w s)) s1 - length body"
    by (rule writesD [OF cko.co_WriteBytes_writes [of D r ?N body] s1(2)]) (use z s1(4) in simp_all)
  obtain s3 where s3: "WriteFooter (co_data_output bbo_index_output) (Some co_GetChecksum) s2 = (Ok (), s3)"
      "?ok s3" "on_wrapped ?w s3 = on_wrapped ?w s2 @ footer_bytes (on_wrapped ?w s2)"
    by (rule cko.WriteFooter_ok [where N = ?N, OF s2(2)]) (use z s1(4) s2(4) in simp_all)
  obtain c' where "s3 = (D, c')" using s3(2) by (cases s3) (simp add: co_ok_def bbo_ok_def)
  then show thesis
    using that [OF s1(1) s2(1), of c' "co_output c'"] s3 z(1) s1(3) s2(3) by (simp add: co_ok_def on_wrapped_def)
qed

lemma framed_read:
  assumes "bbi_okc (hb @ body @ footer_bytes (hb @ body)) (d, inp)" "bbi_rest (d, inp) = hb @ body @ footer_bytes (hb @ body)"
    and "length codec < 128" "length iid = 16" "length suffix < 256" "sint lo \<le> sint v" "sint v \<le> sint hi"
    and h: "hb = index_header_bytes codec v iid suffix"
  shows "\<exists>s'. CheckIndexHeader (ii_data bbi_index_input) codec lo hi (Some iid) suffix (d, inp) = Some (Ok v, s')
        \<and> bbi_rest s' = body @ footer_bytes (hb @ body)"
    and "\<exists>d'. ChecksumEntireFile bbi_index_input (d, inp) = Some (Ok (ucast (file_crc (hb @ body))), (d', inp))"
proof -
  have "header_verdict codec v iid suffix codec lo hi (Some iid) suffix = Ok v" using assms(6,7) by (simp add: header_verdict_def)
  then have y: "yields (bbi_okc B) bbi_rest (CheckIndexHeader (ii_data bbi_index_input) codec lo hi (Some iid) suffix) hb (Ok v)" for B
    unfolding h
    using bbx.pl.CheckIndexHeader_yields [of codec iid suffix B codec lo hi "Some iid" suffix v] assms(3-5) by simp
  show "\<exists>s'. CheckIndexHeader (ii_data bbi_index_input) codec lo hi (Some iid) suffix (d, inp) = Some (Ok v, s')
      \<and> bbi_rest s' = body @ footer_bytes (hb @ body)"
    by (rule yieldsD [OF y assms(1,2)]) auto
  obtain r d' where "ChecksumEntireFile bbi_index_input (d, inp) = Some (r, (d', inp))"
      "\<forall>w. r = Ok w \<longleftrightarrow> (\<exists>content. hb @ body @ footer_bytes (hb @ body) = content @ footer_bytes content \<and> w = ucast (file_crc content))"
    by (rule bbx.ChecksumEntireFile_ok [OF assms(1)])
  then show "\<exists>d'. ChecksumEntireFile bbi_index_input (d, inp) = Some (Ok (ucast (file_crc (hb @ body))), (d', inp))"
    by (metis append.assoc)
qed

text \<open>
  C3: a file framed the way the codecs do it - index header, body and footer through a
  checksumming output on a new file of the directory - is stored on \<open>Close\<close>; after
  \<open>OpenInput\<close> its header is accepted with the version that was written, the body
  follows, and \<open>ChecksumEntireFile\<close> accepts the file.
\<close>

theorem file_envelope_roundtrip:
  assumes "bd_wf d" "bd_isOpen d" "bd_abs d name = None"
    and hdr: "isSimpleASCII codec" "length codec < 128" "length iid = 16" "isSimpleASCII suffix" "length suffix < 256"
    and ver: "sint lo \<le> sint v" "sint v \<le> sint hi"
  shows "\<exists>out d1 s1 s2 s3 d4 c4 inp d5 s6 d7.
       bd_CreateOutput name d = (Ok out, d1)
     \<and> WriteIndexHeader (co_data_output bbo_index_output) codec v (Some iid) suffix
         (d1, NewChecksumIndexOutput bbo_index_output (d1, out)) = (Ok (), s1)
     \<and> co_WriteBytes bbo_index_output body 0 (int (length body)) s1 = (Ok (), s2)
     \<and> WriteFooter (co_data_output bbo_index_output) (Some co_GetChecksum) s2 = (Ok (), s3)
     \<and> co_Close bbo_index_output s3 = (d4, c4)
     \<and> bd_OpenInput name d4 = (Ok inp, d5)
     \<and> CheckIndexHeader (ii_data bbi_index_input) codec lo hi (Some iid) suffix (d5, inp) = Some (Ok v, s6)
     \<and> take (length body) (bbi_rest s6) = body
     \<and> ChecksumEntireFile bbi_index_input (d5, inp)
         = Some (Ok (ucast (file_crc (index_header_bytes codec v iid suffix @ body))), (d7, inp))"
proof -
  let ?h = "index_header_bytes codec v iid suffix" and ?r = "bd_fresh d"
  obtain out d1 where c: "bd_CreateOutput name d = (Ok out, d1)" "bd_wf d1" "bd_isOpen d1" "bd_abs d1 = (bd_abs d)(name \<mapsto> [])"
      "out = \<lparr>bbo_name = name, bbo_filePointer = 0, bbo_file = Some ?r, bbo_data = []\<rparr>" "map_of (bd_files d1) name = Some ?r"
    by (rule create_ok [OF assms(1-3)])
  have "bbo_ok d1 ?r (d1, out)" "bbo_data out = []" using c(3) by (simp_all add: bbo_ok_def c(5))
  then obtain s1 s2 out' c' where w:
      "WriteIndexHeader (co_data_output bbo_index_output) codec v (Some iid) suffix
         (d1, NewChecksumIndexOutput bbo_index_output (d1, out)) = (Ok (), s1)"
      "co_WriteBytes bbo_index_output body 0 (int (length body)) s1 = (Ok (), s2)"
      "WriteFooter (co_data_output bbo_index_output) (Some co_GetChecksum) s2 = (Ok (), (d1, c'))"
      "co_output c' = out'" "bbo_ok d1 ?r (d1, out')" "bbo_data out' = (?h @ body) @ footer_bytes (?h @ body)"
    by (rule framed_write [OF _ _ hdr])
  have "bbo_file out' = Some ?r" using w(5) by (simp add: bbo_ok_def)
  then obtain d2 where cl: "bbo_Close (d1, out') = (d2, out')" "bd_wf d2" "bd_isOpen d2" "bd_abs d2 = (bd_abs d1)(name \<mapsto> bbo_data out')"
    by (rule close_new_file [OF c(2,3,6)])
  have close: "co_Close bbo_index_output (d1, c') = (d2, c')" using cl(1) w(4) by (auto simp: co_Close_def bbo_index_output_def)
  have "bd_abs d2 name = Some (?h @ body @ footer_bytes (?h @ body))" by (simp add: cl(4) w(6))
  then obtain inp d3 where op: "bd_OpenInput name d2 = (Ok inp, d3)" "bbi_ok (d3, inp)"
      "bbi_bytes (d3, inp) = ?h @ body @ footer_bytes (?h @ body)" "bbi_rest (d3, inp) = ?h @ body @ footer_bytes (?h @ body)"
    by (rule open_ok [OF cl(2,3)])
  have okc: "bbi_okc (?h @ body @ footer_bytes (?h @ body)) (d3, inp)" using op by (simp add: bbi_okc_def)
  obtain s6 where rd: "CheckIndexHeader (ii_data bbi_index_input) codec lo hi (Some iid) suffix (d3, inp) = Some (Ok v, s6)"
      "take (length body) (bbi_rest s6) = body"
    using framed_read(1) [OF okc op(4) hdr(2,3,5) ver refl] by auto
  obtain d7 where ce: "ChecksumEntireFile bbi_index_input (d3, inp) = Some (Ok (ucast (file_crc (?h @ body))), (d7, inp))"
    using framed_read(2) [OF okc op(4) hdr(2,3,5) ver refl] by auto
  show ?thesis by (intro exI conjI) (fact c(1) w(1-3) close op(1) rd ce)+
qed

theorem file_envelope_roundtrip_witness:
  "\<exists>out d1 s1 s2 s3 d4 c4 inp d5 s6 d7.
       bd_CreateOutput [97] NewByteBuffersDirectory = (Ok out, d1)
     \<and> WriteIndexHeader (co_data_output bbo_index_output) [65] 3 (Some (replicate 16 7)) []
         (d1, NewChecksumIndexOutput bbo_index_output (d1, out)) = (Ok (), s1)
     \<and> co_WriteBytes bbo_index_output [1, 2] 0 (int (length [1, 2 :: u8])) s1 = (Ok (), s2)
     \<and> WriteFooter (co_data_output bbo_index_output) (Some co_GetChecksum) s2 = (Ok (), s3)
     \<and> co_Close bbo_index_output s3 = (d4, c4)
     \<and> bd_OpenInput [97] d4 = (Ok inp, d5)
     \<and> CheckIndexHeader (ii_data bbi_index_input) [65] 0 5 (Some (replicate 16 7)) [] (d5, inp) = Some (Ok 3, s6)
     \<and> take (length [1, 2 :: u8]) (bbi_rest s6) = [1, 2]
     \<and> ChecksumEntireFile bbi_index_input (d5, inp)
         = Some (Ok (ucast (file_crc (index_header_bytes [65] 3 (replicate 16 7) [] @ [1, 2]))), (d7, inp))"
  by (rule file_envelope_roundtrip)
     (simp_all add: bd_wf_def NewByteBuffersDirectory_def counts_pos_def bd_abs_def isSimpleASCII_def)

context codec_sink
begin

lemma spi_WriteIndexHeader_writes:
  assumes "length codec < 2 ^ 31" "length iid = 16" "length suffix < 256"
  shows "writes ok room written (spi_WriteIndexHeader out codec version (Some iid) suffix) (index_header_bytes codec version iid suffix)"
proof -
  have "writes ok room written (if length suffix > 0 then WriteBytes (dout_primitive out) suffix 0 (int (length suffix)) else ret_act ()) suffix"
    using WriteBytes_writes [of suffix] by (simp add: writes_ret)
  then have "writes ok room written (seq_act (WriteBEInt out CODEC_MAGIC) (seq_act (dout_WriteString out codec) (seq_act (WriteBEInt out version)
      (seq_act (WriteBytes (dout_primitive out) iid 0 (int (length iid))) (seq_act (WriteByte (dout_primitive out) (of_nat (length suffix)))
        (if length suffix > 0 then WriteBytes (dout_primitive out) suffix 0 (int (length suffix)) else ret_act ()))))))
      (be_int CODEC_MAGIC @ string_bytes codec @ be_int version @ iid @ [of_nat (length suffix)] @ suffix)"
    by (intro writes_seq WriteBEInt_writes WriteString_law WriteBytes_writes WriteByte_writes assms(1))
  then show ?thesis using assms(2,3) by (simp add: spi_WriteIndexHeader_def index_header_bytes_def header_bytes_def)
qed

lemma WriteIndexHeader_refuses:
  assumes "\<not> (isSimpleASCII codec \<and> length codec < 128 \<and> isSimpleASCII suffix)" "length iid = 16" "ok s"
    "length (header_bytes codec version @ iid) \<le> room s"
  shows "\<exists>e s'. WriteIndexHeader out codec version (Some iid) suffix s = (Err (Errorf e), s')"
proof (cases "isSimpleASCII codec \<and> length codec < 128")
  case False
  then show ?thesis using assms(2)
    by (auto simp: WriteIndexHeader_def WriteHeader_def checkCodecName_def seq_act_def bind_act_def fail_act_def idLength_def)
next
  case True
  then obtain s1 where s1: "seq_act (WriteHeader out codec version) (WriteBytes (dout_primitive out) iid 0 (int (length iid))) s = (Ok (), s1)"
    using writes_seq [OF WriteHeader_writes [of codec version] WriteBytes_writes [of iid]] assms(3,4) writesD by (metis (no_types))
  have "WriteIndexHeader out codec version (Some iid) suffix s
      = seq_act (seq_act (WriteHeader out codec version) (WriteBytes (dout_primitive out) iid 0 (int (length iid)))) (writeSuffix out suffix) s"
    using assms(2) by (simp add: WriteIndexHeader_def idLength_def seq_act_def bind_act_assoc)
  also have "\<dots> = writeSuffix out suffix s1" using s1 by (simp only: seq_act_Ok)
  finally show ?thesis using assms(1) True by (auto simp: writeSuffix_def fail_act_def)
qed

end

text \<open>
  the header writers of packages \<^verbatim>\<open>store\<close> and \<^verbatim>\<open>spi\<close> write the same bytes for simple
  names; for a codec name or suffix that is not short ASCII the one of \<^verbatim>\<open>store\<close> refuses,
  while the one of \<^verbatim>\<open>spi\<close> writes the header.
\<close>

theorem spi_header_writer:
  assumes "length codec < 2 ^ 31" "length iid = 16" "length suffix < 256"
    and "length (index_header_bytes codec v iid suffix) \<le> length buf"
  shows "\<exists>o1. spi_WriteIndexHeader (base_data_output bao_primitive) codec v (Some iid) suffix (NewByteArrayDataOutput buf) = (Ok (), o1)
     \<and> bao_written o1 = index_header_bytes codec v iid suffix
     \<and> (if isSimpleASCII codec \<and> length codec < 128 \<and> isSimpleASCII suffix
        then \<exists>o2. WriteIndexHeader (base_data_output bao_primitive) codec v (Some iid) suffix (NewByteArrayDataOutput buf) = (Ok (), o2)
               \<and> bao_written o2 = bao_written o1
        else \<exists>e o2. WriteIndexHeader (base_data_output bao_primitive) codec v (Some iid) suffix (NewByteArrayDataOutput buf) = (Err (Errorf e), o2))"
proof -
  let ?o = "NewByteArrayDataOutput buf"
  have o: "bao_ok ?o" "bao_room ?o = length buf" "bao_written ?o = []"
    by (simp_all add: bao_ok_def bao_room_def bao_written_def NewByteArrayDataOutput_def bao_Reset_def bao_ResetWithOffset_def)
  obtain o1 where "spi_WriteIndexHeader (base_data_output bao_primitive) codec v (Some iid) suffix ?o = (Ok (), o1)"
      "bao_written o1 = index_header_bytes codec v iid suffix"
    by (rule writesD [OF bacs.spi_WriteIndexHeader_writes [OF assms(1-3), where version = v] o(1)]) (use o assms(4) in auto)
  moreover have "\<exists>o2. WriteIndexHeader (base_data_output bao_primitive) codec v (Some iid) suffix ?o = (Ok (), o2)
      \<and> bao_written o2 = index_header_bytes codec v iid suffix"
    if "isSimpleASCII codec" "length codec < 128" "isSimpleASCII suffix"
    by (rule writesD [OF bacs.WriteIndexHeader_writes [OF that(1,2) assms(2) that(3) assms(3), where version = v] o(1)]) (use o assms(4) in auto)
  moreover have "\<exists>e o2. WriteIndexHeader (base_data_output bao_primitive) codec v (Some iid) suffix ?o = (Err (Errorf e), o2)"
    if "\<not> (isSimpleASCII codec \<and> length codec < 128 \<and> isSimpleASCII suffix)"
    by (rule bacs.WriteIndexHeader_refuses [OF that assms(2) o(1)]) (use o assms(4) in \<open>simp add: index_header_bytes_def\<close>)
  ultimately show ?thesis by auto
qed

theorem spi_header_writer_witness:
  "\<exists>o1 e o2. spi_WriteIndexHeader (base_data_output bao_primitive) [200] 3 (Some (replicate 16 7)) [] (NewByteArrayDataOutput (replicate 64 0)) = (Ok (), o1)
     \<and> WriteIndexHeader (base_data_output bao_primitive) [200] 3 (Some (replicate 16 7)) [] (NewByteArrayDataOutput (replicate 64 0)) = (Err (Errorf e), o2)"
proof -
  have "length (index_header_bytes [200] 3 (replicate 16 7) []) \<le> length (replicate 64 (0 :: u8))"
    by (simp add: index_header_bytes_def header_bytes_def string_bytes_def vbytes.simps)
  moreover have "\<not> isSimpleASCII [200]" by (simp add: isSimpleASCII_def)
  ultimately show ?thesis using spi_header_writer [of "[200]" "replicate 16 7" "[]" 3 "replicate 64 0"] by auto
qed

context index_source
begin

lemma verify_read_yields:
  assumes "length codec < 2 ^ 31" "length iid = 16" "length suffix < 256" "25 \<le> length B"
  shows "yields (okc B) restc (verify_read I expectedID) (index_header_bytes codec v iid suffix)
    (if expectedID \<noteq> None \<and> expectedID \<noteq> Some iid then Err (Errorf ''file mismatch, expected id'') else Ok (codec, v, suffix))"
proof -
  let ?inp = "ii_data I" and ?n = "of_nat (length suffix) :: u8"
  have n: "unat ?n = length suffix" using assms(3) by (simp add: unat_of_nat)
  let ?r1 = "if expectedID \<noteq> None \<and> expectedID \<noteq> Some iid then Err (Errorf ''file mismatch, expected id'') else Ok iid"
  have core: "din_core ?inp = ii_core I" by (simp add: ii_data_def)
  have s: "reads (okc B) restc (bind_ract (ReadByte (din_core ?inp)) (\<lambda>k.
      bind_ract (ReadBytes (din_core ?inp) (replicate (unat k) 0) 0 (int (unat k))) (\<lambda>sf. ret_ract (codec, v, sf))))
      ([?n] @ suffix) (codec, v, suffix)"
    by (rule reads_bind [OF pl.ReadByte_reads]) (unfold n, rule reads_bind_ret, rule pl.ReadBytes_reads)
  have i: "yields (okc B) restc (bind_ract (CheckIndexHeaderID ?inp expectedID) (\<lambda>_. bind_ract (ReadByte (din_core ?inp)) (\<lambda>k.
      bind_ract (ReadBytes (din_core ?inp) (replicate (unat k) 0) 0 (int (unat k))) (\<lambda>sf. ret_ract (codec, v, sf)))))
      (iid @ [?n] @ suffix) (bind_out ?r1 (\<lambda>_. Ok (codec, v, suffix)))"
    by (rule yields_bind_out [OF pl.CheckIndexHeaderID_yields [OF assms(2)]], simp only: yields_reads, rule s) (simp split: if_splits)
  let ?k = "\<lambda>h. if h \<noteq> CODEC_MAGIC then fail_ract (Errorf ''compound sub-files must have a valid codec header and footer'')
           else bind_ract (din_ReadString ?inp) (\<lambda>codec. bind_ract (ReadBEInt ?inp) (\<lambda>version.
                bind_ract (CheckIndexHeaderID ?inp expectedID) (\<lambda>_.
                bind_ract (ReadByte (din_core ?inp)) (\<lambda>k.
                bind_ract (ReadBytes (din_core ?inp) (replicate (unat k) 0) 0 (int (unat k))) (\<lambda>sf. ret_ract (codec, version, sf))))))"
  have y: "yields (okc B) restc (bind_ract (ReadBEInt ?inp) ?k)
      (be_int CODEC_MAGIC @ string_bytes codec @ be_int v @ iid @ [?n] @ suffix) (bind_out ?r1 (\<lambda>_. Ok (codec, v, suffix)))"
  proof (rule yields_bind [OF pl.ReadBEInt_reads], simp only: simp_thms if_False)
    show "yields (okc B) restc (bind_ract (din_ReadString ?inp) (\<lambda>codec. bind_ract (ReadBEInt ?inp) (\<lambda>version.
                bind_ract (CheckIndexHeaderID ?inp expectedID) (\<lambda>_.
                bind_ract (ReadByte (din_core ?inp)) (\<lambda>k.
                bind_ract (ReadBytes (din_core ?inp) (replicate (unat k) 0) 0 (int (unat k))) (\<lambda>sf. ret_ract (codec, version, sf)))))))
      (string_bytes codec @ be_int v @ iid @ [?n] @ suffix) (bind_out ?r1 (\<lambda>_. Ok (codec, v, suffix)))"
      by (rule yields_bind [OF pl.ReadString_law [OF assms(1)]], rule yields_bind [OF pl.ReadBEInt_reads], rule i)
  qed
  have "verify_read I expectedID s = bind_ract (ReadBEInt ?inp) ?k s" if "okc B s" for s
    using Length_law [OF that] assms(4) by (simp add: verify_read_def FooterLength_def HeaderLength_def Let_def)
  then have "yields (okc B) restc (verify_read I expectedID)
      (be_int CODEC_MAGIC @ string_bytes codec @ be_int v @ iid @ [?n] @ suffix) (bind_out ?r1 (\<lambda>_. Ok (codec, v, suffix)))"
    using y unfolding yields_def by simp
  then show ?thesis by (simp add: index_header_bytes_def header_bytes_def if_distrib [of "\<lambda>r. bind_out r _"] cong: if_cong)
qed

end

context codec_sink
begin

lemma verify_write_writes:
  assumes "length codec < 2 ^ 31"
  shows "writes ok room written (verify_write out expectedID (codec, version, suffix))
    (index_header_bytes codec version (case expectedID of None \<Rightarrow> [] | Some b \<Rightarrow> b) suffix)"
  unfolding verify_write_def index_header_bytes_def header_bytes_def prod.case Let_def append_assoc
  by (intro writes_seq WriteBEInt_writes WriteString_law assms WriteBytes_writes WriteByte_writes)

end

text \<open>
  C8: \<open>VerifyAndCopyIndexHeader\<close> copies exactly the index header of its input when the
  expected id is the one in the header, and refuses another id without writing; with a
  \<open>nil\<close> id, which means that the id is not verified, the header it writes has no id at all.
\<close>

theorem verify_and_copy_header:
  assumes "bbi_okc B (d, inp)" "bbi_rest (d, inp) = index_header_bytes codec v iid suffix @ tail" "25 \<le> length B"
    and "length codec < 2 ^ 31" "length iid = 16" "length suffix < 256"
    and "length (index_header_bytes codec v iid suffix) \<le> length buf"
  shows "\<exists>r j out. VerifyAndCopyIndexHeader bbi_index_input (base_data_output bao_primitive) expectedID ((d, inp), NewByteArrayDataOutput buf)
       = Some (r, (j, out))
     \<and> (case expectedID of
          Some eid \<Rightarrow> (if eid = iid then r = Ok () \<and> bao_written out = index_header_bytes codec v iid suffix \<and> bbi_rest j = tail
                        else r = Err (Errorf ''file mismatch, expected id'') \<and> out = NewByteArrayDataOutput buf)
        | None \<Rightarrow> r = Ok () \<and> bao_written out = header_bytes codec v @ [of_nat (length suffix)] @ suffix)"
proof -
  let ?o = "NewByteArrayDataOutput buf" and ?W = "base_data_output bao_primitive"
  have o: "bao_ok ?o" "bao_room ?o = length buf" "bao_written ?o = []"
    by (simp_all add: bao_ok_def bao_room_def bao_written_def NewByteArrayDataOutput_def bao_Reset_def bao_ResetWithOffset_def)
  note y = yieldsD [OF bbx.verify_read_yields [where expectedID = expectedID and v = v, OF assms(4-6,3)] assms(1,2)]
  show ?thesis
  proof (cases "expectedID \<noteq> None \<and> expectedID \<noteq> Some iid")
    case True
    obtain j where "verify_read bbi_index_input expectedID (d, inp) = Some (Err (Errorf ''file mismatch, expected id''), j)"
      by (rule y) (use True in simp)
    then show ?thesis using True by (auto simp: VerifyAndCopyIndexHeader_def)
  next
    case False
    obtain j where j: "verify_read bbi_index_input expectedID (d, inp) = Some (Ok (codec, v, suffix), j)" "bbi_rest j = tail"
      by (rule y) (use False in simp)
    let ?bs = "index_header_bytes codec v (case expectedID of None \<Rightarrow> [] | Some b \<Rightarrow> b) suffix"
    have "length ?bs \<le> bao_room ?o"
      using assms(5,7) False o(2) by (auto simp: index_header_bytes_def split: option.splits)
    then obtain out where out: "verify_write ?W expectedID (codec, v, suffix) ?o = (Ok (), out)" "bao_written out = bao_written ?o @ ?bs"
      by (rule writesD [OF bacs.verify_write_writes [OF assms(4), of expectedID v suffix] o(1)])
    then show ?thesis using False j o(3) by (auto simp: VerifyAndCopyIndexHeader_def index_header_bytes_def split: option.splits)
  qed
qed

theorem verify_and_copy_header_witness:
  "\<exists>j out. VerifyAndCopyIndexHeader bbi_index_input (base_data_output bao_primitive) None
       ((NewByteBuffersDirectory, newByteBuffersIndexInput [index_header_bytes [65] 3 (replicate 16 7) []] [97]), NewByteArrayDataOutput (replicate 64 0))
       = Some (Ok (), (j, out)) \<and> bao_written out = header_bytes [65] 3 @ [0]"
proof -
  let ?h = "index_header_bytes [65] 3 (replicate 16 7) []"
  have l: "length ?h = 27" by (simp add: index_header_bytes_def header_bytes_def string_bytes_def vbytes.simps)
  have "bbi_rest (NewByteBuffersDirectory, newByteBuffersIndexInput [?h] [97]) = ?h @ []"
    by (simp add: bbi_rest_def bbi_bytes_def newByteBuffersIndexInput_def)
  from verify_and_copy_header [OF fresh_input_okc this, of "replicate 64 0" None] l show ?thesis by auto
qed

end
