(* ===== verification/Word_Counts.thy ===== *)
theory Word_Counts
  imports Prelude
begin

text \<open>
  The word routines of \<^verbatim>\<open>util/fixed_bit_set.go\<close>: the SWAR population count and the binary
  searches for trailing and leading zeros.  The population count is proved equal to the
  number of one bits by reading the word as eight digits in base 256: the masks act on
  each digit alone, a table of the 256 bytes shows what the three steps make of one
  digit, and the final multiplication sums the digits.  The searches are proved by an
  invariant per step: the bit looked for is among the lowest (highest) \<open>k\<close> bits left.
\<close>

section \<open>Definitions\<close>

definition popcount :: "u64 \<Rightarrow> int" where
  "popcount x =
     (let x1 = x - (drop_bit 1 x AND 0x5555555555555555);
          x2 = (x1 AND 0x3333333333333333) + (drop_bit 2 x1 AND 0x3333333333333333);
          x3 = (x2 + drop_bit 4 x2) AND 0x0f0f0f0f0f0f0f0f
      in uint (drop_bit 56 (x3 * 0x0101010101010101)))"

text \<open>
  The binary searches: one step looks at the lowest (highest) \<open>k\<close> bits.  The last step
  of the source does not shift any more, which does not change the count.
\<close>

definition tz_step :: "nat \<Rightarrow> int \<times> u64 \<Rightarrow> int \<times> u64" where
  "tz_step k s = (case s of (n, x) \<Rightarrow> if x AND mask k = 0 then (n + int k, drop_bit k x) else (n, x))"

definition trailingZeros :: "u64 \<Rightarrow> int" where
  "trailingZeros x =
     (if x = 0 then 64 else fst (tz_step 1 (tz_step 2 (tz_step 4 (tz_step 8 (tz_step 16 (tz_step 32 (0, x))))))))"

definition lz_step :: "nat \<Rightarrow> int \<times> u64 \<Rightarrow> int \<times> u64" where
  "lz_step k s = (case s of (n, x) \<Rightarrow> if x \<le> mask (64 - k) then (n + int k, push_bit k x) else (n, x))"

definition leadingZeros :: "u64 \<Rightarrow> int" where
  "leadingZeros x =
     (if x = 0 then 64 else fst (lz_step 1 (lz_step 2 (lz_step 4 (lz_step 8 (lz_step 16 (lz_step 32 (0, x))))))))"

section \<open>The population count\<close>

fun val256 :: "int list \<Rightarrow> int" where
  "val256 [] = 0"
| "val256 (a # as) = a + 256 * val256 as"

fun rep256 :: "int \<Rightarrow> nat \<Rightarrow> int" where
  "rep256 m 0 = 0"
| "rep256 m (Suc n) = m + 256 * rep256 m n"

fun bytes_of :: "nat \<Rightarrow> int \<Rightarrow> int list" where
  "bytes_of 0 x = []"
| "bytes_of (Suc n) x = take_bit 8 x # bytes_of n (drop_bit 8 x)"

definition pop8 :: "int \<Rightarrow> int" where
  "pop8 a = sum_list (map (\<lambda>k. of_bool (bit a k)) [0..<8])"

lemma concat_256: "0 \<le> a \<Longrightarrow> a < 256 \<Longrightarrow> (a :: int) + 256 * c = concat_bit 8 a c"
  by (simp add: concat_bit_eq take_bit_int_eq_self push_bit_eq_mult)

lemma and_256:
  fixes a c m M :: int
  assumes "0 \<le> a" "a < 256" "0 \<le> m" "m < 256"
  shows "(a + 256 * c) AND (m + 256 * M) = (a AND m) + 256 * (c AND M)"
proof -
  have "0 \<le> a AND m" "a AND m < 256" using assms AND_upper1 [of a m] by auto
  then show ?thesis using assms
    by (simp only: concat_256) (auto simp: bit_eq_iff bit_concat_bit_iff bit_simps)
qed

lemma rep_and:
  "\<forall>a\<in>set as. 0 \<le> a \<and> a < 256 \<Longrightarrow> 0 \<le> m \<Longrightarrow> m < 256 \<Longrightarrow> n = length as \<Longrightarrow>
   val256 as AND rep256 m n = val256 (map (\<lambda>a. a AND m) as)"
  by (induction as arbitrary: n) (auto simp: and_256)

lemma val_nonneg: "\<forall>a\<in>set as. 0 \<le> a \<Longrightarrow> 0 \<le> val256 as"
  by (induction as) auto

lemma and_low: "0 \<le> a \<Longrightarrow> (a + 2 ^ k * y) AND m = a AND m" if "m < 2 ^ k" "0 \<le> m" for a y m :: int
proof -
  have "take_bit k (a + 2 ^ k * y) = take_bit k a" by (simp add: take_bit_eq_mod)
  then have "(a + 2 ^ k * y) AND m = take_bit k (a + 2 ^ k * y) AND m" "a AND m = take_bit k a AND m"
    using that by (metis and.assoc and.commute take_bit_eq_mask take_bit_int_eq_self)+
  then show ?thesis by (simp add: take_bit_eq_mod)
qed

lemma pow_split: "k < 8 \<Longrightarrow> 2 ^ (8 - k) * 2 ^ k = (256 :: int)"
  by (simp flip: power_add)

lemma div_256:
  fixes a v :: int
  assumes "k < 8"
  shows "(a + 256 * v) div 2 ^ k = (a div 2 ^ k + 2 ^ (8 - k) * (v mod 2 ^ k)) + 256 * (v div 2 ^ k)"
proof -
  obtain q r where v: "v = 2 ^ k * q + r" and qr: "q = v div 2 ^ k" "r = v mod 2 ^ k"
    by (metis mult_div_mod_eq)
  have "2 ^ (8 - k) * r * 2 ^ k = 2 ^ (8 - k) * 2 ^ k * r" by simp
  then have e: "256 * r = 2 ^ (8 - k) * r * 2 ^ k" using pow_split [OF assms] by simp
  have "a + 256 * v = a + (256 * (2 ^ k * q) + 256 * r)" by (simp add: v distrib_left)
  also have "\<dots> = a + (256 * q + 2 ^ (8 - k) * r) * 2 ^ k"
    by (simp only: e) (simp add: distrib_right)
  finally have "a + 256 * v = a + (256 * q + 2 ^ (8 - k) * r) * 2 ^ k" .
  then have "(a + 256 * v) div 2 ^ k = (256 * q + 2 ^ (8 - k) * r) + a div 2 ^ k"
    by (simp only: div_mult_self1 power_not_zero zero_neq_numeral not_False_eq_True)
  then show ?thesis by (simp add: qr)
qed

lemma zdiv_less_iff: "0 < c \<Longrightarrow> a div c < b \<longleftrightarrow> a < b * c" for a b c :: int
proof
  assume c: "0 < c" and "a div c < b"
  then have "a div c + 1 \<le> b" by simp
  then have "(a div c + 1) * c \<le> b * c" using c by (intro mult_right_mono) auto
  moreover have "a < (a div c + 1) * c" using div_mult_mod_eq [of a c] pos_mod_bound [OF c, of a] unfolding distrib_right by linarith
  ultimately show "a < b * c" by linarith
next
  assume c: "0 < c" and a: "a < b * c"
  have "b \<le> a div c \<Longrightarrow> b * c \<le> a" using mult_right_mono [of b "a div c" c] c div_mult_mod_eq [of a c] pos_mod_sign [OF c, of a] by linarith
  then show "a div c < b" using a by linarith
qed

fun shift_digits :: "nat \<Rightarrow> int list \<Rightarrow> int list" where
  "shift_digits k [] = []"
| "shift_digits k (a # as) =
     (a div 2 ^ k + 2 ^ (8 - k) * ((case as of [] \<Rightarrow> 0 | b # _ \<Rightarrow> b) mod 2 ^ k)) # shift_digits k as"

lemma length_shift_digits [simp]: "length (shift_digits k as) = length as"
  by (induction as) simp_all

lemma val_mod: "k < 8 \<Longrightarrow> val256 as mod 2 ^ k = (case as of [] \<Rightarrow> 0 | b # _ \<Rightarrow> b) mod 2 ^ k"
proof (cases as)
  case (Cons b bs)
  assume "k < 8"
  then have "val256 as = b + 2 ^ k * (2 ^ (8 - k) * val256 bs)"
    using pow_split [of k] by (simp add: Cons flip: mult.assoc) (simp add: mult.commute)
  then show ?thesis by (simp only: mod_mult_self2 Cons list.case)
qed simp

lemma val_shift: "k < 8 \<Longrightarrow> val256 as div 2 ^ k = val256 (shift_digits k as)"
  by (induction as) (simp_all add: div_256 val_mod)

lemma val_add: "length as = length bs \<Longrightarrow> val256 as + val256 bs = val256 (map2 (+) as bs)"
  by (induction as bs rule: list_induct2) auto

lemma val_diff: "length as = length bs \<Longrightarrow> val256 as - val256 bs = val256 (map2 (-) as bs)"
  by (induction as bs rule: list_induct2) auto

lemma take_bit_8: "0 \<le> take_bit 8 x \<and> take_bit 8 x < 256" for x :: int
  using take_bit_int_less_exp [of 8 x] by simp

lemma take_bit_bytes: "take_bit (8 + m) x = take_bit 8 x + 256 * take_bit m (drop_bit 8 x)" for x :: int
proof -
  have "take_bit (8 + m) x = concat_bit 8 (take_bit 8 x) (take_bit m (drop_bit 8 x))"
    by (rule bit_eqI) (auto simp: bit_concat_bit_iff bit_simps)
  then show ?thesis using take_bit_8 [of x] by (simp add: concat_256)
qed

lemma val_bytes_of: "val256 (bytes_of n x) = take_bit (8 * n) x"
  by (induction n arbitrary: x) (simp_all add: take_bit_bytes)

lemma bytes_of_range: "\<forall>a\<in>set (bytes_of n x). 0 \<le> a \<and> a < 256"
  using take_bit_8 by (induction n arbitrary: x) auto

lemma length_bytes_of [simp]: "length (bytes_of n x) = n"
  by (induction n arbitrary: x) auto

lemma sum_split_8: "(\<Sum>k<8 + m. f k) = (\<Sum>k<8. f k) + (\<Sum>k<m. f (8 + k))" for f :: "nat \<Rightarrow> int"
proof (induction m)
  case (Suc m)
  have "{..<8 + Suc m} = insert (8 + m) {..<8 + m}" by auto
  then show ?case using Suc by simp
qed simp

lemma pop8_take: "pop8 (take_bit 8 x) = (\<Sum>k<8. of_bool (bit x k))"
  by (simp add: pop8_def bit_take_bit_iff eval_nat_numeral)

lemma pop_bytes_of: "(\<Sum>k<8 * n. of_bool (bit x k)) = sum_list (map pop8 (bytes_of n x))"
proof (induction n arbitrary: x)
  case (Suc n)
  have "(\<Sum>k<8 + 8 * n. of_bool (bit x k)) = pop8 (take_bit 8 x) + (\<Sum>k<8 * n. of_bool (bit (drop_bit 8 x) k))"
    by (simp add: sum_split_8 pop8_take bit_drop_bit_eq)
  then show ?case by (simp add: Suc)
qed simp

definition swar1 :: "int \<Rightarrow> int" where "swar1 a = a - (a div 2 AND 0x55)"
definition swar2 :: "int \<Rightarrow> int" where "swar2 b = (b AND 0x33) + (b div 4 AND 0x33)"
definition swar3 :: "int \<Rightarrow> int" where "swar3 c = (c + c div 16) AND 0x0f"

lemma swar_table:
  "list_all (\<lambda>a. 0 \<le> swar1 a \<and> swar1 a < 256 \<and> 0 \<le> swar2 (swar1 a) \<and> swar2 (swar1 a) \<le> 68
     \<and> swar2 (swar1 a) mod 16 \<le> 4 \<and> swar3 (swar2 (swar1 a)) = pop8 a \<and> 0 \<le> pop8 a \<and> pop8 a \<le> 8) [0..255]"
  by code_simp

lemma swar_byte:
  assumes "0 \<le> a" "a < 256"
  shows "0 \<le> swar1 a \<and> swar1 a < 256 \<and> 0 \<le> swar2 (swar1 a) \<and> swar2 (swar1 a) \<le> 68
     \<and> swar2 (swar1 a) mod 16 \<le> 4 \<and> swar3 (swar2 (swar1 a)) = pop8 a \<and> 0 \<le> pop8 a \<and> pop8 a \<le> 8"
proof -
  have "a \<in> set [0..255]" using assms by simp
  then show ?thesis using swar_table unfolding list_all_iff by blast
qed

lemma shift_range:
  "k < 8 \<Longrightarrow> \<forall>a\<in>set as. 0 \<le> a \<and> a < 256 \<Longrightarrow> \<forall>a\<in>set (shift_digits k as). 0 \<le> a \<and> a < 256"
proof (induction as)
  case (Cons a as)
  let ?h = "case as of [] \<Rightarrow> 0 | b # _ \<Rightarrow> b"
  have "a < 2 ^ (8 - k) * 2 ^ k" using Cons.prems by (simp add: pow_split)
  then have a: "0 \<le> a div 2 ^ k" "a div 2 ^ k < 2 ^ (8 - k)"
    using Cons.prems by (simp_all add: pos_imp_zdiv_nonneg_iff zdiv_less_iff)
  have "?h mod 2 ^ k \<le> 2 ^ k - 1" by auto
  then have "2 ^ (8 - k) * (?h mod 2 ^ k) \<le> 2 ^ (8 - k) * (2 ^ k - 1)" by (rule mult_left_mono) simp
  then have h: "2 ^ (8 - k) * (?h mod 2 ^ k) \<le> 256 - 2 ^ (8 - k)" using Cons.prems(1) by (simp only: right_diff_distrib pow_split mult_1_right)
  have h0: "0 \<le> 2 ^ (8 - k) * (?h mod 2 ^ k)" by (rule mult_nonneg_nonneg) simp_all
  have "0 \<le> a div 2 ^ k + 2 ^ (8 - k) * (?h mod 2 ^ k) \<and> a div 2 ^ k + 2 ^ (8 - k) * (?h mod 2 ^ k) < 256"
    using add_nonneg_nonneg [OF a(1) h0] add_less_le_mono [OF a(2) h] by (simp only: add_diff_cancel_left' diff_add_cancel simp_thms add.commute)
  moreover have "\<forall>a\<in>set (shift_digits k as). 0 \<le> a \<and> a < 256" using Cons by simp
  ultimately show ?case by (simp only: shift_digits.simps list.set ball_simps insert_iff)
qed simp

lemma shift_and:
  assumes "k < 8" "0 \<le> m" "m < 2 ^ (8 - k)" "\<forall>a\<in>set as. 0 \<le> a \<and> a < 256" "n = length as"
  shows "val256 as div 2 ^ k AND rep256 m n = val256 (map (\<lambda>a. a div 2 ^ k AND m) as)"
proof -
  have "(2 :: int) ^ (8 - k) \<le> 2 ^ 8" by (rule power_increasing) simp_all
  then have "m < 256" using assms(3) by simp
  then have "val256 as div 2 ^ k AND rep256 m n = val256 (map (\<lambda>a. a AND m) (shift_digits k as))"
    using assms shift_range [of k as] by (simp add: val_shift rep_and)
  also have "map (\<lambda>a. a AND m) (shift_digits k as) = map (\<lambda>a. a div 2 ^ k AND m) as"
    using assms(4) by (induction as) (simp_all add: and_low [OF assms(3,2)] pos_imp_zdiv_nonneg_iff)
  finally show ?thesis .
qed

lemma swar1_map: "map2 (-) as (map (\<lambda>a. a div 2 AND 0x55) as) = map swar1 as"
  by (induction as) (simp_all add: swar1_def)

lemma swar2_map: "map2 (+) (map (\<lambda>b. b AND 0x33) bs) (map (\<lambda>b. b div 4 AND 0x33) bs) = map swar2 bs"
  by (induction bs) (simp_all add: swar2_def)

lemma swar3_map:
  "\<forall>c\<in>set cs. 0 \<le> c \<Longrightarrow> map (\<lambda>a. a AND 15) (map2 (+) cs (shift_digits 4 cs)) = map swar3 cs"
proof (induction cs)
  case (Cons c cs)
  let ?h = "case cs of [] \<Rightarrow> 0 | b # _ \<Rightarrow> b"
  have "0 \<le> c div 16" using Cons.prems by (simp add: pos_imp_zdiv_nonneg_iff)
  then have "0 \<le> c + c div 16" using Cons.prems by simp
  then have "(c + c div 16 + 2 ^ 4 * (?h mod 16)) AND 15 = (c + c div 16) AND 15"
    using and_low [of 15 4 "c + c div 16" "?h mod 16"] by simp
  then show ?case using Cons by (simp add: swar3_def add.assoc)
qed simp

lemma swar3_range:
  "\<forall>c\<in>set cs. 0 \<le> c \<and> c \<le> 68 \<and> c mod 16 \<le> 4 \<Longrightarrow> \<forall>a\<in>set (map2 (+) cs (shift_digits 4 cs)). 0 \<le> a \<and> a < 256"
proof (induction cs)
  case (Cons c cs)
  let ?h = "case cs of [] \<Rightarrow> 0 | b # _ \<Rightarrow> b"
  obtain r where r: "r = ?h mod 16" "0 \<le> r \<and> r \<le> 4" using Cons.prems by (cases cs) simp_all
  have c: "0 \<le> c" "c \<le> 68" using Cons.prems by simp_all
  obtain d where d: "d = c div 16" "0 \<le> d" "d \<le> 4" using c by (simp add: pos_imp_zdiv_nonneg_iff)
  have "0 \<le> c + (d + 16 * r) \<and> c + (d + 16 * r) < 256"
    using r(2) c d(2,3) by linarith
  then have "0 \<le> c + (c div 16 + 16 * (?h mod 16)) \<and> c + (c div 16 + 16 * (?h mod 16)) < 256" by (simp only: d(1) r(1))
  moreover have "\<forall>a\<in>set (map2 (+) cs (shift_digits 4 cs)). 0 \<le> a \<and> a < 256" using Cons by simp
  ultimately show ?case by simp
qed simp

lemma val_upper: "\<forall>a\<in>set as. 0 \<le> a \<and> a < 256 \<Longrightarrow> n = 8 * length as \<Longrightarrow> val256 as < 2 ^ n"
  by (induction as arbitrary: n) (auto simp: power_add)

lemma digit_sum:
  assumes "length cs = 8" "\<forall>c\<in>set cs. 0 \<le> c \<and> c \<le> 8"
  shows "val256 cs * rep256 1 8 mod 2 ^ 64 div 2 ^ 56 = sum_list cs"
proof -
  obtain c0 c1 c2 c3 c4 c5 c6 c7 where cs: "cs = [c0, c1, c2, c3, c4, c5, c6, c7]"
    using assms(1) by (auto simp: length_Suc_conv eval_nat_numeral)
  let ?S = "sum_list cs"
  define P where "P = val256 [c0, c0 + c1, c0 + c1 + c2, c0 + c1 + c2 + c3, c0 + c1 + c2 + c3 + c4,
    c0 + c1 + c2 + c3 + c4 + c5, c0 + c1 + c2 + c3 + c4 + c5 + c6]"
  define T where "T = val256 [c1 + c2 + c3 + c4 + c5 + c6 + c7, c2 + c3 + c4 + c5 + c6 + c7,
    c3 + c4 + c5 + c6 + c7, c4 + c5 + c6 + c7, c5 + c6 + c7, c6 + c7, c7]"
  have e: "val256 cs * rep256 1 8 = (P + 2 ^ 56 * ?S) + 2 ^ 64 * T"
    by (simp add: cs P_def T_def eval_nat_numeral algebra_simps)
  have b: "0 \<le> P" "P < 2 ^ 56" "0 \<le> ?S" "?S \<le> 255"
    using assms(2) by (simp_all add: cs P_def)
  have "val256 cs * rep256 1 8 mod 2 ^ 64 = P + 2 ^ 56 * ?S"
    unfolding e using b by (simp add: mod_pos_pos_trivial)
  then show ?thesis using b by simp
qed


lemma uint_less_64: "uint (x :: u64) < 2 ^ (8 * 8)"
  using uint_lt2p [of x] by simp

lemma rep_masks:
  "rep256 0x55 8 = 0x5555555555555555" "rep256 0x33 8 = 0x3333333333333333" "rep256 0x0f 8 = 0x0f0f0f0f0f0f0f0f"
  "rep256 1 8 = 0x0101010101010101"
  by (simp_all add: eval_nat_numeral)

lemma take_bit_uint: "take_bit LENGTH('a) (uint (x :: 'a::len word)) = uint x"
  by (simp add: take_bit_int_eq_self)

lemma uint_drop: "uint (drop_bit k (x :: u64)) = uint x div 2 ^ k"
  unfolding unsigned_drop_bit_eq take_bit_uint by (rule drop_bit_eq_div)

lemma uint_masks:
  "uint (0x5555555555555555 :: u64) = rep256 0x55 8" "uint (0x3333333333333333 :: u64) = rep256 0x33 8"
  "uint (0x0f0f0f0f0f0f0f0f :: u64) = rep256 0x0f 8" "uint (0x0101010101010101 :: u64) = rep256 1 8"
  by (simp_all add: rep_masks)

lemma swar_word1:
  assumes "uint x = val256 as" "length as = 8" "\<forall>a\<in>set as. 0 \<le> a \<and> a < 256"
  shows "uint (x - (drop_bit 1 x AND 0x5555555555555555) :: u64) = val256 (map swar1 as)"
proof -
  have "val256 as div 2 ^ 1 AND rep256 0x55 8 = val256 (map (\<lambda>a. a div 2 ^ 1 AND 0x55) as)"
    by (rule shift_and [OF _ _ _ assms(3)]) (simp_all add: assms(2))
  then have y: "uint (drop_bit 1 x AND 0x5555555555555555) = val256 (map (\<lambda>a. a div 2 AND 0x55) as)"
    by (simp only: uint_and uint_drop uint_masks assms(1) power_one_right)
  then have d: "uint x - uint (drop_bit 1 x AND 0x5555555555555555) = val256 (map swar1 as)"
    by (simp add: assms(1) val_diff swar1_map)
  have "0 \<le> val256 (map swar1 as)" using assms(3) swar_byte by (intro val_nonneg) simp
  then show ?thesis using d uint_sub_lem [of "drop_bit 1 x AND 0x5555555555555555" x] by simp
qed

lemma swar_word2:
  assumes "uint x = val256 bs" "length bs = 8" "\<forall>a\<in>set bs. 0 \<le> a \<and> a < 256" "\<forall>a\<in>set (map swar2 bs). 0 \<le> a \<and> a < 256"
  shows "uint ((x AND 0x3333333333333333) + (drop_bit 2 x AND 0x3333333333333333) :: u64) = val256 (map swar2 bs)"
proof -
  have "uint (x AND 0x3333333333333333) = val256 (map (\<lambda>b. b AND 0x33) bs)"
    unfolding uint_and uint_masks assms(1) by (rule rep_and [OF assms(3)]) (simp_all add: assms(2))
  moreover have "val256 bs div 2 ^ 2 AND rep256 0x33 8 = val256 (map (\<lambda>b. b div 2 ^ 2 AND 0x33) bs)"
    by (rule shift_and [OF _ _ _ assms(3)]) (simp_all add: assms(2))
  then have "uint (drop_bit 2 x AND 0x3333333333333333) = val256 (map (\<lambda>b. b div 4 AND 0x33) bs)"
    unfolding uint_and uint_drop uint_masks assms(1) by (simp only: power2_eq_square) (simp only: mult_num_simps numeral_times_numeral)
  ultimately have s: "uint (x AND 0x3333333333333333) + uint (drop_bit 2 x AND 0x3333333333333333) = val256 (map swar2 bs)"
    by (simp add: val_add swar2_map)
  have "val256 (map swar2 bs) < 2 ^ 64" using assms(2,4) by (intro val_upper) simp_all
  then show ?thesis
    using s uint_add_lem [of "x AND 0x3333333333333333" "drop_bit 2 x AND 0x3333333333333333"] by simp
qed

lemma swar_word3:
  assumes "uint x = val256 cs" "length cs = 8" "\<forall>c\<in>set cs. 0 \<le> c \<and> c \<le> 68 \<and> c mod 16 \<le> 4"
  shows "uint ((x + drop_bit 4 x) AND 0x0f0f0f0f0f0f0f0f :: u64) = val256 (map swar3 cs)"
proof -
  let ?ds = "map2 (+) cs (shift_digits 4 cs)"
  have s: "uint x + uint (drop_bit 4 x) = val256 ?ds"
    using val_shift [of 4 cs] by (simp add: uint_drop assms(1) val_add)
  note r = swar3_range [OF assms(3)]
  have "val256 ?ds < 2 ^ 64" using r assms(2) by (intro val_upper) simp_all
  then have "uint (x + drop_bit 4 x) = val256 ?ds"
    using s uint_add_lem [of x "drop_bit 4 x"] by simp
  then have "uint ((x + drop_bit 4 x) AND 0x0f0f0f0f0f0f0f0f) = val256 (map (\<lambda>a. a AND 15) ?ds)"
    using rep_and [OF r, of 15 8] assms(2) by (simp only: uint_and uint_masks) simp
  then show ?thesis using swar3_map [of cs] assms(3) by simp
qed

lemma card_bits: "int (card {k. bit (x :: u64) k}) = (\<Sum>k<8 * 8. of_bool (bit (uint x) k))"
proof -
  have "{k. bit x k} = {..<64} \<inter> {k. bit x k}" using bit64_False by (auto simp: not_le [symmetric])
  then show ?thesis by (simp add: bit_uint_iff)
qed

lemma popcount_card: "popcount x = int (card {k. bit x k})"
proof -
  define as where "as = bytes_of 8 (uint x)"
  have l: "length as = 8" and ra: "\<forall>a\<in>set as. 0 \<le> a \<and> a < 256"
    unfolding as_def by (simp_all add: bytes_of_range)
  have va: "uint x = val256 as"
    using uint_less_64 [of x] by (simp add: as_def val_bytes_of take_bit_int_eq_self)
  define x1 where "x1 = x - (drop_bit 1 x AND 0x5555555555555555)"
  define x2 where "x2 = (x1 AND 0x3333333333333333) + (drop_bit 2 x1 AND 0x3333333333333333)"
  define x3 where "x3 = (x2 + drop_bit 4 x2) AND 0x0f0f0f0f0f0f0f0f"
  have v1: "uint x1 = val256 (map swar1 as)" unfolding x1_def by (rule swar_word1 [OF va l ra])
  have v2: "uint x2 = val256 (map swar2 (map swar1 as))"
    unfolding x2_def by (rule swar_word2 [OF v1]) (use ra l swar_byte in force)+
  have v3: "uint x3 = val256 (map swar3 (map swar2 (map swar1 as)))"
    unfolding x3_def by (rule swar_word3 [OF v2]) (use ra l swar_byte in simp_all)
  also have "map swar3 (map swar2 (map swar1 as)) = map pop8 as" using ra swar_byte by simp
  finally have v3: "uint x3 = val256 (map pop8 as)" .
  have "popcount x = uint (x3 * 0x0101010101010101) div 2 ^ 56"
    by (simp add: popcount_def Let_def x3_def x2_def x1_def uint_drop)
  also have "\<dots> = val256 (map pop8 as) * rep256 1 8 mod 2 ^ 64 div 2 ^ 56"
    by (simp only: uint_word_ariths v3 uint_masks) simp
  also have "\<dots> = sum_list (map pop8 as)"
    using ra swar_byte l by (intro digit_sum) simp_all
  also have "\<dots> = int (card {k. bit x k})"
    unfolding card_bits pop_bytes_of as_def ..
  finally show ?thesis .
qed

section \<open>Trailing and leading zeros\<close>

text \<open>After the step that looks at \<open>k\<close> bits, the lowest one bit is among the lowest \<open>k\<close>.\<close>

definition tz_inv :: "u64 \<Rightarrow> nat \<Rightarrow> int \<times> u64 \<Rightarrow> bool" where
  "tz_inv x k s \<longleftrightarrow> (case s of (n, y) \<Rightarrow>
     0 \<le> n \<and> y = drop_bit (nat n) x \<and> (\<forall>j<nat n. \<not> bit x j) \<and> (\<exists>j<k. bit y j))"

lemma and_mask_0: "(x :: u64) AND mask k = 0 \<longleftrightarrow> (\<forall>j<k. \<not> bit x j)"
  using bit64_False [of _ x] by (auto simp: bit_eq_iff bit_simps) (metis not_le)

lemma tz_step_inv: "tz_inv x (2 * k) s \<Longrightarrow> tz_inv x k (tz_step k s)"
proof -
  assume "tz_inv x (2 * k) s"
  moreover obtain n y where s: "s = (n, y)" by (cases s)
  ultimately obtain j where i: "0 \<le> n" "y = drop_bit (nat n) x" "\<forall>j<nat n. \<not> bit x j" "j < 2 * k" "bit y j"
    by (auto simp: tz_inv_def)
  show ?thesis
  proof (cases "y AND mask k = 0")
    case True
    then have z: "\<not> bit y l" if "l < k" for l using that by (simp add: and_mask_0)
    then have "k \<le> j" using i(5) not_less by blast
    then have "bit (drop_bit k y) (j - k)" "j - k < k" using i(4,5) by (simp_all add: bit_drop_bit_eq)
    moreover have "\<not> bit x l" if "l < nat n + k" for l
      using i(3) z [of "l - nat n"] that by (cases "l < nat n") (simp_all add: i(2) bit_drop_bit_eq)
    ultimately show ?thesis using True i(1)
      by (auto simp: s tz_inv_def tz_step_def i(2) drop_bit_drop_bit nat_add_distrib ac_simps)
  next
    case False
    then show ?thesis using i by (auto simp: s tz_inv_def tz_step_def and_mask_0)
  qed
qed

lemma trailingZeros_iff:
  assumes "x \<noteq> 0"
  shows "0 \<le> trailingZeros x" "trailingZeros x < 64" "bit x (nat (trailingZeros x))"
    "\<And>j. j < nat (trailingZeros x) \<Longrightarrow> \<not> bit x j"
proof -
  obtain j where "j < 64" "bit x j" using assms by (metis bit64_False bit_eqI bit_0_eq bot_apply bot_bool_def not_le)
  then have "tz_inv x (2 * 32) (0, x)" by (auto simp: tz_inv_def)
  then have "tz_inv x (2 * 16) (tz_step 32 (0, x))" using tz_step_inv [of x 32] by simp
  then have "tz_inv x (2 * 8) (tz_step 16 (tz_step 32 (0, x)))" using tz_step_inv [of x 16] by simp
  then have "tz_inv x (2 * 4) (tz_step 8 (tz_step 16 (tz_step 32 (0, x))))" using tz_step_inv [of x 8] by simp
  then have "tz_inv x (2 * 2) (tz_step 4 (tz_step 8 (tz_step 16 (tz_step 32 (0, x)))))" using tz_step_inv [of x 4] by simp
  then have "tz_inv x (2 * 1) (tz_step 2 (tz_step 4 (tz_step 8 (tz_step 16 (tz_step 32 (0, x))))))"
    using tz_step_inv [of x 2] by simp
  then have "tz_inv x 1 (tz_step 1 (tz_step 2 (tz_step 4 (tz_step 8 (tz_step 16 (tz_step 32 (0, x)))))))"
    by (rule tz_step_inv)
  then have r: "0 \<le> trailingZeros x \<and> bit x (nat (trailingZeros x)) \<and> (\<forall>j<nat (trailingZeros x). \<not> bit x j)"
    using assms by (auto simp: tz_inv_def trailingZeros_def bit_drop_bit_eq split: prod.splits)
  then show "0 \<le> trailingZeros x" "bit x (nat (trailingZeros x))" "\<And>j. j < nat (trailingZeros x) \<Longrightarrow> \<not> bit x j"
    by auto
  show "trailingZeros x < 64" using r bit64_False [of "nat (trailingZeros x)" x] by linarith
qed

definition lz_inv :: "u64 \<Rightarrow> nat \<Rightarrow> int \<times> u64 \<Rightarrow> bool" where
  "lz_inv x k s \<longleftrightarrow> (case s of (n, y) \<Rightarrow>
     0 \<le> n \<and> y = push_bit (nat n) x \<and> (\<forall>j. 64 \<le> j + nat n \<longrightarrow> \<not> bit x j) \<and> (\<exists>j<64. 64 \<le> j + k \<and> bit y j))"

lemma le_mask_iff: "(y :: u64) \<le> mask m \<longleftrightarrow> (\<forall>j\<ge>m. \<not> bit y j)"
proof (cases "m < 64")
  case True
  then have "uint (mask m :: u64) = mask m" by (intro bit_eqI) (auto simp: bit_uint_iff bit_mask_iff)
  then have "uint (mask m :: u64) = 2 ^ m - 1" by (simp only: mask_eq_exp_minus_1)
  then show ?thesis using ex_bit_ge_iff [of m y] by (auto simp: word_le_def)
next
  case False
  then have "(mask m :: u64) = - 1" by (intro bit_word_eqI) (simp add: bit_simps)
  then show ?thesis using False by (simp add: bit64_False)
qed

lemma lz_step_inv: "k \<le> 32 \<Longrightarrow> lz_inv x (2 * k) s \<Longrightarrow> lz_inv x k (lz_step k s)"
proof -
  assume k: "k \<le> 32" and "lz_inv x (2 * k) s"
  moreover obtain n y where s: "s = (n, y)" by (cases s)
  ultimately obtain j where i: "0 \<le> n" "y = push_bit (nat n) x" "\<forall>j. 64 \<le> j + nat n \<longrightarrow> \<not> bit x j"
      "64 \<le> j + 2 * k" "j < 64" "bit y j"
    by (auto simp: lz_inv_def)
  show ?thesis
  proof (cases "y \<le> mask (64 - k)")
    case True
    then have z: "\<not> bit y l" if "64 \<le> l + k" for l using that k by (simp add: le_mask_iff)
    then have "j + k < 64" using i(6) not_less by blast
    then have "bit (push_bit k y) (j + k)" using i(6) by (simp add: bit_push_bit_iff)
    moreover have "\<not> bit x l" if "64 \<le> l + (nat n + k)" for l
      using i(3) z [of "l + nat n"] that by (cases "64 \<le> l + nat n") (simp_all add: i(2) bit_push_bit_iff)
    moreover have "push_bit k y = push_bit (nat (n + int k)) x" using i(1) by (simp add: i(2) nat_add_distrib ac_simps)
    ultimately show ?thesis using True i(1,4) \<open>j + k < 64\<close>
      unfolding s lz_inv_def lz_step_def by (auto simp: nat_add_distrib intro!: exI [of _ "j + k"])
  next
    case False
    then obtain l where "l \<ge> 64 - k" "bit y l" by (auto simp: le_mask_iff)
    moreover have "l < 64" using \<open>bit y l\<close> bit64_False [of l y] by linarith
    ultimately show ?thesis using False i(1-3) by (auto simp: s lz_inv_def lz_step_def)
  qed
qed

lemma leadingZeros_iff:
  assumes "x \<noteq> 0"
  shows "0 \<le> leadingZeros x" "leadingZeros x < 64" "bit x (nat (63 - leadingZeros x))"
    "\<And>j. nat (63 - leadingZeros x) < j \<Longrightarrow> \<not> bit x j"
proof -
  obtain j where "j < 64" "bit x j" using assms by (metis bit64_False bit_eqI bit_0_eq bot_apply bot_bool_def not_le)
  then have "lz_inv x (2 * 32) (0, x)" by (auto simp: lz_inv_def bit64_False)
  then have "lz_inv x (2 * 16) (lz_step 32 (0, x))" using lz_step_inv [of 32 x] by simp
  then have "lz_inv x (2 * 8) (lz_step 16 (lz_step 32 (0, x)))" using lz_step_inv [of 16 x] by simp
  then have "lz_inv x (2 * 4) (lz_step 8 (lz_step 16 (lz_step 32 (0, x))))" using lz_step_inv [of 8 x] by simp
  then have "lz_inv x (2 * 2) (lz_step 4 (lz_step 8 (lz_step 16 (lz_step 32 (0, x)))))" using lz_step_inv [of 4 x] by simp
  then have "lz_inv x (2 * 1) (lz_step 2 (lz_step 4 (lz_step 8 (lz_step 16 (lz_step 32 (0, x))))))"
    using lz_step_inv [of 2 x] by simp
  then have "lz_inv x 1 (lz_step 1 (lz_step 2 (lz_step 4 (lz_step 8 (lz_step 16 (lz_step 32 (0, x)))))))"
    by (rule lz_step_inv [rotated]) simp
  then obtain y j where r: "0 \<le> leadingZeros x" "\<forall>j. 64 \<le> j + nat (leadingZeros x) \<longrightarrow> \<not> bit x j"
      "j < 64" "64 \<le> j + 1" "bit (push_bit (nat (leadingZeros x)) x) j"
    using assms by (auto simp: lz_inv_def leadingZeros_def split: prod.splits)
  then have j: "j = 63" by simp
  show "0 \<le> leadingZeros x" "leadingZeros x < 64" "bit x (nat (63 - leadingZeros x))"
    using r by (auto simp: j bit_push_bit_iff nat_diff_distrib)
  show "\<not> bit x j" if "nat (63 - leadingZeros x) < j" for j using that r(1,2) by auto
qed

end
