(* ===== verification/Fixed_Bit_Set.thy ===== *)
theory Fixed_Bit_Set
  imports Word_Counts
begin

text \<open>
  \<^verbatim>\<open>util/fixed_bit_set.go\<close> and \<^verbatim>\<open>util/fixed_bit_set_extensions.go\<close>: the fixed-size bit set
  behind live documents and doc-id sets, an array of 64-bit words.

  The set of positions of its one bits, \<open>fbs_set\<close>, is the abstract value; one lemma per
  operation says what the operation does to it.  The
  invariant \<open>fbs_wf\<close> is that the array has exactly the words the size needs and that no
  bit beyond the size is set.
\<close>

section \<open>The bit set\<close>

definition bitsPerWord :: int where "bitsPerWord = 64"
definition log2BitsPerWord :: nat where "log2BitsPerWord = 6"
definition wordMask :: int where "wordMask = 63"

record FixedBitSet =
  fs_bits :: "u64 list"
  fs_size :: int

definition wordsNeeded :: "int \<Rightarrow> int" where
  "wordsNeeded numBits = (if numBits \<le> 0 then 0 else drop_bit log2BitsPerWord (numBits + bitsPerWord - 1))"

definition wordIndex :: "int \<Rightarrow> int" where
  "wordIndex i = drop_bit log2BitsPerWord i"

definition bitIndex :: "int \<Rightarrow> nat" where
  "bitIndex i = nat (i AND wordMask)"

definition NewFixedBitSet :: "int \<Rightarrow> FixedBitSet outcome" where
  "NewFixedBitSet numBits =
     (if numBits < 0 then Err (Errorf ''numBits must be non-negative'')
      else Ok \<lparr>fs_bits = replicate (nat (wordsNeeded numBits)) 0, fs_size = numBits\<rparr>)"

definition NewFixedBitSetOfBits :: "u64 list \<Rightarrow> int \<Rightarrow> FixedBitSet outcome" where
  "NewFixedBitSetOfBits bits numBits =
     (if numBits < 0 then Err (Errorf ''numBits must be non-negative'')
      else if int (length bits) < wordsNeeded numBits then Err (Errorf ''bits length is less than required'')
      else Ok \<lparr>fs_bits = take (nat (wordsNeeded numBits)) bits, fs_size = numBits\<rparr>)"

text \<open>\<open>bits[i] = f(bits[i])\<close>.\<close>

definition upd_word :: "(u64 \<Rightarrow> u64) \<Rightarrow> int \<Rightarrow> FixedBitSet \<Rightarrow> FixedBitSet outcome" where
  "upd_word f i fs =
     bind_out (index (fs_bits fs) i) (\<lambda>w. bind_out (store (fs_bits fs) i (f w)) (\<lambda>b. Ok (fs\<lparr>fs_bits := b\<rparr>)))"

definition check_index :: "int \<Rightarrow> FixedBitSet \<Rightarrow> 'a outcome \<Rightarrow> 'a outcome" where
  "check_index i fs r = (if i < 0 \<or> i \<ge> fs_size fs then Panic ''index out of bounds'' else r)"

definition fs_Get :: "int \<Rightarrow> FixedBitSet \<Rightarrow> bool outcome" where
  "fs_Get i fs = check_index i fs
     (bind_out (index (fs_bits fs) (wordIndex i)) (\<lambda>w. Ok (w AND push_bit (bitIndex i) 1 \<noteq> 0)))"

definition fs_Set :: "int \<Rightarrow> FixedBitSet \<Rightarrow> FixedBitSet outcome" where
  "fs_Set i fs = check_index i fs (upd_word (\<lambda>w. w OR push_bit (bitIndex i) 1) (wordIndex i) fs)"

definition fs_Clear :: "int \<Rightarrow> FixedBitSet \<Rightarrow> FixedBitSet outcome" where
  "fs_Clear i fs = check_index i fs (upd_word (\<lambda>w. w AND NOT (push_bit (bitIndex i) 1)) (wordIndex i) fs)"

definition fs_Flip :: "int \<Rightarrow> FixedBitSet \<Rightarrow> FixedBitSet outcome" where
  "fs_Flip i fs = check_index i fs (upd_word (\<lambda>w. w XOR push_bit (bitIndex i) 1) (wordIndex i) fs)"

definition fs_GetAndClear :: "int \<Rightarrow> FixedBitSet \<Rightarrow> (bool \<times> FixedBitSet) outcome" where
  "fs_GetAndClear i fs = check_index i fs
     (let mask = push_bit (bitIndex i) 1
      in bind_out (index (fs_bits fs) (wordIndex i)) (\<lambda>w.
         bind_out (upd_word (\<lambda>w. w AND NOT mask) (wordIndex i) fs) (\<lambda>fs'. Ok (w AND mask \<noteq> 0, fs'))))"

definition fs_ClearAll :: "FixedBitSet \<Rightarrow> FixedBitSet" where
  "fs_ClearAll fs = fs\<lparr>fs_bits := map (\<lambda>_. 0) (fs_bits fs)\<rparr>"

definition clearExtraBits :: "FixedBitSet \<Rightarrow> FixedBitSet outcome" where
  "clearExtraBits fs =
     (if fs_size fs = 0 then Ok fs
      else let lastWord = wordIndex (fs_size fs - 1);
               bitsInLastWord = fs_size fs - lastWord * bitsPerWord
           in if bitsInLastWord < bitsPerWord
              then upd_word (\<lambda>w. w AND (push_bit (nat bitsInLastWord) 1 - 1)) lastWord fs
              else Ok fs)"

definition fs_SetAll :: "FixedBitSet \<Rightarrow> FixedBitSet outcome" where
  "fs_SetAll fs = clearExtraBits (fs\<lparr>fs_bits := map (\<lambda>_. NOT 0) (fs_bits fs)\<rparr>)"

definition fs_Not :: "FixedBitSet \<Rightarrow> FixedBitSet outcome" where
  "fs_Not fs = clearExtraBits (fs\<lparr>fs_bits := map (\<lambda>w. NOT w) (fs_bits fs)\<rparr>)"

definition fs_Length :: "FixedBitSet \<Rightarrow> int" where
  "fs_Length fs = fs_size fs"

definition fs_Cardinality :: "FixedBitSet \<Rightarrow> int" where
  "fs_Cardinality fs = foldl (\<lambda>n word. n + popcount word) 0 (fs_bits fs)"

definition fs_IsEmpty :: "FixedBitSet \<Rightarrow> bool" where
  "fs_IsEmpty fs \<longleftrightarrow> list_all (\<lambda>word. word = 0) (fs_bits fs)"

text \<open>The sum of the population counts of the words from \<open>i\<close> up to \<open>endw\<close>.\<close>

function count_words :: "u64 list \<Rightarrow> int \<Rightarrow> int \<Rightarrow> int \<Rightarrow> int outcome" where
  "count_words bits i endw n =
     (if i < endw then bind_out (index bits i) (\<lambda>w. count_words bits (i + 1) endw (n + popcount w)) else Ok n)"
  by pat_completeness auto
termination by (relation "measure (\<lambda>(bits, i, endw, n). nat (endw - i))") auto

declare count_words.simps [simp del]

definition fs_CardinalityRange :: "int \<Rightarrow> int \<Rightarrow> FixedBitSet \<Rightarrow> int outcome" where
  "fs_CardinalityRange from to fs =
     (if from < 0 \<or> from > to \<or> to > fs_Length fs then Panic ''FixedBitSet.cardinality: out of bounds''
      else let tail = (\<lambda>from n.
                 bind_out (count_words (fs_bits fs) (drop_bit log2BitsPerWord from) (drop_bit log2BitsPerWord to) n) (\<lambda>n'.
                   if to AND wordMask \<noteq> 0
                   then bind_out (index (fs_bits fs) (drop_bit log2BitsPerWord to)) (\<lambda>w.
                          Ok (n' + popcount (push_bit (nat (- to AND wordMask)) w)))
                   else Ok n'))
           in if from AND wordMask \<noteq> 0
              then bind_out (index (fs_bits fs) (drop_bit log2BitsPerWord from)) (\<lambda>w.
                     let bits = drop_bit (nat (from AND wordMask)) w;
                         numBitsTilNextWord = - from AND wordMask
                     in if to - from < numBitsTilNextWord
                        then Ok (popcount (bits AND (push_bit (nat (to - from)) 1 - 1)))
                        else tail (from + numBitsTilNextWord) (popcount bits))
              else tail from 0)"

text \<open>The loop of \<open>NextSetBit\<close>: \<open>word\<close> is what is left of the word at \<open>wordIdx\<close>.\<close>

function next_loop :: "u64 list \<Rightarrow> nat \<Rightarrow> u64 \<Rightarrow> int" where
  "next_loop bits wordIdx word =
     (if wordIdx < length bits
      then if word \<noteq> 0 then int wordIdx * bitsPerWord + trailingZeros word
           else next_loop bits (wordIdx + 1) (if wordIdx + 1 < length bits then bits ! (wordIdx + 1) else word)
      else -1)"
  by pat_completeness auto
termination by (relation "measure (\<lambda>(bits, wordIdx, word). length bits - wordIdx)") auto

declare next_loop.simps [simp del]

definition fs_NextSetBit :: "int \<Rightarrow> FixedBitSet \<Rightarrow> int outcome" where
  "fs_NextSetBit fromIndex fs =
     (if fromIndex \<ge> fs_size fs then Ok (- 1)
      else let from = (if fromIndex < 0 then 0 else fromIndex)
           in bind_out (index (fs_bits fs) (wordIndex from)) (\<lambda>w.
                Ok (next_loop (fs_bits fs) (nat (wordIndex from)) (w AND push_bit (bitIndex from) (NOT 0)))))"

text \<open>The loop of \<open>PrevSetBit\<close>.\<close>

fun prev_loop :: "u64 list \<Rightarrow> nat \<Rightarrow> u64 \<Rightarrow> int" where
  "prev_loop bits wordIdx word =
     (if word \<noteq> 0 then int wordIdx * bitsPerWord + 63 - leadingZeros word
      else case wordIdx of 0 \<Rightarrow> -1 | Suc i \<Rightarrow> prev_loop bits i (bits ! i))"

declare prev_loop.simps [simp del]

definition fs_PrevSetBit :: "int \<Rightarrow> FixedBitSet \<Rightarrow> int outcome" where
  "fs_PrevSetBit fromIndex fs =
     (if fromIndex < 0 then Ok (- 1)
      else let from = (if fromIndex \<ge> fs_size fs then fs_size fs - 1 else fromIndex)
           in bind_out (index (fs_bits fs) (wordIndex from)) (\<lambda>w.
                Ok (prev_loop (fs_bits fs) (nat (wordIndex from))
                      (if bitIndex from = 63 then w else w AND (push_bit (bitIndex from + 1) 1 - 1)))))"

text \<open>The word loops over two bit sets; the second array is indexed by the first one's range.\<close>

definition zip_words :: "(u64 \<Rightarrow> u64 \<Rightarrow> u64) \<Rightarrow> FixedBitSet \<Rightarrow> FixedBitSet \<Rightarrow> FixedBitSet outcome" where
  "zip_words f fs other =
     (if fs_size fs \<noteq> fs_size other then Err (Errorf ''bitset sizes do not match'')
      else if length (fs_bits other) < length (fs_bits fs) then Panic ''index out of range''
      else Ok (fs\<lparr>fs_bits := map2 f (fs_bits fs) (fs_bits other)\<rparr>))"

definition fs_And :: "FixedBitSet \<Rightarrow> FixedBitSet \<Rightarrow> FixedBitSet outcome" where
  "fs_And = zip_words (\<lambda>a b. a AND b)"

definition fs_Or :: "FixedBitSet \<Rightarrow> FixedBitSet \<Rightarrow> FixedBitSet outcome" where
  "fs_Or = zip_words (\<lambda>a b. a OR b)"

definition fs_Xor :: "FixedBitSet \<Rightarrow> FixedBitSet \<Rightarrow> FixedBitSet outcome" where
  "fs_Xor = zip_words (\<lambda>a b. a XOR b)"

definition fs_AndNot :: "FixedBitSet \<Rightarrow> FixedBitSet \<Rightarrow> FixedBitSet outcome" where
  "fs_AndNot = zip_words (\<lambda>a b. a AND NOT b)"

definition fs_Clone :: "FixedBitSet \<Rightarrow> FixedBitSet" where
  "fs_Clone fs = \<lparr>fs_bits = fs_bits fs, fs_size = fs_size fs\<rparr>"

definition fs_Equals :: "FixedBitSet \<Rightarrow> FixedBitSet \<Rightarrow> bool outcome" where
  "fs_Equals fs other =
     (if fs_size fs \<noteq> fs_size other then Ok False
      else if length (fs_bits other) < length (fs_bits fs) then Panic ''index out of range''
      else Ok (list_all (\<lambda>(a, b). a = b) (zip (fs_bits fs) (fs_bits other))))"

text \<open>\<open>FixedBitSetCopy\<close> of any \<open>Bits\<close>, given by its length and \<open>Get\<close>.\<close>

fun copy_loop_bits :: "(int \<Rightarrow> bool outcome) \<Rightarrow> nat \<Rightarrow> int \<Rightarrow> FixedBitSet \<Rightarrow> FixedBitSet outcome" where
  "copy_loop_bits get 0 i result = Ok result"
| "copy_loop_bits get (Suc n) i result =
     bind_out (get i) (\<lambda>b. bind_out (if b then fs_Set i result else Ok result) (copy_loop_bits get n (i + 1)))"

definition FixedBitSetCopy :: "int \<Rightarrow> (int \<Rightarrow> bool outcome) \<Rightarrow> FixedBitSet outcome" where
  "FixedBitSetCopy n get =
     (case NewFixedBitSet n of
        Err e \<Rightarrow> Panic ''NewFixedBitSet''
      | Panic p \<Rightarrow> Panic p
      | Ok result \<Rightarrow> copy_loop_bits get (nat n) 0 result)"

definition fs_GetBits :: "FixedBitSet \<Rightarrow> u64 list" where
  "fs_GetBits fs = fs_bits fs"

definition fs_NumWords :: "FixedBitSet \<Rightarrow> int" where
  "fs_NumWords fs = int (length (fs_bits fs))"

section \<open>The iterator over the one bits\<close>

record BitsIterator =
  bi_bits :: FixedBitSet
  bi_nextBit :: int
  bi_exhausted :: bool

definition NewBitsIterator :: "FixedBitSet \<Rightarrow> BitsIterator outcome" where
  "NewBitsIterator fs =
     bind_out (fs_NextSetBit 0 fs) (\<lambda>n. Ok \<lparr>bi_bits = fs, bi_nextBit = n, bi_exhausted = n < 0\<rparr>)"

definition bi_HasNext :: "BitsIterator \<Rightarrow> bool" where
  "bi_HasNext bi \<longleftrightarrow> \<not> bi_exhausted bi"

definition bi_Next :: "BitsIterator \<Rightarrow> (int \<times> BitsIterator) outcome" where
  "bi_Next bi =
     (if bi_exhausted bi then Ok (- 1, bi)
      else bind_out (fs_NextSetBit (bi_nextBit bi + 1) (bi_bits bi)) (\<lambda>n.
             Ok (bi_nextBit bi, bi\<lparr>bi_nextBit := n, bi_exhausted := n < 0\<rparr>)))"

section \<open>Growing\<close>

definition MaxArrayLength :: int where "MaxArrayLength = 2147483647 - 24"

definition roundUpToAlignment :: "int \<Rightarrow> int \<Rightarrow> int" where
  "roundUpToAlignment n bytesPerElement =
     (if bytesPerElement = 4 then (n + 1) AND NOT 1
      else if bytesPerElement = 2 then (n + 3) AND NOT 3
      else if bytesPerElement = 1 then (n + 7) AND NOT 7
      else n)"

definition oversize :: "int \<Rightarrow> int \<Rightarrow> int outcome" where
  "oversize minTargetSize bytesPerElement =
     (if minTargetSize < 0 then Panic ''invalid array size''
      else if minTargetSize = 0 then Ok 0
      else if minTargetSize > MaxArrayLength then Panic ''requested array size exceeds maximum array length''
      else let extra0 = drop_bit 3 minTargetSize;
               extra = (if extra0 < 3 then 3 else extra0);
               newSize = minTargetSize + extra
           in if newSize + 7 > MaxArrayLength then Ok MaxArrayLength
              else Ok (roundUpToAlignment newSize bytesPerElement))"

definition GrowExact :: "u64 list \<Rightarrow> int \<Rightarrow> u64 list outcome" where
  "GrowExact arr newLength =
     (if newLength < int (length arr) then Panic ''IndexOutOfBoundsException''
      else Ok (arr @ replicate (nat newLength - length arr) 0))"

definition bits2words :: "int \<Rightarrow> int" where
  "bits2words numBits = drop_bit log2BitsPerWord (numBits - 1) + 1"

definition ensureCapacityInternal :: "FixedBitSet \<Rightarrow> int \<Rightarrow> bool \<Rightarrow> FixedBitSet outcome" where
  "ensureCapacityInternal bits desiredBit preserveData =
     (if desiredBit < fs_size bits then Ok (if \<not> preserveData then fs_ClearAll bits else bits)
      else let numWords = bits2words desiredBit; arr = fs_bits bits
           in bind_out (if numWords \<ge> int (length arr)
                        then if preserveData then GrowExact arr (numWords + 1)
                             else bind_out (oversize (numWords + 1) 8) (\<lambda>n. Ok (replicate (nat n) 0))
                        else Ok arr) (\<lambda>arr'.
                Ok \<lparr>fs_bits = arr', fs_size = push_bit log2BitsPerWord (int (length arr'))\<rparr>))"

definition FixedBitSetEnsureCapacity :: "FixedBitSet \<Rightarrow> int \<Rightarrow> FixedBitSet outcome" where
  "FixedBitSetEnsureCapacity bits desiredBit = ensureCapacityInternal bits desiredBit True"

definition EnsureCapacityAndClear :: "FixedBitSet \<Rightarrow> int \<Rightarrow> FixedBitSet outcome" where
  "EnsureCapacityAndClear bits desiredBit = ensureCapacityInternal bits desiredBit False"

section \<open>Ranges\<close>

text \<open>The words strictly between the first and the last word of a range.\<close>

definition map_between :: "(u64 \<Rightarrow> u64) \<Rightarrow> int \<Rightarrow> int \<Rightarrow> u64 list \<Rightarrow> u64 list" where
  "map_between f lo hi ws = map (\<lambda>(i, w). if lo < int i \<and> int i < hi then f w else w) (enumerate 0 ws)"

definition range_op :: "(u64 \<Rightarrow> u64 \<Rightarrow> u64) \<Rightarrow> (u64 \<Rightarrow> u64) \<Rightarrow> int \<Rightarrow> int \<Rightarrow> FixedBitSet \<Rightarrow> FixedBitSet outcome" where
  "range_op g f startIndex endIndex fs =
     (if startIndex < 0 \<or> startIndex > fs_size fs then Panic ''startIndex out of bounds''
      else if endIndex < 0 \<or> endIndex > fs_size fs then Panic ''endIndex out of bounds''
      else if startIndex \<ge> endIndex then Ok fs
      else let startWord = wordIndex startIndex; endWord = wordIndex (endIndex - 1);
               startMask = push_bit (bitIndex startIndex) (NOT 0);
               endMask = drop_bit (63 - bitIndex (endIndex - 1)) (NOT 0)
           in if startWord = endWord then upd_word (\<lambda>w. g w (startMask AND endMask)) startWord fs
              else bind_out (upd_word (\<lambda>w. g w startMask) startWord fs) (\<lambda>fs1.
                   upd_word (\<lambda>w. g w endMask) endWord
                     (fs1\<lparr>fs_bits := map_between f startWord endWord (fs_bits fs1)\<rparr>)))"

definition fs_FlipRange :: "int \<Rightarrow> int \<Rightarrow> FixedBitSet \<Rightarrow> FixedBitSet outcome" where
  "fs_FlipRange = range_op (\<lambda>w m. w XOR m) (\<lambda>w. NOT w)"

definition fs_SetRange :: "int \<Rightarrow> int \<Rightarrow> FixedBitSet \<Rightarrow> FixedBitSet outcome" where
  "fs_SetRange = range_op (\<lambda>w m. w OR m) (\<lambda>_. NOT 0)"

section \<open>Counting and searching\<close>

definition fs_Intersects :: "FixedBitSet \<Rightarrow> FixedBitSet \<Rightarrow> bool" where
  "fs_Intersects fs other \<longleftrightarrow> list_ex (\<lambda>(a, b). a AND b \<noteq> 0) (zip (fs_bits fs) (fs_bits other))"

definition IntersectionCount :: "FixedBitSet \<Rightarrow> FixedBitSet \<Rightarrow> int" where
  "IntersectionCount a b = sum_list (map (\<lambda>(x, y). popcount (x AND y)) (zip (fs_bits a) (fs_bits b)))"

definition UnionCount :: "FixedBitSet \<Rightarrow> FixedBitSet \<Rightarrow> int" where
  "UnionCount a b =
     (let common = min (length (fs_bits a)) (length (fs_bits b))
      in sum_list (map (\<lambda>(x, y). popcount (x OR y)) (zip (fs_bits a) (fs_bits b)))
         + sum_list (map popcount (drop common (fs_bits a))) + sum_list (map popcount (drop common (fs_bits b))))"

definition AndNotCount :: "FixedBitSet \<Rightarrow> FixedBitSet \<Rightarrow> int" where
  "AndNotCount a b =
     (let common = min (length (fs_bits a)) (length (fs_bits b))
      in sum_list (map (\<lambda>(x, y). popcount (x AND NOT y)) (zip (fs_bits a) (fs_bits b)))
         + sum_list (map popcount (drop common (fs_bits a))))"

function clear_loop :: "FixedBitSet \<Rightarrow> nat \<Rightarrow> u64 \<Rightarrow> int" where
  "clear_loop fs wordIdx word =
     (if word \<noteq> 0
      then let result = int wordIdx * bitsPerWord + trailingZeros word
           in if result \<ge> fs_size fs then fs_size fs else result
      else if wordIdx + 1 \<ge> length (fs_bits fs) then fs_size fs
      else clear_loop fs (wordIdx + 1) (NOT (fs_bits fs ! (wordIdx + 1))))"
  by pat_completeness auto
termination by (relation "measure (\<lambda>(fs, wordIdx, word). length (fs_bits fs) - wordIdx)") auto

declare clear_loop.simps [simp del]

definition fs_NextClearBit :: "int \<Rightarrow> FixedBitSet \<Rightarrow> int outcome" where
  "fs_NextClearBit fromIndex fs =
     (if fromIndex < 0 \<or> fromIndex \<ge> fs_size fs then Panic ''fromIndex out of bounds''
      else bind_out (index (fs_bits fs) (wordIndex fromIndex)) (\<lambda>w.
             Ok (clear_loop fs (nat (wordIndex fromIndex)) (NOT w AND push_bit (bitIndex fromIndex) (NOT 0)))))"

section \<open>Copying a range between bit sets\<close>

text \<open>The arrays of the two bit sets are distinct: source and destination are not the same object.\<close>

definition readNBits :: "u64 list \<Rightarrow> int \<Rightarrow> int \<Rightarrow> u64 outcome" where
  "readNBits bitSet from numBits =
     bind_out (index bitSet (drop_bit log2BitsPerWord from)) (\<lambda>w.
       let bits = drop_bit (nat (from AND wordMask)) w;
           numBitsSoFar = bitsPerWord - (from AND wordMask)
       in bind_out (if numBitsSoFar < numBits
                    then bind_out (index bitSet (drop_bit log2BitsPerWord from + 1)) (\<lambda>w'.
                           Ok (bits OR push_bit (nat (bitsPerWord - (from AND wordMask))) w'))
                    else Ok bits) (\<lambda>bits'.
            Ok (bits' AND (push_bit (nat numBits) 1 - 1))))"

text \<open>\<open>destBits[i] |= v\<close>.\<close>

definition or_word :: "u64 list \<Rightarrow> int \<Rightarrow> u64 \<Rightarrow> u64 list outcome" where
  "or_word ws i v = bind_out (index ws i) (\<lambda>w. store ws i (w OR v))"

text \<open>The two loops over full words; \<open>shift\<close> is \<open>sourceFrom & wordMask\<close>.\<close>

function or_words :: "u64 list \<Rightarrow> int \<Rightarrow> nat \<Rightarrow> int \<Rightarrow> int \<Rightarrow> int \<Rightarrow> u64 list \<Rightarrow> u64 list outcome" where
  "or_words src sourceWordFrom shift destWordFrom i numFullWords dst =
     (if i < numFullWords
      then bind_out (index src (sourceWordFrom + i)) (\<lambda>w.
           bind_out (if shift = 0 then Ok w
                     else bind_out (index src (sourceWordFrom + i + 1)) (\<lambda>w'. Ok (drop_bit shift w OR push_bit (64 - shift) w'))) (\<lambda>v.
           bind_out (or_word dst (destWordFrom + i) v) (\<lambda>dst'.
             or_words src sourceWordFrom shift destWordFrom (i + 1) numFullWords dst')))
      else Ok dst)"
  by pat_completeness auto
termination by (relation "measure (\<lambda>(src, a, sh, b, i, n, dst). nat (n - i))") auto

declare or_words.simps [simp del]

text \<open>The part after \<open>destFrom\<close> has reached a word boundary: the full words, then the rest.\<close>

definition or_aligned :: "u64 list \<Rightarrow> int \<Rightarrow> int \<Rightarrow> int \<Rightarrow> u64 list \<Rightarrow> u64 list outcome" where
  "or_aligned src sf df n dst =
     (let numFullWords = drop_bit log2BitsPerWord n
      in bind_out (or_words src (drop_bit log2BitsPerWord sf) (nat (sf AND wordMask))
                     (drop_bit log2BitsPerWord df) 0 numFullWords dst) (\<lambda>dst1.
         let sf1 = sf + push_bit log2BitsPerWord numFullWords;
             df1 = df + push_bit log2BitsPerWord numFullWords;
             n1 = n - push_bit log2BitsPerWord numFullWords
         in if n1 > 0
            then bind_out (readNBits src sf1 n1) (\<lambda>bits. or_word dst1 (drop_bit log2BitsPerWord df1) bits)
            else Ok dst1))"

definition FixedBitSetOrRange :: "FixedBitSet \<Rightarrow> int \<Rightarrow> FixedBitSet \<Rightarrow> int \<Rightarrow> int \<Rightarrow> FixedBitSet outcome" where
  "FixedBitSetOrRange source sourceFrom dest destFrom len =
     (if len < 0 \<or> sourceFrom < 0 \<or> destFrom < 0 \<or> sourceFrom > fs_Length source - len \<or> destFrom > fs_Length dest - len
      then Panic ''FixedBitSet.orRange: out of bounds''
      else if len = 0 then Ok dest
      else bind_out
        (if destFrom AND wordMask \<noteq> 0
         then let numBitsNeeded = min (bitsPerWord - (destFrom AND wordMask)) len
              in bind_out (readNBits (fs_bits source) sourceFrom numBitsNeeded) (\<lambda>bits.
                 bind_out (or_word (fs_bits dest) (drop_bit log2BitsPerWord destFrom) (push_bit (nat (destFrom AND wordMask)) bits)) (\<lambda>dst.
                   Ok (sourceFrom + numBitsNeeded, destFrom + numBitsNeeded, len - numBitsNeeded, dst)))
         else Ok (sourceFrom, destFrom, len, fs_bits dest)) (\<lambda>(sf, df, n, dst).
        if n = 0 then Ok (dest\<lparr>fs_bits := dst\<rparr>)
        else bind_out (or_aligned (fs_bits source) sf df n dst) (\<lambda>dst'. Ok (dest\<lparr>fs_bits := dst'\<rparr>))))"

section \<open>The set a bit set holds\<close>

definition wbit :: "u64 list \<Rightarrow> nat \<Rightarrow> bool" where
  "wbit ws k \<longleftrightarrow> k div 64 < length ws \<and> bit (ws ! (k div 64)) (k mod 64)"

definition fbs_set :: "FixedBitSet \<Rightarrow> nat set" where
  "fbs_set fs = {k. wbit (fs_bits fs) k}"

definition fbs_shape :: "FixedBitSet \<Rightarrow> bool" where
  "fbs_shape fs \<longleftrightarrow> 0 \<le> fs_size fs \<and> int (length (fs_bits fs)) = wordsNeeded (fs_size fs)"

definition fbs_wf :: "FixedBitSet \<Rightarrow> bool" where
  "fbs_wf fs \<longleftrightarrow> fbs_shape fs \<and> (\<forall>k\<in>fbs_set fs. int k < fs_size fs)"

text \<open>\<open>r\<close> is a well-formed bit set of the size of \<open>fs\<close> that holds the set \<open>S\<close>.\<close>

definition fs_yields :: "FixedBitSet outcome \<Rightarrow> FixedBitSet \<Rightarrow> nat set \<Rightarrow> bool" where
  "fs_yields r fs S \<longleftrightarrow> (\<exists>fs'. r = Ok fs' \<and> fbs_wf fs' \<and> fs_size fs' = fs_size fs \<and> fbs_set fs' = S)"

lemma wordIndex_nat [simp]: "wordIndex (int k) = int (k div 64)"
  by (simp add: wordIndex_def log2BitsPerWord_def drop_bit_eq_div zdiv_int)

lemma and_63: "i AND wordMask = i mod 64"
  using take_bit_eq_mask [of 6 i] by (simp add: wordMask_def take_bit_eq_mod mask_eq_exp_minus_1)

lemma bitIndex_nat [simp]: "bitIndex (int k) = k mod 64"
  by (simp add: bitIndex_def and_63 nat_mod_distrib)

lemma wordsNeeded_eq: "0 \<le> n \<Longrightarrow> wordsNeeded n = (n + 63) div 64"
  by (auto simp: wordsNeeded_def log2BitsPerWord_def bitsPerWord_def drop_bit_eq_div)

lemma shape_iff: "fbs_shape fs \<Longrightarrow> k div 64 < length (fs_bits fs) \<longleftrightarrow> int (k div 64) < (fs_size fs + 63) div 64"
proof -
  assume "fbs_shape fs"
  then have "int (length (fs_bits fs)) = (fs_size fs + 63) div 64" by (simp add: fbs_shape_def wordsNeeded_eq)
  then show ?thesis by (simp only: of_nat_less_iff [symmetric, where ?'a = int])
qed

lemma word_in_range: "fbs_shape fs \<Longrightarrow> int k < fs_size fs \<Longrightarrow> k div 64 < length (fs_bits fs)"
  unfolding shape_iff by (simp add: zdiv_int)

lemma wbit_update:
  "i < length ws \<Longrightarrow> wbit (ws[i := v]) k \<longleftrightarrow> (if k div 64 = i then bit v (k mod 64) else wbit ws k)"
  by (auto simp: wbit_def nth_list_update)

lemma wbit_word: "i < length ws \<Longrightarrow> j < 64 \<Longrightarrow> wbit ws (64 * i + j) \<longleftrightarrow> bit (ws ! i) j"
  by (simp add: wbit_def)

lemma div_mod_64_eq_iff: "k div 64 = i div 64 \<and> k mod 64 = i mod 64 \<longleftrightarrow> k = (i :: nat)"
  by (metis mult_div_mod_eq)

lemma index_word: "fbs_shape fs \<Longrightarrow> int k < fs_size fs \<Longrightarrow> index (fs_bits fs) (wordIndex (int k)) = Ok (fs_bits fs ! (k div 64))"
  using word_in_range [of fs k] by (simp add: index_def zdiv_int [symmetric])

lemma upd_word_Ok:
  "i < length (fs_bits fs) \<Longrightarrow> upd_word f (int i) fs = Ok (fs\<lparr>fs_bits := (fs_bits fs)[i := f (fs_bits fs ! i)]\<rparr>)"
  by (simp add: upd_word_def)

lemma fs_Get_iff: "fbs_shape fs \<Longrightarrow> int k < fs_size fs \<Longrightarrow> fs_Get (int k) fs = Ok (k \<in> fbs_set fs)"
  using word_in_range [of fs k]
  by (simp add: fs_Get_def check_index_def index_word fbs_set_def wbit_def and_exp_eq_0_iff_not_bit push_bit_eq_mult)

lemma fbs_wf_elem: "fbs_wf fs \<Longrightarrow> k \<in> fbs_set fs \<Longrightarrow> int k < fs_size fs"
  by (simp add: fbs_wf_def)

text \<open>A change of one word that touches one position only.\<close>

lemma upd_bit_yields:
  assumes wf: "fbs_wf fs" and k: "int k < fs_size fs"
    and f: "\<And>w j. bit (f w) j \<longleftrightarrow> (if j = k mod 64 then b (bit w j) else bit w j)"
  shows "fs_yields (upd_word f (wordIndex (int k)) fs) fs {j. if j = k then b (k \<in> fbs_set fs) else j \<in> fbs_set fs}"
proof -
  let ?i = "k div 64"
  have sh: "fbs_shape fs" using wf by (simp add: fbs_wf_def)
  have i: "?i < length (fs_bits fs)" by (rule word_in_range [OF sh k])
  let ?fs = "fs\<lparr>fs_bits := (fs_bits fs)[?i := f (fs_bits fs ! ?i)]\<rparr>"
  have w: "wbit (fs_bits ?fs) j \<longleftrightarrow> (if j = k then b (wbit (fs_bits fs) k) else wbit (fs_bits fs) j)" for j
  proof (cases "j div 64 = ?i")
    case True
    then have "j = k \<longleftrightarrow> j mod 64 = k mod 64" using div_mod_64_eq_iff [of j k] by blast
    then show ?thesis using True i by (simp add: wbit_update f wbit_def [of "fs_bits fs"])
  next
    case False
    then show ?thesis using i by (simp add: wbit_update) blast
  qed
  then have s: "fbs_set ?fs = {j. if j = k then b (k \<in> fbs_set fs) else j \<in> fbs_set fs}" (is "_ = ?S")
    by (simp add: fbs_set_def)
  have "\<forall>j\<in>?S. int j < fs_size fs" using wf k by (auto simp: fbs_wf_elem split: if_splits)
  then have "fbs_wf ?fs" using sh s by (simp add: fbs_wf_def fbs_shape_def)
  then show ?thesis using s i by (simp add: fs_yields_def upd_word_Ok)
qed

lemma bit_one_shift: "bit (2 ^ (k mod 64) :: u64) j \<longleftrightarrow> j = k mod 64"
  by (auto simp: bit_exp_iff)

lemma fs_Set_yields:
  "fbs_wf fs \<Longrightarrow> int k < fs_size fs \<Longrightarrow> fs_yields (fs_Set (int k) fs) fs (insert k (fbs_set fs))"
proof -
  assume wf: "fbs_wf fs" and k: "int k < fs_size fs"
  have "fs_yields (upd_word (\<lambda>w. w OR push_bit (bitIndex (int k)) 1) (wordIndex (int k)) fs) fs
          {j. if j = k then True else j \<in> fbs_set fs}"
    by (rule upd_bit_yields [OF wf k]) (auto simp: bit_or_iff bit_one_shift)
  moreover have "{j. if j = k then True else j \<in> fbs_set fs} = insert k (fbs_set fs)" by auto
  ultimately show ?thesis using k by (simp add: fs_Set_def check_index_def)
qed

lemma fs_Clear_yields:
  "fbs_wf fs \<Longrightarrow> int k < fs_size fs \<Longrightarrow> fs_yields (fs_Clear (int k) fs) fs (fbs_set fs - {k})"
proof -
  assume wf: "fbs_wf fs" and k: "int k < fs_size fs"
  have "fs_yields (upd_word (\<lambda>w. w AND NOT (push_bit (bitIndex (int k)) 1)) (wordIndex (int k)) fs) fs
          {j. if j = k then False else j \<in> fbs_set fs}"
    by (rule upd_bit_yields [OF wf k]) (auto simp: bit_and_iff bit_not_iff bit_one_shift dest: bit_imp_le_length)
  moreover have "{j. if j = k then False else j \<in> fbs_set fs} = fbs_set fs - {k}" by auto
  ultimately show ?thesis using k by (simp add: fs_Clear_def check_index_def)
qed

lemma fs_Flip_yields:
  "fbs_wf fs \<Longrightarrow> int k < fs_size fs \<Longrightarrow>
   fs_yields (fs_Flip (int k) fs) fs (if k \<in> fbs_set fs then fbs_set fs - {k} else insert k (fbs_set fs))"
proof -
  assume wf: "fbs_wf fs" and k: "int k < fs_size fs"
  have "fs_yields (upd_word (\<lambda>w. w XOR push_bit (bitIndex (int k)) 1) (wordIndex (int k)) fs) fs
          {j. if j = k then \<not> k \<in> fbs_set fs else j \<in> fbs_set fs}"
    by (rule upd_bit_yields [OF wf k]) (auto simp: bit_xor_iff bit_one_shift)
  moreover have "{j. if j = k then \<not> k \<in> fbs_set fs else j \<in> fbs_set fs}
      = (if k \<in> fbs_set fs then fbs_set fs - {k} else insert k (fbs_set fs))" by auto
  ultimately show ?thesis using k by (simp add: fs_Flip_def check_index_def)
qed

lemma fs_GetAndClear_yields:
  assumes "fbs_wf fs" and "int k < fs_size fs"
  shows "\<exists>fs'. fs_GetAndClear (int k) fs = Ok (k \<in> fbs_set fs, fs')
    \<and> fbs_wf fs' \<and> fs_size fs' = fs_size fs \<and> fbs_set fs' = fbs_set fs - {k}"
proof -
  obtain fs' where "fs_Clear (int k) fs = Ok fs'" "fbs_wf fs'" "fs_size fs' = fs_size fs" "fbs_set fs' = fbs_set fs - {k}"
    using fs_Clear_yields [OF assms] by (auto simp: fs_yields_def)
  moreover have "fs_Get (int k) fs = Ok (k \<in> fbs_set fs)"
    using assms by (simp add: fs_Get_iff fbs_wf_def)
  ultimately show ?thesis using assms(2)
    by (auto simp: fs_GetAndClear_def fs_Get_def fs_Clear_def check_index_def Let_def bind_out_Ok_iff)
qed

text \<open>On a bit set of size 0, \<open>PrevSetBit\<close> looks at the word before the first.\<close>

lemma prev_set_bit_size_zero:
  "0 \<le> i \<Longrightarrow> fs_PrevSetBit i \<lparr>fs_bits = [], fs_size = 0\<rparr> = Panic ''index out of range''"
  by (simp add: fs_PrevSetBit_def wordIndex_def log2BitsPerWord_def drop_bit_eq_div index_def)

text \<open>The word loops act on every position alone.\<close>

lemma wbit_map: "wbit (map f ws) k \<longleftrightarrow> k div 64 < length ws \<and> bit (f (ws ! (k div 64))) (k mod 64)"
  by (auto simp: wbit_def)

lemma wbit_map2:
  "length us = length ws \<Longrightarrow>
   wbit (map2 f ws us) k \<longleftrightarrow> k div 64 < length ws \<and> bit (f (ws ! (k div 64)) (us ! (k div 64))) (k mod 64)"
  by (auto simp: wbit_def)

lemma zip_words_yields:
  assumes "fbs_wf fs" "fbs_wf other" "fs_size other = fs_size fs"
    and f: "\<And>a b j. j < 64 \<Longrightarrow> bit (f a b) j \<longleftrightarrow> g (bit a j) (bit b j)" and g: "\<not> g False False"
  shows "fs_yields (zip_words f fs other) fs {k. g (k \<in> fbs_set fs) (k \<in> fbs_set other)}"
proof -
  have l: "length (fs_bits other) = length (fs_bits fs)"
    using assms(1-3) by (simp add: fbs_wf_def fbs_shape_def)
  let ?fs = "fs\<lparr>fs_bits := map2 f (fs_bits fs) (fs_bits other)\<rparr>"
  have s: "fbs_set ?fs = {k. g (k \<in> fbs_set fs) (k \<in> fbs_set other)}"
  proof (rule set_eqI)
    fix k
    show "k \<in> fbs_set ?fs \<longleftrightarrow> k \<in> {k. g (k \<in> fbs_set fs) (k \<in> fbs_set other)}"
    proof (cases "k div 64 < length (fs_bits fs)")
      case True
      then show ?thesis by (simp add: fbs_set_def wbit_map2 l f [of "k mod 64"]) (simp add: wbit_def l)
    next
      case False
      then have "\<not> wbit (fs_bits fs) k" "\<not> wbit (fs_bits other) k" by (simp_all add: wbit_def l)
      then show ?thesis using False g by (simp add: fbs_set_def wbit_map2 l)
    qed
  qed
  have "int k < fs_size fs" if "k \<in> fbs_set ?fs" for k
  proof -
    have "g (k \<in> fbs_set fs) (k \<in> fbs_set other)" using that s by simp
    then have "k \<in> fbs_set fs \<or> k \<in> fbs_set other" using g by (cases "k \<in> fbs_set fs"; cases "k \<in> fbs_set other") simp_all
    then show ?thesis using assms(1-3) by (auto dest: fbs_wf_elem)
  qed
  then have "fbs_wf ?fs" using assms(1) l by (simp add: fbs_wf_def fbs_shape_def)
  then show ?thesis using s l assms(3) by (simp add: fs_yields_def zip_words_def)
qed

lemma bitwise_yields:
  assumes "fbs_wf fs" "fbs_wf other" "fs_size other = fs_size fs"
  shows "fs_yields (fs_And fs other) fs (fbs_set fs \<inter> fbs_set other)"
    and "fs_yields (fs_Or fs other) fs (fbs_set fs \<union> fbs_set other)"
    and "fs_yields (fs_AndNot fs other) fs (fbs_set fs - fbs_set other)"
    and "fs_yields (fs_Xor fs other) fs ((fbs_set fs - fbs_set other) \<union> (fbs_set other - fbs_set fs))"
proof -
  show "fs_yields (fs_And fs other) fs (fbs_set fs \<inter> fbs_set other)"
    using zip_words_yields [OF assms, of "\<lambda>a b. a AND b" "(\<and>)"] by (simp add: fs_And_def bit_and_iff Int_def)
  show "fs_yields (fs_Or fs other) fs (fbs_set fs \<union> fbs_set other)"
    using zip_words_yields [OF assms, of "\<lambda>a b. a OR b" "(\<or>)"] by (simp add: fs_Or_def bit_or_iff Un_def)
  show "fs_yields (fs_AndNot fs other) fs (fbs_set fs - fbs_set other)"
    using zip_words_yields [OF assms, of "\<lambda>a b. a AND NOT b" "\<lambda>p q. p \<and> \<not> q"]
    by (simp add: fs_AndNot_def bit_and_iff bit_not_iff set_diff_eq)
  have "{k. (k \<in> fbs_set fs) \<noteq> (k \<in> fbs_set other)} = (fbs_set fs - fbs_set other) \<union> (fbs_set other - fbs_set fs)"
    by auto
  then show "fs_yields (fs_Xor fs other) fs ((fbs_set fs - fbs_set other) \<union> (fbs_set other - fbs_set fs))"
    using zip_words_yields [OF assms, of "\<lambda>a b. a XOR b" "\<lambda>p q. p \<noteq> q"] by (simp add: fs_Xor_def bit_xor_iff)
qed

lemma clearExtraBits_yields:
  assumes sh: "fbs_shape fs"
  shows "fs_yields (clearExtraBits fs) fs {k \<in> fbs_set fs. int k < fs_size fs}"
proof (cases "fs_size fs = 0")
  case True
  then have "fs_bits fs = []" using sh by (simp add: fbs_shape_def wordsNeeded_def)
  then have "fbs_set fs = {}" by (simp add: fbs_set_def wbit_def)
  then show ?thesis using True sh by (simp add: fs_yields_def clearExtraBits_def fbs_wf_def)
next
  case False
  define n where "n = nat (fs_size fs - 1)"
  have n: "fs_size fs = int n + 1" using False sh by (simp add: n_def fbs_shape_def)
  have len: "length (fs_bits fs) = n div 64 + 1"
  proof -
    have "int (length (fs_bits fs)) = (int n + 64) div 64" using sh n by (simp add: fbs_shape_def wordsNeeded_eq)
    then show ?thesis by linarith
  qed
  have w: "wordIndex (fs_size fs - 1) = int (n div 64)" using n by simp
  have b: "fs_size fs - int (n div 64) * bitsPerWord = int (n mod 64 + 1)"
    using n by (simp add: bitsPerWord_def zmod_int zdiv_int minus_div_mult_eq_mod [symmetric])
  define w' where "w' = (fs_bits fs ! (n div 64)) AND mask (n mod 64 + 1)"
  define fs' where "fs' = fs\<lparr>fs_bits := (fs_bits fs)[n div 64 := w']\<rparr>"
  have r: "clearExtraBits fs = Ok fs'"
  proof (cases "n mod 64 + 1 < 64")
    case True
    then show ?thesis unfolding clearExtraBits_def w Let_def b using False len
      by (simp add: bitsPerWord_def upd_word_Ok fs'_def w'_def mask_eq_exp_minus_1 nat_add_distrib)
  next
    case False
    then have "n mod 64 + 1 = 64" by (simp add: le_antisym)
    moreover have "(mask 64 :: u64) = - 1" by (intro bit_word_eqI) (simp add: bit_simps)
    ultimately have "w' = fs_bits fs ! (n div 64)" by (simp add: w'_def)
    then show ?thesis unfolding clearExtraBits_def w Let_def b using False len by (simp add: bitsPerWord_def fs'_def)
  qed
  have s: "k \<in> fbs_set fs' \<longleftrightarrow> k \<in> fbs_set fs \<and> int k < fs_size fs" for k
  proof (cases "k div 64 = n div 64")
    case True
    then have "k mod 64 < n mod 64 + 1 \<longleftrightarrow> k < n + 1"
      by (metis add_less_cancel_left less_Suc_eq_le mult_div_mod_eq Suc_eq_plus1 add_le_cancel_left)
    then show ?thesis using True len n by (auto simp: fbs_set_def fs'_def wbit_update w'_def bit_simps) (auto simp: wbit_def)
  next
    case False
    have "k div 64 < n div 64 \<Longrightarrow> k < n + 1" using div_le_mono [of n k 64] by linarith
    then show ?thesis using False len n by (auto simp: fbs_set_def fs'_def wbit_update) (auto simp: wbit_def)
  qed
  have "fbs_shape fs'" using sh by (simp add: fs'_def fbs_shape_def)
  then show ?thesis using s r by (auto simp: fs_yields_def fbs_wf_def fs'_def)
qed

lemma fs_yields_shape: "fbs_shape fs \<Longrightarrow> fbs_shape (fs\<lparr>fs_bits := map f (fs_bits fs)\<rparr>)"
  by (simp add: fbs_shape_def)

lemma fs_SetAll_yields: "fbs_shape fs \<Longrightarrow> fs_yields (fs_SetAll fs) fs {k. int k < fs_size fs}"
proof -
  assume sh: "fbs_shape fs"
  let ?fs = "fs\<lparr>fs_bits := map (\<lambda>_. NOT 0) (fs_bits fs)\<rparr>"
  have "{k \<in> fbs_set ?fs. int k < fs_size ?fs} = {k. int k < fs_size fs}"
    using word_in_range [OF sh] by (auto simp: fbs_set_def wbit_map)
  then show ?thesis using clearExtraBits_yields [OF fs_yields_shape [OF sh, of "\<lambda>_. NOT 0"]]
    by (simp add: fs_SetAll_def fs_yields_def)
qed

lemma fs_Not_yields: "fbs_shape fs \<Longrightarrow> fs_yields (fs_Not fs) fs ({k. int k < fs_size fs} - fbs_set fs)"
proof -
  assume sh: "fbs_shape fs"
  let ?fs = "fs\<lparr>fs_bits := map (\<lambda>w. NOT w) (fs_bits fs)\<rparr>"
  have "{k \<in> fbs_set ?fs. int k < fs_size ?fs} = {k. int k < fs_size fs} - fbs_set fs"
    using word_in_range [OF sh] by (auto simp: fbs_set_def wbit_map bit_not_iff) (auto simp: wbit_def)
  then show ?thesis using clearExtraBits_yields [OF fs_yields_shape [OF sh, of "\<lambda>w. NOT w"]]
    by (simp add: fs_Not_def fs_yields_def)
qed

lemma fs_ClearAll_yields: "fbs_shape fs \<Longrightarrow> fs_yields (Ok (fs_ClearAll fs)) fs {}"
  by (auto simp: fs_yields_def fs_ClearAll_def fbs_wf_def fbs_shape_def fbs_set_def wbit_map)

lemma NewFixedBitSet_empty:
  "0 \<le> n \<Longrightarrow> \<exists>fs. NewFixedBitSet n = Ok fs \<and> fbs_wf fs \<and> fs_size fs = n \<and> fbs_set fs = {}"
  by (auto simp: NewFixedBitSet_def fbs_wf_def fbs_shape_def fbs_set_def wbit_def wordsNeeded_eq)

lemma fs_IsEmpty_iff: "fs_IsEmpty fs \<longleftrightarrow> fbs_set fs = {}"
proof
  assume "fs_IsEmpty fs"
  then show "fbs_set fs = {}" by (auto simp: fs_IsEmpty_def fbs_set_def wbit_def list_all_length)
next
  assume e: "fbs_set fs = {}"
  have "fs_bits fs ! i = 0" if "i < length (fs_bits fs)" for i
  proof (rule word64_eqI, intro allI impI)
    fix j :: nat
    assume "j < 64"
    then show "bit (fs_bits fs ! i) j = bit (0 :: u64) j"
      using e that wbit_word [of i "fs_bits fs" j] by (auto simp: fbs_set_def)
  qed
  then show "fs_IsEmpty fs" by (simp add: fs_IsEmpty_def list_all_length)
qed

lemma wbit_ext:
  assumes "length us = length ws" "\<And>k. wbit us k \<longleftrightarrow> wbit ws k"
  shows "us = ws"
proof (rule nth_equalityI)
  fix i assume i: "i < length us"
  show "us ! i = ws ! i"
  proof (rule word64_eqI, intro allI impI)
    fix j :: nat
    assume "j < 64"
    then show "bit (us ! i) j = bit (ws ! i) j"
      using assms(2) [of "64 * i + j"] i assms(1) by (simp add: wbit_word)
  qed
qed (rule assms(1))

lemma zip_all_eq: "length xs = length ys \<Longrightarrow> list_all (\<lambda>(a, b). a = b) (zip xs ys) \<longleftrightarrow> xs = ys"
  by (induction xs ys rule: list_induct2) auto

lemma fs_Equals_iff:
  assumes "fbs_shape fs" "fbs_shape other"
  shows "fs_Equals fs other = Ok (fs_size fs = fs_size other \<and> fbs_set fs = fbs_set other)"
proof (cases "fs_size fs = fs_size other")
  case True
  then have l: "length (fs_bits fs) = length (fs_bits other)" using assms by (simp add: fbs_shape_def)
  have "list_all (\<lambda>(a, b). a = b) (zip (fs_bits fs) (fs_bits other)) \<longleftrightarrow> fs_bits fs = fs_bits other"
    by (rule zip_all_eq [OF l])
  also have "\<dots> \<longleftrightarrow> fbs_set fs = fbs_set other"
    using wbit_ext [OF l] by (auto simp: fbs_set_def)
  finally show ?thesis using True l by (simp add: fs_Equals_def)
qed (simp add: fs_Equals_def)

text \<open>Counting.\<close>

lemma wbit_Cons: "wbit (w # ws) k \<longleftrightarrow> (if k < 64 then bit w k else wbit ws (k - 64))"
proof (cases "k < 64")
  case False
  then obtain j where "k = j + 64" by (metis add.commute le_Suc_ex not_less)
  moreover have "(j + 64) div 64 = Suc (j div 64)" "(j + 64) mod 64 = j mod 64" by simp_all
  ultimately show ?thesis by (simp only: wbit_def) simp
qed (simp add: wbit_def)

lemma finite_wbit: "finite {k. wbit ws k}"
proof (rule finite_subset)
  show "{k. wbit ws k} \<subseteq> {..<64 * length ws}" by (auto simp: wbit_def div_less_iff_less_mult mult.commute)
qed simp

lemma card_wbit: "int (card {k. wbit ws k}) = sum_list (map popcount ws)"
proof (induction ws)
  case (Cons w ws)
  have fin: "finite {k. bit w k}"
    by (rule finite_subset [of _ "{..<64}"]) (auto dest: bit_imp_le_length)
  have "{k. wbit (w # ws) k} = {k. bit w k} \<union> (\<lambda>k. k + 64) ` {k. wbit ws k}"
  proof (rule set_eqI)
    fix k
    show "k \<in> {k. wbit (w # ws) k} \<longleftrightarrow> k \<in> {k. bit w k} \<union> (\<lambda>k. k + 64) ` {k. wbit ws k}"
    proof (cases "k < 64")
      case False
      then obtain j where "k = j + 64" by (metis add.commute le_Suc_ex not_less)
      then show ?thesis using bit64_False [of k w] by (auto simp: wbit_Cons)
    qed (auto simp: wbit_Cons)
  qed
  moreover have "{k. bit w k} \<inter> (\<lambda>k. k + 64) ` {k. wbit ws k} = {}" using bit64_False by auto
  ultimately have "card {k. wbit (w # ws) k} = card {k. bit w k} + card {k. wbit ws k}"
    using fin finite_wbit [of ws] by (simp add: card_Un_disjoint card_image)
  then show ?case by (simp add: Cons popcount_card)
qed (simp add: wbit_def)

lemma fs_Cardinality_card: "fs_Cardinality fs = int (card (fbs_set fs))"
proof -
  have "foldl (\<lambda>n word. n + popcount word) m ws = m + sum_list (map popcount ws)" for m ws
    by (induction ws arbitrary: m) simp_all
  then show ?thesis by (simp add: fs_Cardinality_def fbs_set_def card_wbit)
qed

text \<open>The next one bit.\<close>

lemma next_loop_spec:
  assumes "i < length ws" "\<And>j. j < 64 \<Longrightarrow> bit w j \<longleftrightarrow> fr \<le> 64 * i + j \<and> bit (ws ! i) j" "64 * i \<le> fr" "fr < 64 * i + 64"
  shows "next_loop ws i w =
    (if \<exists>k\<ge>fr. wbit ws k then int (LEAST k. fr \<le> k \<and> wbit ws k) else - 1)"
  using assms
proof (induction ws i w arbitrary: fr rule: next_loop.induct)
  case (1 ws i w)
  show ?case
  proof (cases "w = 0")
    case False
    let ?n = "64 * i + nat (trailingZeros w)"
    note t = trailingZeros_iff [OF False]
    have tz: "nat (trailingZeros w) < 64" using t(1,2) by simp
    have n: "fr \<le> ?n" "wbit ws ?n" using 1(2,3) t(3) tz by (simp_all add: wbit_word)
    have "?n \<le> k" if "fr \<le> k" "wbit ws k" for k
    proof (rule ccontr)
      assume k: "\<not> ?n \<le> k"
      then have "k = 64 * i + (k - 64 * i)" "k - 64 * i < nat (trailingZeros w)" using that(1) 1(4) by linarith+
      then obtain j where "k = 64 * i + j" "j < nat (trailingZeros w)" by blast
      then show False using t(4) [of j] tz that 1(2) 1(3) [of j] by (simp add: wbit_word)
    qed
    then have "(LEAST k. fr \<le> k \<and> wbit ws k) = ?n" using n by (intro Least_equality) auto
    then show ?thesis using n False 1(2) t(1) by (subst next_loop.simps) (auto simp: bitsPerWord_def)
  next
    case True
    have none: "64 * (i + 1) \<le> k" if "fr \<le> k" "wbit ws k" for k
    proof (rule ccontr)
      assume "\<not> 64 * (i + 1) \<le> k"
      then have "k < 64 * i + 64" by simp
      then have "k = 64 * i + (k - 64 * i)" "k - 64 * i < 64" using that(1) 1(4) by linarith+
      then obtain j where "k = 64 * i + j" "j < 64" by blast
      then show False using True that 1(2) 1(3) [of j] by (simp add: wbit_word)
    qed
    have eq: "fr \<le> k \<and> wbit ws k \<longleftrightarrow> 64 * (i + 1) \<le> k \<and> wbit ws k" for k using none 1(5) by force
    show ?thesis
    proof (cases "i + 1 < length ws")
      case l: True
      have "next_loop ws i w = next_loop ws (i + 1) (ws ! (i + 1))"
        using True 1(2) l by (subst next_loop.simps) simp
      also have "\<dots> = (if \<exists>k\<ge>64 * (i + 1). wbit ws k then int (LEAST k. 64 * (i + 1) \<le> k \<and> wbit ws k) else - 1)"
        using 1(1) [of "64 * (i + 1)"] 1(2) True l by simp
      finally show ?thesis by (simp add: eq)
    next
      case l: False
      have "\<not> wbit ws k" if "64 * (i + 1) \<le> k" for k
        using l that div_le_mono [OF that, of 64] by (auto simp: wbit_def)
      then have "\<not> (\<exists>k\<ge>fr. wbit ws k)" using none by blast
      moreover have "next_loop ws i w = - 1"
        using True l 1(2) by (subst next_loop.simps) (simp add: next_loop.simps)
      ultimately show ?thesis by simp
    qed
  qed
qed

lemma le_word_iff: "k \<le> 64 * (k div 64) + j \<longleftrightarrow> k mod 64 \<le> (j :: nat)"
  by (metis add_le_cancel_left mult_div_mod_eq)

definition next_in :: "nat set \<Rightarrow> nat \<Rightarrow> int" where
  "next_in S fr = (if \<exists>k\<in>S. fr \<le> k then int (LEAST k. k \<in> S \<and> fr \<le> k) else - 1)"

lemma fs_NextSetBit_next:
  assumes "fbs_wf fs" "0 \<le> i \<or> 0 < fs_size fs"
  shows "fs_NextSetBit i fs = Ok (next_in (fbs_set fs) (nat i))"
proof (cases "i \<ge> fs_size fs")
  case True
  moreover have "\<not> nat i \<le> k" if "k \<in> fbs_set fs" for k using fbs_wf_elem [OF assms(1) that] True by linarith
  ultimately show ?thesis by (auto simp: fs_NextSetBit_def next_in_def)
next
  case False
  define fr where "fr = nat i"
  have f: "(if i < 0 then 0 else i) = int fr" by (simp add: fr_def)
  have sh: "fbs_shape fs" using assms by (simp add: fbs_wf_def)
  show ?thesis
  proof (cases "int fr < fs_size fs")
    case lt: True
    let ?i = "fr div 64"
    note r = word_in_range [OF sh lt]
    let ?w = "(fs_bits fs ! ?i) AND push_bit (fr mod 64) (NOT 0)"
    have "bit ?w j \<longleftrightarrow> fr \<le> 64 * ?i + j \<and> bit (fs_bits fs ! ?i) j" if "j < 64" for j
      using that by (auto simp: le_word_iff bit_simps)
    moreover have "64 * ?i \<le> fr" "fr < 64 * ?i + 64" by simp_all
    ultimately have "next_loop (fs_bits fs) ?i ?w = next_in (fbs_set fs) fr"
      using next_loop_spec [OF r] by (simp add: next_in_def fbs_set_def conj_commute Bex_def)
    moreover have "fs_NextSetBit i fs = Ok (next_loop (fs_bits fs) ?i ?w)"
      unfolding fs_NextSetBit_def Let_def f using False lt index_word [OF sh lt] by simp
    ultimately show ?thesis by (simp add: fr_def)
  next
    case False
    then show ?thesis using \<open>\<not> i \<ge> fs_size fs\<close> assms(2) by (auto simp: fr_def split: if_splits)
  qed
qed

text \<open>The previous one bit.\<close>

definition prev_in :: "nat set \<Rightarrow> nat \<Rightarrow> int" where
  "prev_in S fr = (if \<exists>k\<in>S. k \<le> fr then int (GREATEST k. k \<in> S \<and> k \<le> fr) else - 1)"

lemma prev_loop_spec:
  assumes "i < length ws" "\<And>j. j < 64 \<Longrightarrow> bit w j \<longleftrightarrow> 64 * i + j \<le> fr \<and> bit (ws ! i) j" "64 * i \<le> fr" "fr < 64 * i + 64"
  shows "prev_loop ws i w = prev_in {k. wbit ws k} fr"
  using assms
proof (induction ws i w arbitrary: fr rule: prev_loop.induct)
  case (1 ws i w)
  show ?case
  proof (cases "w = 0")
    case False
    let ?h = "nat (63 - leadingZeros w)"
    note t = leadingZeros_iff [OF False]
    have h: "?h < 64" using t(1) by simp
    have n: "64 * i + ?h \<le> fr" "wbit ws (64 * i + ?h)" using 1(2) 1(3) [OF h] t(3) h by (simp_all add: wbit_word)
    have "k \<le> 64 * i + ?h" if "wbit ws k" "k \<le> fr" for k
    proof (rule ccontr)
      assume k: "\<not> k \<le> 64 * i + ?h"
      then have "k = 64 * i + (k - 64 * i)" "?h < k - 64 * i" "k - 64 * i < 64" using that(2) 1(5) by linarith+
      then obtain j where "k = 64 * i + j" "?h < j" "j < 64" by blast
      then show False using t(4) [of j] that 1(2) 1(3) [of j] by (simp add: wbit_word)
    qed
    then have "(GREATEST k. wbit ws k \<and> k \<le> fr) = 64 * i + ?h" using n by (intro Greatest_equality) auto
    moreover have "prev_loop ws i w = int (64 * i + ?h)"
      using False t(1,2) by (subst prev_loop.simps) (simp add: bitsPerWord_def)
    ultimately show ?thesis using n by (auto simp: prev_in_def)
  next
    case True
    have none: "k < 64 * i" if "wbit ws k" "k \<le> fr" for k
    proof (rule ccontr)
      assume "\<not> k < 64 * i"
      then have "k = 64 * i + (k - 64 * i)" "k - 64 * i < 64" using that(2) 1(5) by linarith+
      then obtain j where "k = 64 * i + j" "j < 64" by blast
      then show False using True that 1(2) 1(3) [of j] by (simp add: wbit_word)
    qed
    show ?thesis
    proof (cases i)
      case 0
      then have "prev_loop ws i w = - 1" using True by (subst prev_loop.simps) simp
      moreover have "\<not> (\<exists>k\<in>{k. wbit ws k}. k \<le> fr)" using none 0 by force
      ultimately show ?thesis by (simp add: prev_in_def)
    next
      case (Suc n)
      have eq: "wbit ws k \<and> k \<le> fr \<longleftrightarrow> wbit ws k \<and> k \<le> 64 * n + 63" for k using none [of k] 1(4) Suc by force
      have "prev_loop ws i w = prev_loop ws n (ws ! n)" using True Suc by (subst prev_loop.simps) simp
      also have "\<dots> = prev_in {k. wbit ws k} (64 * n + 63)"
        using 1(1) [OF _ Suc, of "64 * n + 63"] True Suc 1(2) by simp
      finally show ?thesis using eq by (simp add: prev_in_def Bex_def)
    qed
  qed
qed

lemma fs_PrevSetBit_prev:
  assumes "fbs_wf fs" "0 \<le> i" "0 < fs_size fs"
  shows "fs_PrevSetBit i fs = Ok (prev_in (fbs_set fs) (nat i))"
proof -
  define fr where "fr = nat (if i \<ge> fs_size fs then fs_size fs - 1 else i)"
  have f: "(if i \<ge> fs_size fs then fs_size fs - 1 else i) = int fr" using assms by (simp add: fr_def)
  have lt: "int fr < fs_size fs" using assms by (simp add: fr_def)
  have sh: "fbs_shape fs" using assms by (simp add: fbs_wf_def)
  have eq: "k \<in> fbs_set fs \<and> k \<le> nat i \<longleftrightarrow> k \<in> fbs_set fs \<and> k \<le> fr" for k
    using fbs_wf_elem [OF assms(1), of k] assms by (auto simp: fr_def)
  let ?i = "fr div 64"
  note r = word_in_range [OF sh lt]
  let ?w = "if bitIndex (int fr) = 63 then fs_bits fs ! ?i else fs_bits fs ! ?i AND (push_bit (bitIndex (int fr) + 1) 1 - 1)"
  have w: "bit ?w j \<longleftrightarrow> 64 * ?i + j \<le> fr \<and> bit (fs_bits fs ! ?i) j" if "j < 64" for j
  proof -
    have "64 * ?i + j \<le> fr \<longleftrightarrow> j \<le> fr mod 64" by (metis add_le_cancel_left mult_div_mod_eq)
    then show ?thesis using that by (auto simp: bit_simps mask_eq_exp_minus_1 [symmetric] simp del: power_Suc)
  qed
  have "prev_loop (fs_bits fs) ?i ?w = prev_in (fbs_set fs) fr"
    unfolding fbs_set_def by (rule prev_loop_spec [OF r w]) simp_all
  also have "\<dots> = prev_in (fbs_set fs) (nat i)" using eq by (simp add: prev_in_def Bex_def)
  finally have p: "prev_loop (fs_bits fs) ?i ?w = prev_in (fbs_set fs) (nat i)" .
  have "fs_PrevSetBit i fs = Ok (prev_loop (fs_bits fs) ?i ?w)"
    unfolding fs_PrevSetBit_def Let_def f using assms(2) index_word [OF sh lt] by simp
  then show ?thesis using p by simp
qed

section \<open>Counting a range\<close>

definition range_card :: "u64 list \<Rightarrow> nat \<Rightarrow> nat \<Rightarrow> int" where
  "range_card ws a b = int (card {k. wbit ws k \<and> a \<le> k \<and> k < b})"

lemma range_card_split: "a \<le> b \<Longrightarrow> b \<le> c \<Longrightarrow> range_card ws a b + range_card ws b c = range_card ws a c"
proof -
  assume "a \<le> b" "b \<le> c"
  then have "{k. wbit ws k \<and> a \<le> k \<and> k < c} = {k. wbit ws k \<and> a \<le> k \<and> k < b} \<union> {k. wbit ws k \<and> b \<le> k \<and> k < c}"
    by auto
  moreover have "card ({k. wbit ws k \<and> a \<le> k \<and> k < b} \<union> {k. wbit ws k \<and> b \<le> k \<and> k < c}) =
    card {k. wbit ws k \<and> a \<le> k \<and> k < b} + card {k. wbit ws k \<and> b \<le> k \<and> k < c}"
    using finite_wbit [of ws] by (intro card_Un_disjoint) auto
  ultimately show ?thesis by (simp add: range_card_def)
qed

lemma range_card_word:
  assumes "i < length ws" "l \<le> 64"
  shows "range_card ws (64 * i + b) (64 * i + l) = int (card {m. bit (ws ! i) m \<and> b \<le> m \<and> m < l})"
proof -
  have "{k. wbit ws k \<and> 64 * i + b \<le> k \<and> k < 64 * i + l} = (\<lambda>m. 64 * i + m) ` {m. bit (ws ! i) m \<and> b \<le> m \<and> m < l}"
  proof (rule set_eqI)
    fix k
    show "k \<in> {k. wbit ws k \<and> 64 * i + b \<le> k \<and> k < 64 * i + l}
      \<longleftrightarrow> k \<in> (\<lambda>m. 64 * i + m) ` {m. bit (ws ! i) m \<and> b \<le> m \<and> m < l}"
    proof (cases "64 * i \<le> k")
      case True
      then obtain m where "k = 64 * i + m" by (metis le_Suc_ex)
      then show ?thesis using assms by (auto simp: wbit_word)
    qed auto
  qed
  then show ?thesis by (simp add: range_card_def card_image)
qed

lemma popcount_drop: "int (card {m. bit w m \<and> b \<le> m \<and> m < b + n}) = popcount (drop_bit b w AND mask n)"
proof -
  have "{m. bit w m \<and> b \<le> m \<and> m < b + n} = (\<lambda>j. b + j) ` {j. bit (drop_bit b w AND mask n) j}"
  proof (rule set_eqI)
    fix k
    show "k \<in> {m. bit w m \<and> b \<le> m \<and> m < b + n} \<longleftrightarrow> k \<in> (\<lambda>j. b + j) ` {j. bit (drop_bit b w AND mask n) j}"
    proof (cases "b \<le> k")
      case True
      then obtain m where "k = b + m" by (metis le_Suc_ex)
      moreover have "bit w (b + m) \<Longrightarrow> m < 64" using bit64_False [of "b + m" w] by linarith
      ultimately show ?thesis by (auto simp: bit_simps image_iff)
    qed auto
  qed
  then show ?thesis by (simp add: popcount_card card_image)
qed

lemma popcount_push: "n \<le> 64 \<Longrightarrow> int (card {m. bit w m \<and> m < n}) = popcount (push_bit (64 - n) w)"
proof -
  assume n: "n \<le> 64"
  have "(\<lambda>m. 64 - n + m) ` {m. bit w m \<and> m < n} = {j. bit (push_bit (64 - n) w) j}"
  proof (rule set_eqI)
    fix k
    show "k \<in> (\<lambda>m. 64 - n + m) ` {m. bit w m \<and> m < n} \<longleftrightarrow> k \<in> {j. bit (push_bit (64 - n) w) j}"
    proof (cases "64 - n \<le> k")
      case True
      then obtain m where k: "k = 64 - n + m" by (metis le_Suc_ex)
      then have m: "m < n \<longleftrightarrow> k < 64" "k - (64 - n) = m" using n by auto
      have "k \<in> (\<lambda>m. 64 - n + m) ` {m. bit w m \<and> m < n} \<longleftrightarrow> bit w m \<and> m < n" unfolding k by auto
      moreover have "bit (push_bit (64 - n) w) k \<longleftrightarrow> bit w m \<and> m < n"
        using True m by (auto simp: bit_push_bit_iff)
      ultimately show ?thesis by simp
    qed (auto simp: bit_push_bit_iff)
  qed
  then have "card {j. bit (push_bit (64 - n) w) j} = card {m. bit w m \<and> m < n}"
    using card_image [of "\<lambda>m. 64 - n + m" "{m. bit w m \<and> m < n}"] by (simp add: inj_on_def)
  then show ?thesis by (simp add: popcount_card)
qed

lemma count_words_eq:
  "i \<le> e \<Longrightarrow> e \<le> length ws \<Longrightarrow> count_words ws (int i) (int e) n = Ok (n + range_card ws (64 * i) (64 * e))"
proof (induction "e - i" arbitrary: i n)
  case 0
  then show ?case by (simp add: count_words.simps range_card_def)
next
  case (Suc d)
  then have i: "i < length ws" "i < e" by simp_all
  have "range_card ws (64 * i + 0) (64 * i + 64) = popcount (ws ! i)"
    using range_card_word [OF i(1), of 64 0] popcount_push [of 64 "ws ! i"] by simp
  then have "popcount (ws ! i) + range_card ws (64 * (i + 1)) (64 * e) = range_card ws (64 * i) (64 * e)"
    using range_card_split [of "64 * i" "64 * i + 64" "64 * e" ws] i by (simp add: add.commute)
  moreover have "count_words ws (int i) (int e) n = count_words ws (int (i + 1)) (int e) (n + popcount (ws ! i))"
    using i by (subst count_words.simps) (simp add: add.commute)
  ultimately show ?case using Suc(1) [of "i + 1" "n + popcount (ws ! i)"] Suc.prems Suc(2) i by simp
qed

lemma int_mod_64: "int k mod 64 = int (k mod 64)"
  by (simp add: zmod_int)

lemma neg_and_63: "k mod 64 \<noteq> 0 \<Longrightarrow> - int k AND wordMask = int (64 - k mod 64)"
proof -
  assume k: "k mod 64 \<noteq> 0"
  have "- int k mod 64 = 64 - int k mod 64" using k by (simp add: zmod_zminus1_eq_if int_mod_64)
  then show ?thesis by (simp add: and_63 of_nat_diff zmod_int)
qed

lemma and_63_0: "int k AND wordMask = 0 \<longleftrightarrow> k mod 64 = 0"
  by (simp add: and_63 int_mod_64)

lemma word_in_range_le: "fbs_shape fs \<Longrightarrow> int t \<le> fs_size fs \<Longrightarrow> t mod 64 \<noteq> 0 \<Longrightarrow> t div 64 < length (fs_bits fs)"
proof -
  assume sh: "fbs_shape fs" and le: "int t \<le> fs_size fs" and "t mod 64 \<noteq> 0"
  then have "int t mod 64 \<noteq> 0" by (simp add: int_mod_64)
  then have "int t div 64 < (int t + 63) div 64" by presburger
  then have "int (t div 64) < (fs_size fs + 63) div 64"
    using zdiv_mono1 [of "int t + 63" "fs_size fs + 63" 64] le by (simp add: zdiv_int)
  then show ?thesis using shape_iff [OF sh, of t] by blast
qed

lemma count_tail:
  assumes "fbs_shape fs" "i \<le> t div 64" "int t \<le> fs_size fs"
  shows "bind_out (count_words (fs_bits fs) (int i) (int (t div 64)) n) (\<lambda>n'.
      if int t AND wordMask \<noteq> 0
      then bind_out (index (fs_bits fs) (wordIndex (int t))) (\<lambda>w. Ok (n' + popcount (push_bit (nat (- int t AND wordMask)) w)))
      else Ok n') = Ok (n + range_card (fs_bits fs) (64 * i) t)"
proof -
  let ?ws = "fs_bits fs" and ?e = "t div 64"
  have e: "?e \<le> length ?ws"
    using assms(1,3) by (simp add: fbs_shape_def wordsNeeded_eq zdiv_int flip: of_nat_le_iff [where ?'a = int])
  note c = count_words_eq [OF assms(2) e, of n]
  show ?thesis
  proof (cases "t mod 64 = 0")
    case True
    then have "64 * ?e = t" by (metis add.right_neutral mult_div_mod_eq)
    then show ?thesis using c True by (simp add: and_63_0)
  next
    case False
    then have l: "?e < length ?ws" using word_in_range_le [OF assms(1,3)] by blast
    have t: "64 * ?e + t mod 64 = t" by simp
    have "range_card ?ws (64 * ?e + 0) (64 * ?e + t mod 64) = popcount (push_bit (64 - t mod 64) (?ws ! ?e))"
      using range_card_word [OF l, of "t mod 64" 0] popcount_push [of "t mod 64" "?ws ! ?e"] by simp
    then have "range_card ?ws (64 * i) (64 * ?e) + popcount (push_bit (64 - t mod 64) (?ws ! ?e)) = range_card ?ws (64 * i) t"
      using range_card_split [of "64 * i" "64 * ?e" t ?ws] assms(2) t by simp
    moreover have "nat (- int t AND wordMask) = 64 - t mod 64" by (simp only: neg_and_63 [OF False] nat_int)
    ultimately show ?thesis using c False l by (simp add: and_63_0)
  qed
qed

lemma fs_CardinalityRange_card:
  assumes "fbs_shape fs" "a \<le> b" "int b \<le> fs_size fs"
  shows "fs_CardinalityRange (int a) (int b) fs = Ok (int (card {k \<in> fbs_set fs. a \<le> k \<and> k < b}))"
proof -
  let ?ws = "fs_bits fs" and ?i = "a div 64"
  define tail where "tail = (\<lambda>from n.
     bind_out (count_words ?ws (drop_bit log2BitsPerWord from) (drop_bit log2BitsPerWord (int b)) n) (\<lambda>n'.
       if int b AND wordMask \<noteq> 0
       then bind_out (index ?ws (drop_bit log2BitsPerWord (int b))) (\<lambda>w. Ok (n' + popcount (push_bit (nat (- int b AND wordMask)) w)))
       else Ok n'))"
  have tail: "tail (int (64 * i)) n = Ok (n + range_card ?ws (64 * i) b)" if "64 * i \<le> b" for i n
  proof -
    have "i \<le> b div 64" using that div_le_mono [OF that, of 64] by simp
    then show ?thesis using count_tail [OF assms(1) _ assms(3), of i n] wordIndex_nat [of "64 * i"]
      unfolding tail_def wordIndex_def [symmetric] by simp
  qed
  have C: "range_card ?ws a b = int (card {k \<in> fbs_set fs. a \<le> k \<and> k < b})"
    by (simp add: range_card_def fbs_set_def)
  have pre: "\<not> (int a < 0 \<or> int a > int b \<or> int b > fs_Length fs)" using assms by (simp add: fs_Length_def)
  show ?thesis
  proof (cases "a mod 64 = 0")
    case True
    then have "64 * ?i = a" by (metis add.right_neutral mult_div_mod_eq)
    then show ?thesis using tail [of ?i 0] True assms(2) C pre
      unfolding fs_CardinalityRange_def tail_def [symmetric] by (simp add: and_63_0)
  next
    case False
    have i: "?i < length ?ws" using word_in_range_le [OF assms(1) _ False] assms by simp
    let ?f = "a mod 64" and ?w = "?ws ! ?i"
    have a: "64 * ?i + ?f = a" by simp
    have f: "nat (int a AND wordMask) = ?f" by (simp add: and_63 int_mod_64)
    have til: "- int a AND wordMask = int (64 - ?f)" by (rule neg_and_63 [OF False])
    have cnt: "range_card ?ws a (a + n) = popcount (drop_bit ?f ?w AND mask n)" if "?f + n \<le> 64" for n
      using range_card_word [OF i that, of ?f] popcount_drop [of ?w ?f n] a by (simp flip: add.assoc)
    have x: "index ?ws (drop_bit log2BitsPerWord (int a)) = Ok ?w"
      using i wordIndex_nat [of a] by (simp add: wordIndex_def)
    show ?thesis
    proof (cases "b - a < 64 - ?f")
      case True
      then have "range_card ?ws a b = popcount (drop_bit ?f ?w AND mask (b - a))" using cnt [of "b - a"] assms(2) by simp
      moreover have "int b - int a < - int a AND wordMask" unfolding til using True assms(2) by simp
      moreover have "nat (int b - int a) = b - a" by simp
      ultimately show ?thesis using False C pre
        unfolding fs_CardinalityRange_def tail_def [symmetric] x Let_def by (simp add: and_63_0 f mask_eq_exp_minus_1)
    next
      case False
      let ?n = "64 * (?i + 1)"
      have "?f \<le> 64" by simp
      then have "64 * ?i + ?f + (64 - ?f) = ?n" by (simp only: add.assoc le_add_diff_inverse distrib_left mult_1_right)
      then have n: "a + (64 - ?f) = ?n" by (simp only: a)
      have "drop_bit ?f ?w AND mask (64 - ?f) = drop_bit ?f ?w"
        by (rule bit_word_eqI) (auto simp: bit_simps dest: bit_imp_le_length)
      then have "range_card ?ws a ?n = popcount (drop_bit ?f ?w)" using cnt [of "64 - ?f"] by (simp add: n)
      moreover have nb: "a \<le> ?n" "?n \<le> b" using n False assms(2) by linarith+
      ultimately have "popcount (drop_bit ?f ?w) + range_card ?ws ?n b = range_card ?ws a b"
        using range_card_split [OF nb, of ?ws] by simp
      moreover have "\<not> int b - int a < - int a AND wordMask" unfolding til using False assms(2) by simp
      moreover have "int a + (- int a AND wordMask) = int ?n" unfolding til using n by linarith
      ultimately show ?thesis using \<open>a mod 64 \<noteq> 0\<close> C pre tail [OF nb(2), of "popcount (drop_bit ?f ?w)"]
        unfolding fs_CardinalityRange_def tail_def [symmetric] x Let_def by (simp only: f bind_out.simps if_True if_False and_63_0 simp_thms)
    qed
  qed
qed

section \<open>Growing, and operations on ranges\<close>

lemma wbit_append_zeros: "wbit (ws @ replicate n 0) k \<longleftrightarrow> wbit ws k"
  by (auto simp: wbit_def nth_append)

lemma bits2words_eq: "0 \<le> n \<Longrightarrow> bits2words n = (n + 63) div 64"
  by (simp add: bits2words_def log2BitsPerWord_def drop_bit_eq_div)

lemma ensureCapacity_keeps:
  assumes "fbs_wf fs" "0 \<le> desiredBit"
  shows "\<exists>fs'. FixedBitSetEnsureCapacity fs desiredBit = Ok fs' \<and> fbs_wf fs' \<and> fbs_set fs' = fbs_set fs
    \<and> fs_size fs \<le> fs_size fs' \<and> desiredBit < fs_size fs'"
proof (cases "desiredBit < fs_size fs")
  case True
  then show ?thesis using assms by (simp add: FixedBitSetEnsureCapacity_def ensureCapacityInternal_def)
next
  case False
  let ?ws = "fs_bits fs" and ?n = "bits2words desiredBit"
  have sh: "fbs_shape fs" using assms by (simp add: fbs_wf_def)
  have l: "int (length ?ws) = (fs_size fs + 63) div 64" using sh by (simp add: fbs_shape_def wordsNeeded_eq)
  have n: "?n = (desiredBit + 63) div 64" by (rule bits2words_eq [OF assms(2)])
  have ge: "?n \<ge> int (length ?ws)" unfolding n l using False by (simp add: zdiv_mono1)
  let ?arr = "?ws @ replicate (nat (?n + 1) - length ?ws) 0"
  define fs' where "fs' = \<lparr>fs_bits = ?arr, fs_size = push_bit log2BitsPerWord (int (length ?arr))\<rparr>"
  have len: "int (length ?arr) = ?n + 1" using ge by simp
  have size: "fs_size fs' = 64 * (?n + 1)" unfolding fs'_def len by (simp add: log2BitsPerWord_def push_bit_eq_mult)
  have r: "FixedBitSetEnsureCapacity fs desiredBit = Ok fs'"
    using False ge by (simp add: FixedBitSetEnsureCapacity_def ensureCapacityInternal_def GrowExact_def fs'_def Let_def)
  have "desiredBit < 64 * ((desiredBit + 63) div 64 + 1)" by presburger
  then have d: "desiredBit < fs_size fs'" unfolding size n .
  have s: "fbs_set fs' = fbs_set fs" by (simp add: fs'_def fbs_set_def wbit_append_zeros)
  have "fbs_shape fs'" using assms(2) n len by (simp add: fbs_shape_def size wordsNeeded_eq) (simp add: fs'_def)
  then have "fbs_wf fs'" using s d False assms(1) by (auto simp: fbs_wf_def)
  then show ?thesis using r s d False by auto
qed

lemma wbit_map_between:
  "wbit (map_between f lo hi ws) k \<longleftrightarrow>
     (if k div 64 < length ws \<and> lo < int (k div 64) \<and> int (k div 64) < hi then bit (f (ws ! (k div 64))) (k mod 64) else wbit ws k)"
  by (auto simp: wbit_def map_between_def nth_enumerate_eq)

lemma length_map_between [simp]: "length (map_between f lo hi ws) = length ws"
  by (simp add: map_between_def)

lemma le_digits: "q < 64 \<Longrightarrow> s < 64 \<Longrightarrow> 64 * p + q \<le> 64 * r + s \<longleftrightarrow> p < r \<or> p = r \<and> q \<le> (s :: nat)"
  by (cases p r rule: linorder_cases) auto

lemma le_div_mod: "a \<le> k \<longleftrightarrow> a div 64 < k div 64 \<or> a div 64 = k div 64 \<and> a mod 64 \<le> (k mod 64 :: nat)"
  using le_digits [of "a mod 64" "k mod 64" "a div 64" "k div 64"]
  by (simp only: mult_div_mod_eq mod_less_divisor zero_less_numeral)

text \<open>What the range operations do to a word list: the first, the last and the inner words.\<close>

definition range_words :: "(u64 \<Rightarrow> u64 \<Rightarrow> u64) \<Rightarrow> (u64 \<Rightarrow> u64) \<Rightarrow> nat \<Rightarrow> nat \<Rightarrow> u64 \<Rightarrow> u64 \<Rightarrow> u64 list \<Rightarrow> u64 list" where
  "range_words g f s e sm em ws =
     (if s = e then ws[s := g (ws ! s) (sm AND em)]
      else (map_between f (int s) (int e) (ws[s := g (ws ! s) sm]))[e := g (ws ! e) em])"

lemma length_range_words [simp]: "length (range_words g f s e sm em ws) = length ws"
  by (simp add: range_words_def)

lemma nth_range_words:
  assumes "s \<le> e" "e < length ws" "d < length ws"
  shows "range_words g f s e sm em ws ! d =
    (if d = s then g (ws ! d) (if s = e then sm AND em else sm) else if d = e then g (ws ! d) em
     else if s < d \<and> d < e then f (ws ! d) else ws ! d)"
  using assms by (auto simp: range_words_def map_between_def nth_enumerate_eq nth_list_update)

lemma bit_range_words:
  assumes "s \<le> e" "e < length ws" "d < length ws" "m < 64"
    and g: "\<And>w v. bit (g w v) m \<longleftrightarrow> (if bit v m then h (bit w m) else bit w m)" and f: "\<And>w. bit (f w) m \<longleftrightarrow> h (bit w m)"
    and sm: "bit sm m \<longleftrightarrow> p \<le> m" and em: "bit em m \<longleftrightarrow> m \<le> q"
  shows "bit (range_words g f s e sm em ws ! d) m \<longleftrightarrow>
    (if (s < d \<or> s = d \<and> p \<le> m) \<and> (d < e \<or> d = e \<and> m \<le> q) then h (bit (ws ! d) m) else bit (ws ! d) m)"
proof (cases d s rule: linorder_cases)
  case equal
  then show ?thesis using assms(1-3) by (cases "s = e") (simp_all add: nth_range_words g bit_and_iff sm em)
next
  case less
  then show ?thesis using assms(1-3) by (simp add: nth_range_words)
next
  case greater
  then show ?thesis using assms(1-3) by (cases d e rule: linorder_cases) (simp_all add: nth_range_words g f em)
qed

lemma range_op_yields:
  assumes wf: "fbs_wf fs" and ab: "a \<le> b" "int b \<le> fs_size fs"
    and g: "\<And>w m j. j < 64 \<Longrightarrow> bit (g w m) j \<longleftrightarrow> (if bit m j then h (bit w j) else bit w j)"
    and f: "\<And>w j. j < 64 \<Longrightarrow> bit (f w) j \<longleftrightarrow> h (bit w j)"
  shows "fs_yields (range_op g f (int a) (int b) fs) fs {k. if a \<le> k \<and> k < b then h (k \<in> fbs_set fs) else k \<in> fbs_set fs}"
    (is "fs_yields _ _ ?S")
proof (cases "a = b")
  case True
  then have "?S = fbs_set fs" by auto
  then show ?thesis using True wf ab by (simp add: range_op_def fs_yields_def)
next
  case False
  define e where "e = b - 1"
  have e: "int b - 1 = int e" "b = e + 1" "a \<le> e" "int e < fs_size fs" using False ab by (auto simp: e_def)
  have sh: "fbs_shape fs" using wf by (simp add: fbs_wf_def)
  let ?ws = "fs_bits fs" and ?s = "a div 64" and ?e = "e div 64"
  have se: "?s \<le> ?e" "?e < length ?ws" using div_le_mono [OF e(3)] word_in_range [OF sh e(4)] by simp_all
  let ?sm = "push_bit (a mod 64) (NOT 0) :: u64" and ?em = "drop_bit (63 - e mod 64) (NOT 0) :: u64"
  have sm: "bit ?sm j \<longleftrightarrow> a mod 64 \<le> j" and em: "bit ?em j \<longleftrightarrow> j \<le> e mod 64" if "j < 64" for j
    using that by (auto simp: bit_simps)
  define fs' where "fs' = fs\<lparr>fs_bits := range_words g f ?s ?e ?sm ?em ?ws\<rparr>"
  have r: "range_op g f (int a) (int b) fs = Ok fs'"
  proof (cases "?s = ?e")
    case True
    then show ?thesis using e(2,3) ab(2) se unfolding range_op_def e(1) Let_def fs'_def range_words_def by (simp add: upd_word_Ok)
  next
    case False
    have "map_between f (int ?s) (int ?e) (?ws[?s := g (?ws ! ?s) ?sm]) ! ?e = ?ws ! ?e"
      using se False by (simp add: map_between_def nth_enumerate_eq)
    then show ?thesis using e(2,3) ab(2) se False unfolding range_op_def e(1) Let_def fs'_def range_words_def
      by (simp add: upd_word_Ok)
  qed
  have "k \<in> fbs_set fs' \<longleftrightarrow> k \<in> ?S" for k
  proof (cases "k div 64 < length ?ws")
    case True
    have "k < b \<longleftrightarrow> k \<le> e" using e(2) by auto
    then show ?thesis
      using True bit_range_words [OF se True, of "k mod 64" g h f ?sm "a mod 64" ?em "e mod 64"] g f sm em
        le_div_mod [of a k] le_div_mod [of k e]
      by (simp add: fbs_set_def wbit_def fs'_def)
  next
    case False
    then have n: "\<not> k < b" using word_in_range [OF sh, of k] ab(2) by linarith
    then show ?thesis using False by (simp add: fbs_set_def wbit_def fs'_def)
  qed
  then have s: "fbs_set fs' = ?S" by blast
  have "\<forall>k\<in>?S. int k < fs_size fs" using ab(2) fbs_wf_elem [OF wf] by (auto split: if_splits)
  then have "fbs_wf fs'" using sh s by (simp add: fbs_wf_def fbs_shape_def fs'_def)
  then show ?thesis using r s by (simp add: fs_yields_def) (simp add: fs'_def)
qed

lemma fs_SetRange_yields:
  assumes "fbs_wf fs" "a \<le> b" "int b \<le> fs_size fs"
  shows "fs_yields (fs_SetRange (int a) (int b) fs) fs (fbs_set fs \<union> {a..<b})"
proof -
  have "fs_yields (fs_SetRange (int a) (int b) fs) fs {k. if a \<le> k \<and> k < b then True else k \<in> fbs_set fs}"
    unfolding fs_SetRange_def by (rule range_op_yields [OF assms]) (simp_all add: bit_or_iff)
  moreover have "{k. if a \<le> k \<and> k < b then True else k \<in> fbs_set fs} = fbs_set fs \<union> {a..<b}" by auto
  ultimately show ?thesis by simp
qed

lemma fs_FlipRange_yields:
  assumes "fbs_wf fs" "a \<le> b" "int b \<le> fs_size fs"
  shows "fs_yields (fs_FlipRange (int a) (int b) fs) fs ((fbs_set fs - {a..<b}) \<union> ({a..<b} - fbs_set fs))"
proof -
  have "fs_yields (fs_FlipRange (int a) (int b) fs) fs {k. if a \<le> k \<and> k < b then \<not> k \<in> fbs_set fs else k \<in> fbs_set fs}"
    unfolding fs_FlipRange_def by (rule range_op_yields [OF assms]) (simp_all add: bit_xor_iff bit_not_iff)
  moreover have "{k. if a \<le> k \<and> k < b then \<not> k \<in> fbs_set fs else k \<in> fbs_set fs}
      = (fbs_set fs - {a..<b}) \<union> ({a..<b} - fbs_set fs)" by auto
  ultimately show ?thesis by simp
qed

text \<open>The counts over two bit sets, which may have different sizes.\<close>

lemma wbit_map2_any: "wbit (map2 f us ws) k \<longleftrightarrow>
    k div 64 < length us \<and> k div 64 < length ws \<and> bit (f (us ! (k div 64)) (ws ! (k div 64))) (k mod 64)"
  by (auto simp: wbit_def)

lemma map2_popcount: "map (\<lambda>(x, y). popcount (f x y)) (zip us ws) = map popcount (map2 f us ws)"
  by auto

lemma IntersectionCount_card: "IntersectionCount a b = int (card (fbs_set a \<inter> fbs_set b))"
proof -
  have "{k. wbit (map2 (\<lambda>x y. x AND y) (fs_bits a) (fs_bits b)) k} = fbs_set a \<inter> fbs_set b"
    by (auto simp: wbit_map2_any fbs_set_def wbit_def bit_and_iff)
  then show ?thesis unfolding IntersectionCount_def map2_popcount using card_wbit by metis
qed

lemma UnionCount_card: "UnionCount a b = int (card (fbs_set a \<union> fbs_set b))"
proof -
  let ?m = "min (length (fs_bits a)) (length (fs_bits b))"
  let ?ws = "map2 (\<lambda>x y. x OR y) (fs_bits a) (fs_bits b) @ drop ?m (fs_bits a) @ drop ?m (fs_bits b)"
  have "{k. wbit ?ws k} = fbs_set a \<union> fbs_set b"
    by (auto simp: fbs_set_def wbit_def nth_append bit_or_iff min_def split: if_splits)
  then show ?thesis using card_wbit [of ?ws] by (simp add: UnionCount_def Let_def map2_popcount)
qed

lemma AndNotCount_card: "AndNotCount a b = int (card (fbs_set a - fbs_set b))"
proof -
  let ?m = "min (length (fs_bits a)) (length (fs_bits b))"
  let ?ws = "map2 (\<lambda>x y. x AND NOT y) (fs_bits a) (fs_bits b) @ drop ?m (fs_bits a)"
  have "{k. wbit ?ws k} = fbs_set a - fbs_set b"
    by (auto simp: fbs_set_def wbit_def nth_append bit_and_iff bit_not_iff min_def split: if_splits)
  then show ?thesis using card_wbit [of ?ws] by (simp add: AndNotCount_def Let_def map2_popcount)
qed

lemma fs_Intersects_iff: "fs_Intersects a b \<longleftrightarrow> fbs_set a \<inter> fbs_set b \<noteq> {}"
proof -
  let ?c = "\<lparr>fs_bits = map2 (\<lambda>x y. x AND y) (fs_bits a) (fs_bits b), fs_size = 0\<rparr>"
  have "fbs_set ?c = fbs_set a \<inter> fbs_set b"
    by (auto simp: wbit_map2_any fbs_set_def wbit_def bit_and_iff)
  moreover have "fs_Intersects a b \<longleftrightarrow> \<not> fs_IsEmpty ?c"
    by (force simp: fs_Intersects_def fs_IsEmpty_def list_ex_iff list_all_iff)
  ultimately show ?thesis by (simp only: fs_IsEmpty_iff) 
qed

text \<open>The next zero bit.\<close>

lemma clear_loop_next:
  "i < length (fs_bits fs) \<Longrightarrow>
   clear_loop fs i w =
     (let n = next_loop (map (\<lambda>w. NOT w) (fs_bits fs)) i w in if n = - 1 \<or> n \<ge> fs_size fs then fs_size fs else n)"
proof (induction fs i w rule: clear_loop.induct)
  case (1 fs i w)
  show ?case
  proof (cases "w = 0")
    case False
    then show ?thesis using 1(2) trailingZeros_iff(1) [OF False]
      by (subst clear_loop.simps, subst next_loop.simps) (simp add: bitsPerWord_def Let_def)
  next
    case w: True
    show ?thesis
    proof (cases "i + 1 < length (fs_bits fs)")
      case True
      then show ?thesis using 1 w
        by (subst clear_loop.simps, subst next_loop.simps) simp
    next
      case False
      then show ?thesis using 1(2) w
        by (subst clear_loop.simps, subst next_loop.simps) (simp add: next_loop.simps)
    qed
  qed
qed

lemma fs_NextClearBit_least:
  assumes "fbs_wf fs" "int a < fs_size fs"
  shows "fs_NextClearBit (int a) fs = Ok (min (fs_size fs) (int (LEAST k. a \<le> k \<and> k \<notin> fbs_set fs)))"
proof -
  let ?ws = "fs_bits fs" and ?i = "a div 64"
  have sh: "fbs_shape fs" using assms by (simp add: fbs_wf_def)
  have i: "?i < length ?ws" by (rule word_in_range [OF sh assms(2)])
  let ?w = "NOT (?ws ! ?i) AND push_bit (a mod 64) (NOT 0)" and ?us = "map (\<lambda>w. NOT w) ?ws"
  have "bit ?w j \<longleftrightarrow> a \<le> 64 * ?i + j \<and> bit (?us ! ?i) j" if "j < 64" for j
    using that i by (auto simp: le_word_iff bit_simps)
  then have n: "next_loop ?us ?i ?w = (if \<exists>k\<ge>a. wbit ?us k then int (LEAST k. a \<le> k \<and> wbit ?us k) else - 1)"
    using i by (intro next_loop_spec) simp_all
  have u: "wbit ?us k \<longleftrightarrow> k div 64 < length ?ws \<and> k \<notin> fbs_set fs" for k
    by (auto simp: wbit_def fbs_set_def bit_not_iff)
  define l where "l = (LEAST k. a \<le> k \<and> k \<notin> fbs_set fs)"
  have "a \<le> nat (fs_size fs) \<and> nat (fs_size fs) \<notin> fbs_set fs" using assms fbs_wf_elem [OF assms(1), of "nat (fs_size fs)"] by auto
  then have l: "a \<le> l \<and> l \<notin> fbs_set fs" "l \<le> nat (fs_size fs)"
    unfolding l_def by (rule LeastI, rule Least_le)
  have min: "l \<le> k" if "a \<le> k" "k \<notin> fbs_set fs" for k unfolding l_def using that by (auto intro: Least_le)
  have r: "fs_NextClearBit (int a) fs = Ok (clear_loop fs ?i ?w)"
    using assms index_word [OF sh assms(2)] by (simp add: fs_NextClearBit_def)
  show ?thesis
  proof (cases "l div 64 < length ?ws")
    case True
    then have "(LEAST k. a \<le> k \<and> wbit ?us k) = l" using l min by (intro Least_equality) (auto simp: u)
    then have "next_loop ?us ?i ?w = int l" using n l True u by auto
    then show ?thesis using r clear_loop_next [OF i, of ?w] l(2) by (simp add: Let_def flip: l_def)
  next
    case False
    then have ls: "\<not> int l < fs_size fs" using word_in_range [OF sh, of l] by blast
    have "fs_size fs \<le> int k" if "a \<le> k" "wbit ?us k" for k
      using min [of k] that u ls by force
    then have "next_loop ?us ?i ?w = - 1 \<or> next_loop ?us ?i ?w \<ge> fs_size fs"
      using n LeastI_ex [of "\<lambda>k. a \<le> k \<and> wbit ?us k"] by auto
    then show ?thesis using r clear_loop_next [OF i, of ?w] ls by (simp add: Let_def min_def flip: l_def)
  qed
qed

text \<open>\<open>FixedBitSetCopy\<close> of any \<open>Bits\<close> whose \<open>Get\<close> answers for a set.\<close>

lemma copy_loop_bits_yields:
  assumes "fbs_wf fs" "a + n = nat (fs_size fs)" "\<And>k. k < a + n \<Longrightarrow> get (int k) = Ok (k \<in> S)" "fbs_set fs = S \<inter> {..<a}"
  shows "fs_yields (copy_loop_bits get n (int a) fs) fs (S \<inter> {..<a + n})"
  using assms
proof (induction n arbitrary: a fs)
  case 0
  then show ?case by (simp add: fs_yields_def)
next
  case (Suc n)
  let ?r = "if a \<in> S then fs_Set (int a) fs else Ok fs"
  have lt: "int a < fs_size fs" using Suc.prems(2) by simp
  then obtain fs1 where 1: "?r = Ok fs1" "fbs_wf fs1" "fs_size fs1 = fs_size fs" "fbs_set fs1 = S \<inter> {..<a + 1}"
    using fs_Set_yields [OF Suc.prems(1) lt] Suc.prems(1,4) by (cases "a \<in> S") (auto simp: fs_yields_def lessThan_Suc)
  then have "fs_yields (copy_loop_bits get n (int (a + 1)) fs1) fs1 (S \<inter> {..<a + 1 + n})"
    using Suc.prems by (intro Suc.IH) simp_all
  then show ?case using 1 Suc.prems(3) [of a] by (simp add: fs_yields_def add.commute)
qed

lemma FixedBitSetCopy_set:
  assumes "0 \<le> n" "\<And>k. int k < n \<Longrightarrow> get (int k) = Ok (k \<in> S)"
  shows "\<exists>fs. FixedBitSetCopy n get = Ok fs \<and> fbs_wf fs \<and> fs_size fs = n \<and> fbs_set fs = {k \<in> S. int k < n}"
proof -
  obtain fs where 1: "NewFixedBitSet n = Ok fs" "fbs_wf fs" "fs_size fs = n" "fbs_set fs = {}"
    using NewFixedBitSet_empty [OF assms(1)] by blast
  have "fs_yields (copy_loop_bits get (nat n) (int 0) fs) fs (S \<inter> {..<0 + nat n})"
    by (rule copy_loop_bits_yields) (use 1 assms in auto)
  moreover have "S \<inter> {..<nat n} = {k \<in> S. int k < n}" by auto
  ultimately show ?thesis using 1 by (auto simp: FixedBitSetCopy_def fs_yields_def)
qed

section \<open>Copying a range\<close>

text \<open>\<open>dst'\<close> is \<open>dst\<close> with the \<open>n\<close> bits of \<open>src\<close> from \<open>sf\<close> on or-ed in at \<open>df\<close>.\<close>

definition or_spec :: "u64 list \<Rightarrow> nat \<Rightarrow> nat \<Rightarrow> nat \<Rightarrow> u64 list \<Rightarrow> u64 list \<Rightarrow> bool" where
  "or_spec src sf df n dst dst' \<longleftrightarrow> length dst' = length dst
     \<and> (\<forall>k. wbit dst' k \<longleftrightarrow> wbit dst k \<or> (df \<le> k \<and> k < df + n \<and> wbit src (k - df + sf)))"

lemma or_spec_0 [simp]: "or_spec src sf df 0 dst dst"
  by (auto simp: or_spec_def)

lemma or_spec_append:
  assumes "or_spec src sf df m dst dst1" "or_spec src (sf + m) (df + m) n dst1 dst2"
  shows "or_spec src sf df (m + n) dst dst2"
proof -
  have "df \<le> k \<and> k < df + (m + n) \<and> wbit src (k - df + sf) \<longleftrightarrow>
    (df \<le> k \<and> k < df + m \<and> wbit src (k - df + sf)) \<or>
    (df + m \<le> k \<and> k < df + m + n \<and> wbit src (k - (df + m) + (sf + m)))" for k
  proof (cases "df + m \<le> k")
    case True
    then have "k - (df + m) + (sf + m) = k - df + sf" by simp
    then show ?thesis using True by auto
  qed auto
  then show ?thesis using assms by (auto simp: or_spec_def)
qed

lemma wbit_at: "m < 64 \<Longrightarrow> wbit ws (64 * i + m) \<longleftrightarrow> i < length ws \<and> bit (ws ! i) m"
  by (simp add: wbit_def)

lemma wbit_digits:
  assumes "q < 64" "j < 64"
  shows "wbit ws (64 * p + q + j) \<longleftrightarrow>
    (if q + j < 64 then p < length ws \<and> bit (ws ! p) (q + j) else p + 1 < length ws \<and> bit (ws ! (p + 1)) (q + j - 64))"
proof (cases "q + j < 64")
  case True
  then show ?thesis by (simp add: wbit_def add.assoc)
next
  case False
  then obtain m where m: "q + j = 64 + m" by (metis add.commute le_Suc_ex not_less)
  then have "m < 64" using assms by simp
  have "64 * p + q + j = 64 * (p + 1) + m" using m by simp
  then have "wbit ws (64 * p + q + j) \<longleftrightarrow> p + 1 < length ws \<and> bit (ws ! (p + 1)) m"
    by (simp only: wbit_at [OF \<open>m < 64\<close>])
  then show ?thesis using m by simp
qed

lemma bit_carry: "j < 64 \<Longrightarrow> q < 64 \<Longrightarrow> bit (push_bit (64 - q) w) j \<longleftrightarrow> 64 \<le> q + j \<and> bit (w :: u64) (q + j - 64)"
proof -
  assume jq: "j < 64" "q < 64"
  then have "64 \<le> q + j \<Longrightarrow> j - (64 - q) = q + j - 64" by simp
  then show ?thesis using jq by (auto simp: bit_push_bit_iff)
qed

lemma readNBits_Ok:
  assumes "0 < n" "n \<le> 64" "a + n \<le> 64 * length src"
  shows "\<exists>v. readNBits src (int a) (int n) = Ok v \<and> (\<forall>j. bit v j \<longleftrightarrow> j < n \<and> wbit src (a + j))"
proof -
  define p q where "p = a div 64" and "q = a mod 64"
  have a: "a = 64 * p + q" and q: "q < 64" by (simp_all add: p_def q_def)
  have p: "p < length src" using assms(1,3) a by linarith
  have i: "drop_bit log2BitsPerWord (int a) = int p" using wordIndex_nat [of a] by (simp add: wordIndex_def p_def)
  have m: "int a AND wordMask = int q" by (simp add: and_63 int_mod_64 q_def)
  let ?w = "drop_bit q (src ! p)"
  have b0: "bit ?w j \<longleftrightarrow> bit (src ! p) (q + j)" for j by (simp add: bit_drop_bit_eq)
  have msk: "bit (v AND (push_bit (nat (int n)) 1 - 1)) j \<longleftrightarrow> j < n \<and> bit v j" for v :: u64 and j
    using bit64_False [of j v] assms(2) by (auto simp: bit_simps mask_eq_exp_minus_1 [symmetric])
  show ?thesis
  proof (cases "64 - q < n")
    case True
    then have p1: "p + 1 < length src" using assms(3) a by linarith
    let ?v = "(?w OR push_bit (64 - q) (src ! (p + 1))) AND (push_bit (nat (int n)) 1 - 1)"
    have "readNBits src (int a) (int n) = Ok ?v"
    proof -
      have "64 - int q < int n" "nat (int p + 1) = p + 1" "nat (64 - int q) = 64 - q" using True by linarith+
      then show ?thesis using p p1 unfolding readNBits_def i m Let_def bitsPerWord_def by simp
    qed
    moreover have "bit ?v j \<longleftrightarrow> j < n \<and> wbit src (a + j)" for j
    proof (cases "j < n")
      case jn: True
      then have "wbit src (a + j) \<longleftrightarrow> (if q + j < 64 then bit (src ! p) (q + j) else bit (src ! (p + 1)) (q + j - 64))"
        using wbit_digits [OF q, of j src p] assms(2) p p1 by (simp add: a)
      moreover have "bit (push_bit (64 - q) (src ! (p + 1))) j \<longleftrightarrow> \<not> q + j < 64 \<and> bit (src ! (p + 1)) (q + j - 64)"
        using jn assms(2) q by (simp only: bit_carry) (simp add: not_less)
      ultimately show ?thesis using jn bit64_False [of "q + j" "src ! p"] by (simp only: msk bit_or_iff b0) auto
    qed (simp only: msk simp_thms)
    ultimately show ?thesis by blast
  next
    case False
    let ?v = "?w AND (push_bit (nat (int n)) 1 - 1)"
    have "readNBits src (int a) (int n) = Ok ?v"
    proof -
      have "\<not> 64 - int q < int n" using False q by linarith
      then show ?thesis using p unfolding readNBits_def i m Let_def bitsPerWord_def by simp
    qed
    moreover have "bit ?v j \<longleftrightarrow> j < n \<and> wbit src (a + j)" for j
    proof (cases "j < n")
      case True
      then have "q + j < 64" using False q by linarith
      then show ?thesis using True wbit_digits [OF q, of j src p] assms(2) p by (simp only: msk b0) (simp add: a)
    qed (simp only: msk simp_thms)
    ultimately show ?thesis by blast
  qed
qed

lemma or_word_spec:
  assumes "d < length dst" "r + n \<le> 64" "\<And>j. bit v j \<longleftrightarrow> r \<le> j \<and> j < r + n \<and> wbit src (sf + (j - r))"
  shows "\<exists>dst'. or_word dst (int d) v = Ok dst' \<and> or_spec src sf (64 * d + r) n dst dst'"
proof -
  let ?dst = "dst[d := dst ! d OR v]"
  have "or_word dst (int d) v = Ok ?dst" using assms(1) by (simp add: or_word_def)
  moreover have "wbit ?dst k \<longleftrightarrow> wbit dst k \<or> (64 * d + r \<le> k \<and> k < 64 * d + r + n \<and> wbit src (k - (64 * d + r) + sf))" for k
  proof (cases "k div 64 = d")
    case True
    define j where "j = k mod 64"
    have k: "k = 64 * d + j" and j: "j < 64" using True by (simp_all add: j_def flip: True)
    have "64 * d + r \<le> k \<longleftrightarrow> r \<le> j" "k < 64 * d + r + n \<longleftrightarrow> j < r + n" by (auto simp: k)
    moreover have "r \<le> j \<Longrightarrow> k - (64 * d + r) + sf = sf + (j - r)" by (simp add: k)
    moreover have "wbit dst k \<longleftrightarrow> bit (dst ! d) j" "wbit ?dst k \<longleftrightarrow> bit (dst ! d) j \<or> bit v j"
      using assms(1) j by (simp_all add: k wbit_at bit_or_iff)
    ultimately show ?thesis using assms(3) [of j] by auto
  next
    case False
    have "\<not> (64 * d + r \<le> k \<and> k < 64 * d + r + n)"
    proof
      assume "64 * d + r \<le> k \<and> k < 64 * d + r + n"
      then have "k = 64 * d + (k - 64 * d)" "k - 64 * d < 64" using assms(2) by linarith+
      then obtain m where "k = 64 * d + m" "m < 64" by blast
      then show False using False by simp
    qed
    then show ?thesis using assms(1) False by (auto simp: wbit_update)
  qed
  ultimately show ?thesis by (auto simp: or_spec_def)
qed

lemma or_words_spec:
  assumes "q < 64" "64 * (p + N) + q \<le> 64 * length src" "dw + N \<le> length dst" "i \<le> N"
  shows "\<exists>dst'. or_words src (int p) q (int dw) (int i) (int N) dst = Ok dst'
    \<and> or_spec src (64 * (p + i) + q) (64 * (dw + i)) (64 * (N - i)) dst dst'"
  using assms(3,4)
proof (induction "N - i" arbitrary: i dst)
  case 0
  then show ?case by (simp add: or_words.simps)
next
  case (Suc n)
  then have i: "i < N" by simp
  have "64 * (p + N) \<le> 64 * length src" using assms(2) by (rule add_leD1)
  then have pN: "p + N \<le> length src" by simp
  then have p: "p + i < length src" using i by simp
  have p1: "p + i + 1 < length src" if "q \<noteq> 0"
  proof -
    have "p + N \<noteq> length src" using assms(2) that by auto
    then show ?thesis using pN i by simp
  qed
  let ?v = "if q = 0 then src ! (p + i) else drop_bit q (src ! (p + i)) OR push_bit (64 - q) (src ! (p + i + 1))"
  have v: "bit ?v j \<longleftrightarrow> 0 \<le> j \<and> j < 0 + 64 \<and> wbit src (64 * (p + i) + q + (j - 0))" for j
  proof (cases "j < 64")
    case True
    then show ?thesis
      using wbit_digits [OF assms(1) True, of src "p + i"] p p1 bit64_False [of "q + j" "src ! (p + i)"] bit_carry [OF True assms(1)]
      by (auto simp: bit_or_iff bit_drop_bit_eq)
  qed (use bit64_False [of j] in auto)
  have d: "dw + i < length dst" using Suc.prems i by simp
  obtain dst1 where 1: "or_word dst (int (dw + i)) ?v = Ok dst1" "or_spec src (64 * (p + i) + q) (64 * (dw + i) + 0) 64 dst dst1"
    using or_word_spec [OF d, of 0 64, OF _ v] by auto
  then have l: "dw + N \<le> length dst1" using Suc.prems by (simp add: or_spec_def)
  obtain dst2 where 2: "or_words src (int p) q (int dw) (int (i + 1)) (int N) dst1 = Ok dst2"
      "or_spec src (64 * (p + (i + 1)) + q) (64 * (dw + (i + 1))) (64 * (N - (i + 1))) dst1 dst2"
  proof -
    have "n = N - (i + 1)" "i + 1 \<le> N" using Suc.hyps(2) i by simp_all
    then show thesis using Suc.hyps(1) [OF _ l] that by blast
  qed
  have x: "index src (int p + int i) = Ok (src ! (p + i))" using p by (simp add: nat_add_distrib)
  have x1: "index src (int p + int i + 1) = Ok (src ! (p + i + 1))" if "q \<noteq> 0"
    using p1 [OF that] by (simp add: nat_add_distrib)
  have "or_words src (int p) q (int dw) (int i) (int N) dst = or_words src (int p) q (int dw) (int (i + 1)) (int N) dst1"
    using i x x1 1(1) by (subst or_words.simps) (auto simp: add.commute [of 1] split: if_splits)
  moreover have "or_spec src (64 * (p + i) + q) (64 * (dw + i)) (64 + 64 * (N - (i + 1))) dst dst2"
    using or_spec_append [OF 1(2), of "64 * (N - (i + 1))" dst2] 2(2) by (simp add: algebra_simps)
  moreover have "64 + 64 * (N - (i + 1)) = 64 * (N - i)" using i by simp
  ultimately show ?case using 2(1) by metis
qed

lemma shape_size: "fbs_shape fs \<Longrightarrow> fs_size fs \<le> 64 * int (length (fs_bits fs))"
  by (simp add: fbs_shape_def wordsNeeded_eq)

text \<open>
  The three phases: up to the first word boundary of the destination, the full words,
  and the rest.
\<close>

lemma or_head:
  assumes "df mod 64 \<noteq> 0" "0 < n" "sf + n \<le> 64 * length src" "df + n \<le> 64 * length dst" "m = min (64 - df mod 64) n"
  shows "\<exists>bits dst'. readNBits src (int sf) (int m) = Ok bits
    \<and> or_word dst (int (df div 64)) (push_bit (df mod 64) bits) = Ok dst' \<and> or_spec src sf df m dst dst'"
proof -
  define d r where "d = df div 64" and "r = df mod 64"
  have df: "df = 64 * d + r" and r: "r < 64" by (simp_all add: d_def r_def)
  have m: "0 < m" "m \<le> 64" "m \<le> n" "r + m \<le> 64" using assms(2,5) r by (auto simp flip: r_def)
  obtain v where v: "readNBits src (int sf) (int m) = Ok v" "\<forall>j. bit v j \<longleftrightarrow> j < m \<and> wbit src (sf + j)"
    using readNBits_Ok [OF m(1,2), of sf src] assms(3) m(3) by auto
  have d: "d < length dst" using assms(2,4) df by linarith
  have w: "bit (push_bit r v) j \<longleftrightarrow> r \<le> j \<and> j < r + m \<and> wbit src (sf + (j - r))" for j
  proof (cases "r \<le> j \<and> j < r + m")
    case True
    then have "j - r < m" "j < 64" using m(4) by linarith+
    then show ?thesis using True v(2) by (simp add: bit_push_bit_iff)
  next
    case False
    have "\<not> bit v (j - r)" if "r \<le> j"
    proof -
      have "\<not> j - r < m" using False that by linarith
      then show ?thesis using v(2) by blast
    qed
    then show ?thesis using False by (auto simp: bit_push_bit_iff)
  qed
  obtain dst' where "or_word dst (int d) (push_bit r v) = Ok dst'" "or_spec src sf (64 * d + r) m dst dst'"
    using or_word_spec [OF d m(4) w] by blast
  then show ?thesis using v(1) df unfolding d_def r_def by auto
qed

lemma or_tail:
  assumes "0 < n" "n < 64" "sf + n \<le> 64 * length src" "64 * d + n \<le> 64 * length dst"
  shows "\<exists>bits dst'. readNBits src (int sf) (int n) = Ok bits
    \<and> or_word dst (int d) bits = Ok dst' \<and> or_spec src sf (64 * d) n dst dst'"
proof -
  obtain v where v: "readNBits src (int sf) (int n) = Ok v" "\<forall>j. bit v j \<longleftrightarrow> j < n \<and> wbit src (sf + j)"
    using readNBits_Ok [OF assms(1) _ assms(3)] assms(2) by auto
  have d: "d < length dst" using assms(1,4) by linarith
  have "bit v j \<longleftrightarrow> 0 \<le> j \<and> j < 0 + n \<and> wbit src (sf + (j - 0))" for j using v(2) by simp
  then show ?thesis using or_word_spec [OF d, of 0 n v src sf] v(1) assms(2) by auto
qed

lemma or_first:
  assumes "0 < n" "sf + n \<le> 64 * length src" "df + n \<le> 64 * length dst"
  defines "m \<equiv> if df mod 64 \<noteq> 0 then min (64 - df mod 64) n else 0"
  shows "\<exists>dst1. (if int df AND wordMask \<noteq> 0
         then let numBitsNeeded = min (bitsPerWord - (int df AND wordMask)) (int n)
              in bind_out (readNBits src (int sf) numBitsNeeded) (\<lambda>bits.
                 bind_out (or_word dst (drop_bit log2BitsPerWord (int df)) (push_bit (nat (int df AND wordMask)) bits)) (\<lambda>dst.
                   Ok (int sf + numBitsNeeded, int df + numBitsNeeded, int n - numBitsNeeded, dst)))
         else Ok (int sf, int df, int n, dst)) = Ok (int (sf + m), int (df + m), int (n - m), dst1)
     \<and> or_spec src sf df m dst dst1"
proof (cases "df mod 64 = 0")
  case True
  then show ?thesis by (simp add: and_63_0 m_def)
next
  case False
  then have m: "m = min (64 - df mod 64) n" by (simp add: m_def)
  have e: "min (bitsPerWord - (int df AND wordMask)) (int n) = int m" "nat (int df AND wordMask) = df mod 64"
    "drop_bit log2BitsPerWord (int df) = int (df div 64)" "int n - int m = int (n - m)"
    using wordIndex_nat [of df]
    by (simp_all add: m bitsPerWord_def and_63 int_mod_64 of_nat_diff of_nat_min wordIndex_def)
  show ?thesis using or_head [OF False assms(1-3) m] False unfolding Let_def e by (auto simp: and_63_0)
qed

lemma aligned_after:
  fixes n df :: nat
  assumes "n \<noteq> (if df mod 64 \<noteq> 0 then min (64 - df mod 64) n else 0)"
  shows "\<exists>D. df + (if df mod 64 \<noteq> 0 then min (64 - df mod 64) n else 0) = 64 * D"
proof (cases "df mod 64 = 0")
  case True
  then have "df = 64 * (df div 64)" by (metis add.right_neutral mult_div_mod_eq)
  then show ?thesis using True by auto
next
  case False
  then have "min (64 - df mod 64) n = 64 - df mod 64" using assms by (simp add: min_def split: if_splits)
  moreover have "64 * (df div 64) + df mod 64 + (64 - df mod 64) = 64 * (df div 64 + 1)"
    by (simp only: add.assoc le_add_diff_inverse distrib_left mult_1_right mod_le_divisor zero_less_numeral)
  ultimately have "df + min (64 - df mod 64) n = 64 * (df div 64 + 1)"
    by (simp only: mult_div_mod_eq)
  then show ?thesis using False by (intro exI [of _ "df div 64 + 1"]) simp
qed

lemma or_aligned_spec:
  assumes "sf + n \<le> 64 * length src" "64 * D + n \<le> 64 * length dst"
  shows "\<exists>dst'. or_aligned src (int sf) (int (64 * D)) (int n) dst = Ok dst' \<and> or_spec src sf (64 * D) n dst dst'"
proof -
  define p q N r where "p = sf div 64" and "q = sf mod 64" and "N = n div 64" and "r = n mod 64"
  have sf: "sf = 64 * p + q" "q < 64" and n: "n = 64 * N + r" "r < 64" by (simp_all add: p_def q_def N_def r_def)
  have w: "drop_bit log2BitsPerWord (int k) = int (k div 64)" for k
    using wordIndex_nat [of k] by (simp add: wordIndex_def)
  have w: "drop_bit log2BitsPerWord (int n) = int N" "drop_bit log2BitsPerWord (int sf) = int p"
    "drop_bit log2BitsPerWord (int (64 * D)) = int D" "nat (int sf AND wordMask) = q"
    using w [of "64 * D"] by (simp_all add: w p_def q_def N_def and_63 int_mod_64)
  have s: "push_bit log2BitsPerWord (int N) = int (64 * N)" by (simp add: log2BitsPerWord_def push_bit_eq_mult)
  have "64 * (p + N) + q \<le> 64 * length src" using assms(1) by (simp add: sf n distrib_left)
  moreover have "64 * (D + N) \<le> 64 * length dst" using assms(2) by (simp add: n distrib_left)
  then have "D + N \<le> length dst" by simp
  ultimately obtain dst1 where 1: "or_words src (int p) q (int D) 0 (int N) dst = Ok dst1"
      "or_spec src sf (64 * D) (64 * N) dst dst1"
    using or_words_spec [OF sf(2), of p N src D dst 0] sf(1) by auto
  show ?thesis
  proof (cases "r = 0")
    case True
    then show ?thesis using 1 n unfolding or_aligned_def w s Let_def by auto
  next
    case False
    have l: "sf + 64 * N + r \<le> 64 * length src" "64 * (D + N) + r \<le> 64 * length dst1"
      using assms n 1(2) by (simp_all add: or_spec_def)
    obtain v dst2 where 2: "readNBits src (int (sf + 64 * N)) (int r) = Ok v" "or_word dst1 (int (D + N)) v = Ok dst2"
        "or_spec src (sf + 64 * N) (64 * (D + N)) r dst1 dst2"
      using or_tail [OF _ n(2) l] False by blast
    have e: "int sf + int (64 * N) = int (sf + 64 * N)" "int n - int (64 * N) = int r"
      "drop_bit log2BitsPerWord (int (64 * D) + int (64 * N)) = int (D + N)" "int r > 0"
      using n False wordIndex_nat [of "64 * (D + N)"] by (simp_all add: wordIndex_def)
    have "or_spec src sf (64 * D) n dst dst2"
      using or_spec_append [OF 1(2), of r dst2] 2(3) n(1) by (simp add: distrib_left)
    then show ?thesis using 1(1) 2(1,2) unfolding or_aligned_def w s Let_def e by (simp add: e(4) False)
  qed
qed

lemma FixedBitSetOrRange_yields:
  assumes src: "fbs_shape source" and wf: "fbs_wf dest"
    and b: "int (sf + n) \<le> fs_size source" "int (df + n) \<le> fs_size dest"
  shows "fs_yields (FixedBitSetOrRange source (int sf) dest (int df) (int n)) dest
    (fbs_set dest \<union> {k. df \<le> k \<and> k < df + n \<and> k - df + sf \<in> fbs_set source})"
proof -
  let ?src = "fs_bits source" and ?dst = "fs_bits dest"
  have sh: "fbs_shape dest" using wf by (simp add: fbs_wf_def)
  have ls: "sf + n \<le> 64 * length ?src" and ld: "df + n \<le> 64 * length ?dst"
    using shape_size [OF src] shape_size [OF sh] b by linarith+
  obtain dst' where r: "FixedBitSetOrRange source (int sf) dest (int df) (int n) = Ok (dest\<lparr>fs_bits := dst'\<rparr>)"
    and o: "or_spec ?src sf df n ?dst dst'"
  proof (cases "n = 0")
    case True
    then show thesis using that [of ?dst] b by (simp add: FixedBitSetOrRange_def fs_Length_def)
  next
    case False
    define m where "m = (if df mod 64 \<noteq> 0 then min (64 - df mod 64) n else 0)"
    have mn: "m \<le> n" by (simp add: m_def)
    obtain dst1 where 1: "(if int df AND wordMask \<noteq> 0
         then let numBitsNeeded = min (bitsPerWord - (int df AND wordMask)) (int n)
              in bind_out (readNBits ?src (int sf) numBitsNeeded) (\<lambda>bits.
                 bind_out (or_word ?dst (drop_bit log2BitsPerWord (int df)) (push_bit (nat (int df AND wordMask)) bits)) (\<lambda>dst.
                   Ok (int sf + numBitsNeeded, int df + numBitsNeeded, int n - numBitsNeeded, dst)))
         else Ok (int sf, int df, int n, ?dst)) = Ok (int (sf + m), int (df + m), int (n - m), dst1)"
        "or_spec ?src sf df m ?dst dst1"
      using or_first [OF _ ls ld] False unfolding m_def by blast
    have len: "length dst1 = length ?dst" using 1(2) by (simp add: or_spec_def)
    show thesis
    proof (cases "n = m")
      case True
      then show thesis using that [of dst1] 1 False b
        unfolding FixedBitSetOrRange_def by (simp add: fs_Length_def)
    next
      case nm: False
      obtain D where D: "df + m = 64 * D" using aligned_after [of n df] nm unfolding m_def by blast
      have "sf + m + (n - m) \<le> 64 * length ?src" "64 * D + (n - m) \<le> 64 * length dst1"
        using ls ld len mn by (simp_all flip: D)
      then obtain dst2 where 2: "or_aligned ?src (int (sf + m)) (int (64 * D)) (int (n - m)) dst1 = Ok dst2"
          "or_spec ?src (sf + m) (64 * D) (n - m) dst1 dst2"
        using or_aligned_spec by blast
      have "or_spec ?src sf df (m + (n - m)) ?dst dst2" by (rule or_spec_append [OF 1(2)]) (simp add: D 2(2))
      then have "or_spec ?src sf df n ?dst dst2" using mn by simp
      moreover have "\<not> n \<le> m" using mn nm by simp
      ultimately show thesis using that [of dst2] 1(1) 2(1) False b D
        unfolding FixedBitSetOrRange_def 1(1) by (simp add: fs_Length_def)
    qed
  qed
  let ?fs = "dest\<lparr>fs_bits := dst'\<rparr>"
  have s: "fbs_set ?fs = fbs_set dest \<union> {k. df \<le> k \<and> k < df + n \<and> k - df + sf \<in> fbs_set source}"
    using o by (auto simp: or_spec_def fbs_set_def)
  have "\<forall>k\<in>fbs_set ?fs. int k < fs_size dest" unfolding s using b(2) fbs_wf_elem [OF wf] by auto
  then have "fbs_wf ?fs" using sh o by (simp add: fbs_wf_def fbs_shape_def or_spec_def)
  then show ?thesis using r s by (simp add: fs_yields_def)
qed

section \<open>The iterator over the one bits\<close>

text \<open>A search for the next position of a set: what the iterators over bit sets rely on.\<close>

locale bit_scan =
  fixes next_bit :: "'s \<Rightarrow> int \<Rightarrow> int outcome" and elems :: "'s \<Rightarrow> nat set" and valid :: "'s \<Rightarrow> bool"
  assumes next_bit: "valid s \<Longrightarrow> 0 \<le> i \<Longrightarrow> next_bit s i = Ok (next_in (elems s) (nat i))"
    and finite_elems: "valid s \<Longrightarrow> finite (elems s)"
begin

text \<open>The positions reached by asking again and again for the one after the last.\<close>

fun scan :: "nat \<Rightarrow> 's \<Rightarrow> int \<Rightarrow> int list" where
  "scan 0 s i = []"
| "scan (Suc n) s i = (case next_bit s i of Ok k \<Rightarrow> if k < 0 then [] else k # scan n s (k + 1) | _ \<Rightarrow> [])"

lemma scan_enumerates:
  assumes "valid s" "0 \<le> i" "card {k \<in> elems s. i \<le> int k} \<le> n"
  shows "scan n s i = map int (sorted_list_of_set {k \<in> elems s. i \<le> int k})"
  using assms(2,3)
proof (induction n arbitrary: i)
  case 0
  then show ?case using finite_elems [OF assms(1)] by simp
next
  case (Suc n)
  let ?A = "{k \<in> elems s. i \<le> int k}"
  have fin: "finite ?A" using finite_elems [OF assms(1)] by simp
  show ?case
  proof (cases "?A = {}")
    case True
    then have "next_in (elems s) (nat i) = - 1" using Suc.prems(1) by (auto simp: next_in_def)
    then have "scan (Suc n) s i = []" using next_bit [OF assms(1) Suc.prems(1)] by simp
    then show ?thesis by (simp only: True sorted_list_of_set_empty list.map)
  next
    case False
    have A: "?A = {k \<in> elems s. nat i \<le> k}" using Suc.prems(1) by auto
    define m where "m = Min ?A"
    have m: "m \<in> ?A" "\<And>k. k \<in> ?A \<Longrightarrow> m \<le> k" unfolding m_def by (rule Min_in [OF fin False], rule Min_le [OF fin])
    have "(LEAST k. k \<in> elems s \<and> nat i \<le> k) = m" using m by (intro Least_equality) (auto simp: A)
    then have nx: "next_bit s i = Ok (int m)"
      using False next_bit [OF assms(1) Suc.prems(1)] by (auto simp: next_in_def A)
    have rest: "{k \<in> elems s. int m + 1 \<le> int k} = ?A - {m}" using m by force
    then have "card {k \<in> elems s. int m + 1 \<le> int k} \<le> n" using m(1) fin Suc.prems(2) by simp
    then have "scan n s (int m + 1) = map int (sorted_list_of_set (?A - {m}))" using Suc.IH [of "int m + 1"] rest by simp
    then show ?thesis using nx sorted_list_of_set_nonempty [OF fin False] by (simp add: m_def)
  qed
qed

end

lemma finite_fbs_set: "finite (fbs_set fs)"
  by (simp add: fbs_set_def finite_wbit)

interpretation fbs: bit_scan "\<lambda>fs i. fs_NextSetBit i fs" fbs_set fbs_wf
  by unfold_locales (simp_all add: fs_NextSetBit_next finite_fbs_set)

text \<open>A client's loop \<open>for it.HasNext() { it.Next() }\<close>, with a bound on the rounds.\<close>

fun bi_drain :: "nat \<Rightarrow> BitsIterator \<Rightarrow> int list outcome" where
  "bi_drain 0 bi = Ok []"
| "bi_drain (Suc n) bi =
     (if bi_HasNext bi then bind_out (bi_Next bi) (\<lambda>(k, bi'). bind_out (bi_drain n bi') (\<lambda>ks. Ok (k # ks))) else Ok [])"

lemma bi_drain_scan:
  "fbs_wf fs \<Longrightarrow> 0 \<le> i \<Longrightarrow> fs_NextSetBit i fs = Ok k \<Longrightarrow>
   bi_drain n \<lparr>bi_bits = fs, bi_nextBit = k, bi_exhausted = k < 0\<rparr> = Ok (fbs.scan n fs i)"
proof (induction n arbitrary: i k)
  case (Suc n)
  show ?case
  proof (cases "k < 0")
    case False
    obtain k' where k': "fs_NextSetBit (k + 1) fs = Ok k'"
      using fbs.next_bit [OF Suc.prems(1), of "k + 1"] False by simp
    then have "bi_drain n \<lparr>bi_bits = fs, bi_nextBit = k', bi_exhausted = k' < 0\<rparr> = Ok (fbs.scan n fs (k + 1))"
      using Suc False by simp
    then show ?thesis using False Suc.prems(3) k' by (simp add: bi_HasNext_def bi_Next_def)
  qed (simp add: bi_HasNext_def Suc.prems(3))
qed simp

section \<open>Properties\<close>

lemma index_refines:
  assumes "fbs_wf fs"
  shows "if 0 \<le> i \<and> i < fs_size fs
    then fs_Get i fs = Ok (nat i \<in> fbs_set fs)
      \<and> fs_yields (fs_Set i fs) fs (insert (nat i) (fbs_set fs))
      \<and> fs_yields (fs_Clear i fs) fs (fbs_set fs - {nat i})
      \<and> fs_yields (fs_Flip i fs) fs (if nat i \<in> fbs_set fs then fbs_set fs - {nat i} else insert (nat i) (fbs_set fs))
      \<and> (\<exists>fs'. fs_GetAndClear i fs = Ok (nat i \<in> fbs_set fs, fs') \<and> fs_yields (Ok fs') fs (fbs_set fs - {nat i}))
    else fs_Get i fs = Panic ''index out of bounds'' \<and> fs_Set i fs = Panic ''index out of bounds''
      \<and> fs_Clear i fs = Panic ''index out of bounds'' \<and> fs_Flip i fs = Panic ''index out of bounds''
      \<and> fs_GetAndClear i fs = Panic ''index out of bounds''"
proof (cases "0 \<le> i \<and> i < fs_size fs")
  case True
  then obtain k where k: "i = int k" "int k < fs_size fs" by (metis nonneg_int_cases)
  have sh: "fbs_shape fs" using assms by (simp add: fbs_wf_def)
  show ?thesis
    using True fs_Get_iff [OF sh k(2)] fs_Set_yields [OF assms k(2)] fs_Clear_yields [OF assms k(2)] fs_Flip_yields [OF assms k(2)]
      fs_GetAndClear_yields [OF assms k(2)] by (auto simp: k(1) fs_yields_def)
qed (auto simp: fs_Get_def fs_Set_def fs_Clear_def fs_Flip_def fs_GetAndClear_def check_index_def)

lemma bitwise_refines:
  assumes "fbs_wf fs" "fbs_wf other"
  shows "if fs_size other = fs_size fs
    then fs_yields (fs_And fs other) fs (fbs_set fs \<inter> fbs_set other)
      \<and> fs_yields (fs_Or fs other) fs (fbs_set fs \<union> fbs_set other)
      \<and> fs_yields (fs_AndNot fs other) fs (fbs_set fs - fbs_set other)
      \<and> fs_yields (fs_Xor fs other) fs ((fbs_set fs - fbs_set other) \<union> (fbs_set other - fbs_set fs))
    else fs_And fs other = Err (Errorf ''bitset sizes do not match'') \<and> fs_Or fs other = Err (Errorf ''bitset sizes do not match'')
      \<and> fs_AndNot fs other = Err (Errorf ''bitset sizes do not match'') \<and> fs_Xor fs other = Err (Errorf ''bitset sizes do not match'')"
proof (cases "fs_size other = fs_size fs")
  case True
  then show ?thesis using bitwise_yields [OF assms True] by simp
qed (simp add: fs_And_def fs_Or_def fs_AndNot_def fs_Xor_def zip_words_def)

lemma range_refines:
  assumes "fbs_wf fs"
  shows "if 0 \<le> a \<and> a \<le> fs_size fs \<and> 0 \<le> b \<and> b \<le> fs_size fs
    then fs_yields (fs_SetRange a b fs) fs (fbs_set fs \<union> {nat a..<nat b})
      \<and> fs_yields (fs_FlipRange a b fs) fs ((fbs_set fs - {nat a..<nat b}) \<union> ({nat a..<nat b} - fbs_set fs))
    else \<exists>p. fs_SetRange a b fs = Panic p \<and> fs_FlipRange a b fs = Panic p"
proof (cases "0 \<le> a \<and> a \<le> fs_size fs \<and> 0 \<le> b \<and> b \<le> fs_size fs")
  case True
  show ?thesis
  proof (cases "a \<le> b")
    case le: True
    then show ?thesis using True fs_SetRange_yields [OF assms, of "nat a" "nat b"] fs_FlipRange_yields [OF assms, of "nat a" "nat b"]
      by simp
  next
    case False
    then show ?thesis using True assms by (auto simp: fs_SetRange_def fs_FlipRange_def range_op_def fs_yields_def)
  qed
qed (auto simp: fs_SetRange_def fs_FlipRange_def range_op_def)

text \<open>
  C20: The bit set refines a set of document numbers.  \<open>NewFixedBitSet\<close> makes the empty set and refuses
  a negative size.  At a position below the size, \<open>Get\<close> answers membership, \<open>Set\<close>, \<open>Clear\<close> and
  \<open>Flip\<close> insert, remove and toggle the position, and \<open>GetAndClear\<close> removes it and answers
  whether it was there; at any other position all five panic.  \<open>And\<close>, \<open>Or\<close>, \<open>AndNot\<close> and \<open>Xor\<close> with a
  bit set of the same size are the operations on sets, and with another size they report the
  mismatch.  \<open>SetRange\<close> and \<open>FlipRange\<close> add and toggle the positions of a range whose ends lie
  within the size, none when the ends are swapped, and panic otherwise.  \<open>Not\<close> is the complement up
  to the size, \<open>SetAll\<close> and \<open>ClearAll\<close> give the full and the empty set, \<open>Clone\<close> the same set, \<open>Equals\<close>
  decides equality of size and set, and \<open>FixedBitSetEnsureCapacity\<close> keeps the set and makes room for
  the position.  Every result is well formed and, but for the last, of the same size.
\<close>

theorem fixed_bit_set_refines:
  assumes "fbs_wf fs" "fbs_wf other"
  shows "(if n < 0 then NewFixedBitSet n = Err (Errorf ''numBits must be non-negative'')
      else \<exists>new. NewFixedBitSet n = Ok new \<and> fbs_wf new \<and> fs_size new = n \<and> fbs_set new = {})
    \<and> (if 0 \<le> i \<and> i < fs_size fs
      then fs_Get i fs = Ok (nat i \<in> fbs_set fs)
        \<and> fs_yields (fs_Set i fs) fs (insert (nat i) (fbs_set fs))
        \<and> fs_yields (fs_Clear i fs) fs (fbs_set fs - {nat i})
        \<and> fs_yields (fs_Flip i fs) fs (if nat i \<in> fbs_set fs then fbs_set fs - {nat i} else insert (nat i) (fbs_set fs))
        \<and> (\<exists>fs'. fs_GetAndClear i fs = Ok (nat i \<in> fbs_set fs, fs') \<and> fs_yields (Ok fs') fs (fbs_set fs - {nat i}))
      else fs_Get i fs = Panic ''index out of bounds'' \<and> fs_Set i fs = Panic ''index out of bounds''
        \<and> fs_Clear i fs = Panic ''index out of bounds'' \<and> fs_Flip i fs = Panic ''index out of bounds''
        \<and> fs_GetAndClear i fs = Panic ''index out of bounds'')
    \<and> (if fs_size other = fs_size fs
      then fs_yields (fs_And fs other) fs (fbs_set fs \<inter> fbs_set other)
        \<and> fs_yields (fs_Or fs other) fs (fbs_set fs \<union> fbs_set other)
        \<and> fs_yields (fs_AndNot fs other) fs (fbs_set fs - fbs_set other)
        \<and> fs_yields (fs_Xor fs other) fs ((fbs_set fs - fbs_set other) \<union> (fbs_set other - fbs_set fs))
      else fs_And fs other = Err (Errorf ''bitset sizes do not match'') \<and> fs_Or fs other = Err (Errorf ''bitset sizes do not match'')
        \<and> fs_AndNot fs other = Err (Errorf ''bitset sizes do not match'') \<and> fs_Xor fs other = Err (Errorf ''bitset sizes do not match''))
    \<and> (if 0 \<le> a \<and> a \<le> fs_size fs \<and> 0 \<le> b \<and> b \<le> fs_size fs
      then fs_yields (fs_SetRange a b fs) fs (fbs_set fs \<union> {nat a..<nat b})
        \<and> fs_yields (fs_FlipRange a b fs) fs ((fbs_set fs - {nat a..<nat b}) \<union> ({nat a..<nat b} - fbs_set fs))
      else \<exists>p. fs_SetRange a b fs = Panic p \<and> fs_FlipRange a b fs = Panic p)
    \<and> fs_yields (fs_Not fs) fs ({k. int k < fs_size fs} - fbs_set fs)
    \<and> fs_yields (fs_SetAll fs) fs {k. int k < fs_size fs}
    \<and> fs_yields (Ok (fs_ClearAll fs)) fs {}
    \<and> fs_yields (Ok (fs_Clone fs)) fs (fbs_set fs)
    \<and> fs_Equals fs other = Ok (fs_size fs = fs_size other \<and> fbs_set fs = fbs_set other)
    \<and> (0 \<le> n \<longrightarrow> (\<exists>grown. FixedBitSetEnsureCapacity fs n = Ok grown \<and> fbs_wf grown \<and> fbs_set grown = fbs_set fs
        \<and> fs_size fs \<le> fs_size grown \<and> n < fs_size grown))"
proof -
  have sh: "fbs_shape fs" "fbs_shape other" using assms by (simp_all add: fbs_wf_def)
  have new: "if n < 0 then NewFixedBitSet n = Err (Errorf ''numBits must be non-negative'')
      else \<exists>new. NewFixedBitSet n = Ok new \<and> fbs_wf new \<and> fs_size new = n \<and> fbs_set new = {}"
    using NewFixedBitSet_empty [of n] by (auto simp: NewFixedBitSet_def)
  have "fs_Clone fs = fs" by (simp add: fs_Clone_def)
  then have clone: "fs_yields (Ok (fs_Clone fs)) fs (fbs_set fs)" using assms(1) by (simp add: fs_yields_def)
  show ?thesis
    by (intro conjI impI new index_refines [OF assms(1)] bitwise_refines [OF assms] range_refines [OF assms(1)]
        fs_Not_yields [OF sh(1)] fs_SetAll_yields [OF sh(1)] fs_ClearAll_yields [OF sh(1)] clone fs_Equals_iff [OF sh]
        ensureCapacity_keeps [OF assms(1)])
qed

lemma sample_wf: "fbs_wf \<lparr>fs_bits = [w, v AND mask 6], fs_size = 70\<rparr>"
proof -
  have "int k < 70" if "wbit [w, v AND mask 6] k" for k
  proof (cases "k < 64")
    case False
    then have "wbit [v AND mask 6] (k - 64)" using that by (simp add: wbit_Cons)
    then have "bit (v AND mask 6) (k - 64)" by (cases "k - 64 < 64") (simp_all add: wbit_Cons, simp add: wbit_def)
    then have "k - 64 < 6" by (simp add: bit_simps)
    then show ?thesis using False by linarith
  qed simp
  then show ?thesis by (auto simp: fbs_wf_def fbs_shape_def wordsNeeded_eq fbs_set_def)
qed

lemmas sample_sets = sample_wf [of 5 1] sample_wf [of 4 32]

theorem fixed_bit_set_refines_witness:
  "fs_Get 64 \<lparr>fs_bits = [5, 1], fs_size = 70\<rparr> = Ok True
   \<and> fs_Set 70 \<lparr>fs_bits = [5, 1], fs_size = 70\<rparr> = Panic ''index out of bounds''
   \<and> fs_yields (fs_And \<lparr>fs_bits = [5, 1], fs_size = 70\<rparr> \<lparr>fs_bits = [4, 32], fs_size = 70\<rparr>) \<lparr>fs_bits = [5, 1], fs_size = 70\<rparr>
        (fbs_set \<lparr>fs_bits = [5, 1], fs_size = 70\<rparr> \<inter> fbs_set \<lparr>fs_bits = [4, 32], fs_size = 70\<rparr>)"
proof -
  let ?s = "\<lparr>fs_bits = [5, 1], fs_size = 70\<rparr>" and ?t = "\<lparr>fs_bits = [4, 32], fs_size = 70\<rparr>"
  have wf: "fbs_wf ?s" "fbs_wf ?t" using sample_sets by (simp_all add: mask_eq_exp_minus_1)
  have "64 \<in> fbs_set ?s" by (simp add: fbs_set_def wbit_def)
  then show ?thesis
    using fixed_bit_set_refines [OF wf, of 0 64 3 68] fixed_bit_set_refines [OF wf, of 0 70 3 68] by simp
qed

text \<open>
  C21: Counting.  The SWAR population count of a word is the number of its one bits, and
  \<open>Cardinality\<close>, \<open>CardinalityRange\<close>, \<open>IntersectionCount\<close>, \<open>UnionCount\<close> and \<open>AndNotCount\<close>, computed
  word by word from it, are the numbers of elements of the sets the bit sets hold, of their
  part in the range (for a range within the size), and of their intersection, union and
  difference; \<open>Intersects\<close> and \<open>IsEmpty\<close> decide what they say.
\<close>

theorem fixed_bit_set_counts:
  assumes "fbs_shape fs" "a \<le> b" "int b \<le> fs_size fs"
  shows "popcount w = int (card {j. bit w j})
    \<and> fs_Cardinality fs = int (card (fbs_set fs))
    \<and> fs_CardinalityRange (int a) (int b) fs = Ok (int (card {k \<in> fbs_set fs. a \<le> k \<and> k < b}))
    \<and> IntersectionCount fs other = int (card (fbs_set fs \<inter> fbs_set other))
    \<and> UnionCount fs other = int (card (fbs_set fs \<union> fbs_set other))
    \<and> AndNotCount fs other = int (card (fbs_set fs - fbs_set other))
    \<and> (fs_Intersects fs other \<longleftrightarrow> fbs_set fs \<inter> fbs_set other \<noteq> {})
    \<and> (fs_IsEmpty fs \<longleftrightarrow> fbs_set fs = {})"
  using assms
  by (simp_all add: popcount_card fs_Cardinality_card fs_CardinalityRange_card IntersectionCount_card UnionCount_card
      AndNotCount_card fs_Intersects_iff fs_IsEmpty_iff)

theorem fixed_bit_set_counts_witness:
  "fs_CardinalityRange (int 2) (int 70) \<lparr>fs_bits = [5, 1], fs_size = 70\<rparr>
     = Ok (int (card {k \<in> fbs_set \<lparr>fs_bits = [5, 1], fs_size = 70\<rparr>. 2 \<le> k \<and> k < 70}))
   \<and> fs_CardinalityRange 2 70 \<lparr>fs_bits = [5, 1], fs_size = 70\<rparr> = Ok 2"
proof -
  have "fs_CardinalityRange 2 70 \<lparr>fs_bits = [5, 1], fs_size = 70\<rparr> = Ok 2" by code_simp
  then show ?thesis
    using fixed_bit_set_counts [of "\<lparr>fs_bits = [5, 1], fs_size = 70\<rparr>" 2 70 0 "\<lparr>fs_bits = [5, 1], fs_size = 70\<rparr>"]
    by (simp add: fbs_shape_def wordsNeeded_eq)
qed



text \<open>
  C23: Copying a range.  \<open>FixedBitSetOrRange\<close>, which shifts whole words, adds to the
  destination exactly the elements of the source in the range, moved to the destination
  offset, whatever the two offsets are relative to the word boundaries.
\<close>

theorem or_range_moves:
  assumes "fbs_shape source" "fbs_wf dest" "int (sf + n) \<le> fs_size source" "int (df + n) \<le> fs_size dest"
  shows "fs_yields (FixedBitSetOrRange source (int sf) dest (int df) (int n)) dest
    (fbs_set dest \<union> (\<lambda>k. k - sf + df) ` {k \<in> fbs_set source. sf \<le> k \<and> k < sf + n})"
proof -
  have "{k. df \<le> k \<and> k < df + n \<and> k - df + sf \<in> fbs_set source}
      = (\<lambda>k. k - sf + df) ` {k \<in> fbs_set source. sf \<le> k \<and> k < sf + n}" (is "?L = ?R")
  proof
    show "?L \<subseteq> ?R"
    proof
      fix k assume "k \<in> ?L"
      then show "k \<in> ?R" by (intro image_eqI [of _ _ "k - df + sf"]) auto
    qed
  qed auto
  then show ?thesis using FixedBitSetOrRange_yields [OF assms] by simp
qed

theorem or_range_moves_witness:
  "fs_yields (FixedBitSetOrRange \<lparr>fs_bits = [5, 1], fs_size = 70\<rparr> (int 2) \<lparr>fs_bits = [4, 32], fs_size = 70\<rparr> (int 5) (int 64))
      \<lparr>fs_bits = [4, 32], fs_size = 70\<rparr>
      (fbs_set \<lparr>fs_bits = [4, 32], fs_size = 70\<rparr> \<union>
        (\<lambda>k. k - 2 + 5) ` {k \<in> fbs_set \<lparr>fs_bits = [5, 1], fs_size = 70\<rparr>. 2 \<le> k \<and> k < 2 + 64})
   \<and> FixedBitSetOrRange \<lparr>fs_bits = [5, 1], fs_size = 70\<rparr> 2 \<lparr>fs_bits = [4, 32], fs_size = 70\<rparr> 5 64
       = Ok \<lparr>fs_bits = [36, 40], fs_size = 70\<rparr>"
proof -
  have "FixedBitSetOrRange \<lparr>fs_bits = [5, 1], fs_size = 70\<rparr> 2 \<lparr>fs_bits = [4, 32], fs_size = 70\<rparr> 5 64
       = Ok \<lparr>fs_bits = [36, 40], fs_size = 70\<rparr>" by code_simp
  then show ?thesis
    using or_range_moves [of "\<lparr>fs_bits = [5, 1], fs_size = 70\<rparr>" "\<lparr>fs_bits = [4, 32], fs_size = 70\<rparr>" 2 64 5] sample_sets(2)
    by (simp add: fbs_shape_def wordsNeeded_eq mask_eq_exp_minus_1)
qed

text \<open>
  C24: Enumeration.  The iterator made by \<open>NewBitsIterator\<close>, drained by the loop that asks
  \<open>HasNext\<close> and takes \<open>Next\<close>, yields the elements of the set once each in increasing
  order and then stops, within as many rounds as the set has elements.
\<close>

theorem bits_iterator_enumerates:
  assumes "fbs_wf fs" "card (fbs_set fs) \<le> n"
  shows "bind_out (NewBitsIterator fs) (bi_drain n) = Ok (map int (sorted_list_of_set (fbs_set fs)))"
proof -
  obtain k where k: "fs_NextSetBit 0 fs = Ok k" using fbs.next_bit [OF assms(1), of 0] by simp
  have "fbs.scan n fs 0 = map int (sorted_list_of_set (fbs_set fs))"
    using fbs.scan_enumerates [OF assms(1), of 0 n] assms(2) by simp
  then show ?thesis using bi_drain_scan [OF assms(1) _ k, of n] k by (simp add: NewBitsIterator_def)
qed

theorem bits_iterator_enumerates_witness:
  "bind_out (NewBitsIterator \<lparr>fs_bits = [5, 1], fs_size = 70\<rparr>) (bi_drain 100)
     = Ok (map int (sorted_list_of_set (fbs_set \<lparr>fs_bits = [5, 1], fs_size = 70\<rparr>)))
   \<and> bind_out (NewBitsIterator \<lparr>fs_bits = [5, 1], fs_size = 70\<rparr>) (bi_drain 100) = Ok [0, 2, 64]"
proof -
  have e: "bind_out (NewBitsIterator \<lparr>fs_bits = [5, 1], fs_size = 70\<rparr>) (bi_drain 100) = Ok [0, 2, 64]" by code_simp
  have "fs_Cardinality \<lparr>fs_bits = [5, 1], fs_size = 70\<rparr> = 3" by code_simp
  then have "card (fbs_set \<lparr>fs_bits = [5, 1], fs_size = 70\<rparr>) \<le> 100" by (simp add: fs_Cardinality_card)
  then show ?thesis
    using bits_iterator_enumerates [of "\<lparr>fs_bits = [5, 1], fs_size = 70\<rparr>" 100] sample_sets(1) e by (simp add: mask_eq_exp_minus_1)
qed

end
