(* ===== verification/Doc_Iterators.thy ===== *)
theory Doc_Iterators
  imports Fixed_Bit_Set
begin

text \<open>
  The doc-id iterators: the interface \<^verbatim>\<open>util/doc_id_set_iterator.go\<close> with its default
  bodies, and its implementations \<^verbatim>\<open>util/bit_set_iterator.go\<close>,
  \<^verbatim>\<open>util/int_array_doc_id_set.go\<close>, \<^verbatim>\<open>util/doc_base_bit_set_iterator.go\<close>,
  \<^verbatim>\<open>util/filtered_doc_id_set_iterator.go\<close>, \<^verbatim>\<open>util/not_doc_id_set.go\<close>,
  \<^verbatim>\<open>util/bit_doc_id_set.go\<close>, the range iterator of \<^verbatim>\<open>search/doc_id_set_iterator.go\<close>, and
  \<open>FixedBitSet.OrIterator\<close>, which drains an iterator into a bit set.

  An iterator is a record of operations over its state type.  The locale \<open>doc_iter\<close> is the
  contract: the state stands for a set of documents, and every move goes to the first
  document of that set at or after a target.  Clients are proved once inside it; each
  implementation is an interpretation of it.
\<close>

section \<open>The interface\<close>

definition NO_MORE_DOCS :: int where "NO_MORE_DOCS = 2147483647"

record 's disi =
  it_DocID :: "'s \<Rightarrow> int"
  it_NextDoc :: "('s, int) act"
  it_Advance :: "int \<Rightarrow> ('s, int) act"
  it_Cost :: "'s \<Rightarrow> int"

text \<open>
  The loops over an arbitrary iterator need not end, so they are partial: the value is
  \<open>None\<close> when the loop runs forever.
\<close>

partial_function (option) default_into ::
  "'s disi \<Rightarrow> int \<Rightarrow> int \<Rightarrow> int \<Rightarrow> FixedBitSet \<Rightarrow> 's \<Rightarrow> (unit outcome \<times> FixedBitSet \<times> 's) option" where
  "default_into D upTo offset doc bitSet s =
     (if doc < upTo
      then case fs_Set (doc - offset) bitSet of
             Ok bitSet' \<Rightarrow>
               (case it_NextDoc D s of
                  (Ok next, s') \<Rightarrow> default_into D upTo offset next bitSet' s'
                | (Err e, s') \<Rightarrow> Some (Err e, bitSet', s')
                | (Panic p, s') \<Rightarrow> Some (Panic p, bitSet', s'))
           | Err e \<Rightarrow> Some (Err e, bitSet, s)
           | Panic p \<Rightarrow> Some (Panic p, bitSet, s)
      else Some (Ok (), bitSet, s))"

definition DefaultIntoBitSet ::
  "'s disi \<Rightarrow> int \<Rightarrow> FixedBitSet \<Rightarrow> int \<Rightarrow> 's \<Rightarrow> (unit outcome \<times> FixedBitSet \<times> 's) option" where
  "DefaultIntoBitSet D upTo bitSet offset s = default_into D upTo offset (it_DocID D s) bitSet s"

definition DefaultDocIDRunEnd :: "'s disi \<Rightarrow> 's \<Rightarrow> int" where
  "DefaultDocIDRunEnd D s = it_DocID D s + 1"

partial_function (option) SlowAdvance :: "'s disi \<Rightarrow> int \<Rightarrow> 's \<Rightarrow> (int outcome \<times> 's) option" where
  "SlowAdvance D target s =
     (case it_NextDoc D s of
        (Ok doc, s') \<Rightarrow> if doc \<ge> target then Some (Ok doc, s') else SlowAdvance D target s'
      | (Err e, s') \<Rightarrow> Some (Err e, s')
      | (Panic p, s') \<Rightarrow> Some (Panic p, s'))"

text \<open>\<open>FixedBitSet.OrIterator\<close>.\<close>

partial_function (option) OrIterator :: "'s disi \<Rightarrow> FixedBitSet \<Rightarrow> 's \<Rightarrow> (unit outcome \<times> FixedBitSet \<times> 's) option" where
  "OrIterator D fs s =
     (case it_NextDoc D s of
        (Ok doc, s') \<Rightarrow>
          if doc = NO_MORE_DOCS then Some (Ok (), fs, s')
          else (case fs_Set doc fs of
                  Ok fs' \<Rightarrow> OrIterator D fs' s'
                | Err e \<Rightarrow> Some (Err e, fs, s')
                | Panic p \<Rightarrow> Some (Panic p, fs, s'))
      | (Err e, s') \<Rightarrow> Some (Err e, fs, s')
      | (Panic p, s') \<Rightarrow> Some (Panic p, fs, s'))"

section \<open>Iterators over bit sets\<close>

text \<open>
  The \<open>Bits\<close> an iterator wraps: its length, its \<open>Get\<close>, and \<open>NextSetBit\<close> when the dynamic type
  is one of the two bit sets the iterator has a case for.
\<close>

record bits_view =
  bv_Length :: int
  bv_Get :: "int \<Rightarrow> bool outcome"
  bv_NextSetBit :: "(int \<Rightarrow> int outcome) option"

definition fixed_view :: "FixedBitSet \<Rightarrow> bits_view" where
  "fixed_view fs = \<lparr>bv_Length = fs_Length fs, bv_Get = (\<lambda>i. fs_Get i fs), bv_NextSetBit = Some (\<lambda>i. fs_NextSetBit i fs)\<rparr>"

text \<open>The \<open>Bits\<close> of a negated set.\<close>

definition notBits :: "bits_view \<Rightarrow> bits_view" where
  "notBits v = \<lparr>bv_Length = bv_Length v, bv_Get = (\<lambda>i. bind_out (bv_Get v i) (\<lambda>b. Ok (\<not> b))), bv_NextSetBit = None\<rparr>"

record BitSetIterator =
  bsi_bits :: bits_view
  bsi_length :: int
  bsi_doc :: int
  bsi_cost :: int

definition NewBitSetIterator :: "bits_view \<Rightarrow> int \<Rightarrow> BitSetIterator outcome" where
  "NewBitSetIterator bits cost =
     (if cost < 0 then Panic ''cost must be >= 0''
      else Ok \<lparr>bsi_bits = bits, bsi_length = bv_Length bits, bsi_doc = -1, bsi_cost = cost\<rparr>)"

text \<open>The linear scan for the first one bit in \<open>[i, stop)\<close>, -1 when there is none.\<close>

function scan_bits :: "(int \<Rightarrow> bool outcome) \<Rightarrow> int \<Rightarrow> int \<Rightarrow> int outcome" where
  "scan_bits get i stop =
     (if i < stop then bind_out (get i) (\<lambda>b. if b then Ok i else scan_bits get (i + 1) stop) else Ok (- 1))"
  by pat_completeness auto
termination by (relation "measure (\<lambda>(get, i, stop). nat (stop - i))") auto

declare scan_bits.simps [simp del]

definition bsi_next :: "BitSetIterator \<Rightarrow> int \<Rightarrow> int \<Rightarrow> int outcome" where
  "bsi_next b start stop =
     (case bv_NextSetBit (bsi_bits b) of Some next \<Rightarrow> next start | None \<Rightarrow> scan_bits (bv_Get (bsi_bits b)) start stop)"

definition bsi_Advance :: "int \<Rightarrow> (BitSetIterator, int) act" where
  "bsi_Advance target b =
     (if target \<ge> bsi_length b then (Ok NO_MORE_DOCS, b\<lparr>bsi_doc := NO_MORE_DOCS\<rparr>)
      else case bsi_next b target (bsi_length b) of
             Ok n \<Rightarrow> (let d = (if n < 0 then NO_MORE_DOCS else n) in (Ok d, b\<lparr>bsi_doc := d\<rparr>))
           | Err e \<Rightarrow> (Err e, b)
           | Panic p \<Rightarrow> (Panic p, b))"

definition bsi_NextDoc :: "(BitSetIterator, int) act" where
  "bsi_NextDoc b = bsi_Advance (bsi_doc b + 1) b"

definition bsi_ops :: "BitSetIterator disi" where
  "bsi_ops = \<lparr>it_DocID = bsi_doc, it_NextDoc = bsi_NextDoc, it_Advance = bsi_Advance, it_Cost = bsi_cost\<rparr>"

definition bsi_SetDocId :: "int \<Rightarrow> BitSetIterator \<Rightarrow> BitSetIterator" where
  "bsi_SetDocId d b = b\<lparr>bsi_doc := d\<rparr>"

text \<open>\<open>IntoBitSet\<close>: \<open>start\<close> grows to one past every bit found, so the loop ends.\<close>

partial_function (option) bsi_into ::
  "int \<Rightarrow> int \<Rightarrow> int \<Rightarrow> FixedBitSet \<Rightarrow> BitSetIterator \<Rightarrow> (unit outcome \<times> FixedBitSet \<times> BitSetIterator) option" where
  "bsi_into upTo offset start dest b =
     (if start \<ge> upTo then Some (Ok (), dest, b\<lparr>bsi_doc := upTo - 1\<rparr>)
      else case bsi_next b start (min upTo (bsi_length b)) of
             Ok n \<Rightarrow>
               (if n < 0 \<or> n \<ge> upTo
                then Some (Ok (), dest, b\<lparr>bsi_doc := (if n \<ge> upTo then upTo - 1 else NO_MORE_DOCS)\<rparr>)
                else case fs_Set (n + offset) dest of
                       Ok dest' \<Rightarrow> bsi_into upTo offset (n + 1) dest' (b\<lparr>bsi_doc := n\<rparr>)
                     | Err e \<Rightarrow> Some (Err e, dest, b)
                     | Panic p \<Rightarrow> Some (Panic p, dest, b))
           | Err e \<Rightarrow> Some (Err e, dest, b)
           | Panic p \<Rightarrow> Some (Panic p, dest, b))"

definition bsi_IntoBitSet ::
  "int \<Rightarrow> FixedBitSet \<Rightarrow> int \<Rightarrow> BitSetIterator \<Rightarrow> (unit outcome \<times> FixedBitSet \<times> BitSetIterator) option" where
  "bsi_IntoBitSet upTo dest offset b =
     (if bsi_doc b \<ge> upTo then Some (Ok (), dest, b)
      else bsi_into upTo offset (max 0 (bsi_doc b + 1)) dest b)"

function run_end :: "(int \<Rightarrow> bool outcome) \<Rightarrow> int \<Rightarrow> int \<Rightarrow> int outcome" where
  "run_end get len r =
     (if r < len then bind_out (get r) (\<lambda>b. if b then run_end get len (r + 1) else Ok r) else Ok r)"
  by pat_completeness auto
termination by (relation "measure (\<lambda>(get, len, r). nat (len - r))") auto

declare run_end.simps [simp del]

definition bsi_DocIDRunEnd :: "(BitSetIterator, int) act" where
  "bsi_DocIDRunEnd b =
     (if bsi_doc b < 0 \<or> bsi_doc b \<ge> bsi_length b then (Ok (bsi_doc b + 1), b)
      else case run_end (bv_Get (bsi_bits b)) (bsi_length b) (bsi_doc b + 1) of
             Ok r \<Rightarrow> (Ok r, b\<lparr>bsi_doc := r - 1\<rparr>)
           | Err e \<Rightarrow> (Err e, b)
           | Panic p \<Rightarrow> (Panic p, b))"

text \<open>The iterator with a doc base.\<close>

record DocBaseBitSetIterator =
  dbi_bits :: FixedBitSet
  dbi_length :: int
  dbi_cost :: int
  dbi_docBase :: int
  dbi_doc :: int

definition NewDocBaseBitSetIterator :: "FixedBitSet option \<Rightarrow> int \<Rightarrow> int \<Rightarrow> DocBaseBitSetIterator outcome" where
  "NewDocBaseBitSetIterator bits cost docBase =
     (case bits of
        None \<Rightarrow> Err (Errorf ''bits must not be nil'')
      | Some fs \<Rightarrow>
          if cost < 0 then Err (Errorf ''cost must be >= 0'')
          else if docBase AND 63 \<noteq> 0 then Err (Errorf ''docBase needs to be a multiple of 64'')
          else Ok \<lparr>dbi_bits = fs, dbi_length = fs_Length fs + docBase, dbi_cost = cost, dbi_docBase = docBase, dbi_doc = -1\<rparr>)"

definition dbi_Advance :: "int \<Rightarrow> (DocBaseBitSetIterator, int) act" where
  "dbi_Advance target b =
     (if target \<ge> dbi_length b then (Ok NO_MORE_DOCS, b\<lparr>dbi_doc := NO_MORE_DOCS\<rparr>)
      else let start = (if target - dbi_docBase b < 0 then 0 else target - dbi_docBase b)
           in case fs_NextSetBit start (dbi_bits b) of
                Ok n \<Rightarrow> (let d = (if n < 0 then NO_MORE_DOCS else n + dbi_docBase b) in (Ok d, b\<lparr>dbi_doc := d\<rparr>))
              | Err e \<Rightarrow> (Err e, b)
              | Panic p \<Rightarrow> (Panic p, b))"

definition dbi_NextDoc :: "(DocBaseBitSetIterator, int) act" where
  "dbi_NextDoc b = dbi_Advance (dbi_doc b + 1) b"

definition dbi_ops :: "DocBaseBitSetIterator disi" where
  "dbi_ops = \<lparr>it_DocID = dbi_doc, it_NextDoc = dbi_NextDoc, it_Advance = dbi_Advance, it_Cost = dbi_cost\<rparr>"

definition dbi_DocIDRunEnd :: "DocBaseBitSetIterator \<Rightarrow> int outcome" where
  "dbi_DocIDRunEnd b =
     (if dbi_doc b < 0 \<or> dbi_doc b \<ge> dbi_length b then Ok (dbi_doc b + 1)
      else bind_out (run_end (\<lambda>i. fs_Get i (dbi_bits b)) (fs_Length (dbi_bits b)) (dbi_doc b - dbi_docBase b + 1))
             (\<lambda>r. Ok (r + dbi_docBase b)))"

section \<open>Iterators over an array of doc ids\<close>

record IntArrayDocIdSet =
  ia_docs :: "int list"
  ia_length :: int

function sorted_loop :: "int list \<Rightarrow> int \<Rightarrow> int \<Rightarrow> bool outcome" where
  "sorted_loop docs i len =
     (if i < len
      then bind_out (index docs i) (\<lambda>a. bind_out (index docs (i - 1)) (\<lambda>b. if a < b then Ok False else sorted_loop docs (i + 1) len))
      else Ok True)"
  by pat_completeness auto
termination by (relation "measure (\<lambda>(docs, i, len). nat (len - i))") auto

declare sorted_loop.simps [simp del]

definition NewIntArrayDocIdSet :: "int list \<Rightarrow> int \<Rightarrow> IntArrayDocIdSet outcome" where
  "NewIntArrayDocIdSet docs len =
     (if len \<ge> int (length docs) then Err (Errorf ''length exceeds array length'')
      else bind_out (index docs len) (\<lambda>l.
             if l \<noteq> NO_MORE_DOCS then Err (Errorf ''docs[length] must be NO_MORE_DOCS'')
             else bind_out (sorted_loop docs 1 len) (\<lambda>ok.
                    if \<not> ok then Err (Errorf ''docs array must be sorted'')
                    else Ok \<lparr>ia_docs = docs, ia_length = len\<rparr>)))"

record IntArrayDocIdSetIterator =
  iai_docs :: "int list"
  iai_length :: int
  iai_i :: int
  iai_doc :: int

definition ia_Iterator :: "IntArrayDocIdSet \<Rightarrow> IntArrayDocIdSetIterator" where
  "ia_Iterator a = \<lparr>iai_docs = ia_docs a, iai_length = ia_length a, iai_i = 0, iai_doc = -1\<rparr>"

definition iai_NextDoc :: "(IntArrayDocIdSetIterator, int) act" where
  "iai_NextDoc b =
     (if iai_i b \<ge> iai_length b then (Ok NO_MORE_DOCS, b\<lparr>iai_doc := NO_MORE_DOCS\<rparr>)
      else case index (iai_docs b) (iai_i b) of
             Ok d \<Rightarrow> (Ok d, b\<lparr>iai_i := iai_i b + 1, iai_doc := d\<rparr>)
           | Err e \<Rightarrow> (Err e, b)
           | Panic p \<Rightarrow> (Panic p, b))"

text \<open>
  The exponential search: double the bound while it stays inside and before the target.  The
  bound starts at 1, so it is always positive; the test of that is for the termination proof.
\<close>

function exp_bound :: "int list \<Rightarrow> int \<Rightarrow> int \<Rightarrow> int \<Rightarrow> int \<Rightarrow> int outcome" where
  "exp_bound docs i len target bound =
     (if 0 < bound \<and> i + bound < len
      then bind_out (index docs (i + bound)) (\<lambda>d. if d < target then exp_bound docs i len target (bound * 2) else Ok bound)
      else Ok bound)"
  by pat_completeness auto
termination by (relation "measure (\<lambda>(docs, i, len, target, bound). nat (len - i - bound))") auto

declare exp_bound.simps [simp del]

text \<open>\<open>sort.Search\<close> of the standard library, for a predicate on \<open>docs[low+h]\<close>.\<close>

function sort_Search :: "(int \<Rightarrow> bool outcome) \<Rightarrow> int \<Rightarrow> int \<Rightarrow> int outcome" where
  "sort_Search f i j =
     (if i < j
      then let h = (i + j) div 2
           in bind_out (f h) (\<lambda>b. if b then sort_Search f i h else sort_Search f (h + 1) j)
      else Ok i)"
  by pat_completeness auto
termination by (relation "measure (\<lambda>(f, i, j). nat (j - i))") auto

declare sort_Search.simps [simp del]

definition iai_Advance :: "int \<Rightarrow> (IntArrayDocIdSetIterator, int) act" where
  "iai_Advance target b =
     (if iai_i b \<ge> iai_length b then (Ok NO_MORE_DOCS, b\<lparr>iai_doc := NO_MORE_DOCS\<rparr>)
      else case bind_out (exp_bound (iai_docs b) (iai_i b) (iai_length b) target 1) (\<lambda>bound.
                  let low = iai_i b + bound div 2;
                      high0 = iai_i b + bound + 1;
                      high = (if high0 > iai_length b then iai_length b else high0)
                  in bind_out (sort_Search (\<lambda>h. bind_out (index (iai_docs b) (low + h)) (\<lambda>d. Ok (d \<ge> target))) 0 (high - low))
                       (\<lambda>idx. Ok (low + idx))) of
             Ok i \<Rightarrow>
               (if i \<ge> iai_length b then (Ok NO_MORE_DOCS, b\<lparr>iai_i := i, iai_doc := NO_MORE_DOCS\<rparr>)
                else case index (iai_docs b) i of
                       Ok d \<Rightarrow> (Ok d, b\<lparr>iai_i := i + 1, iai_doc := d\<rparr>)
                     | Err e \<Rightarrow> (Err e, b)
                     | Panic p \<Rightarrow> (Panic p, b))
           | Err e \<Rightarrow> (Err e, b)
           | Panic p \<Rightarrow> (Panic p, b))"

definition iai_ops :: "IntArrayDocIdSetIterator disi" where
  "iai_ops = \<lparr>it_DocID = iai_doc, it_NextDoc = iai_NextDoc, it_Advance = iai_Advance, it_Cost = iai_length\<rparr>"

section \<open>Filtered, range and negated iterators\<close>

record FilteredDocIdSetIterator =
  fdi_maxDoc :: int
  fdi_cost :: int
  fdi_predicate :: "int \<Rightarrow> bool"
  fdi_doc :: int

definition NewFilteredDocIdSetIterator :: "int \<Rightarrow> int \<Rightarrow> (int \<Rightarrow> bool) \<Rightarrow> FilteredDocIdSetIterator" where
  "NewFilteredDocIdSetIterator maxDoc cost predicate =
     \<lparr>fdi_maxDoc = maxDoc, fdi_cost = cost, fdi_predicate = predicate, fdi_doc = -1\<rparr>"

function filter_loop :: "(int \<Rightarrow> bool) \<Rightarrow> int \<Rightarrow> int \<Rightarrow> int" where
  "filter_loop predicate maxDoc doc =
     (if doc < maxDoc then if predicate doc then doc else filter_loop predicate maxDoc (doc + 1) else NO_MORE_DOCS)"
  by pat_completeness auto
termination by (relation "measure (\<lambda>(p, maxDoc, doc). nat (maxDoc - doc))") auto

declare filter_loop.simps [simp del]

definition fdi_Advance :: "int \<Rightarrow> (FilteredDocIdSetIterator, int) act" where
  "fdi_Advance target f =
     (let d = (if target \<ge> fdi_maxDoc f then NO_MORE_DOCS else filter_loop (fdi_predicate f) (fdi_maxDoc f) target)
      in (Ok d, f\<lparr>fdi_doc := d\<rparr>))"

definition fdi_NextDoc :: "(FilteredDocIdSetIterator, int) act" where
  "fdi_NextDoc f = fdi_Advance (fdi_doc f + 1) f"

definition fdi_ops :: "FilteredDocIdSetIterator disi" where
  "fdi_ops = \<lparr>it_DocID = fdi_doc, it_NextDoc = fdi_NextDoc, it_Advance = fdi_Advance, it_Cost = fdi_cost\<rparr>"

record RangeDocIdSetIterator =
  rdi_Doc :: int
  rdi_minDoc :: int
  rdi_maxDoc :: int

definition NewRangeDocIdSetIterator :: "int \<Rightarrow> int \<Rightarrow> RangeDocIdSetIterator" where
  "NewRangeDocIdSetIterator minDoc maxDoc = \<lparr>rdi_Doc = -1, rdi_minDoc = minDoc, rdi_maxDoc = maxDoc\<rparr>"

definition rdi_Advance :: "int \<Rightarrow> (RangeDocIdSetIterator, int) act" where
  "rdi_Advance target r =
     (let d = (if target \<ge> rdi_maxDoc r then NO_MORE_DOCS else if target < rdi_minDoc r then rdi_minDoc r else target)
      in (Ok d, r\<lparr>rdi_Doc := d\<rparr>))"

definition rdi_NextDoc :: "(RangeDocIdSetIterator, int) act" where
  "rdi_NextDoc r = rdi_Advance (rdi_Doc r + 1) r"

definition rdi_ops :: "RangeDocIdSetIterator disi" where
  "rdi_ops = \<lparr>it_DocID = rdi_Doc, it_NextDoc = rdi_NextDoc, it_Advance = rdi_Advance,
     it_Cost = (\<lambda>r. rdi_maxDoc r - rdi_minDoc r)\<rparr>"

definition rdi_IntoBitSet :: "int \<Rightarrow> FixedBitSet \<Rightarrow> int \<Rightarrow> RangeDocIdSetIterator \<Rightarrow> (FixedBitSet \<times> RangeDocIdSetIterator) outcome" where
  "rdi_IntoBitSet upTo bitSet offset r =
     (let limit = (if rdi_maxDoc r < upTo then rdi_maxDoc r else upTo)
      in if upTo > rdi_Doc r \<and> limit > rdi_Doc r
         then bind_out (fs_SetRange (rdi_Doc r - offset) (limit - offset) bitSet) (\<lambda>b. Ok (b, snd (rdi_Advance limit r)))
         else Ok (bitSet, r))"

text \<open>The complement of an iterator below \<open>maxDoc\<close>.\<close>

record 's notDocIdSetIterator =
  ndi_in :: 's
  ndi_maxDoc :: int
  ndi_doc :: int
  ndi_nextSkippedDoc :: int

definition not_Iterator :: "int \<Rightarrow> 's \<Rightarrow> 's notDocIdSetIterator" where
  "not_Iterator maxDoc inner = \<lparr>ndi_in = inner, ndi_maxDoc = maxDoc, ndi_doc = -1, ndi_nextSkippedDoc = -1\<rparr>"

function not_loop :: "'s disi \<Rightarrow> int \<Rightarrow> ('s notDocIdSetIterator, int) act" where
  "not_loop D maxDoc n =
     (if ndi_doc n \<ge> maxDoc then (Ok NO_MORE_DOCS, n\<lparr>ndi_doc := NO_MORE_DOCS\<rparr>)
      else if ndi_doc n \<noteq> ndi_nextSkippedDoc n then (Ok (ndi_doc n), n)
      else case it_NextDoc D (ndi_in n) of
             (Ok nxt, s') \<Rightarrow> not_loop D maxDoc (n\<lparr>ndi_in := s', ndi_doc := ndi_doc n + 1, ndi_nextSkippedDoc := nxt\<rparr>)
           | (Err e, s') \<Rightarrow> (Err e, n\<lparr>ndi_in := s', ndi_doc := ndi_doc n + 1\<rparr>)
           | (Panic p, s') \<Rightarrow> (Panic p, n\<lparr>ndi_in := s', ndi_doc := ndi_doc n + 1\<rparr>))"
  by pat_completeness auto
termination by (relation "measure (\<lambda>(D, maxDoc, n). nat (maxDoc - ndi_doc n))") auto

declare not_loop.simps [simp del]

definition ndi_Advance :: "'s disi \<Rightarrow> int \<Rightarrow> ('s notDocIdSetIterator, int) act" where
  "ndi_Advance D target n =
     (let n1 = n\<lparr>ndi_doc := target\<rparr>
      in if target > ndi_nextSkippedDoc n
         then case it_Advance D target (ndi_in n) of
                (Ok nxt, s') \<Rightarrow> not_loop D (ndi_maxDoc n) (n1\<lparr>ndi_in := s', ndi_nextSkippedDoc := nxt\<rparr>)
              | (Err e, s') \<Rightarrow> (Err e, n1\<lparr>ndi_in := s'\<rparr>)
              | (Panic p, s') \<Rightarrow> (Panic p, n1\<lparr>ndi_in := s'\<rparr>)
         else not_loop D (ndi_maxDoc n) n1)"

definition ndi_NextDoc :: "'s disi \<Rightarrow> ('s notDocIdSetIterator, int) act" where
  "ndi_NextDoc D n = ndi_Advance D (ndi_doc n + 1) n"

definition ndi_ops :: "'s disi \<Rightarrow> 's notDocIdSetIterator disi" where
  "ndi_ops D = \<lparr>it_DocID = ndi_doc, it_NextDoc = ndi_NextDoc D, it_Advance = ndi_Advance D, it_Cost = ndi_maxDoc\<rparr>"

section \<open>The contract\<close>

text \<open>The first document of \<open>A\<close> at or after \<open>t\<close>, or the sentinel.\<close>

definition first_doc :: "nat set \<Rightarrow> int \<Rightarrow> int" where
  "first_doc A t = (if \<exists>k\<in>A. t \<le> int k then int (LEAST k. k \<in> A \<and> t \<le> int k) else NO_MORE_DOCS)"

lemma first_doc_next: "first_doc A t = (if next_in A (nat t) < 0 then NO_MORE_DOCS else next_in A (nat t))"
  by (simp add: first_doc_def next_in_def nat_le_iff)

lemma first_doc_none: "\<forall>k\<in>A. int k < t \<Longrightarrow> first_doc A t = NO_MORE_DOCS"
  by (force simp: first_doc_def)

lemma first_doc_eqI:
  assumes "m \<in> A" "t \<le> int m" "\<And>k. k \<in> A \<Longrightarrow> t \<le> int k \<Longrightarrow> m \<le> k"
  shows "first_doc A t = int m"
proof -
  have "(LEAST k. k \<in> A \<and> t \<le> int k) = m" using assms by (intro Least_equality) auto
  then show ?thesis using assms(1,2) by (auto simp: first_doc_def)
qed

lemma first_doc_cases:
  obtains (none) "\<forall>k\<in>A. int k < t" "first_doc A t = NO_MORE_DOCS"
  | (some) m where "m \<in> A" "t \<le> int m" "\<forall>k\<in>A. t \<le> int k \<longrightarrow> m \<le> k" "first_doc A t = int m"
proof (cases "\<exists>k\<in>A. t \<le> int k")
  case True
  let ?m = "LEAST k. k \<in> A \<and> t \<le> int k"
  have "?m \<in> A \<and> t \<le> int ?m" using True by (intro LeastI_ex [of "\<lambda>k. k \<in> A \<and> t \<le> int k"]) auto
  moreover have "\<forall>k\<in>A. t \<le> int k \<longrightarrow> ?m \<le> k" by (auto intro: Least_le)
  ultimately show thesis using some [of ?m] True by (simp add: first_doc_def)
next
  case False
  then have "\<forall>k\<in>A. int k < t" by (simp add: not_le)
  then show thesis using none False by (simp add: first_doc_def)
qed

lemma first_doc_ge: "t \<le> NO_MORE_DOCS \<Longrightarrow> t \<le> first_doc A t"
  by (rule first_doc_cases [of A t]) auto

lemma first_doc_le: "\<forall>k\<in>A. int k < NO_MORE_DOCS \<Longrightarrow> first_doc A t \<le> NO_MORE_DOCS"
  by (rule first_doc_cases [of A t]) auto

text \<open>The documents from \<open>t\<close> on, as a list: the first, and those after it.\<close>

definition docs_from :: "nat set \<Rightarrow> int \<Rightarrow> nat list" where
  "docs_from A t = sorted_list_of_set {k \<in> A. t \<le> int k}"

lemma docs_from_none: "\<forall>k\<in>A. int k < t \<Longrightarrow> docs_from A t = []"
proof -
  assume "\<forall>k\<in>A. int k < t"
  then have "{k \<in> A. t \<le> int k} = {}" by auto
  then show ?thesis by (simp only: docs_from_def sorted_list_of_set_empty)
qed

lemma docs_from_Cons:
  assumes "finite A" "m \<in> A" "t \<le> int m" "\<forall>k\<in>A. t \<le> int k \<longrightarrow> m \<le> k"
  shows "docs_from A t = m # docs_from A (int m + 1)"
proof -
  let ?B = "{k \<in> A. t \<le> int k}"
  have B: "finite ?B" "?B \<noteq> {}" "Min ?B = m" using assms by (auto intro!: Min_eqI)
  have "?B - {m} = {k \<in> A. int m + 1 \<le> int k}" using assms by force
  then show ?thesis using sorted_list_of_set_nonempty [OF B(1,2)] B(3) by (simp add: docs_from_def)
qed

definition moves :: "'s disi \<Rightarrow> ('s \<Rightarrow> nat set) \<Rightarrow> ('s \<Rightarrow> bool) \<Rightarrow> 's \<Rightarrow> int outcome \<times> 's \<Rightarrow> int \<Rightarrow> bool" where
  "moves D docs valid s r t \<longleftrightarrow> (\<exists>s'. r = (Ok (first_doc (docs s) t), s') \<and> valid s' \<and> docs s' = docs s
     \<and> it_DocID D s' = first_doc (docs s) t)"

text \<open>A client's loop that takes \<open>NextDoc\<close> until the sentinel, with a bound on the rounds.\<close>

fun it_drain :: "'s disi \<Rightarrow> nat \<Rightarrow> 's \<Rightarrow> int list outcome" where
  "it_drain D 0 s = Ok []"
| "it_drain D (Suc n) s =
     (case it_NextDoc D s of
        (Ok d, s') \<Rightarrow> if d = NO_MORE_DOCS then Ok [] else bind_out (it_drain D n s') (\<lambda>ds. Ok (d # ds))
      | (Err e, s') \<Rightarrow> Err e
      | (Panic p, s') \<Rightarrow> Panic p)"

locale doc_iter =
  fixes D :: "'s disi" and docs :: "'s \<Rightarrow> nat set" and valid :: "'s \<Rightarrow> bool"
  assumes docs_below: "valid s \<Longrightarrow> k \<in> docs s \<Longrightarrow> int k < NO_MORE_DOCS"
    and on_doc: "valid s \<Longrightarrow> it_DocID D s = - 1 \<or> it_DocID D s = NO_MORE_DOCS \<or> (\<exists>k\<in>docs s. it_DocID D s = int k)"
    and next_moves: "valid s \<Longrightarrow> it_DocID D s < NO_MORE_DOCS \<Longrightarrow> moves D docs valid s (it_NextDoc D s) (it_DocID D s + 1)"
    and advance_moves: "valid s \<Longrightarrow> it_DocID D s < t \<Longrightarrow> t \<le> NO_MORE_DOCS \<Longrightarrow> moves D docs valid s (it_Advance D t s) t"
begin

lemma finite_docs: "valid s \<Longrightarrow> finite (docs s)"
  by (rule finite_subset [of _ "{..<nat NO_MORE_DOCS}"]) (auto dest: docs_below simp: NO_MORE_DOCS_def)

lemma first_below: "valid s \<Longrightarrow> first_doc (docs s) t \<le> NO_MORE_DOCS"
  using docs_below by (intro first_doc_le) blast

lemma next_cases:
  assumes "valid s" "it_DocID D s < NO_MORE_DOCS"
  obtains (none) s' where "it_NextDoc D s = (Ok NO_MORE_DOCS, s')" "valid s'" "docs s' = docs s" "it_DocID D s' = NO_MORE_DOCS"
      "\<forall>k\<in>docs s. int k \<le> it_DocID D s"
  | (some) s' m where "it_NextDoc D s = (Ok (int m), s')" "valid s'" "docs s' = docs s" "it_DocID D s' = int m"
      "m \<in> docs s" "it_DocID D s < int m" "int m < NO_MORE_DOCS" "\<forall>k\<in>docs s. it_DocID D s < int k \<longrightarrow> m \<le> k"
proof -
  obtain s' where s': "it_NextDoc D s = (Ok (first_doc (docs s) (it_DocID D s + 1)), s')" "valid s'" "docs s' = docs s"
      "it_DocID D s' = first_doc (docs s) (it_DocID D s + 1)"
    using next_moves [OF assms] by (auto simp: moves_def)
  show thesis
  proof (cases rule: first_doc_cases [of "docs s" "it_DocID D s + 1"])
    case none
    then show thesis using that(1) [of s'] s' by force
  next
    case (some m)
    then show thesis using that(2) [of m s'] s' docs_below [OF assms(1), of m] by force
  qed
qed

lemma drain_enumerates:
  "valid s \<Longrightarrow> it_DocID D s < NO_MORE_DOCS \<Longrightarrow> length (docs_from (docs s) (it_DocID D s + 1)) < n \<Longrightarrow>
   it_drain D n s = Ok (map int (docs_from (docs s) (it_DocID D s + 1)))"
proof (induction n arbitrary: s)
  case (Suc n)
  show ?case
  proof (cases rule: next_cases [OF Suc.prems(1,2)])
    case none: (1 s')
    then show ?thesis by (simp add: docs_from_none)
  next
    case some: (2 s' m)
    have c: "docs_from (docs s) (it_DocID D s + 1) = m # docs_from (docs s) (int m + 1)"
      using some finite_docs [OF Suc.prems(1)] by (intro docs_from_Cons) auto
    then have "it_drain D n s' = Ok (map int (docs_from (docs s) (int m + 1)))"
      using Suc.IH [of s'] Suc.prems some by simp
    then show ?thesis using some c by simp
  qed
qed simp

lemma slow_advance:
  assumes "valid s" "it_DocID D s < t" "t \<le> NO_MORE_DOCS"
  shows "\<exists>s'. SlowAdvance D t s = Some (Ok (first_doc (docs s) t), s') \<and> valid s' \<and> docs s' = docs s
    \<and> it_DocID D s' = first_doc (docs s) t"
  using assms
proof (induction "length (docs_from (docs s) (it_DocID D s + 1))" arbitrary: s rule: less_induct)
  case less
  have lt: "it_DocID D s < NO_MORE_DOCS" using less.prems by simp
  show ?case
  proof (cases rule: next_cases [OF less.prems(1) lt])
    case none: (1 s')
    have "first_doc (docs s) t = NO_MORE_DOCS" using none(5) less.prems(2) by (intro first_doc_none) force
    then show ?thesis using none less.prems(3) by (subst SlowAdvance.simps) simp
  next
    case some: (2 s' m)
    show ?thesis
    proof (cases "t \<le> int m")
      case True
      have "first_doc (docs s) t = int m" using some True less.prems(2) by (intro first_doc_eqI) auto
      then show ?thesis using some True by (subst SlowAdvance.simps) simp
    next
      case False
      have "docs_from (docs s) (it_DocID D s + 1) = m # docs_from (docs s) (int m + 1)"
        using some finite_docs [OF less.prems(1)] by (intro docs_from_Cons) auto
      then have "\<exists>s''. SlowAdvance D t s' = Some (Ok (first_doc (docs s) t), s'') \<and> valid s'' \<and> docs s'' = docs s
          \<and> it_DocID D s'' = first_doc (docs s) t"
        using less.hyps [of s'] some False less.prems(3) by simp
      then show ?thesis using some False by (subst SlowAdvance.simps) simp
    qed
  qed
qed

text \<open>The default \<open>IntoBitSet\<close>, from an iterator that stands on a document.\<close>

lemma default_into_adds:
  assumes "valid s" "0 \<le> it_DocID D s" "0 \<le> offset" "offset \<le> it_DocID D s" "upTo - offset \<le> fs_size b" "fbs_wf b" "upTo \<le> NO_MORE_DOCS"
  shows "\<exists>b' s'. default_into D upTo offset (it_DocID D s) b s = Some (Ok (), b', s') \<and> fbs_wf b' \<and> fs_size b' = fs_size b
    \<and> fbs_set b' = fbs_set b \<union> {nat (int k - offset) | k. k \<in> docs s \<and> it_DocID D s \<le> int k \<and> int k < upTo}
    \<and> valid s' \<and> docs s' = docs s \<and> it_DocID D s' = first_doc (docs s) (max (it_DocID D s) upTo)"
  using assms(1,2,4-6)
proof (induction "length (docs_from (docs s) (it_DocID D s + 1))" arbitrary: s b rule: less_induct)
  case less
  let ?d = "it_DocID D s"
  show ?case
  proof (cases "?d < upTo")
    case False
    have "first_doc (docs s) ?d = ?d"
    proof (cases "?d = NO_MORE_DOCS")
      case True
      then show ?thesis using docs_below [OF less.prems(1)] first_doc_none [of "docs s" ?d] by auto
    next
      case False
      then obtain k where "k \<in> docs s" "?d = int k" using on_doc [OF less.prems(1)] less.prems(2) by auto
      then show ?thesis using first_doc_eqI [of k "docs s" ?d] by simp
    qed
    moreover have "fbs_set b \<union> {nat (int k - offset) | k. k \<in> docs s \<and> ?d \<le> int k \<and> int k < upTo} = fbs_set b"
      using False by auto
    ultimately show ?thesis using False less.prems by (subst default_into.simps) (simp add: max_def)
  next
    case True
    then have lt: "?d < NO_MORE_DOCS" using assms(7) by simp
    then obtain k where k: "k \<in> docs s" "?d = int k" using on_doc [OF less.prems(1)] less.prems(2) by auto
    define j where "j = nat (?d - offset)"
    have j: "?d - offset = int j" using less.prems(3) by (simp add: j_def)
    then obtain b1 where b1: "fs_Set (?d - offset) b = Ok b1" "fbs_wf b1" "fs_size b1 = fs_size b" "fbs_set b1 = insert j (fbs_set b)"
      using fs_Set_yields [OF less.prems(5), of j] less.prems(4) True by (auto simp: fs_yields_def)
    show ?thesis
    proof (cases rule: next_cases [OF less.prems(1) lt])
      case none: (1 s')
      have "{nat (int k - offset) | k. k \<in> docs s \<and> ?d \<le> int k \<and> int k < upTo} = {j}"
        using none(5) k True by (force simp: j_def)
      moreover have "first_doc (docs s) upTo = NO_MORE_DOCS" using none(5) True by (intro first_doc_none) force
      ultimately show ?thesis using none b1 True assms(7)
        by (subst default_into.simps) (simp, subst default_into.simps, simp add: max_def)
    next
      case some: (2 s' m)
      have "docs_from (docs s) (?d + 1) = m # docs_from (docs s) (int m + 1)"
        using some finite_docs [OF less.prems(1)] by (intro docs_from_Cons) auto
      then obtain b' s'' where r: "default_into D upTo offset (int m) b1 s' = Some (Ok (), b', s'')" "fbs_wf b'" "fs_size b' = fs_size b"
          "fbs_set b' = fbs_set b1 \<union> {nat (int k - offset) | k. k \<in> docs s \<and> int m \<le> int k \<and> int k < upTo}"
          "valid s''" "docs s'' = docs s" "it_DocID D s'' = first_doc (docs s) (max (int m) upTo)"
        using less.hyps [of s' b1] some b1 less.prems by auto
      have "l \<in> docs s \<and> ?d \<le> int l \<and> int l < upTo \<longleftrightarrow> l = k \<or> l \<in> docs s \<and> int m \<le> int l \<and> int l < upTo" for l
      proof (cases "l = k")
        case False
        then have "?d \<le> int l \<longleftrightarrow> ?d < int l" using k(2) by auto
        moreover have "l \<in> docs s \<Longrightarrow> ?d < int l \<longleftrightarrow> int m \<le> int l" using some(6,8) by fastforce
        ultimately show ?thesis using False by blast
      qed (use k True in simp)
      then have "{nat (int k - offset) | k. k \<in> docs s \<and> ?d \<le> int k \<and> int k < upTo} =
          {nat (int l - offset) | l. l = k \<or> l \<in> docs s \<and> int m \<le> int l \<and> int l < upTo}" by (simp only:)
      also have "\<dots> = insert j {nat (int k - offset) | k. k \<in> docs s \<and> int m \<le> int k \<and> int k < upTo}"
        unfolding j_def k(2) by auto
      finally have "{nat (int k - offset) | k. k \<in> docs s \<and> ?d \<le> int k \<and> int k < upTo} =
          insert j {nat (int k - offset) | k. k \<in> docs s \<and> int m \<le> int k \<and> int k < upTo}" .
      moreover have "first_doc (docs s) (max (int m) upTo) = first_doc (docs s) upTo"
      proof (cases "int m < upTo")
        case False
        then have "first_doc (docs s) upTo = int m" "first_doc (docs s) (int m) = int m"
          using some True by (auto intro!: first_doc_eqI)
        then show ?thesis using False by (simp add: max_def)
      qed (simp add: max_def)
      ultimately show ?thesis using r b1 some True
        by (subst default_into.simps) (simp add: max_def)
    qed
  qed
qed

lemma or_iterator_adds:
  assumes "valid s" "it_DocID D s < NO_MORE_DOCS" "\<forall>k\<in>docs s. int k < fs_size b" "fbs_wf b"
  shows "\<exists>b' s'. OrIterator D b s = Some (Ok (), b', s') \<and> fbs_wf b' \<and> fs_size b' = fs_size b
    \<and> fbs_set b' = fbs_set b \<union> {k \<in> docs s. it_DocID D s < int k} \<and> valid s' \<and> it_DocID D s' = NO_MORE_DOCS"
  using assms
proof (induction "length (docs_from (docs s) (it_DocID D s + 1))" arbitrary: s b rule: less_induct)
  case less
  show ?case
  proof (cases rule: next_cases [OF less.prems(1,2)])
    case none: (1 s')
    have "fbs_set b \<union> {k \<in> docs s. it_DocID D s < int k} = fbs_set b" using none(5) by force
    then show ?thesis using none less.prems by (subst OrIterator.simps) (simp del: Un_iff)
  next
    case some: (2 s' m)
    obtain b1 where b1: "fs_Set (int m) b = Ok b1" "fbs_wf b1" "fs_size b1 = fs_size b" "fbs_set b1 = insert m (fbs_set b)"
      using fs_Set_yields [OF less.prems(4), of m] less.prems(3) some by (auto simp: fs_yields_def)
    have "docs_from (docs s) (it_DocID D s + 1) = m # docs_from (docs s) (int m + 1)"
      using some finite_docs [OF less.prems(1)] by (intro docs_from_Cons) auto
    then obtain b' s'' where r: "OrIterator D b1 s' = Some (Ok (), b', s'')" "fbs_wf b'" "fs_size b' = fs_size b"
        "fbs_set b' = fbs_set b1 \<union> {k \<in> docs s. int m < int k}" "valid s''" "it_DocID D s'' = NO_MORE_DOCS"
      using less.hyps [of s' b1] some b1 less.prems by auto
    have "{k \<in> docs s. it_DocID D s < int k} = insert m {k \<in> docs s. int m < int k}" using some by force
    then show ?thesis using r b1 some by (subst OrIterator.simps) simp
  qed
qed

end

section \<open>The implementations keep the contract\<close>

text \<open>An \<open>Advance\<close> that searches from any target, and a \<open>NextDoc\<close> that advances to the document after the current one.\<close>

lemma doc_iter_by_advance:
  assumes "\<And>s k. valid s \<Longrightarrow> k \<in> docs s \<Longrightarrow> int k < NO_MORE_DOCS"
    and "\<And>s. valid s \<Longrightarrow> it_DocID D s = - 1 \<or> it_DocID D s = NO_MORE_DOCS \<or> (\<exists>k\<in>docs s. it_DocID D s = int k)"
    and adv: "\<And>s t. valid s \<Longrightarrow> it_DocID D s < t \<Longrightarrow> t \<le> NO_MORE_DOCS \<Longrightarrow> moves D docs valid s (it_Advance D t s) t"
    and nxt: "\<And>s. it_NextDoc D s = it_Advance D (it_DocID D s + 1) s"
  shows "doc_iter D docs valid"
  by unfold_locales (use assms in auto)

definition view_set :: "bits_view \<Rightarrow> nat set" where
  "view_set v = {k. int k < bv_Length v \<and> bv_Get v (int k) = Ok True}"

definition view_ok :: "bits_view \<Rightarrow> bool" where
  "view_ok v \<longleftrightarrow> bv_Length v \<le> NO_MORE_DOCS \<and> (\<forall>i. 0 \<le> i \<and> i < bv_Length v \<longrightarrow> (\<exists>b. bv_Get v i = Ok b))
     \<and> (\<forall>f. bv_NextSetBit v = Some f \<longrightarrow> (\<forall>i. 0 \<le> i \<and> i < bv_Length v \<longrightarrow> f i = Ok (next_in (view_set v) (nat i))))"

lemma fixed_view_ok: "fbs_wf fs \<Longrightarrow> fs_size fs \<le> NO_MORE_DOCS \<Longrightarrow> view_ok (fixed_view fs) \<and> view_set (fixed_view fs) = fbs_set fs"
proof -
  assume wf: "fbs_wf fs" and le: "fs_size fs \<le> NO_MORE_DOCS"
  have g: "fs_Get (int k) fs = Ok (k \<in> fbs_set fs)" if "int k < fs_size fs" for k
    using wf that by (simp add: fs_Get_iff fbs_wf_def)
  have "\<exists>b. fs_Get i fs = Ok b" if "0 \<le> i" "i < fs_size fs" for i using g [of "nat i"] that by simp
  moreover have "view_set (fixed_view fs) = fbs_set fs"
    using wf g by (auto simp: view_set_def fixed_view_def fs_Length_def fbs_wf_def)
  ultimately show ?thesis using wf le by (auto simp: view_ok_def fixed_view_def fs_Length_def fs_NextSetBit_next)
qed

lemma next_in_step: "k \<notin> A \<Longrightarrow> next_in A k = next_in A (k + 1)"
proof -
  assume k: "k \<notin> A"
  have "l \<in> A \<and> k \<le> l \<longleftrightarrow> l \<in> A \<and> k + 1 \<le> l" for l using k by (cases "l = k") auto
  then have "(\<lambda>l. l \<in> A \<and> k \<le> l) = (\<lambda>l. l \<in> A \<and> k + 1 \<le> l)" by blast
  then show ?thesis unfolding next_in_def Bex_def by simp
qed

lemma scan_bits_next:
  assumes "\<And>i. 0 \<le> i \<Longrightarrow> i < stop \<Longrightarrow> get i = Ok (nat i \<in> S)" "0 \<le> i"
  shows "scan_bits get i stop = Ok (next_in {k \<in> S. int k < stop} (nat i))"
  using assms
proof (induction get i stop rule: scan_bits.induct)
  case (1 get i stop)
  show ?case
  proof (cases "i < stop")
    case False
    then show ?thesis using 1(3) by (subst scan_bits.simps) (auto simp: next_in_def)
  next
    case True
    then obtain k where k: "i = int k" using 1(3) by (metis zero_le_imp_eq_int)
    have g: "get i = Ok (k \<in> S)" using 1(2) [of i] 1(3) True k by simp
    show ?thesis
    proof (cases "k \<in> S")
      case kS: True
      have "(LEAST l. l \<in> {k \<in> S. int k < stop} \<and> k \<le> l) = k" using kS True k by (intro Least_equality) auto
      then show ?thesis using g kS True k by (subst scan_bits.simps) (auto simp: next_in_def)
    next
      case kS: False
      have e: "next_in {k \<in> S. int k < stop} k = next_in {k \<in> S. int k < stop} (k + 1)"
        using kS by (intro next_in_step) simp
      have "scan_bits get (i + 1) stop = Ok (next_in {k \<in> S. int k < stop} (nat (i + 1)))"
        using 1(1) [OF True g] kS 1(2,3) by simp
      then show ?thesis using g kS True k e by (subst scan_bits.simps) (simp add: nat_add_distrib)
    qed
  qed
qed

definition bsi_docs :: "BitSetIterator \<Rightarrow> nat set" where
  "bsi_docs b = view_set (bsi_bits b)"

definition bsi_valid :: "BitSetIterator \<Rightarrow> bool" where
  "bsi_valid b \<longleftrightarrow> view_ok (bsi_bits b) \<and> bsi_length b = bv_Length (bsi_bits b)
     \<and> (bsi_doc b = - 1 \<or> bsi_doc b = NO_MORE_DOCS \<or> (\<exists>k\<in>bsi_docs b. bsi_doc b = int k))"

lemma bsi_next_eq:
  assumes "bsi_valid b" "0 \<le> t" "t < bsi_length b"
  shows "bsi_next b t (bsi_length b) = Ok (next_in (bsi_docs b) (nat t))"
proof (cases "bv_NextSetBit (bsi_bits b)")
  case None
  let ?v = "bsi_bits b"
  have "bv_Get ?v i = Ok (nat i \<in> view_set ?v)" if "0 \<le> i" "i < bv_Length ?v" for i
    using assms(1) that by (force simp: bsi_valid_def view_ok_def view_set_def)
  moreover have "{k \<in> view_set ?v. int k < bv_Length ?v} = view_set ?v" by (auto simp: view_set_def)
  ultimately show ?thesis
    using scan_bits_next [of "bsi_length b" "bv_Get ?v" "view_set ?v" t] assms None
    by (simp add: bsi_next_def bsi_docs_def bsi_valid_def)
next
  case (Some f)
  then show ?thesis using assms by (simp add: bsi_next_def bsi_docs_def bsi_valid_def view_ok_def)
qed

lemma first_doc_beyond: "A \<subseteq> {k. int k < len} \<Longrightarrow> len \<le> t \<Longrightarrow> first_doc A t = NO_MORE_DOCS"
  by (intro first_doc_none) force

text \<open>After a move the new position is the sentinel or a document of the set.\<close>

lemma first_doc_on: "first_doc A t = NO_MORE_DOCS \<or> (\<exists>k\<in>A. first_doc A t = int k)"
  by (rule first_doc_cases [of A t]) auto

lemma bsi_Advance_first:
  assumes "bsi_valid b" "0 \<le> t"
  shows "bsi_Advance t b = (Ok (first_doc (bsi_docs b) t), b\<lparr>bsi_doc := first_doc (bsi_docs b) t\<rparr>)"
proof (cases "t \<ge> bsi_length b")
  case True
  have "first_doc (bsi_docs b) t = NO_MORE_DOCS"
    using assms(1) True by (intro first_doc_beyond [of _ "bsi_length b"]) (auto simp: bsi_docs_def view_set_def bsi_valid_def)
  then show ?thesis using True by (simp add: bsi_Advance_def)
next
  case False
  then show ?thesis using bsi_next_eq [OF assms] by (simp add: bsi_Advance_def first_doc_next Let_def)
qed

interpretation bsi: doc_iter bsi_ops bsi_docs bsi_valid
proof (rule doc_iter_by_advance)
  fix s k
  assume "bsi_valid s" "k \<in> bsi_docs s"
  then show "int k < NO_MORE_DOCS" by (auto simp: bsi_docs_def view_set_def bsi_valid_def view_ok_def)
next
  fix s t
  assume s: "bsi_valid s" "it_DocID bsi_ops s < t" "t \<le> NO_MORE_DOCS"
  then have "0 \<le> t" by (auto simp: bsi_valid_def bsi_ops_def NO_MORE_DOCS_def)
  then show "moves bsi_ops bsi_docs bsi_valid s (it_Advance bsi_ops t s) t"
    using bsi_Advance_first [OF s(1)] s(1) first_doc_on [of "bsi_docs s" t]
    by (auto simp: moves_def bsi_ops_def bsi_valid_def bsi_docs_def)
qed (auto simp: bsi_ops_def bsi_valid_def bsi_NextDoc_def)

text \<open>The iterator with a doc base ranges over the moved set.\<close>

definition dbi_docs :: "DocBaseBitSetIterator \<Rightarrow> nat set" where
  "dbi_docs b = (\<lambda>k. k + nat (dbi_docBase b)) ` fbs_set (dbi_bits b)"

definition dbi_valid :: "DocBaseBitSetIterator \<Rightarrow> bool" where
  "dbi_valid b \<longleftrightarrow> fbs_wf (dbi_bits b) \<and> 0 \<le> dbi_docBase b \<and> dbi_length b = fs_size (dbi_bits b) + dbi_docBase b
     \<and> dbi_length b \<le> NO_MORE_DOCS
     \<and> (dbi_doc b = - 1 \<or> dbi_doc b = NO_MORE_DOCS \<or> (\<exists>k\<in>dbi_docs b. dbi_doc b = int k))"

lemma first_doc_moved:
  assumes "0 \<le> base"
  shows "first_doc ((\<lambda>k. k + nat base) ` A) t
    = (let n = next_in A (nat (max 0 (t - base))) in if n < 0 then NO_MORE_DOCS else n + base)"
proof (cases rule: first_doc_cases [of A "max 0 (t - base)"])
  case none
  then have "next_in A (nat (max 0 (t - base))) = - 1" by (auto simp: next_in_def)
  moreover have "first_doc ((\<lambda>k. k + nat base) ` A) t = NO_MORE_DOCS"
    using none assms by (intro first_doc_none) force
  ultimately show ?thesis by simp
next
  case (some m)
  then have "next_in A (nat (max 0 (t - base))) = int m"
    using first_doc_next [of A "max 0 (t - base)"] by (auto simp: next_in_def split: if_splits)
  moreover have "first_doc ((\<lambda>k. k + nat base) ` A) t = int (m + nat base)"
    using some assms by (intro first_doc_eqI) auto
  ultimately show ?thesis using assms by simp
qed

lemma dbi_Advance_first:
  assumes "dbi_valid b" "0 \<le> t"
  shows "dbi_Advance t b = (Ok (first_doc (dbi_docs b) t), b\<lparr>dbi_doc := first_doc (dbi_docs b) t\<rparr>)"
proof (cases "t \<ge> dbi_length b")
  case True
  have "first_doc (dbi_docs b) t = NO_MORE_DOCS"
    using assms(1) True by (intro first_doc_beyond [of _ "dbi_length b"]) (auto simp: dbi_docs_def dbi_valid_def dest: fbs_wf_elem)
  then show ?thesis using True by (simp add: dbi_Advance_def)
next
  case False
  let ?start = "if t - dbi_docBase b < 0 then 0 else t - dbi_docBase b"
  have "fs_NextSetBit ?start (dbi_bits b) = Ok (next_in (fbs_set (dbi_bits b)) (nat (max 0 (t - dbi_docBase b))))"
    using fs_NextSetBit_next [of "dbi_bits b" ?start] assms by (simp add: dbi_valid_def max_def)
  then show ?thesis using False first_doc_moved [of "dbi_docBase b" "fbs_set (dbi_bits b)" t] assms(1)
    by (simp add: dbi_Advance_def dbi_docs_def dbi_valid_def Let_def)
qed

interpretation dbi: doc_iter dbi_ops dbi_docs dbi_valid
proof (rule doc_iter_by_advance)
  fix s k
  assume "dbi_valid s" "k \<in> dbi_docs s"
  then show "int k < NO_MORE_DOCS" by (auto simp: dbi_docs_def dbi_valid_def dest: fbs_wf_elem)
next
  fix s t
  assume s: "dbi_valid s" "it_DocID dbi_ops s < t" "t \<le> NO_MORE_DOCS"
  then have "0 \<le> t" by (auto simp: dbi_valid_def dbi_ops_def NO_MORE_DOCS_def)
  then show "moves dbi_ops dbi_docs dbi_valid s (it_Advance dbi_ops t s) t"
    using dbi_Advance_first [OF s(1)] s(1) first_doc_on [of "dbi_docs s" t]
    by (auto simp: moves_def dbi_ops_def dbi_valid_def dbi_docs_def)
qed (auto simp: dbi_ops_def dbi_valid_def dbi_NextDoc_def)

text \<open>The filtered and the range iterator.\<close>

definition fdi_docs :: "FilteredDocIdSetIterator \<Rightarrow> nat set" where
  "fdi_docs f = {k. int k < fdi_maxDoc f \<and> fdi_predicate f (int k)}"

definition fdi_valid :: "FilteredDocIdSetIterator \<Rightarrow> bool" where
  "fdi_valid f \<longleftrightarrow> fdi_maxDoc f \<le> NO_MORE_DOCS
     \<and> (fdi_doc f = - 1 \<or> fdi_doc f = NO_MORE_DOCS \<or> (\<exists>k\<in>fdi_docs f. fdi_doc f = int k))"

lemma filter_loop_first:
  "0 \<le> t \<Longrightarrow> filter_loop p maxDoc t = first_doc {k. int k < maxDoc \<and> p (int k)} t"
proof (induction p maxDoc t rule: filter_loop.induct)
  case (1 p maxDoc t)
  let ?A = "{k. int k < maxDoc \<and> p (int k)}"
  show ?case
  proof (cases "t < maxDoc")
    case False
    then have "first_doc ?A t = NO_MORE_DOCS" by (intro first_doc_none) auto
    then show ?thesis using False by (subst filter_loop.simps) simp
  next
    case True
    obtain k where k: "t = int k" using 1(2) by (metis zero_le_imp_eq_int)
    show ?thesis
    proof (cases "p t")
      case pt: True
      then have "first_doc ?A t = int k" using k True by (intro first_doc_eqI) auto
      then show ?thesis using True pt k by (subst filter_loop.simps) simp
    next
      case pt: False
      then have "first_doc ?A t = first_doc ?A (t + 1)"
        using next_in_step [of k ?A] k by (simp add: first_doc_next nat_add_distrib)
      then show ?thesis using 1 True pt by (subst filter_loop.simps) simp
    qed
  qed
qed

lemma fdi_Advance_first:
  "0 \<le> t \<Longrightarrow> fdi_Advance t f = (Ok (first_doc (fdi_docs f) t), f\<lparr>fdi_doc := first_doc (fdi_docs f) t\<rparr>)"
proof -
  assume t: "0 \<le> t"
  have "first_doc (fdi_docs f) t = NO_MORE_DOCS" if "t \<ge> fdi_maxDoc f"
    using that by (intro first_doc_none) (auto simp: fdi_docs_def)
  then show ?thesis using t by (auto simp: fdi_Advance_def Let_def fdi_docs_def filter_loop_first)
qed

interpretation fdi: doc_iter fdi_ops fdi_docs fdi_valid
proof (rule doc_iter_by_advance)
  fix s t
  assume s: "fdi_valid s" "it_DocID fdi_ops s < t" "t \<le> NO_MORE_DOCS"
  then have "0 \<le> t" by (auto simp: fdi_valid_def fdi_ops_def NO_MORE_DOCS_def)
  then show "moves fdi_ops fdi_docs fdi_valid s (it_Advance fdi_ops t s) t"
    using fdi_Advance_first [of t s] s(1) first_doc_on [of "fdi_docs s" t]
    by (auto simp: moves_def fdi_ops_def fdi_valid_def fdi_docs_def)
qed (auto simp: fdi_ops_def fdi_valid_def fdi_docs_def fdi_NextDoc_def)

definition rdi_docs :: "RangeDocIdSetIterator \<Rightarrow> nat set" where
  "rdi_docs r = {nat (rdi_minDoc r)..<nat (rdi_maxDoc r)}"

definition rdi_valid :: "RangeDocIdSetIterator \<Rightarrow> bool" where
  "rdi_valid r \<longleftrightarrow> 0 \<le> rdi_minDoc r \<and> (rdi_minDoc r < rdi_maxDoc r \<or> rdi_maxDoc r = 0) \<and> rdi_maxDoc r \<le> NO_MORE_DOCS
     \<and> (rdi_Doc r = - 1 \<or> rdi_Doc r = NO_MORE_DOCS \<or> (\<exists>k\<in>rdi_docs r. rdi_Doc r = int k))"

lemma rdi_Advance_first:
  assumes "rdi_valid r" "0 \<le> t"
  shows "rdi_Advance t r = (Ok (first_doc (rdi_docs r) t), r\<lparr>rdi_Doc := first_doc (rdi_docs r) t\<rparr>)"
proof -
  have "first_doc (rdi_docs r) t =
      (if t \<ge> rdi_maxDoc r then NO_MORE_DOCS else if t < rdi_minDoc r then rdi_minDoc r else t)"
  proof (cases "t \<ge> rdi_maxDoc r")
    case True
    then show ?thesis by (auto simp: rdi_docs_def intro!: first_doc_none)
  next
    case False
    then have "first_doc (rdi_docs r) t = int (nat (max t (rdi_minDoc r)))"
      using assms by (intro first_doc_eqI) (auto simp: rdi_docs_def rdi_valid_def)
    then show ?thesis using False assms by (auto simp: rdi_valid_def)
  qed
  then show ?thesis by (simp add: rdi_Advance_def Let_def)
qed

interpretation rdi: doc_iter rdi_ops rdi_docs rdi_valid
proof (rule doc_iter_by_advance)
  fix s t
  assume s: "rdi_valid s" "it_DocID rdi_ops s < t" "t \<le> NO_MORE_DOCS"
  then have "0 \<le> t" by (auto simp: rdi_valid_def rdi_ops_def NO_MORE_DOCS_def)
  then show "moves rdi_ops rdi_docs rdi_valid s (it_Advance rdi_ops t s) t"
    using rdi_Advance_first [OF s(1)] s(1) first_doc_on [of "rdi_docs s" t]
    by (auto simp: moves_def rdi_ops_def rdi_valid_def rdi_docs_def)
qed (auto simp: rdi_ops_def rdi_valid_def rdi_docs_def rdi_NextDoc_def)

text \<open>The array iterator: the exponential and the binary search find the first id at or after the target.\<close>

definition iai_docs_set :: "IntArrayDocIdSetIterator \<Rightarrow> nat set" where
  "iai_docs_set b = nat ` set (take (nat (iai_length b)) (iai_docs b))"

definition iai_shape :: "IntArrayDocIdSetIterator \<Rightarrow> bool" where
  "iai_shape b \<longleftrightarrow> 0 \<le> iai_length b \<and> iai_length b \<le> int (length (iai_docs b))
     \<and> sorted_wrt (<) (take (nat (iai_length b)) (iai_docs b))
     \<and> (\<forall>d\<in>set (take (nat (iai_length b)) (iai_docs b)). 0 \<le> d \<and> d < NO_MORE_DOCS)
     \<and> 0 \<le> iai_i b \<and> iai_i b \<le> iai_length b"

definition iai_valid :: "IntArrayDocIdSetIterator \<Rightarrow> bool" where
  "iai_valid b \<longleftrightarrow> iai_shape b
     \<and> (if iai_doc b = NO_MORE_DOCS then iai_i b = iai_length b
        else if iai_i b = 0 then iai_doc b = - 1 else iai_doc b = iai_docs b ! nat (iai_i b - 1))"

lemma sort_Search_least:
  assumes "i \<le> j" "\<And>h. i \<le> h \<Longrightarrow> h < j \<Longrightarrow> f h = Ok (p h)" "\<And>h h'. i \<le> h \<Longrightarrow> h \<le> h' \<Longrightarrow> h' < j \<Longrightarrow> p h \<Longrightarrow> p h'"
  shows "\<exists>r. sort_Search f i j = Ok r \<and> i \<le> r \<and> r \<le> j \<and> (\<forall>h. i \<le> h \<and> h < r \<longrightarrow> \<not> p h) \<and> (r < j \<longrightarrow> p r)"
  using assms
proof (induction f i j rule: sort_Search.induct)
  case (1 f i j)
  show ?case
  proof (cases "i < j")
    case False
    then show ?thesis using 1(3) by (subst sort_Search.simps) auto
  next
    case True
    obtain m where m: "m = (i + j) div 2" "i \<le> m" "m < j" using True by simp
    note h = m(2,3)
    have f: "f m = Ok (p m)" using 1(4) h by simp
    show ?thesis
    proof (cases "p m")
      case ph: True
      have "\<exists>r. sort_Search f i m = Ok r \<and> i \<le> r \<and> r \<le> m \<and> (\<forall>h. i \<le> h \<and> h < r \<longrightarrow> \<not> p h) \<and> (r < m \<longrightarrow> p r)"
        proof (rule 1(1) [OF True m(1) f ph h(1)])
        show "f l = Ok (p l)" if "i \<le> l" "l < m" for l using that h(2) by (intro 1(4)) auto
        show "p l'" if "i \<le> l" "l \<le> l'" "l' < m" "p l" for l l' using 1(5) [of l l'] that h(2) by linarith
      qed
      then obtain r where "sort_Search f i m = Ok r" "i \<le> r" "r \<le> m" "\<forall>h. i \<le> h \<and> h < r \<longrightarrow> \<not> p h" "r < m \<longrightarrow> p r"
        by blast
      moreover from this have "p r" using ph by (cases "r = m") auto
      ultimately show ?thesis using True f ph h by (subst sort_Search.simps) (auto simp: Let_def simp flip: m(1))
    next
      case ph: False
      have "\<exists>r. sort_Search f (m + 1) j = Ok r \<and> m + 1 \<le> r \<and> r \<le> j \<and> (\<forall>h. m + 1 \<le> h \<and> h < r \<longrightarrow> \<not> p h) \<and> (r < j \<longrightarrow> p r)"
        proof (rule 1(2) [OF True m(1) f ph])
        show "m + 1 \<le> j" using h(2) by simp
        show "f l = Ok (p l)" if "m + 1 \<le> l" "l < j" for l using that h(1) by (intro 1(4)) auto
        show "p l'" if "m + 1 \<le> l" "l \<le> l'" "l' < j" "p l" for l l' using 1(5) [of l l'] that h(1) by linarith
      qed
      then obtain r where r: "sort_Search f (m + 1) j = Ok r" "m + 1 \<le> r" "r \<le> j"
          "\<forall>h. m + 1 \<le> h \<and> h < r \<longrightarrow> \<not> p h" "r < j \<longrightarrow> p r" by blast
      have "\<not> p l" if "i \<le> l" "l < r" for l using 1(5) [of l m] ph r(4) that h by (cases "l \<le> m") auto
      then show ?thesis using True f ph h r by (subst sort_Search.simps) (auto simp: Let_def simp flip: m(1))
    qed
  qed
qed

lemma exp_bound_Ok:
  assumes "0 \<le> i" "len \<le> int (length docs)" "0 < bound" "\<And>h h'. 0 \<le> h \<Longrightarrow> h \<le> h' \<Longrightarrow> h' < len \<Longrightarrow> docs ! nat h \<le> docs ! nat h'"
    "\<And>h. i \<le> h \<Longrightarrow> h < i + bound div 2 \<Longrightarrow> docs ! nat h < target" "i + bound div 2 \<le> len"
  shows "\<exists>c. exp_bound docs i len target bound = Ok c \<and> 0 < c \<and> i + c div 2 \<le> len
    \<and> (\<forall>h. i \<le> h \<and> h < i + c div 2 \<longrightarrow> docs ! nat h < target)
    \<and> (i + c < len \<longrightarrow> target \<le> docs ! nat (i + c))"
  using assms
proof (induction docs i len target bound rule: exp_bound.induct)
  case (1 docs i len target bound)
  show ?case
  proof (cases "i + bound < len")
    case False
    then show ?thesis using 1(4,6,7) by (subst exp_bound.simps) auto
  next
    case True
    have ix: "index docs (i + bound) = Ok (docs ! nat (i + bound))" using True 1(2-4) by simp
    show ?thesis
    proof (cases "docs ! nat (i + bound) < target")
      case lt: True
      have "docs ! nat h < target" if "i \<le> h" "h < i + bound" for h
        using 1(5) [of h "i + bound"] lt True that 1(2) by simp
      then have "\<exists>c. exp_bound docs i len target (bound * 2) = Ok c \<and> 0 < c \<and> i + c div 2 \<le> len
          \<and> (\<forall>h. i \<le> h \<and> h < i + c div 2 \<longrightarrow> docs ! nat h < target) \<and> (i + c < len \<longrightarrow> target \<le> docs ! nat (i + c))"
        by (intro 1(1) [OF _ ix lt]) (use True 1(2-5) in auto)
      then show ?thesis using True ix lt 1(4) by (subst exp_bound.simps) simp
    next
      case False
      then show ?thesis using True ix 1(4,6,7) by (subst exp_bound.simps) auto
    qed
  qed
qed

text \<open>The position of the search in the array: everything before \<open>r\<close> is below the target.\<close>

lemma iai_first_at:
  assumes "iai_shape b" "0 \<le> r" "r \<le> iai_length b" "\<And>h. 0 \<le> h \<Longrightarrow> h < r \<Longrightarrow> iai_docs b ! nat h < t"
    "r < iai_length b \<Longrightarrow> t \<le> iai_docs b ! nat r"
  shows "first_doc (iai_docs_set b) t = (if r < iai_length b then iai_docs b ! nat r else NO_MORE_DOCS)"
proof -
  let ?ds = "iai_docs b" and ?n = "nat (iai_length b)"
  have sh: "?n \<le> length ?ds" "sorted_wrt (<) (take ?n ?ds)" "\<forall>d\<in>set (take ?n ?ds). 0 \<le> d \<and> d < NO_MORE_DOCS"
    using assms(1) by (auto simp: iai_shape_def)
  have el: "k \<in> iai_docs_set b \<longleftrightarrow> (\<exists>h<?n. int k = ?ds ! h)" for k
    using sh(1,3) unfolding iai_docs_set_def by (force simp: in_set_conv_nth image_iff)
  have mono: "?ds ! h < ?ds ! h'" if "h < h'" "h' < ?n" for h h'
    using sorted_wrt_nth_less [OF sh(2) that(1)] that sh(1) by simp
  show ?thesis
  proof (cases "r < iai_length b")
    case False
    have "int k < t" if k: "k \<in> iai_docs_set b" for k
    proof -
      obtain h where h: "h < ?n" "int k = ?ds ! h" using k el [of k] by blast
      then show ?thesis using assms(4) [of "int h"] False assms(3) by simp
    qed
    then show ?thesis using False by (simp add: first_doc_none)
  next
    case True
    let ?m = "nat (?ds ! nat r)"
    have r: "nat r < ?n" using True assms(2) by simp
    then have "?ds ! nat r \<in> set (take ?n ?ds)" using sh(1) nth_mem [of "nat r" "take ?n ?ds"] by simp
    then have m: "int ?m = ?ds ! nat r" using sh(3) by simp
    have "first_doc (iai_docs_set b) t = int ?m"
    proof (rule first_doc_eqI)
      show "?m \<in> iai_docs_set b" unfolding el using r m by blast
      show "t \<le> int ?m" using assms(5) True m by simp
      fix k
      assume "k \<in> iai_docs_set b" "t \<le> int k"
      then obtain h where h: "h < ?n" "int k = ?ds ! h" unfolding el by blast
      have "\<not> int h < r" using assms(4) [of "int h"] h \<open>t \<le> int k\<close> by auto
      then have "\<not> h < nat r" by linarith
      then have "?ds ! nat r \<le> ?ds ! h" using mono [of "nat r" h] h(1) by (cases "h = nat r") (auto simp: not_less le_less)
      then show "?m \<le> k" using m h(2) by linarith
    qed
    then show ?thesis using m True by simp
  qed
qed

lemma iai_move:
  assumes "iai_shape b" "0 \<le> r" "r \<le> iai_length b"
  shows "r < iai_length b \<Longrightarrow> iai_valid (b\<lparr>iai_i := r + 1, iai_doc := iai_docs b ! nat r\<rparr>)"
    and "r = iai_length b \<Longrightarrow> iai_valid (b\<lparr>iai_i := r, iai_doc := NO_MORE_DOCS\<rparr>)"
proof -
  show "iai_valid (b\<lparr>iai_i := r + 1, iai_doc := iai_docs b ! nat r\<rparr>)" if "r < iai_length b"
  proof -
    have "nat r < nat (iai_length b)" "nat (iai_length b) \<le> length (iai_docs b)"
      using that assms by (auto simp: iai_shape_def)
    then have "iai_docs b ! nat r \<in> set (take (nat (iai_length b)) (iai_docs b))"
      using nth_mem [of "nat r" "take (nat (iai_length b)) (iai_docs b)"] by simp
    then show ?thesis using that assms by (auto simp: iai_valid_def iai_shape_def)
  qed
  show "iai_valid (b\<lparr>iai_i := r, iai_doc := NO_MORE_DOCS\<rparr>)" if "r = iai_length b"
    using that assms by (simp add: iai_valid_def iai_shape_def)
qed

lemma iai_mono: "iai_shape b \<Longrightarrow> 0 \<le> h \<Longrightarrow> h \<le> h' \<Longrightarrow> h' < iai_length b \<Longrightarrow> iai_docs b ! nat h \<le> iai_docs b ! nat h'"
proof -
  assume sh: "iai_shape b" and h: "0 \<le> h" "h \<le> h'" "h' < iai_length b"
  have l: "nat h' < nat (iai_length b)" "nat (iai_length b) \<le> length (iai_docs b)" using sh h by (auto simp: iai_shape_def)
  show ?thesis
  proof (cases "h = h'")
    case False
    then have "nat h < nat h'" using h by simp
    moreover have "sorted_wrt (<) (take (nat (iai_length b)) (iai_docs b))" using sh by (simp add: iai_shape_def)
    ultimately show ?thesis
      using sorted_wrt_nth_less [of "(<)" "take (nat (iai_length b)) (iai_docs b)" "nat h" "nat h'"] l by simp
  qed simp
qed

text \<open>What the iterator has passed lies below every target after its document.\<close>

lemma iai_passed:
  assumes "iai_valid b" "iai_doc b < t" "iai_doc b < NO_MORE_DOCS" "0 \<le> h" "h < iai_i b"
  shows "iai_docs b ! nat h < t"
proof -
  have sh: "iai_shape b" using assms(1) by (simp add: iai_valid_def)
  have d: "iai_doc b = iai_docs b ! nat (iai_i b - 1)" using assms(1,3,4,5) by (auto simp: iai_valid_def split: if_splits)
  have "iai_docs b ! nat h \<le> iai_docs b ! nat (iai_i b - 1)"
    using assms(4,5) sh by (intro iai_mono) (auto simp: iai_shape_def)
  then show ?thesis using d assms(2) by linarith
qed

lemma iai_Advance_first:
  assumes "iai_valid b" "iai_doc b < t" "t \<le> NO_MORE_DOCS"
  shows "\<exists>b'. iai_Advance t b = (Ok (first_doc (iai_docs_set b) t), b') \<and> iai_valid b' \<and> iai_docs_set b' = iai_docs_set b
    \<and> iai_doc b' = first_doc (iai_docs_set b) t"
proof -
  let ?ds = "iai_docs b" and ?i = "iai_i b" and ?n = "iai_length b"
  have sh: "iai_shape b" using assms(1) by (simp add: iai_valid_def)
  then have rng: "0 \<le> ?i" "?i \<le> ?n" "?n \<le> int (length ?ds)" by (auto simp: iai_shape_def)
  have passed: "?ds ! nat h < t" if "0 \<le> h" "h < ?i" for h
    using iai_passed [OF assms(1,2) _ that] assms(2,3) by linarith
  show ?thesis
  proof (cases "?i \<ge> ?n")
    case True
    then have i: "?i = ?n" using rng by simp
    then have "first_doc (iai_docs_set b) t = NO_MORE_DOCS" using iai_first_at [OF sh rng(1,2) passed] by simp
    moreover have "iai_valid (b\<lparr>iai_doc := NO_MORE_DOCS\<rparr>)" using sh i by (simp add: iai_valid_def iai_shape_def)
    ultimately show ?thesis using True by (simp add: iai_Advance_def iai_docs_set_def)
  next
    case False
    obtain c where c: "exp_bound ?ds ?i ?n t 1 = Ok c" "0 < c" "?i + c div 2 \<le> ?n"
        "\<forall>h. ?i \<le> h \<and> h < ?i + c div 2 \<longrightarrow> ?ds ! nat h < t" "?i + c < ?n \<longrightarrow> t \<le> ?ds ! nat (?i + c)"
      using exp_bound_Ok [OF rng(1,3), of 1 t] iai_mono [OF sh] rng by auto
    define low where "low = ?i + c div 2"
    define high where "high = (if ?i + c + 1 > ?n then ?n else ?i + c + 1)"
    have lh: "low \<le> high" "0 \<le> low" using c(2,3) rng by (auto simp: low_def high_def)
    define f where "f = (\<lambda>h. bind_out (index ?ds (low + h)) (\<lambda>d. Ok (d \<ge> t)))"
    have hn: "high \<le> ?n" using rng by (simp add: high_def)
    have fh: "f h = Ok (?ds ! nat (low + h) \<ge> t)" if "0 \<le> h" "h < high - low" for h
      using that lh rng hn by (simp add: f_def)
    have "\<exists>r. sort_Search f 0 (high - low) = Ok r \<and> 0 \<le> r \<and> r \<le> high - low
        \<and> (\<forall>h. 0 \<le> h \<and> h < r \<longrightarrow> \<not> ?ds ! nat (low + h) \<ge> t) \<and> (r < high - low \<longrightarrow> ?ds ! nat (low + r) \<ge> t)"
    proof (rule sort_Search_least [of 0 "high - low" f "\<lambda>h. ?ds ! nat (low + h) \<ge> t"])
      show "t \<le> ?ds ! nat (low + h')" if "0 \<le> h" "h \<le> h'" "h' < high - low" "t \<le> ?ds ! nat (low + h)" for h h'
        using iai_mono [OF sh, of "low + h" "low + h'"] that lh by (auto simp: high_def split: if_splits)
    qed (use lh fh in auto)
    then obtain r where r: "sort_Search f 0 (high - low) = Ok r" "0 \<le> r" "r \<le> high - low"
        "\<forall>h. 0 \<le> h \<and> h < r \<longrightarrow> ?ds ! nat (low + h) < t" "r < high - low \<longrightarrow> ?ds ! nat (low + r) \<ge> t" by (auto simp: not_le)
    define p where "p = low + r"
    have p: "0 \<le> p" "p \<le> ?n" using r(2,3) lh c(3) rng by (auto simp: p_def high_def low_def split: if_splits)
    have below: "?ds ! nat h < t" if "0 \<le> h" "h < p" for h
    proof (cases "h < ?i")
      case True
      then show ?thesis using passed that by blast
    next
      case False
      show ?thesis
      proof (cases "h < low")
        case True
        then show ?thesis using c(4) False by (simp add: low_def)
      next
        case False
        then show ?thesis using r(4) [rule_format, of "h - low"] that by (simp add: p_def)
      qed
    qed
    have at: "t \<le> ?ds ! nat p" if "p < ?n"
    proof (cases "r < high - low")
      case False
      then have "p = high" using r(3) by (simp add: p_def)
      then have "?i + c + 1 \<le> ?n" "p = ?i + c + 1" using that by (auto simp: high_def split: if_splits)
      then show ?thesis using c(5) below [of "?i + c"] c(2) rng by simp
    qed (use r(5) in \<open>simp add: p_def\<close>)
    have fd: "first_doc (iai_docs_set b) t = (if p < ?n then ?ds ! nat p else NO_MORE_DOCS)"
      by (rule iai_first_at [OF sh p below at])
    have adv: "iai_Advance t b =
       (if p \<ge> ?n then (Ok NO_MORE_DOCS, b\<lparr>iai_i := p, iai_doc := NO_MORE_DOCS\<rparr>)
        else (Ok (?ds ! nat p), b\<lparr>iai_i := p + 1, iai_doc := ?ds ! nat p\<rparr>))"
      unfolding iai_Advance_def Let_def c(1) bind_out.simps low_def [symmetric] high_def [symmetric] f_def [symmetric] r(1)
        p_def [symmetric] using False p rng by simp
    show ?thesis using adv fd iai_move [OF sh p] p(2) by (cases "p < ?n") (auto simp: iai_docs_set_def)
  qed
qed

lemma iai_elem:
  assumes "iai_shape b" "0 \<le> h" "h < iai_length b"
  shows "\<exists>k\<in>iai_docs_set b. iai_docs b ! nat h = int k"
proof -
  let ?xs = "take (nat (iai_length b)) (iai_docs b)"
  have "nat h < length ?xs" using assms by (auto simp: iai_shape_def)
  then have m: "iai_docs b ! nat h \<in> set ?xs" using nth_mem [of "nat h" ?xs] by simp
  then have "int (nat (iai_docs b ! nat h)) = iai_docs b ! nat h" using assms(1) by (auto simp: iai_shape_def)
  then show ?thesis using m by (force simp: iai_docs_set_def)
qed

lemma iai_NextDoc_first:
  assumes "iai_valid b" "iai_doc b < NO_MORE_DOCS"
  shows "\<exists>b'. iai_NextDoc b = (Ok (first_doc (iai_docs_set b) (iai_doc b + 1)), b') \<and> iai_valid b'
    \<and> iai_docs_set b' = iai_docs_set b \<and> iai_doc b' = first_doc (iai_docs_set b) (iai_doc b + 1)"
proof -
  let ?ds = "iai_docs b" and ?i = "iai_i b" and ?n = "iai_length b"
  have sh: "iai_shape b" using assms(1) by (simp add: iai_valid_def)
  then have rng: "0 \<le> ?i" "?i \<le> ?n" "?n \<le> int (length ?ds)" by (auto simp: iai_shape_def)
  have passed: "?ds ! nat h < iai_doc b + 1" if "0 \<le> h" "h < ?i" for h
    using iai_passed [OF assms(1) _ assms(2) that, of "iai_doc b + 1"] by simp
  have at: "iai_doc b + 1 \<le> ?ds ! nat ?i" if lt: "?i < ?n"
  proof (cases "?i = 0")
    case True
    then have "iai_doc b = - 1" using assms by (simp add: iai_valid_def)
    then show ?thesis using iai_elem [OF sh rng(1) lt] by auto
  next
    case False
    then have d: "iai_doc b = ?ds ! nat (?i - 1)" using assms by (simp add: iai_valid_def)
    have "nat (?i - 1) < nat ?i" "nat ?i < nat ?n" "nat ?n \<le> length ?ds" using False rng lt by auto
    then have "?ds ! nat (?i - 1) < ?ds ! nat ?i"
      using sorted_wrt_nth_less [of "(<)" "take (nat ?n) ?ds" "nat (?i - 1)" "nat ?i"] sh by (simp add: iai_shape_def)
    then show ?thesis using d by simp
  qed
  have fd: "first_doc (iai_docs_set b) (iai_doc b + 1) = (if ?i < ?n then ?ds ! nat ?i else NO_MORE_DOCS)"
    by (rule iai_first_at [OF sh rng(1,2) passed at])
  show ?thesis
  proof (cases "?i < ?n")
    case True
    then show ?thesis using fd rng iai_move(1) [OF sh rng(1,2) True] by (simp add: iai_NextDoc_def iai_docs_set_def)
  next
    case False
    then have "?i = ?n" using rng by simp
    then have "iai_valid (b\<lparr>iai_doc := NO_MORE_DOCS\<rparr>)" using sh by (simp add: iai_valid_def iai_shape_def)
    then show ?thesis using fd False by (simp add: iai_NextDoc_def iai_docs_set_def)
  qed
qed

interpretation iai: doc_iter iai_ops iai_docs_set iai_valid
proof
  fix s k
  assume "iai_valid s" "k \<in> iai_docs_set s"
  then show "int k < NO_MORE_DOCS" by (auto simp: iai_docs_set_def iai_valid_def iai_shape_def)
next
  fix s t
  assume "iai_valid s" "it_DocID iai_ops s < t" "t \<le> NO_MORE_DOCS"
  then show "moves iai_ops iai_docs_set iai_valid s (it_Advance iai_ops t s) t"
    using iai_Advance_first [of s t] by (auto simp: moves_def iai_ops_def)
next
  fix s
  assume s: "iai_valid s"
  show "it_DocID iai_ops s = - 1 \<or> it_DocID iai_ops s = NO_MORE_DOCS \<or> (\<exists>k\<in>iai_docs_set s. it_DocID iai_ops s = int k)"
  proof (cases "iai_doc s = NO_MORE_DOCS \<or> iai_i s = 0")
    case True
    then show ?thesis using s by (auto simp: iai_ops_def iai_valid_def split: if_splits)
  next
    case False
    then have d: "iai_doc s = iai_docs s ! nat (iai_i s - 1)" using s by (simp add: iai_valid_def)
    have "iai_shape s" using s by (simp add: iai_valid_def)
    from iai_elem [OF this, of "iai_i s - 1"] this show ?thesis using False d by (auto simp: iai_ops_def iai_shape_def)
  qed
next
  fix s
  assume s: "iai_valid s" "it_DocID iai_ops s < NO_MORE_DOCS"
  then show "moves iai_ops iai_docs_set iai_valid s (it_NextDoc iai_ops s) (it_DocID iai_ops s + 1)"
    using iai_NextDoc_first [of s] by (auto simp: moves_def iai_ops_def)
qed

text \<open>The complement of an iterator is an iterator.\<close>

definition ndi_docs :: "('s \<Rightarrow> nat set) \<Rightarrow> 's notDocIdSetIterator \<Rightarrow> nat set" where
  "ndi_docs docs n = {k. int k < ndi_maxDoc n} - docs (ndi_in n)"

definition ndi_valid :: "'s disi \<Rightarrow> ('s \<Rightarrow> nat set) \<Rightarrow> ('s \<Rightarrow> bool) \<Rightarrow> 's notDocIdSetIterator \<Rightarrow> bool" where
  "ndi_valid D docs valid n \<longleftrightarrow> valid (ndi_in n) \<and> ndi_maxDoc n \<le> NO_MORE_DOCS
     \<and> ndi_nextSkippedDoc n = it_DocID D (ndi_in n)
     \<and> (\<forall>k\<in>docs (ndi_in n). ndi_doc n \<noteq> NO_MORE_DOCS \<longrightarrow> int k \<le> ndi_doc n \<or> ndi_nextSkippedDoc n \<le> int k)
     \<and> (ndi_doc n = - 1 \<and> ndi_nextSkippedDoc n = - 1 \<or> ndi_doc n = NO_MORE_DOCS
        \<or> (\<exists>k\<in>ndi_docs docs n. ndi_doc n = int k) \<and> ndi_doc n < ndi_nextSkippedDoc n)"

context doc_iter
begin

lemma not_loop_first:
  assumes "valid (ndi_in n)" "ndi_maxDoc n \<le> NO_MORE_DOCS"
    "ndi_nextSkippedDoc n = it_DocID D (ndi_in n)" "0 \<le> ndi_doc n" "ndi_doc n \<le> ndi_nextSkippedDoc n"
    "\<forall>k\<in>docs (ndi_in n). int k < ndi_doc n \<or> ndi_nextSkippedDoc n \<le> int k"
  shows "\<exists>n'. not_loop D (ndi_maxDoc n) n = (Ok (first_doc (ndi_docs docs n) (ndi_doc n)), n') \<and> ndi_valid D docs valid n'
    \<and> ndi_docs docs n' = ndi_docs docs n \<and> ndi_doc n' = first_doc (ndi_docs docs n) (ndi_doc n)"
  using assms
proof (induction "nat (ndi_maxDoc n - ndi_doc n)" arbitrary: n rule: less_induct)
  case less
  obtain t where t: "ndi_doc n = int t" using less.prems(4) by (metis zero_le_imp_eq_int)
  let ?A = "ndi_docs docs n"
  show ?case
  proof (cases "ndi_doc n \<ge> ndi_maxDoc n")
    case True
    have "first_doc ?A (ndi_doc n) = NO_MORE_DOCS" using True by (intro first_doc_none) (auto simp: ndi_docs_def)
    then show ?thesis using True less.prems
      by (subst not_loop.simps) (simp add: ndi_valid_def ndi_docs_def)
  next
    case False
    show ?thesis
    proof (cases "ndi_doc n = ndi_nextSkippedDoc n")
      case ne: False
      then have tA: "t \<in> ?A" using less.prems(5,6) t False by (auto simp: ndi_docs_def)
      then have "first_doc ?A (ndi_doc n) = ndi_doc n" unfolding t by (intro first_doc_eqI) auto
      moreover have "ndi_valid D docs valid n" using less.prems tA t ne by (auto simp: ndi_valid_def)
      ultimately show ?thesis using False ne by (subst not_loop.simps) simp
    next
      case eq: True
      have lt: "it_DocID D (ndi_in n) < NO_MORE_DOCS" using eq less.prems(2,3) False by simp
      then have "t \<in> docs (ndi_in n)" using on_doc [OF less.prems(1)] eq t less.prems(3) by auto
      then have step: "first_doc ?A (ndi_doc n) = first_doc ?A (ndi_doc n + 1)"
        using next_in_step [of t ?A] t by (simp add: first_doc_next ndi_docs_def nat_add_distrib)
      obtain s' where s': "it_NextDoc D (ndi_in n) = (Ok (first_doc (docs (ndi_in n)) (ndi_doc n + 1)), s')" "valid s'"
          "docs s' = docs (ndi_in n)" "it_DocID D s' = first_doc (docs (ndi_in n)) (ndi_doc n + 1)"
        using next_moves [OF less.prems(1) lt] eq less.prems(3) by (auto simp: moves_def)
      define n1 where "n1 = n\<lparr>ndi_in := s', ndi_doc := ndi_doc n + 1, ndi_nextSkippedDoc := first_doc (docs (ndi_in n)) (ndi_doc n + 1)\<rparr>"
      have "not_loop D (ndi_maxDoc n) n = not_loop D (ndi_maxDoc n1) n1"
        using False eq s'(1) by (subst not_loop.simps) (simp add: n1_def)
      moreover have "\<exists>n'. not_loop D (ndi_maxDoc n1) n1 = (Ok (first_doc (ndi_docs docs n1) (ndi_doc n1)), n') \<and> ndi_valid D docs valid n'
          \<and> ndi_docs docs n' = ndi_docs docs n1 \<and> ndi_doc n' = first_doc (ndi_docs docs n1) (ndi_doc n1)"
      proof (rule less.hyps)
        show "ndi_doc n1 \<le> ndi_nextSkippedDoc n1" using False less.prems(2) by (auto simp: n1_def intro: first_doc_ge)
        show "\<forall>k\<in>docs (ndi_in n1). int k < ndi_doc n1 \<or> ndi_nextSkippedDoc n1 \<le> int k"
          by (rule first_doc_cases [of "docs (ndi_in n)" "ndi_doc n + 1"]) (auto simp: n1_def s'(3) not_less)
      qed (use False less.prems s' in \<open>auto simp: n1_def\<close>)
      moreover have "ndi_docs docs n1 = ?A" "ndi_doc n1 = ndi_doc n + 1" by (simp_all add: n1_def ndi_docs_def s'(3))
      ultimately show ?thesis by (simp add: step)
    qed
  qed
qed

lemma ndi_Advance_first:
  assumes "ndi_valid D docs valid n" "ndi_doc n < t" "t \<le> NO_MORE_DOCS"
  shows "moves (ndi_ops D) (ndi_docs docs) (ndi_valid D docs valid) n (ndi_Advance D t n) t"
proof -
  have v: "valid (ndi_in n)" "ndi_maxDoc n \<le> NO_MORE_DOCS" "ndi_nextSkippedDoc n = it_DocID D (ndi_in n)"
    using assms(1) by (auto simp: ndi_valid_def)
  have t0: "0 \<le> t" using assms by (auto simp: ndi_valid_def NO_MORE_DOCS_def)
  show ?thesis
  proof (cases "t > ndi_nextSkippedDoc n")
    case True
    obtain s' where s': "it_Advance D t (ndi_in n) = (Ok (first_doc (docs (ndi_in n)) t), s')" "valid s'"
        "docs s' = docs (ndi_in n)" "it_DocID D s' = first_doc (docs (ndi_in n)) t"
      using advance_moves [OF v(1), of t] v(3) True assms(3) by (auto simp: moves_def)
    define n1 where "n1 = n\<lparr>ndi_doc := t, ndi_in := s', ndi_nextSkippedDoc := first_doc (docs (ndi_in n)) t\<rparr>"
    have "\<exists>n'. not_loop D (ndi_maxDoc n1) n1 = (Ok (first_doc (ndi_docs docs n1) (ndi_doc n1)), n') \<and> ndi_valid D docs valid n'
        \<and> ndi_docs docs n' = ndi_docs docs n1 \<and> ndi_doc n' = first_doc (ndi_docs docs n1) (ndi_doc n1)"
    proof (rule not_loop_first)
      show "ndi_doc n1 \<le> ndi_nextSkippedDoc n1" using assms(3) by (simp add: n1_def first_doc_ge)
      show "\<forall>k\<in>docs (ndi_in n1). int k < ndi_doc n1 \<or> ndi_nextSkippedDoc n1 \<le> int k"
        by (rule first_doc_cases [of "docs (ndi_in n)" t]) (auto simp: n1_def s'(3) not_less)
    qed (use v t0 s' in \<open>auto simp: n1_def\<close>)
    moreover have "ndi_docs docs n1 = ndi_docs docs n" "ndi_doc n1 = t" "ndi_maxDoc n1 = ndi_maxDoc n"
      by (simp_all add: n1_def ndi_docs_def s'(3))
    moreover have "ndi_Advance D t n = not_loop D (ndi_maxDoc n) n1"
      using True s'(1) by (simp add: ndi_Advance_def n1_def)
    ultimately show ?thesis by (auto simp: moves_def ndi_ops_def)
  next
    case False
    define n1 where "n1 = n\<lparr>ndi_doc := t\<rparr>"
    have "\<exists>n'. not_loop D (ndi_maxDoc n1) n1 = (Ok (first_doc (ndi_docs docs n1) (ndi_doc n1)), n') \<and> ndi_valid D docs valid n'
        \<and> ndi_docs docs n' = ndi_docs docs n1 \<and> ndi_doc n' = first_doc (ndi_docs docs n1) (ndi_doc n1)"
      by (rule not_loop_first) (use v t0 False assms in \<open>force simp: n1_def ndi_valid_def\<close>)+
    moreover have "ndi_docs docs n1 = ndi_docs docs n" "ndi_doc n1 = t" "ndi_maxDoc n1 = ndi_maxDoc n"
      by (simp_all add: n1_def ndi_docs_def)
    moreover have "ndi_Advance D t n = not_loop D (ndi_maxDoc n) n1" using False by (simp add: ndi_Advance_def n1_def)
    ultimately show ?thesis by (auto simp: moves_def ndi_ops_def)
  qed
qed

lemma not_doc_iter: "doc_iter (ndi_ops D) (ndi_docs docs) (ndi_valid D docs valid)"
proof (rule doc_iter_by_advance)
  fix n k
  assume "ndi_valid D docs valid n" "k \<in> ndi_docs docs n"
  then show "int k < NO_MORE_DOCS" by (auto simp: ndi_valid_def ndi_docs_def)
next
  fix n t
  assume "ndi_valid D docs valid n" "it_DocID (ndi_ops D) n < t" "t \<le> NO_MORE_DOCS"
  then show "moves (ndi_ops D) (ndi_docs docs) (ndi_valid D docs valid) n (it_Advance (ndi_ops D) t n) t"
    using ndi_Advance_first [of n t] by (simp add: ndi_ops_def)
qed (auto simp: ndi_ops_def ndi_valid_def ndi_NextDoc_def)

end

section \<open>Dynamic dispatch\<close>

text \<open>The iterators behind one interface value, with the dispatch of a method call.\<close>

datatype leaf_iter =
    BitSetIt BitSetIterator
  | DocBaseIt DocBaseBitSetIterator
  | IntArrayIt IntArrayDocIdSetIterator
  | FilteredIt FilteredDocIdSetIterator
  | RangeIt RangeDocIdSetIterator

primrec leaf_DocID :: "leaf_iter \<Rightarrow> int" where
  "leaf_DocID (BitSetIt b) = bsi_doc b"
| "leaf_DocID (DocBaseIt b) = dbi_doc b"
| "leaf_DocID (IntArrayIt b) = iai_doc b"
| "leaf_DocID (FilteredIt b) = fdi_doc b"
| "leaf_DocID (RangeIt b) = rdi_Doc b"

primrec leaf_NextDoc :: "(leaf_iter, int) act" where
  "leaf_NextDoc (BitSetIt b) = map_prod id BitSetIt (bsi_NextDoc b)"
| "leaf_NextDoc (DocBaseIt b) = map_prod id DocBaseIt (dbi_NextDoc b)"
| "leaf_NextDoc (IntArrayIt b) = map_prod id IntArrayIt (iai_NextDoc b)"
| "leaf_NextDoc (FilteredIt b) = map_prod id FilteredIt (fdi_NextDoc b)"
| "leaf_NextDoc (RangeIt b) = map_prod id RangeIt (rdi_NextDoc b)"

fun leaf_Advance :: "int \<Rightarrow> (leaf_iter, int) act" where
  "leaf_Advance t (BitSetIt b) = map_prod id BitSetIt (bsi_Advance t b)"
| "leaf_Advance t (DocBaseIt b) = map_prod id DocBaseIt (dbi_Advance t b)"
| "leaf_Advance t (IntArrayIt b) = map_prod id IntArrayIt (iai_Advance t b)"
| "leaf_Advance t (FilteredIt b) = map_prod id FilteredIt (fdi_Advance t b)"
| "leaf_Advance t (RangeIt b) = map_prod id RangeIt (rdi_Advance t b)"

primrec leaf_Cost :: "leaf_iter \<Rightarrow> int" where
  "leaf_Cost (BitSetIt b) = bsi_cost b"
| "leaf_Cost (DocBaseIt b) = dbi_cost b"
| "leaf_Cost (IntArrayIt b) = iai_length b"
| "leaf_Cost (FilteredIt b) = fdi_cost b"
| "leaf_Cost (RangeIt b) = rdi_maxDoc b - rdi_minDoc b"

definition leaf_ops :: "leaf_iter disi" where
  "leaf_ops = \<lparr>it_DocID = leaf_DocID, it_NextDoc = leaf_NextDoc, it_Advance = leaf_Advance, it_Cost = leaf_Cost\<rparr>"

primrec leaf_docs :: "leaf_iter \<Rightarrow> nat set" where
  "leaf_docs (BitSetIt b) = bsi_docs b"
| "leaf_docs (DocBaseIt b) = dbi_docs b"
| "leaf_docs (IntArrayIt b) = iai_docs_set b"
| "leaf_docs (FilteredIt b) = fdi_docs b"
| "leaf_docs (RangeIt b) = rdi_docs b"

primrec leaf_valid :: "leaf_iter \<Rightarrow> bool" where
  "leaf_valid (BitSetIt b) = bsi_valid b"
| "leaf_valid (DocBaseIt b) = dbi_valid b"
| "leaf_valid (IntArrayIt b) = iai_valid b"
| "leaf_valid (FilteredIt b) = fdi_valid b"
| "leaf_valid (RangeIt b) = rdi_valid b"

text \<open>The contract at one state; dispatch carries it over to the interface value.\<close>

definition obeys :: "'s disi \<Rightarrow> ('s \<Rightarrow> nat set) \<Rightarrow> ('s \<Rightarrow> bool) \<Rightarrow> 's \<Rightarrow> bool" where
  "obeys D docs valid s \<longleftrightarrow> valid s \<longrightarrow>
     (\<forall>k\<in>docs s. int k < NO_MORE_DOCS)
     \<and> (it_DocID D s = - 1 \<or> it_DocID D s = NO_MORE_DOCS \<or> (\<exists>k\<in>docs s. it_DocID D s = int k))
     \<and> (it_DocID D s < NO_MORE_DOCS \<longrightarrow> moves D docs valid s (it_NextDoc D s) (it_DocID D s + 1))
     \<and> (\<forall>t. it_DocID D s < t \<and> t \<le> NO_MORE_DOCS \<longrightarrow> moves D docs valid s (it_Advance D t s) t)"

lemma doc_iter_obeys: "doc_iter D docs valid \<longleftrightarrow> (\<forall>s. obeys D docs valid s)"
  unfolding doc_iter_def obeys_def by blast

lemma moves_dispatch:
  assumes "moves D docs valid s r t" "\<And>s. docs' (C s) = docs s" "\<And>s. valid' (C s) = valid s"
    "\<And>s. it_DocID D' (C s) = it_DocID D s"
  shows "moves D' docs' valid' (C s) (map_prod id C r) t"
  using assms by (auto simp: moves_def)

lemma obeys_dispatch:
  assumes "doc_iter D docs valid" "\<And>s. docs' (C s) = docs s" "\<And>s. valid' (C s) = valid s"
    "\<And>s. it_DocID D' (C s) = it_DocID D s" "\<And>s. it_NextDoc D' (C s) = map_prod id C (it_NextDoc D s)"
    "\<And>t s. it_Advance D' t (C s) = map_prod id C (it_Advance D t s)"
  shows "obeys D' docs' valid' (C s)"
proof -
  have "obeys D docs valid s" using assms(1) by (simp add: doc_iter_obeys)
  moreover note m = moves_dispatch [where docs' = docs' and C = C and valid' = valid' and D' = D' and D = D and docs = docs
      and valid = valid, OF _ assms(2-4)]
  ultimately show ?thesis by (simp add: obeys_def assms(2-6) m)
qed

interpretation lf: doc_iter leaf_ops leaf_docs leaf_valid
  unfolding doc_iter_obeys
proof
  fix s
  show "obeys leaf_ops leaf_docs leaf_valid s"
    by (cases s; simp only:)
      (rule obeys_dispatch [OF bsi.doc_iter_axioms] obeys_dispatch [OF dbi.doc_iter_axioms]
        obeys_dispatch [OF iai.doc_iter_axioms] obeys_dispatch [OF fdi.doc_iter_axioms] obeys_dispatch [OF rdi.doc_iter_axioms];
       simp add: leaf_ops_def bsi_ops_def dbi_ops_def iai_ops_def fdi_ops_def rdi_ops_def; fail)+
qed

interpretation nlf: doc_iter "ndi_ops leaf_ops" "ndi_docs leaf_docs" "ndi_valid leaf_ops leaf_docs leaf_valid"
  by (rule lf.not_doc_iter)

section \<open>Loading a bit set iterator into a bit set\<close>

lemma bsi_next_upTo:
  assumes "bsi_valid b" "0 \<le> start" "start < upTo" "upTo \<le> bsi_length b"
  shows "\<exists>n. bsi_next b start (min upTo (bsi_length b)) = Ok n \<and>
    (n = - 1 \<or> 0 \<le> n) \<and> (0 \<le> n \<and> n < upTo \<longrightarrow> nat n \<in> bsi_docs b \<and> start \<le> n) \<and>
    (\<forall>k\<in>bsi_docs b. start \<le> int k \<and> int k < upTo \<longrightarrow> 0 \<le> n \<and> n \<le> int k)"
proof -
  have key: "\<exists>n. next_in A (nat start) = n \<and> (n = - 1 \<or> 0 \<le> n) \<and> (0 \<le> n \<and> n < upTo \<longrightarrow> nat n \<in> A \<and> start \<le> n) \<and>
      (\<forall>k\<in>A. start \<le> int k \<and> int k < upTo \<longrightarrow> 0 \<le> n \<and> n \<le> int k)" for A
  proof (cases rule: first_doc_cases [of A start])
    case none
    then have "next_in A (nat start) = - 1" using assms(2) by (auto simp: next_in_def)
    then show ?thesis using none by auto
  next
    case (some m)
    then have "next_in A (nat start) = int m"
      using first_doc_next [of A start] by (auto simp: next_in_def split: if_splits)
    then show ?thesis using some by auto
  qed
  show ?thesis
  proof (cases "bv_NextSetBit (bsi_bits b)")
    case None
    let ?v = "bsi_bits b"
    have "bv_Get ?v i = Ok (nat i \<in> view_set ?v)" if "0 \<le> i" "i < bv_Length ?v" for i
      using assms(1) that by (force simp: bsi_valid_def view_ok_def view_set_def)
    then have "bsi_next b start (min upTo (bsi_length b)) = Ok (next_in {k \<in> bsi_docs b. int k < upTo} (nat start))"
      using scan_bits_next [of upTo "bv_Get ?v" "view_set ?v" start] assms None
      by (simp add: bsi_next_def bsi_docs_def bsi_valid_def min_def)
    then show ?thesis using key [of "{k \<in> bsi_docs b. int k < upTo}"] by auto
  next
    case (Some f)
    then have "bsi_next b start (min upTo (bsi_length b)) = Ok (next_in (bsi_docs b) (nat start))"
      using assms by (simp add: bsi_next_def bsi_docs_def bsi_valid_def view_ok_def)
    then show ?thesis using key [of "bsi_docs b"] by auto
  qed
qed

lemma bsi_into_adds:
  assumes "bsi_valid b" "0 \<le> start" "upTo \<le> bsi_length b" "0 \<le> offset" "upTo + offset \<le> fs_size dest" "fbs_wf dest"
  shows "\<exists>dest' b'. bsi_into upTo offset start dest b = Some (Ok (), dest', b') \<and> fbs_wf dest' \<and> fs_size dest' = fs_size dest
    \<and> fbs_set dest' = fbs_set dest \<union> {k + nat offset | k. k \<in> bsi_docs b \<and> start \<le> int k \<and> int k < upTo}"
  using assms(1-3,5,6)
proof (induction "nat (upTo - start)" arbitrary: start dest b rule: less_induct)
  case less
  let ?S = "\<lambda>st. {k + nat offset | k. k \<in> bsi_docs b \<and> st \<le> int k \<and> int k < upTo}"
  show ?case
  proof (cases "start \<ge> upTo")
    case True
    then have "fbs_set dest \<union> ?S start = fbs_set dest" by auto
    then show ?thesis using True less.prems by (subst bsi_into.simps) (simp del: Un_iff)
  next
    case False
    obtain n where n: "bsi_next b start (min upTo (bsi_length b)) = Ok n" "n = - 1 \<or> 0 \<le> n"
        "0 \<le> n \<and> n < upTo \<longrightarrow> nat n \<in> bsi_docs b \<and> start \<le> n"
        "\<forall>k\<in>bsi_docs b. start \<le> int k \<and> int k < upTo \<longrightarrow> 0 \<le> n \<and> n \<le> int k"
      using bsi_next_upTo [OF less.prems(1,2) _ less.prems(3)] False by auto
    show ?thesis
    proof (cases "n < 0 \<or> n \<ge> upTo")
      case True
      then have "fbs_set dest \<union> ?S start = fbs_set dest" using n(4) by fastforce
      then show ?thesis using True False n(1) less.prems by (subst bsi_into.simps) (simp del: Un_iff)
    next
      case nb: False
      then obtain m where m: "n = int m" "m \<in> bsi_docs b" "start \<le> int m" using n(2,3) by (metis nat_int not_less zero_le_imp_eq_int)
      have o: "int m + offset = int (m + nat offset)" using assms(4) by simp
      have lt: "int (m + nat offset) < fs_size dest" using nb m(1) assms(4) less.prems(4) by simp
      obtain d1 where d1: "fs_Set (int m + offset) dest = Ok d1" "fbs_wf d1" "fs_size d1 = fs_size dest"
          "fbs_set d1 = insert (m + nat offset) (fbs_set dest)"
        using fs_Set_yields [OF less.prems(5) lt] unfolding fs_yields_def o by blast
      let ?b1 = "b\<lparr>bsi_doc := n\<rparr>"
      have b1: "bsi_valid ?b1" "bsi_docs ?b1 = bsi_docs b" using less.prems(1) m by (auto simp: bsi_valid_def bsi_docs_def)
      have "\<exists>dest' b'. bsi_into upTo offset (int m + 1) d1 ?b1 = Some (Ok (), dest', b') \<and> fbs_wf dest' \<and> fs_size dest' = fs_size d1
          \<and> fbs_set dest' = fbs_set d1 \<union> {k + nat offset | k. k \<in> bsi_docs ?b1 \<and> int m + 1 \<le> int k \<and> int k < upTo}"
        by (rule less.hyps) (use False nb m(1,3) less.prems b1(1) d1 in auto)
      then obtain d2 b2 where r: "bsi_into upTo offset (int m + 1) d1 ?b1 = Some (Ok (), d2, b2)" "fbs_wf d2" "fs_size d2 = fs_size d1"
          "fbs_set d2 = fbs_set d1 \<union> ?S (int m + 1)" by (auto simp: b1(2))
      have "k \<in> bsi_docs b \<and> start \<le> int k \<and> int k < upTo \<longleftrightarrow> k = m \<or> k \<in> bsi_docs b \<and> int m + 1 \<le> int k \<and> int k < upTo" for k
      proof (cases "k = m")
        case False
        then have "k \<in> bsi_docs b \<Longrightarrow> start \<le> int k \<Longrightarrow> int k < upTo \<Longrightarrow> int m + 1 \<le> int k" using n(4) m(1) by fastforce
        then show ?thesis using False m(3) by linarith
      qed (use m nb in simp)
      then have "?S start = {k + nat offset | k. k = m \<or> k \<in> bsi_docs b \<and> int m + 1 \<le> int k \<and> int k < upTo}" by (simp only:)
      also have "\<dots> = insert (m + nat offset) (?S (int m + 1))" by auto
      finally have "?S start = insert (m + nat offset) (?S (int m + 1))" .
      then have "fbs_set d2 = fbs_set dest \<union> ?S start" using r(4) d1(4) by simp
      moreover have "bsi_into upTo offset start dest b = Some (Ok (), d2, b2)"
        using False nb n(1) d1(1) r(1) m(1) by (subst bsi_into.simps) simp
      ultimately show ?thesis using r(2,3) d1(3) by simp
    qed
  qed
qed

lemma docs_from_0: "docs_from A 0 = sorted_list_of_set A"
proof -
  have "{k \<in> A. 0 \<le> int k} = A" by auto
  then show ?thesis by (simp only: docs_from_def)
qed

lemma docs_from_after: "docs_from A (d + 1) = sorted_list_of_set {k \<in> A. d < int k}"
  by (simp only: docs_from_def zless_iff_Suc_zadd add1_zle_eq)

section \<open>Properties\<close>

text \<open>
  C25: Every doc-id iterator keeps the contract of the interface.  For an iterator over a bit
  set, a bit set with a doc base, an array of doc ids, a predicate or a range, in a valid
  state before the end: \<open>Advance(t)\<close> for a target after the current document moves to the
  first document of its set at or after \<open>t\<close>, or to \<open>NO_MORE_DOCS\<close> when there is none (the
  array iterator by exponential and binary search); \<open>SlowAdvance\<close> ends with the same
  answer; and draining the iterator with \<open>NextDoc\<close> ends and yields the remaining documents
  once each in increasing order.
\<close>

theorem doc_iterators_contract:
  assumes "leaf_valid s" "leaf_DocID s < t" "t \<le> NO_MORE_DOCS" "card (leaf_docs s) < n"
  shows "(\<exists>s'. leaf_Advance t s = (Ok (first_doc (leaf_docs s) t), s') \<and> leaf_valid s' \<and> leaf_docs s' = leaf_docs s
      \<and> leaf_DocID s' = first_doc (leaf_docs s) t)
    \<and> (\<exists>s'. SlowAdvance leaf_ops t s = Some (Ok (first_doc (leaf_docs s) t), s') \<and> leaf_DocID s' = first_doc (leaf_docs s) t)
    \<and> it_drain leaf_ops n s = Ok (map int (sorted_list_of_set {k \<in> leaf_docs s. leaf_DocID s < int k}))"
proof -
  have id: "it_DocID leaf_ops s = leaf_DocID s" for s by (simp add: leaf_ops_def)
  have fin: "finite (leaf_docs s)" by (rule lf.finite_docs [OF assms(1)])
  have "card {k \<in> leaf_docs s. leaf_DocID s < int k} \<le> card (leaf_docs s)" using fin by (intro card_mono) auto
  then have "it_drain leaf_ops n s = Ok (map int (sorted_list_of_set {k \<in> leaf_docs s. leaf_DocID s < int k}))"
    using lf.drain_enumerates [OF assms(1), of n] assms(2-4) fin by (simp add: id docs_from_after)
  moreover have "\<exists>s'. SlowAdvance leaf_ops t s = Some (Ok (first_doc (leaf_docs s) t), s') \<and> leaf_DocID s' = first_doc (leaf_docs s) t"
    using lf.slow_advance [OF assms(1), of t] assms(2,3) by (auto simp: id)
  moreover have "\<exists>s'. leaf_Advance t s = (Ok (first_doc (leaf_docs s) t), s') \<and> leaf_valid s' \<and> leaf_docs s' = leaf_docs s
      \<and> leaf_DocID s' = first_doc (leaf_docs s) t"
    using lf.advance_moves [OF assms(1), of t] assms(2,3) by (auto simp: moves_def id) (simp_all add: leaf_ops_def)
  ultimately show ?thesis by blast
qed

lemma sample_array_valid:
  "leaf_valid (IntArrayIt \<lparr>iai_docs = [3, 7, 20, 2147483647], iai_length = 3, iai_i = 0, iai_doc = - 1\<rparr>)"
  by (simp add: iai_valid_def iai_shape_def NO_MORE_DOCS_def)

lemma sample_array_docs:
  "leaf_docs (IntArrayIt \<lparr>iai_docs = [3, 7, 20, 2147483647], iai_length = 3, iai_i = 0, iai_doc = - 1\<rparr>) = {3, 7, 20}"
  by (simp add: iai_docs_set_def numeral_3_eq_3)

theorem doc_iterators_contract_witness:
  "it_drain leaf_ops 4 (IntArrayIt \<lparr>iai_docs = [3, 7, 20, 2147483647], iai_length = 3, iai_i = 0, iai_doc = - 1\<rparr>)
     = Ok [3, 7, 20]
   \<and> fst (leaf_Advance 8 (IntArrayIt \<lparr>iai_docs = [3, 7, 20, 2147483647], iai_length = 3, iai_i = 0, iai_doc = - 1\<rparr>)) = Ok 20"
proof -
  have "fst (leaf_Advance 8 (IntArrayIt \<lparr>iai_docs = [3, 7, 20, 2147483647], iai_length = 3, iai_i = 0, iai_doc = - 1\<rparr>)) = Ok 20"
    by code_simp
  then show ?thesis
    using doc_iterators_contract [OF sample_array_valid, of 8 4] sample_array_docs by (simp add: NO_MORE_DOCS_def)
qed

text \<open>
  C40: The complement.  The iterator of \<open>NotDocIdSet\<close> over a fresh iterator, drained with
  \<open>NextDoc\<close>, yields exactly the documents below \<open>maxDoc\<close> that the wrapped iterator does not
  have, once each in increasing order, and ends.
\<close>

theorem not_doc_id_set_complement:
  assumes "leaf_valid s" "leaf_DocID s = - 1" "maxDoc \<le> NO_MORE_DOCS" "nat maxDoc < n"
  shows "it_drain (ndi_ops leaf_ops) n (not_Iterator maxDoc s)
    = Ok (map int (sorted_list_of_set ({k. int k < maxDoc} - leaf_docs s)))"
proof -
  let ?n = "not_Iterator maxDoc s" and ?A = "{k. int k < maxDoc} - leaf_docs s"
  have v: "ndi_valid leaf_ops leaf_docs leaf_valid ?n" and d: "ndi_docs leaf_docs ?n = ?A"
    using assms by (auto simp: ndi_valid_def not_Iterator_def ndi_docs_def leaf_ops_def)
  have "card ?A \<le> card {..<nat maxDoc}" by (rule card_mono) auto
  moreover have "finite ?A" by (rule finite_subset [of _ "{..<nat maxDoc}"]) auto
  moreover have "it_DocID (ndi_ops leaf_ops) ?n = - 1" by (simp add: not_Iterator_def ndi_ops_def)
  ultimately show ?thesis using nlf.drain_enumerates [OF v, of n] assms(4)
    by (simp add: d docs_from_0 NO_MORE_DOCS_def)
qed

theorem not_doc_id_set_complement_witness:
  "it_drain (ndi_ops leaf_ops) 6
     (not_Iterator 5 (IntArrayIt \<lparr>iai_docs = [3, 7, 20, 2147483647], iai_length = 3, iai_i = 0, iai_doc = - 1\<rparr>))
   = Ok (map int (sorted_list_of_set ({k. int k < 5} - {3, 7, 20})))"
  using not_doc_id_set_complement [OF sample_array_valid, of 5 6] sample_array_docs by (simp add: NO_MORE_DOCS_def)

text \<open>
  Collecting documents into a bit set.  The default \<open>IntoBitSet\<close>, called on an iterator
  that stands on a document, ends, adds exactly the documents from there up to \<open>upTo\<close>,
  shifted down by the offset, and leaves the iterator on the first document at or after
  \<open>upTo\<close>; \<open>OrIterator\<close> on a fresh iterator adds all its documents and exhausts it.
\<close>

theorem into_bit_set_adds:
  assumes "leaf_valid s" "0 \<le> leaf_DocID s" "0 \<le> offset" "offset \<le> leaf_DocID s" "leaf_DocID s \<le> upTo" "upTo \<le> NO_MORE_DOCS"
    "upTo - offset \<le> fs_size b" "fbs_wf b"
    "leaf_valid u" "leaf_DocID u = - 1" "\<forall>k\<in>leaf_docs u. int k < fs_size b"
  shows "(\<exists>b' s'. DefaultIntoBitSet leaf_ops upTo b offset s = Some (Ok (), b', s')
      \<and> fbs_set b' = fbs_set b \<union> {nat (int k - offset) | k. k \<in> leaf_docs s \<and> leaf_DocID s \<le> int k \<and> int k < upTo}
      \<and> leaf_DocID s' = first_doc (leaf_docs s) upTo)
    \<and> (\<exists>b' u'. OrIterator leaf_ops b u = Some (Ok (), b', u') \<and> fbs_set b' = fbs_set b \<union> leaf_docs u
      \<and> leaf_DocID u' = NO_MORE_DOCS)"
proof -
  have id: "it_DocID leaf_ops s = leaf_DocID s" for s by (simp add: leaf_ops_def)
  have all: "{k \<in> leaf_docs u. - 1 < int k} = leaf_docs u" by auto
  have "\<exists>b' s'. DefaultIntoBitSet leaf_ops upTo b offset s = Some (Ok (), b', s')
      \<and> fbs_set b' = fbs_set b \<union> {nat (int k - offset) | k. k \<in> leaf_docs s \<and> leaf_DocID s \<le> int k \<and> int k < upTo}
      \<and> leaf_DocID s' = first_doc (leaf_docs s) upTo"
    using lf.default_into_adds [of s offset upTo b] assms(1-8) by (auto simp: id DefaultIntoBitSet_def max_def split: if_splits)
  moreover have "\<exists>b' u'. OrIterator leaf_ops b u = Some (Ok (), b', u') \<and> fbs_set b' = fbs_set b \<union> leaf_docs u
      \<and> leaf_DocID u' = NO_MORE_DOCS"
    using lf.or_iterator_adds [of u b] assms(8-11) unfolding id by (auto simp: NO_MORE_DOCS_def all)
  ultimately show ?thesis by blast
qed

theorem into_bit_set_adds_witness:
  "\<exists>b' u'. OrIterator leaf_ops \<lparr>fs_bits = [5, 1], fs_size = 70\<rparr>
      (IntArrayIt \<lparr>iai_docs = [3, 7, 20, 2147483647], iai_length = 3, iai_i = 0, iai_doc = - 1\<rparr>) = Some (Ok (), b', u')
    \<and> fbs_set b' = fbs_set \<lparr>fs_bits = [5, 1], fs_size = 70\<rparr> \<union> {3, 7, 20} \<and> leaf_DocID u' = NO_MORE_DOCS"
proof -
  have v: "leaf_valid (RangeIt \<lparr>rdi_Doc = 2, rdi_minDoc = 2, rdi_maxDoc = 9\<rparr>)"
    by (simp add: rdi_valid_def rdi_docs_def NO_MORE_DOCS_def)
  show ?thesis
    using into_bit_set_adds [OF v, of 0 9 "\<lparr>fs_bits = [5, 1], fs_size = 70\<rparr>"
        "IntArrayIt \<lparr>iai_docs = [3, 7, 20, 2147483647], iai_length = 3, iai_i = 0, iai_doc = - 1\<rparr>"]
      sample_sets(1) sample_array_valid sample_array_docs
    by (simp add: NO_MORE_DOCS_def mask_eq_exp_minus_1)
qed

text \<open>
  \<open>IntoBitSet\<close> of the bit set iterator.  The interface loads the documents from the
  current one on, shifted down by the offset; the override of \<open>BitSetIterator\<close> starts after
  the current document and shifts up: it adds \<open>k + offset\<close> for the documents \<open>k\<close> strictly
  after the current one and before \<open>upTo\<close>.
\<close>

theorem bit_set_iterator_into:
  assumes "bsi_valid b" "bsi_doc b < upTo" "upTo \<le> bsi_length b" "0 \<le> offset" "upTo + offset \<le> fs_size dest" "fbs_wf dest"
  shows "\<exists>dest' b'. bsi_IntoBitSet upTo dest offset b = Some (Ok (), dest', b') \<and> fbs_wf dest' \<and> fs_size dest' = fs_size dest
    \<and> fbs_set dest' = fbs_set dest \<union> {k + nat offset | k. k \<in> bsi_docs b \<and> bsi_doc b < int k \<and> int k < upTo}"
proof -
  have "- 1 \<le> bsi_doc b" using assms(1) by (auto simp: bsi_valid_def NO_MORE_DOCS_def)
  then show ?thesis using bsi_into_adds [OF assms(1), of "bsi_doc b + 1" upTo offset dest] assms(2-6)
    by (simp add: bsi_IntoBitSet_def max_def add1_zle_eq)
qed

theorem bit_set_iterator_into_witness:
  "\<exists>dest' b'. bsi_IntoBitSet 10 \<lparr>fs_bits = [5, 1], fs_size = 70\<rparr> 1
       \<lparr>bsi_bits = fixed_view \<lparr>fs_bits = [5, 1], fs_size = 70\<rparr>, bsi_length = 70, bsi_doc = 0, bsi_cost = 3\<rparr> = Some (Ok (), dest', b')
    \<and> fbs_set dest' = fbs_set \<lparr>fs_bits = [5, 1], fs_size = 70\<rparr> \<union>
        {k + 1 | k. k \<in> fbs_set \<lparr>fs_bits = [5, 1], fs_size = 70\<rparr> \<and> 0 < int k \<and> int k < 10}"
proof -
  let ?fs = "\<lparr>fs_bits = [5, 1], fs_size = 70\<rparr>"
  let ?b = "\<lparr>bsi_bits = fixed_view ?fs, bsi_length = 70, bsi_doc = 0, bsi_cost = 3\<rparr>"
  have wf: "fbs_wf ?fs" using sample_sets(1) by (simp add: mask_eq_exp_minus_1)
  have vs: "view_ok (fixed_view ?fs)" "view_set (fixed_view ?fs) = fbs_set ?fs"
    using fixed_view_ok [OF wf] by (simp_all add: NO_MORE_DOCS_def)
  have "0 \<in> fbs_set ?fs" by (simp add: fbs_set_def wbit_def)
  then have "bsi_valid ?b" using vs by (simp add: bsi_valid_def bsi_docs_def fixed_view_def fs_Length_def)
  then show ?thesis using bit_set_iterator_into [of ?b 10 1 ?fs] wf vs(2) by (simp add: bsi_docs_def) blast
qed

end
