(* ===== verification/Conjunctions.thy ===== *)
theory Conjunctions
  imports Doc_Iterators
begin

text \<open>
  \<^verbatim>\<open>search/conjunction_disi.go\<close>: the iterators over the documents that all of several
  iterators have.  \<open>conjunctionDISI\<close> leapfrogs over its sub-iterators until they agree,
  \<open>bitSetConjunctionDISI\<close> filters a lead iterator by random access into bit sets, and
  \<open>createConjunction\<close> chooses between them by cost.

  A conjunction's loops over arbitrary sub-iterators need not end, so these iterators have
  partial operations: the record \<open>pdisi\<close> is the interface with \<open>None\<close> for a call that does
  not return.  The locale \<open>pdoc_iter\<close> is the contract of \<open>Doc_Iterators\<close> for it; it promises
  that every call returns.  Inside it both conjunctions are shown to keep the contract, for
  the intersection of the sets.  The sub-iterators of one conjunction are distinct objects.
\<close>

section \<open>Iterators whose calls may not return\<close>

record 's pdisi =
  pd_DocID :: "'s \<Rightarrow> int"
  pd_NextDoc :: "'s \<Rightarrow> (int outcome \<times> 's) option"
  pd_Advance :: "int \<Rightarrow> 's \<Rightarrow> (int outcome \<times> 's) option"
  pd_Cost :: "'s \<Rightarrow> int"

definition returning :: "'s disi \<Rightarrow> 's pdisi" where
  "returning D = \<lparr>pd_DocID = it_DocID D, pd_NextDoc = (\<lambda>s. Some (it_NextDoc D s)),
     pd_Advance = (\<lambda>t s. Some (it_Advance D t s)), pd_Cost = it_Cost D\<rparr>"

section \<open>The leapfrog conjunction\<close>

record 's conjunctionDISI =
  cj_lead1 :: 's
  cj_lead2 :: 's
  cj_others :: "'s list"

definition newConjunctionDISI :: "'s list \<Rightarrow> 's conjunctionDISI outcome" where
  "newConjunctionDISI iterators =
     (case iterators of
        a # b # others \<Rightarrow> Ok \<lparr>cj_lead1 = a, cj_lead2 = b, cj_others = others\<rparr>
      | _ \<Rightarrow> Panic ''index out of range'')"

text \<open>
  One pass over the remaining iterators: \<open>Ok (Some next)\<close> when one of them is ahead, at
  \<open>next\<close>; \<open>Ok None\<close> when all are on \<open>doc\<close>.
\<close>

fun adv_others :: "'s pdisi \<Rightarrow> int \<Rightarrow> 's list \<Rightarrow> (int option outcome \<times> 's list) option" where
  "adv_others D doc [] = Some (Ok None, [])"
| "adv_others D doc (x # xs) =
     (if pd_DocID D x < doc
      then case pd_Advance D doc x of
             None \<Rightarrow> None
           | Some (Ok next, x') \<Rightarrow>
               (if next > doc then Some (Ok (Some next), x' # xs)
                else map_option (map_prod id (\<lambda>xs'. x' # xs')) (adv_others D doc xs))
           | Some (Err e, x') \<Rightarrow> Some (Err e, x' # xs)
           | Some (Panic p, x') \<Rightarrow> Some (Panic p, x' # xs)
      else map_option (map_prod id (\<lambda>xs'. x # xs')) (adv_others D doc xs))"

text \<open>One round of the loop of \<open>doNext\<close> restarts at a later document or returns.\<close>

datatype 'c round = Restart int 'c | Return "int outcome" 'c

definition conj_others :: "'s pdisi \<Rightarrow> int \<Rightarrow> 's conjunctionDISI \<Rightarrow> 's conjunctionDISI round option" where
  "conj_others D doc c =
     (case adv_others D doc (cj_others c) of
        None \<Rightarrow> None
      | Some (r, others) \<Rightarrow>
          (let c1 = c\<lparr>cj_others := others\<rparr>
           in case r of
                Ok None \<Rightarrow> Some (Return (Ok doc) c1)
              | Ok (Some next) \<Rightarrow>
                  (case pd_Advance D next (cj_lead1 c1) of
                     None \<Rightarrow> None
                   | Some (Ok doc', l1) \<Rightarrow> Some (Restart doc' (c1\<lparr>cj_lead1 := l1\<rparr>))
                   | Some (Err e, l1) \<Rightarrow> Some (Return (Err e) (c1\<lparr>cj_lead1 := l1\<rparr>))
                   | Some (Panic p, l1) \<Rightarrow> Some (Return (Panic p) (c1\<lparr>cj_lead1 := l1\<rparr>)))
              | Err e \<Rightarrow> Some (Return (Err e) c1)
              | Panic p \<Rightarrow> Some (Return (Panic p) c1)))"

definition conj_round :: "'s pdisi \<Rightarrow> int \<Rightarrow> 's conjunctionDISI \<Rightarrow> 's conjunctionDISI round option" where
  "conj_round D doc c =
     (case pd_Advance D doc (cj_lead2 c) of
        None \<Rightarrow> None
      | Some (Ok next2, l2) \<Rightarrow>
          (let c2 = c\<lparr>cj_lead2 := l2\<rparr>
           in if next2 \<noteq> doc
              then case pd_Advance D next2 (cj_lead1 c2) of
                     None \<Rightarrow> None
                   | Some (Ok doc', l1) \<Rightarrow>
                       (if doc' \<noteq> next2 then Some (Restart doc' (c2\<lparr>cj_lead1 := l1\<rparr>))
                        else conj_others D doc' (c2\<lparr>cj_lead1 := l1\<rparr>))
                   | Some (Err e, l1) \<Rightarrow> Some (Return (Err e) (c2\<lparr>cj_lead1 := l1\<rparr>))
                   | Some (Panic p, l1) \<Rightarrow> Some (Return (Panic p) (c2\<lparr>cj_lead1 := l1\<rparr>))
              else conj_others D doc c2)
      | Some (Err e, l2) \<Rightarrow> Some (Return (Err e) (c\<lparr>cj_lead2 := l2\<rparr>))
      | Some (Panic p, l2) \<Rightarrow> Some (Return (Panic p) (c\<lparr>cj_lead2 := l2\<rparr>)))"

partial_function (option) conj_doNext ::
  "'s pdisi \<Rightarrow> int \<Rightarrow> 's conjunctionDISI \<Rightarrow> (int outcome \<times> 's conjunctionDISI) option" where
  "conj_doNext D doc c =
     (case conj_round D doc c of
        None \<Rightarrow> None
      | Some (Restart doc' c') \<Rightarrow> conj_doNext D doc' c'
      | Some (Return r c') \<Rightarrow> Some (r, c'))"

definition conj_NextDoc :: "'s pdisi \<Rightarrow> 's conjunctionDISI \<Rightarrow> (int outcome \<times> 's conjunctionDISI) option" where
  "conj_NextDoc D c =
     (case pd_NextDoc D (cj_lead1 c) of
        None \<Rightarrow> None
      | Some (Ok doc, l1) \<Rightarrow> conj_doNext D doc (c\<lparr>cj_lead1 := l1\<rparr>)
      | Some (Err e, l1) \<Rightarrow> Some (Err e, c\<lparr>cj_lead1 := l1\<rparr>)
      | Some (Panic p, l1) \<Rightarrow> Some (Panic p, c\<lparr>cj_lead1 := l1\<rparr>))"

definition conj_Advance :: "'s pdisi \<Rightarrow> int \<Rightarrow> 's conjunctionDISI \<Rightarrow> (int outcome \<times> 's conjunctionDISI) option" where
  "conj_Advance D target c =
     (case pd_Advance D target (cj_lead1 c) of
        None \<Rightarrow> None
      | Some (Ok doc, l1) \<Rightarrow> conj_doNext D doc (c\<lparr>cj_lead1 := l1\<rparr>)
      | Some (Err e, l1) \<Rightarrow> Some (Err e, c\<lparr>cj_lead1 := l1\<rparr>)
      | Some (Panic p, l1) \<Rightarrow> Some (Panic p, c\<lparr>cj_lead1 := l1\<rparr>))"

definition conj_ops :: "'s pdisi \<Rightarrow> 's conjunctionDISI pdisi" where
  "conj_ops D = \<lparr>pd_DocID = (\<lambda>c. pd_DocID D (cj_lead1 c)), pd_NextDoc = conj_NextDoc D, pd_Advance = conj_Advance D,
     pd_Cost = (\<lambda>c. pd_Cost D (cj_lead1 c))\<rparr>"

section \<open>The bit set conjunction\<close>

text \<open>\<open>bitSets[i]\<close> of the source is the \<open>Bits\<close> of \<open>bitSetIters[i]\<close>.\<close>

record 'l bitSetConjunctionDISI =
  bc_lead :: 'l
  bc_bitSetIters :: "BitSetIterator list"
  bc_minLength :: int

definition newBitSetConjunctionDISI :: "'l \<Rightarrow> BitSetIterator list \<Rightarrow> 'l bitSetConjunctionDISI" where
  "newBitSetConjunctionDISI lead bsIters =
     \<lparr>bc_lead = lead, bc_bitSetIters = sort_key bsi_cost bsIters,
      bc_minLength = foldl (\<lambda>m it. min m (bv_Length (bsi_bits it))) (2 ^ 63 - 1) bsIters\<rparr>"

fun all_match :: "int \<Rightarrow> BitSetIterator list \<Rightarrow> bool outcome" where
  "all_match doc [] = Ok True"
| "all_match doc (b # bs) = bind_out (bv_Get (bsi_bits b) doc) (\<lambda>m. if m then all_match doc bs else Ok False)"

partial_function (option) bc_doNext ::
  "'l pdisi \<Rightarrow> int \<Rightarrow> 'l bitSetConjunctionDISI \<Rightarrow> (int outcome \<times> 'l bitSetConjunctionDISI) option" where
  "bc_doNext L doc c =
     (if doc \<ge> bc_minLength c
      then if doc \<noteq> NO_MORE_DOCS
           then case pd_Advance L NO_MORE_DOCS (bc_lead c) of
                  None \<Rightarrow> None
                | Some (Ok _, l) \<Rightarrow> Some (Ok NO_MORE_DOCS, c\<lparr>bc_lead := l\<rparr>)
                | Some (Err e, l) \<Rightarrow> Some (Err e, c\<lparr>bc_lead := l\<rparr>)
                | Some (Panic p, l) \<Rightarrow> Some (Panic p, c\<lparr>bc_lead := l\<rparr>)
           else Some (Ok NO_MORE_DOCS, c)
      else case all_match doc (bc_bitSetIters c) of
             Ok allMatch \<Rightarrow>
               (if allMatch then Some (Ok doc, c\<lparr>bc_bitSetIters := map (bsi_SetDocId doc) (bc_bitSetIters c)\<rparr>)
                else case pd_NextDoc L (bc_lead c) of
                  None \<Rightarrow> None
                | Some (Ok doc', l) \<Rightarrow> bc_doNext L doc' (c\<lparr>bc_lead := l\<rparr>)
                | Some (Err e, l) \<Rightarrow> Some (Err e, c\<lparr>bc_lead := l\<rparr>)
                | Some (Panic p, l) \<Rightarrow> Some (Panic p, c\<lparr>bc_lead := l\<rparr>))
           | Err e \<Rightarrow> Some (Err e, c)
           | Panic p \<Rightarrow> Some (Panic p, c))"

definition bc_NextDoc :: "'l pdisi \<Rightarrow> 'l bitSetConjunctionDISI \<Rightarrow> (int outcome \<times> 'l bitSetConjunctionDISI) option" where
  "bc_NextDoc L c =
     (case pd_NextDoc L (bc_lead c) of
        None \<Rightarrow> None
      | Some (Ok doc, l) \<Rightarrow> bc_doNext L doc (c\<lparr>bc_lead := l\<rparr>)
      | Some (Err e, l) \<Rightarrow> Some (Err e, c\<lparr>bc_lead := l\<rparr>)
      | Some (Panic p, l) \<Rightarrow> Some (Panic p, c\<lparr>bc_lead := l\<rparr>))"

definition bc_Advance :: "'l pdisi \<Rightarrow> int \<Rightarrow> 'l bitSetConjunctionDISI \<Rightarrow> (int outcome \<times> 'l bitSetConjunctionDISI) option" where
  "bc_Advance L target c =
     (case pd_Advance L target (bc_lead c) of
        None \<Rightarrow> None
      | Some (Ok doc, l) \<Rightarrow> bc_doNext L doc (c\<lparr>bc_lead := l\<rparr>)
      | Some (Err e, l) \<Rightarrow> Some (Err e, c\<lparr>bc_lead := l\<rparr>)
      | Some (Panic p, l) \<Rightarrow> Some (Panic p, c\<lparr>bc_lead := l\<rparr>))"

definition bc_ops :: "'l pdisi \<Rightarrow> 'l bitSetConjunctionDISI pdisi" where
  "bc_ops L = \<lparr>pd_DocID = (\<lambda>c. pd_DocID L (bc_lead c)), pd_NextDoc = bc_NextDoc L, pd_Advance = bc_Advance L,
     pd_Cost = (\<lambda>c. pd_Cost L (bc_lead c))\<rparr>"

section \<open>The factory\<close>

text \<open>
  The iterator \<open>createConjunction\<close> returns, without two-phase iterators: a single iterator or a
  leapfrog, alone or as the lead of a bit set conjunction.
\<close>

datatype lead_iter = Single leaf_iter | Leapfrog "leaf_iter conjunctionDISI"

datatype conjunction = Lead lead_iter | WithBits "lead_iter bitSetConjunctionDISI"

definition map_it :: "('s \<Rightarrow> 't) \<Rightarrow> (int outcome \<times> 's) option \<Rightarrow> (int outcome \<times> 't) option" where
  "map_it C r = map_option (map_prod id C) r"

primrec lead_DocID :: "lead_iter \<Rightarrow> int" where
  "lead_DocID (Single s) = leaf_DocID s"
| "lead_DocID (Leapfrog c) = pd_DocID (conj_ops (returning leaf_ops)) c"

primrec lead_NextDoc :: "lead_iter \<Rightarrow> (int outcome \<times> lead_iter) option" where
  "lead_NextDoc (Single s) = map_it Single (Some (leaf_NextDoc s))"
| "lead_NextDoc (Leapfrog c) = map_it Leapfrog (conj_NextDoc (returning leaf_ops) c)"

fun lead_Advance :: "int \<Rightarrow> lead_iter \<Rightarrow> (int outcome \<times> lead_iter) option" where
  "lead_Advance t (Single s) = map_it Single (Some (leaf_Advance t s))"
| "lead_Advance t (Leapfrog c) = map_it Leapfrog (conj_Advance (returning leaf_ops) t c)"

primrec lead_Cost :: "lead_iter \<Rightarrow> int" where
  "lead_Cost (Single s) = leaf_Cost s"
| "lead_Cost (Leapfrog c) = pd_Cost (conj_ops (returning leaf_ops)) c"

definition lead_ops :: "lead_iter pdisi" where
  "lead_ops = \<lparr>pd_DocID = lead_DocID, pd_NextDoc = lead_NextDoc, pd_Advance = lead_Advance, pd_Cost = lead_Cost\<rparr>"

primrec cn_DocID :: "conjunction \<Rightarrow> int" where
  "cn_DocID (Lead l) = lead_DocID l"
| "cn_DocID (WithBits c) = pd_DocID (bc_ops lead_ops) c"

primrec cn_NextDoc :: "conjunction \<Rightarrow> (int outcome \<times> conjunction) option" where
  "cn_NextDoc (Lead l) = map_it Lead (lead_NextDoc l)"
| "cn_NextDoc (WithBits c) = map_it WithBits (bc_NextDoc lead_ops c)"

fun cn_Advance :: "int \<Rightarrow> conjunction \<Rightarrow> (int outcome \<times> conjunction) option" where
  "cn_Advance t (Lead l) = map_it Lead (lead_Advance t l)"
| "cn_Advance t (WithBits c) = map_it WithBits (bc_Advance lead_ops t c)"

primrec cn_Cost :: "conjunction \<Rightarrow> int" where
  "cn_Cost (Lead l) = lead_Cost l"
| "cn_Cost (WithBits c) = pd_Cost (bc_ops lead_ops) c"

definition cn_ops :: "conjunction pdisi" where
  "cn_ops = \<lparr>pd_DocID = cn_DocID, pd_NextDoc = cn_NextDoc, pd_Advance = cn_Advance, pd_Cost = cn_Cost\<rparr>"

text \<open>The bit set iterators that are not the cheapest go to the bit set path.\<close>

fun promoted :: "int \<Rightarrow> leaf_iter \<Rightarrow> bool" where
  "promoted minCost (BitSetIt b) = (bsi_cost b > minCost)"
| "promoted minCost _ = False"

fun bit_iters :: "int \<Rightarrow> leaf_iter list \<Rightarrow> BitSetIterator list" where
  "bit_iters minCost [] = []"
| "bit_iters minCost (BitSetIt b # its) =
     (if bsi_cost b > minCost then b # bit_iters minCost its else bit_iters minCost its)"
| "bit_iters minCost (_ # its) = bit_iters minCost its"

definition createConjunction :: "leaf_iter list \<Rightarrow> conjunction outcome" where
  "createConjunction allIterators =
     (case allIterators of
        [] \<Rightarrow> Panic ''search: createConjunction requires at least one iterator''
      | first # _ \<Rightarrow>
          if list_ex (\<lambda>it. leaf_DocID it \<noteq> leaf_DocID first) allIterators
          then Panic ''search: sub-iterators of ConjunctionDISI are not on the same document''
          else let minCost = foldl (\<lambda>m it. min m (leaf_Cost it)) (2 ^ 62 - 1) allIterators;
                   bitSetIters = bit_iters minCost allIterators;
                   iterators = sort_key leaf_Cost (filter (\<lambda>it. \<not> promoted minCost it) allIterators)
               in bind_out
                    (case iterators of
                       [it] \<Rightarrow> Ok (Single it)
                     | _ \<Rightarrow> bind_out (newConjunctionDISI iterators) (\<lambda>c. Ok (Leapfrog c)))
                    (\<lambda>disi. Ok (if bitSetIters \<noteq> [] then WithBits (newBitSetConjunctionDISI disi bitSetIters) else Lead disi)))"

section \<open>The contract\<close>

definition pmoves :: "'s pdisi \<Rightarrow> ('s \<Rightarrow> nat set) \<Rightarrow> ('s \<Rightarrow> bool) \<Rightarrow> 's \<Rightarrow> (int outcome \<times> 's) option \<Rightarrow> int \<Rightarrow> bool" where
  "pmoves D docs valid s r t \<longleftrightarrow> (\<exists>s'. r = Some (Ok (first_doc (docs s) t), s') \<and> valid s' \<and> docs s' = docs s
     \<and> pd_DocID D s' = first_doc (docs s) t)"

definition pobeys :: "'s pdisi \<Rightarrow> ('s \<Rightarrow> nat set) \<Rightarrow> ('s \<Rightarrow> bool) \<Rightarrow> 's \<Rightarrow> bool" where
  "pobeys D docs valid s \<longleftrightarrow> valid s \<longrightarrow>
     (\<forall>k\<in>docs s. int k < NO_MORE_DOCS)
     \<and> (pd_DocID D s = - 1 \<or> pd_DocID D s = NO_MORE_DOCS \<or> (\<exists>k\<in>docs s. pd_DocID D s = int k))
     \<and> (pd_DocID D s < NO_MORE_DOCS \<longrightarrow> pmoves D docs valid s (pd_NextDoc D s) (pd_DocID D s + 1))
     \<and> (\<forall>t. pd_DocID D s < t \<and> t \<le> NO_MORE_DOCS \<longrightarrow> pmoves D docs valid s (pd_Advance D t s) t)"

lemma pobeys_dispatch:
  assumes "\<And>s. pobeys D docs valid s" "\<And>s. docs' (C s) = docs s" "\<And>s. valid' (C s) = valid s"
    "\<And>s. pd_DocID D' (C s) = pd_DocID D s" "\<And>s. pd_NextDoc D' (C s) = map_it C (pd_NextDoc D s)"
    "\<And>t s. pd_Advance D' t (C s) = map_it C (pd_Advance D t s)"
  shows "pobeys D' docs' valid' (C s)"
proof -
  have "pmoves D' docs' valid' (C s) (map_it C r) t" if "pmoves D docs valid s r t" for r t
    using that by (auto simp: pmoves_def map_it_def assms(2-4))
  then show ?thesis using assms(1) [of s] by (simp add: pobeys_def assms(2-6))
qed

fun pd_drain :: "'s pdisi \<Rightarrow> nat \<Rightarrow> 's \<Rightarrow> int list outcome option" where
  "pd_drain D 0 s = Some (Ok [])"
| "pd_drain D (Suc n) s =
     (case pd_NextDoc D s of
        None \<Rightarrow> None
      | Some (Ok d, s') \<Rightarrow>
          (if d = NO_MORE_DOCS then Some (Ok []) else map_option (\<lambda>r. bind_out r (\<lambda>ds. Ok (d # ds))) (pd_drain D n s'))
      | Some (Err e, s') \<Rightarrow> Some (Err e)
      | Some (Panic p, s') \<Rightarrow> Some (Panic p))"

lemma first_doc_skip:
  assumes "\<And>k. k \<in> A \<Longrightarrow> t \<le> int k \<Longrightarrow> u \<le> int k" "t \<le> u"
  shows "first_doc A u = first_doc A t"
proof -
  have e: "(k \<in> A \<and> u \<le> int k) = (k \<in> A \<and> t \<le> int k)" for k using assms(1) [of k] assms(2) by linarith
  show ?thesis unfolding first_doc_def Bex_def e ..
qed

lemma first_doc_least: "k \<in> A \<Longrightarrow> t \<le> int k \<Longrightarrow> first_doc A t \<le> int k"
  by (rule first_doc_cases [of A t]) auto

lemma first_doc_end: "\<forall>k\<in>A. int k < NO_MORE_DOCS \<Longrightarrow> first_doc A NO_MORE_DOCS = NO_MORE_DOCS"
  by (rule first_doc_none)

definition conj_docs :: "('s \<Rightarrow> nat set) \<Rightarrow> 's conjunctionDISI \<Rightarrow> nat set" where
  "conj_docs docs c = docs (cj_lead1 c) \<inter> docs (cj_lead2 c) \<inter> \<Inter> (set (map docs (cj_others c)))"

locale pdoc_iter =
  fixes D :: "'s pdisi" and docs :: "'s \<Rightarrow> nat set" and valid :: "'s \<Rightarrow> bool"
  assumes obeys_all: "pobeys D docs valid s"
begin

lemma docs_below: "valid s \<Longrightarrow> k \<in> docs s \<Longrightarrow> int k < NO_MORE_DOCS"
  and on_doc: "valid s \<Longrightarrow> pd_DocID D s = - 1 \<or> pd_DocID D s = NO_MORE_DOCS \<or> (\<exists>k\<in>docs s. pd_DocID D s = int k)"
  and next_moves: "valid s \<Longrightarrow> pd_DocID D s < NO_MORE_DOCS \<Longrightarrow> pmoves D docs valid s (pd_NextDoc D s) (pd_DocID D s + 1)"
  and advance_moves: "valid s \<Longrightarrow> pd_DocID D s < t \<Longrightarrow> t \<le> NO_MORE_DOCS \<Longrightarrow> pmoves D docs valid s (pd_Advance D t s) t"
  using obeys_all [of s] by (auto simp: pobeys_def)

lemma below_first: "valid s \<Longrightarrow> first_doc (docs s) t \<le> NO_MORE_DOCS"
  using docs_below by (intro first_doc_le) blast

lemma finite_docs: "valid s \<Longrightarrow> finite (docs s)"
  by (rule finite_subset [of _ "{..<nat NO_MORE_DOCS}"]) (auto dest: docs_below simp: NO_MORE_DOCS_def)

lemma drain_enumerates:
  "valid s \<Longrightarrow> pd_DocID D s < NO_MORE_DOCS \<Longrightarrow> length (docs_from (docs s) (pd_DocID D s + 1)) < n \<Longrightarrow>
   pd_drain D n s = Some (Ok (map int (docs_from (docs s) (pd_DocID D s + 1))))"
proof (induction n arbitrary: s)
  case (Suc n)
  let ?t = "pd_DocID D s + 1"
  obtain s' where s': "pd_NextDoc D s = Some (Ok (first_doc (docs s) ?t), s')" "valid s'" "docs s' = docs s"
      "pd_DocID D s' = first_doc (docs s) ?t"
    using next_moves [OF Suc.prems(1,2)] by (auto simp: pmoves_def)
  show ?case
  proof (cases rule: first_doc_cases [of "docs s" ?t])
    case none
    then show ?thesis using s' by (simp add: docs_from_none)
  next
    case (some m)
    have c: "docs_from (docs s) ?t = m # docs_from (docs s) (int m + 1)"
      using some finite_docs [OF Suc.prems(1)] by (intro docs_from_Cons) auto
    have lt: "int m < NO_MORE_DOCS" using docs_below [OF Suc.prems(1) some(1)] .
    then have "pd_drain D n s' = Some (Ok (map int (docs_from (docs s) (int m + 1))))"
      using Suc.IH [of s'] s' some(4) Suc.prems(3) c by simp
    then show ?thesis using s'(1) some(4) lt c by simp
  qed
qed simp

definition all_valid :: "'s conjunctionDISI \<Rightarrow> bool" where
  "all_valid c \<longleftrightarrow> valid (cj_lead1 c) \<and> valid (cj_lead2 c) \<and> (\<forall>x\<in>set (cj_others c). valid x)"

definition conj_valid :: "'s conjunctionDISI \<Rightarrow> bool" where
  "conj_valid c \<longleftrightarrow> all_valid c \<and> pd_DocID D (cj_lead2 c) = pd_DocID D (cj_lead1 c)
     \<and> (\<forall>x\<in>set (cj_others c). pd_DocID D x = pd_DocID D (cj_lead1 c))"

text \<open>The loop invariant: the first iterator is on \<open>doc\<close>, the second before it, no other after it.\<close>

definition conj_pre :: "int \<Rightarrow> 's conjunctionDISI \<Rightarrow> bool" where
  "conj_pre doc c \<longleftrightarrow> all_valid c \<and> pd_DocID D (cj_lead1 c) = doc \<and> pd_DocID D (cj_lead2 c) < doc \<and> 0 \<le> doc \<and> doc \<le> NO_MORE_DOCS
     \<and> (\<forall>x\<in>set (cj_others c). pd_DocID D x \<le> doc)"

definition round_ok :: "int \<Rightarrow> 's conjunctionDISI \<Rightarrow> 's conjunctionDISI round \<Rightarrow> bool" where
  "round_ok doc c r \<longleftrightarrow> (case r of
      Restart d c' \<Rightarrow> conj_pre d c' \<and> doc < d \<and> conj_docs docs c' = conj_docs docs c
        \<and> first_doc (conj_docs docs c) d = first_doc (conj_docs docs c) doc
    | Return x c' \<Rightarrow> x = Ok (first_doc (conj_docs docs c) doc) \<and> conj_valid c' \<and> conj_docs docs c' = conj_docs docs c
        \<and> pd_DocID D (cj_lead1 c') = first_doc (conj_docs docs c) doc)"

lemma adv_others_Ok:
  assumes "\<forall>x\<in>set xs. valid x \<and> pd_DocID D x \<le> doc" "doc \<le> NO_MORE_DOCS"
  shows "\<exists>r xs'. adv_others D doc xs = Some (Ok r, xs') \<and> map docs xs' = map docs xs \<and> (\<forall>x\<in>set xs'. valid x)
    \<and> (case r of None \<Rightarrow> \<forall>x\<in>set xs'. pd_DocID D x = doc
       | Some n \<Rightarrow> doc < n \<and> n \<le> NO_MORE_DOCS \<and> (\<forall>x\<in>set xs'. pd_DocID D x \<le> n) \<and> (\<exists>x\<in>set xs. first_doc (docs x) doc = n))"
  using assms
proof (induction xs)
  case (Cons x xs)
  then obtain r xs' where IH: "adv_others D doc xs = Some (Ok r, xs')" "map docs xs' = map docs xs" "\<forall>x\<in>set xs'. valid x"
      "case r of None \<Rightarrow> \<forall>x\<in>set xs'. pd_DocID D x = doc
       | Some n \<Rightarrow> doc < n \<and> n \<le> NO_MORE_DOCS \<and> (\<forall>x\<in>set xs'. pd_DocID D x \<le> n) \<and> (\<exists>x\<in>set xs. first_doc (docs x) doc = n)"
    by auto
  have x: "valid x" "pd_DocID D x \<le> doc" using Cons.prems(1) by simp_all
  show ?case
  proof (cases "pd_DocID D x < doc")
    case False
    then show ?thesis using IH x by (auto split: option.splits)
  next
    case True
    obtain x' where x': "pd_Advance D doc x = Some (Ok (first_doc (docs x) doc), x')" "valid x'" "docs x' = docs x"
        "pd_DocID D x' = first_doc (docs x) doc"
      using advance_moves [OF x(1) True Cons.prems(2)] by (auto simp: pmoves_def)
    show ?thesis
    proof (cases "first_doc (docs x) doc > doc")
      case gt: True
      have "pd_DocID D y \<le> first_doc (docs x) doc" if "y \<in> set xs" for y using Cons.prems(1) that gt by fastforce
      then show ?thesis using True gt x' Cons.prems(1) below_first [OF x(1)] by auto
    next
      case False
      then have "first_doc (docs x) doc = doc" using first_doc_ge [OF Cons.prems(2), of "docs x"] by simp
      then show ?thesis using True x' IH by (auto split: option.splits)
    qed
  qed
qed simp

lemma on_doc_mem: "valid s \<Longrightarrow> pd_DocID D s = int k \<Longrightarrow> int k < NO_MORE_DOCS \<Longrightarrow> k \<in> docs s"
  using on_doc [of s] by auto

lemma round_ok_skip:
  assumes "round_ok d c' r" "conj_docs docs c' = conj_docs docs c" "doc < d"
    "first_doc (conj_docs docs c) d = first_doc (conj_docs docs c) doc"
  shows "round_ok doc c r"
  using assms by (auto simp: round_ok_def split: round.splits)

lemma conj_agree:
  assumes "all_valid c" "pd_DocID D (cj_lead1 c) = doc" "pd_DocID D (cj_lead2 c) = doc" "\<forall>x\<in>set (cj_others c). pd_DocID D x = doc"
    "0 \<le> doc" "doc \<le> NO_MORE_DOCS"
  shows "first_doc (conj_docs docs c) doc = doc"
proof (cases "doc = NO_MORE_DOCS")
  case True
  have "\<forall>k\<in>conj_docs docs c. int k < NO_MORE_DOCS"
    using docs_below [of "cj_lead1 c"] assms(1) by (auto simp: conj_docs_def all_valid_def)
  then show ?thesis using True first_doc_end by blast
next
  case False
  then have lt: "int (nat doc) < NO_MORE_DOCS" and d: "doc = int (nat doc)" using assms(5,6) by simp_all
  have mem: "nat doc \<in> docs s" if "valid s" "pd_DocID D s = doc" for s
    using on_doc_mem [OF that(1) _ lt] that(2) d by simp
  have "nat doc \<in> conj_docs docs c" using assms(1-4) mem by (auto simp: conj_docs_def all_valid_def)
  then have "first_doc (conj_docs docs c) doc \<le> doc" using first_doc_least [of "nat doc" _ doc] d by simp
  then show ?thesis using first_doc_ge [OF assms(6), of "conj_docs docs c"] by simp
qed

lemma conj_others_ok:
  assumes "all_valid c" "pd_DocID D (cj_lead1 c) = doc" "pd_DocID D (cj_lead2 c) = doc" "\<forall>x\<in>set (cj_others c). pd_DocID D x \<le> doc"
    "0 \<le> doc" "doc \<le> NO_MORE_DOCS"
  shows "\<exists>r. conj_others D doc c = Some r \<and> round_ok doc c r"
proof -
  obtain r xs where xs: "adv_others D doc (cj_others c) = Some (Ok r, xs)" "map docs xs = map docs (cj_others c)" "\<forall>x\<in>set xs. valid x"
      "case r of None \<Rightarrow> \<forall>x\<in>set xs. pd_DocID D x = doc
       | Some n \<Rightarrow> doc < n \<and> n \<le> NO_MORE_DOCS \<and> (\<forall>x\<in>set xs. pd_DocID D x \<le> n) \<and> (\<exists>x\<in>set (cj_others c). first_doc (docs x) doc = n)"
    using adv_others_Ok [of "cj_others c" doc] assms by (auto simp: all_valid_def)
  let ?c = "c\<lparr>cj_others := xs\<rparr>"
  have docs1: "conj_docs docs ?c = conj_docs docs c" using xs(2) by (simp add: conj_docs_def)
  have v: "all_valid ?c" using assms(1) xs(3) by (simp add: all_valid_def)
  show ?thesis
  proof (cases r)
    case None
    then have "first_doc (conj_docs docs ?c) doc = doc" using conj_agree [OF v] assms xs(4) by simp
    then show ?thesis using None xs(1,4) v docs1 assms(2,3) by (simp add: conj_others_def round_ok_def conj_valid_def)
  next
    case (Some n)
    have n: "doc < n" "n \<le> NO_MORE_DOCS" "\<forall>x\<in>set xs. pd_DocID D x \<le> n" using xs(4) Some by simp_all
    obtain x where x: "x \<in> set (cj_others c)" "first_doc (docs x) doc = n" using xs(4) Some by auto
    have l: "valid (cj_lead1 c)" using assms(1) by (simp add: all_valid_def)
    define d where "d = first_doc (docs (cj_lead1 c)) n"
    obtain l1 where l1: "pd_Advance D n (cj_lead1 c) = Some (Ok d, l1)" "valid l1" "docs l1 = docs (cj_lead1 c)" "pd_DocID D l1 = d"
      using advance_moves [OF l _ n(2)] n(1) assms(2) by (auto simp: pmoves_def d_def)
    have dn: "n \<le> d" "d \<le> NO_MORE_DOCS" unfolding d_def using first_doc_ge [OF n(2)] below_first [OF l] by simp_all
    have skip: "first_doc (conj_docs docs c) d = first_doc (conj_docs docs c) doc"
    proof (rule first_doc_skip)
      fix k assume k: "k \<in> conj_docs docs c" "doc \<le> int k"
      then have "n \<le> int k" using x first_doc_least [of k "docs x" doc] by (auto simp: conj_docs_def)
      then show "d \<le> int k" unfolding d_def using k(1) by (intro first_doc_least) (simp_all add: conj_docs_def)
    qed (use n(1) dn in simp)
    have pre: "conj_pre d (?c\<lparr>cj_lead1 := l1\<rparr>)"
      using v l1 n dn assms(3,5) by (fastforce simp: conj_pre_def all_valid_def)
    have "conj_docs docs (?c\<lparr>cj_lead1 := l1\<rparr>) = conj_docs docs c" using docs1 l1(3) by (simp add: conj_docs_def)
    then show ?thesis using Some xs(1) l1(1) pre skip n(1) dn(1) by (simp add: conj_others_def round_ok_def)
  qed
qed

lemma conj_round_ok:
  assumes "conj_pre doc c"
  shows "\<exists>r. conj_round D doc c = Some r \<and> round_ok doc c r"
proof -
  have a: "valid (cj_lead1 c)" "valid (cj_lead2 c)" "\<forall>x\<in>set (cj_others c). valid x" "pd_DocID D (cj_lead1 c) = doc"
      "pd_DocID D (cj_lead2 c) < doc" "0 \<le> doc" "doc \<le> NO_MORE_DOCS" "\<forall>x\<in>set (cj_others c). pd_DocID D x \<le> doc"
    using assms by (simp_all add: conj_pre_def all_valid_def)
  define n2 where "n2 = first_doc (docs (cj_lead2 c)) doc"
  obtain l2 where l2: "pd_Advance D doc (cj_lead2 c) = Some (Ok n2, l2)" "valid l2" "docs l2 = docs (cj_lead2 c)" "pd_DocID D l2 = n2"
    using advance_moves [OF a(2,5,7)] by (auto simp: pmoves_def n2_def)
  have n2: "doc \<le> n2" "n2 \<le> NO_MORE_DOCS" unfolding n2_def using first_doc_ge [OF a(7)] below_first [OF a(2)] by simp_all
  let ?c2 = "c\<lparr>cj_lead2 := l2\<rparr>"
  have d2: "conj_docs docs ?c2 = conj_docs docs c" using l2(3) by (simp add: conj_docs_def)
  show ?thesis
  proof (cases "n2 = doc")
    case True
    then obtain r where "conj_others D doc ?c2 = Some r" "round_ok doc ?c2 r"
      using conj_others_ok [of ?c2 doc] a l2 by (auto simp: all_valid_def)
    then show ?thesis using True l2(1) d2 by (auto simp: conj_round_def round_ok_def split: round.splits)
  next
    case False
    then have gt: "doc < n2" using n2(1) by simp
    define d where "d = first_doc (docs (cj_lead1 c)) n2"
    obtain l1 where l1: "pd_Advance D n2 (cj_lead1 c) = Some (Ok d, l1)" "valid l1" "docs l1 = docs (cj_lead1 c)" "pd_DocID D l1 = d"
      using advance_moves [OF a(1) _ n2(2)] gt a(4) by (auto simp: pmoves_def d_def)
    have d: "n2 \<le> d" "d \<le> NO_MORE_DOCS" unfolding d_def using first_doc_ge [OF n2(2)] below_first [OF a(1)] by simp_all
    let ?c = "?c2\<lparr>cj_lead1 := l1\<rparr>"
    have dc: "conj_docs docs ?c = conj_docs docs c" using l1(3) l2(3) by (simp add: conj_docs_def)
    have av: "all_valid ?c" using a(3) l1(2) l2(2) by (simp add: all_valid_def)
    have oth: "\<forall>x\<in>set (cj_others ?c). pd_DocID D x \<le> d" using a(8) gt d(1) by fastforce
    have skip: "first_doc (conj_docs docs c) d = first_doc (conj_docs docs c) doc"
    proof (rule first_doc_skip)
      fix k assume k: "k \<in> conj_docs docs c" "doc \<le> int k"
      then have "n2 \<le> int k" unfolding n2_def by (intro first_doc_least) (simp_all add: conj_docs_def)
      then show "d \<le> int k" unfolding d_def using k(1) by (intro first_doc_least) (simp_all add: conj_docs_def)
    qed (use gt d in simp)
    show ?thesis
    proof (cases "d = n2")
      case True
      then obtain r where "conj_others D d ?c = Some r" "round_ok d ?c r"
        using conj_others_ok [OF av, of d] l1(4) l2(4) oth d(2) a(6) gt by auto
      then show ?thesis using round_ok_skip [OF _ dc _ skip] gt True False l1(1) l2(1) by (simp add: conj_round_def)
    next
      case neq: False
      have "conj_pre d ?c" using av l1(4) l2(4) oth d gt a(6) neq by (simp add: conj_pre_def)
      then show ?thesis using neq False l1(1) l2(1) dc skip gt d(1) by (simp add: conj_round_def round_ok_def)
    qed
  qed
qed

lemma conj_doNext_first:
  assumes "conj_pre doc c"
  shows "\<exists>c'. conj_doNext D doc c = Some (Ok (first_doc (conj_docs docs c) doc), c') \<and> conj_valid c'
    \<and> conj_docs docs c' = conj_docs docs c \<and> pd_DocID D (cj_lead1 c') = first_doc (conj_docs docs c) doc"
  using assms
proof (induction "nat (NO_MORE_DOCS - doc)" arbitrary: doc c rule: less_induct)
  case less
  obtain r where r: "conj_round D doc c = Some r" "round_ok doc c r" using conj_round_ok [OF less.prems] by blast
  show ?case
  proof (cases r)
    case (Restart d c1)
    then have c1: "conj_pre d c1" "doc < d" "conj_docs docs c1 = conj_docs docs c"
        "first_doc (conj_docs docs c) d = first_doc (conj_docs docs c) doc"
      using r(2) by (simp_all add: round_ok_def)
    then have "nat (NO_MORE_DOCS - d) < nat (NO_MORE_DOCS - doc)" by (simp add: conj_pre_def)
    from less.hyps [OF this c1(1)] show ?thesis
      using c1 r(1) Restart by (subst conj_doNext.simps) simp
  next
    case (Return x c1)
    then show ?thesis using r by (subst conj_doNext.simps) (simp add: round_ok_def)
  qed
qed

lemma conj_moves:
  assumes "conj_valid c" "pd_DocID D (cj_lead1 c) < t" "t \<le> NO_MORE_DOCS" "pmoves D docs valid (cj_lead1 c) r t"
  obtains l1 where "r = Some (Ok (first_doc (docs (cj_lead1 c)) t), l1)"
    "pmoves (conj_ops D) (conj_docs docs) conj_valid c (conj_doNext D (first_doc (docs (cj_lead1 c)) t) (c\<lparr>cj_lead1 := l1\<rparr>)) t"
proof -
  define d where "d = first_doc (docs (cj_lead1 c)) t"
  obtain l1 where l1: "r = Some (Ok d, l1)" "valid l1" "docs l1 = docs (cj_lead1 c)" "pd_DocID D l1 = d"
    using assms(4) by (auto simp: pmoves_def d_def)
  have v: "valid (cj_lead1 c)" using assms(1) by (simp add: conj_valid_def all_valid_def)
  have d: "t \<le> d" "d \<le> NO_MORE_DOCS" unfolding d_def using first_doc_ge [OF assms(3)] below_first [OF v] by simp_all
  let ?c = "c\<lparr>cj_lead1 := l1\<rparr>"
  have "0 \<le> t" using on_doc [OF v] assms(2) by (auto simp: NO_MORE_DOCS_def)
  then have pre: "conj_pre d ?c"
    using assms(1,2) l1 d by (fastforce simp: conj_pre_def conj_valid_def all_valid_def)
  have dc: "conj_docs docs ?c = conj_docs docs c" using l1(3) by (simp add: conj_docs_def)
  have "first_doc (conj_docs docs c) d = first_doc (conj_docs docs c) t"
    using d(1) by (intro first_doc_skip) (simp_all add: conj_docs_def d_def first_doc_least)
  then have "pmoves (conj_ops D) (conj_docs docs) conj_valid c (conj_doNext D d ?c) t"
    using conj_doNext_first [OF pre] dc by (auto simp: pmoves_def conj_ops_def)
  then show ?thesis using that l1(1) unfolding d_def by blast
qed

lemma conj_iter: "pobeys (conj_ops D) (conj_docs docs) conj_valid c"
proof -
  {
    assume cv: "conj_valid c"
    have v: "valid (cj_lead1 c)" using cv by (simp add: conj_valid_def all_valid_def)
    have below: "\<forall>k\<in>conj_docs docs c. int k < NO_MORE_DOCS" using docs_below [OF v] by (auto simp: conj_docs_def)
    have mem: "k \<in> conj_docs docs c" if k: "pd_DocID D (cj_lead1 c) = int k" "k \<in> docs (cj_lead1 c)" for k
      using cv k docs_below [OF v k(2)] by (auto simp: conj_docs_def conj_valid_def all_valid_def intro: on_doc_mem)
    then have on: "pd_DocID D (cj_lead1 c) = - 1 \<or> pd_DocID D (cj_lead1 c) = NO_MORE_DOCS
        \<or> (\<exists>k\<in>conj_docs docs c. pd_DocID D (cj_lead1 c) = int k)"
      using on_doc [OF v] by blast
    have nx: "pmoves (conj_ops D) (conj_docs docs) conj_valid c (conj_NextDoc D c) (pd_DocID D (cj_lead1 c) + 1)"
      if "pd_DocID D (cj_lead1 c) < NO_MORE_DOCS"
      by (rule conj_moves [OF cv _ _ next_moves [OF v that]]) (use that in \<open>simp_all add: conj_NextDoc_def\<close>)
    have ad: "pmoves (conj_ops D) (conj_docs docs) conj_valid c (conj_Advance D t c) t"
      if "pd_DocID D (cj_lead1 c) < t" "t \<le> NO_MORE_DOCS" for t
      by (rule conj_moves [OF cv that advance_moves [OF v that]]) (simp add: conj_Advance_def)
    note below on nx ad
  }
  then show ?thesis by (simp add: pobeys_def conj_ops_def)
qed

end

section \<open>The bit set conjunction\<close>

definition bc_docs :: "('l \<Rightarrow> nat set) \<Rightarrow> 'l bitSetConjunctionDISI \<Rightarrow> nat set" where
  "bc_docs docs c = docs (bc_lead c) \<inter> \<Inter> (set (map bsi_docs (bc_bitSetIters c)))"

text \<open>
  The bit sets have their documents below the least length.  The positions of the bit set
  iterators do not matter: \<open>doNext\<close> reads the sets and only overwrites the positions.
\<close>

definition bc_shape :: "'l bitSetConjunctionDISI \<Rightarrow> bool" where
  "bc_shape c \<longleftrightarrow> (\<forall>b\<in>set (bc_bitSetIters c). view_ok (bsi_bits b) \<and> bc_minLength c \<le> bv_Length (bsi_bits b))
     \<and> (\<exists>b\<in>set (bc_bitSetIters c). bc_minLength c = bv_Length (bsi_bits b))"

lemma all_match_Ok:
  assumes "\<forall>b\<in>set bs. view_ok (bsi_bits b) \<and> doc < bv_Length (bsi_bits b)" "0 \<le> doc"
  shows "all_match doc bs = Ok (\<forall>b\<in>set bs. nat doc \<in> bsi_docs b)"
  using assms(1)
proof (induction bs)
  case (Cons b bs)
  have "bv_Get (bsi_bits b) doc = Ok (nat doc \<in> bsi_docs b)"
    using Cons.prems assms(2) by (force simp: view_ok_def bsi_docs_def view_set_def)
  then show ?case using Cons by simp
qed simp

context pdoc_iter
begin

definition bc_valid :: "'s bitSetConjunctionDISI \<Rightarrow> bool" where
  "bc_valid c \<longleftrightarrow> valid (bc_lead c) \<and> bc_shape c
     \<and> (pd_DocID D (bc_lead c) = - 1 \<or> pd_DocID D (bc_lead c) = NO_MORE_DOCS
        \<or> (\<exists>k\<in>bc_docs docs c. pd_DocID D (bc_lead c) = int k))"

lemma bc_doNext_first:
  assumes "valid (bc_lead c)" "bc_shape c" "pd_DocID D (bc_lead c) = doc" "0 \<le> doc" "doc \<le> NO_MORE_DOCS"
  shows "pmoves (bc_ops D) (bc_docs docs) bc_valid c (bc_doNext D doc c) doc"
  using assms
proof (induction "nat (NO_MORE_DOCS - doc)" arbitrary: doc c rule: less_induct)
  case less
  have below: "int k < bc_minLength c" "k \<in> docs (bc_lead c)" if "k \<in> bc_docs docs c" for k
    using that less.prems(2) by (auto simp: bc_docs_def bc_shape_def bsi_docs_def view_set_def)
  have min: "bc_minLength c \<le> NO_MORE_DOCS" using less.prems(2) by (auto simp: bc_shape_def view_ok_def)
  show ?case
  proof (cases "bc_minLength c \<le> doc")
    case True
    then have none: "first_doc (bc_docs docs c) doc = NO_MORE_DOCS" using below by (intro first_doc_none) force
    show ?thesis
    proof (cases "doc = NO_MORE_DOCS")
      case eq: True
      then show ?thesis using True none less.prems by (subst bc_doNext.simps) (simp add: pmoves_def bc_valid_def bc_ops_def)
    next
      case False
      have "first_doc (docs (bc_lead c)) NO_MORE_DOCS = NO_MORE_DOCS"
        using docs_below [OF less.prems(1)] by (intro first_doc_end) blast
      then obtain l where "pd_Advance D NO_MORE_DOCS (bc_lead c) = Some (Ok NO_MORE_DOCS, l)" "valid l"
          "docs l = docs (bc_lead c)" "pd_DocID D l = NO_MORE_DOCS"
        using advance_moves [OF less.prems(1), of NO_MORE_DOCS] False less.prems(3,5) by (auto simp: pmoves_def)
      then show ?thesis
        using True False none less.prems(2)
        by (subst bc_doNext.simps) (simp add: pmoves_def bc_valid_def bc_ops_def bc_docs_def bc_shape_def)
    qed
  next
    case False
    then have lt: "doc < NO_MORE_DOCS" using min by simp
    have m: "all_match doc (bc_bitSetIters c) = Ok (\<forall>b\<in>set (bc_bitSetIters c). nat doc \<in> bsi_docs b)"
      using all_match_Ok [OF _ less.prems(4), of "bc_bitSetIters c"] less.prems(2) False by (fastforce simp: bc_shape_def)
    have mem: "nat doc \<in> docs (bc_lead c)" using on_doc_mem [OF less.prems(1), of "nat doc"] less.prems(3,4) lt by simp
    show ?thesis
    proof (cases "\<forall>b\<in>set (bc_bitSetIters c). nat doc \<in> bsi_docs b")
      case True
      then have k: "nat doc \<in> bc_docs docs c" using mem by (simp add: bc_docs_def)
      then have f: "first_doc (bc_docs docs c) doc = doc"
        using first_doc_least [OF k, of doc] first_doc_ge [OF less.prems(5), of "bc_docs docs c"] less.prems(4) by simp
      let ?c = "c\<lparr>bc_bitSetIters := map (bsi_SetDocId doc) (bc_bitSetIters c)\<rparr>"
      have d: "bc_docs docs ?c = bc_docs docs c" by (simp add: bc_docs_def bsi_docs_def bsi_SetDocId_def)
      have "bc_shape ?c" using less.prems(2) by (simp add: bc_shape_def bsi_SetDocId_def)
      moreover have "\<exists>k\<in>bc_docs docs ?c. pd_DocID D (bc_lead ?c) = int k"
        using k d less.prems(3,4) by (intro bexI [of _ "nat doc"]) simp_all
      ultimately have "bc_valid ?c" using less.prems(1) by (simp add: bc_valid_def)
      then show ?thesis
        using False m True f d less.prems(3) by (subst bc_doNext.simps) (simp add: pmoves_def bc_ops_def)
    next
      case no: False
      define d where "d = first_doc (docs (bc_lead c)) (doc + 1)"
      obtain l where l: "pd_NextDoc D (bc_lead c) = Some (Ok d, l)" "valid l" "docs l = docs (bc_lead c)" "pd_DocID D l = d"
        using next_moves [OF less.prems(1)] less.prems(3) lt by (auto simp: pmoves_def d_def)
      have d: "doc < d" "d \<le> NO_MORE_DOCS"
        unfolding d_def using first_doc_ge [of "doc + 1" "docs (bc_lead c)"] lt below_first [OF less.prems(1)] by simp_all
      let ?c = "c\<lparr>bc_lead := l\<rparr>"
      have dc: "bc_docs docs ?c = bc_docs docs c" using l(3) by (simp add: bc_docs_def)
      have "first_doc (bc_docs docs c) d = first_doc (bc_docs docs c) doc"
      proof (rule first_doc_skip)
        fix k assume k: "k \<in> bc_docs docs c" "doc \<le> int k"
        then have "k \<noteq> nat doc" using no by (auto simp: bc_docs_def)
        then have "doc + 1 \<le> int k" using k(2) less.prems(4) by linarith
        then show "d \<le> int k" unfolding d_def using below(2) [OF k(1)] by (intro first_doc_least)
      qed (use d in simp)
      moreover have "pmoves (bc_ops D) (bc_docs docs) bc_valid ?c (bc_doNext D d ?c) d"
        using less.hyps [of d ?c] l d less.prems(2,4) lt by (simp add: bc_shape_def)
      ultimately show ?thesis
        using False m no l(1) dc by (subst bc_doNext.simps) (simp add: pmoves_def)
    qed
  qed
qed

lemma bc_moves:
  assumes "bc_valid c" "pd_DocID D (bc_lead c) < t" "t \<le> NO_MORE_DOCS" "pmoves D docs valid (bc_lead c) r t"
  obtains l where "r = Some (Ok (first_doc (docs (bc_lead c)) t), l)"
    "pmoves (bc_ops D) (bc_docs docs) bc_valid c (bc_doNext D (first_doc (docs (bc_lead c)) t) (c\<lparr>bc_lead := l\<rparr>)) t"
proof -
  define d where "d = first_doc (docs (bc_lead c)) t"
  obtain l where l: "r = Some (Ok d, l)" "valid l" "docs l = docs (bc_lead c)" "pd_DocID D l = d"
    using assms(4) by (auto simp: pmoves_def d_def)
  have v: "valid (bc_lead c)" using assms(1) by (simp add: bc_valid_def)
  have d: "t \<le> d" "d \<le> NO_MORE_DOCS" unfolding d_def using first_doc_ge [OF assms(3)] below_first [OF v] by simp_all
  have "0 \<le> t" using on_doc [OF v] assms(2) by (auto simp: NO_MORE_DOCS_def)
  then have "pmoves (bc_ops D) (bc_docs docs) bc_valid (c\<lparr>bc_lead := l\<rparr>) (bc_doNext D d (c\<lparr>bc_lead := l\<rparr>)) d"
    using assms(1) l d by (intro bc_doNext_first) (simp_all add: bc_valid_def bc_shape_def)
  moreover have "bc_docs docs (c\<lparr>bc_lead := l\<rparr>) = bc_docs docs c" using l(3) by (simp add: bc_docs_def)
  moreover have "first_doc (bc_docs docs c) d = first_doc (bc_docs docs c) t"
    using d(1) by (intro first_doc_skip) (simp_all add: bc_docs_def d_def first_doc_least)
  ultimately have "pmoves (bc_ops D) (bc_docs docs) bc_valid c (bc_doNext D d (c\<lparr>bc_lead := l\<rparr>)) t"
    by (simp add: pmoves_def)
  then show ?thesis using that l(1) unfolding d_def by blast
qed

lemma bc_iter: "pobeys (bc_ops D) (bc_docs docs) bc_valid c"
proof -
  {
    assume cv: "bc_valid c"
    have v: "valid (bc_lead c)" using cv by (simp add: bc_valid_def)
    have below: "\<forall>k\<in>bc_docs docs c. int k < NO_MORE_DOCS" using docs_below [OF v] by (auto simp: bc_docs_def)
    have on: "pd_DocID D (bc_lead c) = - 1 \<or> pd_DocID D (bc_lead c) = NO_MORE_DOCS
        \<or> (\<exists>k\<in>bc_docs docs c. pd_DocID D (bc_lead c) = int k)"
      using cv by (simp add: bc_valid_def)
    have nx: "pmoves (bc_ops D) (bc_docs docs) bc_valid c (bc_NextDoc D c) (pd_DocID D (bc_lead c) + 1)"
      if "pd_DocID D (bc_lead c) < NO_MORE_DOCS"
      by (rule bc_moves [OF cv _ _ next_moves [OF v that]]) (use that in \<open>simp_all add: bc_NextDoc_def\<close>)
    have ad: "pmoves (bc_ops D) (bc_docs docs) bc_valid c (bc_Advance D t c) t"
      if "pd_DocID D (bc_lead c) < t" "t \<le> NO_MORE_DOCS" for t
      by (rule bc_moves [OF cv that advance_moves [OF v that]]) (simp add: bc_Advance_def)
    note below on nx ad
  }
  then show ?thesis by (simp add: pobeys_def bc_ops_def)
qed

end

section \<open>The iterators of the factory\<close>


lemma returning_obeys:
  assumes "doc_iter D docs valid"
  shows "pdoc_iter (returning D) docs valid"
proof
  fix s
  show "pobeys (returning D) docs valid s"
    using doc_iter.docs_below [OF assms, of s] doc_iter.on_doc [OF assms, of s] doc_iter.next_moves [OF assms, of s]
      doc_iter.advance_moves [OF assms, of s]
    by (simp add: pobeys_def pmoves_def moves_def returning_def)
qed

interpretation rl: pdoc_iter "returning leaf_ops" leaf_docs leaf_valid
  by (rule returning_obeys) (rule lf.doc_iter_axioms)

primrec lead_docs :: "lead_iter \<Rightarrow> nat set" where
  "lead_docs (Single s) = leaf_docs s"
| "lead_docs (Leapfrog c) = conj_docs leaf_docs c"

primrec lead_valid :: "lead_iter \<Rightarrow> bool" where
  "lead_valid (Single s) = leaf_valid s"
| "lead_valid (Leapfrog c) = rl.conj_valid c"

interpretation ld: pdoc_iter lead_ops lead_docs lead_valid
proof
  fix l
  show "pobeys lead_ops lead_docs lead_valid l"
  proof (cases l)
    case (Single s)
    show ?thesis unfolding Single
      by (rule pobeys_dispatch [OF rl.obeys_all]) (simp_all add: lead_ops_def returning_def leaf_ops_def)
  next
    case (Leapfrog c)
    show ?thesis unfolding Leapfrog
      by (rule pobeys_dispatch [OF rl.conj_iter]) (simp_all add: lead_ops_def conj_ops_def)
  qed
qed

primrec cn_docs :: "conjunction \<Rightarrow> nat set" where
  "cn_docs (Lead l) = lead_docs l"
| "cn_docs (WithBits c) = bc_docs lead_docs c"

primrec cn_valid :: "conjunction \<Rightarrow> bool" where
  "cn_valid (Lead l) = lead_valid l"
| "cn_valid (WithBits c) = ld.bc_valid c"

interpretation cn: pdoc_iter cn_ops cn_docs cn_valid
proof
  fix c
  show "pobeys cn_ops cn_docs cn_valid c"
  proof (cases c)
    case (Lead l)
    show ?thesis unfolding Lead
      by (rule pobeys_dispatch [OF ld.obeys_all]) (simp_all add: cn_ops_def lead_ops_def)
  next
    case (WithBits b)
    show ?thesis unfolding WithBits
      by (rule pobeys_dispatch [OF ld.bc_iter]) (simp_all add: cn_ops_def bc_ops_def)
  qed
qed

section \<open>What the factory builds\<close>

lemma foldl_min_le:
  fixes f :: "'a \<Rightarrow> int"
  shows "foldl (\<lambda>m x. min m (f x)) m xs \<le> m \<and> (\<forall>x\<in>set xs. foldl (\<lambda>m x. min m (f x)) m xs \<le> f x)"
proof (induction xs arbitrary: m)
  case (Cons x xs)
  then show ?case using Cons [of "min m (f x)"] by auto
qed simp

lemma foldl_min_attained:
  fixes f :: "'a \<Rightarrow> int"
  shows "foldl (\<lambda>m x. min m (f x)) m xs = m \<or> (\<exists>x\<in>set xs. foldl (\<lambda>m x. min m (f x)) m xs = f x)"
proof (induction xs arbitrary: m)
  case (Cons x xs)
  then show ?case using Cons [of "min m (f x)"] by (auto simp: min_def split: if_splits)
qed simp

lemma promoted_iff: "promoted m it \<longleftrightarrow> (\<exists>b. it = BitSetIt b \<and> m < bsi_cost b)"
  by (cases it) auto

lemma set_bit_iters: "set (bit_iters m its) = {b. BitSetIt b \<in> set its \<and> m < bsi_cost b}"
  by (induction m its rule: bit_iters.induct) auto

lemma split_iterators:
  "\<Inter> (leaf_docs ` set its) = \<Inter> (leaf_docs ` set (filter (\<lambda>it. \<not> promoted m it) its)) \<inter> \<Inter> (bsi_docs ` set (bit_iters m its))"
proof -
  have "leaf_docs ` set its = leaf_docs ` set (filter (\<lambda>it. \<not> promoted m it) its) \<union> bsi_docs ` set (bit_iters m its)" (is "?l = ?r")
  proof
    show "?l \<subseteq> ?r" by (force simp: promoted_iff set_bit_iters)
    show "?r \<subseteq> ?l" by (force simp: set_bit_iters)
  qed
  then show ?thesis by auto
qed

lemma new_bit_set_conjunction_shape:
  assumes "bs \<noteq> []" "\<forall>b\<in>set bs. view_ok (bsi_bits b)"
  shows "bc_shape (newBitSetConjunctionDISI l bs) \<and> bc_docs docs (newBitSetConjunctionDISI l bs) = docs l \<inter> \<Inter> (bsi_docs ` set bs)"
proof -
  let ?f = "\<lambda>b. bv_Length (bsi_bits b)" and ?M = "2 ^ 63 - 1 :: int"
  let ?m = "foldl (\<lambda>m it. min m (?f it)) ?M bs"
  obtain b where b: "b \<in> set bs" using assms(1) by (cases bs) auto
  then have "?m \<le> ?f b" using foldl_min_le [of ?f ?M bs] by blast
  also have "\<dots> \<le> NO_MORE_DOCS" using assms(2) b by (simp add: view_ok_def)
  finally have "?m \<noteq> ?M" by (simp add: NO_MORE_DOCS_def)
  then have "\<exists>b\<in>set bs. ?m = ?f b" using foldl_min_attained [of ?f ?M bs] by blast
  then show ?thesis
    using assms(2) foldl_min_le [of ?f ?M bs] by (simp add: bc_shape_def newBitSetConjunctionDISI_def bc_docs_def)
qed

lemma returning_leaf_DocID [simp]: "pd_DocID (returning leaf_ops) s = leaf_DocID s"
  by (simp add: returning_def leaf_ops_def)

lemma lead_ops_DocID [simp]: "pd_DocID lead_ops l = lead_DocID l"
  by (simp add: lead_ops_def)

lemma lead_builds:
  assumes "xs \<noteq> []" "\<forall>it\<in>set xs. leaf_valid it \<and> leaf_DocID it = d"
  shows "\<exists>l. (case xs of [it] \<Rightarrow> Ok (Single it) | _ \<Rightarrow> bind_out (newConjunctionDISI xs) (\<lambda>c. Ok (Leapfrog c))) = Ok l
    \<and> lead_valid l \<and> lead_docs l = \<Inter> (leaf_docs ` set xs) \<and> lead_DocID l = d"
proof -
  obtain a ys where xs: "xs = a # ys" using assms(1) by (cases xs) auto
  show ?thesis
  proof (cases ys)
    case Nil
    then show ?thesis using xs assms(2) by simp
  next
    case (Cons b zs)
    then show ?thesis using xs assms(2)
      by (simp add: newConjunctionDISI_def rl.conj_valid_def rl.all_valid_def conj_docs_def conj_ops_def Int_assoc)
  qed
qed

lemma cheapest_stays:
  assumes "it \<in> set its" "leaf_Cost it < 2 ^ 62"
  shows "filter (\<lambda>it. \<not> promoted (foldl (\<lambda>m it. min m (leaf_Cost it)) (2 ^ 62 - 1) its) it) its \<noteq> []"
proof -
  let ?m = "foldl (\<lambda>m it. min m (leaf_Cost it)) (2 ^ 62 - 1) its"
  have "\<exists>x\<in>set its. leaf_Cost x \<le> ?m"
    using foldl_min_attained [of leaf_Cost "2 ^ 62 - 1" its] assms by (metis order_refl zle_diff1_eq)
  then obtain x where "x \<in> set its" "\<not> promoted ?m x" by (metis leaf_Cost.simps(1) not_less promoted_iff)
  then show ?thesis by (auto simp: filter_empty_conv)
qed

lemma createConjunction_builds:
  assumes "\<forall>it\<in>set its. leaf_valid it \<and> leaf_DocID it = d" "\<exists>it\<in>set its. leaf_Cost it < 2 ^ 62"
  shows "\<exists>c. createConjunction its = Ok c \<and> cn_valid c \<and> cn_docs c = \<Inter> (leaf_docs ` set its) \<and> cn_DocID c = d"
proof -
  define m where "m = foldl (\<lambda>m it. min m (leaf_Cost it)) (2 ^ 62 - 1) its"
  define xs where "xs = sort_key leaf_Cost (filter (\<lambda>it. \<not> promoted m it) its)"
  have sx: "set xs = set (filter (\<lambda>it. \<not> promoted m it) its)" by (simp add: xs_def)
  have "xs \<noteq> []" using cheapest_stays assms(2) sx unfolding m_def by fastforce
  then obtain l where l: "(case xs of [it] \<Rightarrow> Ok (Single it) | _ \<Rightarrow> bind_out (newConjunctionDISI xs) (\<lambda>c. Ok (Leapfrog c))) = Ok l"
      "lead_valid l" "lead_docs l = \<Inter> (leaf_docs ` set xs)" "lead_DocID l = d"
    using lead_builds [of xs d] assms(1) sx by auto
  obtain a ys where its: "its = a # ys" using assms(2) by (cases its) auto
  have "\<not> list_ex (\<lambda>it. leaf_DocID it \<noteq> leaf_DocID a) its" using assms(1) its by (auto simp: list_ex_iff)
  moreover have "createConjunction its = (if list_ex (\<lambda>it. leaf_DocID it \<noteq> leaf_DocID a) its
      then Panic ''search: sub-iterators of ConjunctionDISI are not on the same document''
      else bind_out (case xs of [it] \<Rightarrow> Ok (Single it) | _ \<Rightarrow> bind_out (newConjunctionDISI xs) (\<lambda>c. Ok (Leapfrog c)))
        (\<lambda>disi. Ok (if bit_iters m its \<noteq> [] then WithBits (newBitSetConjunctionDISI disi (bit_iters m its)) else Lead disi)))"
    unfolding createConjunction_def xs_def m_def Let_def by (simp only: its list.case)
  ultimately have cc: "createConjunction its = Ok (if bit_iters m its \<noteq> [] then WithBits (newBitSetConjunctionDISI l (bit_iters m its)) else Lead l)"
    using l(1) by simp
  have docs: "lead_docs l \<inter> \<Inter> (bsi_docs ` set (bit_iters m its)) = \<Inter> (leaf_docs ` set its)"
    using split_iterators [of its m] l(3) sx by simp
  show ?thesis
  proof (cases "bit_iters m its = []")
    case True
    then show ?thesis using cc l(2,4) docs by simp
  next
    case False
    let ?c = "newBitSetConjunctionDISI l (bit_iters m its)"
    have "\<forall>b\<in>set (bit_iters m its). view_ok (bsi_bits b)" using assms(1) by (force simp: set_bit_iters bsi_valid_def)
    from new_bit_set_conjunction_shape [OF False this, of l lead_docs]
    have c: "bc_shape ?c" "bc_docs lead_docs ?c = \<Inter> (leaf_docs ` set its)" using docs by simp_all
    have lead: "bc_lead ?c = l" by (simp add: newBitSetConjunctionDISI_def)
    have "d = - 1 \<or> d = NO_MORE_DOCS \<or> (\<exists>k\<in>\<Inter> (leaf_docs ` set its). d = int k)"
    proof (cases "d = - 1 \<or> d = NO_MORE_DOCS")
      case no: False
      have "\<exists>k\<in>leaf_docs it. d = int k" if "it \<in> set its" for it
        using lf.on_doc [of it] assms(1) that no by (simp add: leaf_ops_def)
      moreover from this [of a] obtain k where k: "d = int k" using its by auto
      ultimately have "k \<in> \<Inter> (leaf_docs ` set its)" by fastforce
      then show ?thesis using k by blast
    qed blast
    then have "ld.bc_valid ?c" using c l(2,4) lead by (simp add: ld.bc_valid_def)
    then show ?thesis using cc False c(2) l(4) lead by (simp add: bc_ops_def)
  qed
qed

section \<open>Property\<close>

text \<open>
  C26: Conjunctions.  From at least one iterator, all valid and on the same document \<open>d\<close>, one of
  them of cost below \<open>2\<^sup>6\<^sup>2\<close>, \<open>createConjunction\<close> builds an iterator on \<open>d\<close> over the
  intersection of their sets, whichever of its forms it takes: \<open>Advance(t)\<close> returns, with the
  first common document at or after \<open>t\<close> or \<open>NO_MORE_DOCS\<close>, and draining it with \<open>NextDoc\<close>
  ends and yields the common documents after \<open>d\<close> once each in increasing order.
\<close>

theorem conjunction_enumerates:
  assumes "\<forall>it\<in>set its. leaf_valid it \<and> leaf_DocID it = d" "\<exists>it\<in>set its. leaf_Cost it < 2 ^ 62"
    "d < t" "t \<le> NO_MORE_DOCS" "card (\<Inter> (leaf_docs ` set its)) < n"
  shows "\<exists>c. createConjunction its = Ok c \<and> cn_DocID c = d
    \<and> (\<exists>c'. cn_Advance t c = Some (Ok (first_doc (\<Inter> (leaf_docs ` set its)) t), c') \<and> cn_DocID c' = first_doc (\<Inter> (leaf_docs ` set its)) t)
    \<and> pd_drain cn_ops n c = Some (Ok (map int (sorted_list_of_set {k \<in> \<Inter> (leaf_docs ` set its). d < int k})))"
proof -
  obtain c where c: "createConjunction its = Ok c" "cn_valid c" "cn_docs c = \<Inter> (leaf_docs ` set its)" "cn_DocID c = d"
    using createConjunction_builds [OF assms(1,2)] by blast
  have id: "pd_DocID cn_ops c = cn_DocID c" for c by (simp add: cn_ops_def)
  have fin: "finite (cn_docs c)" by (rule cn.finite_docs [OF c(2)])
  have "card {k \<in> cn_docs c. d < int k} \<le> card (cn_docs c)" using fin by (intro card_mono) auto
  then have "pd_drain cn_ops n c = Some (Ok (map int (sorted_list_of_set {k \<in> cn_docs c. d < int k})))"
    using cn.drain_enumerates [OF c(2), of n] assms(3-5) fin c(3,4) by (simp add: id docs_from_after)
  moreover have "\<exists>c'. cn_Advance t c = Some (Ok (first_doc (cn_docs c) t), c') \<and> cn_DocID c' = first_doc (cn_docs c) t"
    using cn.advance_moves [OF c(2), of t] assms(3,4) c(4) by (auto simp: pmoves_def id) (simp add: cn_ops_def)
  ultimately show ?thesis using c(1,3,4) by auto
qed

lemma sample_bits_valid:
  "leaf_valid (BitSetIt \<lparr>bsi_bits = fixed_view \<lparr>fs_bits = [5, 1], fs_size = 70\<rparr>, bsi_length = 70, bsi_doc = - 1, bsi_cost = 30\<rparr>)"
  "leaf_docs (BitSetIt \<lparr>bsi_bits = fixed_view \<lparr>fs_bits = [5, 1], fs_size = 70\<rparr>, bsi_length = 70, bsi_doc = - 1, bsi_cost = 30\<rparr>)
     = fbs_set \<lparr>fs_bits = [5, 1], fs_size = 70\<rparr>"
proof -
  let ?fs = "\<lparr>fs_bits = [5, 1], fs_size = 70\<rparr>"
  have wf: "fbs_wf ?fs" using sample_sets(1) by (simp add: mask_eq_exp_minus_1)
  have "view_ok (fixed_view ?fs)" "view_set (fixed_view ?fs) = fbs_set ?fs"
    using fixed_view_ok [OF wf] by (simp_all add: NO_MORE_DOCS_def)
  then show "leaf_valid (BitSetIt \<lparr>bsi_bits = fixed_view ?fs, bsi_length = 70, bsi_doc = - 1, bsi_cost = 30\<rparr>)"
    "leaf_docs (BitSetIt \<lparr>bsi_bits = fixed_view ?fs, bsi_length = 70, bsi_doc = - 1, bsi_cost = 30\<rparr>) = fbs_set ?fs"
    by (simp_all add: bsi_valid_def bsi_docs_def fixed_view_def fs_Length_def)
qed

theorem conjunction_enumerates_witness:
  "\<exists>c. createConjunction
       [BitSetIt \<lparr>bsi_bits = fixed_view \<lparr>fs_bits = [5, 1], fs_size = 70\<rparr>, bsi_length = 70, bsi_doc = - 1, bsi_cost = 30\<rparr>,
        RangeIt \<lparr>rdi_Doc = - 1, rdi_minDoc = 1, rdi_maxDoc = 66\<rparr>,
        IntArrayIt \<lparr>iai_docs = [0, 2, 64, 2147483647], iai_length = 3, iai_i = 0, iai_doc = - 1\<rparr>] = Ok c
    \<and> cn_DocID c = - 1 \<and> pd_drain cn_ops 4 c = Some (Ok [2, 64])"
proof -
  let ?b = "BitSetIt \<lparr>bsi_bits = fixed_view \<lparr>fs_bits = [5, 1], fs_size = 70\<rparr>, bsi_length = 70, bsi_doc = - 1, bsi_cost = 30\<rparr>"
  let ?r = "RangeIt \<lparr>rdi_Doc = - 1, rdi_minDoc = 1, rdi_maxDoc = 66\<rparr>"
  let ?a = "IntArrayIt \<lparr>iai_docs = [0, 2, 64, 2147483647], iai_length = 3, iai_i = 0, iai_doc = - 1\<rparr>"
  have r: "leaf_valid ?r" "leaf_docs ?r = {1..<66}" by (auto simp: rdi_valid_def rdi_docs_def NO_MORE_DOCS_def)
  have a: "leaf_valid ?a" "leaf_docs ?a = {0, 2, 64}"
    by (simp_all add: iai_valid_def iai_shape_def iai_docs_set_def NO_MORE_DOCS_def numeral_3_eq_3)
  have mem: "2 \<in> fbs_set \<lparr>fs_bits = [5, 1], fs_size = 70\<rparr>" "64 \<in> fbs_set \<lparr>fs_bits = [5, 1], fs_size = 70\<rparr>"
    by (simp_all add: fbs_set_def wbit_def bit_numeral_rec)
  have d: "\<Inter> (leaf_docs ` set [?b, ?r, ?a]) = {2, 64}"
    unfolding list.set image_insert image_empty sample_bits_valid(2) r(2) a(2) using mem by auto
  have s: "{k \<in> {2, 64}. - 1 < int k} = {2, 64}" by auto
  have "sorted_list_of_set {2, 64 :: nat} = [2, 64]" by simp
  then show ?thesis
    using conjunction_enumerates [of "[?b, ?r, ?a]" "- 1" 5 4, unfolded d s] sample_bits_valid(1) r(1) a(1)
    by (simp add: NO_MORE_DOCS_def) blast
qed

end
