(* ===== verification/Heap_Sift.thy ===== *)
theory Heap_Sift
  imports Prelude
begin

text \<open>
  The part the three heaps of the program share: restoring the heap order along one path of
  an implicit tree in an array.  The tree is given by the index of its root and the index of
  a node's parent, the order by the comparison the heap is built with.  Sifting is a relation
  that allows every choice of an extreme child, so that each implementation is an instance.
\<close>

section \<open>Comparisons\<close>

text \<open>
  A comparison that is a strict weak order: elements may be equivalent without being equal.
\<close>

locale weak_order =
  fixes less :: "'a \<Rightarrow> 'a \<Rightarrow> bool"
  assumes asym: "less a b \<Longrightarrow> \<not> less b a"
    and le_trans: "\<not> less b a \<Longrightarrow> \<not> less c b \<Longrightarrow> \<not> less c a"
begin

lemma irrefl [simp]: "\<not> less a a"
  using asym by blast

lemma less_le_trans: "less a b \<Longrightarrow> \<not> less c b \<Longrightarrow> less a c"
  using le_trans asym by blast

lemma le_less_trans: "\<not> less b a \<Longrightarrow> less b c \<Longrightarrow> less a c"
  using le_trans by blast

lemma less_trans: "less a b \<Longrightarrow> less b c \<Longrightarrow> less a c"
  using less_le_trans asym by blast

end

lemma int_less_order: "weak_order ((<) :: int \<Rightarrow> int \<Rightarrow> bool)" and int_greater_order: "weak_order ((>) :: int \<Rightarrow> int \<Rightarrow> bool)"
  by unfold_locales auto

section \<open>Segments of the array\<close>

definition segment :: "nat \<Rightarrow> nat \<Rightarrow> 'a list \<Rightarrow> 'a list" where
  "segment lo n ys = take (n - lo) (drop lo ys)"

definition swap :: "'a list \<Rightarrow> nat \<Rightarrow> nat \<Rightarrow> 'a list" where
  "swap ys i j = ys[i := ys ! j, j := ys ! i]"

definition rearranged :: "nat \<Rightarrow> nat \<Rightarrow> 'a list \<Rightarrow> 'a list \<Rightarrow> bool" where
  "rearranged lo n ys zs \<longleftrightarrow> length zs = length ys \<and> mset (segment lo n zs) = mset (segment lo n ys)"

lemma length_segment [simp]: "n \<le> length ys \<Longrightarrow> length (segment lo n ys) = n - lo"
  by (simp add: segment_def)

lemma nth_segment: "lo \<le> i \<Longrightarrow> i < n \<Longrightarrow> n \<le> length ys \<Longrightarrow> segment lo n ys ! (i - lo) = ys ! i"
  by (simp add: segment_def)

lemma segment_update: "lo \<le> i \<Longrightarrow> i < n \<Longrightarrow> segment lo n (ys[i := x]) = (segment lo n ys)[i - lo := x]"
  by (simp add: segment_def drop_update_swap take_update_swap)

lemma set_segment: "n \<le> length ys \<Longrightarrow> set (segment lo n ys) = {ys ! i | i. lo \<le> i \<and> i < n}"
proof -
  assume n: "n \<le> length ys"
  have "set (segment lo n ys) = {segment lo n ys ! k | k. k < n - lo}" using n by (auto simp: set_conv_nth)
  also have "\<dots> = {ys ! i | i. lo \<le> i \<and> i < n}"
  proof (intro set_eqI iffI; clarify)
    fix k assume "k < n - lo"
    then show "\<exists>i. segment lo n ys ! k = ys ! i \<and> lo \<le> i \<and> i < n"
      using nth_segment [of lo "lo + k" n ys] n by (intro exI [of _ "lo + k"]) simp
  next
    fix i assume "lo \<le> i" "i < n"
    then show "\<exists>k. ys ! i = segment lo n ys ! k \<and> k < n - lo"
      using nth_segment [of lo i n ys] n by (intro exI [of _ "i - lo"]) simp
  qed
  finally show ?thesis .
qed

lemma length_swap [simp]: "length (swap ys i j) = length ys"
  by (simp add: swap_def)

lemma nth_swap: "i < length ys \<Longrightarrow> j < length ys \<Longrightarrow> swap ys i j ! k = (if k = j then ys ! i else if k = i then ys ! j else ys ! k)"
  by (simp add: swap_def nth_list_update)

lemma rearranged_swap:
  assumes "lo \<le> i" "i < n" "lo \<le> j" "j < n" "n \<le> length ys"
  shows "rearranged lo n ys (swap ys i j)"
proof -
  let ?s = "segment lo n ys"
  have "segment lo n (swap ys i j) = ?s[i - lo := ?s ! (j - lo), j - lo := ?s ! (i - lo)]"
    using assms by (simp add: swap_def segment_update nth_segment)
  moreover have "mset \<dots> = mset ?s" using assms by (intro mset_swap) simp_all
  ultimately show ?thesis by (simp add: rearranged_def)
qed

lemma rearranged_refl [simp]: "rearranged lo n ys ys"
  by (simp add: rearranged_def)

lemma rearranged_trans: "rearranged lo n xs ys \<Longrightarrow> rearranged lo n ys zs \<Longrightarrow> rearranged lo n xs zs"
  by (simp add: rearranged_def)

lemma segment_extend: "lo \<le> n \<Longrightarrow> n < length ys \<Longrightarrow> segment lo (Suc n) ys = segment lo n ys @ [ys ! n]"
  by (simp add: segment_def Suc_diff_le take_Suc_conv_app_nth)

lemma segment_front: "lo < n \<Longrightarrow> n \<le> length ys \<Longrightarrow> segment lo n ys = ys ! lo # segment (Suc lo) n ys"
  by (simp add: segment_def Cons_nth_drop_Suc [symmetric] take_Cons' Suc_diff_Suc [symmetric])

lemma segment_front_update: "i \<le> lo \<Longrightarrow> segment (Suc lo) n (ys[i := x]) = segment (Suc lo) n ys"
  by (simp add: segment_def)

lemma segment_empty [simp]: "segment lo lo ys = []"
  by (simp add: segment_def)

section \<open>Sifting\<close>

locale heap_tree = weak_order less
  for less :: "'a \<Rightarrow> 'a \<Rightarrow> bool" +
  fixes lo :: nat and par :: "nat \<Rightarrow> nat"
  assumes par_lo: "lo < i \<Longrightarrow> lo \<le> par i" and par_less: "lo < i \<Longrightarrow> par i < i"
begin

text \<open>Heap order on the edges whose upper end is \<open>b\<close> or later.\<close>

definition heap_from :: "nat \<Rightarrow> nat \<Rightarrow> 'a list \<Rightarrow> bool" where
  "heap_from b n ys \<longleftrightarrow> (\<forall>j. lo < j \<and> j < n \<and> b \<le> par j \<longrightarrow> \<not> less (ys ! j) (ys ! par j))"

definition is_heap :: "nat \<Rightarrow> 'a list \<Rightarrow> bool" where
  "is_heap n ys \<longleftrightarrow> n \<le> length ys \<and> heap_from lo n ys"

lemma is_heap_edge: "is_heap n ys \<Longrightarrow> lo < j \<Longrightarrow> j < n \<Longrightarrow> \<not> less (ys ! j) (ys ! par j)"
  using par_lo by (simp add: is_heap_def heap_from_def)

lemma is_heapI: "n \<le> length ys \<Longrightarrow> (\<And>j. lo < j \<Longrightarrow> j < n \<Longrightarrow> \<not> less (ys ! j) (ys ! par j)) \<Longrightarrow> is_heap n ys"
  by (simp add: is_heap_def heap_from_def)

lemma root_least: "is_heap n ys \<Longrightarrow> lo \<le> i \<Longrightarrow> i < n \<Longrightarrow> \<not> less (ys ! i) (ys ! lo)"
proof (induction i rule: less_induct)
  case (less i)
  show ?case
  proof (cases "i = lo")
    case False
    then have i: "lo < i" using less.prems(2) by simp
    have "\<not> less (ys ! par i) (ys ! lo)" using less.IH [OF par_less [OF i]] par_lo [OF i] par_less [OF i] less.prems by simp
    moreover have "\<not> less (ys ! i) (ys ! par i)" using is_heap_edge [OF less.prems(1) i less.prems(3)] .
    ultimately show ?thesis using le_trans by blast
  qed simp
qed

text \<open>The order may be violated only above \<open>i\<close>, or only below \<open>i\<close>.\<close>

definition up_pre :: "nat \<Rightarrow> nat \<Rightarrow> 'a list \<Rightarrow> bool" where
  "up_pre n i ys \<longleftrightarrow> lo \<le> i \<and> i < n \<and> n \<le> length ys
     \<and> (\<forall>j. lo < j \<and> j < n \<and> j \<noteq> i \<longrightarrow> \<not> less (ys ! j) (ys ! par j))
     \<and> (\<forall>j. lo < j \<and> j < n \<and> par j = i \<and> lo < i \<longrightarrow> \<not> less (ys ! j) (ys ! par i))"

definition down_pre :: "nat \<Rightarrow> nat \<Rightarrow> nat \<Rightarrow> 'a list \<Rightarrow> bool" where
  "down_pre b n i ys \<longleftrightarrow> lo \<le> i \<and> b \<le> i \<and> n \<le> length ys
     \<and> (\<forall>j. lo < j \<and> j < n \<and> b \<le> par j \<and> par j \<noteq> i \<longrightarrow> \<not> less (ys ! j) (ys ! par j))
     \<and> (\<forall>j. lo < j \<and> j < n \<and> par j = i \<and> lo < i \<and> b \<le> par i \<longrightarrow> \<not> less (ys ! j) (ys ! par i))"

inductive sifts_up :: "nat \<Rightarrow> 'a list \<Rightarrow> 'a list \<Rightarrow> bool" where
  up_root: "sifts_up lo ys ys"
| up_stop: "lo < i \<Longrightarrow> \<not> less (ys ! i) (ys ! par i) \<Longrightarrow> sifts_up i ys ys"
| up_step: "lo < i \<Longrightarrow> less (ys ! i) (ys ! par i) \<Longrightarrow> sifts_up (par i) (swap ys i (par i)) zs \<Longrightarrow> sifts_up i ys zs"

inductive sifts_down :: "nat \<Rightarrow> nat \<Rightarrow> 'a list \<Rightarrow> 'a list \<Rightarrow> bool" for n where
  down_stop: "(\<And>j. lo < j \<Longrightarrow> j < n \<Longrightarrow> par j = i \<Longrightarrow> \<not> less (ys ! j) (ys ! i)) \<Longrightarrow> sifts_down n i ys ys"
| down_step: "lo < c \<Longrightarrow> c < n \<Longrightarrow> par c = i \<Longrightarrow> less (ys ! c) (ys ! i) \<Longrightarrow>
    (\<And>j. lo < j \<Longrightarrow> j < n \<Longrightarrow> par j = i \<Longrightarrow> \<not> less (ys ! j) (ys ! c)) \<Longrightarrow>
    sifts_down n c (swap ys i c) zs \<Longrightarrow> sifts_down n i ys zs"

lemma up_pre_step:
  assumes "up_pre n i ys" "lo < i" "less (ys ! i) (ys ! par i)"
  shows "up_pre n (par i) (swap ys i (par i))"
proof -
  let ?p = "par i" and ?zs = "swap ys i (par i)"
  have p: "lo \<le> ?p" "?p < i" using par_lo par_less assms(2) by auto
  have i: "i < n" "n \<le> length ys" using assms(1) by (auto simp: up_pre_def)
  have nth: "?zs ! k = (if k = ?p then ys ! i else if k = i then ys ! ?p else ys ! k)" for k
    using p i by (simp add: nth_swap)
  have edge: "\<not> less (ys ! j) (ys ! par j)" if "lo < j" "j < n" "j \<noteq> i" for j using assms(1) that by (simp add: up_pre_def)
  have grand: "\<not> less (ys ! j) (ys ! ?p)" if "lo < j" "j < n" "par j = i" for j using assms(1,2) that by (simp add: up_pre_def)
  have ip: "\<not> less (ys ! ?p) (ys ! i)" using asym [OF assms(3)] .
  have 1: "\<not> less (?zs ! j) (?zs ! par j)" if j: "lo < j" "j < n" "j \<noteq> ?p" for j
  proof -
    have "par j < j" using par_less j(1) .
    then show ?thesis using j nth ip grand [of j] edge [of j] le_trans [OF ip, of "ys ! j"] by (cases "j = i") auto
  qed
  have 2: "\<not> less (?zs ! j) (?zs ! par ?p)" if j: "lo < j" "j < n" "par j = ?p" "lo < ?p" for j
  proof -
    have pp: "par ?p < ?p" "par ?p \<noteq> i" using par_less [OF j(4)] p(2) by auto
    have e: "\<not> less (ys ! ?p) (ys ! par ?p)" using edge [of ?p] j(4) p(2) i(1) by simp
    have "par j < j" using par_less j(1) .
    then show ?thesis using nth pp e j le_trans [OF e, of "ys ! j"] edge [of j] by (cases "j = i") auto
  qed
  show ?thesis using p i 1 2 by (simp add: up_pre_def)
qed

lemma sifts_up_heap: "sifts_up i ys zs \<Longrightarrow> up_pre n i ys \<Longrightarrow> is_heap n zs \<and> rearranged lo n ys zs"
proof (induction rule: sifts_up.induct)
  case (up_root ys)
  then show ?case by (auto simp: up_pre_def intro!: is_heapI)
next
  case (up_stop i ys)
  then show ?case by (auto simp: up_pre_def intro!: is_heapI)
next
  case (up_step i ys zs)
  have "rearranged lo n ys (swap ys i (par i))"
    using up_step.prems par_lo [OF up_step.hyps(1)] par_less [OF up_step.hyps(1)]
    by (intro rearranged_swap) (auto simp: up_pre_def)
  then show ?case using up_step.IH [OF up_pre_step [OF up_step.prems up_step.hyps(1,2)]] rearranged_trans by blast
qed

lemma down_pre_step:
  assumes "down_pre b n i ys" "lo < c" "c < n" "par c = i" "less (ys ! c) (ys ! i)"
    "\<And>j. lo < j \<Longrightarrow> j < n \<Longrightarrow> par j = i \<Longrightarrow> \<not> less (ys ! j) (ys ! c)"
  shows "down_pre b n c (swap ys i c)"
proof -
  let ?zs = "swap ys i c"
  have ic: "i < c" using par_less [OF assms(2)] assms(4) by simp
  have i: "lo \<le> i" "b \<le> i" "n \<le> length ys" using assms(1) by (auto simp: down_pre_def)
  have nth: "?zs ! k = (if k = c then ys ! i else if k = i then ys ! c else ys ! k)" for k
    using i ic assms(3) by (simp add: nth_swap)
  have edge: "\<not> less (ys ! j) (ys ! par j)" if "lo < j" "j < n" "b \<le> par j" "par j \<noteq> i" for j
    using assms(1) that by (simp add: down_pre_def)
  have grand: "\<not> less (ys ! c) (ys ! par i)" if "lo < i" "b \<le> par i" using assms(1-4) that by (simp add: down_pre_def)
  have 1: "\<not> less (?zs ! j) (?zs ! par j)" if j: "lo < j" "j < n" "b \<le> par j" "par j \<noteq> c" for j
  proof -
    have "par j < j" using par_less j(1) .
    then show ?thesis using j nth asym [OF assms(5)] grand edge [of j] assms(4,6) ic by (cases "j = i"; cases "j = c") auto
  qed
  have 2: "\<not> less (?zs ! j) (?zs ! par c)" if j: "lo < j" "j < n" "par j = c" for j
  proof -
    have "c < j" using par_less [OF j(1)] j(3) by simp
    then show ?thesis using nth assms(4) ic edge [of j] j i(2) by auto
  qed
  show ?thesis using ic i assms(2) 1 2 by (simp add: down_pre_def)
qed

lemma sifts_down_heap: "sifts_down n i ys zs \<Longrightarrow> down_pre b n i ys \<Longrightarrow> heap_from b n zs \<and> rearranged lo n ys zs"
proof (induction rule: sifts_down.induct)
  case (down_stop i ys)
  then show ?case by (auto simp: down_pre_def heap_from_def)
next
  case (down_step c i ys zs)
  have "rearranged lo n ys (swap ys i c)"
    using down_step.prems down_step.hyps par_less [OF down_step.hyps(1)]
    by (intro rearranged_swap) (auto simp: down_pre_def)
  then show ?case
    using down_step.IH [OF down_pre_step [OF down_step.prems down_step.hyps(1-5)]] rearranged_trans by blast
qed

lemma sifts_down_is_heap: "sifts_down n i ys zs \<Longrightarrow> down_pre lo n i ys \<Longrightarrow> is_heap n zs \<and> rearranged lo n ys zs"
  using sifts_down_heap [of n i ys zs lo] by (auto simp: is_heap_def rearranged_def down_pre_def)

text \<open>What an insertion at the end, a new root and a new element in the middle leave to repair.\<close>

lemma up_pre_append: "is_heap n ys \<Longrightarrow> lo \<le> n \<Longrightarrow> n < length zs \<Longrightarrow> (\<And>j. j < n \<Longrightarrow> zs ! j = ys ! j) \<Longrightarrow> up_pre (Suc n) n zs"
  unfolding up_pre_def
proof (intro conjI allI impI)
  fix j assume h: "is_heap n ys" "\<And>j. j < n \<Longrightarrow> zs ! j = ys ! j"
  {
    assume j: "lo < j \<and> j < Suc n \<and> j \<noteq> n"
    then have "j < n" "par j < n" using par_less [of j] by auto
    then show "\<not> less (zs ! j) (zs ! par j)" using h is_heap_edge j by simp
  }
  assume "lo < j \<and> j < Suc n \<and> par j = n \<and> lo < n"
  then show "\<not> less (zs ! j) (zs ! par n)" using par_less [of j] by auto
qed simp_all

lemma down_pre_root: "is_heap n ys \<Longrightarrow> m \<le> n \<Longrightarrow> m \<le> length zs \<Longrightarrow> (\<And>j. lo < j \<Longrightarrow> j < m \<Longrightarrow> zs ! j = ys ! j) \<Longrightarrow> down_pre lo m lo zs"
  unfolding down_pre_def
proof (intro conjI allI impI)
  fix j assume h: "is_heap n ys" "m \<le> n" "\<And>j. lo < j \<Longrightarrow> j < m \<Longrightarrow> zs ! j = ys ! j" and j: "lo < j \<and> j < m \<and> lo \<le> par j \<and> par j \<noteq> lo"
  then have "lo < par j" "par j < m" using par_less [of j] by auto
  then show "\<not> less (zs ! j) (zs ! par j)" using h is_heap_edge [OF h(1), of j] j by simp
qed (auto simp: is_heap_def)

lemma push_segment:
  assumes "is_heap n ys" "lo \<le> n" "n < length zs" "\<And>j. j < n \<Longrightarrow> zs ! j = ys ! j" "sifts_up n zs ws"
  shows "is_heap (Suc n) ws \<and> mset (segment lo (Suc n) ws) = add_mset (zs ! n) (mset (segment lo n ys)) \<and> length ws = length zs"
proof -
  have r: "is_heap (Suc n) ws" "rearranged lo (Suc n) zs ws"
    using sifts_up_heap [OF assms(5) up_pre_append [OF assms(1-4)]] by auto
  have "segment lo n zs = segment lo n ys"
    using assms(1,3,4) by (intro nth_equalityI) (auto simp: segment_def is_heap_def)
  then show ?thesis using r segment_extend [OF assms(2,3)] by (simp add: rearranged_def)
qed

lemma root_segment:
  assumes "is_heap n ys" "m \<le> n" "lo < length ys" "sifts_down m lo (ys[lo := x]) ws"
  shows "is_heap m ws \<and> length ws = length ys
    \<and> mset (segment lo m ws) = (if lo < m then add_mset x (mset (segment (Suc lo) m ys)) else {#})"
proof -
  have m: "m \<le> length ys" using assms(1,2) by (simp add: is_heap_def)
  have "down_pre lo m lo (ys[lo := x])" using m by (intro down_pre_root [OF assms(1,2)]) auto
  then have r: "is_heap m ws" "rearranged lo m (ys[lo := x]) ws" using sifts_down_is_heap [OF assms(4)] by auto
  have "segment lo m (ys[lo := x]) = (if lo < m then x # segment (Suc lo) m ys else [])"
    using segment_front [of lo m "ys[lo := x]"] m by (simp add: segment_front_update) (simp add: segment_def)
  then show ?thesis using r by (simp add: rearranged_def)
qed

lemma root_in_segment:
  assumes "is_heap n ys" "lo < n"
  shows "ys ! lo \<in># mset (segment lo n ys) \<and> (\<forall>y\<in>#mset (segment lo n ys). \<not> less y (ys ! lo))"
  using assms root_least [OF assms(1)] by (auto simp: is_heap_def set_segment)

end

end
