(* ===== verification/Priority_Queues.thy ===== *)
theory Priority_Queues
  imports Heap_Sift Fixed_Bit_Set
begin

text \<open>
  The priority queues that collect top hits: the generic binary heap of
  \<^verbatim>\<open>util/priority_queue.go\<close>, the binary heap of integers of \<^verbatim>\<open>util/long_heap.go\<close> and the
  ternary one of \<^verbatim>\<open>util/ternary_long_heap.go\<close>.  Positions are natural numbers; an access out of
  range panics.  The 64-bit values of the long heaps are only copied and compared, so they
  are integers of HOL.  \<open>var zero T\<close>, the zero value of the element type, is the argument
  \<open>zero\<close>.
\<close>

section \<open>The generic queue\<close>

record 'a PriorityQueue =
  pq_heap :: "'a list"
  pq_size :: nat
  pq_maxSize :: nat
  pq_lessFunc :: "'a \<Rightarrow> 'a \<Rightarrow> bool"

definition NewPriorityQueue :: "int \<Rightarrow> ('a \<Rightarrow> 'a \<Rightarrow> bool) option \<Rightarrow> 'a PriorityQueue outcome" where
  "NewPriorityQueue maxSize lessFunc =
     (if maxSize < 0 then Err (Errorf ''maxSize must be non-negative'')
      else case lessFunc of
             None \<Rightarrow> Err (Errorf ''lessFunc cannot be nil'')
           | Some lt \<Rightarrow> Ok \<lparr>pq_heap = [], pq_size = 0, pq_maxSize = nat maxSize, pq_lessFunc = lt\<rparr>)"

definition NewIntMinPriorityQueue :: "int \<Rightarrow> int PriorityQueue outcome" where
  "NewIntMinPriorityQueue maxSize = NewPriorityQueue maxSize (Some (\<lambda>a b. a < b))"

definition NewIntMaxPriorityQueue :: "int \<Rightarrow> int PriorityQueue outcome" where
  "NewIntMaxPriorityQueue maxSize = NewPriorityQueue maxSize (Some (\<lambda>a b. a > b))"

function pq_upHeap :: "('a \<Rightarrow> 'a \<Rightarrow> bool) \<Rightarrow> 'a list \<Rightarrow> nat \<Rightarrow> 'a list outcome" where
  "pq_upHeap lt h i =
     (if i = 0 then Ok h
      else let parent = (i - 1) div 2
           in bind_out (index h (int i)) (\<lambda>a. bind_out (index h (int parent)) (\<lambda>b.
                if lt a b then pq_upHeap lt (h[i := b, parent := a]) parent else Ok h)))"
  by pat_completeness auto
termination by (relation "measure (\<lambda>(lt, h, i). i)") auto

declare pq_upHeap.simps [simp del]

text \<open>The smaller of the candidate so far and a child that exists.\<close>

definition pq_smaller :: "('a \<Rightarrow> 'a \<Rightarrow> bool) \<Rightarrow> nat \<Rightarrow> 'a list \<Rightarrow> nat \<Rightarrow> nat \<Rightarrow> nat outcome" where
  "pq_smaller lt sz h child smallest =
     (if child < sz
      then bind_out (index h (int child)) (\<lambda>a. bind_out (index h (int smallest)) (\<lambda>b. Ok (if lt a b then child else smallest)))
      else Ok smallest)"

lemma pq_smaller_cases: "pq_smaller lt sz h child s = Ok s' \<Longrightarrow> s' = s \<or> s' = child \<and> child < sz"
  by (auto simp: pq_smaller_def bind_out_Ok_iff split: if_splits)

function pq_downHeap :: "('a \<Rightarrow> 'a \<Rightarrow> bool) \<Rightarrow> nat \<Rightarrow> 'a list \<Rightarrow> nat \<Rightarrow> 'a list outcome" where
  "pq_downHeap lt sz h i =
     bind_out (pq_smaller lt sz h (2 * i + 1) i) (\<lambda>s.
     bind_out (pq_smaller lt sz h (2 * i + 2) s) (\<lambda>smallest.
       if smallest \<noteq> i
       then bind_out (index h (int i)) (\<lambda>a. bind_out (index h (int smallest)) (\<lambda>b.
              pq_downHeap lt sz (h[i := b, smallest := a]) smallest))
       else Ok h))"
  by pat_completeness auto
termination
  by (relation "measure (\<lambda>(lt, sz, h, i). sz - i)") (auto dest!: pq_smaller_cases)

declare pq_downHeap.simps [simp del]

definition pq_Top :: "'a \<Rightarrow> 'a PriorityQueue \<Rightarrow> 'a outcome" where
  "pq_Top zero q = (if pq_size q = 0 then Ok zero else index (pq_heap q) 0)"

definition pq_Add :: "'a \<Rightarrow> 'a \<Rightarrow> 'a PriorityQueue \<Rightarrow> (bool \<times> 'a PriorityQueue) outcome" where
  "pq_Add zero e q =
     (if pq_size q < pq_maxSize q
      then bind_out (pq_upHeap (pq_lessFunc q) (pq_heap q @ [e]) (pq_size q)) (\<lambda>h.
             Ok (True, q\<lparr>pq_heap := h, pq_size := pq_size q + 1\<rparr>))
      else bind_out (pq_Top zero q) (\<lambda>tp.
             if pq_lessFunc q e tp
             then bind_out (store (pq_heap q) 0 e) (\<lambda>h. bind_out (pq_downHeap (pq_lessFunc q) (pq_size q) h 0) (\<lambda>h'.
                    Ok (True, q\<lparr>pq_heap := h'\<rparr>)))
             else Ok (False, q)))"

definition pq_Pop :: "'a \<Rightarrow> 'a PriorityQueue \<Rightarrow> ('a \<times> 'a PriorityQueue) outcome" where
  "pq_Pop zero q =
     (if pq_size q = 0 then Ok (zero, q)
      else bind_out (index (pq_heap q) 0) (\<lambda>result.
        let sz = pq_size q - 1
        in if sz > 0
           then bind_out (index (pq_heap q) (int sz)) (\<lambda>last.
                bind_out (pq_downHeap (pq_lessFunc q) sz (take sz ((pq_heap q)[0 := last])) 0) (\<lambda>h.
                  Ok (result, q\<lparr>pq_heap := h, pq_size := sz\<rparr>)))
           else Ok (result, q\<lparr>pq_heap := [], pq_size := sz\<rparr>)))"

definition pq_UpdateTop :: "'a PriorityQueue \<Rightarrow> 'a PriorityQueue outcome" where
  "pq_UpdateTop q =
     (if pq_size q > 0
      then bind_out (pq_downHeap (pq_lessFunc q) (pq_size q) (pq_heap q) 0) (\<lambda>h. Ok (q\<lparr>pq_heap := h\<rparr>))
      else Ok q)"

definition pq_UpdateTopWith :: "'a \<Rightarrow> 'a PriorityQueue \<Rightarrow> 'a PriorityQueue outcome" where
  "pq_UpdateTopWith newTop q =
     (if pq_size q = 0 then Ok q
      else bind_out (store (pq_heap q) 0 newTop) (\<lambda>h. bind_out (pq_downHeap (pq_lessFunc q) (pq_size q) h 0) (\<lambda>h'.
             Ok (q\<lparr>pq_heap := h'\<rparr>))))"

definition pq_Clear :: "'a PriorityQueue \<Rightarrow> 'a PriorityQueue" where
  "pq_Clear q = q\<lparr>pq_heap := [], pq_size := 0\<rparr>"

definition pq_Get :: "int \<Rightarrow> 'a PriorityQueue \<Rightarrow> 'a outcome" where
  "pq_Get i q = (if i < 0 \<or> i \<ge> int (pq_size q) then Err (Errorf ''index out of bounds'') else index (pq_heap q) i)"

definition pq_Set :: "int \<Rightarrow> 'a \<Rightarrow> 'a PriorityQueue \<Rightarrow> 'a PriorityQueue outcome" where
  "pq_Set i e q =
     (if i < 0 \<or> i \<ge> int (pq_size q) then Err (Errorf ''index out of bounds'')
      else bind_out (store (pq_heap q) i e) (\<lambda>h. Ok (q\<lparr>pq_heap := h\<rparr>)))"

definition pq_ToSlice :: "'a PriorityQueue \<Rightarrow> 'a list outcome" where
  "pq_ToSlice q = subslice (pq_heap q) 0 (int (pq_size q))"

text \<open>Floyd's construction: sift down the positions below \<open>k\<close>, the last one first.\<close>

fun pq_build :: "('a \<Rightarrow> 'a \<Rightarrow> bool) \<Rightarrow> nat \<Rightarrow> 'a list \<Rightarrow> nat \<Rightarrow> 'a list outcome" where
  "pq_build lt sz h 0 = Ok h"
| "pq_build lt sz h (Suc k) = bind_out (pq_downHeap lt sz h k) (\<lambda>h'. pq_build lt sz h' k)"

definition pq_AddAll :: "'a list \<Rightarrow> 'a PriorityQueue \<Rightarrow> 'a PriorityQueue outcome" where
  "pq_AddAll es q =
     (if pq_size q + length es > pq_maxSize q then Err (Errorf ''cannot add elements to a queue with remaining capacity'')
      else let sz = pq_size q + length es
           in bind_out (pq_build (pq_lessFunc q) sz (pq_heap q @ es) (sz div 2)) (\<lambda>h.
                Ok (q\<lparr>pq_heap := h, pq_size := sz\<rparr>)))"

definition pq_InsertWithOverflow :: "'a \<Rightarrow> 'a \<Rightarrow> 'a PriorityQueue \<Rightarrow> (('a \<times> bool) \<times> 'a PriorityQueue) outcome" where
  "pq_InsertWithOverflow zero e q =
     (if pq_size q < pq_maxSize q then bind_out (pq_Add zero e q) (\<lambda>(_, q'). Ok ((zero, False), q'))
      else if pq_size q > 0
      then bind_out (index (pq_heap q) 0) (\<lambda>tp.
             if pq_lessFunc q tp e
             then bind_out (store (pq_heap q) 0 e) (\<lambda>h. bind_out (pq_downHeap (pq_lessFunc q) (pq_size q) h 0) (\<lambda>h'.
                    Ok ((tp, True), q\<lparr>pq_heap := h'\<rparr>)))
             else Ok ((e, True), q))
      else Ok ((e, True), q))"

text \<open>\<open>Remove\<close>: the loop from position \<open>i\<close> on, for a predicate that is not nil.\<close>

definition pq_remove_at :: "nat \<Rightarrow> 'a PriorityQueue \<Rightarrow> (bool \<times> 'a PriorityQueue) outcome" where
  "pq_remove_at i q =
     bind_out (index (pq_heap q) (int (pq_size q - 1))) (\<lambda>last.
       let h = take (pq_size q - 1) ((pq_heap q)[i := last]); sz = pq_size q - 1
       in bind_out (if i < sz
                    then bind_out (pq_upHeap (pq_lessFunc q) h i) (\<lambda>h1. pq_downHeap (pq_lessFunc q) sz h1 i)
                    else Ok h)
            (\<lambda>h'. Ok (True, q\<lparr>pq_heap := h', pq_size := sz\<rparr>)))"

function pq_remove_loop :: "('a \<Rightarrow> bool) \<Rightarrow> nat \<Rightarrow> 'a PriorityQueue \<Rightarrow> (bool \<times> 'a PriorityQueue) outcome" where
  "pq_remove_loop eq i q =
     (if i < pq_size q
      then bind_out (index (pq_heap q) (int i)) (\<lambda>x. if eq x then pq_remove_at i q else pq_remove_loop eq (i + 1) q)
      else Ok (False, q))"
  by pat_completeness auto
termination by (relation "measure (\<lambda>(eq, i, q). pq_size q - i)") auto

declare pq_remove_loop.simps [simp del]

definition pq_Remove :: "('a \<Rightarrow> bool) option \<Rightarrow> 'a PriorityQueue \<Rightarrow> (bool \<times> 'a PriorityQueue) outcome" where
  "pq_Remove eq q = (case eq of None \<Rightarrow> Ok (False, q) | Some f \<Rightarrow> pq_remove_loop f 0 q)"

section \<open>The binary heap of integers\<close>

datatype LongHeapOrder = LongHeapMin | LongHeapMax

record LongHeap =
  lh_initialCapacity :: int
  lh_heap :: "int list"
  lh_size :: nat
  lh_order :: LongHeapOrder

definition newLongHeap :: "int \<Rightarrow> LongHeapOrder \<Rightarrow> LongHeap outcome" where
  "newLongHeap initialCapacity order =
     (if initialCapacity < 1 \<or> initialCapacity \<ge> MaxArrayLength then Panic ''initialCapacity must be > 0''
      else Ok \<lparr>lh_initialCapacity = initialCapacity, lh_heap = replicate (nat initialCapacity + 1) 0, lh_size = 0, lh_order = order\<rparr>)"

definition NewLongHeapMin :: "int \<Rightarrow> LongHeap outcome" where
  "NewLongHeapMin initialCapacity = newLongHeap initialCapacity LongHeapMin"

definition NewLongHeapMax :: "int \<Rightarrow> LongHeap outcome" where
  "NewLongHeapMax initialCapacity = newLongHeap initialCapacity LongHeapMax"

definition NewLongHeapFilled :: "int \<Rightarrow> int \<Rightarrow> LongHeap outcome" where
  "NewLongHeapFilled sz initialValue =
     bind_out (newLongHeap sz LongHeapMin) (\<lambda>h.
       Ok (h\<lparr>lh_heap := 0 # replicate (nat sz) initialValue, lh_size := nat sz\<rparr>))"

primrec cmpLess :: "LongHeapOrder \<Rightarrow> int \<Rightarrow> int \<Rightarrow> bool" where
  "cmpLess LongHeapMin a b = (a < b)"
| "cmpLess LongHeapMax a b = (a > b)"

primrec cmpStrict :: "LongHeapOrder \<Rightarrow> int \<Rightarrow> int \<Rightarrow> bool" where
  "cmpStrict LongHeapMin a tp = (a < tp)"
| "cmpStrict LongHeapMax a tp = (a > tp)"

function lh_up_loop :: "LongHeapOrder \<Rightarrow> int \<Rightarrow> int list \<Rightarrow> nat \<Rightarrow> nat \<Rightarrow> (int list \<times> nat) outcome" where
  "lh_up_loop order value h i j =
     (if j > 0
      then bind_out (index h (int j)) (\<lambda>p.
             if cmpLess order value p
             then bind_out (store h (int i) p) (\<lambda>h'. lh_up_loop order value h' j (j div 2))
             else Ok (h, i))
      else Ok (h, i))"
  by pat_completeness auto
termination by (relation "measure (\<lambda>(order, value, h, i, j). j)") auto

declare lh_up_loop.simps [simp del]

definition lh_upHeap :: "LongHeapOrder \<Rightarrow> int list \<Rightarrow> nat \<Rightarrow> int list outcome" where
  "lh_upHeap order h origPos =
     bind_out (index h (int origPos)) (\<lambda>value.
     bind_out (lh_up_loop order value h origPos (origPos div 2)) (\<lambda>(h', i). store h' (int i) value))"

definition lh_child :: "LongHeapOrder \<Rightarrow> nat \<Rightarrow> int list \<Rightarrow> nat \<Rightarrow> nat outcome" where
  "lh_child order sz h j =
     (let k = j + 1
      in if k \<le> sz
         then bind_out (index h (int k)) (\<lambda>a. bind_out (index h (int j)) (\<lambda>b. Ok (if cmpLess order a b then k else j)))
         else Ok j)"

text \<open>The loop starts at a child of the root, so \<open>j\<close> is positive; the test is for termination.\<close>

function lh_down_loop :: "LongHeapOrder \<Rightarrow> nat \<Rightarrow> int \<Rightarrow> int list \<Rightarrow> nat \<Rightarrow> nat \<Rightarrow> (int list \<times> nat) outcome" where
  "lh_down_loop order sz value h i j =
     (if 0 < j \<and> j \<le> sz
      then bind_out (index h (int j)) (\<lambda>x.
             if cmpLess order x value
             then bind_out (store h (int i) x) (\<lambda>h'. bind_out (lh_child order sz h' (2 * j)) (\<lambda>j'.
                    lh_down_loop order sz value h' j j'))
             else Ok (h, i))
      else Ok (h, i))"
  by pat_completeness auto
termination
  by (relation "measure (\<lambda>(order, sz, value, h, i, j). Suc sz - j)")
    (auto simp: lh_child_def Let_def bind_out_Ok_iff split: if_splits)

declare lh_down_loop.simps [simp del]

definition lh_downHeap :: "LongHeapOrder \<Rightarrow> nat \<Rightarrow> int list \<Rightarrow> nat \<Rightarrow> int list outcome" where
  "lh_downHeap order sz h i =
     bind_out (index h (int i)) (\<lambda>value.
     bind_out (lh_child order sz h (2 * i)) (\<lambda>j.
     bind_out (lh_down_loop order sz value h i j) (\<lambda>(h', i'). store h' (int i') value)))"

definition lh_Top :: "LongHeap \<Rightarrow> int outcome" where
  "lh_Top h = index (lh_heap h) 1"

definition lh_Clear :: "LongHeap \<Rightarrow> LongHeap" where
  "lh_Clear h = h\<lparr>lh_size := 0\<rparr>"

definition lh_Push :: "int \<Rightarrow> LongHeap \<Rightarrow> (int \<times> LongHeap) outcome" where
  "lh_Push element h =
     (let sz = lh_size h + 1;
          heap = (if sz = length (lh_heap h)
                  then lh_heap h @ replicate ((sz * 3 + 1) div 2 - length (lh_heap h)) 0
                  else lh_heap h)
      in bind_out (store heap (int sz) element) (\<lambda>h1.
         bind_out (lh_upHeap (lh_order h) h1 sz) (\<lambda>h2.
         bind_out (index h2 1) (\<lambda>tp. Ok (tp, h\<lparr>lh_heap := h2, lh_size := sz\<rparr>)))))"

definition lh_UpdateTop :: "int \<Rightarrow> LongHeap \<Rightarrow> (int \<times> LongHeap) outcome" where
  "lh_UpdateTop value h =
     bind_out (store (lh_heap h) 1 value) (\<lambda>h1.
     bind_out (lh_downHeap (lh_order h) (lh_size h) h1 1) (\<lambda>h2.
     bind_out (index h2 1) (\<lambda>tp. Ok (tp, h\<lparr>lh_heap := h2\<rparr>))))"

definition lh_InsertWithOverflow :: "int \<Rightarrow> LongHeap \<Rightarrow> (bool \<times> LongHeap) outcome" where
  "lh_InsertWithOverflow value h =
     (if int (lh_size h) \<ge> lh_initialCapacity h
      then bind_out (index (lh_heap h) 1) (\<lambda>tp.
             if cmpStrict (lh_order h) value tp then Ok (False, h)
             else bind_out (lh_UpdateTop value h) (\<lambda>(_, h'). Ok (True, h')))
      else bind_out (lh_Push value h) (\<lambda>(_, h'). Ok (True, h')))"

definition lh_Pop :: "LongHeap \<Rightarrow> (int \<times> LongHeap) outcome" where
  "lh_Pop h =
     (if lh_size h = 0 then Panic ''the heap is empty''
      else bind_out (index (lh_heap h) 1) (\<lambda>result.
           bind_out (index (lh_heap h) (int (lh_size h))) (\<lambda>last.
           bind_out (store (lh_heap h) 1 last) (\<lambda>h1.
           bind_out (lh_downHeap (lh_order h) (lh_size h - 1) h1 1) (\<lambda>h2.
             Ok (result, h\<lparr>lh_heap := h2, lh_size := lh_size h - 1\<rparr>))))))"

text \<open>\<open>PushAll\<close> of another heap: the elements from position \<open>i\<close> on.\<close>

function lh_push_from :: "nat \<Rightarrow> LongHeap \<Rightarrow> LongHeap \<Rightarrow> LongHeap outcome" where
  "lh_push_from i other h =
     (if i \<le> lh_size other
      then bind_out (index (lh_heap other) (int i)) (\<lambda>x. bind_out (lh_Push x h) (\<lambda>(_, h'). lh_push_from (i + 1) other h'))
      else Ok h)"
  by pat_completeness auto
termination by (relation "measure (\<lambda>(i, other, h). Suc (lh_size other) - i)") auto

declare lh_push_from.simps [simp del]

definition lh_PushAll :: "LongHeap \<Rightarrow> LongHeap \<Rightarrow> LongHeap outcome" where
  "lh_PushAll other h = lh_push_from 1 other h"

definition lh_Get :: "int \<Rightarrow> LongHeap \<Rightarrow> int outcome" where
  "lh_Get i h = index (lh_heap h) i"

section \<open>The ternary heap of integers\<close>

record TernaryLongHeap =
  th_initialCapacity :: int
  th_heap :: "int list"
  th_size :: nat

definition NewTernaryLongHeap :: "int \<Rightarrow> TernaryLongHeap outcome" where
  "NewTernaryLongHeap initialCapacity =
     (if initialCapacity < 1 \<or> initialCapacity \<ge> MaxArrayLength then Panic ''initialCapacity must be > 0''
      else Ok \<lparr>th_initialCapacity = initialCapacity, th_heap = replicate (nat initialCapacity + 1) 0, th_size = 0\<rparr>)"

definition NewTernaryLongHeapFilled :: "nat \<Rightarrow> int \<Rightarrow> TernaryLongHeap outcome" where
  "NewTernaryLongHeapFilled sz initialValue =
     (let capacity = (if sz = 0 then 1 else sz)
      in bind_out (NewTernaryLongHeap (int capacity)) (\<lambda>h.
           Ok (h\<lparr>th_heap := 0 # replicate sz initialValue @ replicate (capacity - sz) 0, th_size := sz\<rparr>)))"

function tern_up_loop :: "int \<Rightarrow> int list \<Rightarrow> nat \<Rightarrow> (int list \<times> nat) outcome" where
  "tern_up_loop value heap i =
     (if i > 1
      then let parent = (i - 2) div 3 + 1
           in bind_out (index heap (int parent)) (\<lambda>parentVal.
                if value \<ge> parentVal then Ok (heap, i)
                else bind_out (store heap (int i) parentVal) (\<lambda>heap'. tern_up_loop value heap' parent))
      else Ok (heap, i))"
  by pat_completeness auto
termination by (relation "measure (\<lambda>(value, heap, i). i)") auto

declare tern_up_loop.simps [simp del]

definition ternaryUpHeap :: "int list \<Rightarrow> nat \<Rightarrow> int list outcome" where
  "ternaryUpHeap heap i =
     bind_out (index heap (int i)) (\<lambda>value. bind_out (tern_up_loop value heap i) (\<lambda>(heap', i'). store heap' (int i') value))"

function tern_best :: "int list \<Rightarrow> nat \<Rightarrow> nat \<Rightarrow> nat \<Rightarrow> int \<Rightarrow> (nat \<times> int) outcome" where
  "tern_best heap c lastChild best bestVal =
     (if c \<le> lastChild
      then bind_out (index heap (int c)) (\<lambda>v.
             if v < bestVal then tern_best heap (c + 1) lastChild c v else tern_best heap (c + 1) lastChild best bestVal)
      else Ok (best, bestVal))"
  by pat_completeness auto
termination by (relation "measure (\<lambda>(heap, c, lastChild, best, bestVal). Suc lastChild - c)") auto

declare tern_best.simps [simp del]

lemma tern_best_range: "tern_best heap c lastChild best bestVal = Ok (b, v) \<Longrightarrow> b = best \<or> c \<le> b \<and> b \<le> lastChild"
proof (induction heap c lastChild best bestVal rule: tern_best.induct)
  case (1 heap c lastChild best bestVal)
  then show ?case
    by (subst (asm) (3) tern_best.simps) (fastforce simp: bind_out_Ok_iff split: if_splits)
qed

function tern_down_loop :: "nat \<Rightarrow> int \<Rightarrow> int list \<Rightarrow> nat \<Rightarrow> (int list \<times> nat) outcome" where
  "tern_down_loop sz value heap i =
     (let firstChild = 3 * (i - 1) + 2
      in if firstChild > sz then Ok (heap, i)
         else let lastChild = (if firstChild + 3 - 1 > sz then sz else firstChild + 3 - 1)
              in bind_out (index heap (int firstChild)) (\<lambda>v0.
                 bind_out (tern_best heap (firstChild + 1) lastChild firstChild v0) (\<lambda>(best, bestVal).
                   if bestVal \<ge> value then Ok (heap, i)
                   else bind_out (store heap (int i) bestVal) (\<lambda>heap'. tern_down_loop sz value heap' best))))"
  by pat_completeness auto
termination
  by (relation "measure (\<lambda>(sz, value, heap, i). Suc sz - i)") (auto dest!: tern_best_range split: if_splits)

declare tern_down_loop.simps [simp del]

definition ternaryDownHeap :: "int list \<Rightarrow> nat \<Rightarrow> nat \<Rightarrow> int list outcome" where
  "ternaryDownHeap heap i sz =
     bind_out (index heap (int i)) (\<lambda>value. bind_out (tern_down_loop sz value heap i) (\<lambda>(heap', i'). store heap' (int i') value))"

definition th_Top :: "TernaryLongHeap \<Rightarrow> int outcome" where
  "th_Top h = index (th_heap h) 1"

definition th_Clear :: "TernaryLongHeap \<Rightarrow> TernaryLongHeap" where
  "th_Clear h = h\<lparr>th_size := 0\<rparr>"

definition GrowExactInt64 :: "int list \<Rightarrow> int \<Rightarrow> int list outcome" where
  "GrowExactInt64 arr newLength =
     (if newLength < int (length arr) then Panic ''IndexOutOfBoundsException''
      else Ok (arr @ replicate (nat newLength - length arr) 0))"

definition th_Push :: "int \<Rightarrow> TernaryLongHeap \<Rightarrow> (int \<times> TernaryLongHeap) outcome" where
  "th_Push element h =
     (let sz = th_size h + 1
      in bind_out (if sz = length (th_heap h) then GrowExactInt64 (th_heap h) (int ((sz * 3 + 1) div 2)) else Ok (th_heap h)) (\<lambda>heap.
         bind_out (store heap (int sz) element) (\<lambda>h1.
         bind_out (ternaryUpHeap h1 sz) (\<lambda>h2.
         bind_out (index h2 1) (\<lambda>tp. Ok (tp, h\<lparr>th_heap := h2, th_size := sz\<rparr>))))))"

definition th_UpdateTop :: "int \<Rightarrow> TernaryLongHeap \<Rightarrow> (int \<times> TernaryLongHeap) outcome" where
  "th_UpdateTop value h =
     bind_out (store (th_heap h) 1 value) (\<lambda>h1.
     bind_out (ternaryDownHeap h1 1 (th_size h)) (\<lambda>h2.
     bind_out (index h2 1) (\<lambda>tp. Ok (tp, h\<lparr>th_heap := h2\<rparr>))))"

definition th_InsertWithOverflow :: "int \<Rightarrow> TernaryLongHeap \<Rightarrow> (bool \<times> TernaryLongHeap) outcome" where
  "th_InsertWithOverflow value h =
     (if int (th_size h) \<ge> th_initialCapacity h
      then bind_out (index (th_heap h) 1) (\<lambda>tp.
             if value < tp then Ok (False, h) else bind_out (th_UpdateTop value h) (\<lambda>(_, h'). Ok (True, h')))
      else bind_out (th_Push value h) (\<lambda>(_, h'). Ok (True, h')))"

definition th_Pop :: "TernaryLongHeap \<Rightarrow> (int \<times> TernaryLongHeap) outcome" where
  "th_Pop h =
     (if th_size h \<le> 0 then Panic ''The heap is empty''
      else bind_out (index (th_heap h) 1) (\<lambda>result.
           bind_out (index (th_heap h) (int (th_size h))) (\<lambda>last.
           bind_out (store (th_heap h) 1 last) (\<lambda>h1.
           bind_out (ternaryDownHeap h1 1 (th_size h - 1)) (\<lambda>h2.
             Ok (result, h\<lparr>th_heap := h2, th_size := th_size h - 1\<rparr>))))))"

function th_push_from :: "nat \<Rightarrow> TernaryLongHeap \<Rightarrow> TernaryLongHeap \<Rightarrow> TernaryLongHeap outcome" where
  "th_push_from i other h =
     (if i \<le> th_size other
      then bind_out (index (th_heap other) (int i)) (\<lambda>x. bind_out (th_Push x h) (\<lambda>(_, h'). th_push_from (i + 1) other h'))
      else Ok h)"
  by pat_completeness auto
termination by (relation "measure (\<lambda>(i, other, h). Suc (th_size other) - i)") auto

declare th_push_from.simps [simp del]

definition th_PushAll :: "TernaryLongHeap \<Rightarrow> TernaryLongHeap \<Rightarrow> TernaryLongHeap outcome" where
  "th_PushAll other h = th_push_from 1 other h"

definition th_Get :: "int \<Rightarrow> TernaryLongHeap \<Rightarrow> int outcome" where
  "th_Get i h = index (th_heap h) i"

section \<open>The generic queue is a multiset\<close>

definition pq_wf :: "'a PriorityQueue \<Rightarrow> bool" where
  "pq_wf q \<longleftrightarrow> pq_size q = length (pq_heap q) \<and> pq_size q \<le> pq_maxSize q
     \<and> (\<forall>i. 0 < i \<and> i < pq_size q \<longrightarrow> \<not> pq_lessFunc q (pq_heap q ! i) (pq_heap q ! ((i - 1) div 2)))"

definition pq_contents :: "'a PriorityQueue \<Rightarrow> 'a multiset" where
  "pq_contents q = mset (pq_heap q)"

text \<open>An element that no other precedes.\<close>

definition pq_extreme :: "'a PriorityQueue \<Rightarrow> 'a \<Rightarrow> bool" where
  "pq_extreme q x \<longleftrightarrow> x \<in># pq_contents q \<and> (\<forall>y\<in>#pq_contents q. \<not> pq_lessFunc q y x)"

definition pq_yields :: "'a PriorityQueue \<Rightarrow> 'a multiset \<Rightarrow> 'a PriorityQueue \<Rightarrow> bool" where
  "pq_yields q M q' \<longleftrightarrow> pq_wf q' \<and> pq_contents q' = M \<and> pq_maxSize q' = pq_maxSize q \<and> pq_lessFunc q' = pq_lessFunc q"

lemma pq_smaller_Ok:
  "s < length h \<Longrightarrow> sz \<le> length h \<Longrightarrow> pq_smaller lt sz h c s = Ok (if c < sz \<and> lt (h ! c) (h ! s) then c else s)"
  by (simp add: pq_smaller_def)

definition pq_parent :: "nat \<Rightarrow> nat" where
  "pq_parent i = (i - 1) div 2"

lemma children2: "0 < j \<Longrightarrow> pq_parent j = i \<longleftrightarrow> j = 2 * i + 1 \<or> j = 2 * i + 2"
  by (auto simp: pq_parent_def)

locale queue_order = weak_order lt
  for lt :: "'a \<Rightarrow> 'a \<Rightarrow> bool"

sublocale queue_order \<subseteq> tree: heap_tree lt 0 pq_parent
  by unfold_locales (auto simp: pq_parent_def)

context queue_order
begin

lemma upHeap_sifts: "i < length h \<Longrightarrow> \<exists>h'. pq_upHeap lt h i = Ok h' \<and> tree.sifts_up i h h'"
proof (induction i arbitrary: h rule: less_induct)
  case (less i)
  show ?case
  proof (cases "i = 0")
    case True
    then show ?thesis using tree.up_root by (auto simp: pq_upHeap.simps)
  next
    case False
    let ?p = "pq_parent i"
    have p: "?p < i" using False by (simp add: pq_parent_def)
    then have "?p < length h" using less.prems by simp
    then have e: "pq_upHeap lt h i = (if lt (h ! i) (h ! ?p) then pq_upHeap lt (swap h i ?p) ?p else Ok h)"
      using False less.prems by (subst pq_upHeap.simps) (simp add: swap_def Let_def pq_parent_def)
    show ?thesis
    proof (cases "lt (h ! i) (h ! ?p)")
      case True
      obtain h' where "pq_upHeap lt (swap h i ?p) ?p = Ok h'" "tree.sifts_up ?p (swap h i ?p) h'"
        using less.IH [OF p, of "swap h i ?p"] p less.prems by auto
      then show ?thesis using e True False tree.up_step [of i h h'] by auto
    next
      case no: False
      then show ?thesis using e False tree.up_stop [of i h] by auto
    qed
  qed
qed

lemma downHeap_sifts: "i < sz \<Longrightarrow> sz \<le> length h \<Longrightarrow> \<exists>h'. pq_downHeap lt sz h i = Ok h' \<and> tree.sifts_down sz i h h'"
proof (induction "sz - i" arbitrary: i h rule: less_induct)
  case less
  define s where "s = (if 2 * i + 1 < sz \<and> lt (h ! (2 * i + 1)) (h ! i) then 2 * i + 1 else i)"
  define m where "m = (if 2 * i + 2 < sz \<and> lt (h ! (2 * i + 2)) (h ! s) then 2 * i + 2 else s)"
  have s: "s < sz" using less.prems by (simp add: s_def)
  have m: "m < sz" using s by (simp add: m_def)
  have "pq_smaller lt sz h (2 * i + 1) i = Ok s" "pq_smaller lt sz h (2 * i + 2) s = Ok m"
    using pq_smaller_Ok [of i h sz] pq_smaller_Ok [of s h sz] less.prems s unfolding s_def m_def by auto
  then have e: "pq_downHeap lt sz h i = (if m \<noteq> i then pq_downHeap lt sz (swap h i m) m else Ok h)"
    using less.prems m by (subst pq_downHeap.simps) (simp add: swap_def)
  have left: "\<not> lt (h ! (2 * i + 1)) (h ! s)" if "2 * i + 1 < sz" using that by (auto simp: s_def)
  have right: "\<not> lt (h ! (2 * i + 2)) (h ! m)" if "2 * i + 2 < sz" using that by (auto simp: m_def)
  have sm: "\<not> lt (h ! s) (h ! m)" using asym by (auto simp: m_def)
  have min: "\<not> lt (h ! j) (h ! m)" if "0 < j" "j < sz" "pq_parent j = i" for j
    using children2 [OF that(1), of i] that(2,3) right le_trans [OF sm left] by auto
  show ?case
  proof (cases "m = i")
    case True
    then show ?thesis using e min tree.down_stop [of sz i h] by auto
  next
    case False
    then have mi: "0 < m" "pq_parent m = i" "i < m" by (auto simp: m_def s_def pq_parent_def split: if_splits)
    have "s = i \<or> lt (h ! s) (h ! i)" "m = s \<or> lt (h ! m) (h ! s)" by (simp_all add: m_def s_def)
    then have lt: "lt (h ! m) (h ! i)" using False less_trans by blast
    have "sz - m < sz - i" using m mi(3) by linarith
    from less.hyps [OF this m, of "swap h i m"] obtain h' where "pq_downHeap lt sz (swap h i m) m = Ok h'" "tree.sifts_down sz m (swap h i m) h'"
      using less.prems by auto
    then show ?thesis using e False tree.down_step [of m sz i h h'] mi m lt min by auto
  qed
qed

lemma wf_iff: "pq_lessFunc q = lt \<Longrightarrow> pq_wf q \<longleftrightarrow> pq_size q = length (pq_heap q) \<and> pq_size q \<le> pq_maxSize q \<and> tree.is_heap (pq_size q) (pq_heap q)"
  by (auto simp: pq_wf_def tree.is_heap_def tree.heap_from_def pq_parent_def)

lemma rearranged_mset: "rearranged 0 (length h) h h' \<Longrightarrow> mset h' = mset h \<and> length h' = length h"
  by (auto simp: rearranged_def segment_def)

text \<open>Sifting down from the root after the root has been replaced.\<close>

lemma downHeap_root:
  assumes "tree.is_heap n ys" "sz \<le> n" "0 < sz" "length h = sz" "\<And>j. 0 < j \<Longrightarrow> j < sz \<Longrightarrow> h ! j = ys ! j"
  shows "\<exists>h'. pq_downHeap lt sz h 0 = Ok h' \<and> tree.is_heap sz h' \<and> mset h' = mset h \<and> length h' = sz"
proof -
  obtain h' where h': "pq_downHeap lt sz h 0 = Ok h'" "tree.sifts_down sz 0 h h'" using downHeap_sifts [of 0 sz h] assms(3,4) by auto
  have "tree.down_pre 0 sz 0 h" using assms(4,5) by (intro tree.down_pre_root [OF assms(1,2)]) auto
  then show ?thesis using tree.sifts_down_is_heap [OF h'(2)] h'(1) rearranged_mset [of h h'] assms(4) by auto
qed

lemma top_extreme: "pq_wf q \<Longrightarrow> pq_lessFunc q = lt \<Longrightarrow> 0 < pq_size q \<Longrightarrow> pq_extreme q (pq_heap q ! 0)"
  using tree.root_least [of "pq_size q" "pq_heap q"]
  by (auto simp: pq_extreme_def pq_contents_def wf_iff in_set_conv_nth)

lemma replace_root:
  assumes "pq_wf q" "pq_lessFunc q = lt" "0 < pq_size q"
  shows "\<exists>h'. pq_downHeap lt (pq_size q) ((pq_heap q)[0 := e]) 0 = Ok h'
    \<and> pq_yields q (add_mset e (pq_contents q - {#pq_heap q ! 0#})) (q\<lparr>pq_heap := h'\<rparr>)"
proof -
  have wf: "pq_size q = length (pq_heap q)" "pq_size q \<le> pq_maxSize q" "tree.is_heap (pq_size q) (pq_heap q)"
    using assms(1) unfolding wf_iff [OF assms(2)] by blast+
  obtain h' where h': "pq_downHeap lt (pq_size q) ((pq_heap q)[0 := e]) 0 = Ok h'" "tree.is_heap (pq_size q) h'"
      "mset h' = mset ((pq_heap q)[0 := e])" "length h' = pq_size q"
    using downHeap_root [OF wf(3) order_refl assms(3), of "(pq_heap q)[0 := e]"] wf(1) by auto
  moreover have "mset ((pq_heap q)[0 := e]) = add_mset e (pq_contents q - {#pq_heap q ! 0#})"
    using assms(3) wf(1) by (simp add: mset_update pq_contents_def)
  ultimately show ?thesis using wf assms(2) by (simp add: pq_yields_def wf_iff pq_contents_def)
qed

lemma pq_simps: "pq_size q = length (pq_heap q) \<Longrightarrow> 0 < pq_size q \<Longrightarrow> index (pq_heap q) 0 = Ok (pq_heap q ! 0) \<and> store (pq_heap q) 0 e = Ok ((pq_heap q)[0 := e])"
  by simp

lemma add_room:
  assumes "pq_wf q" "pq_lessFunc q = lt" "pq_size q < pq_maxSize q"
  shows "\<exists>q'. pq_Add zero e q = Ok (True, q') \<and> pq_yields q (add_mset e (pq_contents q)) q'"
proof -
  let ?h = "pq_heap q @ [e]"
  have wf: "pq_size q = length (pq_heap q)" "tree.is_heap (pq_size q) (pq_heap q)"
    using assms(1) unfolding wf_iff [OF assms(2)] by blast+
  obtain h' where h': "pq_upHeap lt ?h (pq_size q) = Ok h'" "tree.sifts_up (pq_size q) ?h h'" using upHeap_sifts [of "pq_size q" ?h] wf(1) by auto
  have "tree.up_pre (Suc (pq_size q)) (pq_size q) ?h"
    using wf(1) by (intro tree.up_pre_append [OF wf(2)]) (auto simp: nth_append)
  then have "tree.is_heap (Suc (pq_size q)) h'" "mset h' = mset ?h" "length h' = length ?h"
    using tree.sifts_up_heap [OF h'(2)] rearranged_mset [of ?h h'] wf(1) by auto
  then show ?thesis using h'(1) assms(2,3) wf(1) by (simp add: pq_Add_def pq_yields_def wf_iff pq_contents_def)
qed

lemma add_full:
  assumes "pq_wf q" "pq_lessFunc q = lt" "pq_size q = pq_maxSize q" "0 < pq_size q"
  shows "if lt e (pq_heap q ! 0)
    then \<exists>q'. pq_Add zero e q = Ok (True, q') \<and> pq_yields q (add_mset e (pq_contents q - {#pq_heap q ! 0#})) q'
    else pq_Add zero e q = Ok (False, q)"
proof -
  have "pq_size q = length (pq_heap q)" using assms(1) by (simp add: pq_wf_def)
  then show ?thesis
    using replace_root [OF assms(1,2,4), of e] pq_simps [of q e] assms(2-4) by (auto simp: pq_Add_def pq_Top_def)
qed

lemma insert_full:
  assumes "pq_wf q" "pq_lessFunc q = lt" "pq_size q = pq_maxSize q" "0 < pq_size q"
  shows "if lt (pq_heap q ! 0) e
    then \<exists>q'. pq_InsertWithOverflow zero e q = Ok ((pq_heap q ! 0, True), q') \<and> pq_yields q (add_mset e (pq_contents q - {#pq_heap q ! 0#})) q'
    else pq_InsertWithOverflow zero e q = Ok ((e, True), q)"
proof -
  have "pq_size q = length (pq_heap q)" using assms(1) by (simp add: pq_wf_def)
  then show ?thesis
    using replace_root [OF assms(1,2,4), of e] pq_simps [of q e] assms(2-4) by (auto simp: pq_InsertWithOverflow_def)
qed

lemma update_top:
  assumes "pq_wf q" "pq_lessFunc q = lt" "0 < pq_size q"
  shows "\<exists>q'. pq_UpdateTopWith e q = Ok q' \<and> pq_yields q (add_mset e (pq_contents q - {#pq_heap q ! 0#})) q'"
    "\<exists>q'. pq_UpdateTop (q\<lparr>pq_heap := (pq_heap q)[0 := e]\<rparr>) = Ok q' \<and> pq_yields q (add_mset e (pq_contents q - {#pq_heap q ! 0#})) q'"
proof -
  have "pq_size q = length (pq_heap q)" using assms(1) by (simp add: pq_wf_def)
  then show "\<exists>q'. pq_UpdateTopWith e q = Ok q' \<and> pq_yields q (add_mset e (pq_contents q - {#pq_heap q ! 0#})) q'"
    "\<exists>q'. pq_UpdateTop (q\<lparr>pq_heap := (pq_heap q)[0 := e]\<rparr>) = Ok q' \<and> pq_yields q (add_mset e (pq_contents q - {#pq_heap q ! 0#})) q'"
    using replace_root [OF assms, of e] pq_simps [of q e] assms(2,3) by (auto simp: pq_UpdateTopWith_def pq_UpdateTop_def)
qed

lemma take_last_mset:
  assumes "i < length h"
  shows "mset (take (length h - 1) (h[i := last h])) = mset h - {#h ! i#}"
proof -
  have ne: "h \<noteq> []" using assms by auto
  show ?thesis
  proof (cases "i = length h - 1")
    case True
    then have "h ! i = last h" using ne by (simp add: last_conv_nth)
    moreover have "mset h = add_mset (last h) (mset (butlast h))" using ne by (metis append_butlast_last_id mset_append mset.simps(2) mset_single_iff_right add_mset_add_single mset_zero_iff_right)
    ultimately show ?thesis using True by (simp add: butlast_conv_take)
  next
    case False
    then have i: "i < length (butlast h)" using assms by simp
    have b: "take (length h - 1) (h[i := last h]) = (butlast h)[i := last h]" by (simp add: take_update_swap butlast_conv_take)
    have "h = butlast h @ [last h]" using ne by simp
    then have m: "mset h = add_mset (last h) (mset (butlast h))" by (metis mset_append mset.simps union_mset_add_mset_right add_0_right)
    have "h ! i = butlast h ! i" using i by (simp add: nth_butlast)
    then show ?thesis using b i m by (simp add: mset_update)
  qed
qed

lemma pop_some:
  assumes "pq_wf q" "pq_lessFunc q = lt" "0 < pq_size q"
  shows "\<exists>q'. pq_Pop zero q = Ok (pq_heap q ! 0, q') \<and> pq_yields q (pq_contents q - {#pq_heap q ! 0#}) q'"
proof -
  have wf: "pq_size q = length (pq_heap q)" "pq_size q \<le> pq_maxSize q" "tree.is_heap (pq_size q) (pq_heap q)"
    using assms(1) unfolding wf_iff [OF assms(2)] by blast+
  let ?n = "pq_size q - 1" and ?h = "take (pq_size q - 1) ((pq_heap q)[0 := pq_heap q ! (pq_size q - 1)])"
  have ne: "pq_heap q \<noteq> []" using wf(1) assms(3) by auto
  have l: "pq_heap q ! (pq_size q - 1) = last (pq_heap q)" using wf(1) ne by (simp add: last_conv_nth)
  have idx: "index (pq_heap q) (int ?n) = Ok (pq_heap q ! ?n)" using wf(1) assms(3) by (simp add: index_def)
  have ms: "mset ?h = pq_contents q - {#pq_heap q ! 0#}"
    using take_last_mset [of 0 "pq_heap q"] wf(1) ne l by (simp add: pq_contents_def)
  show ?thesis
  proof (cases "?n > 0")
    case True
    obtain h' where "pq_downHeap lt ?n ?h 0 = Ok h'" "tree.is_heap ?n h'" "mset h' = mset ?h" "length h' = ?n"
      using downHeap_root [OF wf(3) _ True, of ?h] wf(1) by (auto simp: nth_list_update)
    moreover have "pq_Pop zero q = bind_out (pq_downHeap lt ?n ?h 0) (\<lambda>h. Ok (pq_heap q ! 0, q\<lparr>pq_heap := h, pq_size := ?n\<rparr>))"
      using True pq_simps [OF wf(1) assms(3)] idx assms(2) by (simp add: pq_Pop_def Let_def)
    ultimately show ?thesis using wf(2) ms assms(2) by (simp add: pq_yields_def wf_iff pq_contents_def)
  next
    case False
    then have "mset ?h = {#}" by simp
    then have "pq_contents q - {#pq_heap q ! 0#} = {#}" unfolding ms .
    then show ?thesis using False wf pq_simps [OF wf(1) assms(3)] assms(2,3)
      by (simp add: pq_Pop_def pq_yields_def wf_iff pq_contents_def tree.is_heap_def tree.heap_from_def)
  qed
qed

lemma build_heap:
  "tree.heap_from k sz h \<Longrightarrow> length h = sz \<Longrightarrow> k \<le> sz \<Longrightarrow> \<exists>h'. pq_build lt sz h k = Ok h' \<and> tree.is_heap sz h' \<and> mset h' = mset h"
proof (induction k arbitrary: h)
  case 0
  then show ?case by (simp add: tree.is_heap_def)
next
  case (Suc k)
  obtain h1 where h1: "pq_downHeap lt sz h k = Ok h1" "tree.sifts_down sz k h h1" using downHeap_sifts [of k sz h] Suc.prems by auto
  have "\<not> lt (h ! j) (h ! pq_parent j)" if "0 < j" "j < sz" "k \<le> pq_parent j" "pq_parent j \<noteq> k" for j
    using Suc.prems(1) that by (simp add: tree.heap_from_def)
  moreover have "\<not> k \<le> pq_parent k" if "0 < k" using tree.par_less [of k] that by simp
  ultimately have "tree.down_pre k sz k h" using Suc.prems(2) by (auto simp: tree.down_pre_def)
  then have "tree.heap_from k sz h1" "mset h1 = mset h" "length h1 = sz"
    using tree.sifts_down_heap [OF h1(2), of k] rearranged_mset [of h h1] Suc.prems(2) by auto
  then show ?case using Suc.IH [of h1] Suc.prems(3) h1(1) by auto
qed

lemma add_all:
  assumes "pq_wf q" "pq_lessFunc q = lt"
  shows "if pq_size q + length es \<le> pq_maxSize q then \<exists>q'. pq_AddAll es q = Ok q' \<and> pq_yields q (pq_contents q + mset es) q'
    else pq_AddAll es q = Err (Errorf ''cannot add elements to a queue with remaining capacity'')"
proof -
  let ?n = "pq_size q + length es" and ?h = "pq_heap q @ es"
  have wf: "pq_size q = length (pq_heap q)" using assms(1) by (simp add: pq_wf_def)
  have "tree.heap_from (?n div 2) ?n ?h" by (auto simp: tree.heap_from_def pq_parent_def)
  then obtain h' where "pq_build lt ?n ?h (?n div 2) = Ok h'" "tree.is_heap ?n h'" "mset h' = mset ?h"
    using build_heap [of "?n div 2" ?n ?h] wf by auto
  moreover then have "length h' = ?n" using wf by (metis length_append size_mset)
  ultimately show ?thesis using assms(2) wf
    by (auto simp: pq_AddAll_def Let_def pq_yields_def wf_iff pq_contents_def)
qed

lemma remove_repair:
  assumes "tree.is_heap n ys" "i < sz" "sz \<le> n" "length h = sz" "\<And>j. j < sz \<Longrightarrow> j \<noteq> i \<Longrightarrow> h ! j = ys ! j"
  shows "\<exists>h1 h2. pq_upHeap lt h i = Ok h1 \<and> pq_downHeap lt sz h1 i = Ok h2 \<and> tree.is_heap sz h2 \<and> mset h2 = mset h \<and> length h2 = sz"
proof -
  have edge: "\<not> lt (ys ! j) (ys ! pq_parent j)" if "0 < j" "j < sz" for j using tree.is_heap_edge [OF assms(1), of j] that assms(3) by simp
  have par: "pq_parent j < j" if "0 < j" for j using tree.par_less that by simp
  have keep: "\<not> lt (h ! j) (h ! pq_parent j)" if "0 < j" "j < sz" "j \<noteq> i" "pq_parent j \<noteq> i" for j
    using edge [OF that(1,2)] assms(5) [of j] assms(5) [of "pq_parent j"] par [OF that(1)] that by simp
  have grand: "\<not> lt (h ! j) (h ! pq_parent i)" if "0 < j" "j < sz" "pq_parent j = i" "0 < i" for j
    using le_trans [OF edge [OF that(4) assms(2)], of "ys ! j"] edge [OF that(1,2)] assms(2) assms(5) [of j] assms(5) [of "pq_parent i"]
      par [OF that(1)] par [OF that(4)] that by simp
  obtain h1 where h1: "pq_upHeap lt h i = Ok h1" "tree.sifts_up i h h1" using upHeap_sifts [of i h] assms(2,4) by auto
  show ?thesis
  proof (cases "0 < i \<and> lt (h ! i) (h ! pq_parent i)")
    case True
    have "\<not> lt (h ! j) (h ! pq_parent j)" if j: "0 < j" "j < sz" "j \<noteq> i" for j
    proof (cases "pq_parent j = i")
      case eq: True
      show ?thesis using le_trans [OF asym, of "h ! i" "h ! pq_parent i" "h ! j"] True grand [OF j(1,2) eq] eq by auto
    qed (use keep j in blast)
    then have "tree.up_pre sz i h" using assms(2,4) grand by (auto simp: tree.up_pre_def)
    then have r: "tree.is_heap sz h1" "mset h1 = mset h" "length h1 = sz"
      using tree.sifts_up_heap [OF h1(2)] rearranged_mset [of h h1] assms(4) by auto
    obtain h2 where h2: "pq_downHeap lt sz h1 i = Ok h2" "tree.sifts_down sz i h1 h2" using downHeap_sifts [of i sz h1] assms(2) r(3) by auto
    have "tree.down_pre 0 sz i h1"
      using r assms(2) le_trans tree.is_heap_edge [OF r(1)] by (auto simp: tree.down_pre_def)
    then show ?thesis using tree.sifts_down_is_heap [OF h2(2)] h2(1) h1(1) r rearranged_mset [of h1 h2] by auto
  next
    case False
    then have "h1 = h" using h1(2) by (auto elim: tree.sifts_up.cases)
    obtain h2 where h2: "pq_downHeap lt sz h i = Ok h2" "tree.sifts_down sz i h h2" using downHeap_sifts [of i sz h] assms(2,4) by auto
    have "\<not> lt (h ! j) (h ! pq_parent j)" if "0 < j" "j < sz" "pq_parent j \<noteq> i" for j
      using False keep that by (cases "j = i") auto
    then have "tree.down_pre 0 sz i h" using assms(2,4) grand by (auto simp: tree.down_pre_def)
    then show ?thesis using tree.sifts_down_is_heap [OF h2(2)] h2(1) h1(1) \<open>h1 = h\<close> rearranged_mset [of h h2] assms(4) by auto
  qed
qed

lemma remove_at:
  assumes "pq_wf q" "pq_lessFunc q = lt" "i < pq_size q"
  shows "\<exists>q'. pq_remove_at i q = Ok (True, q') \<and> pq_yields q (pq_contents q - {#pq_heap q ! i#}) q'"
proof -
  have wf: "pq_size q = length (pq_heap q)" "pq_size q \<le> pq_maxSize q" "tree.is_heap (pq_size q) (pq_heap q)"
    using assms(1) unfolding wf_iff [OF assms(2)] by blast+
  define n where "n = pq_size q - 1"
  define h where "h = take n ((pq_heap q)[i := pq_heap q ! n])"
  have n: "pq_size q = Suc n" "length (pq_heap q) = Suc n" using assms(3) wf(1) by (simp_all add: n_def)
  have "pq_heap q ! n = last (pq_heap q)" using n by (subst last_conv_nth) auto
  then have ms: "mset h = pq_contents q - {#pq_heap q ! i#}"
    using take_last_mset [of i "pq_heap q"] assms(3) n by (simp add: h_def pq_contents_def)
  have len: "length h = n" using n by (simp add: h_def)
  have e: "pq_remove_at i q = bind_out (if i < n then bind_out (pq_upHeap lt h i) (\<lambda>h1. pq_downHeap lt n h1 i) else Ok h)
      (\<lambda>h'. Ok (True, q\<lparr>pq_heap := h', pq_size := n\<rparr>))"
    using n assms(2) by (simp add: pq_remove_at_def h_def Let_def)
  show ?thesis
  proof (cases "i < n")
    case True
    obtain h1 h2 where "pq_upHeap lt h i = Ok h1" "pq_downHeap lt n h1 i = Ok h2" "tree.is_heap n h2" "mset h2 = mset h" "length h2 = n"
      using remove_repair [OF wf(3) True _ len] n(1) by (auto simp: h_def)
    then show ?thesis using e True ms assms(2) wf(2) n(1) by (simp add: pq_yields_def wf_iff pq_contents_def)
  next
    case False
    then have "i = n" using assms(3) n(1) by simp
    then have "h = take n (pq_heap q)" by (simp add: h_def)
    moreover have "\<not> lt (take n (pq_heap q) ! j) (take n (pq_heap q) ! pq_parent j)" if "0 < j" "j < n" for j
      using tree.is_heap_edge [OF wf(3), of j] tree.par_less [of j] that n(1) by simp
    ultimately have "tree.is_heap n h" using len by (intro tree.is_heapI) auto
    then show ?thesis using e False ms assms(2) wf(2) n(1) len by (simp add: pq_yields_def wf_iff pq_contents_def)
  qed
qed

lemma remove_loop:
  assumes "pq_wf q" "pq_lessFunc q = lt" "\<forall>k<i. k < pq_size q \<longrightarrow> \<not> eq (pq_heap q ! k)"
  shows "if \<exists>x\<in>#pq_contents q. eq x
    then \<exists>x q'. x \<in># pq_contents q \<and> eq x \<and> pq_remove_loop eq i q = Ok (True, q') \<and> pq_yields q (pq_contents q - {#x#}) q'
    else pq_remove_loop eq i q = Ok (False, q)"
  using assms(3)
proof (induction "pq_size q - i" arbitrary: i rule: less_induct)
  case less
  have len: "pq_size q = length (pq_heap q)" using assms(1) by (simp add: pq_wf_def)
  show ?case
  proof (cases "i < pq_size q")
    case True
    then have e: "pq_remove_loop eq i q = (if eq (pq_heap q ! i) then pq_remove_at i q else pq_remove_loop eq (i + 1) q)"
      using len by (subst pq_remove_loop.simps) simp
    show ?thesis
    proof (cases "eq (pq_heap q ! i)")
      case eq: True
      have "pq_heap q ! i \<in># pq_contents q" using True len by (simp add: pq_contents_def)
      then show ?thesis using remove_at [OF assms(1,2) True] e eq by auto
    next
      case False
      have st: "\<forall>k<i + 1. k < pq_size q \<longrightarrow> \<not> eq (pq_heap q ! k)" using less.prems False by (simp add: less_Suc_eq)
      have "pq_size q - (i + 1) < pq_size q - i" using True by linarith
      from less.hyps [OF this st] show ?thesis by (simp only: e False if_False)
    qed
  next
    case False
    then have "\<not> (\<exists>x\<in>#pq_contents q. eq x)" using less.prems len by (auto simp: pq_contents_def in_set_conv_nth)
    then show ?thesis using False by (subst pq_remove_loop.simps) simp
  qed
qed

end

interpretation int_min: queue_order "(<) :: int \<Rightarrow> int \<Rightarrow> bool"
  by (intro queue_order.intro int_less_order)

interpretation int_max: queue_order "(>) :: int \<Rightarrow> int \<Rightarrow> bool"
  by (intro queue_order.intro int_greater_order)

text \<open>The operations that look at an empty queue, and those that need no order.\<close>

lemma pq_empty_ops:
  assumes "pq_wf q" "pq_size q = 0"
  shows "pq_Top zero q = Ok zero \<and> pq_Pop zero q = Ok (zero, q) \<and> pq_UpdateTop q = Ok q \<and> pq_UpdateTopWith e q = Ok q
    \<and> (pq_maxSize q = 0 \<longrightarrow> pq_InsertWithOverflow zero e q = Ok ((e, True), q)
        \<and> pq_Add zero e q = (if pq_lessFunc q e zero then Panic ''index out of range'' else Ok (False, q)))"
  using assms by (simp add: pq_wf_def pq_Top_def pq_Pop_def pq_UpdateTop_def pq_UpdateTopWith_def pq_InsertWithOverflow_def
      pq_Add_def store_def)

lemma pq_Clear_yields: "pq_yields q {#} (pq_Clear q)"
  by (simp add: pq_yields_def pq_Clear_def pq_wf_def pq_contents_def)

lemma pq_ToSlice_heap: "pq_wf q \<Longrightarrow> pq_ToSlice q = Ok (pq_heap q)"
  by (simp add: pq_wf_def pq_ToSlice_def)

lemma pq_access:
  assumes "pq_wf q"
  shows "if 0 \<le> i \<and> i < int (pq_size q)
    then pq_Get i q = Ok (pq_heap q ! nat i) \<and> pq_Set i e q = Ok (q\<lparr>pq_heap := (pq_heap q)[nat i := e]\<rparr>)
      \<and> pq_contents (q\<lparr>pq_heap := (pq_heap q)[nat i := e]\<rparr>) = add_mset e (pq_contents q - {#pq_heap q ! nat i#})
    else pq_Get i q = Err (Errorf ''index out of bounds'') \<and> pq_Set i e q = Err (Errorf ''index out of bounds'')"
  using assms by (auto simp: pq_wf_def pq_Get_def pq_Set_def pq_contents_def mset_update)

text \<open>
  \<open>Set\<close> stores an element without restoring the order: in the queue of 1 and 2, replacing 2 by 0
  leaves 1 on top.
\<close>

lemma pq_Set_breaks_order:
  "\<exists>q'. pq_wf \<lparr>pq_heap = [1, 2 :: int], pq_size = 2, pq_maxSize = 2, pq_lessFunc = (<)\<rparr>
     \<and> pq_Set 1 0 \<lparr>pq_heap = [1, 2 :: int], pq_size = 2, pq_maxSize = 2, pq_lessFunc = (<)\<rparr> = Ok q'
     \<and> \<not> pq_wf q' \<and> pq_Top 0 q' = Ok 1 \<and> \<not> pq_extreme q' 1"
proof -
  have "i = 1" if "0 < i" "i < 2" for i :: nat using that by simp
  then show ?thesis
    by (auto simp: pq_wf_def pq_Set_def pq_Top_def pq_extreme_def pq_contents_def intro!: exI [of _ 1])
qed

lemma NewPriorityQueue_wf:
  "if m < 0 then NewPriorityQueue m (Some lt) = Err (Errorf ''maxSize must be non-negative'')
   else \<exists>new. NewPriorityQueue m (Some lt) = Ok new \<and> pq_wf new \<and> pq_contents new = {#} \<and> pq_maxSize new = nat m \<and> pq_lessFunc new = lt"
  by (simp add: NewPriorityQueue_def pq_wf_def pq_contents_def)

text \<open>
  C37: The generic priority queue is a bounded multiset.  For a comparison that is a strict weak
  order, on every well-formed queue: \<open>Add\<close> and \<open>InsertWithOverflow\<close> insert while there is room;
  \<open>Top\<close> and \<open>Pop\<close> return an element that no other precedes, and \<open>Pop\<close> removes one copy of it;
  \<open>UpdateTopWith\<close>, and \<open>UpdateTop\<close> after the top was changed in place, replace the top;
  \<open>AddAll\<close> adds all elements or refuses them; \<open>Remove\<close> removes one element that satisfies the
  predicate, if there is one, and nothing for a nil predicate.  On a full queue
  \<open>InsertWithOverflow\<close> replaces the top by an element that the top precedes, while \<open>Add\<close> replaces it
  by an element that precedes the top.  On an empty queue the top is the zero value and the
  updates do nothing; when its maximal size is zero, \<open>InsertWithOverflow\<close> rejects and \<open>Add\<close> panics on an
  element that precedes the zero value.  \<open>NewPriorityQueue\<close> makes the empty queue and \<open>Clear\<close> empties
  one.  The results of all these are well formed again.  \<open>ToSlice\<close> lists the elements in heap
  order and \<open>Get\<close> reads them by position; \<open>Set\<close> replaces the element at a position in place, and
  alone of the operations it does not restore the order.
\<close>

theorem priority_queue_refines:
  assumes "weak_order (pq_lessFunc q)" "pq_wf q"
  shows "(pq_size q < pq_maxSize q \<longrightarrow>
       (\<exists>q'. pq_Add zero e q = Ok (True, q') \<and> pq_InsertWithOverflow zero e q = Ok ((zero, False), q')
         \<and> pq_yields q (add_mset e (pq_contents q)) q'))
     \<and> (0 < pq_size q \<longrightarrow> (\<exists>x. pq_extreme q x \<and> pq_Top zero q = Ok x
         \<and> (\<exists>q'. pq_Pop zero q = Ok (x, q') \<and> pq_yields q (pq_contents q - {#x#}) q')
         \<and> (\<exists>q'. pq_UpdateTopWith e q = Ok q' \<and> pq_yields q (add_mset e (pq_contents q - {#x#})) q')
         \<and> (\<exists>q'. pq_UpdateTop (q\<lparr>pq_heap := (pq_heap q)[0 := e]\<rparr>) = Ok q' \<and> pq_yields q (add_mset e (pq_contents q - {#x#})) q')
         \<and> (pq_size q = pq_maxSize q \<longrightarrow>
              (if pq_lessFunc q x e
               then \<exists>q'. pq_InsertWithOverflow zero e q = Ok ((x, True), q') \<and> pq_yields q (add_mset e (pq_contents q - {#x#})) q'
               else pq_InsertWithOverflow zero e q = Ok ((e, True), q))
            \<and> (if pq_lessFunc q e x
               then \<exists>q'. pq_Add zero e q = Ok (True, q') \<and> pq_yields q (add_mset e (pq_contents q - {#x#})) q'
               else pq_Add zero e q = Ok (False, q)))))
     \<and> (pq_size q = 0 \<longrightarrow> pq_Top zero q = Ok zero \<and> pq_Pop zero q = Ok (zero, q) \<and> pq_UpdateTop q = Ok q \<and> pq_UpdateTopWith e q = Ok q
         \<and> (pq_maxSize q = 0 \<longrightarrow> pq_InsertWithOverflow zero e q = Ok ((e, True), q)
             \<and> pq_Add zero e q = (if pq_lessFunc q e zero then Panic ''index out of range'' else Ok (False, q))))
     \<and> (if pq_size q + length es \<le> pq_maxSize q then \<exists>q'. pq_AddAll es q = Ok q' \<and> pq_yields q (pq_contents q + mset es) q'
        else pq_AddAll es q = Err (Errorf ''cannot add elements to a queue with remaining capacity''))
     \<and> (if \<exists>x\<in>#pq_contents q. eq x
        then \<exists>x q'. x \<in># pq_contents q \<and> eq x \<and> pq_Remove (Some eq) q = Ok (True, q') \<and> pq_yields q (pq_contents q - {#x#}) q'
        else pq_Remove (Some eq) q = Ok (False, q))
     \<and> pq_Remove None q = Ok (False, q)
     \<and> pq_yields q {#} (pq_Clear q)
     \<and> (if m < 0 then NewPriorityQueue m (Some lt) = Err (Errorf ''maxSize must be non-negative'')
        else \<exists>new. NewPriorityQueue m (Some lt) = Ok new \<and> pq_wf new \<and> pq_contents new = {#} \<and> pq_maxSize new = nat m \<and> pq_lessFunc new = lt)
     \<and> (\<exists>xs. pq_ToSlice q = Ok xs \<and> mset xs = pq_contents q
         \<and> (if 0 \<le> i \<and> i < int (pq_size q)
            then pq_Get i q = Ok (xs ! nat i)
              \<and> (\<exists>q'. pq_Set i e q = Ok q' \<and> pq_heap q' = xs[nat i := e] \<and> pq_contents q' = add_mset e (pq_contents q - {#xs ! nat i#}))
            else pq_Get i q = Err (Errorf ''index out of bounds'') \<and> pq_Set i e q = Err (Errorf ''index out of bounds'')))"
proof -
  note qo = queue_order.intro [OF assms(1)]
  let ?x = "pq_heap q ! 0"
  have len: "pq_size q = length (pq_heap q)" using assms(2) by (simp add: pq_wf_def)
  have room: "\<exists>q'. pq_Add zero e q = Ok (True, q') \<and> pq_InsertWithOverflow zero e q = Ok ((zero, False), q')
      \<and> pq_yields q (add_mset e (pq_contents q)) q'" if "pq_size q < pq_maxSize q"
    using queue_order.add_room [OF qo assms(2) refl that, of zero e] that by (auto simp: pq_InsertWithOverflow_def)
  have some: "\<exists>x. pq_extreme q x \<and> pq_Top zero q = Ok x
         \<and> (\<exists>q'. pq_Pop zero q = Ok (x, q') \<and> pq_yields q (pq_contents q - {#x#}) q')
         \<and> (\<exists>q'. pq_UpdateTopWith e q = Ok q' \<and> pq_yields q (add_mset e (pq_contents q - {#x#})) q')
         \<and> (\<exists>q'. pq_UpdateTop (q\<lparr>pq_heap := (pq_heap q)[0 := e]\<rparr>) = Ok q' \<and> pq_yields q (add_mset e (pq_contents q - {#x#})) q')
         \<and> (pq_size q = pq_maxSize q \<longrightarrow>
              (if pq_lessFunc q x e
               then \<exists>q'. pq_InsertWithOverflow zero e q = Ok ((x, True), q') \<and> pq_yields q (add_mset e (pq_contents q - {#x#})) q'
               else pq_InsertWithOverflow zero e q = Ok ((e, True), q))
            \<and> (if pq_lessFunc q e x
               then \<exists>q'. pq_Add zero e q = Ok (True, q') \<and> pq_yields q (add_mset e (pq_contents q - {#x#})) q'
               else pq_Add zero e q = Ok (False, q)))" if pos: "0 < pq_size q"
  proof (rule exI [of _ ?x], intro conjI impI)
    show "pq_Top zero q = Ok ?x" using pos len by (simp add: pq_Top_def)
  qed (use queue_order.top_extreme [OF qo assms(2) refl pos] queue_order.pop_some [OF qo assms(2) refl pos]
      queue_order.update_top [OF qo assms(2) refl pos] queue_order.insert_full [OF qo assms(2) refl _ pos]
      queue_order.add_full [OF qo assms(2) refl _ pos] in blast)+
  have acc: "\<exists>xs. pq_ToSlice q = Ok xs \<and> mset xs = pq_contents q
         \<and> (if 0 \<le> i \<and> i < int (pq_size q)
            then pq_Get i q = Ok (xs ! nat i)
              \<and> (\<exists>q'. pq_Set i e q = Ok q' \<and> pq_heap q' = xs[nat i := e] \<and> pq_contents q' = add_mset e (pq_contents q - {#xs ! nat i#}))
            else pq_Get i q = Err (Errorf ''index out of bounds'') \<and> pq_Set i e q = Err (Errorf ''index out of bounds''))"
    using pq_ToSlice_heap [OF assms(2)] pq_access [OF assms(2), of i e] by (intro exI [of _ "pq_heap q"]) (auto simp: pq_contents_def)
  have rem: "if \<exists>x\<in>#pq_contents q. eq x
        then \<exists>x q'. x \<in># pq_contents q \<and> eq x \<and> pq_Remove (Some eq) q = Ok (True, q') \<and> pq_yields q (pq_contents q - {#x#}) q'
        else pq_Remove (Some eq) q = Ok (False, q)"
    using queue_order.remove_loop [OF qo assms(2) refl, of 0 eq] by (simp only: pq_Remove_def option.case) blast
  have "pq_Remove None q = Ok (False, q)" by (simp add: pq_Remove_def)
  then show ?thesis
    by (intro conjI impI [OF room] impI [OF some] impI [OF pq_empty_ops [OF assms(2)]]
        queue_order.add_all [OF qo assms(2) refl, of es] rem pq_Clear_yields NewPriorityQueue_wf acc)
qed

text \<open>A full queue of two: \<open>Add\<close> of 1 to 3 and 5 leaves 1 and 5.\<close>

theorem priority_queue_refines_witness:
  "\<exists>q'. pq_Add 0 1 \<lparr>pq_heap = [3, 5 :: int], pq_size = 2, pq_maxSize = 2, pq_lessFunc = (<)\<rparr> = Ok (True, q')
     \<and> pq_contents q' = {#1, 5#} \<and> pq_wf q'"
proof -
  let ?q = "\<lparr>pq_heap = [3, 5 :: int], pq_size = 2, pq_maxSize = 2, pq_lessFunc = (<)\<rparr>"
  have "i = 1" if "0 < i" "i < 2" for i :: nat using that by simp
  then have wf: "pq_wf ?q" by (auto simp: pq_wf_def)
  have w: "weak_order (pq_lessFunc ?q)" using int_less_order by simp
  have "pq_Top 0 ?q = Ok 3" by (simp add: pq_Top_def)
  then show ?thesis
    using priority_queue_refines [OF w wf, of 0 1 "[]" "\<lambda>_. False" 0 "(<)" 0] by (auto simp: pq_yields_def pq_contents_def)
qed

section \<open>The heaps of integers\<close>

lemma cmpLess_order: "weak_order (cmpLess order)"
  by (cases order; unfold_locales) auto

lemma cmpStrict_less: "cmpStrict order = cmpLess order"
  by (cases order) (auto intro!: ext)

interpretation lh: heap_tree "cmpLess order" "Suc 0" "\<lambda>i. i div 2" for order
  by (intro heap_tree.intro cmpLess_order heap_tree_axioms.intro) auto

definition tern_parent :: "nat \<Rightarrow> nat" where
  "tern_parent i = (i - 2) div 3 + 1"

interpretation th: heap_tree "(<) :: int \<Rightarrow> int \<Rightarrow> bool" "Suc 0" tern_parent
  by (intro heap_tree.intro int_less_order heap_tree_axioms.intro) (auto simp: tern_parent_def)

lemma index_nat: "i < length xs \<Longrightarrow> index xs (int i) = Ok (xs ! i)"
  by simp

lemma store_nat: "i < length xs \<Longrightarrow> store xs (int i) v = Ok (xs[i := v])"
  by simp

lemma swap_hole: "i \<noteq> p \<Longrightarrow> i < length h \<Longrightarrow> swap (h[i := v]) i p = (h[i := h ! p])[p := v]"
  by (simp add: swap_def)

lemma lh_up_loop_sifts:
  "1 \<le> i \<Longrightarrow> i < length h \<Longrightarrow>
   \<exists>h' i'. lh_up_loop order v h i (i div 2) = Ok (h', i') \<and> i' < length h' \<and> lh.sifts_up order i (h[i := v]) (h'[i' := v])"
proof (induction i arbitrary: h rule: less_induct)
  case (less i)
  let ?p = "i div 2"
  show ?case
  proof (cases "0 < ?p \<and> cmpLess order v (h ! ?p)")
    case True
    then have p: "?p < i" "1 \<le> ?p" "Suc 0 < i" by auto
    have "lh_up_loop order v h i ?p = lh_up_loop order v (h[i := h ! ?p]) ?p (?p div 2)"
      using True p less.prems by (subst lh_up_loop.simps) simp
    moreover obtain h' i' where "lh_up_loop order v (h[i := h ! ?p]) ?p (?p div 2) = Ok (h', i')" "i' < length h'"
        "lh.sifts_up order ?p (h[i := h ! ?p, ?p := v]) (h'[i' := v])"
      using less.IH [OF p(1,2), of "h[i := h ! ?p]"] p less.prems by auto
    moreover have "swap (h[i := v]) i ?p = h[i := h ! ?p, ?p := v]" using p(1) less.prems(2) by (intro swap_hole) auto
    ultimately show ?thesis using lh.up_step [OF p(3), of order "h[i := v]"] True p less.prems by auto
  next
    case False
    have e: "lh_up_loop order v h i ?p = Ok (h, i)" using False less.prems by (subst lh_up_loop.simps) auto
    have "lh.sifts_up order i (h[i := v]) (h[i := v])"
    proof (cases "i = 1")
      case True
      then show ?thesis using lh.up_root [of order "h[i := v]"] by simp
    next
      case no: False
      then have "\<not> cmpLess order v (h ! ?p)" "Suc 0 < i" using False less.prems(1) by auto
      then show ?thesis using lh.up_stop [of i order "h[i := v]"] less.prems by simp
    qed
    then show ?thesis using e less.prems(2) by auto
  qed
qed

lemma lh_upHeap_sifts: "1 \<le> i \<Longrightarrow> i < length h \<Longrightarrow> \<exists>h'. lh_upHeap order h i = Ok h' \<and> lh.sifts_up order i h h'"
  using lh_up_loop_sifts [of i h order "h ! i"] by (auto simp: lh_upHeap_def)

lemma lh_child_Ok:
  "sz < length h \<Longrightarrow> lh_child order sz h j = Ok (if j + 1 \<le> sz \<and> cmpLess order (h ! (j + 1)) (h ! j) then j + 1 else j)"
  by (auto simp: lh_child_def Let_def index_def nat_add_distrib)

lemma lh_down_loop_sifts:
  assumes "1 \<le> i" "i < length h" "sz < length h"
    "j = (if 2 * i + 1 \<le> sz \<and> cmpLess order (h ! (2 * i + 1)) (h ! (2 * i)) then 2 * i + 1 else 2 * i)"
  shows "\<exists>h' i'. lh_down_loop order sz v h i j = Ok (h', i') \<and> i' < length h' \<and> lh.sifts_down order (Suc sz) i (h[i := v]) (h'[i' := v])"
  using assms
proof (induction "Suc sz - i" arbitrary: i j h rule: less_induct)
  case less
  have child: "c = 2 * i \<or> c = 2 * i + 1" if "c div 2 = i" for c using that by auto
  have j: "j div 2 = i" "i < j" "Suc 0 < j" using less.prems by auto
  have best: "\<not> cmpLess order (h ! c) (h ! j)" if c: "c < Suc sz" "c div 2 = i" for c
  proof -
    have "\<not> cmpLess order a a" "cmpLess order a b \<Longrightarrow> \<not> cmpLess order b a" for a b by (cases order; simp)+
    then show ?thesis using child [OF c(2)] c(1) less.prems(4) by auto
  qed
  have same: "h[i := v] ! c = h ! c" if "c div 2 = i" for c using that less.prems(1) by (intro nth_list_update_neq) auto
  have at: "h[i := v] ! i = v" using less.prems by simp
  show ?case
  proof (cases "j \<le> sz \<and> cmpLess order (h ! j) v")
    case True
    let ?h = "h[i := h ! j]"
    define j' where "j' = (if 2 * j + 1 \<le> sz \<and> cmpLess order (?h ! (2 * j + 1)) (?h ! (2 * j)) then 2 * j + 1 else 2 * j)"
    have e: "lh_down_loop order sz v h i j = lh_down_loop order sz v ?h j j'"
      using True j less.prems lh_child_Ok [of sz ?h order "2 * j"] by (subst lh_down_loop.simps) (simp add: j'_def)
    have "Suc sz - j < Suc sz - i" using True j(2) by linarith
    from less.hyps [OF this, of ?h j'] obtain h' i' where h': "lh_down_loop order sz v ?h j j' = Ok (h', i')" "i' < length h'"
        "lh.sifts_down order (Suc sz) j (?h[j := v]) (h'[i' := v])"
      using True j less.prems by (auto simp: j'_def)
    have "swap (h[i := v]) i j = ?h[j := v]" using j less.prems by (intro swap_hole) auto
    then have "lh.sifts_down order (Suc sz) i (h[i := v]) (h'[i' := v])"
      using lh.down_step [of j "Suc sz" i order "h[i := v]" "h'[i' := v]"] j True best same at h'(3) by simp
    then show ?thesis using e h'(1,2) by auto
  next
    case False
    have "lh_down_loop order sz v h i j = Ok (h, i)" using False j less.prems by (subst lh_down_loop.simps) auto
    moreover have "lh.sifts_down order (Suc sz) i (h[i := v]) (h[i := v])"
    proof (rule lh.down_stop)
      fix c assume c: "Suc 0 < c" "c < Suc sz" "c div 2 = i"
      have "j \<le> sz" using child [OF c(3)] c(2) less.prems(4) by auto
      then have "\<not> cmpLess order (h ! j) v" using False by simp
      then have "\<not> cmpLess order (h ! c) v" using best [OF c(2,3)] weak_order.le_trans [OF cmpLess_order] by blast
      then show "\<not> cmpLess order (h[i := v] ! c) (h[i := v] ! i)" using same [OF c(3)] at by simp
    qed
    ultimately show ?thesis using less.prems(2) by auto
  qed
qed

lemma lh_downHeap_sifts:
  assumes "1 \<le> i" "i < length h" "sz < length h"
  shows "\<exists>h'. lh_downHeap order sz h i = Ok h' \<and> lh.sifts_down order (Suc sz) i h h'"
  using lh_down_loop_sifts [OF assms refl, of order "h ! i"] lh_child_Ok [OF assms(3), of order "2 * i"] assms(2)
  by (auto simp: lh_downHeap_def)

text \<open>The ternary heap: the best child is the least of at most three.\<close>

lemma tern_best_least:
  assumes "best < c" "best \<le> l" "l < length h" "w = h ! best" "first \<le> best" "\<forall>k. first \<le> k \<and> k < c \<longrightarrow> h ! best \<le> h ! k"
  shows "\<exists>b. tern_best h c l best w = Ok (b, h ! b) \<and> first \<le> b \<and> b \<le> l \<and> (\<forall>k. first \<le> k \<and> k \<le> l \<longrightarrow> h ! b \<le> h ! k)"
  using assms
proof (induction "Suc l - c" arbitrary: c best w rule: less_induct)
  case less
  show ?case
  proof (cases "c \<le> l")
    case True
    have d: "Suc l - (c + 1) < Suc l - c" using True by linarith
    have e: "tern_best h c l best w = (if h ! c < h ! best then tern_best h (c + 1) l c (h ! c) else tern_best h (c + 1) l best (h ! best))"
      using True less.prems by (subst tern_best.simps) simp
    show ?thesis
    proof (cases "h ! c < h ! best")
      case lt: True
      have "\<forall>k. first \<le> k \<and> k < c + 1 \<longrightarrow> h ! c \<le> h ! k" using less.prems(6) lt by (force simp: less_Suc_eq)
      then show ?thesis unfolding e using lt less.hyps [OF d, of c "h ! c"] True less.prems by simp
    next
      case False
      then have "\<forall>k. first \<le> k \<and> k < c + 1 \<longrightarrow> h ! best \<le> h ! k" using less.prems(6) by (auto simp: less_Suc_eq)
      then show ?thesis unfolding e using False less.hyps [OF d, of best "h ! best"] True less.prems by simp
    qed
  next
    case False
    then show ?thesis using less.prems by (subst tern_best.simps) auto
  qed
qed

lemma tern_up_loop_sifts:
  "1 \<le> i \<Longrightarrow> i < length h \<Longrightarrow>
   \<exists>h' i'. tern_up_loop v h i = Ok (h', i') \<and> i' < length h' \<and> th.sifts_up i (h[i := v]) (h'[i' := v])"
proof (induction i arbitrary: h rule: less_induct)
  case (less i)
  let ?p = "tern_parent i"
  show ?case
  proof (cases "1 < i \<and> v < h ! ?p")
    case True
    then have p: "?p < i" "1 \<le> ?p" "Suc 0 < i" by (auto simp: tern_parent_def)
    have "tern_up_loop v h i = tern_up_loop v (h[i := h ! ?p]) ?p"
      using True p less.prems index_nat [of ?p h] by (subst tern_up_loop.simps) (simp add: Let_def tern_parent_def [symmetric] del: One_nat_def add_Suc_right)
    moreover obtain h' i' where "tern_up_loop v (h[i := h ! ?p]) ?p = Ok (h', i')" "i' < length h'"
        "th.sifts_up ?p (h[i := h ! ?p, ?p := v]) (h'[i' := v])"
      using less.IH [OF p(1,2), of "h[i := h ! ?p]"] p less.prems by auto
    moreover have "swap (h[i := v]) i ?p = h[i := h ! ?p, ?p := v]" using p(1) less.prems(2) by (intro swap_hole) auto
    moreover have "h[i := v] ! ?p = h ! ?p" using p(1) by (intro nth_list_update_neq) auto
    ultimately show ?thesis using th.up_step [OF p(3), of "h[i := v]"] True less.prems by auto
  next
    case False
    have "?p < length h" using less.prems unfolding tern_parent_def by linarith
    then have e: "tern_up_loop v h i = Ok (h, i)"
      using False less.prems index_nat [of ?p h] by (subst tern_up_loop.simps) (auto simp: Let_def tern_parent_def [symmetric] simp del: One_nat_def add_Suc_right)
    have "th.sifts_up i (h[i := v]) (h[i := v])"
    proof (cases "i = 1")
      case True
      then show ?thesis using th.up_root [of "h[i := v]"] by simp
    next
      case no: False
      then have p: "\<not> v < h ! ?p" "Suc 0 < i" "?p < i" using False less.prems(1) by (auto simp: tern_parent_def)
      then have "h[i := v] ! ?p = h ! ?p" by (intro nth_list_update_neq) auto
      then show ?thesis using th.up_stop [OF p(2), of "h[i := v]"] p(1) less.prems by simp
    qed
    then show ?thesis using e less.prems(2) by auto
  qed
qed

lemma tern_upHeap_sifts: "1 \<le> i \<Longrightarrow> i < length h \<Longrightarrow> \<exists>h'. ternaryUpHeap h i = Ok h' \<and> th.sifts_up i h h'"
  using tern_up_loop_sifts [of i h "h ! i"] by (auto simp: ternaryUpHeap_def)

lemma tern_children: "1 < c \<Longrightarrow> 1 \<le> i \<Longrightarrow> tern_parent c = i \<longleftrightarrow> 3 * (i - 1) + 2 \<le> c \<and> c \<le> 3 * (i - 1) + 4" for c i :: nat
  unfolding tern_parent_def by arith

lemma tern_down_loop_sifts:
  assumes "1 \<le> i" "i < length h" "sz < length h"
  shows "\<exists>h' i'. tern_down_loop sz v h i = Ok (h', i') \<and> i' < length h' \<and> th.sifts_down (Suc sz) i (h[i := v]) (h'[i' := v])"
  using assms
proof (induction "Suc sz - i" arbitrary: i h rule: less_induct)
  case less
  define f where "f = 3 * (i - 1) + 2"
  define l where "l = (if f + 3 - 1 > sz then sz else f + 3 - 1)"
  have fi: "i < f" "1 < f" using less.prems(1) by (auto simp: f_def)
  have child: "tern_parent c = i \<and> c < Suc sz \<longleftrightarrow> f \<le> c \<and> c \<le> l" if "1 < c" for c
    using tern_children [OF that less.prems(1)] by (auto simp: f_def l_def)
  have same: "h[i := v] ! c = h ! c" if "f \<le> c" for c using that fi by (intro nth_list_update_neq) auto
  have at: "h[i := v] ! i = v" using less.prems by simp
  show ?case
  proof (cases "f > sz")
    case True
    then have "tern_down_loop sz v h i = Ok (h, i)" by (subst tern_down_loop.simps) (simp add: f_def Let_def)
    moreover have "th.sifts_down (Suc sz) i (h[i := v]) (h[i := v])"
      using child True by (intro th.down_stop) (force simp: l_def)
    ultimately show ?thesis using less.prems(2) by auto
  next
    case False
    then have l: "f \<le> l" "l < length h" "l \<le> sz" using less.prems(3) by (auto simp: l_def)
    have "\<forall>k. f \<le> k \<and> k < f + 1 \<longrightarrow> h ! f \<le> h ! k" using le_antisym by fastforce
    then obtain b where b: "tern_best h (f + 1) l f (h ! f) = Ok (b, h ! b)" "f \<le> b" "b \<le> l" "\<forall>k. f \<le> k \<and> k \<le> l \<longrightarrow> h ! b \<le> h ! k"
      using tern_best_least [of f "f + 1" l h "h ! f" f] l by auto
    have "tern_down_loop sz v h i = (if f > sz then Ok (h, i)
        else bind_out (index h (int f)) (\<lambda>v0. bind_out (tern_best h (f + 1) l f v0) (\<lambda>(best, bestVal).
          if bestVal \<ge> v then Ok (h, i) else bind_out (store h (int i) bestVal) (\<lambda>h'. tern_down_loop sz v h' best))))"
      unfolding l_def f_def by (subst (1) tern_down_loop.simps) (simp only: Let_def)
    then have e: "tern_down_loop sz v h i = (if h ! b \<ge> v then Ok (h, i) else tern_down_loop sz v (h[i := h ! b]) b)"
      using False b(1) l less.prems by simp
    have bi: "i < b" "Suc 0 < b" "b < Suc sz" "tern_parent b = i" using b fi l(3) child [of b] by auto
    show ?thesis
    proof (cases "h ! b \<ge> v")
      case True
      have "th.sifts_down (Suc sz) i (h[i := v]) (h[i := v])"
      proof (rule th.down_stop)
        fix c assume "Suc 0 < c" "c < Suc sz" "tern_parent c = i"
        then have c: "f \<le> c" "c \<le> l" using child [of c] by auto
        then show "\<not> h[i := v] ! c < h[i := v] ! i" using b(4) True same [of c] at by force
      qed
      then show ?thesis using e True less.prems(2) by auto
    next
      case no: False
      let ?h = "h[i := h ! b]"
      have "Suc sz - b < Suc sz - i" using bi by linarith
      from less.hyps [OF this, of ?h] obtain h' i' where h': "tern_down_loop sz v ?h b = Ok (h', i')" "i' < length h'"
          "th.sifts_down (Suc sz) b (?h[b := v]) (h'[i' := v])"
        using bi b(3) l(2) less.prems by auto
      have "swap (h[i := v]) i b = ?h[b := v]" using bi less.prems by (intro swap_hole) auto
      moreover have "\<not> h[i := v] ! c < h[i := v] ! b" if "Suc 0 < c" "c < Suc sz" "tern_parent c = i" for c
      proof -
        have "f \<le> c" "c \<le> l" using child [of c] that by auto
        then show ?thesis using b(2,4) same [of c] same [of b] by force
      qed
      ultimately have "th.sifts_down (Suc sz) i (h[i := v]) (h'[i' := v])"
        using th.down_step [OF bi(2-4), of "h[i := v]" "h'[i' := v]"] no same [OF b(2)] at h'(3) by simp
      then show ?thesis using e no h'(1,2) by auto
    qed
  qed
qed

lemma tern_downHeap_sifts:
  "1 \<le> i \<Longrightarrow> i < length h \<Longrightarrow> sz < length h \<Longrightarrow> \<exists>h'. ternaryDownHeap h i sz = Ok h' \<and> th.sifts_down (Suc sz) i h h'"
  using tern_down_loop_sifts [of i h sz "h ! i"] by (auto simp: ternaryDownHeap_def)

section \<open>Heaps as multisets\<close>

definition least_of :: "(int \<Rightarrow> int \<Rightarrow> bool) \<Rightarrow> int multiset \<Rightarrow> int \<Rightarrow> bool" where
  "least_of lt M x \<longleftrightarrow> x \<in># M \<and> (\<forall>y\<in>#M. \<not> lt y x)"

definition lh_contents :: "LongHeap \<Rightarrow> int multiset" where
  "lh_contents h = mset (segment (Suc 0) (Suc (lh_size h)) (lh_heap h))"

definition lh_wf :: "LongHeapOrder \<Rightarrow> LongHeap \<Rightarrow> bool" where
  "lh_wf order h \<longleftrightarrow> lh_order h = order \<and> 1 \<le> lh_initialCapacity h \<and> 2 \<le> length (lh_heap h) \<and> lh_size h < length (lh_heap h)
     \<and> (\<forall>i. 1 < i \<and> i \<le> lh_size h \<longrightarrow> \<not> cmpLess order (lh_heap h ! i) (lh_heap h ! (i div 2)))"

definition th_contents :: "TernaryLongHeap \<Rightarrow> int multiset" where
  "th_contents h = mset (segment (Suc 0) (Suc (th_size h)) (th_heap h))"

definition th_wf :: "TernaryLongHeap \<Rightarrow> bool" where
  "th_wf h \<longleftrightarrow> 1 \<le> th_initialCapacity h \<and> 2 \<le> length (th_heap h) \<and> th_size h < length (th_heap h)
     \<and> (\<forall>i. 1 < i \<and> i \<le> th_size h \<longrightarrow> \<not> th_heap h ! i < th_heap h ! ((i - 2) div 3 + 1))"

lemma lh_wf_heap: "lh_wf order h \<longleftrightarrow> lh_order h = order \<and> 1 \<le> lh_initialCapacity h \<and> 2 \<le> length (lh_heap h) \<and> lh.is_heap order (Suc (lh_size h)) (lh_heap h)"
  by (auto simp: lh_wf_def lh.is_heap_def lh.heap_from_def)

lemma th_wf_heap: "th_wf h \<longleftrightarrow> 1 \<le> th_initialCapacity h \<and> 2 \<le> length (th_heap h) \<and> th.is_heap (Suc (th_size h)) (th_heap h)"
  by (auto simp: th_wf_def th.is_heap_def th.heap_from_def tern_parent_def)

lemma pop_contents:
  assumes "0 < n" "n < length ys"
  shows "(if Suc 0 < n then add_mset (ys ! n) (mset (segment (Suc (Suc 0)) n ys)) else {#}) = mset (segment (Suc 0) (Suc n) ys) - {#ys ! Suc 0#}"
proof -
  have f: "segment (Suc 0) (Suc n) ys = ys ! Suc 0 # segment (Suc (Suc 0)) (Suc n) ys" using assms by (intro segment_front) auto
  show ?thesis
  proof (cases "Suc 0 < n")
    case True
    then show ?thesis using f segment_extend [of "Suc (Suc 0)" n ys] assms by simp
  next
    case False
    then have "n = Suc 0" using assms by simp
    then show ?thesis using f by (simp add: segment_def)
  qed
qed

text \<open>A client that inserts a sequence of values, and one that pops \<open>n\<close> times.\<close>

fun q_push_all :: "(int \<Rightarrow> 'q \<Rightarrow> (int \<times> 'q) outcome) \<Rightarrow> int list \<Rightarrow> 'q \<Rightarrow> 'q outcome" where
  "q_push_all push [] q = Ok q"
| "q_push_all push (x # xs) q = bind_out (push x q) (\<lambda>(_, q'). q_push_all push xs q')"

fun q_insert_all :: "(int \<Rightarrow> 'q \<Rightarrow> (bool \<times> 'q) outcome) \<Rightarrow> int list \<Rightarrow> 'q \<Rightarrow> 'q outcome" where
  "q_insert_all ins [] q = Ok q"
| "q_insert_all ins (x # xs) q = bind_out (ins x q) (\<lambda>(_, q'). q_insert_all ins xs q')"

fun q_drain :: "('q \<Rightarrow> (int \<times> 'q) outcome) \<Rightarrow> nat \<Rightarrow> 'q \<Rightarrow> int list outcome" where
  "q_drain pop 0 q = Ok []"
| "q_drain pop (Suc n) q = bind_out (pop q) (\<lambda>(x, q'). bind_out (q_drain pop n q') (\<lambda>xs. Ok (x # xs)))"

text \<open>The interface of the two heaps of integers, and what a client gets from it.\<close>

locale long_queue = weak_order lt
  for lt :: "int \<Rightarrow> int \<Rightarrow> bool" +
  fixes wf :: "'q \<Rightarrow> bool" and contents :: "'q \<Rightarrow> int multiset" and capacity :: "'q \<Rightarrow> int"
    and push :: "int \<Rightarrow> 'q \<Rightarrow> (int \<times> 'q) outcome" and pop :: "'q \<Rightarrow> (int \<times> 'q) outcome"
    and update_top :: "int \<Rightarrow> 'q \<Rightarrow> (int \<times> 'q) outcome" and insert_overflow :: "int \<Rightarrow> 'q \<Rightarrow> (bool \<times> 'q) outcome"
  assumes capacity_pos: "wf q \<Longrightarrow> 1 \<le> capacity q"
    and push_adds: "wf q \<Longrightarrow> \<exists>t q'. push x q = Ok (t, q') \<and> wf q' \<and> contents q' = add_mset x (contents q)
      \<and> capacity q' = capacity q \<and> least_of lt (contents q') t"
    and pop_least: "wf q \<Longrightarrow> contents q \<noteq> {#} \<Longrightarrow> \<exists>x q'. pop q = Ok (x, q') \<and> wf q' \<and> least_of lt (contents q) x
      \<and> contents q' = contents q - {#x#} \<and> capacity q' = capacity q"
    and pop_empty: "wf q \<Longrightarrow> contents q = {#} \<Longrightarrow> \<exists>msg. pop q = Panic msg"
    and update_top_replaces: "wf q \<Longrightarrow> contents q \<noteq> {#} \<Longrightarrow> \<exists>x t q'. update_top y q = Ok (t, q') \<and> wf q' \<and> least_of lt (contents q) x
      \<and> contents q' = add_mset y (contents q - {#x#}) \<and> capacity q' = capacity q \<and> least_of lt (contents q') t"
    and insert_room: "wf q \<Longrightarrow> int (size (contents q)) < capacity q \<Longrightarrow> \<exists>q'. insert_overflow x q = Ok (True, q') \<and> wf q'
      \<and> contents q' = add_mset x (contents q) \<and> capacity q' = capacity q"
    and insert_full: "wf q \<Longrightarrow> \<not> int (size (contents q)) < capacity q \<Longrightarrow> \<exists>t. least_of lt (contents q) t
      \<and> (if lt x t then insert_overflow x q = Ok (False, q)
         else \<exists>q'. insert_overflow x q = Ok (True, q') \<and> wf q' \<and> contents q' = add_mset x (contents q - {#t#}) \<and> capacity q' = capacity q)"
begin


lemma push_all_adds: "wf q \<Longrightarrow> \<exists>q'. q_push_all push xs q = Ok q' \<and> wf q' \<and> contents q' = contents q + mset xs"
proof (induction xs arbitrary: q)
  case (Cons x xs)
  obtain t q1 where q1: "push x q = Ok (t, q1)" "wf q1" "contents q1 = add_mset x (contents q)" using push_adds [OF Cons.prems, of x] by blast
  then show ?case using Cons.IH [OF q1(2)] by simp
qed simp

text \<open>
  Inserting with overflow splits all values into those kept and a multiset \<open>K\<close> of dropped
  ones, none of which a kept value precedes.
\<close>

lemma insert_all_keeps:
  assumes "wf q" "int (size (contents q)) \<le> capacity q" "K = {#} \<or> int (size (contents q)) = capacity q"
    "\<forall>d\<in>#K. \<forall>x\<in>#contents q. \<not> lt x d"
  shows "\<exists>q' K'. q_insert_all insert_overflow xs q = Ok q' \<and> wf q' \<and> contents q' + K' = contents q + K + mset xs
    \<and> int (size (contents q')) = min (capacity q) (int (size (contents q) + length xs)) \<and> (\<forall>d\<in>#K'. \<forall>x\<in>#contents q'. \<not> lt x d)"
  using assms
proof (induction xs arbitrary: q K)
  case Nil
  then show ?case by auto
next
  case (Cons x xs)
  show ?case
  proof (cases "int (size (contents q)) < capacity q")
    case True
    then have K: "K = {#}" using Cons.prems(3) by simp
    obtain q1 where q1: "insert_overflow x q = Ok (True, q1)" "wf q1" "contents q1 = add_mset x (contents q)" "capacity q1 = capacity q"
      using insert_room [OF Cons.prems(1) True, of x] by blast
    then show ?thesis using Cons.IH [OF q1(2), of K] True K by simp
  next
    case False
    obtain t where t: "least_of lt (contents q) t"
        "if lt x t then insert_overflow x q = Ok (False, q)
         else \<exists>q'. insert_overflow x q = Ok (True, q') \<and> wf q' \<and> contents q' = add_mset x (contents q - {#t#}) \<and> capacity q' = capacity q"
      using insert_full [OF Cons.prems(1) False, of x] by blast
    have full: "int (size (contents q)) = capacity q" using False Cons.prems(2) by simp
    have tin: "t \<in># contents q" and least: "\<And>y. y \<in># contents q \<Longrightarrow> \<not> lt y t" using t(1) by (auto simp: least_of_def)
    show ?thesis
    proof (cases "lt x t")
      case lt: True
      have "\<not> lt y x" if "y \<in># contents q" for y using least [OF that] lt less_trans by blast
      then have "\<forall>d\<in>#add_mset x K. \<forall>y\<in>#contents q. \<not> lt y d" using Cons.prems(4) by auto
      from Cons.IH [OF Cons.prems(1,2) _ this] full show ?thesis using t(2) lt by simp
    next
      case no: False
      obtain q1 where q1: "insert_overflow x q = Ok (True, q1)" "wf q1" "contents q1 = add_mset x (contents q - {#t#})" "capacity q1 = capacity q"
        using t(2) no by auto
      have sz: "size (contents q1) = size (contents q)" using q1(3) tin by (simp add: size_Diff_singleton) (metis Suc_pred nonempty_has_size empty_iff set_mset_empty)
      have "\<not> lt y d" if "d \<in># add_mset t K" "y \<in># contents q1" for d y
      proof -
        have "y = x \<or> y \<in># contents q" using that(2) q1(3) in_diffD by fastforce
        moreover have "\<not> lt x d" using that(1) no Cons.prems(4) tin le_trans [of t d x] by auto
        moreover have "\<not> lt y d" if "y \<in># contents q" using \<open>d \<in># add_mset t K\<close> least Cons.prems(4) that by auto
        ultimately show ?thesis by blast
      qed
      then have "\<forall>d\<in>#add_mset t K. \<forall>y\<in>#contents q1. \<not> lt y d" by blast
      from Cons.IH [OF q1(2) _ _ this] obtain q' K' where r: "q_insert_all insert_overflow xs q1 = Ok q'" "wf q'"
          "contents q' + K' = contents q1 + add_mset t K + mset xs"
          "int (size (contents q')) = min (capacity q) (int (size (contents q) + length xs))" "\<forall>d\<in>#K'. \<forall>x\<in>#contents q'. \<not> lt x d"
        using sz full q1(4) by auto
      have "contents q1 + add_mset t K = contents q + add_mset x K" using q1(3) tin by (simp add: insert_DiffM)
      then have "contents q' + K' = contents q + K + mset (x # xs)" unfolding r(3) by simp
      then show ?thesis using q1(1) full r(1,2,4,5) by (intro exI [of _ q'] exI [of _ K']) simp
    qed
  qed
qed

lemma drain_sorts:
  "wf q \<Longrightarrow> size (contents q) = n \<Longrightarrow>
   \<exists>ys. q_drain pop n q = Ok ys \<and> mset ys = contents q \<and> sorted_wrt (\<lambda>a b. \<not> lt b a) ys"
proof (induction n arbitrary: q)
  case (Suc n)
  then have "contents q \<noteq> {#}" by auto
  then obtain x q1 where q1: "pop q = Ok (x, q1)" "wf q1" "least_of lt (contents q) x" "contents q1 = contents q - {#x#}"
    using pop_least [OF Suc.prems(1)] by blast
  have x: "x \<in># contents q" using q1(3) by (simp add: least_of_def)
  then obtain ys where ys: "q_drain pop n q1 = Ok ys" "mset ys = contents q - {#x#}" "sorted_wrt (\<lambda>a b. \<not> lt b a) ys"
    using Suc.IH [OF q1(2)] q1(4) Suc.prems(2) by (auto simp: size_Diff_singleton)
  have "\<not> lt y x" if "y \<in> set ys" for y
  proof -
    have "y \<in># contents q - {#x#}" using that ys(2) by (metis set_mset_mset)
    then show ?thesis using q1(3) in_diffD by (fastforce simp: least_of_def)
  qed
  then show ?case using q1(1) ys x by auto
qed simp

end

section \<open>The two heaps implement the interface\<close>

text \<open>
  What both heaps do on their arrays, whatever the arity: the element at position 0 is not used,
  the elements are at 1 to \<open>n\<close>.
\<close>

locale array_heap = heap_tree lt "Suc 0" par
  for lt :: "int \<Rightarrow> int \<Rightarrow> bool" and par +
  fixes up :: "int list \<Rightarrow> nat \<Rightarrow> int list outcome" and down :: "nat \<Rightarrow> int list \<Rightarrow> nat \<Rightarrow> int list outcome"
  assumes up_sifts: "1 \<le> i \<Longrightarrow> i < length h \<Longrightarrow> \<exists>h'. up h i = Ok h' \<and> sifts_up i h h'"
    and down_sifts: "1 \<le> i \<Longrightarrow> i < length h \<Longrightarrow> sz < length h \<Longrightarrow> \<exists>h'. down sz h i = Ok h' \<and> sifts_down (Suc sz) i h h'"
begin

definition good :: "nat \<Rightarrow> int list \<Rightarrow> bool" where
  "good n h \<longleftrightarrow> 2 \<le> length h \<and> is_heap (Suc n) h"

lemma good_length: "good n h \<Longrightarrow> 2 \<le> length h \<and> n < length h"
  by (auto simp: good_def is_heap_def)

lemma root_good: "good n h \<Longrightarrow> 0 < n \<Longrightarrow> least_of lt (mset (segment (Suc 0) (Suc n) h)) (h ! Suc 0)"
  using root_in_segment [of "Suc n" h] by (auto simp: good_def least_of_def)

lemma push_good:
  assumes "good n h" "Suc n < length g" "length h \<le> length g" "\<And>j. j \<le> n \<Longrightarrow> g ! j = h ! j"
  shows "\<exists>h2. up (g[Suc n := x]) (Suc n) = Ok h2 \<and> good (Suc n) h2 \<and> length h2 = length g
    \<and> mset (segment (Suc 0) (Suc (Suc n)) h2) = add_mset x (mset (segment (Suc 0) (Suc n) h))"
proof -
  let ?g = "g[Suc n := x]"
  have wf: "is_heap (Suc n) h" "2 \<le> length h" using assms(1) by (simp_all add: good_def)
  obtain h2 where h2: "up ?g (Suc n) = Ok h2" "sifts_up (Suc n) ?g h2" using up_sifts [of "Suc n" ?g] assms(2) by auto
  then show ?thesis using push_segment [OF wf(1) _ _ _ h2(2)] assms(2-4) wf(2) by (auto simp: good_def)
qed

lemma down_good:
  assumes "good n h" "m \<le> n"
  shows "\<exists>h2. down m (h[1 := x]) 1 = Ok h2 \<and> length h2 = length h \<and> good m h2
    \<and> mset (segment (Suc 0) (Suc m) h2) = (if 0 < m then add_mset x (mset (segment (Suc (Suc 0)) (Suc m) h)) else {#})"
proof -
  have wf: "is_heap (Suc n) h" "2 \<le> length h" "n < length h" using assms(1) good_length by (auto simp: good_def)
  obtain h2 where h2: "down m (h[1 := x]) 1 = Ok h2" "sifts_down (Suc m) 1 (h[1 := x]) h2"
    using down_sifts [of 1 "h[1 := x]" m] wf assms(2) by auto
  then show ?thesis using root_segment [OF wf(1), of "Suc m" x h2] wf(2) assms(2) by (auto simp: good_def)
qed

lemma pop_good:
  assumes "good n h" "0 < n"
  shows "\<exists>h2. down (n - 1) (h[1 := h ! n]) 1 = Ok h2 \<and> length h2 = length h \<and> good (n - 1) h2
    \<and> mset (segment (Suc 0) (Suc (n - 1)) h2) = mset (segment (Suc 0) (Suc n) h) - {#h ! Suc 0#}"
proof -
  have "(if Suc 0 < n then add_mset (h ! n) (mset (segment (Suc (Suc 0)) n h)) else {#}) = mset (segment (Suc 0) (Suc n) h) - {#h ! Suc 0#}"
    using pop_contents [OF assms(2)] good_length [OF assms(1)] by blast
  moreover have c: "0 < n - 1 \<longleftrightarrow> Suc 0 < n" and s: "Suc (n - 1) = n" using assms(2) by auto
  ultimately show ?thesis using down_good [OF assms(1), of "n - 1" "h ! n"] unfolding s c by simp
qed

lemma update_good:
  assumes "good n h" "0 < n"
  shows "\<exists>h2. down n (h[1 := x]) 1 = Ok h2 \<and> length h2 = length h \<and> good n h2
    \<and> mset (segment (Suc 0) (Suc n) h2) = add_mset x (mset (segment (Suc 0) (Suc n) h) - {#h ! Suc 0#})
    \<and> least_of lt (add_mset x (mset (segment (Suc 0) (Suc n) h) - {#h ! Suc 0#})) (h2 ! Suc 0)"
proof -
  obtain h2 where h2: "down n (h[1 := x]) 1 = Ok h2" "length h2 = length h" "good n h2"
      "mset (segment (Suc 0) (Suc n) h2) = add_mset x (mset (segment (Suc 0) (Suc n) h) - {#h ! Suc 0#})"
    using down_good [OF assms(1) order_refl, of x] assms(2) segment_front [of "Suc 0" "Suc n" h] good_length [OF assms(1)] by auto
  then show ?thesis using root_good [OF h2(3) assms(2)] by simp
qed

end

interpretation la: array_heap "cmpLess order" "\<lambda>i. i div 2" "lh_upHeap order" "lh_downHeap order" for order
  by (intro array_heap.intro array_heap_axioms.intro lh.heap_tree_axioms lh_upHeap_sifts lh_downHeap_sifts)

interpretation ta: array_heap "(<)" tern_parent ternaryUpHeap "\<lambda>sz h i. ternaryDownHeap h i sz"
  by (intro array_heap.intro array_heap_axioms.intro th.heap_tree_axioms tern_upHeap_sifts tern_downHeap_sifts)

lemma lh_wf_good: "lh_wf order h \<longleftrightarrow> lh_order h = order \<and> 1 \<le> lh_initialCapacity h \<and> la.good order (lh_size h) (lh_heap h)"
  by (auto simp: lh_wf_heap la.good_def)

lemma th_wf_good: "th_wf h \<longleftrightarrow> 1 \<le> th_initialCapacity h \<and> ta.good (th_size h) (th_heap h)"
  by (auto simp: th_wf_heap ta.good_def)

lemma lh_contents_size: "lh_wf order h \<Longrightarrow> size (lh_contents h) = lh_size h"
  by (auto simp: lh_contents_def lh_wf_def segment_def min_def)

lemma th_contents_size: "th_wf h \<Longrightarrow> size (th_contents h) = th_size h"
  by (auto simp: th_contents_def th_wf_def segment_def min_def)

lemma lh_push_law:
  assumes "lh_wf order h"
  shows "\<exists>t h'. lh_Push x h = Ok (t, h') \<and> lh_wf order h' \<and> lh_contents h' = add_mset x (lh_contents h)
    \<and> lh_initialCapacity h' = lh_initialCapacity h \<and> least_of (cmpLess order) (lh_contents h') t"
proof -
  let ?n = "lh_size h"
  define g where "g = (if Suc ?n = length (lh_heap h) then lh_heap h @ replicate ((Suc ?n * 3 + 1) div 2 - length (lh_heap h)) 0 else lh_heap h)"
  have wf: "lh_order h = order" "la.good order ?n (lh_heap h)" "?n < length (lh_heap h)"
    using assms la.good_length by (auto simp: lh_wf_good)
  have g: "Suc ?n < length g" "length (lh_heap h) \<le> length g" "\<And>j. j \<le> ?n \<Longrightarrow> g ! j = lh_heap h ! j"
    using wf(3) by (auto simp: g_def nth_append)
  obtain h2 where h2: "lh_upHeap order (g[Suc ?n := x]) (Suc ?n) = Ok h2" "la.good order (Suc ?n) h2" "length h2 = length g"
      "mset (segment (Suc 0) (Suc (Suc ?n)) h2) = add_mset x (lh_contents h)"
    using la.push_good [OF wf(2) g] by (auto simp: lh_contents_def)
  let ?h = "h\<lparr>lh_heap := h2, lh_size := Suc ?n\<rparr>"
  have "lh_Push x h = bind_out (store g (int (Suc ?n)) x) (\<lambda>h1. bind_out (lh_upHeap order h1 (Suc ?n)) (\<lambda>h2.
      bind_out (index h2 1) (\<lambda>tp. Ok (tp, h\<lparr>lh_heap := h2, lh_size := Suc ?n\<rparr>))))"
    unfolding lh_Push_def Let_def g_def wf(1) Suc_eq_plus1 by (rule refl)
  then have "lh_Push x h = Ok (h2 ! Suc 0, ?h)" using h2(1-3) store_nat [OF g(1)] g(1) by (simp add: la.good_def)
  then show ?thesis using assms h2(2,4) la.root_good [OF h2(2)] by (auto simp: lh_wf_good lh_contents_def)
qed

lemma th_push_law:
  assumes "th_wf h"
  shows "\<exists>t h'. th_Push x h = Ok (t, h') \<and> th_wf h' \<and> th_contents h' = add_mset x (th_contents h)
    \<and> th_initialCapacity h' = th_initialCapacity h \<and> least_of (<) (th_contents h') t"
proof -
  let ?n = "th_size h"
  define g where "g = (if Suc ?n = length (th_heap h) then th_heap h @ replicate ((Suc ?n * 3 + 1) div 2 - length (th_heap h)) 0 else th_heap h)"
  have wf: "ta.good ?n (th_heap h)" "?n < length (th_heap h)" using assms ta.good_length by (auto simp: th_wf_good)
  have g: "Suc ?n < length g" "length (th_heap h) \<le> length g" "\<And>j. j \<le> ?n \<Longrightarrow> g ! j = th_heap h ! j"
    using wf(2) by (auto simp: g_def nth_append)
  obtain h2 where h2: "ternaryUpHeap (g[Suc ?n := x]) (Suc ?n) = Ok h2" "ta.good (Suc ?n) h2" "length h2 = length g"
      "mset (segment (Suc 0) (Suc (Suc ?n)) h2) = add_mset x (th_contents h)"
    using ta.push_good [OF wf(1) g] by (auto simp: th_contents_def)
  let ?h = "h\<lparr>th_heap := h2, th_size := Suc ?n\<rparr>"
  have "(if Suc ?n = length (th_heap h) then GrowExactInt64 (th_heap h) (int ((Suc ?n * 3 + 1) div 2)) else Ok (th_heap h)) = Ok g"
    by (auto simp: g_def GrowExactInt64_def nat_div_distrib)
  then have "th_Push x h = bind_out (store g (int (Suc ?n)) x) (\<lambda>h1. bind_out (ternaryUpHeap h1 (Suc ?n)) (\<lambda>h2.
      bind_out (index h2 1) (\<lambda>tp. Ok (tp, h\<lparr>th_heap := h2, th_size := Suc ?n\<rparr>))))"
    unfolding th_Push_def Let_def Suc_eq_plus1 by (simp only: bind_out.simps)
  then have "th_Push x h = Ok (h2 ! Suc 0, ?h)" using h2(1-3) store_nat [OF g(1)] g(1) by (simp add: ta.good_def)
  then show ?thesis using assms h2(2,4) ta.root_good [OF h2(2)] by (auto simp: th_wf_good th_contents_def)
qed

lemma lh_down_laws:
  assumes "lh_wf order h" "0 < lh_size h"
  shows "\<exists>h'. lh_Pop h = Ok (lh_heap h ! Suc 0, h') \<and> lh_wf order h' \<and> lh_contents h' = lh_contents h - {#lh_heap h ! Suc 0#}
      \<and> lh_initialCapacity h' = lh_initialCapacity h"
    "\<exists>t h'. lh_UpdateTop y h = Ok (t, h') \<and> lh_wf order h' \<and> lh_contents h' = add_mset y (lh_contents h - {#lh_heap h ! Suc 0#})
      \<and> lh_initialCapacity h' = lh_initialCapacity h \<and> least_of (cmpLess order) (lh_contents h') t"
    "least_of (cmpLess order) (lh_contents h) (lh_heap h ! Suc 0)"
proof -
  have wf: "lh_order h = order" "la.good order (lh_size h) (lh_heap h)" "1 \<le> lh_initialCapacity h" using assms(1) by (auto simp: lh_wf_good)
  note len = la.good_length [OF wf(2)]
  show "\<exists>h'. lh_Pop h = Ok (lh_heap h ! Suc 0, h') \<and> lh_wf order h' \<and> lh_contents h' = lh_contents h - {#lh_heap h ! Suc 0#}
      \<and> lh_initialCapacity h' = lh_initialCapacity h"
    using la.pop_good [OF wf(2) assms(2)] wf len assms(2) index_nat [of "lh_size h" "lh_heap h"]
    by (auto simp: lh_Pop_def lh_wf_good lh_contents_def)
  show "\<exists>t h'. lh_UpdateTop y h = Ok (t, h') \<and> lh_wf order h' \<and> lh_contents h' = add_mset y (lh_contents h - {#lh_heap h ! Suc 0#})
      \<and> lh_initialCapacity h' = lh_initialCapacity h \<and> least_of (cmpLess order) (lh_contents h') t"
    using la.update_good [OF wf(2) assms(2), of y] wf len
    by (auto simp: lh_UpdateTop_def lh_wf_good lh_contents_def)
  show "least_of (cmpLess order) (lh_contents h) (lh_heap h ! Suc 0)"
    using la.root_good [OF wf(2) assms(2)] by (simp add: lh_contents_def)
qed

lemma th_down_laws:
  assumes "th_wf h" "0 < th_size h"
  shows "\<exists>h'. th_Pop h = Ok (th_heap h ! Suc 0, h') \<and> th_wf h' \<and> th_contents h' = th_contents h - {#th_heap h ! Suc 0#}
      \<and> th_initialCapacity h' = th_initialCapacity h"
    "\<exists>t h'. th_UpdateTop y h = Ok (t, h') \<and> th_wf h' \<and> th_contents h' = add_mset y (th_contents h - {#th_heap h ! Suc 0#})
      \<and> th_initialCapacity h' = th_initialCapacity h \<and> least_of (<) (th_contents h') t"
    "least_of (<) (th_contents h) (th_heap h ! Suc 0)"
proof -
  have wf: "ta.good (th_size h) (th_heap h)" "1 \<le> th_initialCapacity h" using assms(1) by (auto simp: th_wf_good)
  note len = ta.good_length [OF wf(1)]
  show "\<exists>h'. th_Pop h = Ok (th_heap h ! Suc 0, h') \<and> th_wf h' \<and> th_contents h' = th_contents h - {#th_heap h ! Suc 0#}
      \<and> th_initialCapacity h' = th_initialCapacity h"
    using ta.pop_good [OF wf(1) assms(2)] wf len assms(2) index_nat [of "th_size h" "th_heap h"]
    by (auto simp: th_Pop_def th_wf_good th_contents_def)
  show "\<exists>t h'. th_UpdateTop y h = Ok (t, h') \<and> th_wf h' \<and> th_contents h' = add_mset y (th_contents h - {#th_heap h ! Suc 0#})
      \<and> th_initialCapacity h' = th_initialCapacity h \<and> least_of (<) (th_contents h') t"
    using ta.update_good [OF wf(1) assms(2), of y] wf len
    by (auto simp: th_UpdateTop_def th_wf_good th_contents_def)
  show "least_of (<) (th_contents h) (th_heap h ! Suc 0)"
    using ta.root_good [OF wf(1) assms(2)] by (simp add: th_contents_def)
qed

interpretation lq: long_queue "cmpLess order" "lh_wf order" lh_contents lh_initialCapacity lh_Push lh_Pop lh_UpdateTop lh_InsertWithOverflow for order
proof (intro long_queue.intro cmpLess_order long_queue_axioms.intro)
  fix h x y
  assume w: "lh_wf order h"
  note sz = lh_contents_size [OF w]
  have wf: "lh_order h = order" "1 \<le> lh_initialCapacity h" "2 \<le> length (lh_heap h)" using w by (auto simp: lh_wf_def)
  have pos: "0 < lh_size h" if "lh_contents h \<noteq> {#}" using sz that by (metis nonempty_has_size)
  show "1 \<le> lh_initialCapacity h" by (rule wf(2))
  show "\<exists>t q'. lh_Push x h = Ok (t, q') \<and> lh_wf order q' \<and> lh_contents q' = add_mset x (lh_contents h)
      \<and> lh_initialCapacity q' = lh_initialCapacity h \<and> least_of (cmpLess order) (lh_contents q') t"
    by (rule lh_push_law [OF w])
  show "\<exists>msg. lh_Pop h = Panic msg" if "lh_contents h = {#}" using that sz by (simp add: lh_Pop_def)
  show "\<exists>q'. lh_InsertWithOverflow x h = Ok (True, q') \<and> lh_wf order q' \<and> lh_contents q' = add_mset x (lh_contents h)
      \<and> lh_initialCapacity q' = lh_initialCapacity h" if "int (size (lh_contents h)) < lh_initialCapacity h"
    using that lh_push_law [OF w, of x] sz by (auto simp: lh_InsertWithOverflow_def)
  show "\<exists>x q'. lh_Pop h = Ok (x, q') \<and> lh_wf order q' \<and> least_of (cmpLess order) (lh_contents h) x
      \<and> lh_contents q' = lh_contents h - {#x#} \<and> lh_initialCapacity q' = lh_initialCapacity h" if "lh_contents h \<noteq> {#}"
    using lh_down_laws [OF w pos [OF that]] by blast
  show "\<exists>x t q'. lh_UpdateTop y h = Ok (t, q') \<and> lh_wf order q' \<and> least_of (cmpLess order) (lh_contents h) x
      \<and> lh_contents q' = add_mset y (lh_contents h - {#x#}) \<and> lh_initialCapacity q' = lh_initialCapacity h
      \<and> least_of (cmpLess order) (lh_contents q') t" if "lh_contents h \<noteq> {#}"
    using lh_down_laws [OF w pos [OF that]] by blast
  show "\<exists>t. least_of (cmpLess order) (lh_contents h) t
      \<and> (if cmpLess order x t then lh_InsertWithOverflow x h = Ok (False, h)
         else \<exists>q'. lh_InsertWithOverflow x h = Ok (True, q') \<and> lh_wf order q' \<and> lh_contents q' = add_mset x (lh_contents h - {#t#})
           \<and> lh_initialCapacity q' = lh_initialCapacity h)" if "\<not> int (size (lh_contents h)) < lh_initialCapacity h"
  proof -
    have p: "0 < lh_size h" "lh_initialCapacity h \<le> int (lh_size h)" using that wf(2) sz by auto
    show ?thesis using lh_down_laws(2) [OF w p(1), of x] lh_down_laws(3) [OF w p(1)] p(2) wf
      by (intro exI [of _ "lh_heap h ! Suc 0"]) (auto simp: lh_InsertWithOverflow_def cmpStrict_less)
  qed
qed

interpretation tq: long_queue "(<)" th_wf th_contents th_initialCapacity th_Push th_Pop th_UpdateTop th_InsertWithOverflow
proof (intro long_queue.intro int_less_order long_queue_axioms.intro)
  fix h x y
  assume w: "th_wf h"
  note sz = th_contents_size [OF w]
  have wf: "1 \<le> th_initialCapacity h" "2 \<le> length (th_heap h)" using w by (auto simp: th_wf_def)
  have pos: "0 < th_size h" if "th_contents h \<noteq> {#}" using sz that by (metis nonempty_has_size)
  show "1 \<le> th_initialCapacity h" by (rule wf(1))
  show "\<exists>t q'. th_Push x h = Ok (t, q') \<and> th_wf q' \<and> th_contents q' = add_mset x (th_contents h)
      \<and> th_initialCapacity q' = th_initialCapacity h \<and> least_of (<) (th_contents q') t"
    by (rule th_push_law [OF w])
  show "\<exists>msg. th_Pop h = Panic msg" if "th_contents h = {#}" using that sz by (simp add: th_Pop_def)
  show "\<exists>q'. th_InsertWithOverflow x h = Ok (True, q') \<and> th_wf q' \<and> th_contents q' = add_mset x (th_contents h)
      \<and> th_initialCapacity q' = th_initialCapacity h" if "int (size (th_contents h)) < th_initialCapacity h"
    using that th_push_law [OF w, of x] sz by (auto simp: th_InsertWithOverflow_def)
  show "\<exists>x q'. th_Pop h = Ok (x, q') \<and> th_wf q' \<and> least_of (<) (th_contents h) x
      \<and> th_contents q' = th_contents h - {#x#} \<and> th_initialCapacity q' = th_initialCapacity h" if "th_contents h \<noteq> {#}"
    using th_down_laws [OF w pos [OF that]] by blast
  show "\<exists>x t q'. th_UpdateTop y h = Ok (t, q') \<and> th_wf q' \<and> least_of (<) (th_contents h) x
      \<and> th_contents q' = add_mset y (th_contents h - {#x#}) \<and> th_initialCapacity q' = th_initialCapacity h
      \<and> least_of (<) (th_contents q') t" if "th_contents h \<noteq> {#}"
    using th_down_laws [OF w pos [OF that]] by blast
  show "\<exists>t. least_of (<) (th_contents h) t
      \<and> (if x < t then th_InsertWithOverflow x h = Ok (False, h)
         else \<exists>q'. th_InsertWithOverflow x h = Ok (True, q') \<and> th_wf q' \<and> th_contents q' = add_mset x (th_contents h - {#t#})
           \<and> th_initialCapacity q' = th_initialCapacity h)" if "\<not> int (size (th_contents h)) < th_initialCapacity h"
  proof -
    have p: "0 < th_size h" "th_initialCapacity h \<le> int (th_size h)" using that wf(1) sz by auto
    show ?thesis using th_down_laws(2) [OF w p(1), of x] th_down_laws(3) [OF w p(1)] p(2) wf
      by (intro exI [of _ "th_heap h ! Suc 0"]) (auto simp: th_InsertWithOverflow_def)
  qed
qed

lemma lh_push_from_adds:
  assumes "lh_wf order h" "lh_wf order' other" "1 \<le> i"
  shows "\<exists>h'. lh_push_from i other h = Ok h' \<and> lh_wf order h' \<and> lh_contents h' = lh_contents h + mset (segment i (Suc (lh_size other)) (lh_heap other))"
  using assms(1,3)
proof (induction "Suc (lh_size other) - i" arbitrary: i h rule: less_induct)
  case less
  show ?case
  proof (cases "i \<le> lh_size other")
    case True
    have len: "lh_size other < length (lh_heap other)" using assms(2) by (simp add: lh_wf_def)
    obtain t h1 where h1: "lh_Push (lh_heap other ! i) h = Ok (t, h1)" "lh_wf order h1" "lh_contents h1 = add_mset (lh_heap other ! i) (lh_contents h)"
      using lh_push_law [OF less.prems(1)] by blast
    have "Suc (lh_size other) - (i + 1) < Suc (lh_size other) - i" using True by linarith
    from less.hyps [OF this h1(2)] show ?thesis
      using True len h1 segment_front [of i "Suc (lh_size other)" "lh_heap other"] by (subst lh_push_from.simps) simp
  next
    case False
    then show ?thesis using less.prems by (subst lh_push_from.simps) (simp add: segment_def)
  qed
qed

lemma lh_PushAll_adds:
  "lh_wf order h \<Longrightarrow> lh_wf order' other \<Longrightarrow> \<exists>h'. lh_PushAll other h = Ok h' \<and> lh_wf order h' \<and> lh_contents h' = lh_contents h + lh_contents other"
  using lh_push_from_adds [of order h order' other 1] by (simp add: lh_PushAll_def lh_contents_def)

lemma newLongHeap_wf:
  "1 \<le> k \<Longrightarrow> k < MaxArrayLength \<Longrightarrow> \<exists>h. newLongHeap k order = Ok h \<and> lh_wf order h \<and> lh_contents h = {#} \<and> lh_initialCapacity h = k"
  by (auto simp: newLongHeap_def lh_wf_def lh_contents_def)

lemma NewTernaryLongHeap_wf:
  "1 \<le> k \<Longrightarrow> k < MaxArrayLength \<Longrightarrow> \<exists>h. NewTernaryLongHeap k = Ok h \<and> th_wf h \<and> th_contents h = {#} \<and> th_initialCapacity h = k"
  by (auto simp: NewTernaryLongHeap_def th_wf_def th_contents_def)

lemma sorted_split:
  fixes xs ys zs :: "int list"
  assumes "mset ys + mset zs = mset xs" "sorted ys" "sorted zs" "\<forall>y\<in>set ys. \<forall>z\<in>set zs. y \<le> z"
  shows "sort xs = ys @ zs"
  using assms by (intro properties_for_sort) (auto simp: sorted_append)

lemma greatest_kept:
  fixes xs ys :: "int list"
  assumes "A + B = mset xs" "mset ys = A" "sorted ys" "\<forall>b\<in>#B. \<forall>a\<in>#A. b \<le> a"
  shows "ys = drop (length xs - length ys) (sort xs)"
proof -
  let ?zs = "sorted_list_of_multiset B"
  have "sort xs = ?zs @ ys" using assms by (intro sorted_split) (auto simp: union_commute)
  moreover then have "length xs = length ?zs + length ys" by (metis length_append length_sort)
  ultimately show ?thesis by simp
qed

lemma smallest_kept:
  fixes xs ys :: "int list"
  assumes "A + B = mset xs" "mset ys = A" "sorted (rev ys)" "\<forall>b\<in>#B. \<forall>a\<in>#A. a \<le> b"
  shows "ys = rev (take (length ys) (sort xs))"
proof -
  have "sort xs = rev ys @ sorted_list_of_multiset B" using assms by (intro sorted_split) auto
  then show ?thesis by simp
qed

lemma kept_length: "int n = min k (int m) \<Longrightarrow> n = min (nat k) m"
  by (auto simp: min_def split: if_splits)

lemma sorted_conv:
  fixes ys :: "int list"
  shows "sorted_wrt (\<lambda>a b. \<not> cmpLess LongHeapMin b a) ys \<longleftrightarrow> sorted ys" "sorted_wrt (\<lambda>a b. \<not> cmpLess LongHeapMax b a) ys \<longleftrightarrow> sorted (rev ys)"
  by (simp_all add: not_less sorted_wrt_rev)

lemma long_heap_kept:
  assumes "1 \<le> k" "k < MaxArrayLength"
  obtains h h' ys K where "newLongHeap k order = Ok h" "q_insert_all lh_InsertWithOverflow xs h = Ok h'"
    "q_drain lh_Pop (lh_size h') h' = Ok ys" "mset ys + K = mset xs" "length ys = min (nat k) (length xs)"
    "sorted_wrt (\<lambda>a b. \<not> cmpLess order b a) ys" "\<forall>d\<in>#K. \<forall>x\<in>#mset ys. \<not> cmpLess order x d"
proof -
  obtain h where h: "newLongHeap k order = Ok h" "lh_wf order h" "lh_contents h = {#}" "lh_initialCapacity h = k"
    using newLongHeap_wf [OF assms] by blast
  obtain h' K where h': "q_insert_all lh_InsertWithOverflow xs h = Ok h'" "lh_wf order h'" "lh_contents h' + K = mset xs"
      "int (size (lh_contents h')) = min k (int (length xs))" "\<forall>d\<in>#K. \<forall>x\<in>#lh_contents h'. \<not> cmpLess order x d"
    using lq.insert_all_keeps [OF h(2), of "{#}" xs] h(3,4) assms(1) by auto
  obtain ys where ys: "q_drain lh_Pop (lh_size h') h' = Ok ys" "mset ys = lh_contents h'" "sorted_wrt (\<lambda>a b. \<not> cmpLess order b a) ys"
    using lq.drain_sorts [OF h'(2) lh_contents_size [OF h'(2)]] by blast
  have "size (lh_contents h') = length ys" using ys(2) by (metis size_mset)
  then have "length ys = min (nat k) (length xs)" using kept_length [OF h'(4)] by simp
  then show thesis using that [OF h(1) h'(1) ys(1) _ _ ys(3)] h'(3,5) ys(2) by simp
qed

lemma ternary_heap_kept:
  assumes "1 \<le> k" "k < MaxArrayLength"
  obtains h h' ys K where "NewTernaryLongHeap k = Ok h" "q_insert_all th_InsertWithOverflow xs h = Ok h'"
    "q_drain th_Pop (th_size h') h' = Ok ys" "mset ys + K = mset xs" "length ys = min (nat k) (length xs)"
    "sorted ys" "\<forall>d\<in>#K. \<forall>x\<in>#mset ys. d \<le> x"
proof -
  obtain h where h: "NewTernaryLongHeap k = Ok h" "th_wf h" "th_contents h = {#}" "th_initialCapacity h = k"
    using NewTernaryLongHeap_wf [OF assms] by blast
  obtain h' K where h': "q_insert_all th_InsertWithOverflow xs h = Ok h'" "th_wf h'" "th_contents h' + K = mset xs"
      "int (size (th_contents h')) = min k (int (length xs))" "\<forall>d\<in>#K. \<forall>x\<in>#th_contents h'. d \<le> x"
    using tq.insert_all_keeps [OF h(2), of "{#}" xs] h(3,4) assms(1) by (auto simp: not_less)
  obtain ys where ys: "q_drain th_Pop (th_size h') h' = Ok ys" "mset ys = th_contents h'" "sorted ys"
    using tq.drain_sorts [OF h'(2) th_contents_size [OF h'(2)]] by (auto simp: not_less)
  have "size (th_contents h') = length ys" using ys(2) by (metis size_mset)
  then have "length ys = min (nat k) (length xs)" using kept_length [OF h'(4)] by simp
  then show thesis using that [OF h(1) h'(1) ys(1) _ _ ys(3)] h'(3,5) ys(2) by simp
qed

lemma new_min_max: "NewLongHeapMin k = newLongHeap k LongHeapMin" "NewLongHeapMax k = newLongHeap k LongHeapMax"
  by (simp_all add: NewLongHeapMin_def NewLongHeapMax_def)

text \<open>
  C38: The bounded heaps keep the best values.  From a new heap of capacity \<open>k\<close>, after
  \<open>InsertWithOverflow\<close> of any sequence of values, popping until the heap is empty yields the \<open>k\<close>
  greatest values in increasing order for the min-heap of either arity, and the \<open>k\<close> smallest
  in decreasing order for the max-heap; with fewer than \<open>k\<close> values, all of them.
\<close>

theorem long_heaps_top_k:
  assumes "1 \<le> k" "k < MaxArrayLength"
  shows "(\<exists>h h'. NewLongHeapMin k = Ok h \<and> q_insert_all lh_InsertWithOverflow xs h = Ok h'
       \<and> q_drain lh_Pop (lh_size h') h' = Ok (drop (length xs - nat k) (sort xs)))
    \<and> (\<exists>h h'. NewLongHeapMax k = Ok h \<and> q_insert_all lh_InsertWithOverflow xs h = Ok h'
       \<and> q_drain lh_Pop (lh_size h') h' = Ok (rev (take (nat k) (sort xs))))
    \<and> (\<exists>h h'. NewTernaryLongHeap k = Ok h \<and> q_insert_all th_InsertWithOverflow xs h = Ok h'
       \<and> q_drain th_Pop (th_size h') h' = Ok (drop (length xs - nat k) (sort xs)))"
proof (intro conjI)
  obtain h h' ys K where r: "newLongHeap k LongHeapMin = Ok h" "q_insert_all lh_InsertWithOverflow xs h = Ok h'"
      "q_drain lh_Pop (lh_size h') h' = Ok ys" "mset ys + K = mset xs" "length ys = min (nat k) (length xs)" "sorted ys" "\<forall>d\<in>#K. \<forall>x\<in>#mset ys. d \<le> x"
    by (rule long_heap_kept [OF assms, of LongHeapMin xs, unfolded sorted_conv, unfolded cmpLess.simps not_less]) (rule that)
  have "ys = drop (length xs - length ys) (sort xs)" by (rule greatest_kept [OF r(4) refl r(6,7)])
  then show "\<exists>h h'. NewLongHeapMin k = Ok h \<and> q_insert_all lh_InsertWithOverflow xs h = Ok h'
      \<and> q_drain lh_Pop (lh_size h') h' = Ok (drop (length xs - nat k) (sort xs))"
    using r(1-3,5) by (auto simp: new_min_max min_def split: if_splits)
next
  obtain h h' ys K where r: "newLongHeap k LongHeapMax = Ok h" "q_insert_all lh_InsertWithOverflow xs h = Ok h'"
      "q_drain lh_Pop (lh_size h') h' = Ok ys" "mset ys + K = mset xs" "length ys = min (nat k) (length xs)" "sorted (rev ys)"
      "\<forall>d\<in>#K. \<forall>x\<in>#mset ys. x \<le> d"
    by (rule long_heap_kept [OF assms, of LongHeapMax xs, unfolded sorted_conv, unfolded cmpLess.simps not_less]) (rule that)
  have "ys = rev (take (length ys) (sort xs))" by (rule smallest_kept [OF r(4) refl r(6,7)])
  also have "take (length ys) (sort xs) = take (nat k) (sort xs)" using r(5) by (auto simp: min_def)
  finally show "\<exists>h h'. NewLongHeapMax k = Ok h \<and> q_insert_all lh_InsertWithOverflow xs h = Ok h'
      \<and> q_drain lh_Pop (lh_size h') h' = Ok (rev (take (nat k) (sort xs)))"
    using r(1-3) by (auto simp: new_min_max)
next
  obtain h h' ys K where r: "NewTernaryLongHeap k = Ok h" "q_insert_all th_InsertWithOverflow xs h = Ok h'"
      "q_drain th_Pop (th_size h') h' = Ok ys" "mset ys + K = mset xs" "length ys = min (nat k) (length xs)" "sorted ys" "\<forall>d\<in>#K. \<forall>x\<in>#mset ys. d \<le> x"
    by (rule ternary_heap_kept [OF assms, of xs]) (rule that)
  have "ys = drop (length xs - length ys) (sort xs)" by (rule greatest_kept [OF r(4) refl r(6,7)])
  then show "\<exists>h h'. NewTernaryLongHeap k = Ok h \<and> q_insert_all th_InsertWithOverflow xs h = Ok h'
      \<and> q_drain th_Pop (th_size h') h' = Ok (drop (length xs - nat k) (sort xs))"
    using r(1-3,5) by (auto simp: min_def split: if_splits)
qed

theorem long_heaps_top_k_witness:
  "\<exists>h h'. NewLongHeapMin 3 = Ok h \<and> q_insert_all lh_InsertWithOverflow [5, 1, 9, -2, 7] h = Ok h'
     \<and> q_drain lh_Pop (lh_size h') h' = Ok [5, 7, 9]"
  using long_heaps_top_k [of 3 "[5, 1, 9, -2, 7]"] by (simp add: MaxArrayLength_def)

text \<open>
  C39: The heaps sort.  Pushing any sequence of values onto a new heap, which grows its array when
  it is full, and popping them all yields the values in increasing order for the min-heap of
  either arity and in decreasing order for the max-heap; \<open>Pop\<close> of the emptied heap panics.
\<close>

theorem long_heaps_sort:
  assumes "1 \<le> k" "k < MaxArrayLength"
  shows "(\<exists>h h'. NewLongHeapMin k = Ok h \<and> q_push_all lh_Push xs h = Ok h' \<and> q_drain lh_Pop (length xs) h' = Ok (sort xs))
    \<and> (\<exists>h h'. NewLongHeapMax k = Ok h \<and> q_push_all lh_Push xs h = Ok h' \<and> q_drain lh_Pop (length xs) h' = Ok (rev (sort xs)))
    \<and> (\<exists>h h'. NewTernaryLongHeap k = Ok h \<and> q_push_all th_Push xs h = Ok h' \<and> q_drain th_Pop (length xs) h' = Ok (sort xs))
    \<and> (\<exists>h msg. NewLongHeapMin k = Ok h \<and> lh_Pop h = Panic msg)"
proof -
  have long: "\<exists>h h' ys. newLongHeap k order = Ok h \<and> q_push_all lh_Push xs h = Ok h' \<and> q_drain lh_Pop (length xs) h' = Ok ys
      \<and> mset ys = mset xs \<and> sorted_wrt (\<lambda>a b. \<not> cmpLess order b a) ys" for order
  proof -
    obtain h where h: "newLongHeap k order = Ok h" "lh_wf order h" "lh_contents h = {#}" using newLongHeap_wf [OF assms] by blast
    obtain h' where h': "q_push_all lh_Push xs h = Ok h'" "lh_wf order h'" "lh_contents h' = mset xs"
      using lq.push_all_adds [OF h(2), of xs] h(3) by auto
    then show ?thesis using lq.drain_sorts [OF h'(2), of "length xs"] h(1) by auto
  qed
  have rev: "rev ys = sort xs" if "mset ys = mset xs" "sorted (rev ys)" for ys
    using that by (intro properties_for_sort [symmetric]) auto
  show ?thesis
  proof (intro conjI)
    show "\<exists>h h'. NewLongHeapMin k = Ok h \<and> q_push_all lh_Push xs h = Ok h' \<and> q_drain lh_Pop (length xs) h' = Ok (sort xs)"
      using long [of LongHeapMin] properties_for_sort unfolding sorted_conv new_min_max by metis
    show "\<exists>h h'. NewLongHeapMax k = Ok h \<and> q_push_all lh_Push xs h = Ok h' \<and> q_drain lh_Pop (length xs) h' = Ok (rev (sort xs))"
      using long [of LongHeapMax] rev unfolding sorted_conv new_min_max by (metis rev_rev_ident)
    obtain h where h: "NewTernaryLongHeap k = Ok h" "th_wf h" "th_contents h = {#}" using NewTernaryLongHeap_wf [OF assms] by blast
    obtain h' where h': "q_push_all th_Push xs h = Ok h'" "th_wf h'" "th_contents h' = mset xs"
      using tq.push_all_adds [OF h(2), of xs] h(3) by auto
    then obtain ys where "q_drain th_Pop (length xs) h' = Ok ys" "mset ys = mset xs" "sorted ys"
      using tq.drain_sorts [OF h'(2), of "length xs"] by (auto simp: not_less)
    then show "\<exists>h h'. NewTernaryLongHeap k = Ok h \<and> q_push_all th_Push xs h = Ok h' \<and> q_drain th_Pop (length xs) h' = Ok (sort xs)"
      using h(1) h'(1) properties_for_sort by metis
    show "\<exists>h msg. NewLongHeapMin k = Ok h \<and> lh_Pop h = Panic msg"
      using newLongHeap_wf [OF assms, of LongHeapMin] lq.pop_empty unfolding new_min_max by blast
  qed
qed

theorem long_heaps_sort_witness:
  "\<exists>h h'. NewTernaryLongHeap 1 = Ok h \<and> q_push_all th_Push [5, 1, 9, -2, 7] h = Ok h' \<and> q_drain th_Pop 5 h' = Ok [-2, 1, 5, 7, 9]"
  using long_heaps_sort [of 1 "[5, 1, 9, -2, 7]", THEN conjunct2, THEN conjunct2, THEN conjunct1]
  by (simp add: MaxArrayLength_def eval_nat_numeral del: q_push_all.simps q_drain.simps)

end
