(* ===== verification/Go_Strings.thy ===== *)
theory Go_Strings
  imports Data_IO
begin

text \<open>
  What the segment files use of Go's \<^verbatim>\<open>strconv\<close>, \<^verbatim>\<open>strings\<close> and \<^verbatim>\<open>fmt\<close>: integers printed and
  parsed in a base, the verbs \<open>%d\<close> of \<open>Sprintf\<close> and \<open>Sscanf\<close>, prefixes, \<open>strings.Split\<close> and
  \<open>strings.Replacer\<close>.  A string is its bytes.  The space characters that \<open>Sscanf\<close> skips are the
  ASCII ones; the strings it is given here are versions and segment names.
\<close>

definition str :: "string \<Rightarrow> gostring" where
  "str s = map of_char s"

lemma str_simps [simp]: "str [] = []" "str (c # cs) = of_char c # str cs" "length (str s) = length s"
  by (simp_all add: str_def)

definition HasPrefix :: "gostring \<Rightarrow> gostring \<Rightarrow> bool" where
  "HasPrefix s p \<longleftrightarrow> take (length p) s = p"

lemma HasPrefix_append [simp]: "HasPrefix (p @ s) p"
  by (simp add: HasPrefix_def)

section \<open>Integers in a base\<close>

text \<open>The digits of \<open>strconv.FormatInt\<close>: \<open>0\<close> to \<open>9\<close>, then lower-case letters.\<close>

definition digit_byte :: "nat \<Rightarrow> u8" where
  "digit_byte d = (if d < 10 then of_nat (48 + d) else of_nat (87 + d))"

text \<open>The value of a digit in \<open>strconv.ParseUint\<close>; letters count in either case.\<close>

definition digit_val :: "u8 \<Rightarrow> nat option" where
  "digit_val c =
     (if 48 \<le> c \<and> c \<le> 57 then Some (unat c - 48)
      else if 97 \<le> c OR 0x20 \<and> c OR 0x20 \<le> 122 then Some (unat (c OR 0x20) - 87) else None)"

function format_nat :: "nat \<Rightarrow> nat \<Rightarrow> gostring" where
  "format_nat base n =
     (if base < 2 \<or> n < base then [digit_byte n] else format_nat base (n div base) @ [digit_byte (n mod base)])"
  by pat_completeness auto
termination by (relation "measure snd") auto

declare format_nat.simps [simp del]

definition format_int :: "nat \<Rightarrow> int \<Rightarrow> gostring" where
  "format_int base i = (if i < 0 then 45 # format_nat base (nat (- i)) else format_nat base (nat i))"

definition FormatInt :: "i64 \<Rightarrow> nat \<Rightarrow> gostring" where
  "FormatInt i base = format_int base (sint i)"

fun parse_digits :: "nat \<Rightarrow> nat \<Rightarrow> gostring \<Rightarrow> nat option" where
  "parse_digits base acc [] = Some acc"
| "parse_digits base acc (c # cs) =
     (case digit_val c of None \<Rightarrow> None
      | Some d \<Rightarrow> if d \<ge> base then None else parse_digits base (acc * base + d) cs)"

text \<open>
  \<open>strconv.ParseInt(s, base, 64)\<close>, \<open>None\<close> for either of its errors (syntax and range), and
  \<open>strconv.Atoi\<close>, which is \<open>ParseInt(s, 10, 0)\<close> on a 64-bit platform.
\<close>

definition parse_sign :: "gostring \<Rightarrow> bool \<times> gostring" where
  "parse_sign s = (case s of [] \<Rightarrow> (False, [])
     | c # cs \<Rightarrow> if c = 43 then (False, cs) else if c = 45 then (True, cs) else (False, s))"

definition ParseInt :: "gostring \<Rightarrow> nat \<Rightarrow> i64 option" where
  "ParseInt s base =
     (case parse_sign s of (neg, ds) \<Rightarrow>
        if ds = [] then None
        else case parse_digits base 0 ds of
               None \<Rightarrow> None
             | Some un \<Rightarrow>
                 if \<not> neg \<and> un \<ge> 2 ^ 63 then None
                 else if neg \<and> un > 2 ^ 63 then None
                 else Some (if neg then - of_nat un else of_nat un))"

definition Atoi :: "gostring \<Rightarrow> i64 option" where
  "Atoi s = ParseInt s 10"

subsection \<open>Printing and parsing are inverse\<close>

lemma digit_val_byte: "d < 36 \<Longrightarrow> digit_val (digit_byte d) = Some d"
proof -
  assume "d < 36"
  moreover have "list_all (\<lambda>d. digit_val (digit_byte d) = Some d) [0..<36]" by code_simp
  ultimately show ?thesis by (simp add: list_all_iff)
qed

lemma parse_digits_append:
  "parse_digits base acc (xs @ ys) = (case parse_digits base acc xs of None \<Rightarrow> None | Some a \<Rightarrow> parse_digits base a ys)"
  by (induction xs arbitrary: acc) (auto split: option.splits)

lemma parse_format_nat:
  assumes "2 \<le> base" "base \<le> 36"
  shows "parse_digits base 0 (format_nat base n) = Some n"
proof (induction n rule: less_induct)
  case (less n)
  show ?case
  proof (cases "n < base")
    case True
    then show ?thesis using assms by (simp add: format_nat.simps [of base n] digit_val_byte)
  next
    case False
    then have "parse_digits base 0 (format_nat base (n div base)) = Some (n div base)" using assms by (intro less) simp
    moreover have "n mod base < base" "n mod base < 36" using assms mod_less_divisor [of base n] by linarith+
    ultimately show ?thesis using False assms
      by (simp add: format_nat.simps [of base n] parse_digits_append digit_val_byte div_mult_mod_eq not_le)
  qed
qed

lemma format_nat_not_Nil [simp]: "format_nat base n \<noteq> []"
  by (simp add: format_nat.simps [of base n])

lemma digit_byte_range: "d < 36 \<Longrightarrow> digit_byte d \<in> {48..57} \<union> {97..122}"
proof -
  assume "d < 36"
  moreover have "list_all (\<lambda>d. 48 \<le> digit_byte d \<and> digit_byte d \<le> 57 \<or> 97 \<le> digit_byte d \<and> digit_byte d \<le> 122) [0..<36]"
    by code_simp
  ultimately show ?thesis by (simp add: list_all_iff)
qed

lemma format_nat_bytes:
  assumes "2 \<le> base" "base \<le> 36"
  shows "set (format_nat base n) \<subseteq> {48..57} \<union> {97..122}"
proof (induction n rule: less_induct)
  case (less n)
  show ?case
  proof (cases "n < base")
    case True
    then show ?thesis using assms digit_byte_range [of n] by (simp add: format_nat.simps [of base n])
  next
    case False
    then have "set (format_nat base (n div base)) \<subseteq> {48..57} \<union> {97..122}" using assms by (intro less) simp
    moreover have "n mod base < 36" using assms mod_less_divisor [of base n] by linarith
    ultimately show ?thesis using False assms digit_byte_range [of "n mod base"]
      by (simp add: format_nat.simps [of base n])
  qed
qed

lemma parse_sign_format_nat:
  assumes "2 \<le> base" "base \<le> 36"
  shows "parse_sign (format_nat base n) = (False, format_nat base n)"
proof -
  obtain c cs where c: "format_nat base n = c # cs" by (cases "format_nat base n") auto
  then have "c \<in> {48..57} \<union> {97..122}" using format_nat_bytes [OF assms, of n] by simp
  then have "c \<noteq> 43" "c \<noteq> 45" by auto
  then show ?thesis by (simp add: c parse_sign_def)
qed

lemma ParseInt_FormatInt:
  assumes "2 \<le> base" "base \<le> 36"
  shows "ParseInt (FormatInt i base) base = Some i"
proof (cases "sint i < 0")
  case True
  have le: "nat (- sint i) \<le> 2 ^ 63" using sint_greater_eq [of i] by simp
  have neg: "- of_nat (nat (- sint i)) = i"
  proof -
    have "of_nat (nat (- sint i)) = (word_of_int (- sint i) :: i64)" using True by (intro of_nat_nat) simp
    then show ?thesis by simp
  qed
  have "parse_sign (FormatInt i base) = (True, format_nat base (nat (- sint i)))"
    using True by (simp add: FormatInt_def format_int_def parse_sign_def)
  then show ?thesis using le by (simp add: ParseInt_def parse_format_nat [OF assms] neg not_less del: of_nat_nat)
next
  case False
  have lt: "nat (sint i) < 2 ^ 63" using sint_less [of i] False by (simp add: nat_less_iff)
  have pos: "of_nat (nat (sint i)) = i" using False by simp
  have "parse_sign (FormatInt i base) = (False, format_nat base (nat (sint i)))"
    using False by (simp add: FormatInt_def format_int_def parse_sign_format_nat [OF assms])
  then show ?thesis using lt by (simp add: ParseInt_def parse_format_nat [OF assms] pos not_le del: of_nat_nat)
qed

lemma FormatInt_inj:
  assumes "2 \<le> base" "base \<le> 36" "FormatInt i base = FormatInt j base"
  shows "i = j"
proof -
  have "Some i = ParseInt (FormatInt j base) base"
    unfolding assms(3) [symmetric] by (rule ParseInt_FormatInt [OF assms(1,2), symmetric])
  then show ?thesis unfolding ParseInt_FormatInt [OF assms(1,2)] by (rule option.inject [THEN iffD1])
qed

section \<open>The verb \<open>%d\<close>\<close>

text \<open>
  \<open>Sprintf\<close> prints an integer in base 10.  \<open>Sscanf\<close> skips spaces, refuses a newline, takes a sign
  and at least one digit, and refuses a value outside the width of its operand; at an
  error it stops and the operands not yet read keep their values.
\<close>

fun skip_space :: "gostring \<Rightarrow> gostring option" where
  "skip_space [] = Some []"
| "skip_space (c # cs) =
     (if c = 10 then None else if c \<in> {9, 11, 12, 13, 32} then skip_space cs else Some (c # cs))"

definition is_digit :: "u8 \<Rightarrow> bool" where
  "is_digit c \<longleftrightarrow> 48 \<le> c \<and> c \<le> 57"

definition scan_d :: "nat \<Rightarrow> gostring \<Rightarrow> (int \<times> gostring) option" where
  "scan_d bitSize s =
     (case skip_space s of None \<Rightarrow> None
      | Some t \<Rightarrow>
          let sgn = takeWhile (\<lambda>c. c = 43 \<or> c = 45) (take 1 t);
              ds = takeWhile is_digit (drop (length sgn) t);
              rest = drop (length sgn + length ds) t
          in case ParseInt (sgn @ ds) 10 of
               None \<Rightarrow> None
             | Some i \<Rightarrow> if - (2 ^ (bitSize - 1)) \<le> sint i \<and> sint i < 2 ^ (bitSize - 1) then Some (sint i, rest) else None)"

text \<open>\<open>fmt.Sscanf(s, "%d.%d.%d", &major, &minor, &bugfix)\<close> on three zero \<open>int32\<close> variables.\<close>

definition scan_dot :: "gostring \<Rightarrow> gostring option" where
  "scan_dot s = (case s of [] \<Rightarrow> None | c # cs \<Rightarrow> if c = 46 then Some cs else None)"

definition Sscanf_version :: "gostring \<Rightarrow> i32 \<times> i32 \<times> i32" where
  "Sscanf_version s =
     (case scan_d 32 s of None \<Rightarrow> (0, 0, 0)
      | Some (a, s1) \<Rightarrow>
          (case Option.bind (scan_dot s1) (scan_d 32) of None \<Rightarrow> (of_int a, 0, 0)
           | Some (b, s2) \<Rightarrow>
               (case Option.bind (scan_dot s2) (scan_d 32) of None \<Rightarrow> (of_int a, of_int b, 0)
                | Some (c, s3) \<Rightarrow> (of_int a, of_int b, of_int c))))"

definition Sprintf_version :: "i32 \<Rightarrow> i32 \<Rightarrow> i32 \<Rightarrow> gostring" where
  "Sprintf_version a b c =
     format_int 10 (sint a) @ [46] @ format_int 10 (sint b) @ [46] @ format_int 10 (sint c)"

text \<open>\<open>fmt.Sscanf(s, "%d", &gen)\<close> on a zero \<open>int64\<close> variable.\<close>

definition Sscanf_gen :: "gostring \<Rightarrow> i64" where
  "Sscanf_gen s = (case scan_d 64 s of None \<Rightarrow> 0 | Some (i, rest) \<Rightarrow> of_int i)"

subsection \<open>Scanning what was printed\<close>

lemma digit_byte_decimal: "d < 10 \<Longrightarrow> is_digit (digit_byte d)"
proof -
  assume "d < 10"
  moreover have "list_all (\<lambda>d. is_digit (digit_byte d)) [0..<10]" by code_simp
  ultimately show ?thesis by (simp add: list_all_iff)
qed

lemma format_decimal_digits: "\<forall>c \<in> set (format_nat 10 n). is_digit c"
proof (induction n rule: less_induct)
  case (less n)
  show ?case
  proof (cases "n < 10")
    case True
    then show ?thesis by (simp add: format_nat.simps [of 10 n] digit_byte_decimal)
  next
    case False
    then have "\<forall>c \<in> set (format_nat 10 (n div 10)). is_digit c" by (intro less) simp
    then show ?thesis using False by (simp add: format_nat.simps [of 10 n] digit_byte_decimal)
  qed
qed

lemma is_digit_no_space: "is_digit c \<Longrightarrow> c \<noteq> 10 \<and> c \<notin> {9, 11, 12, 13, 32} \<and> c \<noteq> 43 \<and> c \<noteq> 45"
  by (auto simp: is_digit_def)

lemma takeWhile_digits:
  "\<forall>c \<in> set ds. is_digit c \<Longrightarrow> (case rest of [] \<Rightarrow> True | c # cs \<Rightarrow> \<not> is_digit c) \<Longrightarrow> takeWhile is_digit (ds @ rest) = ds"
  by (cases rest) auto

lemma ParseInt_format_int:
  assumes "- (2 ^ 63) \<le> i" "i < 2 ^ 63"
  shows "ParseInt (format_int 10 i) 10 = Some (of_int i)" "sint (of_int i :: i64) = i"
proof -
  show "sint (of_int i :: i64) = i" using assms by (simp add: sint_sbintrunc' signed_take_bit_int_eq_self)
  then show "ParseInt (format_int 10 i) 10 = Some (of_int i)"
    using ParseInt_FormatInt [of 10 "of_int i"] by (simp add: FormatInt_def)
qed

lemma scan_d_format_int:
  assumes "- (2 ^ (b - 1)) \<le> i" "i < 2 ^ (b - 1)" "0 < b" "b \<le> 64"
    and "case rest of [] \<Rightarrow> True | c # cs \<Rightarrow> \<not> is_digit c"
  shows "scan_d b (format_int 10 i @ rest) = Some (i, rest)"
proof -
  let ?sg = "if i < 0 then [45] else [] :: gostring" and ?ds = "format_nat 10 (nat \<bar>i\<bar>)"
  let ?t = "?sg @ ?ds @ rest"
  have f: "format_int 10 i = ?sg @ ?ds" by (simp add: format_int_def)
  have dg: "\<forall>c \<in> set ?ds. is_digit c" by (rule format_decimal_digits)
  obtain c cs where c: "?ds = c # cs" by (cases ?ds) auto
  then have "is_digit c" using dg by simp
  note c' = is_digit_no_space [OF this]
  have sk: "skip_space ?t = Some ?t" using c' by (simp add: c)
  have sg: "takeWhile (\<lambda>c. c = 43 \<or> c = 45) (take 1 ?t) = ?sg" using c' by (simp add: c)
  have tk: "takeWhile is_digit (drop (length ?sg) ?t) = ?ds"
    using takeWhile_digits [OF dg assms(5)] by simp
  have "(2 :: int) ^ (b - 1) \<le> 2 ^ 63" by (rule power_increasing) (use assms(3,4) in simp_all)
  then have "- (2 ^ 63) \<le> i" "i < 2 ^ 63" using assms(1,2) by linarith+
  note pi = ParseInt_format_int [OF this]
  have dr: "drop (length ?sg + length ?ds) ?t = rest" by simp
  have "scan_d b (format_int 10 i @ rest) = scan_d b ?t" by (simp only: f append_assoc)
  also have "\<dots> = Some (i, rest)"
    unfolding scan_d_def sk option.case Let_def sg tk dr f [symmetric] pi(1) option.case pi(2)
    using assms(1,2) by simp
  finally show ?thesis .
qed

lemma Sscanf_Sprintf_version: "Sscanf_version (Sprintf_version a b c) = (a, b, c)"
proof -
  have r: "- (2 ^ (32 - 1)) \<le> sint (w :: i32)" "sint w < 2 ^ (32 - 1)" for w
    using sint_greater_eq [of w] sint_less [of w] by simp_all
  have "\<not> is_digit 46" by (simp add: is_digit_def)
  then have d: "scan_d 32 (format_int 10 (sint w) @ 46 # t) = Some (sint w, 46 # t)" for w :: i32 and t
    by (intro scan_d_format_int [OF r]) simp_all
  have e: "scan_d 32 (format_int 10 (sint w)) = Some (sint w, [])" for w :: i32
    using scan_d_format_int [OF r, of "[]" w] by simp
  show ?thesis by (simp add: Sscanf_version_def Sprintf_version_def d e scan_dot_def)
qed

lemma Sscanf_gen_format: "Sscanf_gen (format_int 10 (sint g)) = g"
  using scan_d_format_int [of 64 "sint g" "[]"] sint_greater_eq [of g] sint_less [of g]
  by (simp add: Sscanf_gen_def)

end
