(* ===== verification/File_Deleter.thy ===== *)
theory File_Deleter
  imports Byte_Buffers_Directory Go_Strings
begin

text \<open>
  \<^verbatim>\<open>util/file_deleter.go\<close>: reference counts on the files of an index, with deletion of the
  files whose count reaches zero.  The directory is an interface with one operation,
  \<open>DeleteFile\<close>; it is the argument \<open>del\<close> of the definitions, together with \<open>notExist\<close>, the test
  \<open>errors.Is(err, fs.ErrNotExist)\<close> on the errors of that directory.  The locale \<open>file_store\<close>
  states what a directory promises, and the in-memory directory of this library keeps it.

  A joined error is the list of the errors joined, empty for nil.  The messages sent to the
  messenger are not part of the state and are left out.  Go iterates over a map in any
  order, so the operations that list names return sets.
\<close>

section \<open>State\<close>

record FileDeleterRefCount =
  rc_FileName :: gostring
  rc_InitDone :: bool
  rc_Count :: int

definition rc_IncRef :: "FileDeleterRefCount \<Rightarrow> FileDeleterRefCount" where
  "rc_IncRef r = r\<lparr>rc_InitDone := True, rc_Count := rc_Count r + 1\<rparr>"

definition rc_DecRef :: "FileDeleterRefCount \<Rightarrow> FileDeleterRefCount" where
  "rc_DecRef r = r\<lparr>rc_Count := rc_Count r - 1\<rparr>"

record 'd FileDeleter =
  fd_directory :: 'd
  fd_refCounts :: "gostring \<rightharpoonup> FileDeleterRefCount"
  fd_SegmentsPrefix :: gostring
  fd_TolerateMissingOnDelete :: bool

definition NewFileDeleter :: "bool \<Rightarrow> 'd \<Rightarrow> 'd FileDeleter" where
  "NewFileDeleter isWindows directory =
     \<lparr>fd_directory = directory, fd_refCounts = Map.empty, fd_SegmentsPrefix = map of_char ''segments_'',
      fd_TolerateMissingOnDelete = isWindows\<rparr>"

definition fd_getRefCountInternal :: "gostring \<Rightarrow> 'd FileDeleter \<Rightarrow> FileDeleterRefCount \<times> 'd FileDeleter" where
  "fd_getRefCountInternal fileName d =
     (case fd_refCounts d fileName of
        Some rc \<Rightarrow> (rc, d)
      | None \<Rightarrow> (let rc = \<lparr>rc_FileName = fileName, rc_InitDone = False, rc_Count = 0\<rparr>
                 in (rc, d\<lparr>fd_refCounts := (fd_refCounts d)(fileName \<mapsto> rc)\<rparr>)))"

section \<open>Counting\<close>

definition fd_IncRef :: "gostring \<Rightarrow> 'd FileDeleter \<Rightarrow> 'd FileDeleter" where
  "fd_IncRef fileName d =
     (case fd_getRefCountInternal fileName d of
        (rc, d1) \<Rightarrow> d1\<lparr>fd_refCounts := (fd_refCounts d1)(fileName \<mapsto> rc_IncRef rc)\<rparr>)"

fun fd_IncRefAll :: "gostring list \<Rightarrow> 'd FileDeleter \<Rightarrow> 'd FileDeleter" where
  "fd_IncRefAll [] d = d"
| "fd_IncRefAll (f # fs) d = fd_IncRefAll fs (fd_IncRef f d)"

definition fd_decRef :: "gostring \<Rightarrow> ('d FileDeleter, bool) act" where
  "fd_decRef fileName d =
     (case fd_getRefCountInternal fileName d of
        (rc, d1) \<Rightarrow>
          if rc_Count rc \<le> 0 then (Err (Errorf ''DecRef''), d1)
          else let rc' = rc_DecRef rc
               in if rc_Count rc' = 0 then (Ok True, d1\<lparr>fd_refCounts := (fd_refCounts d1)(fileName := None)\<rparr>)
                  else (Ok False, d1\<lparr>fd_refCounts := (fd_refCounts d1)(fileName \<mapsto> rc')\<rparr>))"

definition fd_InitRefCount :: "gostring \<Rightarrow> 'd FileDeleter \<Rightarrow> 'd FileDeleter" where
  "fd_InitRefCount fileName d =
     (if fd_refCounts d fileName = None
      then d\<lparr>fd_refCounts := (fd_refCounts d)(fileName \<mapsto> \<lparr>rc_FileName = fileName, rc_InitDone = False, rc_Count = 0\<rparr>)\<rparr>
      else d)"

definition fd_GetRefCount :: "gostring \<Rightarrow> 'd FileDeleter \<Rightarrow> int" where
  "fd_GetRefCount fileName d = (case fd_refCounts d fileName of None \<Rightarrow> 0 | Some rc \<Rightarrow> rc_Count rc)"

definition fd_AllFiles :: "'d FileDeleter \<Rightarrow> gostring set" where
  "fd_AllFiles d = dom (fd_refCounts d)"

definition fd_Exists :: "gostring \<Rightarrow> 'd FileDeleter \<Rightarrow> bool" where
  "fd_Exists fileName d = (case fd_refCounts d fileName of None \<Rightarrow> False | Some rc \<Rightarrow> rc_Count rc > 0)"

definition fd_UnrefedFiles :: "'d FileDeleter \<Rightarrow> gostring set" where
  "fd_UnrefedFiles d = {name. \<exists>rc. fd_refCounts d name = Some rc \<and> rc_Count rc = 0}"

section \<open>Deleting\<close>

definition fd_deleteOne :: "(gostring \<Rightarrow> ('d, unit) act) \<Rightarrow> (go_error \<Rightarrow> bool) \<Rightarrow> gostring \<Rightarrow> ('d FileDeleter, go_error list) act" where
  "fd_deleteOne del notExist fileName d =
     (case del fileName (fd_directory d) of
        (Ok _, dir) \<Rightarrow> (Ok [], d\<lparr>fd_directory := dir\<rparr>)
      | (Err e, dir) \<Rightarrow>
          (Ok (if fd_TolerateMissingOnDelete d \<and> notExist e then [] else [e]), d\<lparr>fd_directory := dir\<rparr>)
      | (Panic p, dir) \<Rightarrow> (Panic p, d\<lparr>fd_directory := dir\<rparr>))"

text \<open>One of the two passes: the names that satisfy \<open>sel\<close>.\<close>

fun fd_delete_pass :: "(gostring \<Rightarrow> ('d, unit) act) \<Rightarrow> (go_error \<Rightarrow> bool) \<Rightarrow> (gostring \<Rightarrow> bool) \<Rightarrow> gostring list \<Rightarrow> ('d FileDeleter, go_error list) act" where
  "fd_delete_pass del notExist sel [] = ret_act []"
| "fd_delete_pass del notExist sel (name # names) =
     (if sel name
      then bind_act (fd_deleteOne del notExist name) (\<lambda>e. bind_act (fd_delete_pass del notExist sel names) (\<lambda>es. ret_act (e @ es)))
      else fd_delete_pass del notExist sel names)"

definition fd_delete :: "(gostring \<Rightarrow> ('d, unit) act) \<Rightarrow> (go_error \<Rightarrow> bool) \<Rightarrow> gostring list \<Rightarrow> ('d FileDeleter, go_error list) act" where
  "fd_delete del notExist toDelete d =
     (if toDelete = [] then (Ok [], d)
      else bind_act (fd_delete_pass del notExist (\<lambda>name. HasPrefix name (fd_SegmentsPrefix d)) toDelete) (\<lambda>e1.
           bind_act (fd_delete_pass del notExist (\<lambda>name. \<not> HasPrefix name (fd_SegmentsPrefix d)) toDelete) (\<lambda>e2.
             ret_act (e1 @ e2))) d)"

text \<open>The counting loop of \<open>DecRefAll\<close>: the names to delete, the errors, and the new state.\<close>

fun fd_decRefs :: "gostring list \<Rightarrow> 'd FileDeleter \<Rightarrow> gostring list \<times> go_error list \<times> 'd FileDeleter" where
  "fd_decRefs [] d = ([], [], d)"
| "fd_decRefs (name # names) d =
     (case fd_decRef name d of
        (Ok unused, d1) \<Rightarrow> (case fd_decRefs names d1 of (toDelete, errs, d2) \<Rightarrow> (if unused then name # toDelete else toDelete, errs, d2))
      | (Err e, d1) \<Rightarrow> (case fd_decRefs names d1 of (toDelete, errs, d2) \<Rightarrow> (toDelete, e # errs, d2))
      | (Panic p, d1) \<Rightarrow> ([], [], d1))"

definition fd_DecRefAll :: "(gostring \<Rightarrow> ('d, unit) act) \<Rightarrow> (go_error \<Rightarrow> bool) \<Rightarrow> gostring list \<Rightarrow> ('d FileDeleter, go_error list) act" where
  "fd_DecRefAll del notExist fileNames d =
     (case fd_decRefs fileNames d of
        (toDelete, errs, d1) \<Rightarrow> bind_act (fd_delete del notExist toDelete) (\<lambda>es. ret_act (errs @ es)) d1)"

definition fd_DeleteFilesIfNoRef :: "(gostring \<Rightarrow> ('d, unit) act) \<Rightarrow> (go_error \<Rightarrow> bool) \<Rightarrow> gostring list \<Rightarrow> ('d FileDeleter, go_error list) act" where
  "fd_DeleteFilesIfNoRef del notExist files d = fd_delete del notExist (filter (\<lambda>name. \<not> fd_Exists name d) files) d"

definition fd_DeleteFileIfNoRef :: "(gostring \<Rightarrow> ('d, unit) act) \<Rightarrow> (go_error \<Rightarrow> bool) \<Rightarrow> gostring \<Rightarrow> ('d FileDeleter, go_error list) act" where
  "fd_DeleteFileIfNoRef del notExist fileName d =
     (if \<not> fd_Exists fileName d then fd_deleteOne del notExist fileName d else (Ok [], d))"

definition fd_ForceDelete :: "(gostring \<Rightarrow> ('d, unit) act) \<Rightarrow> (go_error \<Rightarrow> bool) \<Rightarrow> gostring \<Rightarrow> ('d FileDeleter, go_error list) act" where
  "fd_ForceDelete del notExist fileName d =
     fd_deleteOne del notExist fileName (d\<lparr>fd_refCounts := (fd_refCounts d)(fileName := None)\<rparr>)"

text \<open>
  The second pass does not depend on the first: when the directory refuses to delete the
  commit file, the other files of the commit are deleted all the same.
\<close>

lemma delete_continues_after_error:
  assumes "HasPrefix s (fd_SegmentsPrefix d)" "\<not> HasPrefix f (fd_SegmentsPrefix d)"
    "del s (fd_directory d) = (Err e, fd_directory d)" "\<not> notExist e" "del f (fd_directory d) = (Ok (), dir)"
  shows "fd_delete del notExist [s, f] d = (Ok [e], d\<lparr>fd_directory := dir\<rparr>)"
  using assms by (simp add: fd_delete_def fd_deleteOne_def bind_act_def ret_act_def)

section \<open>What a directory promises\<close>

lemma pass_filter: "fd_delete_pass del ne sel (filter sel ns) = fd_delete_pass del ne sel ns"
  by (induction ns) (auto intro!: ext)

locale file_store =
  fixes del :: "gostring \<Rightarrow> ('d, unit) act" and ok :: "'d \<Rightarrow> bool" and files :: "'d \<Rightarrow> gostring set"
  assumes del_present: "ok s \<Longrightarrow> n \<in> files s \<Longrightarrow> \<exists>s'. del n s = (Ok (), s') \<and> ok s' \<and> files s' = files s - {n}"
    and del_absent: "ok s \<Longrightarrow> n \<notin> files s \<Longrightarrow> \<exists>e s'. del n s = (Err e, s') \<and> ok s' \<and> files s' = files s"
begin

lemma same_store: "ok (fd_directory d) \<Longrightarrow> \<exists>s. d = d\<lparr>fd_directory := s\<rparr> \<and> ok s \<and> files s = files (fd_directory d)"
  by (intro exI [of _ "fd_directory d"]) simp

lemma deleteOne_removes:
  assumes "ok (fd_directory d)"
  shows "\<exists>es s. fd_deleteOne del ne n d = (Ok es, d\<lparr>fd_directory := s\<rparr>) \<and> ok s \<and> files s = files (fd_directory d) - {n}
    \<and> (n \<in> files (fd_directory d) \<longrightarrow> es = [])"
proof (cases "n \<in> files (fd_directory d)")
  case True
  then show ?thesis using del_present [OF assms] by (fastforce simp: fd_deleteOne_def)
next
  case False
  then show ?thesis using del_absent [OF assms] by (fastforce simp: fd_deleteOne_def)
qed

lemma pass_removes:
  "ok (fd_directory d) \<Longrightarrow>
   \<exists>es s. fd_delete_pass del ne sel ns d = (Ok es, d\<lparr>fd_directory := s\<rparr>) \<and> ok s \<and> files s = files (fd_directory d) - set (filter sel ns)
     \<and> (distinct ns \<and> set ns \<subseteq> files (fd_directory d) \<longrightarrow> es = [])"
proof (induction ns arbitrary: d)
  case Nil
  then show ?case using same_store by (simp add: ret_act_def)
next
  case (Cons n ns)
  show ?case
  proof (cases "sel n")
    case True
    obtain es s where s: "fd_deleteOne del ne n d = (Ok es, d\<lparr>fd_directory := s\<rparr>)" "ok s" "files s = files (fd_directory d) - {n}"
        "n \<in> files (fd_directory d) \<longrightarrow> es = []"
      using deleteOne_removes [OF Cons.prems] by blast
    obtain es' s' where s': "fd_delete_pass del ne sel ns (d\<lparr>fd_directory := s\<rparr>) = (Ok es', d\<lparr>fd_directory := s'\<rparr>)" "ok s'"
        "files s' = files s - set (filter sel ns)" "distinct ns \<and> set ns \<subseteq> files s \<longrightarrow> es' = []"
      using Cons.IH [of "d\<lparr>fd_directory := s\<rparr>"] s(2) by auto
    then show ?thesis using True s by (auto simp: bind_act_def ret_act_def)
  next
    case False
    then show ?thesis using Cons.IH [OF Cons.prems] by auto
  qed
qed

lemma delete_removes:
  assumes "ok (fd_directory d)"
  shows "\<exists>es s. fd_delete del ne ns d = (Ok es, d\<lparr>fd_directory := s\<rparr>) \<and> ok s \<and> files s = files (fd_directory d) - set ns
    \<and> (distinct ns \<and> set ns \<subseteq> files (fd_directory d) \<longrightarrow> es = [])"
proof (cases "ns = []")
  case True
  then show ?thesis using same_store [OF assms] by (simp add: fd_delete_def)
next
  case False
  let ?P = "\<lambda>n. HasPrefix n (fd_SegmentsPrefix d)"
  have split: "fd_delete del ne ns d = bind_act (fd_delete_pass del ne ?P (filter ?P ns)) (\<lambda>e1.
      bind_act (fd_delete_pass del ne (\<lambda>n. \<not> ?P n) (filter (\<lambda>n. \<not> ?P n) ns)) (\<lambda>e2. ret_act (e1 @ e2))) d"
    unfolding pass_filter using False by (simp add: fd_delete_def)
  obtain e1 s1 where s1: "fd_delete_pass del ne ?P (filter ?P ns) d = (Ok e1, d\<lparr>fd_directory := s1\<rparr>)" "ok s1"
      "files s1 = files (fd_directory d) - set (filter ?P ns)" "distinct (filter ?P ns) \<and> set (filter ?P ns) \<subseteq> files (fd_directory d) \<longrightarrow> e1 = []"
    using pass_removes [OF assms, of ne ?P "filter ?P ns"] by auto
  obtain e2 s2 where s2: "fd_delete_pass del ne (\<lambda>n. \<not> ?P n) (filter (\<lambda>n. \<not> ?P n) ns) (d\<lparr>fd_directory := s1\<rparr>) = (Ok e2, d\<lparr>fd_directory := s2\<rparr>)" "ok s2"
      "files s2 = files s1 - set (filter (\<lambda>n. \<not> ?P n) ns)"
      "distinct (filter (\<lambda>n. \<not> ?P n) ns) \<and> set (filter (\<lambda>n. \<not> ?P n) ns) \<subseteq> files s1 \<longrightarrow> e2 = []"
    using pass_removes [of "d\<lparr>fd_directory := s1\<rparr>" ne "\<lambda>n. \<not> ?P n" "filter (\<lambda>n. \<not> ?P n) ns"] s1(2) by auto
  show ?thesis unfolding split using s1 s2 by (auto simp: bind_act_def ret_act_def)
qed

end

section \<open>Counting\<close>

definition holders_count :: "gostring list multiset \<Rightarrow> gostring \<Rightarrow> int" where
  "holders_count H f = (\<Sum>g\<in>#H. int (count_list g f))"

lemma holders_count_add [simp]: "holders_count (add_mset g H) f = int (count_list g f) + holders_count H f"
  by (simp add: holders_count_def)

lemma holders_count_empty [simp]: "holders_count {#} f = 0"
  by (simp add: holders_count_def)

lemma holders_count_remove: "g \<in># H \<Longrightarrow> holders_count H f = int (count_list g f) + holders_count (H - {#g#}) f"
  using holders_count_add [of g "H - {#g#}" f] by simp

lemma holders_count_nonneg: "0 \<le> holders_count H f"
  unfolding holders_count_def by (induction H) auto

lemma holders_count_0: "holders_count H f = 0 \<longleftrightarrow> (\<forall>g\<in>#H. f \<notin> set g)"
proof (induction H)
  case (add g H)
  have "int (count_list g f) + holders_count H f = 0 \<longleftrightarrow> count_list g f = 0 \<and> holders_count H f = 0"
    using holders_count_nonneg [of H f] by auto
  then show ?case using add by (simp add: count_list_0_iff)
qed simp

lemma IncRef_count: "fd_GetRefCount g (fd_IncRef f d) = fd_GetRefCount g d + (if g = f then 1 else 0)"
  "fd_directory (fd_IncRef f d) = fd_directory d" "fd_SegmentsPrefix (fd_IncRef f d) = fd_SegmentsPrefix d"
  by (auto simp: fd_IncRef_def fd_getRefCountInternal_def fd_GetRefCount_def rc_IncRef_def Let_def split: option.splits)

lemma IncRefAll_count: "fd_GetRefCount g (fd_IncRefAll fs d) = fd_GetRefCount g d + int (count_list fs g)"
  "fd_directory (fd_IncRefAll fs d) = fd_directory d" "fd_SegmentsPrefix (fd_IncRefAll fs d) = fd_SegmentsPrefix d"
  by (induction fs arbitrary: d) (simp_all add: IncRef_count)

lemma decRef_count:
  assumes "0 < fd_GetRefCount f d"
  shows "\<exists>d'. fd_decRef f d = (Ok (fd_GetRefCount f d = 1), d') \<and> fd_directory d' = fd_directory d \<and> fd_SegmentsPrefix d' = fd_SegmentsPrefix d
    \<and> (\<forall>g. fd_GetRefCount g d' = fd_GetRefCount g d - (if g = f then 1 else 0))"
  using assms by (auto simp: fd_decRef_def fd_getRefCountInternal_def fd_GetRefCount_def rc_DecRef_def Let_def split: option.splits)

lemma decRefs_count:
  "\<forall>f. int (count_list fs f) \<le> fd_GetRefCount f d \<Longrightarrow>
   \<exists>ns d'. fd_decRefs fs d = (ns, [], d') \<and> fd_directory d' = fd_directory d \<and> fd_SegmentsPrefix d' = fd_SegmentsPrefix d
     \<and> (\<forall>f. fd_GetRefCount f d' = fd_GetRefCount f d - int (count_list fs f))
     \<and> distinct ns \<and> set ns = {f \<in> set fs. fd_GetRefCount f d = int (count_list fs f)}"
proof (induction fs arbitrary: d)
  case (Cons n fs)
  have n: "1 + int (count_list fs n) \<le> fd_GetRefCount n d" using Cons.prems [rule_format, of n] by simp
  obtain d1 where d1: "fd_decRef n d = (Ok (fd_GetRefCount n d = 1), d1)" "fd_directory d1 = fd_directory d" "fd_SegmentsPrefix d1 = fd_SegmentsPrefix d"
      "\<And>g. fd_GetRefCount g d1 = fd_GetRefCount g d - (if g = n then 1 else 0)"
    using decRef_count [of n d] n by auto
  have "\<forall>f. int (count_list fs f) \<le> fd_GetRefCount f d1" using Cons.prems by (auto simp: d1(4) split: if_splits)
  then obtain ns d' where r: "fd_decRefs fs d1 = (ns, [], d')" "fd_directory d' = fd_directory d1" "fd_SegmentsPrefix d' = fd_SegmentsPrefix d1"
      "\<And>f. fd_GetRefCount f d' = fd_GetRefCount f d1 - int (count_list fs f)"
      "distinct ns" "set ns = {f \<in> set fs. fd_GetRefCount f d1 = int (count_list fs f)}"
    using Cons.IH [of d1] by blast
  have n0: "n \<notin> set fs" if "fd_GetRefCount n d = 1" using n that by (simp add: count_list_0_iff)
  let ?ns = "if fd_GetRefCount n d = 1 then n # ns else ns"
  have "fd_decRefs (n # fs) d = (?ns, [], d')" using d1(1) r(1) by simp
  moreover have "distinct ?ns" using r(5,6) n0 by auto
  moreover have "set ?ns = {f \<in> set (n # fs). fd_GetRefCount f d = int (count_list (n # fs) f)}"
  proof (rule set_eqI)
    fix f
    show "f \<in> set ?ns \<longleftrightarrow> f \<in> {f \<in> set (n # fs). fd_GetRefCount f d = int (count_list (n # fs) f)}"
    proof (cases "f = n")
      case True
      have "f \<in> set ns \<longleftrightarrow> f \<in> set fs \<and> fd_GetRefCount n d = 1 + int (count_list fs n)" using r(6) d1(4) [of n] True by auto
      moreover have "count_list fs n = 0 \<longleftrightarrow> n \<notin> set fs" by (rule count_list_0_iff)
      ultimately show ?thesis using True n by auto
    next
      case False
      then show ?thesis using r(6) d1(4) [of f] by auto
    qed
  qed
  ultimately show ?case using r(2-4) d1(2-4) by auto
qed simp

section \<open>The states a client can reach\<close>

text \<open>
  \<open>H\<close> is the multiset of the file lists the client holds: \<open>IncRefAll\<close> adds one, \<open>DecRefAll\<close> of a
  list that is held releases it.  In between files may be created.
\<close>

inductive fd_reach :: "(gostring \<Rightarrow> ('d, unit) act) \<Rightarrow> (go_error \<Rightarrow> bool) \<Rightarrow> ('d \<Rightarrow> bool) \<Rightarrow> ('d \<Rightarrow> gostring set) \<Rightarrow> 'd FileDeleter \<Rightarrow> gostring list multiset \<Rightarrow> bool"
  for del ne ok files where
  new: "ok dir \<Longrightarrow> fd_reach del ne ok files (NewFileDeleter w dir) {#}"
| inc: "fd_reach del ne ok files d H \<Longrightarrow> fd_reach del ne ok files (fd_IncRefAll fs d) (add_mset fs H)"
| dec: "fd_reach del ne ok files d H \<Longrightarrow> fs \<in># H \<Longrightarrow> fd_DecRefAll del ne fs d = (r, d') \<Longrightarrow> fd_reach del ne ok files d' (H - {#fs#})"
| unref: "fd_reach del ne ok files d H \<Longrightarrow> fd_DeleteFilesIfNoRef del ne names d = (r, d') \<Longrightarrow> fd_reach del ne ok files d' H"
| init: "fd_reach del ne ok files d H \<Longrightarrow> fd_reach del ne ok files (fd_InitRefCount f d) H"
| create: "fd_reach del ne ok files d H \<Longrightarrow> ok dir \<Longrightarrow> files (fd_directory d) \<subseteq> files dir \<Longrightarrow>
    fd_reach del ne ok files (d\<lparr>fd_directory := dir\<rparr>) H"

definition fd_inv :: "('d \<Rightarrow> bool) \<Rightarrow> 'd FileDeleter \<Rightarrow> gostring list multiset \<Rightarrow> bool" where
  "fd_inv ok d H \<longleftrightarrow> ok (fd_directory d) \<and> fd_SegmentsPrefix d = map of_char ''segments_'' \<and> (\<forall>f. fd_GetRefCount f d = holders_count H f)"

lemma count_frame [simp]: "fd_GetRefCount f (d\<lparr>fd_directory := s\<rparr>) = fd_GetRefCount f d"
  by (simp add: fd_GetRefCount_def)

lemma exists_iff: "fd_Exists f d \<longleftrightarrow> 0 < fd_GetRefCount f d"
  by (simp add: fd_Exists_def fd_GetRefCount_def split: option.splits)

lemma new_frame: "fd_GetRefCount f (NewFileDeleter w dir) = 0" "fd_directory (NewFileDeleter w dir) = dir"
  "fd_SegmentsPrefix (NewFileDeleter w dir) = map of_char ''segments_''"
  by (simp_all add: NewFileDeleter_def fd_GetRefCount_def)

lemma init_frame: "fd_GetRefCount g (fd_InitRefCount f d) = fd_GetRefCount g d" "fd_directory (fd_InitRefCount f d) = fd_directory d"
  "fd_SegmentsPrefix (fd_InitRefCount f d) = fd_SegmentsPrefix d"
  by (auto simp: fd_InitRefCount_def fd_GetRefCount_def split: option.splits)

context file_store
begin

lemma decRefAll_releases:
  assumes "fd_inv ok d H" "fs \<in># H"
  shows "\<exists>es d'. fd_DecRefAll del ne fs d = (Ok es, d') \<and> fd_inv ok d' (H - {#fs#})
    \<and> files (fd_directory d') = files (fd_directory d) - {f \<in> set fs. \<forall>g\<in>#H - {#fs#}. f \<notin> set g}
    \<and> (set fs \<subseteq> files (fd_directory d) \<longrightarrow> es = [])"
proof -
  have cnt: "fd_GetRefCount f d = int (count_list fs f) + holders_count (H - {#fs#}) f" for f
    using assms holders_count_remove [OF assms(2)] by (simp add: fd_inv_def)
  then have "\<forall>f. int (count_list fs f) \<le> fd_GetRefCount f d" using holders_count_nonneg by simp
  then obtain ns d1 where d1: "fd_decRefs fs d = (ns, [], d1)" "fd_directory d1 = fd_directory d" "fd_SegmentsPrefix d1 = fd_SegmentsPrefix d"
      "\<And>f. fd_GetRefCount f d1 = fd_GetRefCount f d - int (count_list fs f)" "distinct ns"
      "set ns = {f \<in> set fs. fd_GetRefCount f d = int (count_list fs f)}"
    using decRefs_count [of fs d] by blast
  have ns: "set ns = {f \<in> set fs. \<forall>g\<in>#H - {#fs#}. f \<notin> set g}"
    unfolding d1(6) cnt holders_count_0 [symmetric] by auto
  obtain es s where s: "fd_delete del ne ns d1 = (Ok es, d1\<lparr>fd_directory := s\<rparr>)" "ok s" "files s = files (fd_directory d1) - set ns"
      "distinct ns \<and> set ns \<subseteq> files (fd_directory d1) \<longrightarrow> es = []"
    using delete_removes [of d1 ne ns] assms(1) d1(2) by (auto simp: fd_inv_def)
  have "fd_GetRefCount f d1 = holders_count (H - {#fs#}) f" for f unfolding d1(4) cnt by simp
  then have "fd_inv ok (d1\<lparr>fd_directory := s\<rparr>) (H - {#fs#})" using assms(1) s(2) d1(3) by (simp add: fd_inv_def)
  moreover have "set ns \<subseteq> set fs" using d1(6) by auto
  ultimately show ?thesis using d1(1,2,5) s ns by (auto simp: fd_DecRefAll_def bind_act_def ret_act_def)
qed

lemma deleteIfNoRef_keeps:
  assumes "fd_inv ok d H"
  shows "\<exists>es d'. fd_DeleteFilesIfNoRef del ne names d = (Ok es, d') \<and> fd_inv ok d' H
    \<and> files (fd_directory d') = files (fd_directory d) - {f \<in> set names. \<forall>g\<in>#H. f \<notin> set g}"
proof -
  let ?ns = "filter (\<lambda>n. \<not> fd_Exists n d) names"
  have c: "fd_GetRefCount f d = holders_count H f" for f using assms by (simp add: fd_inv_def)
  have "\<not> fd_Exists f d \<longleftrightarrow> (\<forall>g\<in>#H. f \<notin> set g)" for f
    using holders_count_nonneg [of H f] unfolding holders_count_0 [symmetric] exists_iff c by linarith
  then have "set ?ns = {f \<in> set names. \<forall>g\<in>#H. f \<notin> set g}" by simp
  then show ?thesis using delete_removes [of d ne ?ns] assms by (auto simp: fd_DeleteFilesIfNoRef_def fd_inv_def)
qed

lemma reach_inv: "fd_reach del ne ok files d H \<Longrightarrow> fd_inv ok d H"
proof (induction rule: fd_reach.induct)
  case (dec d H fs r d')
  then show ?case using decRefAll_releases [OF dec.IH dec.hyps(2), of ne] by auto
next
  case (unref d H names r d')
  then show ?case using deleteIfNoRef_keeps [OF unref.IH, of ne names] by auto
qed (auto simp: fd_inv_def new_frame IncRefAll_count init_frame)

end

section \<open>Crash safety\<close>

text \<open>
  A directory that records its state after every deletion: the states a crash can leave behind.
\<close>

definition logged :: "(gostring \<Rightarrow> ('d, unit) act) \<Rightarrow> gostring \<Rightarrow> ('d \<times> 'd list, unit) act" where
  "logged del n s = (case del n (fst s) of (r, d') \<Rightarrow> (r, (d', d' # snd s)))"

text \<open>
  Every list of files held belongs to one commit, named by its \<open>segments_\<close> file.  A commit is
  complete when its files are all there if its \<open>segments_\<close> file is.
\<close>

definition one_commit_file :: "gostring \<Rightarrow> gostring list multiset \<Rightarrow> bool" where
  "one_commit_file p H \<longleftrightarrow> (\<forall>g\<in>#H. \<forall>s\<in>set g. \<forall>t\<in>set g. HasPrefix s p \<and> HasPrefix t p \<longrightarrow> s = t)
     \<and> (\<forall>g\<in>#H. \<forall>h\<in>#H. \<forall>s\<in>set g. HasPrefix s p \<and> s \<in> set h \<longrightarrow> set g = set h)"

definition commits_complete :: "gostring \<Rightarrow> gostring list multiset \<Rightarrow> gostring set \<Rightarrow> bool" where
  "commits_complete p H F \<longleftrightarrow> (\<forall>g\<in>#H. (\<exists>s\<in>set g. HasPrefix s p \<and> s \<in> F) \<longrightarrow> set g \<subseteq> F)"

lemma crash_prefix:
  assumes "one_commit_file p H" "commits_complete p H F" "fs \<in># H" "set ns = {f \<in> set fs. \<forall>g\<in>#H - {#fs#}. f \<notin> set g}"
    "A = set (take k (filter (\<lambda>n. HasPrefix n p) ns @ filter (\<lambda>n. \<not> HasPrefix n p) ns))"
  shows "commits_complete p H (F - A)"
  unfolding commits_complete_def
proof (intro ballI impI)
  fix g assume g: "g \<in># H" "\<exists>s\<in>set g. HasPrefix s p \<and> s \<in> F - A"
  then obtain s where s: "s \<in> set g" "HasPrefix s p" "s \<in> F" "s \<notin> A" by blast
  have F: "set g \<subseteq> F" using assms(2) g(1) s(1-3) unfolding commits_complete_def by blast
  have "set g \<inter> A = {}"
  proof (rule ccontr)
    assume "set g \<inter> A \<noteq> {}"
    then obtain f where f: "f \<in> set g" "f \<in> A" by blast
    have "A \<subseteq> set ns" unfolding assms(5) using set_take_subset by fastforce
    then have fn: "f \<in> set fs" "\<forall>h\<in>#H - {#fs#}. f \<notin> set h" using f(2) assms(4) by auto
    then have "g \<notin># H - {#fs#}" using f(1) by blast
    then have gf: "g = fs" using g(1) by (auto simp: in_diff_count split: if_splits)
    have "s \<notin> set h" if "h \<in># H - {#fs#}" for h
    proof
      assume "s \<in> set h"
      then have "set g = set h" using assms(1) s(1,2) g(1) in_diffD [OF that] unfolding one_commit_file_def by blast
      then show False using fn(2) that f(1) by blast
    qed
    then have "s \<in> set ns" using assms(4) s(1) gf by blast
    then have sP: "s \<in> set (filter (\<lambda>n. HasPrefix n p) ns)" using s(2) by simp
    have short: "k \<le> length (filter (\<lambda>n. HasPrefix n p) ns)"
    proof (rule ccontr)
      assume "\<not> k \<le> length (filter (\<lambda>n. HasPrefix n p) ns)"
      then have "set (filter (\<lambda>n. HasPrefix n p) ns) \<subseteq> A" unfolding assms(5) by (simp only: take_append take_all_iff nat_le_linear set_append) auto
      then show False using sP s(4) by blast
    qed
    then have "HasPrefix f p" using f(2) set_take_subset [of k "filter (\<lambda>n. HasPrefix n p) ns"] unfolding assms(5) by auto
    then have "f = s" using assms(1) g(1) f(1) s(1,2) unfolding one_commit_file_def by blast
    then show False using f(2) s(4) by simp
  qed
  then show "set g \<subseteq> F - A" using F by blast
qed

context file_store
begin

lemma pass_log:
  "ok (fst (fd_directory d)) \<Longrightarrow>
   \<exists>es s new. fd_delete_pass (logged del) ne sel ns d = (Ok es, d\<lparr>fd_directory := (s, new @ snd (fd_directory d))\<rparr>) \<and> ok s
     \<and> files s = files (fst (fd_directory d)) - set (filter sel ns)
     \<and> (\<forall>x\<in>set new. \<exists>k. files x = files (fst (fd_directory d)) - set (take k (filter sel ns)))"
proof (induction ns arbitrary: d)
  case Nil
  then show ?case by (intro exI [of _ "[]"] exI [of _ "fst (fd_directory d)"]) (simp add: ret_act_def)
next
  case (Cons n ns)
  show ?case
  proof (cases "sel n")
    case True
    let ?dir = "fst (fd_directory d)"
    obtain es s where s: "fd_deleteOne (logged del) ne n d = (Ok es, d\<lparr>fd_directory := (s, s # snd (fd_directory d))\<rparr>)" "ok s"
        "files s = files ?dir - {n}"
    proof (cases "n \<in> files ?dir")
      case True
      then show thesis using del_present [OF Cons.prems True] that by (auto simp: fd_deleteOne_def logged_def)
    next
      case False
      then show thesis using del_absent [OF Cons.prems False] that by (auto simp: fd_deleteOne_def logged_def)
    qed
    obtain es' s' new where r: "fd_delete_pass (logged del) ne sel ns (d\<lparr>fd_directory := (s, s # snd (fd_directory d))\<rparr>)
          = (Ok es', d\<lparr>fd_directory := (s', new @ s # snd (fd_directory d))\<rparr>)" "ok s'"
        "files s' = files s - set (filter sel ns)" "\<forall>x\<in>set new. \<exists>k. files x = files s - set (take k (filter sel ns))"
      using Cons.IH [of "d\<lparr>fd_directory := (s, s # snd (fd_directory d))\<rparr>"] s(2) by auto
    have "\<exists>k. files x = files ?dir - set (take k (filter sel (n # ns)))" if "x \<in> set (new @ [s])" for x
    proof (cases "x \<in> set new")
      case xin: True
      then obtain k where "files x = files s - set (take k (filter sel ns))" using r(4) by blast
      then show ?thesis using s(3) True by (intro exI [of _ "Suc k"]) auto
    next
      case False
      then show ?thesis using that s(3) True by (intro exI [of _ 1]) auto
    qed
    then show ?thesis using True s r(1-3)
      by (intro exI [of _ "es @ es'"] exI [of _ s'] exI [of _ "new @ [s]"]) (auto simp: bind_act_def ret_act_def)
  next
    case False
    then show ?thesis using Cons.IH [OF Cons.prems] by auto
  qed
qed

lemma delete_log:
  assumes "ok (fst (fd_directory d))"
  shows "\<exists>es s new. fd_delete (logged del) ne ns d = (Ok es, d\<lparr>fd_directory := (s, new @ snd (fd_directory d))\<rparr>)
    \<and> (\<forall>x\<in>set new. \<exists>k. files x = files (fst (fd_directory d))
        - set (take k (filter (\<lambda>n. HasPrefix n (fd_SegmentsPrefix d)) ns @ filter (\<lambda>n. \<not> HasPrefix n (fd_SegmentsPrefix d)) ns)))"
proof (cases "ns = []")
  case True
  then show ?thesis by (intro exI [of _ "[]"] exI [of _ "fst (fd_directory d)"]) (simp add: fd_delete_def)
next
  case False
  let ?P = "\<lambda>n. HasPrefix n (fd_SegmentsPrefix d)" and ?F = "files (fst (fd_directory d))"
  obtain e1 s1 new1 where s1: "fd_delete_pass (logged del) ne ?P ns d = (Ok e1, d\<lparr>fd_directory := (s1, new1 @ snd (fd_directory d))\<rparr>)" "ok s1"
      "files s1 = ?F - set (filter ?P ns)" "\<forall>x\<in>set new1. \<exists>k. files x = ?F - set (take k (filter ?P ns))"
    using pass_log [OF assms, of ne ?P ns] by blast
  let ?d1 = "d\<lparr>fd_directory := (s1, new1 @ snd (fd_directory d))\<rparr>"
  obtain e2 s2 new2 where s2: "fd_delete_pass (logged del) ne (\<lambda>n. \<not> ?P n) ns ?d1
        = (Ok e2, d\<lparr>fd_directory := (s2, (new2 @ new1) @ snd (fd_directory d))\<rparr>)"
      "\<forall>x\<in>set new2. \<exists>k. files x = files s1 - set (take k (filter (\<lambda>n. \<not> ?P n) ns))"
    using pass_log [of ?d1 ne "\<lambda>n. \<not> ?P n" ns] s1(2) by auto
  have "\<exists>k. files x = ?F - set (take k (filter ?P ns @ filter (\<lambda>n. \<not> ?P n) ns))" if "x \<in> set (new2 @ new1)" for x
  proof (cases "x \<in> set new1")
    case True
    then obtain k where k: "files x = ?F - set (take k (filter ?P ns))" using s1(4) by blast
    then show ?thesis by (intro exI [of _ "min k (length (filter ?P ns))"]) (simp add: min_def)
  next
    case no: False
    then obtain k where "files x = files s1 - set (take k (filter (\<lambda>n. \<not> ?P n) ns))" using s2(2) \<open>x \<in> set (new2 @ new1)\<close> by auto
    then show ?thesis using s1(3) by (intro exI [of _ "length (filter ?P ns) + k"]) auto
  qed
  moreover have "fd_delete (logged del) ne ns d = (Ok (e1 @ e2), d\<lparr>fd_directory := (s2, (new2 @ new1) @ snd (fd_directory d))\<rparr>)"
    using False s1(1) s2(1) by (simp add: fd_delete_def bind_act_def ret_act_def)
  ultimately show ?thesis by blast
qed

lemma decRefAll_log:
  assumes "fd_inv (\<lambda>s. ok (fst s)) d H" "fs \<in># H" "one_commit_file (fd_SegmentsPrefix d) H"
    "commits_complete (fd_SegmentsPrefix d) H (files (fst (fd_directory d)))"
  shows "\<exists>es d' new. fd_DecRefAll (logged del) ne fs d = (Ok es, d') \<and> snd (fd_directory d') = new @ snd (fd_directory d)
    \<and> (\<forall>x\<in>set new. commits_complete (fd_SegmentsPrefix d) H (files x))"
proof -
  have cnt: "fd_GetRefCount f d = int (count_list fs f) + holders_count (H - {#fs#}) f" for f
    using assms(1) holders_count_remove [OF assms(2)] by (simp add: fd_inv_def)
  then have "\<forall>f. int (count_list fs f) \<le> fd_GetRefCount f d" using holders_count_nonneg by simp
  then obtain ns d1 where d1: "fd_decRefs fs d = (ns, [], d1)" "fd_directory d1 = fd_directory d" "fd_SegmentsPrefix d1 = fd_SegmentsPrefix d"
      "set ns = {f \<in> set fs. fd_GetRefCount f d = int (count_list fs f)}"
    using decRefs_count [of fs d] by blast
  have ns: "set ns = {f \<in> set fs. \<forall>g\<in>#H - {#fs#}. f \<notin> set g}"
    unfolding d1(4) cnt holders_count_0 [symmetric] by auto
  obtain es s new where r: "fd_delete (logged del) ne ns d1 = (Ok es, d1\<lparr>fd_directory := (s, new @ snd (fd_directory d1))\<rparr>)"
      "\<forall>x\<in>set new. \<exists>k. files x = files (fst (fd_directory d1))
        - set (take k (filter (\<lambda>n. HasPrefix n (fd_SegmentsPrefix d1)) ns @ filter (\<lambda>n. \<not> HasPrefix n (fd_SegmentsPrefix d1)) ns))"
    using delete_log [of d1 ne ns] assms(1) d1(2) by (auto simp: fd_inv_def)
  have "commits_complete (fd_SegmentsPrefix d) H (files x)" if "x \<in> set new" for x
    using r(2) that crash_prefix [OF assms(3,4,2) ns refl] d1(2,3) by auto
  then show ?thesis using d1(1,2) r(1) by (auto simp: fd_DecRefAll_def bind_act_def ret_act_def)
qed

end

section \<open>The in-memory directory\<close>

definition bd_live :: "ByteBuffersDirectory \<Rightarrow> bool" where
  "bd_live d \<longleftrightarrow> bd_wf d \<and> bd_isOpen d"

definition bd_names :: "ByteBuffersDirectory \<Rightarrow> gostring set" where
  "bd_names d = dom (bd_abs d)"

interpretation bs: file_store bd_DeleteFile bd_live bd_names
proof
  fix s :: ByteBuffersDirectory and n
  assume s: "bd_live s"
  show "\<exists>s'. bd_DeleteFile n s = (Ok (), s') \<and> bd_live s' \<and> bd_names s' = bd_names s - {n}" if n: "n \<in> bd_names s"
  proof -
    obtain s' where "bd_DeleteFile n s = (Ok (), s')" "bd_wf s'" "bd_isOpen s'" "bd_abs s' = (bd_abs s)(n := None)"
      by (rule delete_ok [of s n]) (use s n in \<open>auto simp: bd_live_def bd_names_def\<close>)
    then show ?thesis by (auto simp: bd_live_def bd_names_def split: if_splits)
  qed
  show "\<exists>e s'. bd_DeleteFile n s = (Err e, s') \<and> bd_live s' \<and> bd_names s' = bd_names s" if "n \<notin> bd_names s"
    using s that by (auto simp: bd_DeleteFile_def bd_live_def bd_names_def bd_abs_None domIff)
qed

interpretation bl: file_store "logged bd_DeleteFile" "\<lambda>s. bd_live (fst s)" "\<lambda>s. bd_names (fst s)"
proof
  fix s :: "ByteBuffersDirectory \<times> ByteBuffersDirectory list" and n
  assume s: "bd_live (fst s)"
  show "\<exists>s'. logged bd_DeleteFile n s = (Ok (), s') \<and> bd_live (fst s') \<and> bd_names (fst s') = bd_names (fst s) - {n}" if "n \<in> bd_names (fst s)"
    using bs.del_present [OF s that] by (auto simp: logged_def)
  show "\<exists>e s'. logged bd_DeleteFile n s = (Err e, s') \<and> bd_live (fst s') \<and> bd_names (fst s') = bd_names (fst s)" if "n \<notin> bd_names (fst s)"
    using bs.del_absent [OF s that] by (auto simp: logged_def)
qed

section \<open>Properties\<close>

text \<open>A directory with one commit of two files, \<open>segments_1\<close> and \<open>a\<close>.\<close>

definition sample_dir :: ByteBuffersDirectory where
  "sample_dir = \<lparr>bd_isOpen = True, bd_openFiles = Map.empty, bd_files = [(map of_char ''segments_1'', 0), ([97], 1)],
     bd_heap = [0 \<mapsto> \<lparr>bf_name = map of_char ''segments_1'', bf_content = [1]\<rparr>, 1 \<mapsto> \<lparr>bf_name = [97], bf_content = [2]\<rparr>],
     bd_fresh = 2, bd_tempCounter = 0, bd_chunkSize = 0\<rparr>"

lemma sample_dir_live: "bd_live sample_dir" "bd_names sample_dir = {map of_char ''segments_1'', [97]}"
proof -
  have d: "dom [0 \<mapsto> x, Suc 0 \<mapsto> y] = {..<2}" for x y :: byteBufferFile by auto
  show "bd_live sample_dir" by (auto simp: bd_live_def bd_wf_def sample_dir_def counts_pos_def deref_def d)
  show "bd_names sample_dir = {map of_char ''segments_1'', [97]}"
    by (auto simp: bd_names_def bd_abs_def sample_dir_def domIff split: if_splits)
qed

text \<open>
  C36: Reference counting keeps the files in use.  In every state reachable through \<open>IncRefAll\<close>,
  \<open>DecRefAll\<close> of lists that are held, \<open>DeleteFilesIfNoRef\<close>, \<open>InitRefCount\<close> and the creation of
  files, the count of a file is its number of occurrences in the lists held.  Releasing a list
  deletes from the in-memory directory exactly the files that no other list holds, without
  an error when they are all there, and \<open>DeleteFilesIfNoRef\<close> deletes exactly the files of its
  argument that no list holds.
\<close>

theorem file_deleter_counts:
  assumes "fd_reach bd_DeleteFile notExist bd_live bd_names d H"
  shows "(\<forall>f. fd_GetRefCount f d = holders_count H f)
    \<and> (\<forall>fs. fs \<in># H \<longrightarrow> (\<exists>es d'. fd_DecRefAll bd_DeleteFile notExist fs d = (Ok es, d')
        \<and> bd_names (fd_directory d') = bd_names (fd_directory d) - {f \<in> set fs. \<forall>g\<in>#H - {#fs#}. f \<notin> set g}
        \<and> (set fs \<subseteq> bd_names (fd_directory d) \<longrightarrow> es = [])))
    \<and> (\<forall>names. \<exists>es d'. fd_DeleteFilesIfNoRef bd_DeleteFile notExist names d = (Ok es, d')
        \<and> bd_names (fd_directory d') = bd_names (fd_directory d) - {f \<in> set names. \<forall>g\<in>#H. f \<notin> set g})"
proof -
  have inv: "fd_inv bd_live d H" by (rule bs.reach_inv [OF assms])
  then show ?thesis using bs.decRefAll_releases [OF inv] bs.deleteIfNoRef_keeps [OF inv] unfolding fd_inv_def by blast
qed

theorem file_deleter_counts_witness:
  "\<exists>d'. fd_DecRefAll bd_DeleteFile (\<lambda>e. False) [map of_char ''segments_1'', [97]]
       (fd_IncRefAll [[97]] (fd_IncRefAll [map of_char ''segments_1'', [97]] (NewFileDeleter False sample_dir))) = (Ok [], d')
     \<and> bd_names (fd_directory d') = {[97]}"
proof -
  let ?c = "[map of_char ''segments_1'', [97]] :: gostring list"
  let ?d = "fd_IncRefAll [[97]] (fd_IncRefAll ?c (NewFileDeleter False sample_dir))"
  have r: "fd_reach bd_DeleteFile (\<lambda>e. False) bd_live bd_names ?d {#[[97]], ?c#}"
    by (intro fd_reach.inc fd_reach.new sample_dir_live)
  have "?c \<in># {#[[97]], ?c#}" by simp
  from file_deleter_counts [OF r, THEN conjunct2, THEN conjunct1, rule_format, OF this]
  obtain es d' where d': "fd_DecRefAll bd_DeleteFile (\<lambda>e. False) ?c ?d = (Ok es, d')"
      "bd_names (fd_directory d') = bd_names (fd_directory ?d) - {f \<in> set ?c. \<forall>g\<in>#{#[[97]], ?c#} - {#?c#}. f \<notin> set g}"
      "set ?c \<subseteq> bd_names (fd_directory ?d) \<longrightarrow> es = []"
    by blast
  have n: "bd_names (fd_directory ?d) = set ?c" by (simp only: IncRefAll_count new_frame sample_dir_live list.set)
  have "{#[[97]], ?c#} - {#?c#} = {#[[97 :: u8]]#}" by simp
  moreover have "set ?c - {f \<in> set ?c. \<forall>g\<in>#{#[[97]]#}. f \<notin> set g} = {[97]}" by auto
  ultimately have "bd_names (fd_directory d') = {[97]}" using d'(2) unfolding n by (simp only:)
  moreover have "es = []" using d'(3) unfolding n by blast
  ultimately show ?thesis using d'(1) by blast
qed

text \<open>
  C35: Crash safety.  Let every list held belong to one commit, named by a \<open>segments_\<close> file, and
  let every commit whose \<open>segments_\<close> file exists be complete.  Then \<open>DecRefAll\<close> of a list that is
  held passes only through directory states with the same property: at no moment does a
  commit file exist without all its files.
\<close>

theorem file_deleter_crash_safe:
  assumes "fd_reach (logged bd_DeleteFile) notExist (\<lambda>s. bd_live (fst s)) (\<lambda>s. bd_names (fst s)) d H" "fs \<in># H"
    "one_commit_file (map of_char ''segments_'') H" "commits_complete (map of_char ''segments_'') H (bd_names (fst (fd_directory d)))"
  shows "\<exists>es d' new. fd_DecRefAll (logged bd_DeleteFile) notExist fs d = (Ok es, d') \<and> snd (fd_directory d') = new @ snd (fd_directory d)
    \<and> (\<forall>x\<in>set new. commits_complete (map of_char ''segments_'') H (bd_names x))"
proof -
  have inv: "fd_inv (\<lambda>s. bd_live (fst s)) d H" by (rule bl.reach_inv [OF assms(1)])
  then have "fd_SegmentsPrefix d = map of_char ''segments_''" by (simp add: fd_inv_def)
  then show ?thesis using bs.decRefAll_log [OF inv assms(2)] assms(3,4) by simp
qed

theorem file_deleter_crash_safe_witness:
  "\<exists>es d' new. fd_DecRefAll (logged bd_DeleteFile) (\<lambda>e. False) [map of_char ''segments_1'', [97]]
       (fd_IncRefAll [map of_char ''segments_1'', [97]] (NewFileDeleter False (sample_dir, []))) = (Ok es, d')
     \<and> snd (fd_directory d') = new
     \<and> (\<forall>x\<in>set new. commits_complete (map of_char ''segments_'') {#[map of_char ''segments_1'', [97]]#} (bd_names x))"
proof -
  let ?c = "[map of_char ''segments_1'', [97]] :: gostring list"
  let ?d = "fd_IncRefAll ?c (NewFileDeleter False (sample_dir, []))"
  have r: "fd_reach (logged bd_DeleteFile) (\<lambda>e. False) (\<lambda>s. bd_live (fst s)) (\<lambda>s. bd_names (fst s)) ?d {#?c#}"
    by (intro fd_reach.inc fd_reach.new) (simp add: sample_dir_live)
  have dir: "fd_directory ?d = (sample_dir, [])" by (simp only: IncRefAll_count new_frame)
  have "one_commit_file (map of_char ''segments_'') {#?c#}" by (auto simp: one_commit_file_def HasPrefix_def)
  moreover have "commits_complete (map of_char ''segments_'') {#?c#} (bd_names (fst (fd_directory ?d)))"
    unfolding dir by (simp add: commits_complete_def sample_dir_live)
  ultimately show ?thesis using file_deleter_crash_safe [OF r] unfolding dir by auto
qed

end
