(* ===== verification/Field_Infos.thy ===== *)
theory Field_Infos
  imports Go_Strings "HOL-Library.AList" "HOL-Library.List_Lexorder"
begin

text \<open>
  The field metadata of an index: \<^verbatim>\<open>spi/field_info.go\<close> (one field), \<^verbatim>\<open>spi/field_infos.go\<close> (the
  fields of a segment, the registry \<open>FieldNumbers\<close> of the whole index and the builder
  between them) and the encoding of fields in the user data of \<^verbatim>\<open>spi/segment_infos.go\<close>.

  A Go map is an association list with distinct keys.  Enumerations are their ordinals,
  which the code compares by order and reads from disk; a similarity function is known by
  its name, \<open>None\<close> for a nil interface.  A \<open>FieldInfo\<close> is its value: the
  places that change one behind a pointer are the methods below and the builder, which
  holds its own.  \<open>sort.Slice\<close> is a stable sort here; Go promises no order for
  equal keys.
\<close>

section \<open>Options\<close>

type_synonym IndexOptions = int
type_synonym DocValuesType = int
type_synonym DocValuesSkipIndexType = int
type_synonym VectorEncoding = int

definition IndexOptionsNone :: IndexOptions where "IndexOptionsNone = 0"
definition IndexOptionsDocs :: IndexOptions where "IndexOptionsDocs = 1"
definition IndexOptionsDocsAndFreqs :: IndexOptions where "IndexOptionsDocsAndFreqs = 2"
definition IndexOptionsDocsAndFreqsAndPositions :: IndexOptions where "IndexOptionsDocsAndFreqsAndPositions = 3"
definition IndexOptionsDocsAndFreqsAndPositionsAndOffsets :: IndexOptions where
  "IndexOptionsDocsAndFreqsAndPositionsAndOffsets = 4"
definition DocValuesTypeNone :: DocValuesType where "DocValuesTypeNone = 0"
definition DocValuesSkipIndexTypeNone :: DocValuesSkipIndexType where "DocValuesSkipIndexTypeNone = 0"
definition VectorEncodingByte :: VectorEncoding where "VectorEncodingByte = 0"
definition VectorEncodingFloat32 :: VectorEncoding where "VectorEncodingFloat32 = 1"

definition IsIndexed :: "IndexOptions \<Rightarrow> bool" where "IsIndexed opt \<longleftrightarrow> opt \<noteq> IndexOptionsNone"
definition HasFreqs :: "IndexOptions \<Rightarrow> bool" where "HasFreqs opt \<longleftrightarrow> opt \<ge> IndexOptionsDocsAndFreqs"
definition HasPositions :: "IndexOptions \<Rightarrow> bool" where "HasPositions opt \<longleftrightarrow> opt \<ge> IndexOptionsDocsAndFreqsAndPositions"
definition HasOffsets :: "IndexOptions \<Rightarrow> bool" where
  "HasOffsets opt \<longleftrightarrow> opt \<ge> IndexOptionsDocsAndFreqsAndPositionsAndOffsets"

datatype VectorSimilarityFunction = EuclideanSim | DotProductSim | CosineSim | MaximumInnerProductSim

fun similarity_ID :: "VectorSimilarityFunction \<Rightarrow> int" where
  "similarity_ID EuclideanSim = 0"
| "similarity_ID DotProductSim = 1"
| "similarity_ID CosineSim = 2"
| "similarity_ID MaximumInnerProductSim = 3"

definition GetSimilarityFunction :: "int \<Rightarrow> VectorSimilarityFunction" where
  "GetSimilarityFunction i =
     (if i = 0 then EuclideanSim else if i = 1 then DotProductSim else if i = 2 then CosineSim
      else if i = 3 then MaximumInnerProductSim else EuclideanSim)"

record FieldInfoOptions =
  op_IndexOptions :: IndexOptions
  op_DocValuesType :: DocValuesType
  op_DocValuesSkipIndexType :: DocValuesSkipIndexType
  op_DocValuesGen :: i64
  op_Stored :: bool
  op_Tokenized :: bool
  op_OmitNorms :: bool
  op_StoreTermVectors :: bool
  op_StoreTermVectorPositions :: bool
  op_StoreTermVectorOffsets :: bool
  op_StoreTermVectorPayloads :: bool
  op_PointDimensionCount :: int
  op_PointIndexDimensionCount :: int
  op_PointNumBytes :: int
  op_VectorDimension :: int
  op_VectorEncoding :: VectorEncoding
  op_VectorSimilarityFunction :: "VectorSimilarityFunction option"
  op_IsSoftDeletesField :: bool
  op_IsParentField :: bool

text \<open>The zero value of the struct, which composite literals start from.\<close>

definition zero_options :: FieldInfoOptions where
  "zero_options =
     \<lparr>op_IndexOptions = 0, op_DocValuesType = 0, op_DocValuesSkipIndexType = 0, op_DocValuesGen = 0,
      op_Stored = False, op_Tokenized = False, op_OmitNorms = False, op_StoreTermVectors = False,
      op_StoreTermVectorPositions = False, op_StoreTermVectorOffsets = False, op_StoreTermVectorPayloads = False,
      op_PointDimensionCount = 0, op_PointIndexDimensionCount = 0, op_PointNumBytes = 0,
      op_VectorDimension = 0, op_VectorEncoding = 0, op_VectorSimilarityFunction = None,
      op_IsSoftDeletesField = False, op_IsParentField = False\<rparr>"

definition DefaultFieldInfoOptions :: FieldInfoOptions where
  "DefaultFieldInfoOptions = zero_options\<lparr>op_IndexOptions := IndexOptionsNone, op_DocValuesType := DocValuesTypeNone,
     op_DocValuesSkipIndexType := DocValuesSkipIndexTypeNone, op_DocValuesGen := - 1,
     op_VectorEncoding := VectorEncodingFloat32, op_VectorSimilarityFunction := Some EuclideanSim\<rparr>"

section \<open>FieldInfo\<close>

record FieldInfo =
  fi_name :: gostring
  fi_number :: int
  fi_opts :: FieldInfoOptions
  fi_storePayloads :: bool
  fi_attributes :: "(gostring \<times> gostring) list"
  fi_frozen :: bool

text \<open>The validation that \<open>NewFieldInfo\<close> and \<open>FieldInfoBuilder.Build\<close> share.\<close>

definition corrected :: "FieldInfoOptions \<Rightarrow> FieldInfoOptions" where
  "corrected opts =
     (let o1 = (if op_StoreTermVectorPositions opts \<and> \<not> op_StoreTermVectors opts then opts\<lparr>op_StoreTermVectors := True\<rparr> else opts);
          o2 = (if op_StoreTermVectorOffsets o1 \<and> \<not> op_StoreTermVectors o1 then o1\<lparr>op_StoreTermVectors := True\<rparr> else o1);
          o3 = (if op_StoreTermVectorPayloads o2 \<and> \<not> op_StoreTermVectors o2 then o2\<lparr>op_StoreTermVectors := True\<rparr> else o2)
      in if op_Tokenized o3 \<and> \<not> IsIndexed (op_IndexOptions o3) then o3\<lparr>op_Tokenized := False\<rparr> else o3)"

definition NewFieldInfo :: "gostring \<Rightarrow> int \<Rightarrow> FieldInfoOptions \<Rightarrow> FieldInfo" where
  "NewFieldInfo name number opts =
     \<lparr>fi_name = name, fi_number = number, fi_opts = corrected opts, fi_storePayloads = False, fi_attributes = [],
      fi_frozen = True\<rparr>"

definition fi_IndexOptions :: "FieldInfo \<Rightarrow> IndexOptions" where "fi_IndexOptions fi = op_IndexOptions (fi_opts fi)"
definition fi_DocValuesType :: "FieldInfo \<Rightarrow> DocValuesType" where "fi_DocValuesType fi = op_DocValuesType (fi_opts fi)"
definition fi_StoreTermVectors :: "FieldInfo \<Rightarrow> bool" where "fi_StoreTermVectors fi = op_StoreTermVectors (fi_opts fi)"
definition fi_HasNorms :: "FieldInfo \<Rightarrow> bool" where
  "fi_HasNorms fi \<longleftrightarrow> IsIndexed (fi_IndexOptions fi) \<and> \<not> op_OmitNorms (fi_opts fi) \<and> HasFreqs (fi_IndexOptions fi)"
definition fi_HasPayloads :: "FieldInfo \<Rightarrow> bool" where "fi_HasPayloads fi = fi_storePayloads fi"
definition fi_HasVectorValues :: "FieldInfo \<Rightarrow> bool" where "fi_HasVectorValues fi \<longleftrightarrow> op_VectorDimension (fi_opts fi) > 0"

definition fi_SetDocValuesGen :: "i64 \<Rightarrow> FieldInfo \<Rightarrow> FieldInfo" where
  "fi_SetDocValuesGen gen fi = fi\<lparr>fi_opts := (fi_opts fi)\<lparr>op_DocValuesGen := gen\<rparr>\<rparr>"

definition fi_GetAttribute :: "gostring \<Rightarrow> FieldInfo \<Rightarrow> gostring" where
  "fi_GetAttribute key fi = (case map_of (fi_attributes fi) key of None \<Rightarrow> [] | Some v \<Rightarrow> v)"

definition fi_PutAttribute :: "gostring \<Rightarrow> gostring \<Rightarrow> (FieldInfo, unit) act" where
  "fi_PutAttribute key v fi =
     (if fi_frozen fi then (Panic ''FieldInfo is immutable'', fi)
      else (Ok (), fi\<lparr>fi_attributes := AList.update key v (fi_attributes fi)\<rparr>))"

definition fi_PutCodecAttribute :: "gostring \<Rightarrow> gostring \<Rightarrow> FieldInfo \<Rightarrow> FieldInfo" where
  "fi_PutCodecAttribute key v fi = fi\<lparr>fi_attributes := AList.update key v (fi_attributes fi)\<rparr>"

definition fi_SetStorePayloads :: "FieldInfo \<Rightarrow> FieldInfo" where
  "fi_SetStorePayloads fi =
     (if fi_IndexOptions fi < IndexOptionsDocsAndFreqsAndPositions then fi else fi\<lparr>fi_storePayloads := True\<rparr>)"

definition fi_OverrideStoreTermVectors :: "bool \<Rightarrow> FieldInfo \<Rightarrow> FieldInfo" where
  "fi_OverrideStoreTermVectors v fi = fi\<lparr>fi_opts := (fi_opts fi)\<lparr>op_StoreTermVectors := v\<rparr>\<rparr>"

definition fi_OverrideStoreTermVectorOffsets :: "bool \<Rightarrow> FieldInfo \<Rightarrow> FieldInfo" where
  "fi_OverrideStoreTermVectorOffsets v fi = fi\<lparr>fi_opts := (fi_opts fi)\<lparr>op_StoreTermVectorOffsets := v\<rparr>\<rparr>"

definition fi_SetStoreTermVectors :: "FieldInfo \<Rightarrow> FieldInfo" where
  "fi_SetStoreTermVectors fi = fi\<lparr>fi_opts := (fi_opts fi)\<lparr>op_StoreTermVectors := True\<rparr>\<rparr>"

text \<open>
  \<open>VerifyAndUpdate\<close>: one action per group of attributes; an error returns at once and what the
  groups before it adopted stays.
\<close>

definition adopt_index :: "FieldInfoOptions \<Rightarrow> (FieldInfo, unit) act" where
  "adopt_index opts fi =
     (let cur = fi_opts fi
      in if op_IndexOptions opts \<noteq> IndexOptionsNone
         then if op_IndexOptions cur = IndexOptionsNone
              then (Ok (), fi\<lparr>fi_opts := cur\<lparr>op_IndexOptions := op_IndexOptions opts, op_OmitNorms := op_OmitNorms opts,
                                               op_Tokenized := op_Tokenized opts\<rparr>\<rparr>)
              else if op_IndexOptions cur \<noteq> op_IndexOptions opts then (Err (Errorf ''inconsistent index options''), fi)
              else if op_OmitNorms cur \<noteq> op_OmitNorms opts then (Err (Errorf ''inconsistent omitNorms''), fi)
              else (Ok (), fi)
         else (Ok (), fi))"

definition adopt_docvalues :: "FieldInfoOptions \<Rightarrow> (FieldInfo, unit) act" where
  "adopt_docvalues opts fi =
     (let cur = fi_opts fi
      in if op_DocValuesType opts \<noteq> DocValuesTypeNone
         then if op_DocValuesType cur = DocValuesTypeNone
              then (Ok (), fi\<lparr>fi_opts := cur\<lparr>op_DocValuesType := op_DocValuesType opts,
                                               op_DocValuesSkipIndexType := op_DocValuesSkipIndexType opts\<rparr>\<rparr>)
              else if op_DocValuesType cur \<noteq> op_DocValuesType opts then (Err (Errorf ''inconsistent doc values type''), fi)
              else (Ok (), fi)
         else (Ok (), fi))"

definition adopt_points :: "FieldInfoOptions \<Rightarrow> (FieldInfo, unit) act" where
  "adopt_points opts fi =
     (let cur = fi_opts fi
      in if op_PointDimensionCount opts > 0
         then if op_PointIndexDimensionCount cur = 0
              then (Ok (), fi\<lparr>fi_opts := cur\<lparr>op_PointDimensionCount := op_PointDimensionCount opts,
                     op_PointIndexDimensionCount := (if op_PointIndexDimensionCount opts = 0 then op_PointDimensionCount opts
                                                     else op_PointIndexDimensionCount opts),
                     op_PointNumBytes := op_PointNumBytes opts\<rparr>\<rparr>)
              else if op_PointDimensionCount cur \<noteq> op_PointDimensionCount opts \<or> op_PointNumBytes cur \<noteq> op_PointNumBytes opts
              then (Err (Errorf ''inconsistent point dimensions''), fi)
              else (Ok (), fi)
         else (Ok (), fi))"

definition adopt_vectors :: "FieldInfoOptions \<Rightarrow> (FieldInfo, unit) act" where
  "adopt_vectors opts fi =
     (let cur = fi_opts fi
      in if op_VectorDimension opts > 0
         then if op_VectorDimension cur = 0
              then (Ok (), fi\<lparr>fi_opts := cur\<lparr>op_VectorDimension := op_VectorDimension opts, op_VectorEncoding := op_VectorEncoding opts,
                                               op_VectorSimilarityFunction := op_VectorSimilarityFunction opts\<rparr>\<rparr>)
              else if op_VectorDimension cur \<noteq> op_VectorDimension opts \<or> op_VectorEncoding cur \<noteq> op_VectorEncoding opts
                   \<or> op_VectorSimilarityFunction cur \<noteq> op_VectorSimilarityFunction opts
              then (Err (Errorf ''inconsistent vector schema''), fi)
              else (Ok (), fi)
         else (Ok (), fi))"

definition adopt_flags :: "FieldInfoOptions \<Rightarrow> (FieldInfo, unit) act" where
  "adopt_flags opts fi =
     (let cur = fi_opts fi
      in (Ok (), fi\<lparr>fi_opts := cur\<lparr>
            op_Stored := op_Stored cur \<or> op_Stored opts,
            op_StoreTermVectors := op_StoreTermVectors cur \<or> op_StoreTermVectors opts \<or> op_StoreTermVectorPositions opts
              \<or> op_StoreTermVectorOffsets opts \<or> op_StoreTermVectorPayloads opts,
            op_StoreTermVectorPositions := op_StoreTermVectorPositions cur \<or> op_StoreTermVectorPositions opts,
            op_StoreTermVectorOffsets := op_StoreTermVectorOffsets cur \<or> op_StoreTermVectorOffsets opts,
            op_StoreTermVectorPayloads := op_StoreTermVectorPayloads cur \<or> op_StoreTermVectorPayloads opts\<rparr>\<rparr>))"

definition fi_VerifyAndUpdate :: "FieldInfoOptions \<Rightarrow> (FieldInfo, unit) act" where
  "fi_VerifyAndUpdate opts =
     seq_act (adopt_index opts) (seq_act (adopt_docvalues opts) (seq_act (adopt_points opts)
    (seq_act (adopt_vectors opts) (adopt_flags opts))))"

text \<open>\<open>Clone\<close> passes the options of the field, not its payload flag.\<close>

definition fi_Clone :: "int \<Rightarrow> FieldInfo \<Rightarrow> FieldInfo" where
  "fi_Clone newNumber fi = (NewFieldInfo (fi_name fi) newNumber (fi_opts fi))\<lparr>fi_attributes := fi_attributes fi\<rparr>"

definition fi_CheckConsistency :: "FieldInfo \<Rightarrow> unit outcome" where
  "fi_CheckConsistency fi =
     (let opts = fi_opts fi; bad = (\<lambda>m. Err (Errorf m)) in
      if fi_name fi = [] then bad ''field name cannot be empty''
      else if fi_number fi < 0 then bad ''field number cannot be negative''
      else if IsIndexed (op_IndexOptions opts) \<and> op_IndexOptions opts = IndexOptionsNone
      then bad ''indexed field cannot have IndexOptionsNone''
      else if op_Tokenized opts \<and> \<not> IsIndexed (op_IndexOptions opts) then bad ''tokenized field must be indexed''
      else if op_StoreTermVectorPositions opts \<and> \<not> op_StoreTermVectors opts
      then bad ''cannot store term vector positions without storing term vectors''
      else if op_StoreTermVectorOffsets opts \<and> \<not> op_StoreTermVectors opts
      then bad ''cannot store term vector offsets without storing term vectors''
      else if op_StoreTermVectorPayloads opts \<and> \<not> op_StoreTermVectors opts
      then bad ''cannot store term vector payloads without storing term vectors''
      else if op_StoreTermVectorPayloads opts \<and> \<not> op_StoreTermVectorPositions opts
      then bad ''cannot store term vector payloads without storing term vector positions''
      else Ok ())"

text \<open>\<open>FieldInfoBuilder\<close>: its setters assign to one option each.\<close>

record FieldInfoBuilder =
  fb_name :: gostring
  fb_number :: int
  fb_opts :: FieldInfoOptions
  fb_attrs :: "(gostring \<times> gostring) list"

definition NewFieldInfoBuilder :: "gostring \<Rightarrow> int \<Rightarrow> FieldInfoBuilder" where
  "NewFieldInfoBuilder name number =
     \<lparr>fb_name = name, fb_number = number, fb_opts = DefaultFieldInfoOptions, fb_attrs = []\<rparr>"

definition fb_SetAttribute :: "gostring \<Rightarrow> gostring \<Rightarrow> FieldInfoBuilder \<Rightarrow> FieldInfoBuilder" where
  "fb_SetAttribute key v b = b\<lparr>fb_attrs := AList.update key v (fb_attrs b)\<rparr>"

definition fb_Build :: "FieldInfoBuilder \<Rightarrow> FieldInfo" where
  "fb_Build b = \<lparr>fi_name = fb_name b, fi_number = fb_number b, fi_opts = corrected (fb_opts b), fi_storePayloads = False,
     fi_attributes = fb_attrs b, fi_frozen = True\<rparr>"

section \<open>FieldInfos\<close>

text \<open>
  The slices \<open>byNumber\<close> and \<open>values\<close> are two lists.  \<open>NewFieldInfos\<close> may let them share one
  array; \<open>Add\<close> is called only on a collection that started empty, where they are distinct.
\<close>

record FieldInfos =
  fis_hasFreq :: bool
  fis_hasPostings :: bool
  fis_hasProx :: bool
  fis_hasPayloads :: bool
  fis_hasOffsets :: bool
  fis_hasTermVectors :: bool
  fis_hasNorms :: bool
  fis_hasDocValues :: bool
  fis_hasPointValues :: bool
  fis_hasVectorValues :: bool
  fis_softDeletesField :: gostring
  fis_parentField :: gostring
  fis_byNumber :: "FieldInfo option list"
  fis_byName :: "(gostring \<times> FieldInfo) list"
  fis_values :: "FieldInfo list"
  fis_frozen :: bool

definition empty_field_infos :: FieldInfos where
  "empty_field_infos =
     \<lparr>fis_hasFreq = False, fis_hasPostings = False, fis_hasProx = False, fis_hasPayloads = False, fis_hasOffsets = False,
      fis_hasTermVectors = False, fis_hasNorms = False, fis_hasDocValues = False, fis_hasPointValues = False,
      fis_hasVectorValues = False, fis_softDeletesField = [], fis_parentField = [], fis_byNumber = [], fis_byName = [],
      fis_values = [], fis_frozen = False\<rparr>"

text \<open>The aggregate flags, and the two names, that the constructor and \<open>Add\<close> update for a field.\<close>

definition fis_aggregate :: "FieldInfo \<Rightarrow> FieldInfos \<Rightarrow> FieldInfos" where
  "fis_aggregate info f = (let opt = fi_IndexOptions info in
     f\<lparr>fis_hasTermVectors := fis_hasTermVectors f \<or> fi_StoreTermVectors info,
       fis_hasPostings := fis_hasPostings f \<or> IsIndexed opt,
       fis_hasProx := fis_hasProx f \<or> HasPositions opt,
       fis_hasFreq := fis_hasFreq f \<or> (opt \<noteq> IndexOptionsNone \<and> opt \<noteq> IndexOptionsDocs),
       fis_hasOffsets := fis_hasOffsets f \<or> HasOffsets opt,
       fis_hasNorms := fis_hasNorms f \<or> fi_HasNorms info,
       fis_hasDocValues := fis_hasDocValues f \<or> fi_DocValuesType info \<noteq> DocValuesTypeNone,
       fis_hasPayloads := fis_hasPayloads f \<or> fi_HasPayloads info,
       fis_hasPointValues := fis_hasPointValues f \<or> op_PointDimensionCount (fi_opts info) \<noteq> 0,
       fis_hasVectorValues := fis_hasVectorValues f \<or> op_VectorDimension (fi_opts info) \<noteq> 0\<rparr>)"

definition fis_softDeletes :: "FieldInfo \<Rightarrow> (FieldInfos, unit) act" where
  "fis_softDeletes info f =
     (if op_IsSoftDeletesField (fi_opts info)
      then if fis_softDeletesField f \<noteq> [] \<and> fis_softDeletesField f \<noteq> fi_name info
           then (Panic ''multiple soft-deletes fields'', f)
           else (Ok (), f\<lparr>fis_softDeletesField := fi_name info\<rparr>)
      else (Ok (), f))"

definition fis_parent :: "FieldInfo \<Rightarrow> (FieldInfos, unit) act" where
  "fis_parent info f =
     (if op_IsParentField (fi_opts info)
      then if fis_parentField f \<noteq> [] \<and> fis_parentField f \<noteq> fi_name info
           then (Panic ''multiple parent fields'', f)
           else (Ok (), f\<lparr>fis_parentField := fi_name info\<rparr>)
      else (Ok (), f))"

text \<open>The first loop of \<open>NewFieldInfos\<close>, over \<open>maxFieldNumber\<close> and \<open>fieldNumberStrictlyAscending\<close>.\<close>

fun new_infos_loop :: "FieldInfo list \<Rightarrow> int \<times> bool \<times> FieldInfos \<Rightarrow> (int \<times> bool \<times> FieldInfos) outcome" where
  "new_infos_loop [] st = Ok st"
| "new_infos_loop (info # infos) (maxFieldNumber, asc, f) =
     (if fi_number info < 0 then Panic ''illegal field number''
      else let mx = (if maxFieldNumber < fi_number info then fi_number info else maxFieldNumber);
               asc' = (asc \<and> maxFieldNumber < fi_number info)
           in if map_of (fis_byName f) (fi_name info) \<noteq> None then Panic ''duplicate field names''
              else let f1 = fis_aggregate info (f\<lparr>fis_byName := AList.update (fi_name info) info (fis_byName f)\<rparr>)
                   in case fis_softDeletes info f1 of
                        (Panic p, f2) \<Rightarrow> Panic p | (Err e, f2) \<Rightarrow> Err e
                      | (Ok u, f2) \<Rightarrow>
                          (case fis_parent info f2 of
                             (Panic p, f3) \<Rightarrow> Panic p | (Err e, f3) \<Rightarrow> Err e
                           | (Ok u, f3) \<Rightarrow> new_infos_loop infos (mx, asc', f3)))"

fun place_by_number :: "FieldInfo list \<Rightarrow> FieldInfo option list \<Rightarrow> FieldInfo option list outcome" where
  "place_by_number [] tab = Ok tab"
| "place_by_number (info # infos) tab =
     bind_out (index tab (fi_number info)) (\<lambda>existing.
       if existing \<noteq> None then Panic ''duplicate field numbers''
       else bind_out (store tab (fi_number info) (Some info)) (place_by_number infos))"

definition NewFieldInfos :: "FieldInfo list \<Rightarrow> FieldInfos outcome" where
  "NewFieldInfos infos =
     bind_out (new_infos_loop infos (- 1, True, empty_field_infos)) (\<lambda>(mx, asc, f).
       if asc \<and> mx = int (length infos) - 1
       then Ok (f\<lparr>fis_byNumber := map Some infos, fis_values := infos\<rparr>)
       else bind_out (place_by_number infos (replicate (nat (mx + 1)) None)) (\<lambda>byNumber.
            Ok (f\<lparr>fis_byNumber := byNumber,
                  fis_values := (if mx = int (length infos) - 1 then map the byNumber else sort_key fi_number infos)\<rparr>)))"

definition fis_Size :: "FieldInfos \<Rightarrow> int" where "fis_Size f = int (length (fis_byName f))"

definition FieldInfoByName :: "gostring \<Rightarrow> FieldInfos \<Rightarrow> FieldInfo option" where
  "FieldInfoByName name f = map_of (fis_byName f) name"

definition FieldInfoByNumber :: "int \<Rightarrow> FieldInfos \<Rightarrow> FieldInfo option outcome" where
  "FieldInfoByNumber number f =
     (if number < 0 then Panic ''Illegal field number''
      else if number \<ge> int (length (fis_byNumber f)) then Ok None
      else index (fis_byNumber f) number)"

definition fis_Names :: "FieldInfos \<Rightarrow> gostring list" where
  "fis_Names f = map fi_name (fis_values f)"

fun next_number :: "FieldInfo option list \<Rightarrow> int \<Rightarrow> int" where
  "next_number [] n = n"
| "next_number (None # xs) n = n"
| "next_number (Some i # xs) n = next_number xs (n + 1)"

definition fis_GetNextFieldNumber :: "FieldInfos \<Rightarrow> int" where
  "fis_GetNextFieldNumber f = next_number (fis_byNumber f) 0"

definition fis_Freeze :: "FieldInfos \<Rightarrow> FieldInfos" where "fis_Freeze f = f\<lparr>fis_frozen := True\<rparr>"

text \<open>Growing \<open>byNumber\<close> to hold a number, and the store, which panics for a negative one.\<close>

definition fis_Add :: "FieldInfo \<Rightarrow> (FieldInfos, FieldInfo) act" where
  "fis_Add info f =
     (if fis_frozen f then (Panic ''FieldInfos was already frozen; cannot add new fields'', f)
      else seq_act (fis_softDeletes info) (seq_act (fis_parent info) (\<lambda>f1.
             let f2 = f1\<lparr>fis_byName := AList.update (fi_name info) info (fis_byName f1)\<rparr>;
                 n = fi_number info;
                 tab = (if n \<ge> int (length (fis_byNumber f2))
                        then fis_byNumber f2 @ replicate (nat (n + 1) - length (fis_byNumber f2)) None else fis_byNumber f2)
             in case store tab n (Some info) of
                  Ok tab' \<Rightarrow> (Ok info, f2\<lparr>fis_byNumber := tab', fis_values := sort_key fi_number (fis_values f2 @ [info])\<rparr>)
                | Err e \<Rightarrow> (Err e, f2\<lparr>fis_byNumber := tab\<rparr>) | Panic p \<Rightarrow> (Panic p, f2\<lparr>fis_byNumber := tab\<rparr>)))
           (fis_aggregate info f))"

text \<open>The iterator.\<close>

record fieldInfosIterator =
  it_infos :: "FieldInfo list"
  it_index :: int

definition fis_Iterator :: "FieldInfos \<Rightarrow> fieldInfosIterator" where
  "fis_Iterator f = \<lparr>it_infos = fis_values f, it_index = - 1\<rparr>"

definition it_Next :: "fieldInfosIterator \<Rightarrow> FieldInfo option \<times> fieldInfosIterator" where
  "it_Next it = (let i = it_index it + 1; it' = it\<lparr>it_index := i\<rparr>
     in if i \<ge> int (length (it_infos it)) then (None, it') else (Some (it_infos it ! nat i), it'))"

definition it_HasNext :: "fieldInfosIterator \<Rightarrow> bool" where
  "it_HasNext it \<longleftrightarrow> it_index it + 1 < int (length (it_infos it))"

section \<open>FieldNumbers\<close>

record fieldDims =
  fd_dimensionCount :: int
  fd_indexDimensionCount :: int
  fd_dimensionNumBytes :: int

record fieldVectorProps =
  fv_numDimensions :: int
  fv_vectorEncoding :: VectorEncoding
  fv_vectorSimilarityFunction :: "VectorSimilarityFunction option"

record indexOptionsProps =
  ix_storeTermVectors :: bool
  ix_omitNorms :: bool

record fieldProps =
  fp_number :: int
  fp_indexOptions :: IndexOptions
  fp_indexOptionsProps :: "indexOptionsProps option"
  fp_docValuesType :: DocValuesType
  fp_docValuesSkipIndex :: DocValuesSkipIndexType
  fp_fieldDims :: fieldDims
  fp_fieldVectorProps :: fieldVectorProps

record FieldNumbers =
  fn_numberToName :: "(int \<times> gostring) list"
  fn_fieldProps :: "(gostring \<times> fieldProps) list"
  fn_lowestUnassignedFieldNumber :: int
  fn_softDeletesFieldName :: gostring
  fn_parentFieldName :: gostring

definition NewFieldNumbers :: "gostring \<Rightarrow> gostring \<Rightarrow> FieldNumbers outcome" where
  "NewFieldNumbers softDeletesFieldName parentFieldName =
     (if softDeletesFieldName \<noteq> [] \<and> parentFieldName \<noteq> [] \<and> softDeletesFieldName = parentFieldName
      then Panic ''parent document and soft-deletes field can't be the same field''
      else Ok \<lparr>fn_numberToName = [], fn_fieldProps = [], fn_lowestUnassignedFieldNumber = - 1,
               fn_softDeletesFieldName = softDeletesFieldName, fn_parentFieldName = parentFieldName\<rparr>)"

definition verifySoftDeletedFieldName :: "FieldNumbers \<Rightarrow> gostring \<Rightarrow> bool \<Rightarrow> unit outcome" where
  "verifySoftDeletedFieldName fn name isSoftDeletes =
     (if isSoftDeletes
      then if fn_softDeletesFieldName fn = [] then Panic ''soft-deletes field is not configured in IWC''
           else if name \<noteq> fn_softDeletesFieldName fn then Panic ''this index uses another soft-deletes field already''
           else Ok ()
      else if name = fn_softDeletesFieldName fn then Panic ''this index uses the field as non-soft-deletes already''
      else Ok ())"

definition verifyParentFieldName :: "FieldNumbers \<Rightarrow> gostring \<Rightarrow> bool \<Rightarrow> unit outcome" where
  "verifyParentFieldName fn name isParent =
     (if isParent
      then if fn_parentFieldName fn = [] then Panic ''this IndexWriter has no parent document field configured''
           else if name \<noteq> fn_parentFieldName fn then Panic ''this IndexWriter is configured with another parent field''
           else Ok ()
      else if name = fn_parentFieldName fn then Panic ''can't add the parent field as non parent document field''
      else Ok ())"

definition verifySameSchema :: "FieldInfo \<Rightarrow> fieldProps \<Rightarrow> unit outcome" where
  "verifySameSchema fi props =
     (let opts = fi_opts fi in
      if op_IndexOptions opts \<noteq> fp_indexOptions props then Panic ''inconsistent index options''
      else bind_out (if fp_indexOptions props \<noteq> IndexOptionsNone
             then (case fp_indexOptionsProps props of None \<Rightarrow> Panic ''nil pointer dereference''
                   | Some ip \<Rightarrow> if op_StoreTermVectors opts \<noteq> ix_storeTermVectors ip then Panic ''inconsistent term vectors storage''
                                else if op_OmitNorms opts \<noteq> ix_omitNorms ip then Panic ''inconsistent omitNorms'' else Ok ())
             else Ok ()) (\<lambda>_.
      if op_DocValuesType opts \<noteq> fp_docValuesType props then Panic ''inconsistent doc values type''
      else if op_DocValuesSkipIndexType opts \<noteq> fp_docValuesSkipIndex props then Panic ''inconsistent doc values skip index''
      else if op_PointDimensionCount opts \<noteq> fd_dimensionCount (fp_fieldDims props)
           \<or> op_PointIndexDimensionCount opts \<noteq> fd_indexDimensionCount (fp_fieldDims props)
           \<or> op_PointNumBytes opts \<noteq> fd_dimensionNumBytes (fp_fieldDims props)
      then Panic ''inconsistent point dimensions''
      else if op_VectorDimension opts \<noteq> fv_numDimensions (fp_fieldVectorProps props)
           \<or> op_VectorEncoding opts \<noteq> fv_vectorEncoding (fp_fieldVectorProps props)
           \<or> op_VectorSimilarityFunction opts \<noteq> fv_vectorSimilarityFunction (fp_fieldVectorProps props)
      then Panic ''inconsistent vector schema''
      else Ok ()))"

text \<open>The two checks of a field's role that \<open>verifyFieldInfo\<close> and \<open>AddOrGet\<close> start with.\<close>

definition verify_roles :: "FieldInfo \<Rightarrow> FieldNumbers \<Rightarrow> unit outcome" where
  "verify_roles fi fn =
     bind_out (verifySoftDeletedFieldName fn (fi_name fi) (op_IsSoftDeletesField (fi_opts fi))) (\<lambda>_.
       verifyParentFieldName fn (fi_name fi) (op_IsParentField (fi_opts fi)))"

definition verifyFieldInfo :: "FieldInfo \<Rightarrow> FieldNumbers \<Rightarrow> unit outcome" where
  "verifyFieldInfo fi fn =
     bind_out (verify_roles fi fn) (\<lambda>_.
       case map_of (fn_fieldProps fn) (fi_name fi) of None \<Rightarrow> Ok () | Some props \<Rightarrow> verifySameSchema fi props)"

text \<open>The loop that looks for a free number; it ends because finitely many are taken.\<close>

lemma next_free_measure:
  "map_of m (l + 1) \<noteq> None \<Longrightarrow> card {k \<in> fst ` set m. l + 1 < k} < card {k \<in> fst ` set m. l < (k :: int)}"
proof (rule psubset_card_mono)
  assume "map_of m (l + 1) \<noteq> None"
  then have "l + 1 \<in> fst ` set m" by (simp add: map_of_eq_None_iff)
  then have "l + 1 \<in> {k \<in> fst ` set m. l < k}" "l + 1 \<notin> {k \<in> fst ` set m. l + 1 < k}" by simp_all
  moreover have "{k \<in> fst ` set m. l + 1 < k} \<subseteq> {k \<in> fst ` set m. l < k}" by (rule Collect_mono) simp
  ultimately show "{k \<in> fst ` set m. l + 1 < k} \<subset> {k \<in> fst ` set m. l < k}" by blast
qed simp

function next_free :: "(int \<times> gostring) list \<Rightarrow> int \<Rightarrow> int" where
  "next_free m l = (if map_of m (l + 1) = None then l + 1 else next_free m (l + 1))"
  by pat_completeness auto
termination by (relation "measure (\<lambda>(m, l). card {k \<in> fst ` set m. l < k})") (simp_all add: next_free_measure)

declare next_free.simps [simp del]

definition props_of :: "int \<Rightarrow> FieldInfo \<Rightarrow> fieldProps" where
  "props_of number fi = (let opts = fi_opts fi in
     \<lparr>fp_number = number, fp_indexOptions = op_IndexOptions opts,
      fp_indexOptionsProps = (if op_IndexOptions opts \<noteq> IndexOptionsNone
        then Some \<lparr>ix_storeTermVectors = op_StoreTermVectors opts, ix_omitNorms = op_OmitNorms opts\<rparr> else None),
      fp_docValuesType = op_DocValuesType opts, fp_docValuesSkipIndex = op_DocValuesSkipIndexType opts,
      fp_fieldDims = \<lparr>fd_dimensionCount = op_PointDimensionCount opts, fd_indexDimensionCount = op_PointIndexDimensionCount opts,
                      fd_dimensionNumBytes = op_PointNumBytes opts\<rparr>,
      fp_fieldVectorProps = \<lparr>fv_numDimensions = op_VectorDimension opts, fv_vectorEncoding = op_VectorEncoding opts,
                             fv_vectorSimilarityFunction = op_VectorSimilarityFunction opts\<rparr>\<rparr>)"

definition AddOrGet :: "FieldInfo \<Rightarrow> (FieldNumbers, int) act" where
  "AddOrGet fi fn =
     (let name = fi_name fi
      in case verify_roles fi fn of
           Panic p \<Rightarrow> (Panic p, fn) | Err e \<Rightarrow> (Err e, fn)
         | Ok _ \<Rightarrow>
             (case map_of (fn_fieldProps fn) name of
                Some props \<Rightarrow> (bind_out (verifySameSchema fi props) (\<lambda>_. Ok (fp_number props)), fn)
              | None \<Rightarrow>
                  let own = (fi_number fi \<noteq> - 1 \<and> map_of (fn_numberToName fn) (fi_number fi) = None);
                      fieldNumber = (if own then fi_number fi
                                     else next_free (fn_numberToName fn) (fn_lowestUnassignedFieldNumber fn))
                  in (Ok fieldNumber,
                      fn\<lparr>fn_lowestUnassignedFieldNumber := (if own then fn_lowestUnassignedFieldNumber fn else fieldNumber),
                         fn_numberToName := AList.update fieldNumber name (fn_numberToName fn),
                         fn_fieldProps := AList.update name (props_of fieldNumber fi) (fn_fieldProps fn)\<rparr>)))"

definition dv_only_info :: "FieldNumbers \<Rightarrow> gostring \<Rightarrow> DocValuesType \<Rightarrow> int \<Rightarrow> FieldInfo" where
  "dv_only_info fn name dvType number =
     NewFieldInfo name number (zero_options\<lparr>op_IndexOptions := IndexOptionsNone, op_DocValuesType := dvType,
       op_DocValuesSkipIndexType := DocValuesSkipIndexTypeNone,
       op_IsSoftDeletesField := (name = fn_softDeletesFieldName fn), op_IsParentField := (name = fn_parentFieldName fn)\<rparr>)"

definition VerifyOrCreateDvOnlyField :: "gostring \<Rightarrow> DocValuesType \<Rightarrow> bool \<Rightarrow> (FieldNumbers, unit) act" where
  "VerifyOrCreateDvOnlyField name dvType fieldMustExist fn =
     (case map_of (fn_fieldProps fn) name of
        None \<Rightarrow> if fieldMustExist then (Panic ''the field doesn't exist'', fn)
                else bind_act (AddOrGet (dv_only_info fn name dvType (- 1))) (\<lambda>_. ret_act ()) fn
      | Some props \<Rightarrow>
          (if fp_docValuesType props \<noteq> dvType then Panic ''the field has inconsistent doc values type''
           else if fp_docValuesSkipIndex props \<noteq> DocValuesSkipIndexTypeNone then Panic ''it has doc values skip index''
           else if fd_dimensionCount (fp_fieldDims props) \<noteq> 0 then Panic ''is also indexed with points''
           else if fp_indexOptions props \<noteq> IndexOptionsNone then Panic ''is also indexed with postings''
           else if fv_numDimensions (fp_fieldVectorProps props) \<noteq> 0 then Panic ''is also indexed with vectors''
           else Ok (), fn))"

definition ConstructFieldInfo :: "gostring \<Rightarrow> DocValuesType \<Rightarrow> int \<Rightarrow> FieldNumbers \<Rightarrow> FieldInfo option" where
  "ConstructFieldInfo name dvType newFieldNumber fn =
     (case map_of (fn_fieldProps fn) name of None \<Rightarrow> None
      | Some props \<Rightarrow> if fp_docValuesType props \<noteq> dvType then None else Some (dv_only_info fn name dvType newFieldNumber))"

definition GetFieldNames :: "FieldNumbers \<Rightarrow> gostring list" where
  "GetFieldNames fn = map fst (fn_fieldProps fn)"

definition fn_Clear :: "FieldNumbers \<Rightarrow> FieldNumbers" where
  "fn_Clear fn = fn\<lparr>fn_numberToName := [], fn_fieldProps := [], fn_lowestUnassignedFieldNumber := - 1\<rparr>"

section \<open>FieldInfosBuilder\<close>

record FieldInfosBuilder =
  ib_byName :: "(gostring \<times> FieldInfo) list"
  ib_globalFieldNumbers :: FieldNumbers
  ib_finished :: bool

definition NewFieldInfosBuilder :: "FieldNumbers \<Rightarrow> FieldInfosBuilder" where
  "NewFieldInfosBuilder fn = \<lparr>ib_byName = [], ib_globalFieldNumbers = fn, ib_finished = False\<rparr>"

fun put_attributes :: "(gostring \<times> gostring) list \<Rightarrow> (FieldInfo, unit) act" where
  "put_attributes [] = ret_act ()"
| "put_attributes ((k, v) # kvs) = seq_act (fi_PutAttribute k v) (put_attributes kvs)"

text \<open>The literal of \<open>AddWithDvGen\<close> lists every option of the field except the generation.\<close>

definition ib_AddWithDvGen :: "FieldInfo \<Rightarrow> i64 \<Rightarrow> (FieldInfosBuilder, FieldInfo) act" where
  "ib_AddWithDvGen fi dvGen b =
     (case map_of (ib_byName b) (fi_name fi) of
        Some curFi \<Rightarrow>
          let curFi' = (if fi_HasPayloads fi then fi_SetStorePayloads curFi else curFi)
          in (Ok curFi', b\<lparr>ib_byName := AList.update (fi_name fi) curFi' (ib_byName b)\<rparr>)
      | None \<Rightarrow>
          if ib_finished b then (Panic ''FieldInfos.Builder was already finished; cannot add new fields'', b)
          else case AddOrGet fi (ib_globalFieldNumbers b) of
                 (Panic p, fn) \<Rightarrow> (Panic p, b\<lparr>ib_globalFieldNumbers := fn\<rparr>)
               | (Err e, fn) \<Rightarrow> (Err e, b\<lparr>ib_globalFieldNumbers := fn\<rparr>)
               | (Ok fieldNumber, fn) \<Rightarrow>
                   let b1 = b\<lparr>ib_globalFieldNumbers := fn\<rparr>;
                       fiNew = NewFieldInfo (fi_name fi) fieldNumber ((fi_opts fi)\<lparr>op_DocValuesGen := dvGen\<rparr>)
                   in (case put_attributes (fi_attributes fi) fiNew of
                         (Panic p, _) \<Rightarrow> (Panic p, b1) | (Err e, _) \<Rightarrow> (Err e, b1)
                       | (Ok _, fiNew') \<Rightarrow> (Ok fiNew', b1\<lparr>ib_byName := AList.update (fi_name fiNew') fiNew' (ib_byName b1)\<rparr>)))"

definition ib_Add :: "FieldInfo \<Rightarrow> (FieldInfosBuilder, FieldInfo) act" where
  "ib_Add fi = ib_AddWithDvGen fi (- 1)"

definition ib_FieldInfos :: "FieldInfosBuilder \<Rightarrow> FieldInfos outcome" where
  "ib_FieldInfos b = NewFieldInfos (map snd (ib_byName b))"

definition ib_Build :: "(FieldInfosBuilder, FieldInfos) act" where
  "ib_Build b = (NewFieldInfos (map snd (ib_byName b)), b\<lparr>ib_finished := True\<rparr>)"

section \<open>Fields in the user data of a commit\<close>

text \<open>\<open>strings.NewReplacer\<close> with one-byte patterns replaces byte by byte.\<close>

definition escape_byte :: "u8 \<Rightarrow> gostring" where
  "escape_byte c =
     (if c = 37 then [37, 50, 53] else if c = 10 then [37, 48, 65] else if c = 124 then [37, 55, 67]
      else if c = 61 then [37, 51, 68] else if c = 59 then [37, 51, 66] else [c])"

definition escapeUserDataToken :: "gostring \<Rightarrow> gostring" where
  "escapeUserDataToken s = concat (map escape_byte s)"

text \<open>With longer patterns it scans from left to right and tries the patterns at each position.\<close>

definition unescape_pattern :: "gostring \<Rightarrow> u8 option" where
  "unescape_pattern s =
     (let p = take 3 s in
      if p = [37, 48, 65] then Some 10 else if p = [37, 55, 67] then Some 124 else if p = [37, 51, 68] then Some 61
      else if p = [37, 51, 66] then Some 59 else if p = [37, 50, 53] then Some 37 else None)"

function unescapeUserDataToken :: "gostring \<Rightarrow> gostring" where
  "unescapeUserDataToken s =
     (case s of [] \<Rightarrow> []
      | c # cs \<Rightarrow> (case unescape_pattern s of
                     Some r \<Rightarrow> r # unescapeUserDataToken (drop 3 s)
                   | None \<Rightarrow> c # unescapeUserDataToken cs))"
  by pat_completeness auto
termination by (relation "measure length") auto

declare unescapeUserDataToken.simps [simp del]

text \<open>\<open>strings.Split\<close> on a separator of one byte.\<close>

fun split_on :: "u8 \<Rightarrow> gostring \<Rightarrow> gostring list" where
  "split_on c [] = [[]]"
| "split_on c (x # xs) =
     (if x = c then [] # split_on c xs
      else case split_on c xs of [] \<Rightarrow> [[x]] | p # ps \<Rightarrow> (x # p) # ps)"

fun join_with :: "u8 \<Rightarrow> gostring list \<Rightarrow> gostring" where
  "join_with c [] = []"
| "join_with c [p] = p"
| "join_with c (p # q # ps) = p @ c # join_with c (q # ps)"

definition encode_pair :: "(gostring \<times> gostring) list \<Rightarrow> gostring \<Rightarrow> gostring" where
  "encode_pair attrs k =
     escapeUserDataToken k @ 61 # escapeUserDataToken (case map_of attrs k of None \<Rightarrow> [] | Some v \<Rightarrow> v)"

definition encodeFieldInfoAttributes :: "(gostring \<times> gostring) list \<Rightarrow> gostring" where
  "encodeFieldInfoAttributes attrs =
     (if attrs = [] then [] else join_with 59 (map (encode_pair attrs) (sort (map fst attrs))))"

definition decode_pair :: "gostring \<Rightarrow> (gostring \<times> gostring) list \<Rightarrow> (gostring \<times> gostring) list" where
  "decode_pair pair m =
     (if pair = [] then m
      else let before = takeWhile (\<lambda>c. c \<noteq> 61) pair
           in if length before = length pair then m
              else AList.update (unescapeUserDataToken before) (unescapeUserDataToken (drop (length before + 1) pair)) m)"

text \<open>A nil map is the empty one.\<close>

definition decodeFieldInfoAttributes :: "gostring \<Rightarrow> (gostring \<times> gostring) list" where
  "decodeFieldInfoAttributes encoded = (if encoded = [] then [] else fold decode_pair (split_on 59 encoded) [])"

definition info_flags :: "FieldInfo \<Rightarrow> int" where
  "info_flags info = (let opts = fi_opts info in
     (if op_Stored opts then 1 else 0) + (if op_Tokenized opts then 2 else 0)
     + (if op_StoreTermVectors opts then 4 else 0) + (if op_OmitNorms opts then 8 else 0))"

text \<open>\<open>ID()\<close> of a nil similarity function panics.\<close>

definition encode_info :: "FieldInfo \<Rightarrow> gostring outcome" where
  "encode_info info = (let opts = fi_opts info in
     case op_VectorSimilarityFunction opts of
       None \<Rightarrow> Panic ''nil pointer dereference''
     | Some sim \<Rightarrow>
         Ok (join_with 124 (fi_name info # map (format_int 10)
               [fi_number info, op_IndexOptions opts, op_DocValuesType opts, info_flags info, op_VectorDimension opts,
                op_VectorEncoding opts, similarity_ID sim, op_PointDimensionCount opts, op_PointIndexDimensionCount opts,
                op_PointNumBytes opts]
             @ [encodeFieldInfoAttributes (fi_attributes info)])))"

fun encode_infos :: "FieldInfo list \<Rightarrow> gostring list outcome" where
  "encode_infos [] = Ok []"
| "encode_infos (info # infos) =
     bind_out (encode_info info) (\<lambda>line. bind_out (encode_infos infos) (\<lambda>ls. Ok (line # ls)))"

definition encodeFieldInfosForUserData :: "FieldInfos option \<Rightarrow> gostring outcome" where
  "encodeFieldInfosForUserData ofis =
     (case ofis of None \<Rightarrow> Ok []
      | Some fis \<Rightarrow> if fis_Size fis = 0 then Ok []
                    else bind_out (encode_infos (fis_values fis)) (\<lambda>ls. Ok (join_with 10 ls)))"

definition atoi_or :: "string \<Rightarrow> gostring \<Rightarrow> int outcome" where
  "atoi_or msg s = (case Atoi s of None \<Rightarrow> Err (Errorf msg) | Some i \<Rightarrow> Ok (sint i))"

text \<open>A token read by \<open>parts[k]\<close>.\<close>

definition atoi_at :: "string \<Rightarrow> gostring list \<Rightarrow> nat \<Rightarrow> int outcome" where
  "atoi_at msg parts k = atoi_or msg (parts ! k)"

definition flag_set :: "int \<Rightarrow> int \<Rightarrow> bool" where
  "flag_set flags m \<longleftrightarrow> flags AND m \<noteq> 0"

definition decode_line :: "gostring \<Rightarrow> FieldInfo outcome" where
  "decode_line line =
     (let parts = split_on 124 line; n = length parts in
      if n \<noteq> 5 \<and> n \<noteq> 11 \<and> n \<noteq> 12 then Err (Errorf ''malformed FieldInfo entry'')
      else bind_out (atoi_at ''invalid field number'' parts 1) (\<lambda>fnum.
           bind_out (atoi_at ''invalid indexOptions'' parts 2) (\<lambda>ioRaw.
           bind_out (atoi_at ''invalid dvType'' parts 3) (\<lambda>dvRaw.
           bind_out (atoi_at ''invalid flags'' parts 4) (\<lambda>flags.
             let opts = zero_options\<lparr>op_IndexOptions := ioRaw, op_DocValuesType := dvRaw,
                   op_DocValuesSkipIndexType := DocValuesSkipIndexTypeNone, op_DocValuesGen := - 1,
                   op_Stored := flag_set flags 1, op_Tokenized := flag_set flags 2, op_StoreTermVectors := flag_set flags 4,
                   op_OmitNorms := flag_set flags 8, op_VectorEncoding := VectorEncodingFloat32,
                   op_VectorSimilarityFunction := Some EuclideanSim\<rparr>
             in bind_out (if n \<ge> 11
                  then bind_out (atoi_at ''invalid vectorDimension'' parts 5) (\<lambda>vecDim.
                       bind_out (atoi_at ''invalid vectorEncoding'' parts 6) (\<lambda>vecEnc.
                       bind_out (atoi_at ''invalid vectorSimilarityFunction'' parts 7) (\<lambda>vecSim.
                       bind_out (atoi_at ''invalid pointDimensionCount'' parts 8) (\<lambda>ptDim.
                       bind_out (atoi_at ''invalid pointIndexDimensionCount'' parts 9) (\<lambda>ptIdxDim.
                       bind_out (atoi_at ''invalid pointNumBytes'' parts 10) (\<lambda>ptBytes.
                         Ok ((if vecDim > 0
                              then opts\<lparr>op_VectorEncoding := vecEnc, op_VectorSimilarityFunction := Some (GetSimilarityFunction vecSim)\<rparr>
                              else opts)\<lparr>op_VectorDimension := vecDim, op_PointDimensionCount := ptDim,
                                         op_PointIndexDimensionCount := ptIdxDim, op_PointNumBytes := ptBytes\<rparr>)))))))
                  else Ok opts) (\<lambda>opts'.
                  let fi = NewFieldInfo (parts ! 0) fnum opts'
                  in Ok (if n \<ge> 12 then fold (\<lambda>(k, v). fi_PutCodecAttribute k v) (decodeFieldInfoAttributes (parts ! 11)) fi
                         else fi)))))))"

fun decode_lines :: "gostring list \<Rightarrow> FieldInfos \<Rightarrow> FieldInfos outcome" where
  "decode_lines [] fis = Ok fis"
| "decode_lines (line # ls) fis =
     (if line = [] then decode_lines ls fis
      else bind_out (decode_line line) (\<lambda>fi.
             case fis_Add fi fis of
               (Panic p, _) \<Rightarrow> Panic p | (Err e, _) \<Rightarrow> Err e | (Ok _, fis') \<Rightarrow> decode_lines ls fis'))"

definition decodeFieldInfosFromUserData :: "gostring \<Rightarrow> FieldInfos option outcome" where
  "decodeFieldInfosFromUserData encoded =
     (if encoded = [] then Ok None
      else bind_out (NewFieldInfos []) (\<lambda>fis.
           bind_out (decode_lines (split_on 10 encoded) fis) (\<lambda>fis'. Ok (Some fis'))))"

section \<open>Attributes survive the encoding\<close>

lemma unescape_escape: "unescapeUserDataToken (escapeUserDataToken s) = s"
proof (induction s)
  case Nil
  show ?case by (simp add: escapeUserDataToken_def unescapeUserDataToken.simps [of "[]"])
next
  case (Cons c s)
  have e: "escapeUserDataToken (c # s) = escape_byte c @ escapeUserDataToken s" by (simp add: escapeUserDataToken_def)
  consider (special) "c \<in> {37, 10, 124, 61, 59}" | (plain) "c \<notin> {37, 10, 124, 61, 59}" by blast
  then show ?case
  proof cases
    case special
    then obtain x y where "escape_byte c = [37, x, y]" "unescape_pattern (37 # x # y # escapeUserDataToken s) = Some c"
      by (auto simp: escape_byte_def unescape_pattern_def)
    then show ?thesis using Cons.IH by (simp add: e unescapeUserDataToken.simps [of "37 # _"])
  next
    case plain
    then have "escape_byte c = [c]" "unescape_pattern (c # escapeUserDataToken s) = None"
      by (auto simp: escape_byte_def unescape_pattern_def Let_def)
    then show ?thesis using Cons.IH by (simp add: e unescapeUserDataToken.simps [of "c # _"])
  qed
qed

lemma escape_no_delimiter: "c \<in> {10, 124, 61, 59} \<Longrightarrow> c \<notin> set (escapeUserDataToken s)"
proof -
  assume "c \<in> {10, 124, 61, 59}"
  then have "c \<notin> set (escape_byte x)" for x by (auto simp: escape_byte_def)
  then show ?thesis by (simp add: escapeUserDataToken_def)
qed

lemma split_no_sep: "c \<notin> set xs \<Longrightarrow> split_on c xs = [xs]"
  by (induction xs) auto

lemma split_append_sep: "c \<notin> set xs \<Longrightarrow> split_on c (xs @ c # ys) = xs # split_on c ys"
  by (induction xs) auto

lemma split_join: "ps \<noteq> [] \<Longrightarrow> (\<And>p. p \<in> set ps \<Longrightarrow> c \<notin> set p) \<Longrightarrow> split_on c (join_with c ps) = ps"
proof (induction c ps rule: join_with.induct)
  case (2 c p)
  then show ?case by (simp add: split_no_sep)
next
  case (3 c p q ps)
  then have "split_on c (join_with c (q # ps)) = q # ps" by simp
  then show ?case using 3(3) [of p] by (simp add: split_append_sep)
qed simp

lemma decode_pair_encode: "decode_pair (encode_pair attrs k) m = AList.update k (case map_of attrs k of None \<Rightarrow> [] | Some v \<Rightarrow> v) m"
proof -
  let ?k = "escapeUserDataToken k"
  have "\<forall>c \<in> set ?k. c \<noteq> 61" using escape_no_delimiter [of 61 k] by auto
  then have t: "takeWhile (\<lambda>c. c \<noteq> 61) (encode_pair attrs k) = ?k" by (simp add: encode_pair_def)
  have "encode_pair attrs k \<noteq> []" "length (encode_pair attrs k) \<noteq> length ?k" by (simp_all add: encode_pair_def)
  then show ?thesis unfolding decode_pair_def Let_def t by (simp add: encode_pair_def unescape_escape)
qed

lemma fold_decode_pairs:
  "map_of (fold decode_pair (map (encode_pair attrs) ks) m)
   = (\<lambda>k. if k \<in> set ks then Some (case map_of attrs k of None \<Rightarrow> [] | Some v \<Rightarrow> v) else map_of m k)"
  by (induction ks arbitrary: m) (auto simp: decode_pair_encode AList.update_conv')

lemma encode_pair_no_sep: "59 \<notin> set (encode_pair attrs k)"
  using escape_no_delimiter [of 59] by (auto simp: encode_pair_def)

lemma decode_encode_attributes: "map_of (decodeFieldInfoAttributes (encodeFieldInfoAttributes attrs)) = map_of attrs"
proof (cases "attrs = []")
  case True
  then show ?thesis by (simp add: encodeFieldInfoAttributes_def decodeFieldInfoAttributes_def)
next
  case False
  let ?ps = "map (encode_pair attrs) (sort (map fst attrs))"
  have ne: "?ps \<noteq> []" using False by (metis length_0_conv length_map length_sort)
  have sp: "split_on 59 (join_with 59 ?ps) = ?ps" by (rule split_join [OF ne]) (auto simp: encode_pair_no_sep)
  have "join_with 59 ?ps \<noteq> []"
  proof
    assume "join_with 59 ?ps = []"
    then have "?ps = [[]]" using sp by simp
    then obtain k where "encode_pair attrs k = []" by auto
    then show False by (simp add: encode_pair_def)
  qed
  then have "decodeFieldInfoAttributes (encodeFieldInfoAttributes attrs) = fold decode_pair ?ps []"
    using False sp by (simp add: encodeFieldInfoAttributes_def decodeFieldInfoAttributes_def)
  moreover have "x \<in> fst ` set attrs \<longleftrightarrow> map_of attrs x \<noteq> None" for x by (simp add: map_of_eq_None_iff)
  ultimately show ?thesis by (simp add: fold_decode_pairs fun_eq_iff split: option.split)
qed

section \<open>The registry of field numbers\<close>

text \<open>The states that the operations of the registry reach, whatever they return.\<close>

inductive fn_reach :: "FieldNumbers \<Rightarrow> bool" where
  new: "NewFieldNumbers softName parentName = Ok fn \<Longrightarrow> fn_reach fn"
| add_or_get: "fn_reach fn \<Longrightarrow> AddOrGet fi fn = (res, fn') \<Longrightarrow> fn_reach fn'"
| dv_only: "fn_reach fn \<Longrightarrow> VerifyOrCreateDvOnlyField name dvType must fn = (res', fn') \<Longrightarrow> fn_reach fn'"
| clear: "fn_reach fn \<Longrightarrow> fn_reach (fn_Clear fn)"

text \<open>
  The two maps are inverse to each other, and the properties of an indexed field have the
  part that \<open>verifySameSchema\<close> dereferences.
\<close>

definition fn_wf :: "FieldNumbers \<Rightarrow> bool" where
  "fn_wf fn \<longleftrightarrow>
     (\<forall>n name. map_of (fn_numberToName fn) n = Some name
        \<longleftrightarrow> (\<exists>p. map_of (fn_fieldProps fn) name = Some p \<and> fp_number p = n))
   \<and> (\<forall>name p. map_of (fn_fieldProps fn) name = Some p \<longrightarrow> fp_indexOptions p \<noteq> IndexOptionsNone
        \<longrightarrow> fp_indexOptionsProps p \<noteq> None)"

lemma next_free_free: "map_of m (next_free m l) = None \<and> l < next_free m l"
proof (induction m l rule: next_free.induct)
  case (1 m l)
  show ?case
  proof (cases "map_of m (l + 1) = None")
    case True
    then show ?thesis by (simp add: next_free.simps [of m l])
  next
    case False
    then show ?thesis using 1 [OF False] by (simp add: next_free.simps [of m l])
  qed
qed

lemma verify_roles_cases: "verify_roles fi fn = Ok () \<or> (\<exists>p. verify_roles fi fn = Panic p)"
  by (simp add: verify_roles_def verifySoftDeletedFieldName_def verifyParentFieldName_def)

lemma verify_roles_frame [simp]:
  "verify_roles fi (fn\<lparr>fn_lowestUnassignedFieldNumber := l, fn_numberToName := m, fn_fieldProps := ps\<rparr>) = verify_roles fi fn"
  by (simp add: verify_roles_def verifySoftDeletedFieldName_def verifyParentFieldName_def)

lemma AddOrGet_cases:
  obtains (refused) p where "AddOrGet fi fn = (Panic p, fn)"
  | (known) props where "map_of (fn_fieldProps fn) (fi_name fi) = Some props" "verifySameSchema fi props = Ok ()"
      "AddOrGet fi fn = (Ok (fp_number props), fn)"
  | (fresh) n l where "map_of (fn_fieldProps fn) (fi_name fi) = None" "map_of (fn_numberToName fn) n = None"
      "fi_number fi \<noteq> - 1 \<Longrightarrow> map_of (fn_numberToName fn) (fi_number fi) = None \<Longrightarrow> n = fi_number fi"
      "AddOrGet fi fn = (Ok n, fn\<lparr>fn_lowestUnassignedFieldNumber := l,
         fn_numberToName := AList.update n (fi_name fi) (fn_numberToName fn),
         fn_fieldProps := AList.update (fi_name fi) (props_of n fi) (fn_fieldProps fn)\<rparr>)"
proof -
  let ?v = "verify_roles fi fn"
  have same: "verifySameSchema fi props = Ok () \<or> (\<exists>p. verifySameSchema fi props = Panic p)" for props
    by (auto simp: verifySameSchema_def Let_def split: option.splits)
  show thesis
  proof (cases "?v = Ok ()")
    case False
    then show thesis using verify_roles_cases [of fi fn] refused by (auto simp: AddOrGet_def Let_def)
  next
    case ok: True
    show thesis
    proof (cases "map_of (fn_fieldProps fn) (fi_name fi)")
      case (Some props)
      then show thesis using same [of props] ok known refused by (auto simp: AddOrGet_def Let_def)
    next
      case None
      let ?own = "fi_number fi \<noteq> - 1 \<and> map_of (fn_numberToName fn) (fi_number fi) = None"
      let ?n = "if ?own then fi_number fi else next_free (fn_numberToName fn) (fn_lowestUnassignedFieldNumber fn)"
      have n: "map_of (fn_numberToName fn) ?n = None" using next_free_free by simp
      have r: "AddOrGet fi fn = (Ok ?n, fn\<lparr>fn_lowestUnassignedFieldNumber := (if ?own then fn_lowestUnassignedFieldNumber fn else ?n),
          fn_numberToName := AList.update ?n (fi_name fi) (fn_numberToName fn),
          fn_fieldProps := AList.update (fi_name fi) (props_of ?n fi) (fn_fieldProps fn)\<rparr>)"
        unfolding AddOrGet_def Let_def ok None by simp
      show thesis by (rule fresh [OF None n _ r]) simp
    qed
  qed
qed

lemma fp_number_props_of [simp]: "fp_number (props_of n fi) = n"
  by (simp add: props_of_def Let_def)

lemma fn_wf_assign:
  assumes "fn_wf fn" "map_of (fn_fieldProps fn) (fi_name fi) = None" "map_of (fn_numberToName fn) n = None"
  shows "fn_wf (fn\<lparr>fn_lowestUnassignedFieldNumber := l, fn_numberToName := AList.update n (fi_name fi) (fn_numberToName fn),
    fn_fieldProps := AList.update (fi_name fi) (props_of n fi) (fn_fieldProps fn)\<rparr>)"
proof -
  let ?m = "(map_of (fn_numberToName fn))(n \<mapsto> fi_name fi)" and ?p = "(map_of (fn_fieldProps fn))(fi_name fi \<mapsto> props_of n fi)"
  have inv: "map_of (fn_numberToName fn) k = Some name \<longleftrightarrow> (\<exists>p. map_of (fn_fieldProps fn) name = Some p \<and> fp_number p = k)" for k name
    using assms(1) by (simp add: fn_wf_def)
  have "?m k = Some name \<longleftrightarrow> (\<exists>p. ?p name = Some p \<and> fp_number p = k)" for k name
  proof (cases "k = n")
    case True
    then show ?thesis using assms(3) inv [of n name] by auto
  next
    case False
    then show ?thesis using assms(2) inv [of k name] by auto
  qed
  moreover have "fp_indexOptionsProps (props_of n fi) \<noteq> None" if "fp_indexOptions (props_of n fi) \<noteq> IndexOptionsNone"
    using that by (simp add: props_of_def Let_def)
  ultimately show ?thesis using assms(1) by (auto simp: fn_wf_def AList.update_conv')
qed

lemma AddOrGet_wf: "fn_wf fn \<Longrightarrow> AddOrGet fi fn = (res, fn') \<Longrightarrow> fn_wf fn'"
  by (rule AddOrGet_cases [of fi fn]) (auto intro: fn_wf_assign)

lemma fn_reach_wf: "fn_reach fn \<Longrightarrow> fn_wf fn"
proof (induction rule: fn_reach.induct)
  case (new softName parentName fn)
  then show ?case by (auto simp: NewFieldNumbers_def fn_wf_def split: if_splits)
next
  case (add_or_get fn fi res fn')
  then show ?case using AddOrGet_wf by blast
next
  case (dv_only fn name dvType must res' fn')
  have "fn' = fn \<or> fn' = snd (AddOrGet (dv_only_info fn name dvType (- 1)) fn)"
    using dv_only.hyps(2)
    by (auto simp: VerifyOrCreateDvOnlyField_def bind_act_def ret_act_def split: option.splits if_splits outcome.splits prod.splits)
  then show ?case using dv_only.IH AddOrGet_wf prod.collapse by metis
next
  case (clear fn)
  then show ?case by (simp add: fn_Clear_def fn_wf_def)
qed

lemma verify_own_schema: "verifySameSchema fi (props_of n fi) = Ok ()"
  by (simp add: verifySameSchema_def props_of_def Let_def)

lemma AddOrGet_again:
  assumes "AddOrGet fi fn = (Ok n, fn')"
  shows "AddOrGet fi fn' = (Ok n, fn')"
proof (rule AddOrGet_cases [of fi fn])
  fix l k
  let ?fn = "fn\<lparr>fn_lowestUnassignedFieldNumber := l, fn_numberToName := AList.update k (fi_name fi) (fn_numberToName fn),
    fn_fieldProps := AList.update (fi_name fi) (props_of k fi) (fn_fieldProps fn)\<rparr>"
  assume "AddOrGet fi fn = (Ok k, ?fn)"
  then have k: "k = n" "fn' = ?fn" using assms by simp_all
  have "verify_roles fi fn = Ok ()"
    using assms verify_roles_cases [of fi fn] by (auto simp: AddOrGet_def Let_def)
  then show ?thesis by (simp add: k AddOrGet_def Let_def AList.update_conv' verify_own_schema)
qed (use assms in auto)

section \<open>What the builder does with attributes and payloads\<close>

text \<open>
  \<open>AddWithDvGen\<close> copies attributes with \<open>PutAttribute\<close> to a field that \<open>NewFieldInfo\<close> has already
  frozen: the first attribute panics, after the number was assigned.
\<close>

lemma builder_attribute_panics:
  assumes "map_of (ib_byName b) (fi_name fi) = None" "\<not> ib_finished b" "fi_attributes fi \<noteq> []"
    and "AddOrGet fi (ib_globalFieldNumbers b) = (Ok n, fn)"
  shows "ib_AddWithDvGen fi dvGen b = (Panic ''FieldInfo is immutable'', b\<lparr>ib_globalFieldNumbers := fn\<rparr>)"
  using assms by (cases "fi_attributes fi")
    (auto simp: ib_AddWithDvGen_def Let_def seq_act_def bind_act_def fi_PutAttribute_def NewFieldInfo_def)

text \<open>A field with payloads loses the flag when the builder sees it first, and keeps it when it is seen again.\<close>

lemma builder_drops_payloads:
  assumes "map_of (ib_byName b) (fi_name fi) = None" "\<not> ib_finished b" "fi_attributes fi = []"
    and "AddOrGet fi (ib_globalFieldNumbers b) = (Ok n, fn)"
  shows "\<exists>fiNew b'. ib_AddWithDvGen fi dvGen b = (Ok fiNew, b') \<and> \<not> fi_HasPayloads fiNew"
  using assms by (auto simp: ib_AddWithDvGen_def Let_def NewFieldInfo_def fi_HasPayloads_def ret_act_def)

text \<open>
  A field that \<open>VerifyOrCreateDvOnlyField\<close> creates is recorded with the zero vector encoding and
  no similarity, so adding the same field with the default options is refused.
\<close>

lemma dv_only_field_conflicts:
  assumes "map_of (fn_fieldProps fn) name = None" "name \<noteq> fn_softDeletesFieldName fn" "name \<noteq> fn_parentFieldName fn"
    and "VerifyOrCreateDvOnlyField name dvType False fn = (Ok (), fn')"
  shows "\<exists>p. fst (AddOrGet (NewFieldInfo name k (DefaultFieldInfoOptions\<lparr>op_DocValuesType := dvType\<rparr>)) fn') = Panic p"
proof -
  let ?d = "dv_only_info fn name dvType (- 1)"
  obtain n where n: "AddOrGet ?d fn = (Ok n, fn')"
    using assms(1,4) by (auto simp: VerifyOrCreateDvOnlyField_def bind_act_def ret_act_def split: outcome.splits prod.splits)
  have nm: "fi_name ?d = name" by (simp add: dv_only_info_def NewFieldInfo_def)
  show ?thesis
  proof (rule AddOrGet_cases [of ?d fn])
    fix m l
    let ?fn = "fn\<lparr>fn_lowestUnassignedFieldNumber := l, fn_numberToName := AList.update m (fi_name ?d) (fn_numberToName fn),
      fn_fieldProps := AList.update (fi_name ?d) (props_of m ?d) (fn_fieldProps fn)\<rparr>"
    assume "AddOrGet ?d fn = (Ok m, ?fn)"
    then have f: "fn' = ?fn" using n by simp
    let ?fi = "NewFieldInfo name k (DefaultFieldInfoOptions\<lparr>op_DocValuesType := dvType\<rparr>)"
    have "verify_roles ?fi fn' = Ok ()" using assms(2,3)
      by (simp add: f verify_roles_def verifySoftDeletedFieldName_def verifyParentFieldName_def NewFieldInfo_def corrected_def
          DefaultFieldInfoOptions_def zero_options_def Let_def)
    moreover have "verifySameSchema ?fi (props_of m ?d) = Panic ''inconsistent vector schema''"
      by (simp add: verifySameSchema_def props_of_def dv_only_info_def NewFieldInfo_def corrected_def DefaultFieldInfoOptions_def
          zero_options_def IsIndexed_def Let_def VectorEncodingFloat32_def)
    moreover have "fi_name ?fi = name" by (simp add: NewFieldInfo_def)
    ultimately show ?thesis by (simp add: AddOrGet_def Let_def f nm AList.update_conv')
  qed (use n assms(1) nm in auto)
qed

section \<open>Properties\<close>

text \<open>
  C33: In every state that the registry of field numbers reaches, assigning a number to a
  field makes the two maps agree on it, gives it a number that no other field has, changes
  no other field, and keeps the field's own number when that is free; asking again for the
  same field returns the same number and changes nothing.
\<close>

theorem field_numbers_registry:
  assumes "fn_reach fn" "AddOrGet fi fn = (Ok n, fn')"
  shows "map_of (fn_numberToName fn') n = Some (fi_name fi)
    \<and> (\<exists>p. map_of (fn_fieldProps fn') (fi_name fi) = Some p \<and> fp_number p = n)
    \<and> (\<forall>a b p q. map_of (fn_fieldProps fn') a = Some p \<longrightarrow> map_of (fn_fieldProps fn') b = Some q
         \<longrightarrow> fp_number p = fp_number q \<longrightarrow> a = b)
    \<and> (\<forall>a. a \<noteq> fi_name fi \<longrightarrow> map_of (fn_fieldProps fn') a = map_of (fn_fieldProps fn) a)
    \<and> (map_of (fn_fieldProps fn) (fi_name fi) = None \<longrightarrow> fi_number fi \<noteq> - 1
         \<longrightarrow> map_of (fn_numberToName fn) (fi_number fi) = None \<longrightarrow> n = fi_number fi)
    \<and> AddOrGet fi fn' = (Ok n, fn')"
proof -
  have w: "fn_wf fn" using assms(1) by (rule fn_reach_wf)
  have w': "fn_wf fn'" using w assms(2) by (rule AddOrGet_wf)
  have own: "\<exists>p. map_of (fn_fieldProps fn') (fi_name fi) = Some p \<and> fp_number p = n"
    by (rule AddOrGet_cases [of fi fn]) (use assms(2) in \<open>auto simp: AList.update_conv'\<close>)
  have inv: "map_of (fn_numberToName fn') k = Some a \<longleftrightarrow> (\<exists>p. map_of (fn_fieldProps fn') a = Some p \<and> fp_number p = k)" for k a
    using w' by (simp add: fn_wf_def)
  have inj: "a = b" if "map_of (fn_fieldProps fn') a = Some p" "map_of (fn_fieldProps fn') b = Some q" "fp_number p = fp_number q" for a b p q
    using that inv [of "fp_number p" a] inv [of "fp_number p" b] by auto
  have rest: "map_of (fn_fieldProps fn') a = map_of (fn_fieldProps fn) a" if "a \<noteq> fi_name fi" for a
    by (rule AddOrGet_cases [of fi fn]) (use assms(2) that in \<open>auto simp: AList.update_conv'\<close>)
  have keep: "n = fi_number fi" if "map_of (fn_fieldProps fn) (fi_name fi) = None" "fi_number fi \<noteq> - 1"
      "map_of (fn_numberToName fn) (fi_number fi) = None"
    by (rule AddOrGet_cases [of fi fn]) (use assms(2) that in auto)
  show ?thesis using own inv [of n "fi_name fi"] inj rest keep AddOrGet_again [OF assms(2)] by (intro conjI) blast+
qed

definition sample_numbers :: FieldNumbers where
  "sample_numbers = \<lparr>fn_numberToName = [], fn_fieldProps = [], fn_lowestUnassignedFieldNumber = - 1,
     fn_softDeletesFieldName = [], fn_parentFieldName = []\<rparr>"

theorem field_numbers_registry_witness:
  "map_of (fn_numberToName (snd (AddOrGet (NewFieldInfo [97] 3 DefaultFieldInfoOptions) sample_numbers))) 3 = Some [97]"
proof -
  let ?fi = "NewFieldInfo [97] 3 DefaultFieldInfoOptions"
  have r: "fn_reach sample_numbers"
    by (rule fn_reach.new [of "[]" "[]"]) (simp add: NewFieldNumbers_def sample_numbers_def)
  have n: "fi_name ?fi = [97]" "fi_number ?fi = 3" "op_IsSoftDeletesField (fi_opts ?fi) = False" "op_IsParentField (fi_opts ?fi) = False"
    by (simp_all add: NewFieldInfo_def corrected_def Let_def DefaultFieldInfoOptions_def zero_options_def)
  then have "fst (AddOrGet ?fi sample_numbers) = Ok 3"
    by (simp add: AddOrGet_def Let_def verify_roles_def verifySoftDeletedFieldName_def verifyParentFieldName_def sample_numbers_def)
  then have "AddOrGet ?fi sample_numbers = (Ok 3, snd (AddOrGet ?fi sample_numbers))" by (simp add: prod_eq_iff)
  from field_numbers_registry [OF r this] show ?thesis by (simp add: n)
qed

text \<open>
  C34: The attribute map of a field survives its encoding in the user data of a commit: decoding
  what \<open>encodeFieldInfoAttributes\<close> wrote gives the same map, whatever bytes keys and values
  hold, the delimiters included.
\<close>

theorem field_attributes_roundtrip:
  "map_of (decodeFieldInfoAttributes (encodeFieldInfoAttributes attrs)) = map_of attrs"
  by (rule decode_encode_attributes)

end
