(* ===== verification/Segment_Info.thy ===== *)
theory Segment_Info
  imports Field_Infos
begin

text \<open>
  One segment and one segment at a commit: \<^verbatim>\<open>spi/segment_info.go\<close>, \<^verbatim>\<open>spi/segment_commit_info.go\<close>
  and \<^verbatim>\<open>spi/segment_commit_info_generations.go\<close>.

  Segment lists hold pointers, several \<open>SegmentCommitInfo\<close> may share one \<open>SegmentInfo\<close> and one
  \<open>FieldInfos\<close>, and \<open>Clone\<close> decides what is shared; so all three live in an explicit store,
  \<open>seg_heap\<close>, and a pointer is an address in it.  A Go map is an association list and a set of names a list, both without
  duplicates; their order stands for the order in which Go happens to iterate.  A codec is
  known by its name.  The directory of a segment is only asked for the length of files,
  which is an argument here; the values of type \<open>any\<close> in a sort field, which nothing here
  reads, are left out, and the in-memory postings of a segment are an opaque reference.
\<close>

section \<open>SegmentInfo\<close>

record SortField =
  sf_Field :: gostring
  sf_Type :: int
  sf_Reverse :: bool
  sf_Selector :: gostring

type_synonym Sort = "SortField list"

record SegmentInfo =
  si_name :: gostring
  si_maxDoc :: int
  si_isCompoundFile :: bool
  si_id :: "u8 list"
  si_codec :: "gostring option"
  si_codecName :: gostring
  si_diagnostics :: "(gostring \<times> gostring) list"
  si_attributes :: "(gostring \<times> gostring) list"
  si_indexSort :: "Sort option"
  si_version :: gostring
  si_minVersion :: "gostring option"
  si_hasBlocks :: bool
  si_files :: "gostring list"

definition NewSegmentInfo :: "gostring \<Rightarrow> int \<Rightarrow> SegmentInfo" where
  "NewSegmentInfo name maxDoc =
     \<lparr>si_name = name, si_maxDoc = maxDoc, si_isCompoundFile = False, si_id = [], si_codec = None, si_codecName = [],
      si_diagnostics = [], si_attributes = [], si_indexSort = None, si_version = str ''10.0.0'', si_minVersion = None,
      si_hasBlocks = False, si_files = []\<rparr>"

definition si_MaxDoc :: "SegmentInfo \<Rightarrow> int outcome" where
  "si_MaxDoc si = (if si_maxDoc si = - 1 then Panic ''maxDoc isn't set yet'' else Ok (si_maxDoc si))"

definition si_SetMaxDoc :: "int \<Rightarrow> (SegmentInfo, unit) act" where
  "si_SetMaxDoc maxDoc si =
     (if si_maxDoc si \<noteq> - 1 \<and> si_maxDoc si \<noteq> maxDoc then (Panic ''maxDoc was already set'', si)
      else (Ok (), si\<lparr>si_maxDoc := maxDoc\<rparr>))"

definition si_SetDocCount :: "int \<Rightarrow> SegmentInfo \<Rightarrow> SegmentInfo" where
  "si_SetDocCount n si = si\<lparr>si_maxDoc := n\<rparr>"

definition si_SetFiles :: "gostring list \<Rightarrow> SegmentInfo \<Rightarrow> SegmentInfo" where
  "si_SetFiles files si = si\<lparr>si_files := sort files\<rparr>"

definition si_AddFile :: "gostring \<Rightarrow> SegmentInfo \<Rightarrow> SegmentInfo" where
  "si_AddFile file si = si\<lparr>si_files := sort (si_files si @ [file])\<rparr>"

definition si_HasFile :: "gostring \<Rightarrow> SegmentInfo \<Rightarrow> bool" where
  "si_HasFile file si \<longleftrightarrow> list_ex (\<lambda>f. f = file) (si_files si)"

definition si_MinVersion :: "SegmentInfo \<Rightarrow> gostring \<times> bool" where
  "si_MinVersion si = (case si_minVersion si of None \<Rightarrow> ([], False) | Some v \<Rightarrow> (v, True))"

definition si_SetMinVersion :: "gostring \<Rightarrow> SegmentInfo \<Rightarrow> SegmentInfo" where
  "si_SetMinVersion version si = si\<lparr>si_minVersion := (if version = [] then None else Some version)\<rparr>"

definition si_SetCodec :: "gostring option \<Rightarrow> (SegmentInfo, unit) act" where
  "si_SetCodec codec si =
     (case codec of None \<Rightarrow> (Panic ''codec must be non-null'', si)
      | Some name \<Rightarrow> (Ok (), si\<lparr>si_codec := Some name, si_codecName := name\<rparr>))"

definition si_CodecName :: "SegmentInfo \<Rightarrow> gostring" where
  "si_CodecName si = (case si_codec si of Some name \<Rightarrow> name | None \<Rightarrow> si_codecName si)"

definition si_AddDiagnostics :: "(gostring \<times> gostring) list \<Rightarrow> SegmentInfo \<Rightarrow> SegmentInfo" where
  "si_AddDiagnostics diagnostics si =
     si\<lparr>si_diagnostics := fold (\<lambda>(k, v). AList.update k v) diagnostics (si_diagnostics si)\<rparr>"

definition si_SetDiagnostic :: "gostring \<Rightarrow> gostring \<Rightarrow> SegmentInfo \<Rightarrow> SegmentInfo" where
  "si_SetDiagnostic key v si = si\<lparr>si_diagnostics := AList.update key v (si_diagnostics si)\<rparr>"

definition go_lookup :: "(gostring \<times> gostring) list \<Rightarrow> gostring \<Rightarrow> gostring" where
  "go_lookup m key = (case map_of m key of None \<Rightarrow> [] | Some v \<Rightarrow> v)"

definition si_PutAttribute :: "gostring \<Rightarrow> gostring \<Rightarrow> SegmentInfo \<Rightarrow> gostring \<times> SegmentInfo" where
  "si_PutAttribute key v si =
     (go_lookup (si_attributes si) key, si\<lparr>si_attributes := AList.update key v (si_attributes si)\<rparr>)"

definition si_SetID :: "u8 list \<Rightarrow> (SegmentInfo, unit) act" where
  "si_SetID iid si =
     (if length iid \<noteq> 16 then (Err (Errorf ''invalid id length''), si) else (Ok (), si\<lparr>si_id := iid\<rparr>))"

definition si_GetGeneration :: "SegmentInfo \<Rightarrow> i64" where
  "si_GetGeneration si =
     (case si_name si of c # d # cs \<Rightarrow> if c = 95 then Sscanf_gen (d # cs) else 0 | _ \<Rightarrow> 0)"

fun sort_description :: "bool \<Rightarrow> SortField list \<Rightarrow> gostring" where
  "sort_description first [] = []"
| "sort_description first (f # fs) =
     (if first then [] else str '', '') @ sf_Field f @ (if sf_Reverse f then str '' DESC'' else str '' ASC'')
     @ sort_description False fs"

definition si_GetIndexSortDescription :: "SegmentInfo \<Rightarrow> gostring" where
  "si_GetIndexSortDescription si =
     (case si_indexSort si of None \<Rightarrow> str ''<not sorted>''
      | Some sfs \<Rightarrow> if sfs = [] then str ''<not sorted>'' else sort_description True sfs)"

definition si_Clone :: "SegmentInfo \<Rightarrow> SegmentInfo" where
  "si_Clone si = si"

text \<open>The merged segments are recorded under \<open>sourceSegment0\<close>, \<open>sourceSegment1\<close>, and so on.\<close>

fun source_segments :: "nat \<Rightarrow> SegmentInfo list \<Rightarrow> SegmentInfo \<Rightarrow> SegmentInfo" where
  "source_segments i [] si = si"
| "source_segments i (seg # segs) si =
     source_segments (i + 1) segs (si_SetDiagnostic (str ''sourceSegment'' @ format_int 10 (int i)) (si_name seg) si)"

definition si_AddDiagnosticsFromMerge :: "gostring \<Rightarrow> SegmentInfo list \<Rightarrow> SegmentInfo \<Rightarrow> SegmentInfo" where
  "si_AddDiagnosticsFromMerge now mergedSegments si =
     source_segments 0 mergedSegments
       (si_SetDiagnostic (str ''mergedSegmentCount'') (format_int 10 (int (length mergedSegments)))
       (si_SetDiagnostic (str ''mergeTime'') now
       (si_SetDiagnostic (str ''merge'') (str ''true'') si)))"

text \<open>A file whose length cannot be read counts for nothing.\<close>

definition si_SizeInBytes :: "(gostring \<Rightarrow> i64 outcome) \<Rightarrow> SegmentInfo \<Rightarrow> i64" where
  "si_SizeInBytes fileLength si =
     fold (\<lambda>file size. case fileLength file of Ok n \<Rightarrow> size + n | _ \<Rightarrow> size) (si_files si) 0"

section \<open>SegmentCommitInfo\<close>

text \<open>
  \<open>sci_Info\<close> is the address of the segment and \<open>sci_inMemoryFieldInfos\<close> that of its fields; a nil
  id is the empty one.
\<close>

record SegmentCommitInfo =
  sci_Info :: nat
  sci_delCount :: int
  sci_softDelCount :: int
  sci_delGen :: i64
  sci_fieldInfosGen :: i64
  sci_docValuesGen :: i64
  sci_attributes :: "(gostring \<times> gostring) list"
  sci_fieldInfosFiles :: "gostring list"
  sci_docValuesUpdatesFiles :: "(int \<times> gostring list) list"
  sci_id :: "u8 list"
  sci_inMemoryFieldInfos :: "nat option"
  sci_inMemoryFields :: "nat option"
  sci_deletedOrdinals :: "int list"
  sci_nextWriteDelGen :: i64
  sci_nextWriteFieldInfosGen :: i64
  sci_nextWriteDocValuesGen :: i64
  sci_bufferedDeletesGen :: i64
  sci_sizeInBytes :: i64

record seg_heap =
  h_infos :: "SegmentInfo list"
  h_scis :: "SegmentCommitInfo list"
  h_fieldInfos :: "FieldInfos list"

definition sci_at :: "seg_heap \<Rightarrow> nat \<Rightarrow> SegmentCommitInfo" where "sci_at h p = h_scis h ! p"
definition info_of :: "seg_heap \<Rightarrow> nat \<Rightarrow> SegmentInfo" where "info_of h p = h_infos h ! sci_Info (sci_at h p)"

definition set_sci :: "nat \<Rightarrow> (SegmentCommitInfo \<Rightarrow> SegmentCommitInfo) \<Rightarrow> seg_heap \<Rightarrow> seg_heap" where
  "set_sci p f h = h\<lparr>h_scis := (h_scis h)[p := f (h_scis h ! p)]\<rparr>"

definition set_info :: "nat \<Rightarrow> (SegmentInfo \<Rightarrow> SegmentInfo) \<Rightarrow> seg_heap \<Rightarrow> seg_heap" where
  "set_info q f h = h\<lparr>h_infos := (h_infos h)[q := f (h_infos h ! q)]\<rparr>"

text \<open>What a commit info shows of its fields, and a change of the fields through their pointer.\<close>

definition sci_GetInMemoryFieldInfos :: "seg_heap \<Rightarrow> nat \<Rightarrow> FieldInfos option" where
  "sci_GetInMemoryFieldInfos h p = map_option (\<lambda>r. h_fieldInfos h ! r) (sci_inMemoryFieldInfos (sci_at h p))"

definition sci_SetInMemoryFieldInfos :: "nat option \<Rightarrow> SegmentCommitInfo \<Rightarrow> SegmentCommitInfo" where
  "sci_SetInMemoryFieldInfos fi sci = sci\<lparr>sci_inMemoryFieldInfos := fi\<rparr>"

definition set_field_infos :: "nat \<Rightarrow> (FieldInfos \<Rightarrow> FieldInfos) \<Rightarrow> seg_heap \<Rightarrow> seg_heap" where
  "set_field_infos r f h = h\<lparr>h_fieldInfos := (h_fieldInfos h)[r := f (h_fieldInfos h ! r)]\<rparr>"

definition new_field_infos :: "FieldInfos \<Rightarrow> seg_heap \<Rightarrow> nat \<times> seg_heap" where
  "new_field_infos fis h = (length (h_fieldInfos h), h\<lparr>h_fieldInfos := h_fieldInfos h @ [fis]\<rparr>)"

definition new_sci :: "SegmentCommitInfo \<Rightarrow> seg_heap \<Rightarrow> nat \<times> seg_heap" where
  "new_sci sci h = (length (h_scis h), h\<lparr>h_scis := h_scis h @ [sci]\<rparr>)"

definition new_info :: "SegmentInfo \<Rightarrow> seg_heap \<Rightarrow> nat \<times> seg_heap" where
  "new_info si h = (length (h_infos h), h\<lparr>h_infos := h_infos h @ [si]\<rparr>)"

definition nextGen :: "i64 \<Rightarrow> i64" where
  "nextGen gen = (if gen = - 1 then 1 else gen + 1)"

definition NewSegmentCommitInfo :: "nat \<Rightarrow> int \<Rightarrow> i64 \<Rightarrow> SegmentCommitInfo" where
  "NewSegmentCommitInfo segmentInfo delCount delGen =
     \<lparr>sci_Info = segmentInfo, sci_delCount = delCount, sci_softDelCount = 0, sci_delGen = delGen, sci_fieldInfosGen = - 1,
      sci_docValuesGen = - 1, sci_attributes = [], sci_fieldInfosFiles = [], sci_docValuesUpdatesFiles = [], sci_id = [],
      sci_inMemoryFieldInfos = None, sci_inMemoryFields = None, sci_deletedOrdinals = [],
      sci_nextWriteDelGen = nextGen delGen, sci_nextWriteFieldInfosGen = nextGen (- 1),
      sci_nextWriteDocValuesGen = nextGen (- 1), sci_bufferedDeletesGen = - 1, sci_sizeInBytes = - 1\<rparr>"

definition sci_IncrDelCount :: "int \<Rightarrow> SegmentCommitInfo \<Rightarrow> SegmentCommitInfo" where
  "sci_IncrDelCount delta sci = sci\<lparr>sci_delCount := sci_delCount sci + delta\<rparr>"

definition sci_HasDeletions :: "SegmentCommitInfo \<Rightarrow> bool" where
  "sci_HasDeletions sci \<longleftrightarrow> 0 \<le> sint (sci_delGen sci) \<or> sci_deletedOrdinals sci \<noteq> []"

definition sci_HasFieldInfosGen :: "SegmentCommitInfo \<Rightarrow> bool" where
  "sci_HasFieldInfosGen sci \<longleftrightarrow> 0 \<le> sint (sci_fieldInfosGen sci)"

definition sci_HasDocValuesGen :: "SegmentCommitInfo \<Rightarrow> bool" where
  "sci_HasDocValuesGen sci \<longleftrightarrow> 0 \<le> sint (sci_docValuesGen sci)"

definition sci_HasFieldUpdates :: "SegmentCommitInfo \<Rightarrow> bool" where
  "sci_HasFieldUpdates sci \<longleftrightarrow> sci_docValuesGen sci \<noteq> - 1"

definition sci_SetAttribute :: "gostring \<Rightarrow> gostring \<Rightarrow> SegmentCommitInfo \<Rightarrow> SegmentCommitInfo" where
  "sci_SetAttribute key v sci = sci\<lparr>sci_attributes := AList.update key v (sci_attributes sci)\<rparr>"

definition sci_SetBufferedDeletesGen :: "i64 \<Rightarrow> SegmentCommitInfo \<Rightarrow> SegmentCommitInfo" where
  "sci_SetBufferedDeletesGen v sci =
     (if sci_bufferedDeletesGen sci = - 1 then sci\<lparr>sci_bufferedDeletesGen := v, sci_sizeInBytes := - 1\<rparr> else sci)"

definition advance_gen :: "i64 \<Rightarrow> i64" where
  "advance_gen gen = (if sint gen < 0 then 1 else gen + 1)"

definition sci_AdvanceDelGen :: "SegmentCommitInfo \<Rightarrow> i64 \<times> SegmentCommitInfo" where
  "sci_AdvanceDelGen sci = (let g = advance_gen (sci_delGen sci) in (g, sci\<lparr>sci_delGen := g\<rparr>))"

definition sci_AdvanceFieldInfosGen :: "SegmentCommitInfo \<Rightarrow> i64 \<times> SegmentCommitInfo" where
  "sci_AdvanceFieldInfosGen sci = (let g = advance_gen (sci_fieldInfosGen sci) in (g, sci\<lparr>sci_fieldInfosGen := g\<rparr>))"

definition sci_AdvanceDocValuesGen :: "SegmentCommitInfo \<Rightarrow> i64 \<times> SegmentCommitInfo" where
  "sci_AdvanceDocValuesGen sci = (let g = advance_gen (sci_docValuesGen sci) in (g, sci\<lparr>sci_docValuesGen := g\<rparr>))"

definition sci_AdvanceNextWriteDelGen :: "SegmentCommitInfo \<Rightarrow> SegmentCommitInfo" where
  "sci_AdvanceNextWriteDelGen sci = sci\<lparr>sci_nextWriteDelGen := sci_nextWriteDelGen sci + 1\<rparr>"

definition sci_AdvanceNextWriteFieldInfosGen :: "SegmentCommitInfo \<Rightarrow> SegmentCommitInfo" where
  "sci_AdvanceNextWriteFieldInfosGen sci = sci\<lparr>sci_nextWriteFieldInfosGen := sci_nextWriteFieldInfosGen sci + 1\<rparr>"

definition sci_AdvanceNextWriteDocValuesGen :: "SegmentCommitInfo \<Rightarrow> SegmentCommitInfo" where
  "sci_AdvanceNextWriteDocValuesGen sci = sci\<lparr>sci_nextWriteDocValuesGen := sci_nextWriteDocValuesGen sci + 1\<rparr>"

text \<open>
  The composite literal of \<open>Clone\<close> copies the pointers to the segment, to its fields and to its
  in-memory postings, copies maps and slices, and leaves the last five fields at their zero
  value.
\<close>

definition sci_Clone :: "SegmentCommitInfo \<Rightarrow> SegmentCommitInfo" where
  "sci_Clone sci = sci\<lparr>sci_nextWriteDelGen := 0, sci_nextWriteFieldInfosGen := 0, sci_nextWriteDocValuesGen := 0,
     sci_bufferedDeletesGen := 0, sci_sizeInBytes := 0\<rparr>"

subsection \<open>What a commit info takes from its segment\<close>

definition sci_Name :: "seg_heap \<Rightarrow> nat \<Rightarrow> gostring" where
  "sci_Name h p = si_name (info_of h p)"

definition sci_DocCount :: "seg_heap \<Rightarrow> nat \<Rightarrow> int outcome" where
  "sci_DocCount h p = si_MaxDoc (info_of h p)"

definition sci_NumDocs :: "seg_heap \<Rightarrow> nat \<Rightarrow> int outcome" where
  "sci_NumDocs h p = bind_out (si_MaxDoc (info_of h p)) (\<lambda>m.
     Ok (m - sci_delCount (sci_at h p) - sci_softDelCount (sci_at h p)))"

definition sci_GetGeneration :: "seg_heap \<Rightarrow> nat \<Rightarrow> i64" where
  "sci_GetGeneration h p = si_GetGeneration (info_of h p)"

text \<open>\<open>fmt.Sprintf("_%s_%d.ext", name[1:], gen)\<close>; slicing an empty name panics.\<close>

definition gen_file :: "gostring \<Rightarrow> i64 \<Rightarrow> gostring \<Rightarrow> gostring outcome" where
  "gen_file name gen ext =
     bind_out (subslice name 1 (int (length name))) (\<lambda>tail.
       Ok (95 # tail @ [95] @ format_int 10 (sint gen) @ [46] @ ext))"

definition gen_file_name :: "gostring \<Rightarrow> i64 \<Rightarrow> gostring \<Rightarrow> gostring outcome" where
  "gen_file_name name gen ext = (if sint gen < 0 then Ok [] else gen_file name gen ext)"

definition sci_GetDelFileName :: "seg_heap \<Rightarrow> nat \<Rightarrow> gostring outcome" where
  "sci_GetDelFileName h p = gen_file_name (sci_Name h p) (sci_delGen (sci_at h p)) (str ''del'')"

definition sci_GetFieldInfosFileName :: "seg_heap \<Rightarrow> nat \<Rightarrow> gostring outcome" where
  "sci_GetFieldInfosFileName h p = gen_file_name (sci_Name h p) (sci_fieldInfosGen (sci_at h p)) (str ''fnm'')"

definition sci_GetDocValuesFileName :: "seg_heap \<Rightarrow> nat \<Rightarrow> gostring outcome" where
  "sci_GetDocValuesFileName h p = gen_file_name (sci_Name h p) (sci_docValuesGen (sci_at h p)) (str ''dvd'')"

text \<open>The closure \<open>add\<close>: a name is appended unless it was seen.\<close>

definition add_new :: "gostring \<Rightarrow> gostring list \<Rightarrow> gostring list" where
  "add_new name out = (if name \<in> set out then out else out @ [name])"

definition add_gen_file :: "gostring \<Rightarrow> i64 \<Rightarrow> gostring \<Rightarrow> gostring list \<Rightarrow> gostring list outcome" where
  "add_gen_file name gen ext out =
     (if 0 \<le> sint gen then bind_out (gen_file name gen ext) (\<lambda>f. Ok (add_new f out)) else Ok out)"

definition sci_GetFiles :: "seg_heap \<Rightarrow> nat \<Rightarrow> gostring list outcome" where
  "sci_GetFiles h p = (let sci = sci_at h p; name = sci_Name h p in
     bind_out (add_gen_file name (sci_delGen sci) (str ''liv'') (fold add_new (si_files (info_of h p)) [])) (\<lambda>o1.
     bind_out (add_gen_file name (sci_fieldInfosGen sci) (str ''fnm'') o1) (\<lambda>o2.
     bind_out (add_gen_file name (sci_docValuesGen sci) (str ''dvd'') o2) (\<lambda>o3.
       Ok (fold add_new (concat (map snd (sci_docValuesUpdatesFiles sci))) (fold add_new (sci_fieldInfosFiles sci) o3))))))"

fun sum_lengths :: "(gostring \<Rightarrow> i64 outcome) \<Rightarrow> gostring list \<Rightarrow> i64 \<Rightarrow> i64 outcome" where
  "sum_lengths fileLength [] tot = Ok tot"
| "sum_lengths fileLength (name # names) tot =
     bind_out (fileLength name) (\<lambda>n. sum_lengths fileLength names (tot + n))"

definition sci_SizeInBytes :: "(gostring \<Rightarrow> i64 outcome) \<Rightarrow> nat \<Rightarrow> (seg_heap, i64) act" where
  "sci_SizeInBytes fileLength p h =
     (let cached = sci_sizeInBytes (sci_at h p)
      in if cached \<noteq> - 1 then (Ok cached, h)
         else case bind_out (sci_GetFiles h p) (\<lambda>files. sum_lengths fileLength files 0) of
                Ok tot \<Rightarrow> (Ok tot, set_sci p (\<lambda>sci. sci\<lparr>sci_sizeInBytes := tot\<rparr>) h)
              | Err e \<Rightarrow> (Err e, h) | Panic q \<Rightarrow> (Panic q, h))"

section \<open>Lists of commit infos\<close>

fun sum_out :: "int outcome list \<Rightarrow> int outcome" where
  "sum_out [] = Ok 0"
| "sum_out (x # xs) = bind_out x (\<lambda>a. bind_out (sum_out xs) (\<lambda>b. Ok (a + b)))"

definition TotalDocCount :: "seg_heap \<Rightarrow> nat list \<Rightarrow> int outcome" where
  "TotalDocCount h ps = sum_out (map (sci_DocCount h) ps)"

definition TotalNumDocs :: "seg_heap \<Rightarrow> nat list \<Rightarrow> int outcome" where
  "TotalNumDocs h ps = sum_out (map (sci_NumDocs h) ps)"

definition TotalDelCount :: "seg_heap \<Rightarrow> nat list \<Rightarrow> int" where
  "TotalDelCount h ps = (\<Sum>p\<leftarrow>ps. sci_delCount (sci_at h p))"

section \<open>What a clone loses\<close>

text \<open>A cloned commit info reports size zero without looking at its files.\<close>

lemma clone_size_zero:
  assumes "p < length (h_scis h)" "new_sci (sci_Clone (sci_at h p)) h = (q, h')"
  shows "sci_SizeInBytes fileLength q h' = (Ok 0, h')"
  using assms by (auto simp: new_sci_def sci_SizeInBytes_def sci_at_def sci_Clone_def)

text \<open>It also ignores the generation of buffered deletes, and writes its next live-docs file under generation 0.\<close>

lemma clone_generations:
  "sci_SetBufferedDeletesGen v (sci_Clone sci) = sci_Clone sci" "sci_nextWriteDelGen (sci_Clone sci) = 0"
  by (simp_all add: sci_SetBufferedDeletesGen_def sci_Clone_def)

end
