(* ===== verification/Segment_Infos.thy ===== *)
theory Segment_Infos
  imports Segment_Info
begin

text \<open>
  \<^verbatim>\<open>spi/segment_infos.go\<close> without its file format: the list of segments of an index with its
  counters, the names of segments and of commit files, copies of the list and the change
  that a merge makes.  The locks of the source guard each operation as a whole and are left
  out; an operation is one step.

  The list holds addresses of \<open>SegmentCommitInfo\<close> objects in \<open>seg_heap\<close>, so that identity,
  sharing and deep copies mean what they mean in Go.
\<close>

section \<open>State\<close>

record SegmentInfos =
  sis_segments :: "nat list"
  sis_generation :: i64
  sis_lastGeneration :: i64
  sis_version :: i64
  sis_luceneVersion :: gostring
  sis_indexCreatedVersionMajor :: i32
  sis_counter :: i64
  sis_userData :: "gostring \<rightharpoonup> gostring"
  sis_inMemoryParentField :: gostring
  sis_inMemoryIndexSort :: "Sort option"
  sis_pendingCommit :: bool

definition Latest_Major :: i32 where "Latest_Major = 10"

definition NewSegmentInfosWithCreatedVersionMajor :: "i32 \<Rightarrow> SegmentInfos outcome" where
  "NewSegmentInfosWithCreatedVersionMajor indexCreatedVersionMajor =
     (if sint indexCreatedVersionMajor > sint Latest_Major then Panic ''indexCreatedVersionMajor is in the future''
      else if sint indexCreatedVersionMajor < 6 then Panic ''indexCreatedVersionMajor must be >= 6''
      else Ok \<lparr>sis_segments = [], sis_generation = 0, sis_lastGeneration = 0, sis_version = 0,
               sis_luceneVersion = str ''10.0.0'', sis_indexCreatedVersionMajor = indexCreatedVersionMajor, sis_counter = 0,
               sis_userData = Map.empty, sis_inMemoryParentField = [], sis_inMemoryIndexSort = None, sis_pendingCommit = False\<rparr>)"

definition NewSegmentInfos :: "SegmentInfos outcome" where
  "NewSegmentInfos = NewSegmentInfosWithCreatedVersionMajor Latest_Major"

section \<open>The list\<close>

definition sis_Size :: "SegmentInfos \<Rightarrow> int" where "sis_Size si = int (length (sis_segments si))"

definition sis_TotalMaxDoc :: "seg_heap \<Rightarrow> SegmentInfos \<Rightarrow> int outcome" where
  "sis_TotalMaxDoc h si = sum_out (map (sci_DocCount h) (sis_segments si))"

definition sis_Get :: "int \<Rightarrow> SegmentInfos \<Rightarrow> nat option" where
  "sis_Get i si = (if i < 0 \<or> i \<ge> int (length (sis_segments si)) then None else Some (sis_segments si ! nat i))"

definition sis_Add :: "nat \<Rightarrow> SegmentInfos \<Rightarrow> SegmentInfos" where
  "sis_Add sci si = si\<lparr>sis_segments := sis_segments si @ [sci]\<rparr>"

text \<open>\<open>Insert\<close> appends a cell, moves the tail one place up and stores the new element.\<close>

definition sis_Insert :: "int \<Rightarrow> nat \<Rightarrow> SegmentInfos \<Rightarrow> SegmentInfos" where
  "sis_Insert i sci si =
     (if i < 0 \<or> i > int (length (sis_segments si)) then si
      else si\<lparr>sis_segments := take (nat i) (sis_segments si) @ sci # drop (nat i) (sis_segments si)\<rparr>)"

definition sis_Remove :: "int \<Rightarrow> SegmentInfos \<Rightarrow> nat option \<times> SegmentInfos" where
  "sis_Remove i si =
     (if i < 0 \<or> i \<ge> int (length (sis_segments si)) then (None, si)
      else (Some (sis_segments si ! nat i),
            si\<lparr>sis_segments := take (nat i) (sis_segments si) @ drop (nat i + 1) (sis_segments si)\<rparr>))"

definition sis_Clear :: "SegmentInfos \<Rightarrow> SegmentInfos" where "sis_Clear si = si\<lparr>sis_segments := []\<rparr>"

definition sis_Contains :: "nat \<Rightarrow> SegmentInfos \<Rightarrow> bool" where
  "sis_Contains sci si \<longleftrightarrow> list_ex (\<lambda>s. s = sci) (sis_segments si)"

fun index_from :: "int \<Rightarrow> nat \<Rightarrow> nat list \<Rightarrow> int" where
  "index_from i sci [] = - 1"
| "index_from i sci (s # ss) = (if s = sci then i else index_from (i + 1) sci ss)"

definition sis_IndexOf :: "nat \<Rightarrow> SegmentInfos \<Rightarrow> int" where
  "sis_IndexOf sci si = index_from 0 sci (sis_segments si)"

definition sis_RemoveByName :: "seg_heap \<Rightarrow> gostring \<Rightarrow> SegmentInfos \<Rightarrow> int \<times> SegmentInfos" where
  "sis_RemoveByName h name si =
     (let newList = filter (\<lambda>s. sci_Name h s \<noteq> name) (sis_segments si)
      in (int (length (filter (\<lambda>s. sci_Name h s = name) (sis_segments si))), si\<lparr>sis_segments := newList\<rparr>))"

text \<open>Go promises no order among equal names; a stable order is taken.\<close>

definition sis_SortByName :: "seg_heap \<Rightarrow> SegmentInfos \<Rightarrow> SegmentInfos" where
  "sis_SortByName h si = si\<lparr>sis_segments := sort_key (sci_Name h) (sis_segments si)\<rparr>"

section \<open>Generations, versions and names\<close>

definition sis_NextGeneration :: "SegmentInfos \<Rightarrow> i64 \<times> SegmentInfos" where
  "sis_NextGeneration si = (let g = sis_generation si + 1 in (g, si\<lparr>sis_generation := g\<rparr>))"

definition sis_GetNextSegmentName :: "SegmentInfos \<Rightarrow> gostring \<times> SegmentInfos" where
  "sis_GetNextSegmentName si =
     (95 # format_int 10 (sint (sis_counter si)), si\<lparr>sis_counter := sis_counter si + 1\<rparr>)"

definition GetSegmentsFileName :: "i64 \<Rightarrow> gostring" where
  "GetSegmentsFileName generation =
     (if sint generation < 0 then [] else str ''segments_'' @ FormatInt generation 36)"

definition sis_GetFileName :: "SegmentInfos \<Rightarrow> gostring" where
  "sis_GetFileName si = GetSegmentsFileName (sis_generation si)"

definition sis_GetLastFileName :: "SegmentInfos \<Rightarrow> gostring" where
  "sis_GetLastFileName si = GetSegmentsFileName (sis_lastGeneration si)"

definition pendingSegmentsFileName :: "i64 \<Rightarrow> gostring" where
  "pendingSegmentsFileName generation = str ''pending_segments_'' @ FormatInt generation 36"

definition segmentsFileNameFromGeneration :: "i64 \<Rightarrow> gostring" where
  "segmentsFileNameFromGeneration gen = (if gen = 0 then str ''segments'' else str ''segments_'' @ FormatInt gen 36)"

definition file_generation :: "gostring \<Rightarrow> i64 option" where
  "file_generation file =
     (if HasPrefix file (str ''segments'') \<and> \<not> HasPrefix file (str ''segments.gen'')
      then if file = str ''segments'' then Some 0
           else if HasPrefix file (str ''segments_'') then ParseInt (drop 9 file) 36
           else None
      else None)"

definition GetLastCommitGeneration :: "gostring list \<Rightarrow> i64" where
  "GetLastCommitGeneration files =
     fold (\<lambda>file mx. case file_generation file of None \<Rightarrow> mx
             | Some gen \<Rightarrow> if sint gen > sint mx then gen else mx) files (- 1)"

definition GetLastCommitSegmentsFileName :: "gostring list \<Rightarrow> gostring" where
  "GetLastCommitSegmentsFileName files =
     (let gen = GetLastCommitGeneration files in if sint gen < 0 then [] else segmentsFileNameFromGeneration gen)"

definition sis_Changed :: "SegmentInfos \<Rightarrow> SegmentInfos" where
  "sis_Changed si = si\<lparr>sis_version := sis_version si + 1\<rparr>"

definition sis_UpdateFromFlush :: "SegmentInfos \<Rightarrow> SegmentInfos" where
  "sis_UpdateFromFlush si = si\<lparr>sis_version := sis_version si + 1\<rparr>"

definition sis_UpdateGeneration :: "SegmentInfos \<Rightarrow> SegmentInfos \<Rightarrow> SegmentInfos" where
  "sis_UpdateGeneration other si = si\<lparr>sis_lastGeneration := sis_lastGeneration other, sis_generation := sis_generation other\<rparr>"

definition sis_UpdateGenerationVersionAndCounter :: "SegmentInfos \<Rightarrow> SegmentInfos \<Rightarrow> SegmentInfos" where
  "sis_UpdateGenerationVersionAndCounter other si =
     (sis_UpdateGeneration other si)\<lparr>sis_version := sis_version other, sis_counter := sis_counter other\<rparr>"

definition sis_GetMaxSegmentName :: "seg_heap \<Rightarrow> SegmentInfos \<Rightarrow> gostring" where
  "sis_GetMaxSegmentName h si = fold (\<lambda>s mx. if sci_Name h s > mx then sci_Name h s else mx) (sis_segments si) []"

definition sis_UpdateCounterFromSegments :: "seg_heap \<Rightarrow> SegmentInfos \<Rightarrow> SegmentInfos" where
  "sis_UpdateCounterFromSegments h si =
     si\<lparr>sis_counter := fold (\<lambda>s mx. if sint (sci_GetGeneration h s) > sint mx then sci_GetGeneration h s else mx)
                            (sis_segments si) 0 + 1\<rparr>"

definition sis_SetUserDataValue :: "gostring \<Rightarrow> gostring \<Rightarrow> SegmentInfos \<Rightarrow> SegmentInfos" where
  "sis_SetUserDataValue key v si = si\<lparr>sis_userData := (sis_userData si)(key \<mapsto> v)\<rparr>"

definition sis_GetUserDataValue :: "gostring \<Rightarrow> SegmentInfos \<Rightarrow> gostring" where
  "sis_GetUserDataValue key si = (case sis_userData si key of None \<Rightarrow> [] | Some v \<Rightarrow> v)"

section \<open>Files\<close>

fun add_files :: "seg_heap \<Rightarrow> nat list \<Rightarrow> gostring list \<Rightarrow> gostring list outcome" where
  "add_files h [] out = Ok out"
| "add_files h (s # ss) out = bind_out (sci_GetFiles h s) (\<lambda>fs. add_files h ss (fold add_new fs out))"

definition sis_Files :: "seg_heap \<Rightarrow> bool \<Rightarrow> SegmentInfos \<Rightarrow> gostring list outcome" where
  "sis_Files h includeSegmentsFile si =
     add_files h (sis_segments si)
       (if includeSegmentsFile
        then let segmentFileName = GetSegmentsFileName (sis_lastGeneration si)
             in if segmentFileName \<noteq> [] then [segmentFileName] else []
        else [])"

section \<open>Copies\<close>

fun clone_all :: "nat list \<Rightarrow> seg_heap \<Rightarrow> nat list \<times> seg_heap" where
  "clone_all [] h = ([], h)"
| "clone_all (s # ss) h =
     (case new_sci (sci_Clone (sci_at h s)) h of (q, h1) \<Rightarrow> case clone_all ss h1 of (qs, h2) \<Rightarrow> (q # qs, h2))"

definition sis_Clone :: "SegmentInfos \<Rightarrow> seg_heap \<Rightarrow> SegmentInfos \<times> seg_heap" where
  "sis_Clone si h = (case clone_all (sis_segments si) h of (qs, h') \<Rightarrow> (si\<lparr>sis_segments := qs\<rparr>, h'))"

definition sis_Replace :: "SegmentInfos \<Rightarrow> SegmentInfos \<Rightarrow> seg_heap \<Rightarrow> SegmentInfos \<times> seg_heap" where
  "sis_Replace other si h = (case clone_all (sis_segments other) h of (qs, h') \<Rightarrow>
     (si\<lparr>sis_segments := qs, sis_lastGeneration := sis_lastGeneration other, sis_userData := sis_userData other\<rparr>, h'))"

definition sis_CreateBackupSegmentInfos :: "SegmentInfos \<Rightarrow> seg_heap \<Rightarrow> nat list \<times> seg_heap" where
  "sis_CreateBackupSegmentInfos si h = clone_all (sis_segments si) h"

definition sis_RollbackSegmentInfos :: "nat list \<Rightarrow> SegmentInfos \<Rightarrow> seg_heap \<Rightarrow> SegmentInfos \<times> seg_heap" where
  "sis_RollbackSegmentInfos infos si h = (case clone_all infos h of (qs, h') \<Rightarrow> (si\<lparr>sis_segments := qs\<rparr>, h'))"

section \<open>The change a merge makes\<close>

text \<open>The loop over \<open>segIdx\<close>, in place: the cells from \<open>newSegIdx\<close> on are dropped afterwards.\<close>

function merge_loop :: "(nat \<Rightarrow> bool) \<Rightarrow> nat \<Rightarrow> bool \<Rightarrow> nat \<Rightarrow> nat list \<times> bool \<times> nat \<Rightarrow> nat list \<times> bool \<times> nat" where
  "merge_loop mergedAway mergeInfo dropSegment segIdx (segs, inserted, newSegIdx) =
     (if segIdx < length segs
      then merge_loop mergedAway mergeInfo dropSegment (segIdx + 1)
        (if mergedAway (segs ! segIdx)
         then if \<not> inserted \<and> \<not> dropSegment then (segs[segIdx := mergeInfo], True, newSegIdx + 1)
              else (segs, inserted, newSegIdx)
         else (segs[newSegIdx := segs ! segIdx], inserted, newSegIdx + 1))
      else (segs, inserted, newSegIdx))"
  by pat_completeness auto
termination by (relation "measure (\<lambda>(m, i, d, k, (s, ins, n)). length s - k)") auto

declare merge_loop.simps [simp del]

definition sis_ApplyMergeChanges :: "seg_heap \<Rightarrow> nat list \<Rightarrow> nat \<Rightarrow> bool \<Rightarrow> (SegmentInfos, bool) act" where
  "sis_ApplyMergeChanges h mergeSegments mergeInfo dropSegment si =
     (if 7 \<le> sint (sis_indexCreatedVersionMajor si) \<and> \<not> snd (si_MinVersion (info_of h mergeInfo))
      then (Panic ''All segments must record the minVersion for indices created on or after Lucene 7'', si)
      else case merge_loop (\<lambda>s. s \<in> set mergeSegments) mergeInfo dropSegment 0 (sis_segments si, False, 0) of
             (segs, inserted, newSegIdx) \<Rightarrow>
               let kept = take newSegIdx segs
               in (Ok inserted, si\<lparr>sis_segments := (if \<not> inserted \<and> \<not> dropSegment then mergeInfo # kept else kept)\<rparr>))"

section \<open>The merge loop against its specification\<close>

text \<open>
  What a merge should do: the segments merged away disappear and the new segment takes the
  place of the first of them.
\<close>

fun merge_spec :: "(nat \<Rightarrow> bool) \<Rightarrow> nat \<Rightarrow> bool \<Rightarrow> nat list \<Rightarrow> nat list" where
  "merge_spec away new placed [] = []"
| "merge_spec away new placed (s # ss) =
     (if away s then if placed then merge_spec away new True ss else new # merge_spec away new True ss
      else s # merge_spec away new placed ss)"

lemma merge_spec_placed: "merge_spec away new True ss = filter (\<lambda>s. \<not> away s) ss"
  by (induction ss) simp_all

lemma merge_loop_spec:
  assumes "\<not> ins \<and> \<not> drp \<longrightarrow> junk = []"
  shows "\<exists>segs n. merge_loop away new drp (length pre + length junk) (pre @ junk @ rest, ins, length pre)
      = (segs, ins \<or> (\<not> drp \<and> list_ex away rest), n) \<and> take n segs = pre @ merge_spec away new (ins \<or> drp) rest"
  using assms
proof (induction rest arbitrary: pre junk ins)
  case Nil
  show ?case by (simp add: merge_loop.simps)
next
  case (Cons s rest)
  let ?k = "length pre + length junk"
  have nth: "(pre @ junk @ s # rest) ! ?k = s" by (simp add: nth_append)
  note step = merge_loop.simps [of away new drp ?k "pre @ junk @ s # rest" ins "length pre"]
  consider (keep) "\<not> away s" | (place) "away s" "\<not> ins" "\<not> drp" | (skip) "away s" "ins \<or> drp" by blast
  then show ?case
  proof cases
    case keep
    have up: "(pre @ junk @ s # rest)[length pre := s] = (pre @ [s]) @ (case junk of [] \<Rightarrow> [] | j # js \<Rightarrow> js @ [s]) @ rest"
      by (cases junk) (simp_all add: list_update_append)
    have "merge_loop away new drp ?k (pre @ junk @ s # rest, ins, length pre)
        = merge_loop away new drp (length (pre @ [s]) + length (case junk of [] \<Rightarrow> [] | j # js \<Rightarrow> js @ [s]))
            ((pre @ [s]) @ (case junk of [] \<Rightarrow> [] | j # js \<Rightarrow> js @ [s]) @ rest, ins, length (pre @ [s]))"
      unfolding step nth up using keep by (cases junk) simp_all
    then show ?thesis using Cons.IH [of ins "case junk of [] \<Rightarrow> [] | j # js \<Rightarrow> js @ [s]" "pre @ [s]"] Cons.prems keep
      by (auto split: list.splits)
  next
    case place
    then have j: "junk = []" using Cons.prems by simp
    have "merge_loop away new drp ?k (pre @ junk @ s # rest, ins, length pre)
        = merge_loop away new drp (length (pre @ [new]) + length []) ((pre @ [new]) @ [] @ rest, True, length (pre @ [new]))"
      unfolding step nth using place by (simp add: j list_update_append)
    then show ?thesis using Cons.IH [of True "[]" "pre @ [new]"] place by auto
  next
    case skip
    have "merge_loop away new drp ?k (pre @ junk @ s # rest, ins, length pre)
        = merge_loop away new drp (length pre + length (junk @ [s])) (pre @ (junk @ [s]) @ rest, ins, length pre)"
      unfolding step nth using skip by auto
    then show ?thesis using Cons.IH [of ins "junk @ [s]" pre] skip by auto
  qed
qed

lemma merge_loop_start:
  obtains segs n where "merge_loop away new drp 0 (ss, False, 0) = (segs, \<not> drp \<and> list_ex away ss, n)"
    "take n segs = merge_spec away new drp ss"
  using merge_loop_spec [of False drp "[]" away new "[]" ss] by auto

lemma merge_spec_none: "\<not> list_ex away ss \<Longrightarrow> merge_spec away new placed ss = ss"
  by (induction ss) (simp_all split: if_splits)

lemma merge_spec_first:
  "list_ex away ss \<Longrightarrow> merge_spec away new False ss
     = takeWhile (\<lambda>s. \<not> away s) ss @ new # filter (\<lambda>s. \<not> away s) (dropWhile (\<lambda>s. \<not> away s) ss)"
  by (induction ss) (auto simp add: merge_spec_placed)

section \<open>Copies are fresh objects\<close>

lemma clone_all_spec:
  "clone_all ss h = (qs, h') \<Longrightarrow> \<forall>s \<in> set ss. s < length (h_scis h) \<Longrightarrow>
     qs = [length (h_scis h)..<length (h_scis h) + length ss]
   \<and> h_scis h' = h_scis h @ map (\<lambda>s. sci_Clone (sci_at h s)) ss \<and> h_infos h' = h_infos h \<and> h_fieldInfos h' = h_fieldInfos h"
proof (induction ss arbitrary: h qs h')
  case (Cons s ss)
  let ?h = "h\<lparr>h_scis := h_scis h @ [sci_Clone (sci_at h s)]\<rparr>" and ?n = "length (h_scis h)"
  obtain rs where rs: "clone_all ss ?h = (rs, h')" "qs = ?n # rs"
    using Cons.prems(1) by (auto simp: new_sci_def split: prod.splits)
  have lt: "\<forall>x \<in> set ss. x < ?n" using Cons.prems(2) by simp
  then have "\<forall>x \<in> set ss. x < length (h_scis ?h)" by (simp add: less_Suc_eq)
  note ih = Cons.IH [OF rs(1) this]
  have "map (\<lambda>x. sci_Clone (sci_at ?h x)) ss = map (\<lambda>x. sci_Clone (sci_at h x)) ss"
    using lt by (simp add: sci_at_def nth_append)
  moreover have "[?n..<?n + length (s # ss)] = ?n # [Suc ?n..<Suc ?n + length ss]" by (subst upt_conv_Cons) simp_all
  moreover have "rs = [Suc ?n..<Suc ?n + length ss]" using ih by simp
  ultimately show ?case using ih rs(2) by (simp del: upt_Suc)
qed simp

section \<open>Commit file names\<close>

lemma file_generation_segments: "0 \<le> sint g \<Longrightarrow> file_generation (GetSegmentsFileName g) = Some g"
proof -
  assume g: "0 \<le> sint g"
  have ne: "FormatInt g 36 \<noteq> []" using g by (simp add: FormatInt_def format_int_def)
  then show ?thesis using g
    by (simp add: file_generation_def GetSegmentsFileName_def HasPrefix_def ParseInt_FormatInt del: str_simps(2))
       (simp add: ParseInt_FormatInt)
qed

lemma file_generation_pending: "file_generation (pendingSegmentsFileName g) = None"
  by (simp add: file_generation_def pendingSegmentsFileName_def HasPrefix_def)

lemma pending_not_segments: "pendingSegmentsFileName g \<noteq> GetSegmentsFileName k"
  by (simp add: pendingSegmentsFileName_def GetSegmentsFileName_def)

lemma GetSegmentsFileName_inj: "0 \<le> sint g \<Longrightarrow> 0 \<le> sint k \<Longrightarrow> GetSegmentsFileName g = GetSegmentsFileName k \<Longrightarrow> g = k"
  by (metis file_generation_segments option.inject)

lemma fold_last_generation:
  "let g = fold (\<lambda>file mx. case file_generation file of None \<Rightarrow> mx | Some gen \<Rightarrow> if sint gen > sint mx then gen else mx) files m
   in sint m \<le> sint g \<and> (\<forall>f \<in> set files. \<forall>k. file_generation f = Some k \<longrightarrow> sint k \<le> sint g)
    \<and> (g = m \<or> (\<exists>f \<in> set files. file_generation f = Some g))"
proof (induction files arbitrary: m)
  case (Cons f files)
  consider (none) "file_generation f = None" | (more) k where "file_generation f = Some k" "sint k > sint m"
    | (old) k where "file_generation f = Some k" "sint k \<le> sint m" by (cases "file_generation f") force+
  then show ?case
  proof cases
    case none
    then show ?thesis using Cons.IH [of m] by (auto simp: Let_def)
  next
    case (more k)
    then show ?thesis using Cons.IH [of k] by (auto simp: Let_def)
  next
    case (old k)
    then show ?thesis using Cons.IH [of m] by (auto simp: Let_def)
  qed
qed simp

section \<open>Segment names\<close>

definition names_below :: "seg_heap \<Rightarrow> SegmentInfos \<Rightarrow> bool" where
  "names_below h si \<longleftrightarrow> 0 \<le> sint (sis_counter si) \<and> (\<forall>s \<in> set (sis_segments si). sint (sci_GetGeneration h s) < sint (sis_counter si))"

lemma generation_of_counter_name:
  "si_GetGeneration (si\<lparr>si_name := 95 # format_int 10 (sint c)\<rparr>) = c"
proof -
  obtain x xs where "format_int 10 (sint c) = x # xs" by (cases "format_int 10 (sint c)") (auto simp: format_int_def split: if_splits)
  then show ?thesis using Sscanf_gen_format [of c] by (simp add: si_GetGeneration_def)
qed

lemma generation_name_only: "si_name a = si_name b \<Longrightarrow> si_GetGeneration a = si_GetGeneration b"
  by (simp add: si_GetGeneration_def)

lemma generation_of_name: "si_name a = 95 # format_int 10 (sint c) \<Longrightarrow> si_GetGeneration a = c"
  using generation_of_counter_name [where si = a and c = c]
    generation_name_only [where a = a and b = "a\<lparr>si_name := 95 # format_int 10 (sint c)\<rparr>"] by simp

lemma fold_max_generation:
  "let g = fold (\<lambda>s mx. if sint (f s) > sint mx then f s else mx) ss m
   in sint m \<le> sint g \<and> (\<forall>s \<in> set ss. sint (f s) \<le> sint g) \<and> (g = m \<or> (\<exists>s \<in> set ss. g = f s))" for m :: i64
proof (induction ss arbitrary: m)
  case (Cons s ss)
  show ?case
  proof (cases "sint (f s) > sint m")
    case True
    then show ?thesis using Cons.IH [of "f s"] by (auto simp: Let_def)
  next
    case False
    then show ?thesis using Cons.IH [of m] by (auto simp: Let_def)
  qed
qed simp

lemma sint_Suc64: "sint (c :: i64) < 2 ^ 63 - 1 \<Longrightarrow> sint (c + 1) = sint c + 1"
proof -
  assume c: "sint c < 2 ^ 63 - 1"
  have "sint (c + 1) = signed_take_bit 63 (sint c + 1)" by (simp add: signed_take_bit_add sint_word_ariths)
  also have "\<dots> = sint c + 1" using c sint_greater_eq [of c] by (intro signed_take_bit_int_eq_self) simp_all
  finally show ?thesis .
qed

section \<open>Properties\<close>

text \<open>
  C29: \<open>ApplyMergeChanges\<close> does what a merge should: with \<open>dropSegment\<close> the segments merged away
  disappear; otherwise the new segment takes the place of the first of them, in the order of
  the list, and the others disappear; when none of them is in the list the new segment is
  put first.  The result tells whether a place was found.
\<close>

theorem apply_merge_changes:
  assumes "sint (sis_indexCreatedVersionMajor si) < 7 \<or> snd (si_MinVersion (info_of h new))"
  shows "sis_ApplyMergeChanges h merged new drp si =
     (Ok (\<not> drp \<and> (\<exists>s \<in> set (sis_segments si). s \<in> set merged)),
      si\<lparr>sis_segments :=
          (if drp then filter (\<lambda>s. s \<notin> set merged) (sis_segments si)
           else if \<exists>s \<in> set (sis_segments si). s \<in> set merged
           then takeWhile (\<lambda>s. s \<notin> set merged) (sis_segments si) @ new
                # filter (\<lambda>s. s \<notin> set merged) (dropWhile (\<lambda>s. s \<notin> set merged) (sis_segments si))
           else new # sis_segments si)\<rparr>)"
proof -
  let ?away = "\<lambda>s. s \<in> set merged"
  obtain segs n where l: "merge_loop ?away new drp 0 (sis_segments si, False, 0) = (segs, \<not> drp \<and> list_ex ?away (sis_segments si), n)"
      "take n segs = merge_spec ?away new drp (sis_segments si)"
    by (rule merge_loop_start)
  have ex: "list_ex ?away (sis_segments si) \<longleftrightarrow> (\<exists>s \<in> set (sis_segments si). ?away s)" by (simp add: list_ex_iff)
  have r: "sis_ApplyMergeChanges h merged new drp si = (Ok (\<not> drp \<and> (\<exists>s \<in> set (sis_segments si). ?away s)),
      si\<lparr>sis_segments := (if \<not> (\<exists>s \<in> set (sis_segments si). ?away s) \<and> \<not> drp
        then new # merge_spec ?away new drp (sis_segments si) else merge_spec ?away new drp (sis_segments si))\<rparr>)"
    unfolding sis_ApplyMergeChanges_def l(1) prod.case Let_def l(2) ex using assms by auto
  show ?thesis
  proof (cases drp)
    case True
    then show ?thesis unfolding r by (simp add: merge_spec_placed)
  next
    case False
    then show ?thesis unfolding r
      using merge_spec_first [of ?away "sis_segments si" new] merge_spec_none [of ?away "sis_segments si" new False]
      by (simp add: ex)
  qed
qed

definition sample_heap :: seg_heap where
  "sample_heap = \<lparr>h_infos = [NewSegmentInfo (str ''_0'') 5, NewSegmentInfo (str ''_1'') 6, NewSegmentInfo (str ''_a'') 7],
     h_scis = [NewSegmentCommitInfo 0 0 (- 1), (NewSegmentCommitInfo 1 2 1)\<lparr>sci_inMemoryFieldInfos := Some 0\<rparr>, NewSegmentCommitInfo 2 0 (- 1)],
     h_fieldInfos = [empty_field_infos]\<rparr>"

definition sample_infos :: SegmentInfos where
  "sample_infos = \<lparr>sis_segments = [0, 1], sis_generation = 4, sis_lastGeneration = 4, sis_version = 9,
     sis_luceneVersion = str ''10.4.0'', sis_indexCreatedVersionMajor = 6, sis_counter = 7, sis_userData = Map.empty,
     sis_inMemoryParentField = [], sis_inMemoryIndexSort = None, sis_pendingCommit = False\<rparr>"

theorem apply_merge_changes_witness:
  "sis_ApplyMergeChanges sample_heap [1] 2 False sample_infos = (Ok True, sample_infos\<lparr>sis_segments := [0, 2]\<rparr>)"
  using apply_merge_changes [of sample_infos sample_heap 2 "[1]" False] by (simp add: sample_infos_def)

text \<open>
  C30: What \<open>Clone\<close> copies and what it shares.  Every \<open>SegmentCommitInfo\<close> of the copy is a new object
  that was nowhere before, no existing object changes, a change of a commit info through a pointer of the
  copy is not seen through any existing pointer, and the copy agrees with the original in
  every other field and, object by object, in what \<open>SegmentCommitInfo.Clone\<close> carries over.  The
  \<open>SegmentInfo\<close> and the in-memory \<open>FieldInfos\<close> behind a commit info are shared: whatever is
  changed in one of them later, through either list, copy and original show the same.
\<close>

theorem clone_isolated:
  assumes "\<forall>s \<in> set (sis_segments si). s < length (h_scis h)" "sis_Clone si h = (si', h')"
  shows "(\<forall>p < length (h_scis h). sci_at h' p = sci_at h p)
    \<and> (\<forall>q \<in> set (sis_segments si'). length (h_scis h) \<le> q \<and> q < length (h_scis h'))
    \<and> distinct (sis_segments si')
    \<and> (\<forall>q \<in> set (sis_segments si'). \<forall>f. \<forall>p < length (h_scis h). sci_at (set_sci q f h') p = sci_at h p)
    \<and> map (sci_at h') (sis_segments si') = map (\<lambda>s. sci_Clone (sci_at h s)) (sis_segments si)
    \<and> map (info_of h') (sis_segments si') = map (info_of h) (sis_segments si)
    \<and> map (sci_GetInMemoryFieldInfos h') (sis_segments si') = map (sci_GetInMemoryFieldInfos h) (sis_segments si)
    \<and> (\<forall>q f. map (info_of (set_info q f h')) (sis_segments si') = map (info_of (set_info q f h')) (sis_segments si))
    \<and> (\<forall>r f. map (sci_GetInMemoryFieldInfos (set_field_infos r f h')) (sis_segments si')
             = map (sci_GetInMemoryFieldInfos (set_field_infos r f h')) (sis_segments si))
    \<and> si'\<lparr>sis_segments := sis_segments si\<rparr> = si"
proof -
  let ?n = "length (h_scis h)" and ?ss = "sis_segments si"
  obtain qs where qs: "clone_all ?ss h = (qs, h')" "si' = si\<lparr>sis_segments := qs\<rparr>"
    using assms(2) by (auto simp: sis_Clone_def split: prod.splits)
  have c: "qs = [?n..<?n + length ?ss]" "h_scis h' = h_scis h @ map (\<lambda>s. sci_Clone (sci_at h s)) ?ss" "h_infos h' = h_infos h"
      "h_fieldInfos h' = h_fieldInfos h"
    using clone_all_spec [OF qs(1) assms(1)] by simp_all
  have old: "sci_at h' p = sci_at h p" if "p < ?n" for p using that by (simp add: sci_at_def c(2) nth_append)
  have frame: "sci_at (set_sci q f h') p = sci_at h p" if "?n \<le> q" "p < ?n" for q f p
    using old [OF that(2)] that by (simp add: sci_at_def set_sci_def)
  have new: "map (sci_at h') qs = map (\<lambda>s. sci_Clone (sci_at h s)) ?ss"
    by (rule nth_equalityI) (simp_all add: c sci_at_def nth_append)
  have shared: "map (\<lambda>q. g (sci_at h' q)) qs = map (\<lambda>s. g (sci_at h' s)) ?ss" if "\<And>sci. g (sci_Clone sci) = g sci"
    for g :: "SegmentCommitInfo \<Rightarrow> 'x"
  proof -
    have "map (\<lambda>q. g (sci_at h' q)) qs = map g (map (sci_at h') qs)" by simp
    also have "\<dots> = map (\<lambda>s. g (sci_at h s)) ?ss" unfolding new by (simp add: that)
    finally show ?thesis using old assms(1) by simp
  qed
  have infos: "map (info_of k) qs = map (info_of k) ?ss" if "h_scis k = h_scis h'" for k
    using shared [of "\<lambda>sci. h_infos k ! sci_Info sci"] that by (simp add: info_of_def [abs_def] sci_at_def sci_Clone_def)
  have fields: "map (sci_GetInMemoryFieldInfos k) qs = map (sci_GetInMemoryFieldInfos k) ?ss" if "h_scis k = h_scis h'" for k
    using shared [of "\<lambda>sci. map_option (\<lambda>r. h_fieldInfos k ! r) (sci_inMemoryFieldInfos sci)"] that
    by (simp add: sci_GetInMemoryFieldInfos_def [abs_def] sci_at_def sci_Clone_def)
  have "map (info_of h') qs = map (info_of h) ?ss" using infos [OF refl] old assms(1) by (simp add: info_of_def c(3) cong: map_cong)
  moreover have "map (sci_GetInMemoryFieldInfos h') qs = map (sci_GetInMemoryFieldInfos h) ?ss"
    using fields [OF refl] old assms(1) by (simp add: sci_GetInMemoryFieldInfos_def c(4))
  moreover have "h_scis (set_info q f h') = h_scis h'" "h_scis (set_field_infos r f' h') = h_scis h'" for q f r f'
    by (simp_all add: set_info_def set_field_infos_def)
  ultimately show ?thesis using old frame new infos fields by (simp add: qs(2) c(1,2))
qed

theorem clone_isolated_witness:
  "map (sci_at (snd (sis_Clone sample_infos sample_heap))) (sis_segments (fst (sis_Clone sample_infos sample_heap)))
   = map (\<lambda>s. sci_Clone (sci_at sample_heap s)) [0, 1]
   \<and> map (sci_GetInMemoryFieldInfos (snd (sis_Clone sample_infos sample_heap))) (sis_segments (fst (sis_Clone sample_infos sample_heap)))
     = map (sci_GetInMemoryFieldInfos sample_heap) [0, 1]"
  using clone_isolated [of sample_infos sample_heap "fst (sis_Clone sample_infos sample_heap)" "snd (sis_Clone sample_infos sample_heap)"]
  by (simp add: sample_infos_def sample_heap_def)

text \<open>
  C31: After \<open>UpdateCounterFromSegments\<close> the counter lies above the generation of every segment, whatever
  the names look like.  While it does, \<open>GetNextSegmentName\<close> returns a name that no segment of
  the list has, and adding a segment of that name keeps the counter above all generations.
\<close>

theorem next_segment_name_fresh:
  "((\<forall>s \<in> set (sis_segments si). sint (sci_GetGeneration h s) < 2 ^ 63 - 1)
      \<longrightarrow> names_below h (sis_UpdateCounterFromSegments h si))
    \<and> (names_below h si \<and> sint (sis_counter si) < 2 ^ 63 - 1 \<and> sis_GetNextSegmentName si = (name, si')
      \<longrightarrow> name \<notin> sci_Name h ` set (sis_segments si)
        \<and> (\<forall>p. sci_Name h p = name \<longrightarrow> names_below h (sis_Add p si')))"
proof (rule conjI)
  let ?g = "fold (\<lambda>s mx. if sint (sci_GetGeneration h s) > sint mx then sci_GetGeneration h s else mx) (sis_segments si) 0"
  have g: "0 \<le> sint ?g" "\<forall>s \<in> set (sis_segments si). sint (sci_GetGeneration h s) \<le> sint ?g"
      "?g = 0 \<or> (\<exists>s \<in> set (sis_segments si). ?g = sci_GetGeneration h s)"
    using fold_max_generation [of "sci_GetGeneration h" "sis_segments si" 0] by (simp_all add: Let_def)
  show "(\<forall>s \<in> set (sis_segments si). sint (sci_GetGeneration h s) < 2 ^ 63 - 1)
      \<longrightarrow> names_below h (sis_UpdateCounterFromSegments h si)"
  proof
    assume b: "\<forall>s \<in> set (sis_segments si). sint (sci_GetGeneration h s) < 2 ^ 63 - 1"
    have "sint ?g < 2 ^ 63 - 1" using g(3) b by auto
    then have "sint (?g + 1) = sint ?g + 1" by (rule sint_Suc64)
    then show "names_below h (sis_UpdateCounterFromSegments h si)"
      using g(1,2) by (fastforce simp: names_below_def sis_UpdateCounterFromSegments_def)
  qed
  show "names_below h si \<and> sint (sis_counter si) < 2 ^ 63 - 1 \<and> sis_GetNextSegmentName si = (name, si')
      \<longrightarrow> name \<notin> sci_Name h ` set (sis_segments si) \<and> (\<forall>p. sci_Name h p = name \<longrightarrow> names_below h (sis_Add p si'))"
  proof (intro impI conjI allI)
    assume a: "names_below h si \<and> sint (sis_counter si) < 2 ^ 63 - 1 \<and> sis_GetNextSegmentName si = (name, si')"
    then have n: "name = 95 # format_int 10 (sint (sis_counter si))" "si' = si\<lparr>sis_counter := sis_counter si + 1\<rparr>"
      by (auto simp: sis_GetNextSegmentName_def)
    have gen: "sci_GetGeneration h p = sis_counter si" if "sci_Name h p = name" for p
      using that n(1) by (simp add: sci_Name_def sci_GetGeneration_def generation_of_name)
    show "name \<notin> sci_Name h ` set (sis_segments si)"
      using a gen by (auto simp: names_below_def)
    show "names_below h (sis_Add p si')" if "sci_Name h p = name" for p
      using a gen [OF that] sint_Suc64 [of "sis_counter si"] by (fastforce simp: names_below_def sis_Add_def n(2))
  qed
qed

definition sample_names_infos :: SegmentInfos where
  "sample_names_infos = sample_infos\<lparr>sis_segments := [0, 1, 2]\<rparr>"

lemma sample_generations: "sci_GetGeneration sample_heap s = (if s = 1 then 1 else 0)" if "s \<in> {0, 1, 2}"
proof -
  have "Sscanf_gen [48] = 0" "Sscanf_gen [49] = 1" "Sscanf_gen [97] = 0"
    by (simp_all add: Sscanf_gen_def scan_d_def is_digit_def Let_def ParseInt_def parse_sign_def digit_val_def)
  then show ?thesis using that
    by (auto simp: sci_GetGeneration_def info_of_def sci_at_def sample_heap_def NewSegmentCommitInfo_def NewSegmentInfo_def
        si_GetGeneration_def)
qed

theorem next_segment_name_fresh_witness:
  "names_below sample_heap (sis_UpdateCounterFromSegments sample_heap sample_names_infos)
   \<and> fst (sis_GetNextSegmentName sample_names_infos) \<notin> sci_Name sample_heap ` set (sis_segments sample_names_infos)"
proof -
  have s: "set (sis_segments sample_names_infos) = {0, 1, 2}" "sis_counter sample_names_infos = 7"
    by (auto simp: sample_names_infos_def sample_infos_def)
  have "\<forall>s \<in> set (sis_segments sample_names_infos). sint (sci_GetGeneration sample_heap s) < 2 ^ 63 - 1"
    using sample_generations s by auto
  moreover have "names_below sample_heap sample_names_infos" using sample_generations s by (auto simp: names_below_def)
  moreover have "sint (sis_counter sample_names_infos) < 2 ^ 63 - 1" by (simp add: s)
  ultimately show ?thesis
    using next_segment_name_fresh [of sample_names_infos sample_heap "fst (sis_GetNextSegmentName sample_names_infos)"
        "snd (sis_GetNextSegmentName sample_names_infos)"] by simp
qed

text \<open>
  C32: \<open>GetLastCommitGeneration\<close> is the greatest generation of a commit file in the list, or \<open>-1\<close> when
  there is none; the name of every generation is recognised as that generation, two
  generations never share a name, and a pending commit file is never taken for a commit.
\<close>

theorem last_commit_generation:
  "(\<forall>f \<in> set files. \<forall>k. file_generation f = Some k \<longrightarrow> sint k \<le> sint (GetLastCommitGeneration files))
   \<and> (GetLastCommitGeneration files = - 1 \<or> (\<exists>f \<in> set files. file_generation f = Some (GetLastCommitGeneration files)))
   \<and> (0 \<le> sint g \<longrightarrow> file_generation (GetSegmentsFileName g) = Some g)
   \<and> (0 \<le> sint g \<and> 0 \<le> sint k \<and> GetSegmentsFileName g = GetSegmentsFileName k \<longrightarrow> g = k)
   \<and> file_generation (pendingSegmentsFileName g) = None"
  using fold_last_generation [of files "- 1"] file_generation_segments [of g] GetSegmentsFileName_inj [of g k]
  by (auto simp: GetLastCommitGeneration_def Let_def file_generation_pending)

theorem last_commit_generation_witness:
  "GetLastCommitGeneration [str ''segments_1'', str ''pending_segments_z'', str ''segments_a''] = 10
   \<and> file_generation (GetSegmentsFileName 10) = Some 10"
proof -
  have "GetLastCommitGeneration [str ''segments_1'', str ''pending_segments_z'', str ''segments_a''] = 10"
    by (simp add: GetLastCommitGeneration_def file_generation_def HasPrefix_def ParseInt_def parse_sign_def digit_val_def)
  then show ?thesis using last_commit_generation [of "[]" 10 10] by simp
qed

end
