(* ===== verification/Segment_Commit.thy ===== *)
theory Segment_Commit
  imports Segment_Infos Codec_Util
begin

text \<open>
  The commit of \<^verbatim>\<open>spi/segment_infos.go\<close>: the format of the file \<^verbatim>\<open>segments_N\<close>, its writer and reader, and
  the two-phase commit that makes it visible.

  The directory is the record \<open>directory\<close> of the operations the code calls; \<open>Sync\<close> and \<open>SyncMetaData\<close>
  are optional, as the type assertions of the source make them.  Arguments that stand for
  the world outside: \<open>rnd\<close>, the outcome of \<open>rand.Read\<close> on the 16 bytes of the header id;
  \<open>rng\<close>, the order in which Go iterates over the user data; and \<open>hook\<close>, the reader of
  \<^verbatim>\<open>.si\<close> files that another package may register, a function of the directory, the name and the
  id that does not change the directory.

  The locale \<open>commit_directory\<close> states what the protocol needs of a directory; the
  in-memory directory keeps it.
\<close>

section \<open>Directories\<close>

text \<open>The last three fields are methods of an opened input that only the legacy format uses.\<close>

record ('d, 'i, 'o) directory =
  dir_ListAll :: "('d, gostring list) act"
  dir_CreateOutput :: "gostring \<Rightarrow> ('d, 'o) act"
  dir_OpenInput :: "gostring \<Rightarrow> ('d, 'i) act"
  dir_DeleteFile :: "gostring \<Rightarrow> ('d, unit) act"
  dir_Rename :: "gostring \<Rightarrow> gostring \<Rightarrow> ('d, unit) act"
  dir_Sync :: "(gostring list \<Rightarrow> ('d, unit) act) option"
  dir_SyncMetaData :: "('d, unit) act option"
  dir_input :: "('d, 'i) index_input"
  dir_output :: "('d, 'o) index_output"
  dir_CloseOutput :: "('d \<times> 'o, unit) act"
  dir_ReadInt :: "('d \<times> 'i, i32) act"
  dir_ReadLong :: "('d \<times> 'i, i64) act"
  dir_ReadBytesN :: "int \<Rightarrow> ('d \<times> 'i, u8 list) act"

definition bd_directory :: "(ByteBuffersDirectory, ByteBuffersIndexInput, ByteBuffersIndexOutput) directory" where
  "bd_directory =
     \<lparr>dir_ListAll = bd_ListAll, dir_CreateOutput = bd_CreateOutput, dir_OpenInput = bd_OpenInput,
      dir_DeleteFile = bd_DeleteFile, dir_Rename = bd_Rename, dir_Sync = Some bd_Sync, dir_SyncMetaData = None,
      dir_input = bbi_index_input, dir_output = bbo_index_output, dir_CloseOutput = (\<lambda>s. (Ok (), bbo_Close s)),
      dir_ReadInt = bbi_ReadInt, dir_ReadLong = bbi_ReadLong, dir_ReadBytesN = bbi_ReadBytesN\<rparr>"

section \<open>Writing segments\_N\<close>

definition version_code :: "i32 \<Rightarrow> i32 \<Rightarrow> i32 \<Rightarrow> i64" where
  "version_code maj mnr bug = push_bit 18 (scast maj) OR push_bit 8 (scast mnr) OR scast bug"

text \<open>The loop of \<open>minSegmentVersion\<close> over \<open>haveMin\<close>, \<open>minEncoded\<close> and the triple.\<close>

fun min_version_loop :: "gostring list \<Rightarrow> (i64 \<times> i32 \<times> i32 \<times> i32) option \<Rightarrow> i32 \<times> i32 \<times> i32" where
  "min_version_loop [] best = (case best of None \<Rightarrow> (0, 0, 0) | Some (c, v) \<Rightarrow> v)"
| "min_version_loop (s # ss) best =
     (case Sscanf_version s of (maj, mnr, bug) \<Rightarrow>
        let encoded = version_code maj mnr bug
        in min_version_loop ss (case best of None \<Rightarrow> Some (encoded, maj, mnr, bug)
             | Some (c, v) \<Rightarrow> if sint encoded < sint c then Some (encoded, maj, mnr, bug) else best))"

definition minSegmentVersion :: "seg_heap \<Rightarrow> nat list \<Rightarrow> i32 \<times> i32 \<times> i32" where
  "minSegmentVersion h segments = min_version_loop (map (\<lambda>s. si_version (info_of h s)) segments) None"

definition write_triple :: "('g, 'o) index_output \<Rightarrow> i32 \<times> i32 \<times> i32 \<Rightarrow> ('g \<times> 'o ChecksumIndexOutput, unit) act" where
  "write_triple OT v = (case v of (maj, mnr, bug) \<Rightarrow>
     seq_act (co_WriteVInt OT maj) (seq_act (co_WriteVInt OT mnr) (co_WriteVInt OT bug)))"

fun write_dv_entries :: "('g, 'o) index_output \<Rightarrow> (int \<times> gostring list) list \<Rightarrow> ('g \<times> 'o ChecksumIndexOutput, unit) act" where
  "write_dv_entries OT [] = ret_act ()"
| "write_dv_entries OT ((k, files) # m) =
     seq_act (WriteBEInt (co_data_output OT) (of_int k))
    (seq_act (co_WriteSetOfStrings OT files) (write_dv_entries OT m))"

definition writeDVUpdateFilesLucene :: "('g, 'o) index_output \<Rightarrow> (int \<times> gostring list) list \<Rightarrow> ('g \<times> 'o ChecksumIndexOutput, unit) act" where
  "writeDVUpdateFilesLucene OT m = seq_act (WriteBEInt (co_data_output OT) (of_nat (length m))) (write_dv_entries OT m)"

definition writeSegmentCommitInfoLucene104 :: "('g, 'o) index_output \<Rightarrow> seg_heap \<Rightarrow> nat \<Rightarrow> ('g \<times> 'o ChecksumIndexOutput, unit) act" where
  "writeSegmentCommitInfoLucene104 OT h p =
     (let out = co_data_output OT; sci = sci_at h p; info = info_of h p;
          iid = (if length (si_id info) \<noteq> 16 then replicate 16 0 else si_id info)
      in seq_act (co_WriteString OT (sci_Name h p))
        (seq_act (co_WriteBytes OT iid 0 (int (length iid)))
        (seq_act (co_WriteString OT (si_CodecName info))
        (seq_act (WriteBELong out (sci_delGen sci))
        (seq_act (WriteBEInt out (of_int (sci_delCount sci)))
        (seq_act (WriteBELong out (sci_fieldInfosGen sci))
        (seq_act (WriteBELong out (sci_docValuesGen sci))
        (seq_act (WriteBEInt out (of_int (sci_softDelCount sci)))
        (seq_act (if length (sci_id sci) = 16
                  then seq_act (co_WriteByte OT 1) (co_WriteBytes OT (sci_id sci) 0 (int (length (sci_id sci))))
                  else co_WriteByte OT 0)
        (seq_act (co_WriteSetOfStrings OT (sci_fieldInfosFiles sci))
                 (writeDVUpdateFilesLucene OT (sci_docValuesUpdatesFiles sci))))))))))))"

fun write_segments :: "('g, 'o) index_output \<Rightarrow> seg_heap \<Rightarrow> nat list \<Rightarrow> ('g \<times> 'o ChecksumIndexOutput, unit) act" where
  "write_segments OT h [] = ret_act ()"
| "write_segments OT h (s # ss) = seq_act (writeSegmentCommitInfoLucene104 OT h s) (write_segments OT h ss)"

text \<open>Between the header and the footer.\<close>

definition write_body :: "((gostring \<rightharpoonup> gostring) \<Rightarrow> (gostring \<times> gostring) list) \<Rightarrow> ('g, 'o) index_output \<Rightarrow> seg_heap
    \<Rightarrow> SegmentInfos \<Rightarrow> ('g \<times> 'o ChecksumIndexOutput, unit) act" where
  "write_body rng OT h si =
     seq_act (write_triple OT (Sscanf_version (sis_luceneVersion si)))
    (seq_act (co_WriteVInt OT (sis_indexCreatedVersionMajor si))
    (seq_act (WriteBELong (co_data_output OT) (sis_version si))
    (seq_act (co_WriteVLong OT (sis_counter si))
    (seq_act (WriteBEInt (co_data_output OT) (of_nat (length (sis_segments si))))
    (seq_act (if sis_segments si \<noteq> [] then write_triple OT (minSegmentVersion h (sis_segments si)) else ret_act ())
    (seq_act (write_segments OT h (sis_segments si))
             (co_WriteMapOfStrings OT (rng (sis_userData si)))))))))"

definition sis_Write :: "((gostring \<rightharpoonup> gostring) \<Rightarrow> (gostring \<times> gostring) list) \<Rightarrow> u8 list outcome \<Rightarrow> ('g, 'o) index_output
    \<Rightarrow> seg_heap \<Rightarrow> SegmentInfos \<Rightarrow> ('g \<times> 'o ChecksumIndexOutput, unit) act" where
  "sis_Write rng rnd OT h si =
     bind_act (lift_out rnd) (\<lambda>iid.
       seq_act (spi_WriteIndexHeader (co_data_output OT) (str ''segments'') 10 (Some iid) (FormatInt (sis_generation si) 36))
      (seq_act (write_body rng OT h si) (spi_WriteFooter OT)))"

section \<open>The two-phase commit\<close>

text \<open>Closing the checksumming output closes the output it wraps.\<close>

definition close_out :: "('d, 'i, 'o) directory \<Rightarrow> ('d \<times> 'o ChecksumIndexOutput, unit) act" where
  "close_out D s = (case s of (d, c) \<Rightarrow> case dir_CloseOutput D (d, co_output c) of (r, (d', o')) \<Rightarrow> (r, (d', c\<lparr>co_output := o'\<rparr>)))"

text \<open>\<open>deleteFilesIgnoringExceptions\<close>: the file is deleted and the outcome dropped, except a panic.\<close>

definition delete_ignoring :: "('d, 'i, 'o) directory \<Rightarrow> gostring \<Rightarrow> ('d, unit) act" where
  "delete_ignoring D name d =
     (case dir_DeleteFile D name d of (Panic p, d') \<Rightarrow> (Panic p, d') | (_, d') \<Rightarrow> (Ok (), d'))"

definition sync_file :: "('d, 'i, 'o) directory \<Rightarrow> gostring \<Rightarrow> ('d, unit) act" where
  "sync_file D name = (case dir_Sync D of None \<Rightarrow> ret_act () | Some Sync \<Rightarrow> Sync [name])"

definition sync_meta :: "('d, 'i, 'o) directory \<Rightarrow> ('d, unit) act" where
  "sync_meta D = (case dir_SyncMetaData D of None \<Rightarrow> ret_act () | Some Sync \<Rightarrow> Sync)"

text \<open>An action whose error is reported after the file is deleted.\<close>

definition or_delete :: "('d, 'i, 'o) directory \<Rightarrow> gostring \<Rightarrow> ('d, unit) act \<Rightarrow> ('d, unit) act" where
  "or_delete D name m d =
     (case m d of (Err e, d1) \<Rightarrow> (case delete_ignoring D name d1 of (Panic p, d2) \<Rightarrow> (Panic p, d2) | (_, d2) \<Rightarrow> (Err e, d2))
      | r \<Rightarrow> r)"

text \<open>Writing through a checksumming output: the output is closed on an error too, its own error dropped.\<close>

definition write_file :: "('d, 'i, 'o) directory \<Rightarrow> 'o \<Rightarrow> ('d \<times> 'o ChecksumIndexOutput, unit) act \<Rightarrow> ('d, unit) act" where
  "write_file D ot w d =
     (case w (d, NewChecksumIndexOutput (dir_output D) (d, ot)) of
        (Panic p, (d1, c)) \<Rightarrow> (Panic p, d1)
      | (Err e, s1) \<Rightarrow> (case close_out D s1 of (Panic p, (d2, c)) \<Rightarrow> (Panic p, d2) | (_, (d2, c)) \<Rightarrow> (Err e, d2))
      | (Ok _, s1) \<Rightarrow> (case close_out D s1 of (r, (d2, c)) \<Rightarrow> (r, d2)))"

definition getNextPendingGeneration :: "SegmentInfos \<Rightarrow> i64" where
  "getNextPendingGeneration si = (if sis_generation si = - 1 then 1 else sis_generation si + 1)"

type_synonym ('d, 'a) commit_act = "SegmentInfos \<times> 'd \<Rightarrow> 'a outcome \<times> (SegmentInfos \<times> 'd)"

definition sis_write :: "((gostring \<rightharpoonup> gostring) \<Rightarrow> (gostring \<times> gostring) list) \<Rightarrow> u8 list outcome \<Rightarrow> ('d, 'i, 'o) directory
    \<Rightarrow> seg_heap \<Rightarrow> ('d, unit) commit_act" where
  "sis_write rng rnd D h s =
     (case s of (si, d) \<Rightarrow>
        let nextGeneration = getNextPendingGeneration si;
            name = pendingSegmentsFileName nextGeneration;
            si1 = si\<lparr>sis_generation := nextGeneration\<rparr>
        in case or_delete D name (bind_act (dir_CreateOutput D name) (\<lambda>ot.
                  seq_act (write_file D ot (sis_Write rng rnd (dir_output D) h si1)) (sync_file D name))) d of
             (Ok _, d1) \<Rightarrow> (Ok (), (si1\<lparr>sis_pendingCommit := True\<rparr>, d1))
           | (Err e, d1) \<Rightarrow> (Err e, (si1, d1))
           | (Panic p, d1) \<Rightarrow> (Panic p, (si1, d1)))"

definition sis_PrepareCommit :: "((gostring \<rightharpoonup> gostring) \<Rightarrow> (gostring \<times> gostring) list) \<Rightarrow> u8 list outcome \<Rightarrow> ('d, 'i, 'o) directory
    \<Rightarrow> seg_heap \<Rightarrow> ('d, unit) commit_act" where
  "sis_PrepareCommit rng rnd D h s =
     (case s of (si, d) \<Rightarrow>
        if sis_pendingCommit si then (Err (Errorf ''prepareCommit was already called''), s)
        else case sync_meta D d of
               (Ok _, d1) \<Rightarrow> sis_write rng rnd D h (si, d1)
             | (Err e, d1) \<Rightarrow> (Err e, (si, d1))
             | (Panic p, d1) \<Rightarrow> (Panic p, (si, d1)))"

definition sis_RollbackCommit :: "('d, 'i, 'o) directory \<Rightarrow> ('d, unit) commit_act" where
  "sis_RollbackCommit D s =
     (case s of (si, d) \<Rightarrow>
        case delete_ignoring D (str ''pending_segments_'' @ FormatInt (sis_generation si) 36) d of (r, d1) \<Rightarrow> (r, (si, d1)))"

definition sis_FinishCommit :: "('d, 'i, 'o) directory \<Rightarrow> ('d, gostring) commit_act" where
  "sis_FinishCommit D s =
     (case s of (si, d) \<Rightarrow>
        if \<not> sis_pendingCommit si then (Err (Errorf ''prepareCommit was not called''), s)
        else let src = pendingSegmentsFileName (sis_generation si);
                 dest = GetSegmentsFileName (sis_generation si)
             in case dir_Rename D src dest d of
                  (Panic p, d1) \<Rightarrow> (Panic p, (si, d1))
                | (Err e, d1) \<Rightarrow> (case sis_RollbackCommit D (si, d1) of (Panic p, s2) \<Rightarrow> (Panic p, s2) | (_, s2) \<Rightarrow> (Err e, s2))
                | (Ok _, d1) \<Rightarrow>
                    (case sync_meta D d1 of
                       (Panic p, d2) \<Rightarrow> (Panic p, (si, d2))
                     | (Err e, d2) \<Rightarrow>
                         (case delete_ignoring D dest d2 of (Panic p, d3) \<Rightarrow> (Panic p, (si, d3))
                          | (_, d3) \<Rightarrow> (case sis_RollbackCommit D (si, d3) of (Panic p, s4) \<Rightarrow> (Panic p, s4) | (_, s4) \<Rightarrow> (Err e, s4)))
                     | (Ok _, d2) \<Rightarrow>
                         (Ok dest, (si\<lparr>sis_pendingCommit := False, sis_lastGeneration := sis_generation si\<rparr>, d2))))"

text \<open>\<open>WriteSegmentInfos\<close> writes the file of the current generation at once; the deferred \<open>Close\<close> runs in any case.\<close>

definition WriteSegmentInfos :: "((gostring \<rightharpoonup> gostring) \<Rightarrow> (gostring \<times> gostring) list) \<Rightarrow> u8 list outcome \<Rightarrow> ('d, 'i, 'o) directory
    \<Rightarrow> seg_heap \<Rightarrow> SegmentInfos \<Rightarrow> ('d, unit) act" where
  "WriteSegmentInfos rng rnd D h si =
     bind_act (dir_CreateOutput D (GetSegmentsFileName (sis_generation si))) (\<lambda>ot d.
       case sis_Write rng rnd (dir_output D) h si (d, NewChecksumIndexOutput (dir_output D) (d, ot)) of
         (r, s1) \<Rightarrow> (case close_out D s1 of (Panic p, (d2, c)) \<Rightarrow> (Panic p, d2) | (_, (d2, c)) \<Rightarrow> (r, d2)))"

section \<open>Reading segments\_N\<close>

text \<open>
  A segment as read is a pair of its commit info and its info; both become objects, the one
  pointing to the other, when the whole file has been accepted.  Errors keep the value of
  the error they wrap.
\<close>

type_synonym 'g si_hook = "('g \<Rightarrow> gostring \<Rightarrow> u8 list \<Rightarrow> SegmentInfo option outcome) option"

fun read_dv_entries :: "('g, 'i) index_input \<Rightarrow> nat \<Rightarrow> (int \<times> gostring list) list
    \<Rightarrow> ('g \<times> 'i ChecksumIndexInput, (int \<times> gostring list) list) ract" where
  "read_dv_entries I 0 m = ret_ract m"
| "read_dv_entries I (Suc n) m =
     bind_ract (ReadBEInt (ii_data (ci_index_input I))) (\<lambda>key.
     bind_ract (ReadSetOfStrings (ci_core I)) (\<lambda>val.
       read_dv_entries I n (AList.update (sint key) (remdups val) m)))"

definition readDVUpdateFilesLucene :: "('g, 'i) index_input \<Rightarrow> ('g \<times> 'i ChecksumIndexInput, (int \<times> gostring list) list) ract" where
  "readDVUpdateFilesLucene I =
     bind_ract (ReadBEInt (ii_data (ci_index_input I))) (\<lambda>n.
       if n = 0 then ret_ract [] else read_dv_entries I (nat (sint n)) [])"

text \<open>The info of the segment: what the hook reads from the \<^verbatim>\<open>.si\<close> file, or a placeholder.\<close>

definition placeholder_info :: "gostring \<Rightarrow> u8 list \<Rightarrow> gostring \<Rightarrow> SegmentInfo" where
  "placeholder_info name iid codec =
     si_SetFiles [name @ str ''.si''] ((snd (si_SetID iid (NewSegmentInfo name 0)))\<lparr>si_codecName := codec\<rparr>)"

definition resolve_info :: "'g si_hook \<Rightarrow> 'g \<Rightarrow> gostring \<Rightarrow> u8 list \<Rightarrow> gostring \<Rightarrow> SegmentInfo outcome" where
  "resolve_info hook g name iid codec =
     (case hook of None \<Rightarrow> Ok (placeholder_info name iid codec)
      | Some rd \<Rightarrow>
          (case rd g name iid of
             Ok (Some full) \<Rightarrow> Ok (snd (si_SetID iid (full\<lparr>si_codecName := codec\<rparr>)))
           | Panic p \<Rightarrow> Panic p
           | _ \<Rightarrow> Ok (placeholder_info name iid codec)))"

definition readSegmentCommitInfoLucene104 :: "'g si_hook \<Rightarrow> ('g, 'i) index_input
    \<Rightarrow> ('g \<times> 'i ChecksumIndexInput, SegmentCommitInfo \<times> SegmentInfo) ract" where
  "readSegmentCommitInfoLucene104 hook I =
     (let inp = ii_data (ci_index_input I); C = ci_core I
      in bind_ract (ReadString C) (\<lambda>name.
         bind_ract (lift_ract (ci_ReadBytesN I 16)) (\<lambda>iid.
         bind_ract (ReadString C) (\<lambda>codec.
         bind_ract (ReadBELong inp) (\<lambda>delGen.
         bind_ract (ReadBEInt inp) (\<lambda>delCount.
         bind_ract (ReadBELong inp) (\<lambda>fieldInfosGen.
         bind_ract (ReadBELong inp) (\<lambda>docValuesGen.
         bind_ract (ReadBEInt inp) (\<lambda>softDelCount.
         bind_ract (ReadByte C) (\<lambda>hasSciID.
         bind_ract (if hasSciID = 1 then lift_ract (ci_ReadBytesN I 16) else ret_ract []) (\<lambda>sciID.
         bind_ract (ReadSetOfStrings C) (\<lambda>fieldInfosFiles.
         bind_ract (readDVUpdateFilesLucene I) (\<lambda>docValuesUpdatesFiles.
         bind_ract (\<lambda>s. of_outcome (resolve_info hook (fst s) name iid codec) s) (\<lambda>segInfo.
           ret_ract ((NewSegmentCommitInfo 0 (sint delCount) delGen)\<lparr>sci_fieldInfosGen := fieldInfosGen,
               sci_docValuesGen := docValuesGen, sci_softDelCount := sint softDelCount, sci_id := sciID,
               sci_fieldInfosFiles := remdups fieldInfosFiles, sci_docValuesUpdatesFiles := docValuesUpdatesFiles\<rparr>,
             segInfo)))))))))))))))"

fun read_segments :: "'g si_hook \<Rightarrow> ('g, 'i) index_input \<Rightarrow> nat \<Rightarrow> (SegmentCommitInfo \<times> SegmentInfo) list
    \<Rightarrow> ('g \<times> 'i ChecksumIndexInput, (SegmentCommitInfo \<times> SegmentInfo) list) ract" where
  "read_segments hook I 0 acc = ret_ract acc"
| "read_segments hook I (Suc n) acc =
     bind_ract (readSegmentCommitInfoLucene104 hook I) (\<lambda>x. read_segments hook I n (acc @ [x]))"

text \<open>The first segment with sort fields gives the sort of the index.\<close>

definition first_sort :: "(SegmentCommitInfo \<times> SegmentInfo) list \<Rightarrow> Sort option" where
  "first_sort segs = (case filter (\<lambda>x. case si_indexSort (snd x) of None \<Rightarrow> False | Some sfs \<Rightarrow> sfs \<noteq> []) segs of
     [] \<Rightarrow> None | x # _ \<Rightarrow> si_indexSort (snd x))"

definition map_lookup :: "(gostring \<rightharpoonup> gostring) \<Rightarrow> gostring \<Rightarrow> gostring" where
  "map_lookup m k = (case m k of None \<Rightarrow> [] | Some v \<Rightarrow> v)"

text \<open>
  A segment that has been read and has no address yet: its commit info, its info and, where
  the reader sets them, its fields.
\<close>

type_synonym segment_read = "(SegmentCommitInfo \<times> SegmentInfo) \<times> FieldInfos option"

definition no_fields :: "(SegmentCommitInfo \<times> SegmentInfo) list \<Rightarrow> segment_read list" where
  "no_fields segs = map (\<lambda>x. (x, None)) segs"

definition restore_one :: "(gostring \<rightharpoonup> gostring) \<Rightarrow> SegmentCommitInfo \<times> SegmentInfo \<Rightarrow> segment_read outcome" where
  "restore_one userData x =
     (case x of (sci, info) \<Rightarrow>
        let dcStr = map_lookup userData (str ''_gocene_dc_'' @ si_name info);
            fiEnc = map_lookup userData (str ''_gocene_fi_'' @ si_name info)
        in bind_out (if dcStr \<noteq> []
                     then (case Atoi dcStr of None \<Rightarrow> Err (Errorf ''invalid _gocene_dc_'') | Some dc \<Rightarrow> Ok (si_SetDocCount (sint dc) info))
                     else Ok info) (\<lambda>info'.
           if fiEnc \<noteq> []
           then bind_out (decodeFieldInfosFromUserData fiEnc) (\<lambda>fis. Ok ((sci, info'), fis))
           else Ok ((sci, info'), None)))"

fun restoreGoceneExtensions :: "bool \<Rightarrow> (gostring \<rightharpoonup> gostring) \<Rightarrow> (SegmentCommitInfo \<times> SegmentInfo) list
    \<Rightarrow> segment_read list outcome" where
  "restoreGoceneExtensions hookRegistered userData [] = Ok []"
| "restoreGoceneExtensions hookRegistered userData (x # xs) =
     bind_out (if hookRegistered then Ok (x, None) else restore_one userData x) (\<lambda>y.
     bind_out (restoreGoceneExtensions hookRegistered userData xs) (\<lambda>ys. Ok (y # ys)))"

definition cleaned :: "(gostring \<rightharpoonup> gostring) \<Rightarrow> gostring \<rightharpoonup> gostring" where
  "cleaned userData = (\<lambda>k. if HasPrefix k (str ''_gocene_'') then None else userData k)"

definition goceneExtVersion :: gostring where "goceneExtVersion = str ''1''"

definition read_body :: "'g si_hook \<Rightarrow> ('g, 'i) index_input \<Rightarrow> i64
    \<Rightarrow> ('g \<times> 'i ChecksumIndexInput, SegmentInfos \<times> segment_read list) ract" where
  "read_body hook I maxGen =
     (let inp = ii_data (ci_index_input I); C = ci_core I
      in bind_ract (spi_CheckIndexHeader inp (str ''segments'') 10 10 None (FormatInt maxGen 36)) (\<lambda>_.
         bind_ract (ReadVInt C) (\<lambda>major.
         bind_ract (ReadVInt C) (\<lambda>minor.
         bind_ract (ReadVInt C) (\<lambda>bugfix.
         bind_ract (ReadVInt C) (\<lambda>createdMajor.
         bind_ract (ReadBELong inp) (\<lambda>version.
         bind_ract (ReadVLong C) (\<lambda>counter.
         bind_ract (ReadBEInt inp) (\<lambda>numSegments.
           if sint numSegments < 0 then fail_ract (Errorf ''invalid segment count'')
           else bind_ract (if sint numSegments > 0
                           then bind_ract (ReadVInt C) (\<lambda>_. bind_ract (ReadVInt C) (\<lambda>_. bind_ract (ReadVInt C) (\<lambda>_. ret_ract ())))
                           else ret_ract ()) (\<lambda>_.
                bind_ract (of_outcome NewSegmentInfos) (\<lambda>si0.
                bind_ract (read_segments hook I (nat (sint numSegments)) []) (\<lambda>segs.
                bind_ract (ReadMapOfStrings C) (\<lambda>userData.
                bind_ract (spi_CheckFooter I) (\<lambda>_.
                  let si = si0\<lparr>sis_generation := maxGen, sis_lastGeneration := maxGen, sis_version := version,
                        sis_indexCreatedVersionMajor := createdMajor, sis_luceneVersion := Sprintf_version major minor bugfix,
                        sis_counter := counter, sis_inMemoryIndexSort := first_sort segs\<rparr>
                  in if map_lookup userData (str ''_gocene_fiv'') = goceneExtVersion
                     then bind_ract (of_outcome (restoreGoceneExtensions (hook \<noteq> None) userData segs)) (\<lambda>segs'.
                            ret_ract (si\<lparr>sis_userData := cleaned userData\<rparr>, segs'))
                     else ret_ract (si\<lparr>sis_userData := userData\<rparr>, no_fields segs)))))))))))))))"

definition alloc_fields :: "FieldInfos option \<Rightarrow> SegmentCommitInfo \<Rightarrow> seg_heap \<Rightarrow> SegmentCommitInfo \<times> seg_heap" where
  "alloc_fields fis sci h = (case fis of None \<Rightarrow> (sci, h)
     | Some f \<Rightarrow> (case new_field_infos f h of (r, h1) \<Rightarrow> (sci_SetInMemoryFieldInfos (Some r) sci, h1)))"

fun alloc_segments :: "segment_read list \<Rightarrow> seg_heap \<Rightarrow> nat list \<times> seg_heap" where
  "alloc_segments [] h = ([], h)"
| "alloc_segments (((sci, info), fis) # xs) h =
     (case new_info info h of (q, h1) \<Rightarrow>
      case alloc_fields fis (sci\<lparr>sci_Info := q\<rparr>) h1 of (sci', h2) \<Rightarrow>
      case new_sci sci' h2 of (p, h3) \<Rightarrow>
      case alloc_segments xs h3 of (ps, h4) \<Rightarrow> (p # ps, h4))"

definition finish_read :: "(SegmentInfos \<times> segment_read list) outcome \<Rightarrow> 'd \<times> seg_heap \<Rightarrow> SegmentInfos outcome \<times> ('d \<times> seg_heap)" where
  "finish_read r s = (case s of (d, h) \<Rightarrow>
     case r of Ok (si, segs) \<Rightarrow> (case alloc_segments segs h of (ps, h') \<Rightarrow> (Ok (si\<lparr>sis_segments := ps\<rparr>), (d, h')))
     | Err e \<Rightarrow> (Err e, (d, h)) | Panic p \<Rightarrow> (Panic p, (d, h)))"

definition readSegmentInfosLucene104 :: "'d si_hook \<Rightarrow> ('d, 'i, 'o) directory \<Rightarrow> 'i \<Rightarrow> i64 \<Rightarrow> ('d \<times> seg_heap, SegmentInfos) ract" where
  "readSegmentInfosLucene104 hook D rawIn maxGen s =
     (case s of (d, h) \<Rightarrow>
        case dir_OpenInput D (GetSegmentsFileName maxGen) (fst (ii_Close (dir_input D) (d, rawIn))) of
          (Err e, d2) \<Rightarrow> Some (Err e, (d2, h))
        | (Panic p, d2) \<Rightarrow> Some (Panic p, (d2, h))
        | (Ok in2, d2) \<Rightarrow>
            (case read_body hook (dir_input D) maxGen (d2, NewChecksumIndexInput in2) of
               None \<Rightarrow> None
             | Some (r, s3) \<Rightarrow> Some (finish_read r (fst (ci_Close (dir_input D) s3), h))))"

definition ReadSegmentInfosFromHandle :: "'d si_hook \<Rightarrow> ('d, 'i, 'o) directory \<Rightarrow> 'i \<Rightarrow> i64 \<Rightarrow> ('d \<times> seg_heap, SegmentInfos) ract" where
  "ReadSegmentInfosFromHandle hook D rawIn generation = readSegmentInfosLucene104 hook D rawIn generation"

section \<open>The legacy format\<close>

text \<open>A read whose error the code handles itself: panics and divergence pass through.\<close>

definition try_ract :: "('s, 'a) ract \<Rightarrow> ('a option \<Rightarrow> ('s, 'b) ract) \<Rightarrow> ('s, 'b) ract" where
  "try_ract m k s = (case m s of None \<Rightarrow> None
     | Some (Ok x, s1) \<Rightarrow> k (Some x) s1 | Some (Err e, s1) \<Rightarrow> k None s1 | Some (Panic p, s1) \<Rightarrow> Some (Panic p, s1))"

definition NewSortFieldFull :: "gostring \<Rightarrow> int \<Rightarrow> bool \<Rightarrow> SortField outcome" where
  "NewSortFieldFull field sortType descending =
     (if field = [] \<and> sortType \<noteq> 0 \<and> sortType \<noteq> 1 then Panic ''field can only be null when type is SCORE or DOC''
      else Ok \<lparr>sf_Field = field, sf_Type = sortType, sf_Reverse = descending, sf_Selector = []\<rparr>)"

fun read_sort_fields :: "('d, 'i, 'o) directory \<Rightarrow> nat \<Rightarrow> Sort \<Rightarrow> ('d \<times> 'i, Sort) ract" where
  "read_sort_fields D 0 fs = ret_ract fs"
| "read_sort_fields D (Suc n) fs =
     bind_ract (ii_ReadString (dir_input D)) (\<lambda>fname.
     bind_ract (lift_ract (dir_ReadInt D)) (\<lambda>stRaw.
     bind_ract (lift_ract (dir_ReadInt D)) (\<lambda>descRaw.
     bind_ract (of_outcome (NewSortFieldFull fname (sint stRaw) (descRaw \<noteq> 0))) (\<lambda>f.
       read_sort_fields D n (fs @ [f])))))"

definition legacy_options :: "i32 \<Rightarrow> i32 \<Rightarrow> i32 \<Rightarrow> FieldInfoOptions" where
  "legacy_options ioRaw dvRaw flags = zero_options\<lparr>op_IndexOptions := sint ioRaw, op_DocValuesType := sint dvRaw,
     op_DocValuesSkipIndexType := DocValuesSkipIndexTypeNone, op_DocValuesGen := - 1,
     op_Stored := flags AND 1 \<noteq> 0, op_Tokenized := flags AND 2 \<noteq> 0, op_StoreTermVectors := flags AND 4 \<noteq> 0,
     op_OmitNorms := flags AND 8 \<noteq> 0, op_VectorEncoding := VectorEncodingFloat32,
     op_VectorSimilarityFunction := Some EuclideanSim\<rparr>"

fun read_legacy_fields :: "('d, 'i, 'o) directory \<Rightarrow> nat \<Rightarrow> FieldInfos \<Rightarrow> ('d \<times> 'i, FieldInfos) ract" where
  "read_legacy_fields D 0 fis = ret_ract fis"
| "read_legacy_fields D (Suc n) fis =
     bind_ract (ii_ReadString (dir_input D)) (\<lambda>fname.
     bind_ract (lift_ract (dir_ReadInt D)) (\<lambda>fnum.
     bind_ract (lift_ract (dir_ReadInt D)) (\<lambda>ioRaw.
     bind_ract (lift_ract (dir_ReadInt D)) (\<lambda>dvRaw.
     bind_ract (lift_ract (dir_ReadInt D)) (\<lambda>flags.
       case fis_Add (NewFieldInfo fname (sint fnum) (legacy_options ioRaw dvRaw flags)) fis of
         (Panic p, _) \<Rightarrow> panic_ract p | (_, fis') \<Rightarrow> read_legacy_fields D n fis')))))"

fun read_ordinals :: "('d, 'i, 'o) directory \<Rightarrow> nat \<Rightarrow> int list \<Rightarrow> ('d \<times> 'i, int list) ract" where
  "read_ordinals D 0 ords = ret_ract ords"
| "read_ordinals D (Suc n) ords = bind_ract (lift_ract (dir_ReadInt D)) (\<lambda>ord. read_ordinals D n (ords @ [sint ord]))"

text \<open>
  One segment: the segment is added to the list where the optional parts are missing, and
  not after they have all been read.
\<close>

definition read_legacy_segment :: "('d, 'i, 'o) directory \<Rightarrow> segment_read list
    \<Rightarrow> ('d \<times> 'i, segment_read list) ract" where
  "read_legacy_segment D acc =
     bind_ract (ii_ReadString (dir_input D)) (\<lambda>name.
     bind_ract (lift_ract (dir_ReadInt D)) (\<lambda>docCount.
     bind_ract (lift_ract (dir_ReadInt D)) (\<lambda>delCount.
     bind_ract (lift_ract (dir_ReadInt D)) (\<lambda>softDelCount.
     bind_ract (lift_ract (dir_ReadBytesN D 16)) (\<lambda>iid.
       let info = si_SetFiles [name @ str ''.si''] (snd (si_SetID iid (NewSegmentInfo name (sint docCount))));
           sci0 = NewSegmentCommitInfo 0 (sint delCount) (- 1);
           sci = (if sint softDelCount > 0 then sci0\<lparr>sci_softDelCount := sint softDelCount\<rparr> else sci0)
       in try_ract (lift_ract (dir_ReadInt D)) (\<lambda>numFields.
            case numFields of None \<Rightarrow> ret_ract (acc @ [((sci, info), None)])
            | Some nf \<Rightarrow>
                bind_ract (if sint nf > 0
                           then bind_ract (of_outcome (NewFieldInfos [])) (\<lambda>fis0.
                                bind_ract (read_legacy_fields D (nat (sint nf)) fis0) (\<lambda>fis.
                                  ret_ract (Some fis)))
                           else ret_ract None) (\<lambda>fields.
                  try_ract (lift_ract (dir_ReadInt D)) (\<lambda>numDel.
                    case numDel of None \<Rightarrow> ret_ract (acc @ [((sci, info), fields)])
                    | Some nd \<Rightarrow> bind_ract (read_ordinals D (nat (sint nd)) []) (\<lambda>ords. ret_ract acc)))))))))"

fun read_legacy_segments :: "('d, 'i, 'o) directory \<Rightarrow> nat \<Rightarrow> segment_read list
    \<Rightarrow> ('d \<times> 'i, segment_read list) ract" where
  "read_legacy_segments D 0 acc = ret_ract acc"
| "read_legacy_segments D (Suc n) acc = bind_ract (read_legacy_segment D acc) (read_legacy_segments D n)"

definition legacy_infos :: "i64 \<Rightarrow> i64 \<Rightarrow> i32 \<Rightarrow> gostring \<Rightarrow> i64 \<Rightarrow> SegmentInfos outcome" where
  "legacy_infos gen version createdMajor luceneVersion counter =
     bind_out NewSegmentInfos (\<lambda>si. Ok (si\<lparr>sis_generation := gen, sis_lastGeneration := gen, sis_version := version,
       sis_indexCreatedVersionMajor := createdMajor, sis_luceneVersion := luceneVersion, sis_counter := counter\<rparr>))"

definition readSegmentInfosLegacy :: "('d, 'i, 'o) directory \<Rightarrow> ('d \<times> 'i, SegmentInfos \<times> segment_read list) ract" where
  "readSegmentInfosLegacy D =
     bind_ract (lift_ract (dir_ReadLong D)) (\<lambda>gen.
     bind_ract (lift_ract (dir_ReadLong D)) (\<lambda>version.
     bind_ract (lift_ract (dir_ReadInt D)) (\<lambda>createdMajor.
     bind_ract (ii_ReadString (dir_input D)) (\<lambda>luceneVersion.
     bind_ract (lift_ract (dir_ReadLong D)) (\<lambda>counter.
       let new = (\<lambda>f. bind_ract (of_outcome (legacy_infos gen version createdMajor luceneVersion counter)) (\<lambda>si. f si))
       in try_ract (ii_ReadString (dir_input D)) (\<lambda>parentField.
            case parentField of None \<Rightarrow> new (\<lambda>si. ret_ract (si, []))
            | Some pf \<Rightarrow> try_ract (lift_ract (dir_ReadInt D)) (\<lambda>numSortFields.
                case numSortFields of None \<Rightarrow> new (\<lambda>si. ret_ract (si\<lparr>sis_inMemoryParentField := pf\<rparr>, []))
                | Some ns \<Rightarrow>
                    bind_ract (if sint ns > 0
                               then bind_ract (read_sort_fields D (nat (sint ns)) []) (\<lambda>fs. ret_ract (Some fs))
                               else ret_ract None) (\<lambda>indexSort.
                    bind_ract (lift_ract (dir_ReadInt D)) (\<lambda>numSegments.
                      new (\<lambda>si. bind_ract (read_legacy_segments D (nat (sint numSegments)) []) (\<lambda>segs.
                        ret_ract (si\<lparr>sis_inMemoryParentField := pf, sis_inMemoryIndexSort := indexSort\<rparr>, segs))))))))))))"

section \<open>Opening the latest commit\<close>

text \<open>The loop over the listing, with \<open>maxGen\<close> and \<open>latestFile\<close>.\<close>

fun latest_loop :: "gostring list \<Rightarrow> i64 \<times> gostring \<Rightarrow> i64 \<times> gostring" where
  "latest_loop [] best = best"
| "latest_loop (file # files) best =
     latest_loop files
       (if length file > 9 \<and> take 9 file = str ''segments_''
        then case ParseInt (drop 9 file) 36 of None \<Rightarrow> best
             | Some gen \<Rightarrow> if sint gen > sint (fst best) then (gen, file) else best
        else best)"

definition ReadSegmentInfos :: "'d si_hook \<Rightarrow> ('d, 'i, 'o) directory \<Rightarrow> ('d \<times> seg_heap, SegmentInfos) ract" where
  "ReadSegmentInfos hook D s =
     (case s of (d, h) \<Rightarrow>
        case dir_ListAll D d of
          (Err e, d1) \<Rightarrow> Some (Err e, (d1, h))
        | (Panic p, d1) \<Rightarrow> Some (Panic p, (d1, h))
        | (Ok files, d1) \<Rightarrow>
            (case latest_loop files (- 1, []) of (maxGen, latestFile) \<Rightarrow>
               if sint maxGen < 0 then Some (Err (Errorf ''no segments* file found in directory''), (d1, h))
               else case dir_OpenInput D latestFile d1 of
                 (Err e, d2) \<Rightarrow> Some (Err e, (d2, h))
               | (Panic p, d2) \<Rightarrow> Some (Panic p, (d2, h))
               | (Ok rawIn, d2) \<Rightarrow>
                   (case ReadBEInt (ii_data (dir_input D)) (d2, rawIn) of
                      None \<Rightarrow> None
                    | Some (Panic p, (d3, i)) \<Rightarrow> Some (Panic p, (d3, h))
                    | Some (Err e, s3) \<Rightarrow> Some (Err e, (fst (ii_Close (dir_input D) s3), h))
                    | Some (Ok magic, s3) \<Rightarrow>
                        if magic = CODEC_MAGIC then readSegmentInfosLucene104 hook D (snd s3) maxGen (fst s3, h)
                        else if magic = 0x3d767
                        then (case readSegmentInfosLegacy D s3 of
                                None \<Rightarrow> None
                              | Some (r, s4) \<Rightarrow> Some (finish_read r (fst (ii_Close (dir_input D) s4), h)))
                        else Some (Err (Errorf ''invalid segments file magic''), (fst (ii_Close (dir_input D) s3), h)))))"

definition ReadLatestCommit :: "'d si_hook \<Rightarrow> ('d, 'i, 'o) directory \<Rightarrow> ('d \<times> seg_heap, SegmentInfos) ract" where
  "ReadLatestCommit hook D = ReadSegmentInfos hook D"

definition ReadCommit :: "'d si_hook \<Rightarrow> ('d, 'i, 'o) directory \<Rightarrow> gostring \<Rightarrow> ('d \<times> seg_heap, SegmentInfos) ract" where
  "ReadCommit hook D fileName s =
     (case s of (d, h) \<Rightarrow>
        if length fileName < 9 \<or> take 9 fileName \<noteq> str ''segments_'' then Some (Err (Errorf ''invalid segments file name''), s)
        else case ParseInt (drop 9 fileName) 36 of
          None \<Rightarrow> Some (Err (Errorf ''invalid generation in file name''), s)
        | Some gen \<Rightarrow>
            (case dir_OpenInput D fileName d of
               (Err e, d2) \<Rightarrow> Some (Err e, (d2, h))
             | (Panic p, d2) \<Rightarrow> Some (Panic p, (d2, h))
             | (Ok rawIn, d2) \<Rightarrow> ReadSegmentInfosFromHandle hook D rawIn gen (d2, h)))"

end
