(* ===== verification/Segment_Format.thy ===== *)
theory Segment_Format
  imports Segment_Commit
begin

text \<open>
  The format of the file \<^verbatim>\<open>segments_N\<close> as bytes: what the writer of \<open>Segment_Commit\<close> appends to any
  output that keeps the locale \<open>checksum_sink\<close>, and what its reader returns from any input that
  keeps \<open>index_reader\<close>.  The format holds only some values (\<open>storable\<close>); for those the reader
  returns what was written.
\<close>

section \<open>The bytes of a commit\<close>

definition triple_bytes :: "i32 \<times> i32 \<times> i32 \<Rightarrow> u8 list" where
  "triple_bytes v = (case v of (maj, mnr, bug) \<Rightarrow> vbytes (unat maj) @ vbytes (unat mnr) @ vbytes (unat bug))"

definition dv_bytes :: "(int \<times> gostring list) list \<Rightarrow> u8 list" where
  "dv_bytes m = be_int (of_nat (length m)) @ concat (map (\<lambda>(k, files). be_int (of_int k) @ set_bytes files) m)"

definition written_id :: "SegmentInfo \<Rightarrow> u8 list" where
  "written_id info = (if length (si_id info) \<noteq> 16 then replicate 16 0 else si_id info)"

definition sci_bytes :: "SegmentCommitInfo \<Rightarrow> SegmentInfo \<Rightarrow> u8 list" where
  "sci_bytes sci info =
     string_bytes (si_name info) @ written_id info @ string_bytes (si_CodecName info) @ be_long (sci_delGen sci) @
     be_int (of_int (sci_delCount sci)) @ be_long (sci_fieldInfosGen sci) @ be_long (sci_docValuesGen sci) @
     be_int (of_int (sci_softDelCount sci)) @ (if length (sci_id sci) = 16 then 1 # sci_id sci else [0]) @
     set_bytes (sci_fieldInfosFiles sci) @ dv_bytes (sci_docValuesUpdatesFiles sci)"

definition segment_bytes :: "seg_heap \<Rightarrow> nat \<Rightarrow> u8 list" where
  "segment_bytes h p = sci_bytes (sci_at h p) (info_of h p)"

definition body_bytes :: "(gostring \<times> gostring) list \<Rightarrow> seg_heap \<Rightarrow> SegmentInfos \<Rightarrow> u8 list" where
  "body_bytes kvs h si =
     triple_bytes (Sscanf_version (sis_luceneVersion si)) @ vbytes (unat (sis_indexCreatedVersionMajor si)) @
     be_long (sis_version si) @ vbytes (unat (sis_counter si)) @ be_int (of_nat (length (sis_segments si))) @
     (if sis_segments si \<noteq> [] then triple_bytes (minSegmentVersion h (sis_segments si)) else []) @
     concat (map (segment_bytes h) (sis_segments si)) @ map_bytes kvs"

definition content_bytes :: "u8 list \<Rightarrow> (gostring \<times> gostring) list \<Rightarrow> seg_heap \<Rightarrow> SegmentInfos \<Rightarrow> u8 list" where
  "content_bytes iid kvs h si =
     index_header_bytes (str ''segments'') 10 iid (FormatInt (sis_generation si) 36) @ body_bytes kvs h si"

definition file_bytes :: "u8 list \<Rightarrow> (gostring \<times> gostring) list \<Rightarrow> seg_heap \<Rightarrow> SegmentInfos \<Rightarrow> u8 list" where
  "file_bytes iid kvs h si = content_bytes iid kvs h si @ footer_bytes (content_bytes iid kvs h si)"

text \<open>
  What the format can hold: strings and sets of less than \<open>2 ^ 31\<close> elements, counts and
  generations of field updates in the range of 32 bits, and no negative value where a
  variable-length integer is written.  Sets and maps have no duplicates.
\<close>

definition short_strings :: "gostring list \<Rightarrow> bool" where
  "short_strings vs \<longleftrightarrow> length vs < 2 ^ 31 \<and> list_all (\<lambda>s. length s < 2 ^ 31) vs"

definition in_int32 :: "int \<Rightarrow> bool" where
  "in_int32 k \<longleftrightarrow> - (2 ^ 31) \<le> k \<and> k < 2 ^ 31"

definition nonneg_version :: "i32 \<times> i32 \<times> i32 \<Rightarrow> bool" where
  "nonneg_version v = (case v of (maj, mnr, bug) \<Rightarrow> 0 \<le> sint maj \<and> 0 \<le> sint mnr \<and> 0 \<le> sint bug)"

definition storable_dv :: "(int \<times> gostring list) list \<Rightarrow> bool" where
  "storable_dv m \<longleftrightarrow> length m < 2 ^ 31 \<and> distinct (map fst m)
     \<and> list_all (\<lambda>(k, files). in_int32 k \<and> short_strings files \<and> distinct files) m"

definition storable_sci :: "SegmentCommitInfo \<Rightarrow> SegmentInfo \<Rightarrow> bool" where
  "storable_sci sci info \<longleftrightarrow> length (si_name info) < 2 ^ 31 \<and> length (si_CodecName info) < 2 ^ 31
     \<and> nonneg_version (Sscanf_version (si_version info)) \<and> in_int32 (sci_delCount sci) \<and> in_int32 (sci_softDelCount sci)
     \<and> short_strings (sci_fieldInfosFiles sci) \<and> distinct (sci_fieldInfosFiles sci) \<and> storable_dv (sci_docValuesUpdatesFiles sci)"

definition storable_data :: "(gostring \<times> gostring) list \<Rightarrow> bool" where
  "storable_data kvs \<longleftrightarrow> length kvs < 2 ^ 31 \<and> distinct (map fst kvs) \<and> list_all (\<lambda>(k, v). length k < 2 ^ 31 \<and> length v < 2 ^ 31) kvs"

definition storable :: "(gostring \<times> gostring) list \<Rightarrow> seg_heap \<Rightarrow> SegmentInfos \<Rightarrow> bool" where
  "storable kvs h si \<longleftrightarrow> nonneg_version (Sscanf_version (sis_luceneVersion si)) \<and> 0 \<le> sint (sis_indexCreatedVersionMajor si)
     \<and> 0 \<le> sint (sis_counter si) \<and> length (sis_segments si) < 2 ^ 31
     \<and> list_all (\<lambda>p. storable_sci (sci_at h p) (info_of h p)) (sis_segments si) \<and> storable_data kvs"

lemma nonneg_min_version:
  "list_all (\<lambda>s. nonneg_version (Sscanf_version s)) vs \<Longrightarrow> (\<forall>c v. best = Some (c, v) \<longrightarrow> nonneg_version v) \<Longrightarrow>
   nonneg_version (min_version_loop vs best)"
proof (induction vs arbitrary: best)
  case Nil
  then show ?case by (cases best) (auto simp: nonneg_version_def)
next
  case (Cons s vs)
  obtain maj mnr bug where v: "Sscanf_version s = (maj, mnr, bug)" by (cases "Sscanf_version s")
  have nn: "nonneg_version (maj, mnr, bug)" using Cons.prems(1) v by simp
  show ?case unfolding min_version_loop.simps v prod.case Let_def
    by (rule Cons.IH) (use Cons.prems nn in \<open>auto split: option.splits if_splits\<close>)
qed

lemma storable_min_version: "storable kvs h si \<Longrightarrow> nonneg_version (minSegmentVersion h (sis_segments si))"
  unfolding minSegmentVersion_def
  by (rule nonneg_min_version) (auto simp: storable_def storable_sci_def list_all_iff)

context checksum_sink
begin

lemma co_WriteByte_writes: "co_writes (co_WriteByte OT b) [b]"
  using ck.WriteByte_writes [of b] by (simp add: WriteByte_def co_primitive_def)

lemma co_length_writes: "n < 2 ^ 31 \<Longrightarrow> co_writes (co_WriteVInt OT (of_nat n)) (vbytes n)"
  using co_WriteVInt_writes [of "of_nat n"] bbi.len_i32 [of n] by simp

lemma co_write_strings_writes:
  "list_all (\<lambda>s. length s < 2 ^ 31) vs \<Longrightarrow> co_writes (co_write_strings OT vs) (concat (map string_bytes vs))"
  by (induction vs) (auto simp: writes_ret intro!: writes_seq co_WriteString_writes)

lemma co_WriteSetOfStrings_writes: "short_strings vs \<Longrightarrow> co_writes (co_WriteSetOfStrings OT vs) (set_bytes vs)"
  unfolding co_WriteSetOfStrings_def set_bytes_def short_strings_def
  by (intro writes_seq co_length_writes co_write_strings_writes) simp_all

lemma co_write_pairs_writes:
  "list_all (\<lambda>(k, v). length k < 2 ^ 31 \<and> length v < 2 ^ 31) kvs \<Longrightarrow>
   co_writes (co_write_pairs OT kvs) (concat (map (\<lambda>(k, v). string_bytes k @ string_bytes v) kvs))"
  by (induction kvs) (auto simp: writes_ret intro!: writes_seq co_WriteString_writes)

lemma co_WriteMapOfStrings_writes: "storable_data kvs \<Longrightarrow> co_writes (co_WriteMapOfStrings OT kvs) (map_bytes kvs)"
  unfolding co_WriteMapOfStrings_def map_bytes_def storable_data_def
  by (intro writes_seq co_length_writes co_write_pairs_writes) simp_all

lemma write_triple_writes: "nonneg_version v \<Longrightarrow> co_writes (write_triple OT v) (triple_bytes v)"
  unfolding write_triple_def triple_bytes_def nonneg_version_def
  by (cases v) (auto intro!: writes_seq co_WriteVInt_writes)

lemma write_dv_writes: "storable_dv m \<Longrightarrow> co_writes (writeDVUpdateFilesLucene OT m) (dv_bytes m)"
proof -
  have "list_all (\<lambda>(k, files). short_strings files) m \<Longrightarrow>
      co_writes (write_dv_entries OT m) (concat (map (\<lambda>(k, files). be_int (of_int k) @ set_bytes files) m))" for m
    by (induction m) (auto simp: writes_ret intro!: writes_seq cs.WriteBEInt_writes co_WriteSetOfStrings_writes)
  then show "storable_dv m \<Longrightarrow> co_writes (writeDVUpdateFilesLucene OT m) (dv_bytes m)"
    unfolding writeDVUpdateFilesLucene_def dv_bytes_def storable_dv_def
    by (intro writes_seq cs.WriteBEInt_writes) (auto simp: list_all_iff split_beta)
qed

lemma write_segment_writes:
  assumes "storable_sci (sci_at h p) (info_of h p)"
  shows "co_writes (writeSegmentCommitInfoLucene104 OT h p) (segment_bytes h p)"
proof -
  let ?s = "sci_at h p"
  have "co_writes (if length (sci_id ?s) = 16
        then seq_act (co_WriteByte OT 1) (co_WriteBytes OT (sci_id ?s) 0 (int (length (sci_id ?s)))) else co_WriteByte OT 0)
      (if length (sci_id ?s) = 16 then 1 # sci_id ?s else [0])"
    using writes_Cons [OF co_WriteByte_writes co_WriteBytes_writes, of 1 "sci_id ?s"] co_WriteByte_writes [of 0]
    by (cases "length (sci_id ?s) = 16") simp_all
  then show ?thesis using assms
    unfolding writeSegmentCommitInfoLucene104_def Let_def segment_bytes_def sci_bytes_def written_id_def [symmetric] sci_Name_def
      storable_sci_def
    by (intro writes_seq co_WriteString_writes co_WriteBytes_writes cs.WriteBELong_writes cs.WriteBEInt_writes
        co_WriteSetOfStrings_writes write_dv_writes) simp_all
qed

lemma write_segments_writes:
  "list_all (\<lambda>p. storable_sci (sci_at h p) (info_of h p)) ps \<Longrightarrow>
   co_writes (write_segments OT h ps) (concat (map (segment_bytes h) ps))"
  by (induction ps) (auto simp: writes_ret intro!: writes_seq write_segment_writes)

lemma write_body_writes:
  assumes "storable (rng (sis_userData si)) h si"
  shows "co_writes (write_body rng OT h si) (body_bytes (rng (sis_userData si)) h si)"
proof -
  have "co_writes (if sis_segments si \<noteq> [] then write_triple OT (minSegmentVersion h (sis_segments si)) else ret_act ())
      (if sis_segments si \<noteq> [] then triple_bytes (minSegmentVersion h (sis_segments si)) else [])"
    using write_triple_writes [OF storable_min_version [OF assms]] by (simp add: writes_ret)
  then show ?thesis using assms
    unfolding write_body_def body_bytes_def storable_def
    by (intro writes_seq write_triple_writes co_WriteVInt_writes cs.WriteBELong_writes co_WriteVLong_writes cs.WriteBEInt_writes
        write_segments_writes co_WriteMapOfStrings_writes) simp_all
qed

end

text \<open>The suffix of the header, the generation in base 36, fits its length byte.\<close>

lemma length_format_nat: "2 \<le> b \<Longrightarrow> n < b ^ Suc k \<Longrightarrow> length (format_nat b n) \<le> Suc k"
proof (induction b n arbitrary: k rule: format_nat.induct)
  case (1 b n)
  show ?case
  proof (cases "n < b")
    case True
    then show ?thesis by (simp add: format_nat.simps [of b n])
  next
    case False
    then obtain k' where k: "k = Suc k'" using "1.prems" by (cases k) auto
    have "n div b < b ^ Suc k'" using "1.prems" by (simp add: k less_mult_imp_div_less mult.commute)
    then have "length (format_nat b (n div b)) \<le> Suc k'" using 1 False by simp
    then show ?thesis using False "1.prems"(1) by (simp add: format_nat.simps [of b n] k)
  qed
qed

lemma length_FormatInt: "length (FormatInt g 36) < 256"
proof -
  have "- (2 ^ 63) \<le> sint g" "sint g < 2 ^ 63" using sint_ge [of g] sint_less [of g] by simp_all
  then have "nat \<bar>sint g\<bar> < 36 ^ Suc 12" by (simp add: nat_less_iff)
  then show ?thesis using length_format_nat [of 36 "nat \<bar>sint g\<bar>" 12]
    by (cases "sint g < 0") (simp_all add: FormatInt_def format_int_def)
qed

context checksum_sink
begin

lemma spi_WriteFooter_ok:
  assumes "co_ok ok written s" "16 \<le> on_wrapped room s"
  obtains s' where "spi_WriteFooter OT s = (Ok (), s')" "co_ok ok written s'"
    "on_wrapped written s' = on_wrapped written s @ footer_bytes (on_wrapped written s)"
proof -
  let ?o = "co_data_output OT"
  obtain s1 where s1: "WriteBEInt ?o FOOTER_MAGIC s = (Ok (), s1)" "co_ok ok written s1"
      "on_wrapped written s1 = on_wrapped written s @ be_int FOOTER_MAGIC" "on_wrapped room s1 = on_wrapped room s - length (be_int FOOTER_MAGIC)"
    by (rule writesD [OF cs.WriteBEInt_writes assms(1)]) (use assms(2) in simp_all)
  obtain s2 where s2: "WriteBEInt ?o 0 s1 = (Ok (), s2)" "co_ok ok written s2"
      "on_wrapped written s2 = on_wrapped written s1 @ be_int 0" "on_wrapped room s2 = on_wrapped room s1 - length (be_int 0)"
    by (rule writesD [OF cs.WriteBEInt_writes s1(2)]) (use assms(2) s1(4) in simp_all)
  have sum: "co_GetChecksum s2 = (file_crc (on_wrapped written s), s2)"
    using co_GetChecksum_ok [OF s2(2)] s1(3) s2(3) by (simp add: file_crc_def)
  obtain s3 where s3: "WriteBELong ?o (ucast (file_crc (on_wrapped written s))) s2 = (Ok (), s3)" "co_ok ok written s3"
      "on_wrapped written s3 = on_wrapped written s2 @ be_long (ucast (file_crc (on_wrapped written s)))"
    by (rule writesD [OF cs.WriteBELong_writes s2(2)]) (use assms(2) s1(4) s2(4) in simp_all)
  have "spi_WriteFooter OT s = (Ok (), s3)"
    using s1(1) s2(1) s3(1) sum by (simp add: spi_WriteFooter_def seq_act_Ok)
  then show thesis using that s1(3) s2(3) s3(2,3) by (simp add: footer_bytes_def)
qed

lemma sis_Write_ok:
  assumes "co_ok ok written s" "on_wrapped written s = []" "length iid = 16"
    and "storable (rng (sis_userData si)) h si"
    and "length (file_bytes iid (rng (sis_userData si)) h si) \<le> on_wrapped room s"
  obtains s' where "sis_Write rng (Ok iid) OT h si s = (Ok (), s')" "co_ok ok written s'"
    "on_wrapped written s' = file_bytes iid (rng (sis_userData si)) h si"
proof -
  let ?kvs = "rng (sis_userData si)" and ?hd = "spi_WriteIndexHeader (co_data_output OT) (str ''segments'') 10 (Some iid) (FormatInt (sis_generation si) 36)"
  have w: "co_writes (seq_act ?hd (write_body rng OT h si)) (content_bytes iid ?kvs h si)"
    unfolding content_bytes_def
    by (intro writes_seq cs.spi_WriteIndexHeader_writes write_body_writes assms(3,4) length_FormatInt) simp
  have len: "length (content_bytes iid ?kvs h si) + 16 \<le> on_wrapped room s" using assms(5) by (simp add: file_bytes_def)
  obtain s1 where s1: "seq_act ?hd (write_body rng OT h si) s = (Ok (), s1)" "co_ok ok written s1"
      "on_wrapped written s1 = content_bytes iid ?kvs h si" "on_wrapped room s1 = on_wrapped room s - length (content_bytes iid ?kvs h si)"
    by (rule writesD [OF w assms(1)]) (use len assms(2) in simp_all)
  obtain s2 where s2: "spi_WriteFooter OT s1 = (Ok (), s2)" "co_ok ok written s2"
      "on_wrapped written s2 = file_bytes iid ?kvs h si"
    by (rule spi_WriteFooter_ok [OF s1(2)]) (use len s1(3,4) in \<open>simp_all add: file_bytes_def\<close>)
  have "sis_Write rng (Ok iid) OT h si s = (Ok (), s2)"
    using s1(1) s2(1)
    by (auto simp: sis_Write_def lift_out_def bind_act_def seq_act_def split: prod.splits outcome.splits)
  then show thesis using that s2(2,3) by blast
qed

end


section \<open>Reading a commit back\<close>

text \<open>What a reader makes of a stored segment; \<open>fetch\<close> stands for what the hook gives for a name, an id and a codec.\<close>

definition read_sci :: "SegmentCommitInfo \<Rightarrow> SegmentCommitInfo" where
  "read_sci sci = (NewSegmentCommitInfo 0 (sci_delCount sci) (sci_delGen sci))\<lparr>sci_fieldInfosGen := sci_fieldInfosGen sci,
     sci_docValuesGen := sci_docValuesGen sci, sci_softDelCount := sci_softDelCount sci,
     sci_id := (if length (sci_id sci) = 16 then sci_id sci else []),
     sci_fieldInfosFiles := sci_fieldInfosFiles sci, sci_docValuesUpdatesFiles := sci_docValuesUpdatesFiles sci\<rparr>"

definition read_segment :: "(gostring \<Rightarrow> u8 list \<Rightarrow> gostring \<Rightarrow> SegmentInfo) \<Rightarrow> seg_heap \<Rightarrow> nat \<Rightarrow> SegmentCommitInfo \<times> SegmentInfo" where
  "read_segment fetch h p =
     (read_sci (sci_at h p), fetch (si_name (info_of h p)) (written_id (info_of h p)) (si_CodecName (info_of h p)))"

lemma AList_update_fresh: "k \<notin> fst ` set m \<Longrightarrow> AList.update k v m = m @ [(k, v)]"
  by (induction m) auto

lemma in_int32_sint: "in_int32 k \<Longrightarrow> sint (of_int k :: i32) = k"
  by (simp add: in_int32_def sint_sbintrunc' signed_take_bit_int_eq_self)

lemma length_written_id [simp]: "length (written_id info) = 16"
  by (simp add: written_id_def)

lemma reads_pure: "(\<And>s. ok s \<Longrightarrow> f s = Ok v) \<Longrightarrow> reads ok rest (\<lambda>s. of_outcome (f s) s) [] v"
  by (auto simp: reads_def of_outcome_def ret_ract_def)

context index_reader
begin

abbreviation cr where
  "cr B \<equiv> reads (ci_ok I okc B) (ci_rest restc)"

lemma ci_ReadBytesN_reads: "length bs = nat n \<Longrightarrow> 0 \<le> n \<Longrightarrow> cr B (lift_ract (ci_ReadBytesN I n)) bs bs"
  using ck.ReadBytes_reads [of B bs] by (simp add: ReadBytes_def ci_ReadBytesN_def ci_core_def)

lemma set_reads: "short_strings vs \<Longrightarrow> cr B (ReadSetOfStrings (ci_core I)) (set_bytes vs) vs"
  unfolding short_strings_def by (intro ck.ReadSetOfStrings_reads) simp_all

lemma read_dv_entries_reads:
  "list_all (\<lambda>(k, files). in_int32 k \<and> short_strings files \<and> distinct files) m \<Longrightarrow> distinct (map fst (acc @ m)) \<Longrightarrow>
   cr B (read_dv_entries I (length m) acc) (concat (map (\<lambda>(k, files). be_int (of_int k) @ set_bytes files) m)) (acc @ m)"
proof (induction m arbitrary: acc)
  case (Cons kf m)
  obtain k files where kf: "kf = (k, files)" by fastforce
  have k: "in_int32 k" "short_strings files" "distinct files" using Cons.prems(1) kf by simp_all
  have "AList.update (sint (of_int k :: i32)) (remdups files) acc = acc @ [kf]"
    using Cons.prems(2) k by (subst in_int32_sint) (auto simp: kf AList_update_fresh distinct_remdups_id)
  moreover have "cr B (read_dv_entries I (length m) (acc @ [kf])) (concat (map (\<lambda>(k, files). be_int (of_int k) @ set_bytes files) m)) ((acc @ [kf]) @ m)"
    using Cons.prems by (intro Cons.IH) auto
  ultimately have "cr B (read_dv_entries I (Suc (length m)) acc)
      (be_int (of_int k) @ set_bytes files @ concat (map (\<lambda>(k, files). be_int (of_int k) @ set_bytes files) m)) (acc @ kf # m)"
    unfolding read_dv_entries.simps
    by (intro reads_bind [OF ckc.ReadBEInt_reads], intro reads_bind [OF set_reads [OF k(2)]]) simp
  then show ?case by (simp add: kf)
qed (simp add: reads_ret)

lemma read_dv_reads: "storable_dv m \<Longrightarrow> cr B (readDVUpdateFilesLucene I) (dv_bytes m) m"
proof -
  assume m: "storable_dv m"
  have n: "unat (of_nat (length m) :: i32) = length m" "sint (of_nat (length m) :: i32) = int (length m)"
    using m ck.len_i32 [of "length m"] by (simp_all add: storable_dv_def)
  have z: "(of_nat (length m) :: i32) = 0 \<longleftrightarrow> m = []"
    using n(1) by (metis length_0_conv unat_0_iff)
  show ?thesis unfolding readDVUpdateFilesLucene_def dv_bytes_def
    by (rule reads_bind [OF ckc.ReadBEInt_reads])
       (use m read_dv_entries_reads [of m "[]"] in \<open>simp add: z n storable_dv_def reads_ret\<close>)
qed

lemma read_sci_reads:
  assumes st: "storable_sci sci info"
    and hk: "\<And>s. ci_ok I okc B s \<Longrightarrow> resolve_info hook (fst s) (si_name info) (written_id info) (si_CodecName info)
       = Ok (fetch (si_name info) (written_id info) (si_CodecName info))"
  shows "cr B (readSegmentCommitInfoLucene104 hook I) (sci_bytes sci info)
    (read_sci sci, fetch (si_name info) (written_id info) (si_CodecName info))"
proof -
  let ?i = "if length (sci_id sci) = 16 then sci_id sci else []"
  let ?fetch = "fetch (si_name info) (written_id info) (si_CodecName info)"
  have s: "sint (of_int (sci_delCount sci) :: i32) = sci_delCount sci" "sint (of_int (sci_softDelCount sci) :: i32) = sci_softDelCount sci"
    using st by (simp_all add: storable_sci_def in_int32_sint)
  have res: "cr B (\<lambda>s. of_outcome (resolve_info hook (fst s) (si_name info) (written_id info) (si_CodecName info)) s) [] ?fetch"
    by (rule reads_pure) (rule hk)
  have tail: "cr B (bind_ract (\<lambda>s. of_outcome (resolve_info hook (fst s) (si_name info) (written_id info) (si_CodecName info)) s) (\<lambda>segInfo.
      ret_ract (f segInfo))) [] (f ?fetch)" for f :: "SegmentInfo \<Rightarrow> SegmentCommitInfo \<times> SegmentInfo"
    by (rule reads_bind_ret [OF res])
  have eid: "cr B (bind_ract (ReadByte (ci_core I)) (\<lambda>hasSciID.
       bind_ract (if hasSciID = 1 then lift_ract (ci_ReadBytesN I 16) else ret_ract []) k))
       ((if length (sci_id sci) = 16 then 1 # sci_id sci else [0]) @ bs) v" if "cr B (k ?i) bs v"
    for bs v and k :: "u8 list \<Rightarrow> ('g \<times> 'i ChecksumIndexInput, SegmentCommitInfo \<times> SegmentInfo) ract"
  proof (cases "length (sci_id sci) = 16")
    case True
    have "cr B (bind_ract (ReadByte (ci_core I)) (\<lambda>hasSciID. bind_ract (if hasSciID = 1 then lift_ract (ci_ReadBytesN I 16) else ret_ract []) k))
        ([1] @ sci_id sci @ bs) v"
      by (rule reads_bind [OF ck.ReadByte_reads], simp, rule reads_bind [OF ci_ReadBytesN_reads]) (use that True in simp_all)
    then show ?thesis using True by simp
  next
    case False
    have r: "cr B (bind_ract (ret_ract []) k) bs v"
      using reads_bind [OF reads_ret, of _ _ k "[]" bs v] that False by simp
    have "cr B (bind_ract (ReadByte (ci_core I)) (\<lambda>hasSciID. bind_ract (if hasSciID = 1 then lift_ract (ci_ReadBytesN I 16) else ret_ract []) k))
        ([0] @ bs) v"
      by (rule reads_bind [OF ck.ReadByte_reads]) (simp add: r)
    then show ?thesis using False by simp
  qed
  have c: "length (si_name info) < 2 ^ 31" "length (si_CodecName info) < 2 ^ 31" "short_strings (sci_fieldInfosFiles sci)"
      "storable_dv (sci_docValuesUpdatesFiles sci)" "remdups (sci_fieldInfosFiles sci) = sci_fieldInfosFiles sci"
    using st by (simp_all add: storable_sci_def distinct_remdups_id)
  have dv: "cr B (bind_ract (readDVUpdateFilesLucene I) k) (dv_bytes (sci_docValuesUpdatesFiles sci)) v"
    if "cr B (k (sci_docValuesUpdatesFiles sci)) [] v"
    for v and k :: "(int \<times> gostring list) list \<Rightarrow> ('g \<times> 'i ChecksumIndexInput, SegmentCommitInfo \<times> SegmentInfo) ract"
    using reads_bind [OF read_dv_reads [OF c(4)], of B k "[]" v] that by simp
  show ?thesis
    unfolding readSegmentCommitInfoLucene104_def Let_def sci_bytes_def
    by (rule reads_bind [OF ck.ReadString_reads [OF c(1)]], rule reads_bind [OF ci_ReadBytesN_reads], simp, simp,
        rule reads_bind [OF ck.ReadString_reads [OF c(2)]], rule reads_bind [OF ckc.ReadBELong_reads],
        rule reads_bind [OF ckc.ReadBEInt_reads], rule reads_bind [OF ckc.ReadBELong_reads],
        rule reads_bind [OF ckc.ReadBELong_reads], rule reads_bind [OF ckc.ReadBEInt_reads], rule eid,
        rule reads_bind [OF set_reads [OF c(3)]], rule dv)
       (use tail in \<open>simp add: s c(5) read_sci_def\<close>)
qed

end

text \<open>The list as read: the segments in the order written, the rest of the record as stored.\<close>

definition read_infos :: "(gostring \<Rightarrow> u8 list \<Rightarrow> gostring \<Rightarrow> SegmentInfo) \<Rightarrow> (gostring \<times> gostring) list \<Rightarrow> seg_heap \<Rightarrow> SegmentInfos \<Rightarrow> SegmentInfos" where
  "read_infos fetch kvs h si =
     \<lparr>sis_segments = [], sis_generation = sis_generation si, sis_lastGeneration = sis_generation si, sis_version = sis_version si,
      sis_luceneVersion = (case Sscanf_version (sis_luceneVersion si) of (maj, mnr, bug) \<Rightarrow> Sprintf_version maj mnr bug),
      sis_indexCreatedVersionMajor = sis_indexCreatedVersionMajor si, sis_counter = sis_counter si,
      sis_userData = map_of kvs, sis_inMemoryParentField = [],
      sis_inMemoryIndexSort = first_sort (map (read_segment fetch h) (sis_segments si)), sis_pendingCommit = False\<rparr>"

lemma NewSegmentInfos_Ok: "\<exists>si0. NewSegmentInfos = Ok si0 \<and> sis_segments si0 = [] \<and> sis_inMemoryParentField si0 = [] \<and> sis_pendingCommit si0 = False"
  by (simp add: NewSegmentInfos_def NewSegmentInfosWithCreatedVersionMajor_def Latest_Major_def)

lemma header_not_empty: "length suffix < 256 \<Longrightarrow> ((of_nat (length suffix) :: u8) > 0) = (suffix \<noteq> [])"
  by (auto simp: word_gt_0 unat_of_nat dest!: arg_cong [where f = unat])

context codec_source
begin

lemma spi_CheckIndexHeader_reads:
  assumes "length codec < 2 ^ 31" "length iid = 16" "length suffix < 256"
  shows "reads ok rest (spi_CheckIndexHeader inp codec version version None suffix) (index_header_bytes codec version iid suffix) version"
proof -
  let ?n = "of_nat (length suffix) :: u8"
  have n: "unat ?n = length suffix" using assms(3) by (simp add: unat_of_nat)
  have sf: "reads ok rest (bind_ract (if ?n > 0 then ReadBytes (din_core inp) (replicate (unat ?n) 0) 0 (int (unat ?n)) else ret_ract [])
      (\<lambda>sf. if sf \<noteq> suffix then fail_ract e else ret_ract version)) (suffix @ []) version" for e
    unfolding n header_not_empty [OF assms(3)]
    by (rule reads_bind [where a = suffix]) (use ReadBytes_reads [of suffix] in \<open>auto simp: reads_ret\<close>)
  have i: "reads ok rest (ReadBytes (din_core inp) (replicate 16 0) 0 16) iid iid" using ReadBytes_reads [of iid] assms(2) by simp
  have "reads ok rest (spi_CheckIndexHeader inp codec version version None suffix)
      (be_int CODEC_MAGIC @ string_bytes codec @ be_int version @ iid @ [?n] @ suffix @ []) version"
    unfolding spi_CheckIndexHeader_def
    by (rule reads_bind [OF ReadBEInt_reads], simp only: simp_thms if_False,
        rule reads_bind [OF ReadString_law [OF assms(1)]], simp only: simp_thms if_False,
        rule reads_bind [OF ReadBEInt_reads], simp only: simp_thms less_irrefl if_False,
        rule reads_bind [OF i], rule reads_bind [OF ReadByte_reads], rule sf)
  then show ?thesis by (simp add: index_header_bytes_def header_bytes_def)
qed

end

context index_reader
begin

lemma spi_CheckFooter_ok:
  assumes "ci_ok I okc (content @ footer_bytes content) s" "ci_rest restc s = footer_bytes content"
  obtains s' where "spi_CheckFooter I s = Some (Ok (ucast (file_crc content)), s')" "ci_ok I okc (content @ footer_bytes content) s'"
proof -
  let ?B = "content @ footer_bytes content" and ?inp = "ii_data (ci_index_input I)"
  obtain s1 where s1: "ReadBEInt ?inp s = Some (Ok FOOTER_MAGIC, s1)" "ci_ok I okc ?B s1"
      "ci_rest restc s1 = be_int 0 @ be_long (ucast (file_crc content))"
    by (rule readsD [OF ckc.ReadBEInt_reads assms(1)]) (use assms(2) in \<open>auto simp: footer_bytes_def\<close>)
  obtain s2 where s2: "ReadBEInt ?inp s1 = Some (Ok 0, s2)" "ci_ok I okc ?B s2" "ci_rest restc s2 = be_long (ucast (file_crc content))"
    by (rule readsD [OF ckc.ReadBEInt_reads s1(2,3)])
  note f = ci_fp_rest [OF s2(2)]
  have "length (drop (nat (ci_GetFilePointer s2)) ?B) = 8" using f(3) s2(3) by (metis length_be(2))
  then have "nat (ci_GetFilePointer s2) = length content + 8" using f(1,2) by simp
  then have sum: "ci_GetChecksum s2 = (file_crc content, s2)"
    using ci_GetChecksum_ok [OF s2(2)] by (simp add: footer_bytes_def file_crc_def)
  obtain s3 where s3: "ReadBELong ?inp s2 = Some (Ok (ucast (file_crc content)), s3)" "ci_ok I okc ?B s3"
    by (rule readsD [OF ckc.ReadBELong_reads s2(2), where ys = "[]"]) (use s2(3) in auto)
  have "spi_CheckFooter I s = Some (Ok (ucast (file_crc content)), s3)"
    using s1(1) s2(1) s3(1) sum by (simp add: spi_CheckFooter_def bind_ract_def ret_ract_def Let_def)
  then show thesis using that s3(2) by blast
qed

lemma read_segments_reads:
  assumes "list_all (\<lambda>p. storable_sci (sci_at h p) (info_of h p)) ps"
    and hk: "\<And>s n i c. ci_ok I okc B s \<Longrightarrow> resolve_info hook (fst s) n i c = Ok (fetch n i c)"
  shows "cr B (read_segments hook I (length ps) acc) (concat (map (segment_bytes h) ps)) (acc @ map (read_segment fetch h) ps)"
  using assms(1)
proof (induction ps arbitrary: acc)
  case (Cons p ps)
  have "cr B (read_segments hook I (Suc (length ps)) acc) (segment_bytes h p @ concat (map (segment_bytes h) ps))
      ((acc @ [read_segment fetch h p]) @ map (read_segment fetch h) ps)"
    unfolding read_segments.simps segment_bytes_def [of h p] read_segment_def [of fetch h p]
    using Cons.prems by (intro reads_bind [OF read_sci_reads [where fetch = fetch, OF _ hk]] Cons.IH) auto
  then show ?case by simp
qed (simp add: reads_ret)

end

text \<open>
  \<open>runs ok rest rd bs ys r\<close>: over the unread bytes \<open>bs\<close>, with \<open>ys\<close> behind them, the call \<open>rd\<close>
  returns with the outcome \<open>r\<close>.
\<close>

definition runs :: "('s \<Rightarrow> bool) \<Rightarrow> ('s \<Rightarrow> u8 list) \<Rightarrow> ('s, 'a) ract \<Rightarrow> u8 list \<Rightarrow> u8 list \<Rightarrow> 'a outcome \<Rightarrow> bool" where
  "runs ok rest rd bs ys r \<longleftrightarrow> (\<forall>s. ok s \<longrightarrow> rest s = bs @ ys \<longrightarrow> (\<exists>s'. rd s = Some (r, s') \<and> ok s'))"

lemma runs_bind:
  assumes "reads ok rest rd bs a" "runs ok rest (f a) cs ys r"
  shows "runs ok rest (bind_ract rd f) (bs @ cs) ys r"
  unfolding runs_def
proof (intro allI impI)
  fix s assume "ok s" "rest s = (bs @ cs) @ ys"
  then obtain s1 where "rd s = Some (Ok a, s1)" "ok s1" "rest s1 = cs @ ys"
    using readsD [OF assms(1), of s "cs @ ys"] by (metis append.assoc)
  then show "\<exists>s'. bind_ract rd f s = Some (r, s') \<and> ok s'"
    using assms(2) by (auto simp: runs_def bind_ract_def)
qed

lemma runs_if: "\<not> P \<Longrightarrow> runs ok rest b bs ys r \<Longrightarrow> runs ok rest (if P then a else b) bs ys r"
  by simp

lemma reads_of_outcome: "reads ok rest (of_outcome (Ok v)) [] v"
  by (simp add: reads_def of_outcome_def ret_ract_def)

lemma map_of_rev_distinct: "distinct (map fst kvs) \<Longrightarrow> map_of (rev kvs) = map_of kvs"
  by (rule map_of_inject_set [THEN iffD2]) (simp_all add: rev_map [symmetric])

context index_reader
begin

lemma triple_reads:
  "cr B (bind_ract (ReadVInt (ci_core I)) (\<lambda>_. bind_ract (ReadVInt (ci_core I)) (\<lambda>_. bind_ract (ReadVInt (ci_core I)) (\<lambda>_. ret_ract ()))))
    (triple_bytes v) ()"
proof -
  obtain a b c where v: "v = (a, b, c)" by (cases v)
  have "cr B (bind_ract (ReadVInt (ci_core I)) (\<lambda>_. bind_ract (ReadVInt (ci_core I)) (\<lambda>_. bind_ract (ReadVInt (ci_core I)) (\<lambda>_. ret_ract ()))))
      (vbytes (unat a) @ vbytes (unat b) @ vbytes (unat c) @ []) ()"
    by (rule reads_bind [OF ck.ReadVInt_reads])+ (rule reads_ret)
  then show ?thesis by (simp add: v triple_bytes_def)
qed

lemma read_body_runs:
  assumes st: "storable kvs h si" and iid: "length iid = 16"
    and ext: "map_lookup (map_of kvs) (str ''_gocene_fiv'') \<noteq> goceneExtVersion"
    and B: "B = file_bytes iid kvs h si"
    and hk: "\<And>s n i c. ci_ok I okc B s \<Longrightarrow> resolve_info hook (fst s) n i c = Ok (fetch n i c)"
  shows "runs (ci_ok I okc B) (ci_rest restc) (read_body hook I (sis_generation si)) (content_bytes iid kvs h si)
    (footer_bytes (content_bytes iid kvs h si)) (Ok (read_infos fetch kvs h si, no_fields (map (read_segment fetch h) (sis_segments si))))"
proof -
  let ?c = "content_bytes iid kvs h si" and ?segs = "map (read_segment fetch h) (sis_segments si)" and ?ps = "sis_segments si"
  let ?n = "of_nat (length ?ps) :: i32"
  have n: "sint ?n = int (length ?ps)" using st ck.len_i32 [of "length ?ps"] by (simp add: storable_def)
  obtain maj mnr bug where v: "Sscanf_version (sis_luceneVersion si) = (maj, mnr, bug)" by (cases "Sscanf_version (sis_luceneVersion si)")
  obtain si0 where si0: "NewSegmentInfos = Ok si0" "sis_segments si0 = []" "sis_inMemoryParentField si0 = []" "sis_pendingCommit si0 = False"
    using NewSegmentInfos_Ok by blast
  have ft: "runs (ci_ok I okc B) (ci_rest restc) (bind_ract (spi_CheckFooter I) (\<lambda>_. ret_ract x)) [] (footer_bytes ?c) (Ok x)" for x :: "'x"
    unfolding runs_def
  proof (intro allI impI)
    fix s assume s: "ci_ok I okc B s" "ci_rest restc s = [] @ footer_bytes ?c"
    obtain s' where "spi_CheckFooter I s = Some (Ok (ucast (file_crc ?c)), s')" "ci_ok I okc B s'"
      by (rule spi_CheckFooter_ok [of ?c s]) (use s in \<open>simp_all add: B file_bytes_def\<close>)
    then show "\<exists>s'. bind_ract (spi_CheckFooter I) (\<lambda>_. ret_ract x) s = Some (Ok x, s') \<and> ci_ok I okc B s'"
      by (simp add: bind_ract_def ret_ract_def)
  qed
  have ud: "cr B (ReadMapOfStrings (ci_core I)) (map_bytes kvs) (map_of kvs)"
    using ck.ReadMapOfStrings_reads [of kvs B] st by (simp add: storable_def storable_data_def map_of_rev_distinct)
  have sg: "cr B (read_segments hook I (nat (sint ?n)) []) (concat (map (segment_bytes h) ?ps)) ?segs"
    using read_segments_reads [of h ?ps B hook fetch "[]"] st hk by (simp add: n storable_def)
  have mv: "cr B (if sint ?n > 0
      then bind_ract (ReadVInt (ci_core I)) (\<lambda>_. bind_ract (ReadVInt (ci_core I)) (\<lambda>_. bind_ract (ReadVInt (ci_core I)) (\<lambda>_. ret_ract ())))
      else ret_ract ()) (if ?ps \<noteq> [] then triple_bytes (minSegmentVersion h ?ps) else []) ()"
  proof (cases "?ps = []")
    case True
    then show ?thesis by (simp add: n reads_ret)
  next
    case False
    then show ?thesis using triple_reads [of B "minSegmentVersion h ?ps"] by (simp add: n)
  qed
  have hd: "cr B (spi_CheckIndexHeader (ii_data (ci_index_input I)) (str ''segments'') 10 10 None (FormatInt (sis_generation si) 36))
      (index_header_bytes (str ''segments'') 10 iid (FormatInt (sis_generation si) 36)) 10"
    by (rule ckc.spi_CheckIndexHeader_reads [OF _ iid length_FormatInt]) simp
  have eq: "si0\<lparr>sis_generation := sis_generation si, sis_lastGeneration := sis_generation si, sis_version := sis_version si,
      sis_indexCreatedVersionMajor := sis_indexCreatedVersionMajor si, sis_luceneVersion := Sprintf_version maj mnr bug,
      sis_counter := sis_counter si, sis_inMemoryIndexSort := first_sort ?segs, sis_userData := map_of kvs\<rparr> = read_infos fetch kvs h si"
    using si0(2-4) by (cases si0) (simp add: read_infos_def v)
  have "runs (ci_ok I okc B) (ci_rest restc) (read_body hook I (sis_generation si))
     (index_header_bytes (str ''segments'') 10 iid (FormatInt (sis_generation si) 36) @ vbytes (unat maj) @ vbytes (unat mnr) @ vbytes (unat bug) @
      vbytes (unat (sis_indexCreatedVersionMajor si)) @ be_long (sis_version si) @ vbytes (unat (sis_counter si)) @ be_int ?n @
      (if ?ps \<noteq> [] then triple_bytes (minSegmentVersion h ?ps) else []) @ [] @ concat (map (segment_bytes h) ?ps) @ map_bytes kvs @ [])
     (footer_bytes ?c) (Ok (read_infos fetch kvs h si, no_fields ?segs))"
    unfolding read_body_def Let_def
    by (rule runs_bind [OF hd], rule runs_bind [OF ck.ReadVInt_reads], rule runs_bind [OF ck.ReadVInt_reads],
        rule runs_bind [OF ck.ReadVInt_reads], rule runs_bind [OF ck.ReadVInt_reads], rule runs_bind [OF ckc.ReadBELong_reads],
        rule runs_bind [OF ck.ReadVLong_reads], rule runs_bind [OF ckc.ReadBEInt_reads], rule runs_if, simp add: n,
        rule runs_bind [OF mv], unfold si0(1), rule runs_bind [OF reads_of_outcome], rule runs_bind [OF sg],
        rule runs_bind [OF ud], unfold if_not_P [OF ext] eq, rule ft)
  then show ?thesis by (simp add: content_bytes_def body_bytes_def triple_bytes_def v)
qed

end

end
