(* ===== verification/Commit_Protocol.thy ===== *)
theory Commit_Protocol
  imports Segment_Format
begin

text \<open>
  The two-phase commit over any directory that keeps the locale \<open>commit_directory\<close>, which the
  in-memory directory does: what \<open>PrepareCommit\<close>, \<open>FinishCommit\<close> and \<open>RollbackCommit\<close> of
  \<open>Segment_Commit\<close> do to the files, and what \<open>ReadSegmentInfos\<close> then finds.  The format of the
  file is that of \<open>Segment_Format\<close>.
\<close>

section \<open>Objects of a list that has been read\<close>

lemma alloc_segments_eq:
  "alloc_segments (no_fields xs) h =
     ([length (h_scis h)..<length (h_scis h) + length xs],
      h\<lparr>h_infos := h_infos h @ map snd xs,
        h_scis := h_scis h @ map (\<lambda>i. (fst (xs ! i))\<lparr>sci_Info := length (h_infos h) + i\<rparr>) [0..<length xs]\<rparr>)"
proof (induction xs arbitrary: h)
  case Nil
  then show ?case by (simp add: no_fields_def)
next
  case (Cons x xs)
  obtain sci info where x: "x = (sci, info)" by fastforce
  have u: "[0..<Suc n] = 0 # map Suc [0..<n]" for n by (simp add: upt_conv_Cons map_Suc_upt del: upt_Suc)
  show ?case
    using Cons.IH by (simp add: x no_fields_def alloc_fields_def new_info_def new_sci_def u upt_conv_Cons del: upt_Suc)
qed

text \<open>A list and its objects, without the addresses.\<close>

definition segment_view :: "seg_heap \<Rightarrow> SegmentInfos \<Rightarrow> (SegmentCommitInfo \<times> SegmentInfo) list" where
  "segment_view h si = map (\<lambda>p. ((sci_at h p)\<lparr>sci_Info := 0\<rparr>, info_of h p)) (sis_segments si)"

lemma alloc_view:
  assumes "alloc_segments (no_fields xs) h = (ps, h')" "list_all (\<lambda>x. sci_Info (fst x) = 0) xs"
  shows "map (\<lambda>p. ((sci_at h' p)\<lparr>sci_Info := 0\<rparr>, info_of h' p)) ps = xs"
proof -
  have ps: "ps = [length (h_scis h)..<length (h_scis h) + length xs]"
    and h': "h_infos h' = h_infos h @ map snd xs"
      "h_scis h' = h_scis h @ map (\<lambda>i. (fst (xs ! i))\<lparr>sci_Info := length (h_infos h) + i\<rparr>) [0..<length xs]"
    using assms(1) by (auto simp: alloc_segments_eq)
  show ?thesis
  proof (rule nth_equalityI)
    fix i assume "i < length (map (\<lambda>p. ((sci_at h' p)\<lparr>sci_Info := 0\<rparr>, info_of h' p)) ps)"
    then have i: "i < length xs" by (simp add: ps)
    then have "sci_Info (fst (xs ! i)) = 0" using assms(2) by (simp add: list_all_length)
    then show "map (\<lambda>p. ((sci_at h' p)\<lparr>sci_Info := 0\<rparr>, info_of h' p)) ps ! i = xs ! i"
      using i by (simp add: ps h' sci_at_def info_of_def nth_append prod_eq_iff)
  qed (simp add: ps)
qed

section \<open>The latest commit\<close>

definition commit_gen :: "gostring \<Rightarrow> i64 option" where
  "commit_gen n = (if length n > 9 \<and> take 9 n = str ''segments_'' then ParseInt (drop 9 n) 36 else None)"

text \<open>
  \<open>commits_upto F g\<close>: no commit file has a generation above \<open>g\<close>.  \<open>latest F g\<close>: the commit of
  generation \<open>g\<close> is the last one, and no other name parses to its generation
  (\<^verbatim>\<open>segments_01\<close> would).
\<close>

definition commits_upto :: "(gostring \<rightharpoonup> u8 list) \<Rightarrow> i64 \<Rightarrow> bool" where
  "commits_upto F g \<longleftrightarrow> (\<forall>n\<in>dom F. \<forall>g'. commit_gen n = Some g' \<longrightarrow> sint g' \<le> sint g)"

definition latest :: "(gostring \<rightharpoonup> u8 list) \<Rightarrow> i64 \<Rightarrow> bool" where
  "latest F g \<longleftrightarrow> 0 \<le> sint g \<and> F (GetSegmentsFileName g) \<noteq> None
     \<and> (\<forall>n\<in>dom F. \<forall>g'. commit_gen n = Some g' \<longrightarrow> sint g' < sint g \<or> n = GetSegmentsFileName g)"

lemma commit_gen_name: "0 \<le> sint g \<Longrightarrow> commit_gen (GetSegmentsFileName g) = Some g"
  using format_nat_not_Nil [of 36 "nat (sint g)"] ParseInt_FormatInt [of 36 g]
  by (simp add: commit_gen_def GetSegmentsFileName_def FormatInt_def format_int_def)

lemma commit_gen_pending: "commit_gen (pendingSegmentsFileName g) = None"
  by (simp add: commit_gen_def pendingSegmentsFileName_def)

lemma latest_loop_skip:
  "\<forall>n\<in>set ns. \<forall>g'. commit_gen n = Some g' \<longrightarrow> \<not> sint g' > sint (fst best) \<Longrightarrow> latest_loop ns best = best"
  by (induction ns) (auto simp: commit_gen_def split: option.splits)

lemma latest_loop_finds:
  "GetSegmentsFileName g \<in> set ns \<Longrightarrow> 0 \<le> sint g \<Longrightarrow> sint (fst best) < sint g \<Longrightarrow>
   (\<forall>n\<in>set ns. \<forall>g'. commit_gen n = Some g' \<longrightarrow> sint g' < sint g \<or> n = GetSegmentsFileName g) \<Longrightarrow>
   latest_loop ns best = (g, GetSegmentsFileName g)"
proof (induction ns arbitrary: best)
  case (Cons n ns)
  let ?b = "case commit_gen n of None \<Rightarrow> best | Some gen \<Rightarrow> if sint gen > sint (fst best) then (gen, n) else best"
  have step: "latest_loop (n # ns) best = latest_loop ns ?b"
    by (auto simp: commit_gen_def split: option.splits)
  show ?case
  proof (cases "n = GetSegmentsFileName g")
    case True
    then have b: "?b = (g, GetSegmentsFileName g)" using Cons.prems(2,3) commit_gen_name by simp
    have "latest_loop ns (g, GetSegmentsFileName g) = (g, GetSegmentsFileName g)"
      by (rule latest_loop_skip) (use Cons.prems(2,4) commit_gen_name in force)
    then show ?thesis unfolding step b .
  next
    case False
    have "sint (fst ?b) < sint g" using Cons.prems(3,4) False by (auto split: option.splits)
    then have "latest_loop ns ?b = (g, GetSegmentsFileName g)"
      using Cons.prems False by (intro Cons.IH) auto
    then show ?thesis unfolding step .
  qed
qed simp

section \<open>What a commit needs of a directory\<close>

text \<open>
  \<open>files d\<close> is the content of the directory and \<open>live d\<close> a usable state in which no file is open.
  \<open>wr d n\<close> holds of an output that is writing the new file \<open>n\<close> of \<open>d\<close>, which appears when the
  output is closed; \<open>rd d B\<close> of an input on a file of \<open>d\<close> with content \<open>B\<close>, and closing it
  leaves \<open>d\<close> as it was.
\<close>

locale commit_directory =
  fixes D :: "('d, 'i, 'o) directory" and files :: "'d \<Rightarrow> gostring \<rightharpoonup> u8 list" and live :: "'d \<Rightarrow> bool"
    and wr :: "'d \<Rightarrow> gostring \<Rightarrow> 'd \<times> 'o \<Rightarrow> bool" and written :: "'d \<times> 'o \<Rightarrow> u8 list"
    and rd :: "'d \<Rightarrow> u8 list \<Rightarrow> 'd \<times> 'i \<Rightarrow> bool" and rest :: "'d \<times> 'i \<Rightarrow> u8 list" and eof :: go_error and eofs :: go_error
  assumes sink_law: "checksum_sink (dir_output D) (wr d n) (\<lambda>s. N - length (written s)) written"
    and source_law: "index_reader (dir_input D) (rd d) rest eof eofs"
    and create_law: "live d \<Longrightarrow> files d n = None \<Longrightarrow>
      \<exists>ot d'. dir_CreateOutput D n d = (Ok ot, d') \<and> wr d n (d', ot) \<and> written (d', ot) = []"
    and close_law: "live d \<Longrightarrow> files d n = None \<Longrightarrow> wr d n s \<Longrightarrow>
      \<exists>d' o'. dir_CloseOutput D s = (Ok (), (d', o')) \<and> live d' \<and> files d' = (files d)(n \<mapsto> written s)"
    and open_law: "live d \<Longrightarrow> files d n = Some B \<Longrightarrow>
      \<exists>i d'. dir_OpenInput D n d = (Ok i, d') \<and> rd d B (d', i) \<and> rest (d', i) = B"
    and close_in_law: "live d \<Longrightarrow> rd d B t \<Longrightarrow> fst (ii_Close (dir_input D) t) = d"
    and view_law: "rd d B t \<Longrightarrow> files (fst t) = files d"
    and delete_law: "live d \<Longrightarrow>
      \<exists>r d'. dir_DeleteFile D n d = (r, d') \<and> (\<forall>p. r \<noteq> Panic p) \<and> live d' \<and> files d' = (files d)(n := None)"
    and rename_law: "live d \<Longrightarrow> files d source = Some B \<Longrightarrow> files d dest = None \<Longrightarrow>
      \<exists>d'. dir_Rename D source dest d = (Ok (), d') \<and> live d' \<and> files d' = (files d)(source := None, dest \<mapsto> B)"
    and rename_missing: "live d \<Longrightarrow> files d source = None \<Longrightarrow> \<exists>e. dir_Rename D source dest d = (Err e, d)"
    and list_law: "live d \<Longrightarrow> \<exists>ns. dir_ListAll D d = (Ok ns, d) \<and> set ns = dom (files d)"
    and sync_law: "live d \<Longrightarrow> dir_Sync D = Some Sync \<Longrightarrow> Sync [n] d = (Ok (), d)"
    and meta_law: "live d \<Longrightarrow> dir_SyncMetaData D = Some SyncMeta \<Longrightarrow> SyncMeta d = (Ok (), d)"
begin

lemma sync_ok: "live d \<Longrightarrow> sync_file D n d = (Ok (), d)" "live d \<Longrightarrow> sync_meta D d = (Ok (), d)"
  using sync_law meta_law by (auto simp: sync_file_def sync_meta_def ret_act_def split: option.splits)

lemma delete_ignoring_ok:
  assumes "live d"
  obtains d' where "delete_ignoring D n d = (Ok (), d')" "live d'" "files d' = (files d)(n := None)"
proof -
  obtain r d' where "dir_DeleteFile D n d = (r, d')" "\<forall>p. r \<noteq> Panic p" "live d'" "files d' = (files d)(n := None)"
    using delete_law [OF assms] by blast
  then show thesis using that by (cases r) (auto simp: delete_ignoring_def)
qed

lemma write_file_ok:
  assumes "live d" "files d n = None" "length iid = 16" "storable (rng (sis_userData si)) h si"
  obtains ot d1 d2 where "dir_CreateOutput D n d = (Ok ot, d1)"
    "write_file D ot (sis_Write rng (Ok iid) (dir_output D) h si) d1 = (Ok (), d2)" "live d2"
    "files d2 = (files d)(n \<mapsto> file_bytes iid (rng (sis_userData si)) h si)"
proof -
  let ?B = "file_bytes iid (rng (sis_userData si)) h si"
  let ?room = "\<lambda>s. length ?B - length (written s)"
  obtain ot d1 where c: "dir_CreateOutput D n d = (Ok ot, d1)" "wr d n (d1, ot)" "written (d1, ot) = []"
    using create_law [OF assms(1,2)] by blast
  let ?s0 = "(d1, NewChecksumIndexOutput (dir_output D) (d1, ot))"
  have o: "co_ok (wr d n) written ?s0" using checksum_sink.new_output_ok [OF sink_law c(2,3)] by simp
  have z: "on_wrapped written ?s0 = []" "on_wrapped ?room ?s0 = length ?B"
    using c(3) by (simp_all add: on_wrapped_def NewChecksumIndexOutput_def NewChecksumIndexOutputWithType_def)
  obtain s1 where s1: "sis_Write rng (Ok iid) (dir_output D) h si ?s0 = (Ok (), s1)" "co_ok (wr d n) written s1" "on_wrapped written s1 = ?B"
    by (rule checksum_sink.sis_Write_ok [where room = ?room and rng = rng and si = si and h = h, OF sink_law o z(1) assms(3,4)]) (use z in simp_all)
  obtain g co where g: "s1 = (g, co)" by fastforce
  have "wr d n (g, co_output co)" "written (g, co_output co) = ?B" using s1(2,3) by (simp_all add: g co_ok_def on_wrapped_def)
  then obtain d2 o' where cl: "dir_CloseOutput D (g, co_output co) = (Ok (), (d2, o'))" "live d2" "files d2 = (files d)(n \<mapsto> ?B)"
    using close_law [OF assms(1,2)] by metis
  have "write_file D ot (sis_Write rng (Ok iid) (dir_output D) h si) d1 = (Ok (), d2)"
    using s1(1) cl(1) by (simp add: write_file_def g close_out_def)
  then show thesis using that c(1) cl by blast
qed

lemma prepare_ok:
  assumes "live d" "\<not> sis_pendingCommit si" "files d (pendingSegmentsFileName (getNextPendingGeneration si)) = None"
    and "length iid = 16" "storable (rng (sis_userData si)) h si"
  obtains d' where "sis_PrepareCommit rng (Ok iid) D h (si, d)
      = (Ok (), (si\<lparr>sis_generation := getNextPendingGeneration si, sis_pendingCommit := True\<rparr>, d'))" "live d'"
    "files d' = (files d)(pendingSegmentsFileName (getNextPendingGeneration si)
       \<mapsto> file_bytes iid (rng (sis_userData si)) h (si\<lparr>sis_generation := getNextPendingGeneration si\<rparr>))"
proof -
  let ?g = "getNextPendingGeneration si"
  let ?si = "si\<lparr>sis_generation := ?g\<rparr>" and ?n = "pendingSegmentsFileName ?g"
  have st: "storable (rng (sis_userData ?si)) h ?si" using assms(5) by (simp add: storable_def)
  obtain ot d1 d2 where w: "dir_CreateOutput D ?n d = (Ok ot, d1)"
      "write_file D ot (sis_Write rng (Ok iid) (dir_output D) h ?si) d1 = (Ok (), d2)" "live d2"
      "files d2 = (files d)(?n \<mapsto> file_bytes iid (rng (sis_userData ?si)) h ?si)"
    by (rule write_file_ok [where rng = rng and si = ?si, OF assms(1,3,4) st])
  have "sis_PrepareCommit rng (Ok iid) D h (si, d) = (Ok (), (?si\<lparr>sis_pendingCommit := True\<rparr>, d2))"
    using w(1,2) assms(2) sync_ok(2) [OF assms(1)] sync_ok(1) [OF w(3)]
    by (simp add: sis_PrepareCommit_def sis_write_def or_delete_def bind_act_def seq_act_def Let_def)
  then show thesis using that w(3,4) by simp
qed

lemma finish_ok:
  assumes "live d" "sis_pendingCommit si" "files d (pendingSegmentsFileName (sis_generation si)) = Some B"
    and "files d (GetSegmentsFileName (sis_generation si)) = None"
  obtains d' where "sis_FinishCommit D (si, d) = (Ok (GetSegmentsFileName (sis_generation si)),
       (si\<lparr>sis_pendingCommit := False, sis_lastGeneration := sis_generation si\<rparr>, d'))" "live d'"
    "files d' = (files d)(pendingSegmentsFileName (sis_generation si) := None, GetSegmentsFileName (sis_generation si) \<mapsto> B)"
proof -
  obtain d' where "dir_Rename D (pendingSegmentsFileName (sis_generation si)) (GetSegmentsFileName (sis_generation si)) d = (Ok (), d')"
      "live d'" "files d' = (files d)(pendingSegmentsFileName (sis_generation si) := None, GetSegmentsFileName (sis_generation si) \<mapsto> B)"
    using rename_law [OF assms(1,3,4)] by blast
  then show thesis using that assms(2) sync_ok(2) [of d'] by (simp add: sis_FinishCommit_def Let_def)
qed

lemma rollback_ok:
  assumes "live d"
  obtains d' where "sis_RollbackCommit D (si, d) = (Ok (), (si, d'))" "live d'"
    "files d' = (files d)(pendingSegmentsFileName (sis_generation si) := None)"
proof -
  obtain d' where "delete_ignoring D (pendingSegmentsFileName (sis_generation si)) d = (Ok (), d')" "live d'"
      "files d' = (files d)(pendingSegmentsFileName (sis_generation si) := None)"
    by (rule delete_ignoring_ok [OF assms])
  then show thesis using that by (simp add: sis_RollbackCommit_def pendingSegmentsFileName_def)
qed

lemma finish_missing:
  assumes "live d" "sis_pendingCommit si" "files d (pendingSegmentsFileName (sis_generation si)) = None"
  obtains e d' where "sis_FinishCommit D (si, d) = (Err e, (si, d'))" "live d'" "files d' = files d"
proof -
  let ?n = "pendingSegmentsFileName (sis_generation si)"
  obtain e where e: "dir_Rename D ?n (GetSegmentsFileName (sis_generation si)) d = (Err e, d)"
    using rename_missing [OF assms(1,3)] by blast
  obtain d' where "sis_RollbackCommit D (si, d) = (Ok (), (si, d'))" "live d'" "files d' = (files d)(?n := None)"
    by (rule rollback_ok [OF assms(1)])
  then show thesis using that assms(2,3) e by (simp add: sis_FinishCommit_def Let_def fun_upd_idem)
qed

end

section \<open>Reading the latest commit\<close>

text \<open>
  \<open>holds_commit F iid kvs h si\<close>: the latest commit of the directory content \<open>F\<close> is \<open>si\<close> with the
  objects of \<open>h\<close>, written with the header id \<open>iid\<close> and the user data in the order \<open>kvs\<close>.
  \<open>no_extensions\<close> excludes the user data that an old writer used for its own purposes.
\<close>

definition no_extensions :: "(gostring \<times> gostring) list \<Rightarrow> bool" where
  "no_extensions kvs \<longleftrightarrow> map_lookup (map_of kvs) (str ''_gocene_fiv'') \<noteq> goceneExtVersion"

definition holds_commit :: "(gostring \<rightharpoonup> u8 list) \<Rightarrow> u8 list \<Rightarrow> (gostring \<times> gostring) list \<Rightarrow> seg_heap \<Rightarrow> SegmentInfos \<Rightarrow> bool" where
  "holds_commit F iid kvs h si \<longleftrightarrow> latest F (sis_generation si)
     \<and> F (GetSegmentsFileName (sis_generation si)) = Some (file_bytes iid kvs h si)
     \<and> length iid = 16 \<and> storable kvs h si \<and> no_extensions kvs"

text \<open>\<open>stores_commit\<close>: the commit is there, but need not be the latest.\<close>

definition stores_commit :: "(gostring \<rightharpoonup> u8 list) \<Rightarrow> u8 list \<Rightarrow> (gostring \<times> gostring) list \<Rightarrow> seg_heap \<Rightarrow> SegmentInfos \<Rightarrow> bool" where
  "stores_commit F iid kvs h si \<longleftrightarrow> 0 \<le> sint (sis_generation si)
     \<and> F (GetSegmentsFileName (sis_generation si)) = Some (file_bytes iid kvs h si)
     \<and> length iid = 16 \<and> storable kvs h si \<and> no_extensions kvs"

lemma holds_stores: "holds_commit F iid kvs h si \<Longrightarrow> stores_commit F iid kvs h si"
  by (simp add: holds_commit_def stores_commit_def latest_def)

text \<open>
  What the hook is relied on for: it does not panic, and what it gives depends on the content of
  the directory only.
\<close>

definition hook_law :: "('d \<Rightarrow> gostring \<rightharpoonup> u8 list) \<Rightarrow> 'd si_hook
    \<Rightarrow> ((gostring \<rightharpoonup> u8 list) \<Rightarrow> gostring \<Rightarrow> u8 list \<Rightarrow> gostring \<Rightarrow> SegmentInfo) \<Rightarrow> bool" where
  "hook_law files hook fetch \<longleftrightarrow> (\<forall>d n i c. resolve_info hook d n i c = Ok (fetch (files d) n i c))"

lemma file_bytes_magic: "\<exists>t. file_bytes iid kvs h si = be_int CODEC_MAGIC @ t"
  by (simp add: file_bytes_def content_bytes_def index_header_bytes_def header_bytes_def)

context index_reader
begin

lemma magic_reads: "reads (okc B) restc (ReadBEInt (ii_data I)) (be_int i) i"
  by (rule pl.ReadBEInt_reads)

end

context commit_directory
begin

lemma close_checked:
  assumes "live d" "ci_ok (dir_input D) (rd d) B s"
  shows "fst (ci_Close (dir_input D) s) = d"
proof -
  obtain g c where s: "s = (g, c)" by fastforce
  have "rd d B (g, ci_input c)" using assms(2) by (simp add: s ci_ok_def)
  from close_in_law [OF assms(1) this] show ?thesis by (auto simp: s ci_Close_def split: prod.splits)
qed

lemma read_commit_ok:
  assumes "live d" "stores_commit (files d) iid kvs h0 si0" "hook_law files hook fetch" "rd d B0 (d1, raw)"
  shows "readSegmentInfosLucene104 hook D raw (sis_generation si0) (d1, h) =
    (case alloc_segments (no_fields (map (read_segment (fetch (files d)) h0) (sis_segments si0))) h of
       (ps, h') \<Rightarrow> Some (Ok ((read_infos (fetch (files d)) kvs h0 si0)\<lparr>sis_segments := ps\<rparr>), (d, h')))"
proof -
  let ?B = "file_bytes iid kvs h0 si0" and ?I = "dir_input D" and ?f = "fetch (files d)"
  have hc: "files d (GetSegmentsFileName (sis_generation si0)) = Some ?B" "length iid = 16" "storable kvs h0 si0"
      "map_lookup (map_of kvs) (str ''_gocene_fiv'') \<noteq> goceneExtVersion"
    using assms(2) by (simp_all add: stores_commit_def no_extensions_def)
  have d1: "fst (ii_Close ?I (d1, raw)) = d" by (rule close_in_law [OF assms(1,4)])
  obtain i d2 where op: "dir_OpenInput D (GetSegmentsFileName (sis_generation si0)) d = (Ok i, d2)" "rd d ?B (d2, i)" "rest (d2, i) = ?B"
    using open_law [OF assms(1) hc(1)] by blast
  have "ii_GetFilePointer ?I (d2, i) = 0"
    using index_reader.rest_length [OF source_law op(2)] op(3) by simp
  then have ok: "ci_ok ?I (rd d) ?B (d2, NewChecksumIndexInput i)" by (rule index_reader.new_ok [OF source_law op(2)])
  have hk: "resolve_info hook (fst s) n i c = Ok (?f n i c)" if "ci_ok ?I (rd d) ?B s" for s n i c
  proof -
    obtain g cs where s: "s = (g, cs)" by fastforce
    have "files g = files d" using that view_law [of d ?B "(g, ci_input cs)"] by (simp add: s ci_ok_def)
    then show ?thesis using assms(3) by (simp add: s hook_law_def)
  qed
  have "runs (ci_ok ?I (rd d) ?B) (ci_rest rest) (read_body hook ?I (sis_generation si0)) (content_bytes iid kvs h0 si0)
      (footer_bytes (content_bytes iid kvs h0 si0)) (Ok (read_infos ?f kvs h0 si0, no_fields (map (read_segment ?f h0) (sis_segments si0))))"
    by (rule index_reader.read_body_runs [OF source_law hc(3,2,4) refl hk])
  moreover have "ci_rest rest (d2, NewChecksumIndexInput i) = content_bytes iid kvs h0 si0 @ footer_bytes (content_bytes iid kvs h0 si0)"
    using op(3) by (simp add: ci_rest_def NewChecksumIndexInput_def NewChecksumIndexInputWithType_def file_bytes_def)
  ultimately obtain s3 where s3: "read_body hook ?I (sis_generation si0) (d2, NewChecksumIndexInput i)
      = Some (Ok (read_infos ?f kvs h0 si0, no_fields (map (read_segment ?f h0) (sis_segments si0))), s3)" "ci_ok ?I (rd d) ?B s3"
    using ok unfolding runs_def by blast
  show ?thesis
    using d1 op(1) s3(1) close_checked [OF assms(1) s3(2)]
    by (simp add: readSegmentInfosLucene104_def finish_read_def split: prod.splits)
qed

lemma read_ok:
  assumes "live d" "holds_commit (files d) iid kvs h0 si0" "hook_law files hook fetch"
  shows "ReadSegmentInfos hook D (d, h) =
    (case alloc_segments (no_fields (map (read_segment (fetch (files d)) h0) (sis_segments si0))) h of
       (ps, h') \<Rightarrow> Some (Ok ((read_infos (fetch (files d)) kvs h0 si0)\<lparr>sis_segments := ps\<rparr>), (d, h')))"
proof -
  let ?g = "sis_generation si0" and ?B = "file_bytes iid kvs h0 si0"
  have lt: "latest (files d) ?g" "files d (GetSegmentsFileName ?g) = Some ?B" using assms(2) by (simp_all add: holds_commit_def)
  obtain ns where ns: "dir_ListAll D d = (Ok ns, d)" "set ns = dom (files d)" using list_law [OF assms(1)] by blast
  have mx: "latest_loop ns (- 1, []) = (?g, GetSegmentsFileName ?g)"
    by (rule latest_loop_finds) (use lt ns(2) in \<open>auto simp: latest_def\<close>)
  obtain i d2 where op: "dir_OpenInput D (GetSegmentsFileName ?g) d = (Ok i, d2)" "rd d ?B (d2, i)" "rest (d2, i) = ?B"
    using open_law [OF assms(1) lt(2)] by blast
  obtain t where t: "?B = be_int CODEC_MAGIC @ t" using file_bytes_magic by blast
  obtain s3 where s3: "ReadBEInt (ii_data (dir_input D)) (d2, i) = Some (Ok CODEC_MAGIC, s3)" "rd d ?B s3"
    by (rule readsD [OF index_reader.magic_reads [OF source_law] op(2)]) (use op(3) t in auto)
  show ?thesis
    using ns(1) mx op(1) s3(1) lt(1) read_commit_ok [OF assms(1) holds_stores [OF assms(2)] assms(3), of ?B "fst s3" "snd s3" h] s3(2)
    by (simp add: ReadSegmentInfos_def latest_def)
qed

lemma read_named_ok:
  assumes "live d" "stores_commit (files d) iid kvs h0 si0" "hook_law files hook fetch"
  shows "ReadCommit hook D (GetSegmentsFileName (sis_generation si0)) (d, h) =
    (case alloc_segments (no_fields (map (read_segment (fetch (files d)) h0) (sis_segments si0))) h of
       (ps, h') \<Rightarrow> Some (Ok ((read_infos (fetch (files d)) kvs h0 si0)\<lparr>sis_segments := ps\<rparr>), (d, h')))"
proof -
  let ?g = "sis_generation si0" and ?B = "file_bytes iid kvs h0 si0"
  have st: "0 \<le> sint ?g" "files d (GetSegmentsFileName ?g) = Some ?B" using assms(2) by (simp_all add: stores_commit_def)
  obtain i d2 where op: "dir_OpenInput D (GetSegmentsFileName ?g) d = (Ok i, d2)" "rd d ?B (d2, i)"
    using open_law [OF assms(1) st(2)] by blast
  have "length (GetSegmentsFileName ?g) > 9" "take 9 (GetSegmentsFileName ?g) = str ''segments_''"
      "ParseInt (drop 9 (GetSegmentsFileName ?g)) 36 = Some ?g"
    using commit_gen_name [OF st(1)] by (auto simp: commit_gen_def split: if_splits)
  then show ?thesis
    using op(1) read_commit_ok [OF assms op(2), of h] by (simp add: ReadCommit_def ReadSegmentInfosFromHandle_def)
qed

end

section \<open>The in-memory directory\<close>

definition bd_idle :: "ByteBuffersDirectory \<Rightarrow> bool" where
  "bd_idle d \<longleftrightarrow> bd_wf d \<and> bd_isOpen d \<and> bd_openFiles d = Map.empty"

definition bd_writing :: "ByteBuffersDirectory \<Rightarrow> gostring \<Rightarrow> bbo_state \<Rightarrow> bool" where
  "bd_writing d n = bbo_ok (snd (bd_CreateOutput n d)) (bd_fresh d)"

definition bd_reading :: "ByteBuffersDirectory \<Rightarrow> u8 list \<Rightarrow> bbi_state \<Rightarrow> bool" where
  "bd_reading d B s \<longleftrightarrow> bbi_ok s \<and> (bbi_bytes s, fst s = AddOpenFile (bbi_name (snd s)) d) = (B, True)"

lemma open_remove: "bd_openFiles d n = None \<Longrightarrow> RemoveOpenFile n (AddOpenFile n d) = d"
  by (simp add: RemoveOpenFile_def AddOpenFile_def fun_upd_idem)

lemma bbi_read_keeps:
  "fst (snd (bbi_ReadByte s)) = fst s" "bbi_name (snd (snd (bbi_ReadByte s))) = bbi_name (snd s)"
  "fst (snd (bbi_ReadBytes buf offset len s)) = fst s" "bbi_name (snd (snd (bbi_ReadBytes buf offset len s))) = bbi_name (snd s)"
  by (auto simp: bbi_ReadByte_def bbi_ReadBytes_def split: prod.splits outcome.splits)

lemma bbi_ReadString_keeps:
  assumes "\<And>s. f (snd (bbi_ReadByte s)) = f s" "\<And>buf offset len s. f (snd (bbi_ReadBytes buf offset len s)) = f s"
  shows "f (snd (bbi_ReadString s)) = f s"
  unfolding bbi_ReadString_def bbi_ReadVInt_def
  by (rule bind_act_frame [of f]) (simp_all add: bounded_vloop_frame [of f] assms lift_out_def)

lemma idle_create:
  assumes "bd_idle d" "bd_abs d n = None"
  obtains out d' where "bd_CreateOutput n d = (Ok out, d')" "bd_wf d'" "bd_isOpen d'" "bd_abs d' = (bd_abs d)(n \<mapsto> [])"
    "out = \<lparr>bbo_name = n, bbo_filePointer = 0, bbo_file = Some (bd_fresh d), bbo_data = []\<rparr>"
    "map_of (bd_files d') n = Some (bd_fresh d)" "bf_name (deref d' (bd_fresh d)) = n" "bd_openFiles d' = [n \<mapsto> 1]"
proof -
  have d: "bd_wf d" "bd_isOpen d" "bd_openFiles d = Map.empty" using assms(1) by (simp_all add: bd_idle_def)
  obtain out d' where c: "bd_CreateOutput n d = (Ok out, d')" "bd_wf d'" "bd_isOpen d'" "bd_abs d' = (bd_abs d)(n \<mapsto> [])"
      "out = \<lparr>bbo_name = n, bbo_filePointer = 0, bbo_file = Some (bd_fresh d), bbo_data = []\<rparr>"
      "map_of (bd_files d') n = Some (bd_fresh d)" "bf_name (deref d' (bd_fresh d)) = n"
    by (rule create_ok [OF d(1,2) assms(2)])
  have "bd_openFiles d' = [n \<mapsto> 1]"
    using c(1) d(2,3) assms(2) by (auto simp: bd_CreateOutput_def Let_def AddOpenFile_def bd_abs_None)
  then show thesis using that c by blast
qed

lemma idle_close:
  assumes "bd_idle d" "bd_abs d n = None" "bd_writing d n s"
  obtains d' where "bbo_Close s = (d', snd s)" "bd_idle d'" "bd_abs d' = (bd_abs d)(n \<mapsto> bbo_data (snd s))"
proof -
  obtain out d1 where c: "bd_CreateOutput n d = (Ok out, d1)" "bd_wf d1" "bd_isOpen d1" "bd_abs d1 = (bd_abs d)(n \<mapsto> [])"
      "map_of (bd_files d1) n = Some (bd_fresh d)" "bf_name (deref d1 (bd_fresh d)) = n" "bd_openFiles d1 = [n \<mapsto> 1]"
    by (rule idle_create [OF assms(1,2)])
  have s: "s = (d1, snd s)" "bbo_file (snd s) = Some (bd_fresh d)"
    using assms(3) c(1) by (simp_all add: bd_writing_def bbo_ok_def prod_eq_iff)
  obtain d2 where d2: "bbo_Close (d1, snd s) = (d2, snd s)" "bd_wf d2" "bd_isOpen d2" "bd_abs d2 = (bd_abs d1)(n \<mapsto> bbo_data (snd s))"
    by (rule close_new_file [OF c(2,3,5) s(2)])
  have "bd_openFiles d2 = Map.empty"
    using d2(1) s(2) c(6,7) by (auto simp: bbo_Close_def RemoveOpenFile_def Let_def)
  then show thesis using that d2 s(1) c(4) by (simp add: bd_idle_def)
qed

lemma bd_source: "index_reader bbi_index_input (bd_reading d) bbi_rest (Errorf ''EOF'') (Errorf ''not enough data available'')"
proof (rule index_reader.intro)
  let ?f = "\<lambda>s. (bbi_bytes s, fst s = AddOpenFile (bbi_name (snd s)) d)"
  note dd = bbi_index_input_def bd_reading_def [abs_def]
  show "byte_source (ii_core bbi_index_input) (bd_reading d B) bbi_rest (Errorf ''EOF'') (Errorf ''not enough data available'')" for B
    using byte_source_frame [OF bbi.byte_source_axioms, of ?f "(B, True)"]
    by (simp add: dd bbi_core_def bbi_ReadByte_frame bbi_ReadBytes_frame bbi_read_keeps)
  show "length t < 2 ^ 31 \<Longrightarrow> reads (bd_reading d B) bbi_rest (ii_ReadString bbi_index_input) (string_bytes t) t" for t B
    using reads_frame [where f = ?f and rd = bbi_ReadString and B = "(B, True)", OF bbi_ReadString_reads bbi_ReadString_keeps]
    by (simp add: dd bbi_ReadByte_frame bbi_ReadBytes_frame bbi_read_keeps)
  show "0 \<le> ii_GetFilePointer bbi_index_input s \<and> ii_GetFilePointer bbi_index_input s \<le> int (length B)
      \<and> bbi_rest s = drop (nat (ii_GetFilePointer bbi_index_input s)) B" if "bd_reading d B s" for B s
    using that by (auto simp: dd bbi_ok_def bbi_wf_def bbi_bytes_def bbi_rest_def bbi_GetFilePointer_def)
  show "ii_Length bbi_index_input s = int (length B)" if "bd_reading d B s" for B s
    using that by (auto simp: dd bbi_ok_def bbi_wf_def bbi_bytes_def bbi_Length_def)
qed

interpretation bc: commit_directory bd_directory bd_abs bd_idle bd_writing "\<lambda>s. bbo_data (snd s)" bd_reading bbi_rest
  "Errorf ''EOF''" "Errorf ''not enough data available''"
proof (rule commit_directory.intro)
  show "checksum_sink (dir_output bd_directory) (bd_writing d n) (\<lambda>s. N - length (bbo_data (snd s))) (\<lambda>s. bbo_data (snd s))" for d n N
    unfolding bd_writing_def using cko.checksum_sink_axioms by (simp add: bd_directory_def)
  show "index_reader (dir_input bd_directory) (bd_reading d) bbi_rest (Errorf ''EOF'') (Errorf ''not enough data available'')" for d
    using bd_source by (simp add: bd_directory_def)
  show "\<exists>ot d'. dir_CreateOutput bd_directory n d = (Ok ot, d') \<and> bd_writing d n (d', ot) \<and> bbo_data (snd (d', ot)) = []"
    if "bd_idle d" "bd_abs d n = None" for d n
    by (rule idle_create [OF that]) (simp add: bd_directory_def bd_writing_def bbo_ok_def)
  show "\<exists>d' o'. dir_CloseOutput bd_directory s = (Ok (), (d', o')) \<and> bd_idle d' \<and> bd_abs d' = (bd_abs d)(n \<mapsto> bbo_data (snd s))"
    if "bd_idle d" "bd_abs d n = None" "bd_writing d n s" for d n s
    by (rule idle_close [OF that]) (auto simp: bd_directory_def)
  show "\<exists>i d'. dir_OpenInput bd_directory n d = (Ok i, d') \<and> bd_reading d B (d', i) \<and> bbi_rest (d', i) = B"
    if h: "bd_idle d" "bd_abs d n = Some B" for d n B
  proof -
    have d: "bd_wf d" "bd_isOpen d" using h(1) by (simp_all add: bd_idle_def)
    obtain i d' where o: "bd_OpenInput n d = (Ok i, d')" "bbi_ok (d', i)" "bbi_bytes (d', i) = B" "bbi_rest (d', i) = B"
      by (rule open_ok [OF d h(2)])
    have "d' = AddOpenFile (bbi_name i) d"
      using o(1) d(2) by (auto simp: bd_OpenInput_def Let_def newByteBuffersIndexInput_def split: option.splits)
    then show ?thesis using o by (simp add: bd_directory_def bd_reading_def)
  qed
  show "fst (ii_Close (dir_input bd_directory) t) = d" if "bd_idle d" "bd_reading d B t" for d B t
    using that open_remove [of d] by (auto simp: bd_directory_def bbi_index_input_def bd_idle_def bd_reading_def bbi_Close_def split: prod.splits)
  show "bd_abs (fst t) = bd_abs d" if "bd_reading d B t" for d B t
    using that by (simp add: bd_reading_def)
  show "\<exists>r d'. dir_DeleteFile bd_directory n d = (r, d') \<and> (\<forall>p. r \<noteq> Panic p) \<and> bd_idle d' \<and> bd_abs d' = (bd_abs d)(n := None)"
    if i: "bd_idle d" for d n
  proof (cases "bd_abs d n = None")
    case True
    then have "bd_DeleteFile n d = (Err ErrFileNotFound, d)" using i by (simp add: bd_DeleteFile_def bd_idle_def bd_abs_None)
    then show ?thesis using True i by (simp add: bd_directory_def fun_upd_idem)
  next
    case False
    have d: "bd_wf d" "bd_isOpen d" using i by (simp_all add: bd_idle_def)
    obtain d' where d': "bd_DeleteFile n d = (Ok (), d')" "bd_wf d'" "bd_isOpen d'" "bd_abs d' = (bd_abs d)(n := None)"
      by (rule delete_ok [OF d False])
    have "bd_openFiles d' = bd_openFiles d" using d'(1) d(2) by (auto simp: bd_DeleteFile_def split: if_splits)
    then show ?thesis using d' i by (simp add: bd_directory_def bd_idle_def)
  qed
  show "\<exists>d'. dir_Rename bd_directory source dest d = (Ok (), d') \<and> bd_idle d' \<and> bd_abs d' = (bd_abs d)(source := None, dest \<mapsto> B)"
    if h: "bd_idle d" "bd_abs d source = Some B" "bd_abs d dest = None" for d source dest B
  proof -
    have d: "bd_wf d" "bd_isOpen d" "\<not> IsFileOpen source d" using h(1) by (simp_all add: bd_idle_def IsFileOpen_def)
    obtain d' where d': "bd_Rename source dest d = (Ok (), d')" "bd_wf d'" "bd_isOpen d'" "bd_abs d' = (bd_abs d)(source := None, dest \<mapsto> B)"
      by (rule rename_ok [OF d h(2,3)])
    have "bd_openFiles d' = bd_openFiles d" using d'(1) d(2,3) by (auto simp: bd_Rename_def split: option.splits if_splits)
    then show ?thesis using d' h(1) by (simp add: bd_directory_def bd_idle_def)
  qed
  show "\<exists>e. dir_Rename bd_directory source dest d = (Err e, d)" if "bd_idle d" "bd_abs d source = None" for d source dest
    using that by (auto simp: bd_directory_def bd_idle_def bd_Rename_def IsFileOpen_def bd_abs_None)
  show "\<exists>ns. dir_ListAll bd_directory d = (Ok ns, d) \<and> set ns = dom (bd_abs d)" if "bd_idle d" for d
    using that by (simp add: bd_directory_def bd_idle_def bd_ListAll_names dom_bd_abs)
  show "Sync [n] d = (Ok (), d)" if "bd_idle d" "dir_Sync bd_directory = Some Sync" for d Sync n
    using that by (auto simp: bd_directory_def bd_idle_def bd_Sync_def EnsureOpen_def)
  show "SyncMeta d = (Ok (), d)" if "bd_idle d" "dir_SyncMetaData bd_directory = Some SyncMeta" for d SyncMeta
    using that by (simp add: bd_directory_def)
qed

section \<open>The phases of a commit\<close>

text \<open>\<open>reads_back\<close>: opening the directory returns this commit and leaves the directory as it is.\<close>

definition reads_back :: "('d, 'i, 'o) directory \<Rightarrow> ('d \<Rightarrow> gostring \<rightharpoonup> u8 list) \<Rightarrow> 'd si_hook
    \<Rightarrow> ((gostring \<rightharpoonup> u8 list) \<Rightarrow> gostring \<Rightarrow> u8 list \<Rightarrow> gostring \<Rightarrow> SegmentInfo) \<Rightarrow> 'd
    \<Rightarrow> (gostring \<times> gostring) list \<Rightarrow> seg_heap \<Rightarrow> SegmentInfos \<Rightarrow> bool" where
  "reads_back D files hook fetch d kvs h0 si0 \<longleftrightarrow> (\<forall>h. \<exists>si' h'. ReadSegmentInfos hook D (d, h) = Some (Ok si', (d, h'))
     \<and> si'\<lparr>sis_segments := []\<rparr> = read_infos (fetch (files d)) kvs h0 si0
     \<and> segment_view h' si' = map (read_segment (fetch (files d)) h0) (sis_segments si0))"

lemma read_view:
  assumes "alloc_segments (no_fields (map (read_segment f h0) ps0)) h = (ps, h')"
  shows "segment_view h' (si\<lparr>sis_segments := ps\<rparr>) = map (read_segment f h0) ps0"
  using alloc_view [OF assms] by (simp add: segment_view_def list_all_iff read_segment_def read_sci_def NewSegmentCommitInfo_def)

lemma next_generation:
  assumes "- 1 \<le> sint (sis_generation si)" "sint (sis_generation si) < 2 ^ 63 - 1"
  shows "0 < sint (getNextPendingGeneration si)" "sint (sis_generation si) < sint (getNextPendingGeneration si)"
proof -
  have "sint (sis_generation si + 1) = sint (sis_generation si) + 1" if "sis_generation si \<noteq> - 1"
    using sint_Suc64 assms by simp
  moreover have "sint (sis_generation si) \<noteq> - 1" if "sis_generation si \<noteq> - 1"
    using that signed_word_eqI [where 'a = int, of "sis_generation si" "- 1"] by auto
  moreover from this have "0 \<le> sint (sis_generation si)" if "sis_generation si \<noteq> - 1" using that assms(1) by fastforce
  ultimately show "0 < sint (getNextPendingGeneration si)" "sint (sis_generation si) < sint (getNextPendingGeneration si)"
    by (auto simp: getNextPendingGeneration_def)
qed

lemma commits_upto_pending: "commits_upto (F(pendingSegmentsFileName g := x)) g' = commits_upto F g'"
  by (auto simp: commits_upto_def commit_gen_pending split: if_splits)

lemma holds_commit_pending: "holds_commit (F(pendingSegmentsFileName g := x)) iid kvs h si = holds_commit F iid kvs h si"
proof -
  have "latest (F(pendingSegmentsFileName g := x)) (sis_generation si) = latest F (sis_generation si)"
    by (auto simp: latest_def commit_gen_pending pending_not_segments [THEN not_sym] split: if_splits)
  then show ?thesis by (simp add: holds_commit_def pending_not_segments [THEN not_sym])
qed

lemma commits_upto_absent: "commits_upto F g \<Longrightarrow> sint g < sint g' \<Longrightarrow> 0 \<le> sint g' \<Longrightarrow> F (GetSegmentsFileName g') = None"
  using commit_gen_name [of g'] by (force simp: commits_upto_def)

lemma latest_new:
  assumes "commits_upto F g" "sint g < sint g'" "0 \<le> sint g'"
  shows "latest (F(GetSegmentsFileName g' \<mapsto> B)) g'"
  using assms by (force simp: latest_def commits_upto_def)

lemma latest_upto: "latest F g \<Longrightarrow> commits_upto F g"
  using commit_gen_name [of g] by (fastforce simp: latest_def commits_upto_def)

context commit_directory
begin

lemma read_back_ok:
  assumes "live d" "holds_commit (files d) iid kvs h0 si0" "hook_law files hook fetch"
  shows "reads_back D files hook fetch d kvs h0 si0"
  unfolding reads_back_def
proof
  fix h
  let ?xs = "map (read_segment (fetch (files d)) h0) (sis_segments si0)"
  obtain ps h' where a: "alloc_segments (no_fields ?xs) h = (ps, h')" by fastforce
  have "segment_view h' ((read_infos (fetch (files d)) kvs h0 si0)\<lparr>sis_segments := ps\<rparr>) = ?xs" by (rule read_view [OF a])
  then show "\<exists>si' h'. ReadSegmentInfos hook D (d, h) = Some (Ok si', (d, h'))
      \<and> si'\<lparr>sis_segments := []\<rparr> = read_infos (fetch (files d)) kvs h0 si0 \<and> segment_view h' si' = ?xs"
    using read_ok [OF assms, of h] a by (simp add: read_infos_def)
qed

text \<open>Both phases in a row.\<close>

lemma commit_ok:
  assumes "live d" "\<not> sis_pendingCommit si" "commits_upto (files d) (sis_generation si)"
    and "files d (pendingSegmentsFileName (getNextPendingGeneration si)) = None"
    and g: "- 1 \<le> sint (sis_generation si)" "sint (sis_generation si) < 2 ^ 63 - 1"
    and "length iid = 16" "storable (rng (sis_userData si)) h si" "no_extensions (rng (sis_userData si))"
  obtains si1 d1 d2 where "sis_PrepareCommit rng (Ok iid) D h (si, d) = (Ok (), (si1, d1))"
    "si1 = si\<lparr>sis_generation := getNextPendingGeneration si, sis_pendingCommit := True\<rparr>" "live d1"
    "files d1 = (files d)(pendingSegmentsFileName (getNextPendingGeneration si)
       \<mapsto> file_bytes iid (rng (sis_userData si)) h (si\<lparr>sis_generation := getNextPendingGeneration si\<rparr>))"
    "sis_FinishCommit D (si1, d1) = (Ok (GetSegmentsFileName (sis_generation si1)),
       (si1\<lparr>sis_pendingCommit := False, sis_lastGeneration := sis_generation si1\<rparr>, d2))" "live d2"
    "holds_commit (files d2) iid (rng (sis_userData si)) h (si\<lparr>sis_generation := getNextPendingGeneration si\<rparr>)"
    "files d2 = (files d)(GetSegmentsFileName (sis_generation si1)
       \<mapsto> file_bytes iid (rng (sis_userData si)) h (si\<lparr>sis_generation := getNextPendingGeneration si\<rparr>))"
proof -
  let ?g = "getNextPendingGeneration si" and ?kvs = "rng (sis_userData si)"
  let ?si1 = "si\<lparr>sis_generation := ?g, sis_pendingCommit := True\<rparr>" and ?c = "si\<lparr>sis_generation := ?g\<rparr>"
  let ?n = "pendingSegmentsFileName ?g" and ?B = "file_bytes iid ?kvs h ?c"
  note ng = next_generation [OF g]
  obtain d1 where p: "sis_PrepareCommit rng (Ok iid) D h (si, d) = (Ok (), (?si1, d1))" "live d1" "files d1 = (files d)(?n \<mapsto> ?B)"
    by (rule prepare_ok [where rng = rng and si = si and h = h, OF assms(1,2,4,7,8)])
  have dest: "files d (GetSegmentsFileName ?g) = None" using commits_upto_absent [OF assms(3) ng(2)] ng(1) by simp
  obtain d2 where f: "sis_FinishCommit D (?si1, d1) = (Ok (GetSegmentsFileName ?g),
       (?si1\<lparr>sis_pendingCommit := False, sis_lastGeneration := ?g\<rparr>, d2))" "live d2"
       "files d2 = (files d1)(?n := None, GetSegmentsFileName ?g \<mapsto> ?B)"
    by (rule finish_ok [OF p(2), of ?si1 ?B]) (use p(3) dest in \<open>simp_all add: pending_not_segments [THEN not_sym]\<close>)
  have F: "files d2 = (files d)(GetSegmentsFileName ?g \<mapsto> ?B)"
    unfolding f(3) p(3) using assms(4) by (simp add: fun_upd_idem)
  have "holds_commit (files d2) iid ?kvs h ?c"
    using latest_new [OF assms(3) ng(2)] ng(1) assms(7-9) by (simp add: F holds_commit_def storable_def)
  then show thesis using that p f(1,2) F by simp
qed

end

section \<open>Sessions\<close>

text \<open>
  The states a writer can reach: it starts without a commit or from the latest one, and then
  changes its list and calls the three phases in any order and with any outcome, reading
  random bytes included.  The two last components are ghosts: the commit that was finished
  last, and the one that is prepared.
\<close>

type_synonym commit = "u8 list \<times> (gostring \<times> gostring) list \<times> seg_heap \<times> SegmentInfos"

definition acceptable :: "((gostring \<rightharpoonup> gostring) \<Rightarrow> (gostring \<times> gostring) list) \<Rightarrow> seg_heap \<Rightarrow> SegmentInfos \<Rightarrow> bool" where
  "acceptable rng h si \<longleftrightarrow> storable (rng (sis_userData si)) h si \<and> no_extensions (rng (sis_userData si))"

definition no_pending :: "(gostring \<rightharpoonup> u8 list) \<Rightarrow> bool" where
  "no_pending F \<longleftrightarrow> (\<forall>g. F (pendingSegmentsFileName g) = None)"

inductive session :: "((gostring \<rightharpoonup> gostring) \<Rightarrow> (gostring \<times> gostring) list) \<Rightarrow> ('d, 'i, 'o) directory
    \<Rightarrow> ('d \<Rightarrow> gostring \<rightharpoonup> u8 list) \<Rightarrow> ('d \<Rightarrow> bool)
    \<Rightarrow> SegmentInfos \<Rightarrow> seg_heap \<Rightarrow> 'd \<Rightarrow> commit option \<Rightarrow> commit option \<Rightarrow> bool" for rng D files live where
  start: "live d \<Longrightarrow> \<forall>n\<in>dom (files d). commit_gen n = None \<Longrightarrow> no_pending (files d) \<Longrightarrow> acceptable rng h si \<Longrightarrow>
    sis_generation si = - 1 \<Longrightarrow> \<not> sis_pendingCommit si \<Longrightarrow> session rng D files live si h d None None"
| resume: "live d \<Longrightarrow> holds_commit (files d) iid kvs h0 si0 \<Longrightarrow> no_pending (files d) \<Longrightarrow> acceptable rng h si \<Longrightarrow>
    sis_generation si = sis_generation si0 \<Longrightarrow> \<not> sis_pendingCommit si \<Longrightarrow> session rng D files live si h d (Some (iid, kvs, h0, si0)) None"
| change: "session rng D files live si h d l p \<Longrightarrow> acceptable rng h' si' \<Longrightarrow> sis_generation si' = sis_generation si \<Longrightarrow>
    sis_pendingCommit si' = sis_pendingCommit si \<Longrightarrow> session rng D files live si' h' d l p"
| prepare: "session rng D files live si h d l p \<Longrightarrow> sint (sis_generation si) < 2 ^ 63 - 1 \<Longrightarrow> length iid = 16 \<Longrightarrow>
    sis_PrepareCommit rng (Ok iid) D h (si, d) = (r, (si', d')) \<Longrightarrow>
    session rng D files live si' h d' l
      (case r of Ok _ \<Rightarrow> Some (iid, rng (sis_userData si), h, si\<lparr>sis_generation := sis_generation si'\<rparr>) | _ \<Rightarrow> p)"
| prepare_fails: "session rng D files live si h d l p \<Longrightarrow> sint (sis_generation si) < 2 ^ 63 - 1 \<Longrightarrow>
    sis_PrepareCommit rng (Err e) D h (si, d) = (r, (si', d')) \<Longrightarrow> session rng D files live si' h d' l p"
| finish: "session rng D files live si h d l p \<Longrightarrow> sis_FinishCommit D (si, d) = (r, (si', d')) \<Longrightarrow>
    session rng D files live si' h d' (case r of Ok _ \<Rightarrow> p | _ \<Rightarrow> l) None"
| rollback: "session rng D files live si h d l p \<Longrightarrow> sis_RollbackCommit D (si, d) = (r, (si', d')) \<Longrightarrow>
    session rng D files live si' h d' l None"

definition commits_below :: "(gostring \<rightharpoonup> u8 list) \<Rightarrow> i64 \<Rightarrow> bool" where
  "commits_below F g \<longleftrightarrow> 0 \<le> sint g \<and> (\<forall>n\<in>dom F. \<forall>g'. commit_gen n = Some g' \<longrightarrow> sint g' < sint g)"

definition visible :: "(gostring \<rightharpoonup> u8 list) \<Rightarrow> commit option \<Rightarrow> bool" where
  "visible F l = (case l of None \<Rightarrow> \<forall>n\<in>dom F. commit_gen n = None | Some (iid, kvs, h0, si0) \<Rightarrow> holds_commit F iid kvs h0 si0)"

definition prepared :: "(gostring \<rightharpoonup> u8 list) \<Rightarrow> SegmentInfos \<Rightarrow> commit option \<Rightarrow> bool" where
  "prepared F si p = (case p of None \<Rightarrow> no_pending F
     | Some (iid, kvs, h1, si1) \<Rightarrow> sis_pendingCommit si \<and> sis_generation si1 = sis_generation si \<and> length iid = 16
         \<and> storable kvs h1 si1 \<and> no_extensions kvs
         \<and> (\<forall>g. F (pendingSegmentsFileName g) = (if g = sis_generation si then Some (file_bytes iid kvs h1 si1) else None)))"

definition session_inv :: "((gostring \<rightharpoonup> gostring) \<Rightarrow> (gostring \<times> gostring) list) \<Rightarrow> (gostring \<rightharpoonup> u8 list)
    \<Rightarrow> SegmentInfos \<Rightarrow> seg_heap \<Rightarrow> commit option \<Rightarrow> commit option \<Rightarrow> bool" where
  "session_inv rng F si h l p \<longleftrightarrow> acceptable rng h si \<and> - 1 \<le> sint (sis_generation si) \<and> visible F l
     \<and> commits_upto F (sis_generation si) \<and> (sis_pendingCommit si \<longrightarrow> commits_below F (sis_generation si)) \<and> prepared F si p"

lemma pending_inj: "pendingSegmentsFileName g = pendingSegmentsFileName g' \<longleftrightarrow> g = g'"
  using FormatInt_inj [of 36 g g'] by (auto simp: pendingSegmentsFileName_def)

lemma visible_pending: "visible (F(pendingSegmentsFileName g := x)) l = visible F l"
proof (cases l)
  case None
  then show ?thesis unfolding visible_def dom_def option.case
    by (auto simp: commit_gen_pending split: if_splits) (metis commit_gen_pending option.distinct(1))+
qed (auto simp: visible_def holds_commit_pending)

lemma commits_below_pending: "commits_below (F(pendingSegmentsFileName g := x)) g' = commits_below F g'"
  by (auto simp: commits_below_def commit_gen_pending split: if_splits)

lemma commits_below_upto: "commits_below F g \<Longrightarrow> commits_upto F g"
  by (fastforce simp: commits_below_def commits_upto_def)

lemma commits_below_absent: "commits_below F g \<Longrightarrow> F (GetSegmentsFileName g) = None"
  using commit_gen_name [of g] by (force simp: commits_below_def)

lemma no_pending_upd: "no_pending F \<Longrightarrow> F(pendingSegmentsFileName g := None) = F"
  by (simp add: no_pending_def fun_upd_idem)

lemma upto_below_next:
  assumes "commits_upto F (sis_generation si)" "- 1 \<le> sint (sis_generation si)" "sint (sis_generation si) < 2 ^ 63 - 1"
  shows "commits_below F (getNextPendingGeneration si)"
  using next_generation [OF assms(2,3)] assms(1) by (fastforce simp: commits_below_def commits_upto_def)

context commit_directory
begin

text \<open>When the random bytes cannot be read the file is removed again and only the generation advances.\<close>

lemma prepare_rand_fails:
  assumes "live d" "\<not> sis_pendingCommit si" "files d (pendingSegmentsFileName (getNextPendingGeneration si)) = None"
  obtains d' where "sis_PrepareCommit rng (Err e) D h (si, d) = (Err e, (si\<lparr>sis_generation := getNextPendingGeneration si\<rparr>, d'))"
    "live d'" "files d' = files d"
proof -
  let ?n = "pendingSegmentsFileName (getNextPendingGeneration si)" and ?si = "si\<lparr>sis_generation := getNextPendingGeneration si\<rparr>"
  obtain ot d1 where c: "dir_CreateOutput D ?n d = (Ok ot, d1)" "wr d ?n (d1, ot)" using create_law [OF assms(1,3)] by blast
  obtain d2 o' where cl: "dir_CloseOutput D (d1, ot) = (Ok (), (d2, o'))" "live d2" "files d2 = (files d)(?n \<mapsto> written (d1, ot))"
    using close_law [OF assms(1,3) c(2)] by blast
  obtain d3 where d3: "delete_ignoring D ?n d2 = (Ok (), d3)" "live d3" "files d3 = (files d2)(?n := None)"
    by (rule delete_ignoring_ok [OF cl(2)])
  have "write_file D ot (sis_Write rng (Err e) (dir_output D) h ?si) d1 = (Err e, d2)"
    using cl(1) by (simp add: write_file_def sis_Write_def bind_act_def lift_out_def close_out_def NewChecksumIndexOutput_def
        NewChecksumIndexOutputWithType_def)
  then have "sis_PrepareCommit rng (Err e) D h (si, d) = (Err e, (?si, d3))"
    using c(1) assms(2) sync_ok(2) [OF assms(1)] d3(1)
    by (simp add: sis_PrepareCommit_def sis_write_def or_delete_def bind_act_def seq_act_def Let_def)
  moreover have "files d3 = files d" using d3(3) cl(3) assms(3) by (simp add: fun_upd_idem)
  ultimately show thesis using that d3(2) by blast
qed

lemma prepare_pending: "sis_pendingCommit si \<Longrightarrow>
    sis_PrepareCommit rng rnd D h (si, d) = (Err (Errorf ''prepareCommit was already called''), (si, d))"
  by (simp add: sis_PrepareCommit_def)

lemma prepare_inv:
  assumes "live d" "session_inv rng (files d) si h l p" "sint (sis_generation si) < 2 ^ 63 - 1" "length iid = 16"
    and "sis_PrepareCommit rng (Ok iid) D h (si, d) = (r, (si', d'))"
  shows "live d' \<and> session_inv rng (files d') si' h l
      (case r of Ok _ \<Rightarrow> Some (iid, rng (sis_userData si), h, si\<lparr>sis_generation := sis_generation si'\<rparr>) | _ \<Rightarrow> p)"
proof (cases "sis_pendingCommit si")
  case True
  then show ?thesis using prepare_pending [OF True, of rng "Ok iid" h d] assms(1,2,5) by auto
next
  case False
  let ?g = "getNextPendingGeneration si"
  have inv: "acceptable rng h si" "visible (files d) l" "commits_upto (files d) (sis_generation si)" "- 1 \<le> sint (sis_generation si)"
      "prepared (files d) si p" using assms(2) by (simp_all add: session_inv_def)
  have p: "p = None" "no_pending (files d)" using inv(5) False by (auto simp: prepared_def split: option.splits)
  have np: "files d (pendingSegmentsFileName ?g) = None" using p(2) by (simp add: no_pending_def)
  have st: "storable (rng (sis_userData si)) h si" "no_extensions (rng (sis_userData si))" using inv(1) by (simp_all add: acceptable_def)
  obtain d1 where d1: "sis_PrepareCommit rng (Ok iid) D h (si, d) = (Ok (), (si\<lparr>sis_generation := ?g, sis_pendingCommit := True\<rparr>, d1))" "live d1"
      "files d1 = (files d)(pendingSegmentsFileName ?g \<mapsto> file_bytes iid (rng (sis_userData si)) h (si\<lparr>sis_generation := ?g\<rparr>))"
    by (rule prepare_ok [where rng = rng and si = si and h = h, OF assms(1) False np assms(4) st(1)])
  have below: "commits_below (files d) ?g" by (rule upto_below_next [OF inv(3,4) assms(3)])
  have sts: "storable kvs h (si\<lparr>sis_generation := a, sis_pendingCommit := b\<rparr>) = storable kvs h si" for kvs a b by (simp add: storable_def)
  have sts': "storable kvs h (si\<lparr>sis_generation := a\<rparr>) = storable kvs h si" for kvs a by (simp add: storable_def)
  have "session_inv rng (files d1) (si\<lparr>sis_generation := ?g, sis_pendingCommit := True\<rparr>) h l
      (Some (iid, rng (sis_userData si), h, si\<lparr>sis_generation := ?g\<rparr>))"
    using st inv(2) below p(2) assms(4) commits_below_upto [OF below]
    by (simp add: session_inv_def acceptable_def d1(3) visible_pending commits_below_pending commits_upto_pending prepared_def
        pending_inj no_pending_def commits_below_def commit_gen_pending sts sts')
  then show ?thesis using d1(1,2) assms(5) by auto
qed

lemma prepare_fails_inv:
  assumes "live d" "session_inv rng (files d) si h l p" "sint (sis_generation si) < 2 ^ 63 - 1"
    and "sis_PrepareCommit rng (Err e) D h (si, d) = (r, (si', d'))"
  shows "live d' \<and> session_inv rng (files d') si' h l p"
proof (cases "sis_pendingCommit si")
  case True
  then show ?thesis using prepare_pending [OF True, of rng "Err e" h d] assms(1,2,4) by auto
next
  case False
  let ?g = "getNextPendingGeneration si"
  have inv: "acceptable rng h si" "visible (files d) l" "commits_upto (files d) (sis_generation si)" "- 1 \<le> sint (sis_generation si)"
      "prepared (files d) si p" using assms(2) by (simp_all add: session_inv_def)
  have p: "p = None" "no_pending (files d)" using inv(5) False by (auto simp: prepared_def split: option.splits)
  have np: "files d (pendingSegmentsFileName ?g) = None" using p(2) by (simp add: no_pending_def)
  obtain d1 where d1: "sis_PrepareCommit rng (Err e) D h (si, d) = (Err e, (si\<lparr>sis_generation := ?g\<rparr>, d1))" "live d1" "files d1 = files d"
    by (rule prepare_rand_fails [OF assms(1) False np])
  have below: "commits_below (files d) ?g" by (rule upto_below_next [OF inv(3,4) assms(3)])
  have "session_inv rng (files d1) (si\<lparr>sis_generation := ?g\<rparr>) h l p"
    using inv(1,2) below p False commits_below_upto [OF below]
    by (simp add: session_inv_def acceptable_def storable_def d1(3) prepared_def commits_below_def)
  then show ?thesis using d1(1,2) assms(4) by auto
qed

end

lemma below_latest_new: "commits_below F g \<Longrightarrow> latest (F(GetSegmentsFileName g \<mapsto> B)) g"
  by (force simp: latest_def commits_below_def)

lemma storable_flags: "storable kvs h (si\<lparr>sis_pendingCommit := b, sis_lastGeneration := g\<rparr>) = storable kvs h si"
  by (simp add: storable_def)

context commit_directory
begin

lemma finish_inv:
  assumes "live d" "session_inv rng (files d) si h l p" "sis_FinishCommit D (si, d) = (r, (si', d'))"
  shows "live d' \<and> session_inv rng (files d') si' h (case r of Ok _ \<Rightarrow> p | _ \<Rightarrow> l) None"
proof (cases "sis_pendingCommit si")
  case False
  then have "p = None" using assms(2) by (auto simp: session_inv_def prepared_def split: option.splits)
  then show ?thesis using False assms by (auto simp: sis_FinishCommit_def)
next
  case True
  let ?g = "sis_generation si"
  have inv: "acceptable rng h si" "visible (files d) l" "commits_below (files d) ?g" "- 1 \<le> sint ?g" "prepared (files d) si p"
    using assms(2) True by (simp_all add: session_inv_def)
  show ?thesis
  proof (cases p)
    case None
    then have np: "no_pending (files d)" using inv(5) by (simp add: prepared_def)
    then have "files d (pendingSegmentsFileName ?g) = None" by (simp add: no_pending_def)
    then obtain e d1 where "sis_FinishCommit D (si, d) = (Err e, (si, d1))" "live d1" "files d1 = files d"
      by (rule finish_missing [OF assms(1) True])
    then show ?thesis using assms(2,3) None by auto
  next
    case (Some c)
    obtain iid kvs h1 si1 where c: "c = (iid, kvs, h1, si1)" by (cases c)
    let ?B = "file_bytes iid kvs h1 si1"
    have pr: "sis_generation si1 = ?g" "length iid = 16" "storable kvs h1 si1" "no_extensions kvs"
        "\<forall>g. files d (pendingSegmentsFileName g) = (if g = ?g then Some ?B else None)"
      using inv(5) by (simp_all add: prepared_def Some c)
    obtain d1 where d1: "sis_FinishCommit D (si, d) = (Ok (GetSegmentsFileName ?g), (si\<lparr>sis_pendingCommit := False, sis_lastGeneration := ?g\<rparr>, d1))"
        "live d1" "files d1 = (files d)(pendingSegmentsFileName ?g := None, GetSegmentsFileName ?g \<mapsto> ?B)"
      by (rule finish_ok [OF assms(1) True, of ?B]) (use pr(5) commits_below_absent [OF inv(3)] in simp_all)
    have lt: "latest (files d1) ?g" unfolding d1(3) by (rule below_latest_new) (use inv(3) in \<open>simp add: commits_below_pending\<close>)
    have "no_pending (files d1)" using pr(5) by (simp add: d1(3) no_pending_def pending_inj pending_not_segments)
    moreover have "holds_commit (files d1) iid kvs h1 si1"
      using lt pr by (simp add: holds_commit_def d1(3))
    ultimately have "session_inv rng (files d1) (si\<lparr>sis_pendingCommit := False, sis_lastGeneration := ?g\<rparr>) h p None"
      using inv(1,4) latest_upto [OF lt] by (simp add: session_inv_def acceptable_def storable_flags visible_def prepared_def Some c)
    then show ?thesis using assms(3) d1(1,2) by auto
  qed
qed

lemma rollback_inv:
  assumes "live d" "session_inv rng (files d) si h l p" "sis_RollbackCommit D (si, d) = (r, (si', d'))"
  shows "live d' \<and> session_inv rng (files d') si' h l None"
proof -
  let ?n = "pendingSegmentsFileName (sis_generation si)"
  obtain d1 where d1: "sis_RollbackCommit D (si, d) = (Ok (), (si, d1))" "live d1" "files d1 = (files d)(?n := None)"
    by (rule rollback_ok [OF assms(1)])
  have "prepared (files d) si p" using assms(2) by (simp add: session_inv_def)
  then have "no_pending (files d1)"
    by (auto simp: d1(3) no_pending_def prepared_def pending_inj split: option.splits prod.splits)
  then have "session_inv rng (files d1) si h l None"
    using assms(2) by (simp add: session_inv_def d1(3) visible_pending commits_upto_pending commits_below_pending prepared_def)
  then show ?thesis using assms(3) d1(1,2) by auto
qed

lemma session_invariant: "session rng D files live si h d l p \<Longrightarrow> live d \<and> session_inv rng (files d) si h l p"
proof (induction rule: session.induct)
  case (start d h si)
  then show ?case by (auto simp: session_inv_def visible_def prepared_def commits_upto_def)
next
  case (resume d iid kvs h0 si0 h si)
  then have "latest (files d) (sis_generation si)" by (simp add: holds_commit_def)
  then show ?case using resume latest_upto [of "files d"]
    by (auto simp: session_inv_def visible_def prepared_def latest_def)
next
  case (change si h d l p h' si')
  then show ?case by (auto simp: session_inv_def prepared_def split: option.splits)
next
  case (prepare si h d l p iid r si' d')
  then show ?case using prepare_inv by blast
next
  case (prepare_fails si h d l p e r si' d')
  then show ?case using prepare_fails_inv by blast
next
  case (finish si h d l p r si' d')
  then show ?case using finish_inv by blast
next
  case (rollback si h d l p r si' d')
  then show ?case using rollback_inv by blast
qed

lemma read_none:
  assumes "live d" "\<forall>n\<in>dom (files d). commit_gen n = None"
  shows "ReadSegmentInfos hook D (d, h) = Some (Err (Errorf ''no segments* file found in directory''), (d, h))"
proof -
  obtain ns where ns: "dir_ListAll D d = (Ok ns, d)" "set ns = dom (files d)" using list_law [OF assms(1)] by blast
  have "latest_loop ns (- 1, []) = (- 1, [])" by (rule latest_loop_skip) (use assms(2) ns(2) in simp)
  then show ?thesis using ns(1) by (simp add: ReadSegmentInfos_def)
qed

lemma session_reads:
  assumes "session rng D files live si h d l p" "hook_law files hook fetch"
  shows "case l of None \<Rightarrow> ReadSegmentInfos hook D (d, h') = Some (Err (Errorf ''no segments* file found in directory''), (d, h'))
    | Some (iid, kvs, h0, si0) \<Rightarrow> reads_back D files hook fetch d kvs h0 si0"
proof -
  have "live d" "visible (files d) l" using session_invariant [OF assms(1)] by (simp_all add: session_inv_def)
  then show ?thesis using read_none read_back_ok [OF _ _ assms(2)]
    by (auto simp: visible_def split: option.splits)
qed

end

section \<open>Properties\<close>

definition sample_rng :: "(gostring \<rightharpoonup> gostring) \<Rightarrow> (gostring \<times> gostring) list" where
  "sample_rng m = (case m [97] of None \<Rightarrow> [] | Some v \<Rightarrow> [([97], v)])"

definition sample_objects :: seg_heap where
  "sample_objects = \<lparr>h_infos = [(NewSegmentInfo [95, 48] 3)\<lparr>si_id := replicate 16 7\<rparr>],
     h_scis = [(NewSegmentCommitInfo 0 1 5)\<lparr>sci_fieldInfosGen := 4, sci_fieldInfosFiles := [[102], [103]], sci_docValuesUpdatesFiles := [(2, [[100]])]\<rparr>], h_fieldInfos = []\<rparr>"

definition sample_list :: SegmentInfos where
  "sample_list = \<lparr>sis_segments = [0], sis_generation = - 1, sis_lastGeneration = - 1, sis_version = 3,
     sis_luceneVersion = Sprintf_version 10 0 0, sis_indexCreatedVersionMajor = 10, sis_counter = 1,
     sis_userData = [[97] \<mapsto> [98]], sis_inMemoryParentField = [], sis_inMemoryIndexSort = None, sis_pendingCommit = False\<rparr>"

lemma version_10: "Sscanf_version (str ''10.0.0'') = (10, 0, 0)"
proof -
  have "Sprintf_version 10 0 0 = str ''10.0.0''"
    by (simp add: Sprintf_version_def format_int_def format_nat.simps [of 10 10] format_nat.simps [of 10 "Suc 0"] format_nat.simps [of 10 0] digit_byte_def)
  then show ?thesis using Sscanf_Sprintf_version [of 10 0 0] by simp
qed

lemma sample_storable: "storable (sample_rng (sis_userData sample_list)) sample_objects sample_list"
  by (simp add: storable_def storable_sci_def storable_dv_def storable_data_def short_strings_def in_int32_def nonneg_version_def
      sample_rng_def sample_objects_def sample_list_def sci_at_def info_of_def NewSegmentInfo_def NewSegmentCommitInfo_def
      Sscanf_Sprintf_version si_CodecName_def version_10 del: str_simps)

lemma sample_directory:
  "bd_idle NewByteBuffersDirectory" "bd_abs NewByteBuffersDirectory = Map.empty"
  by (simp_all add: bd_idle_def bd_wf_def NewByteBuffersDirectory_def counts_pos_def bd_abs_def fun_eq_iff)

lemma sample_hook: "hook_law bd_abs None (\<lambda>F. placeholder_info)"
  by (simp add: hook_law_def resolve_info_def)

lemma sample_data:
  "map_of (sample_rng (sis_userData sample_list)) = sis_userData sample_list" "no_extensions (sample_rng (sis_userData sample_list))"
  by (simp_all add: sample_rng_def sample_list_def no_extensions_def map_lookup_def goceneExtVersion_def str_def)

text \<open>
  C2: A commit survives: from a directory with no commit newer than the list's generation, the two
  phases succeed with the name of the next generation, change no other file, and
  \<open>ReadSegmentInfos\<close> then returns a list of that generation with the version, the counter, the
  Lucene versions and the user data of the committed one, and with its segments in order,
  each with the stored part of its commit info and with the info that the hook gives for its name,
  id and codec.
\<close>

theorem commit_roundtrip:
  assumes "bd_idle d" "\<not> sis_pendingCommit si" "commits_upto (bd_abs d) (sis_generation si)"
    and "bd_abs d (pendingSegmentsFileName (getNextPendingGeneration si)) = None"
    and "- 1 \<le> sint (sis_generation si)" "sint (sis_generation si) < 2 ^ 63 - 1" "length iid = 16"
    and "storable (rng (sis_userData si)) h si" "no_extensions (rng (sis_userData si))"
    and rng: "map_of (rng (sis_userData si)) = sis_userData si"
    and ver: "sis_luceneVersion si = Sprintf_version maj mnr bug" and hook: "hook_law bd_abs hook fetch"
  shows "\<exists>si1 d1 si2 d2 si3 h3.
       sis_PrepareCommit rng (Ok iid) bd_directory h (si, d) = (Ok (), (si1, d1))
     \<and> sis_FinishCommit bd_directory (si1, d1) = (Ok (GetSegmentsFileName (getNextPendingGeneration si)), (si2, d2))
     \<and> (\<forall>n. n \<noteq> GetSegmentsFileName (getNextPendingGeneration si) \<longrightarrow> bd_abs d2 n = bd_abs d n)
     \<and> ReadSegmentInfos hook bd_directory (d2, h2) = Some (Ok si3, (d2, h3))
     \<and> sis_generation si3 = getNextPendingGeneration si \<and> sis_lastGeneration si3 = getNextPendingGeneration si
     \<and> sis_version si3 = sis_version si \<and> sis_counter si3 = sis_counter si
     \<and> sis_luceneVersion si3 = sis_luceneVersion si \<and> sis_indexCreatedVersionMajor si3 = sis_indexCreatedVersionMajor si
     \<and> sis_userData si3 = sis_userData si \<and> \<not> sis_pendingCommit si3
     \<and> segment_view h3 si3 = map (read_segment (fetch (bd_abs d2)) h) (sis_segments si)"
proof -
  let ?g = "getNextPendingGeneration si"
  let ?c = "si\<lparr>sis_generation := ?g\<rparr>" and ?kvs = "rng (sis_userData si)"
  obtain si1 d1 d2 where c: "sis_PrepareCommit rng (Ok iid) bd_directory h (si, d) = (Ok (), (si1, d1))"
      "si1 = si\<lparr>sis_generation := ?g, sis_pendingCommit := True\<rparr>"
      "sis_FinishCommit bd_directory (si1, d1) = (Ok (GetSegmentsFileName (sis_generation si1)),
         (si1\<lparr>sis_pendingCommit := False, sis_lastGeneration := sis_generation si1\<rparr>, d2))" "bd_idle d2"
      "holds_commit (bd_abs d2) iid ?kvs h ?c"
      "bd_abs d2 = (bd_abs d)(GetSegmentsFileName (sis_generation si1) \<mapsto> file_bytes iid ?kvs h ?c)"
    by (rule bc.commit_ok [where rng = rng and si = si and h = h, OF assms(1-9)])
  obtain si3 h3 where r: "ReadSegmentInfos hook bd_directory (d2, h2) = Some (Ok si3, (d2, h3))"
      "si3\<lparr>sis_segments := []\<rparr> = read_infos (fetch (bd_abs d2)) ?kvs h ?c"
      "segment_view h3 si3 = map (read_segment (fetch (bd_abs d2)) h) (sis_segments ?c)"
    using bc.read_back_ok [OF c(4,5) hook] unfolding reads_back_def by metis
  have s: "f (si3\<lparr>sis_segments := []\<rparr>) = f (read_infos (fetch (bd_abs d2)) ?kvs h ?c)" for f :: "SegmentInfos \<Rightarrow> 'z"
    by (simp only: r(2))
  show ?thesis
    using c(1-3,6) r(1,3) rng ver s [of sis_generation] s [of sis_lastGeneration] s [of sis_version] s [of sis_counter]
      s [of sis_luceneVersion] s [of sis_indexCreatedVersionMajor] s [of sis_userData] s [of sis_pendingCommit]
    by (simp add: read_infos_def Sscanf_Sprintf_version)
qed

theorem commit_roundtrip_witness:
  "\<exists>si1 d1 si2 d2 si3 h3.
       sis_PrepareCommit sample_rng (Ok (replicate 16 9)) bd_directory sample_objects (sample_list, NewByteBuffersDirectory) = (Ok (), (si1, d1))
     \<and> sis_FinishCommit bd_directory (si1, d1) = (Ok (GetSegmentsFileName (getNextPendingGeneration sample_list)), (si2, d2))
     \<and> (\<forall>n. n \<noteq> GetSegmentsFileName (getNextPendingGeneration sample_list) \<longrightarrow> bd_abs d2 n = bd_abs NewByteBuffersDirectory n)
     \<and> ReadSegmentInfos None bd_directory (d2, sample_objects) = Some (Ok si3, (d2, h3))
     \<and> sis_generation si3 = getNextPendingGeneration sample_list \<and> sis_lastGeneration si3 = getNextPendingGeneration sample_list
     \<and> sis_version si3 = sis_version sample_list \<and> sis_counter si3 = sis_counter sample_list
     \<and> sis_luceneVersion si3 = sis_luceneVersion sample_list
     \<and> sis_indexCreatedVersionMajor si3 = sis_indexCreatedVersionMajor sample_list
     \<and> sis_userData si3 = sis_userData sample_list \<and> \<not> sis_pendingCommit si3
     \<and> segment_view h3 si3 = map (read_segment placeholder_info sample_objects) (sis_segments sample_list)"
  by (rule commit_roundtrip [where fetch = "\<lambda>F. placeholder_info"])
     (use sample_directory sample_storable sample_data sample_hook in \<open>simp_all add: commits_upto_def sample_list_def\<close>)

text \<open>
  C1: In every state that a writer can reach, by any sequence of changes to its list and of calls to
  the three phases, successful or not, opening the directory returns the commit that was
  finished last, complete, or reports that there is none before the first.  A commit that is only
  prepared, rolled back, or whose preparation failed is never seen, and a finished one is
  never lost.
\<close>

theorem commit_session_visible:
  assumes "session rng bd_directory bd_abs bd_idle si h d l p" "hook_law bd_abs hook fetch"
  shows "case l of
      None \<Rightarrow> ReadSegmentInfos hook bd_directory (d, h') = Some (Err (Errorf ''no segments* file found in directory''), (d, h'))
    | Some (iid, kvs, h0, si0) \<Rightarrow> reads_back bd_directory bd_abs hook fetch d kvs h0 si0"
  by (rule bc.session_reads [OF assms])

lemma sample_session:
  "\<exists>si d iid kvs h0 si0. session sample_rng bd_directory bd_abs bd_idle si sample_objects d (Some (iid, kvs, h0, si0)) None"
proof -
  let ?d = NewByteBuffersDirectory and ?h = sample_objects and ?si = sample_list
  have si: "\<not> sis_pendingCommit ?si" "sis_generation ?si = - 1" by (simp_all add: sample_list_def)
  have s0: "session sample_rng bd_directory bd_abs bd_idle ?si ?h ?d None None"
    by (rule session.start) (use si sample_directory sample_storable sample_data in \<open>simp_all add: no_pending_def acceptable_def\<close>)
  obtain si1 d1 d2 where c: "sis_PrepareCommit sample_rng (Ok (replicate 16 9)) bd_directory ?h (?si, ?d) = (Ok (), (si1, d1))"
      "sis_FinishCommit bd_directory (si1, d1) = (Ok (GetSegmentsFileName (sis_generation si1)),
         (si1\<lparr>sis_pendingCommit := False, sis_lastGeneration := sis_generation si1\<rparr>, d2))"
    by (rule bc.commit_ok [of ?d ?si "replicate 16 9" sample_rng ?h])
       (use si sample_directory sample_storable sample_data in \<open>simp_all add: commits_upto_def\<close>)
  have g: "sint (sis_generation ?si) < 2 ^ 63 - 1" by (simp add: si(2))
  have s1: "session sample_rng bd_directory bd_abs bd_idle si1 ?h d1 None
      (Some (replicate 16 9, sample_rng (sis_userData ?si), ?h, ?si\<lparr>sis_generation := sis_generation si1\<rparr>))"
    using session.prepare [OF s0 g _ c(1)] by simp
  from session.finish [OF s1 c(2)] show ?thesis unfolding outcome.case by blast
qed

theorem commit_session_visible_witness:
  "\<exists>si d iid kvs h0 si0. session sample_rng bd_directory bd_abs bd_idle si sample_objects d (Some (iid, kvs, h0, si0)) None
     \<and> reads_back bd_directory bd_abs None (\<lambda>F. placeholder_info) d kvs h0 si0"
  using sample_session commit_session_visible [OF _ sample_hook] by fastforce

text \<open>
  C28: \<open>RollbackCommit\<close> removes what \<open>PrepareCommit\<close> wrote, so that the directory has its old content
  again, but leaves the list marked as having a pending commit: from then on
  \<open>PrepareCommit\<close> refuses every call and \<open>FinishCommit\<close> fails without changing the
  directory, so that list can never commit again.
\<close>

theorem rollback_blocks_commits:
  assumes "bd_idle d" "\<not> sis_pendingCommit si" "bd_abs d (pendingSegmentsFileName (getNextPendingGeneration si)) = None"
    and "length iid = 16" "storable (rng (sis_userData si)) h si"
  shows "\<exists>si1 d1 d2 e d3.
       sis_PrepareCommit rng (Ok iid) bd_directory h (si, d) = (Ok (), (si1, d1))
     \<and> sis_RollbackCommit bd_directory (si1, d1) = (Ok (), (si1, d2)) \<and> bd_abs d2 = bd_abs d
     \<and> (\<forall>rnd h'. sis_PrepareCommit rng rnd bd_directory h' (si1, d2) = (Err (Errorf ''prepareCommit was already called''), (si1, d2)))
     \<and> sis_FinishCommit bd_directory (si1, d2) = (Err e, (si1, d3)) \<and> bd_abs d3 = bd_abs d"
proof -
  let ?si = "si\<lparr>sis_generation := getNextPendingGeneration si, sis_pendingCommit := True\<rparr>"
  let ?n = "pendingSegmentsFileName (getNextPendingGeneration si)"
  obtain d1 where p: "sis_PrepareCommit rng (Ok iid) bd_directory h (si, d) = (Ok (), (?si, d1))" "bd_idle d1"
      "bd_abs d1 = (bd_abs d)(?n \<mapsto> file_bytes iid (rng (sis_userData si)) h (si\<lparr>sis_generation := getNextPendingGeneration si\<rparr>))"
    by (rule bc.prepare_ok [where rng = rng and si = si and h = h, OF assms])
  obtain d2 where r: "sis_RollbackCommit bd_directory (?si, d1) = (Ok (), (?si, d2))" "bd_idle d2"
      "bd_abs d2 = (bd_abs d1)(pendingSegmentsFileName (sis_generation ?si) := None)"
    by (rule bc.rollback_ok [OF p(2)])
  have d2: "bd_abs d2 = bd_abs d" using r(3) p(3) assms(3) by (simp add: fun_upd_idem)
  obtain e d3 where "sis_FinishCommit bd_directory (?si, d2) = (Err e, (?si, d3))" "bd_abs d3 = bd_abs d2"
    by (rule bc.finish_missing [OF r(2), of ?si]) (use assms(3) d2 in simp_all)
  then show ?thesis using p(1) r(1) d2 bc.prepare_pending [of ?si] by auto
qed

theorem rollback_blocks_commits_witness:
  "\<exists>si1 d1 d2 e d3.
       sis_PrepareCommit sample_rng (Ok (replicate 16 9)) bd_directory sample_objects (sample_list, NewByteBuffersDirectory) = (Ok (), (si1, d1))
     \<and> sis_RollbackCommit bd_directory (si1, d1) = (Ok (), (si1, d2)) \<and> bd_abs d2 = bd_abs NewByteBuffersDirectory
     \<and> (\<forall>rnd h'. sis_PrepareCommit sample_rng rnd bd_directory h' (si1, d2) = (Err (Errorf ''prepareCommit was already called''), (si1, d2)))
     \<and> sis_FinishCommit bd_directory (si1, d2) = (Err e, (si1, d3)) \<and> bd_abs d3 = bd_abs NewByteBuffersDirectory"
  by (rule rollback_blocks_commits)
     (use sample_directory sample_storable in \<open>simp_all add: sample_list_def\<close>)

text \<open>
  A segment that is read back counts the generations of its field infos and doc values from
  the start again, whatever generations are stored: the next file written would have the name of one
  that exists.
\<close>

lemma read_restarts_generations:
  "sci_fieldInfosGen (read_sci sci) = sci_fieldInfosGen sci" "sci_nextWriteFieldInfosGen (read_sci sci) = 1"
  "sci_docValuesGen (read_sci sci) = sci_docValuesGen sci" "sci_nextWriteDocValuesGen (read_sci sci) = 1"
  by (simp_all add: read_sci_def NewSegmentCommitInfo_def nextGen_def)

text \<open>
  C27: Every commit file stays readable under its name, also after newer commits: \<open>ReadCommit\<close> with
  the name of its generation returns the list that was written into it, and leaves the
  directory as it was.
\<close>

theorem read_commit_by_name:
  assumes "bd_idle d" "stores_commit (bd_abs d) iid kvs h0 si0" "hook_law bd_abs hook fetch"
  shows "\<exists>si' h'. ReadCommit hook bd_directory (GetSegmentsFileName (sis_generation si0)) (d, h) = Some (Ok si', (d, h'))
     \<and> si'\<lparr>sis_segments := []\<rparr> = read_infos (fetch (bd_abs d)) kvs h0 si0
     \<and> segment_view h' si' = map (read_segment (fetch (bd_abs d)) h0) (sis_segments si0)"
proof -
  let ?xs = "map (read_segment (fetch (bd_abs d)) h0) (sis_segments si0)"
  obtain ps h' where a: "alloc_segments (no_fields ?xs) h = (ps, h')" by fastforce
  have "((read_infos (fetch (bd_abs d)) kvs h0 si0)\<lparr>sis_segments := ps\<rparr>)\<lparr>sis_segments := []\<rparr> = read_infos (fetch (bd_abs d)) kvs h0 si0"
    by (simp add: read_infos_def)
  then show ?thesis using bc.read_named_ok [OF assms, of h] read_view [OF a, of "read_infos (fetch (bd_abs d)) kvs h0 si0"] a by auto
qed

lemma sample_stored: "\<exists>d. bd_idle d \<and> stores_commit (bd_abs d) (replicate 16 9) (sample_rng (sis_userData sample_list)) sample_objects
    (sample_list\<lparr>sis_generation := 1\<rparr>)"
proof -
  have g: "getNextPendingGeneration sample_list = 1" by (simp add: getNextPendingGeneration_def sample_list_def)
  obtain d2 where "bd_idle d2" "holds_commit (bd_abs d2) (replicate 16 9) (sample_rng (sis_userData sample_list)) sample_objects
      (sample_list\<lparr>sis_generation := getNextPendingGeneration sample_list\<rparr>)"
    by (rule bc.commit_ok [of NewByteBuffersDirectory sample_list "replicate 16 9" sample_rng sample_objects])
       (use sample_directory sample_storable sample_data in \<open>simp_all add: commits_upto_def sample_list_def\<close>)
  then show ?thesis using holds_stores unfolding g by blast
qed

theorem read_commit_by_name_witness:
  "\<exists>d si' h'. ReadCommit None bd_directory (GetSegmentsFileName 1) (d, sample_objects) = Some (Ok si', (d, h'))
     \<and> segment_view h' si' = map (read_segment placeholder_info sample_objects) (sis_segments sample_list)"
proof -
  obtain d where d: "bd_idle d" "stores_commit (bd_abs d) (replicate 16 9) (sample_rng (sis_userData sample_list)) sample_objects
    (sample_list\<lparr>sis_generation := 1\<rparr>)" using sample_stored by blast
  show ?thesis using read_commit_by_name [OF d sample_hook, of sample_objects] by auto
qed

end
