(* ===== verification/Spec2Isabelle.thy ===== *)
theory Spec2Isabelle
  imports Bit_Util Data_IO Byte_Array_IO Group_VInt Byte_Buffers_Directory Digests Checksum_IO Codec_Util Fixed_Bit_Set Doc_Iterators Conjunctions Priority_Queues File_Deleter Commit_Protocol
begin

text \<open>
  A verification library for the core of Gocene, a search engine library in Go.

  \<^bold>\<open>The program.\<close>  An index lives in a directory of files.  Every file is written through
  a data output (variable-length integers, strings, group-varint blocks), framed by a codec
  header and footer, and covered by a checksum; reading goes through a data input, whose
  checksumming form recomputes the sum and verifies the footer.  A search walks over
  document numbers: documents are kept in bit sets or arrays, iterators step through them,
  conjunctions intersect several iterators.  What an index consists of is recorded above the
  files: every segment has an info and a commit info, the fields have global numbers and
  properties, and the list of segments is written to a file \<^verbatim>\<open>segments_N\<close> in a two-phase commit;
  opening an index means finding and reading the latest of these files.  The theories follow
  these layers from the bottom up.

  \<^bold>\<open>Conventions.\<close>  \<open>Prelude\<close> has the types all components share.  A fallible result is
  \<open>'a outcome\<close>: \<open>Ok v\<close>, \<open>Err e\<close> for a returned error, \<open>Panic msg\<close> for a panic of the
  program (an index out of range included); a stateful call is an \<open>act\<close>, from a state to an
  outcome and the new state, so that the effects before an error stay visible.  Go's
  \<open>int32\<close>, \<open>uint32\<close>, \<open>uint64\<close> and bytes are words of their width wherever the code
  computes on their bits or they wrap; an \<open>int\<close> that holds an index, a length or a document
  number is an \<open>int\<close> of HOL, and a sum of arguments that a client may choose freely is reduced
  to 64 bits by \<open>wrap64\<close>.  Pointers whose identity matters (the files of the directory)
  are references into an explicit store.  An interface is a record of operations, and the
  laws a client relies on are the assumptions of a locale that is interpreted on the
  implementations of this library.

  \<^bold>\<open>Loops.\<close>  Loops are total recursive functions with a termination proof where the
  bound is in the code.  Loops over an arbitrary stream or iterator
  (\<open>read_vloop\<close>, \<open>SlowAdvance\<close>, \<open>OrIterator\<close>, \<open>DefaultIntoBitSet\<close>, \<open>conj_doNext\<close>,
  \<open>bc_doNext\<close>) are \<open>partial_function (option)\<close>: \<open>None\<close> is
  a call that does not return, and the theorems state that the value is \<open>Some\<close>.  \<open>it_drain\<close>
  and \<open>pd_drain\<close> bound the number of \<open>NextDoc\<close> calls of a client by \<open>n\<close>; the theorems take
  every \<open>n\<close> greater than the number of documents, and the result is then the whole set.

  \<^bold>\<open>Theories.\<close>
  \<^item> \<open>Prelude\<close>: outcomes, state actions, Go slices and their index errors, word lemmas.
  \<^item> \<open>Bit_Util\<close> (\<^verbatim>\<open>util/bit_util.go\<close>): powers of two, Morton interleaving, zig-zag coding; each
    function against its arithmetic specification.
  \<^item> \<open>Data_IO\<close> (\<^verbatim>\<open>store/data_output.go\<close>, \<^verbatim>\<open>spi/base_data_input.go\<close>): the encodings over any
    primitive writer and any input core; locales for writers that append and inputs that
    read a byte sequence, with the encode/decode lemmas proved inside them.
  \<^item> \<open>Byte_Array_IO\<close> (\<^verbatim>\<open>store/byte_array_data_output.go\<close>, \<^verbatim>\<open>byte_array_data_input.go\<close>): the array
    streams; interpretations of both locales, the stream round trip, block copying, bounds.
  \<^item> \<open>Group_VInt\<close> (\<^verbatim>\<open>store/group_vint_util.go\<close>, \<^verbatim>\<open>util/group_vint_util.go\<close>,
    \<^verbatim>\<open>store/random_access_input.go\<close>): group-varint writers and readers; round trip and
    equality of the fast random-access path with the byte-wise one.
  \<^item> \<open>Byte_Buffers_Directory\<close> (\<^verbatim>\<open>store/byte_buffers_directory.go\<close>, \<^verbatim>\<open>store/directory.go\<close>,
    \<^verbatim>\<open>spi/base_index_input.go\<close>): the in-memory directory with files as shared objects, its
    chunked input and its output; refinement of a map from names to contents, an invariant
    of every reachable state, file round trip for every chunk size, slices.
  \<^item> \<open>Digests\<close> (\<^verbatim>\<open>spi/xxhash.go\<close> and the CRC-32 the code imports): running checksums and
    how they compose over concatenation.
  \<^item> \<open>Checksum_IO\<close> (\<^verbatim>\<open>spi/checksum_index.go\<close>): the checksumming input and output over any
    wrapped stream; the digest always covers the bytes before the file pointer.
  \<^item> \<open>Codec_Util\<close> (\<^verbatim>\<open>store/codec_util.go\<close>, \<^verbatim>\<open>spi/codec_util.go\<close>): headers, footers and file
    verification; the life of a framed file from \<open>CreateOutput\<close> to its verified checksum,
    the error of every mismatching field, detection of corrupted bytes.
  \<^item> \<open>Word_Counts\<close>, \<open>Fixed_Bit_Set\<close> (\<^verbatim>\<open>util/fixed_bit_set.go\<close>,
    \<^verbatim>\<open>fixed_bit_set_extensions.go\<close>, growth from \<^verbatim>\<open>array_util.go\<close>): population and zero counts
    of words, and the bit set as a refinement of finite sets of document numbers.
  \<^item> \<open>Doc_Iterators\<close> (\<^verbatim>\<open>util/doc_id_set_iterator.go\<close> and the iterators over bit sets, arrays,
    predicates, ranges and complements): the contract of an iterator as the locale
    \<open>doc_iter\<close>, with one interpretation for each implementation.
  \<^item> \<open>Conjunctions\<close> (\<^verbatim>\<open>search/conjunction_disi.go\<close>): leapfrog and bit set intersection keep
    that contract, always return, and enumerate the intersection.
  \<^item> \<open>File_Deleter\<close> (\<^verbatim>\<open>util/file_deleter.go\<close>): reference counts on the files of an index; the
    counts in every reachable state, and the states a crash in the middle of a deletion can
    leave behind, for any directory that keeps the locale \<open>file_store\<close>.
  \<^item> \<open>Heap_Sift\<close>, \<open>Priority_Queues\<close> (\<^verbatim>\<open>util/priority_queue.go\<close>, \<^verbatim>\<open>long_heap.go\<close>,
    \<^verbatim>\<open>ternary_long_heap.go\<close>): sifting in an implicit tree of any arity as a relation with an
    invariant of each step; the three heaps as instances, shown to be multisets that yield
    their least element, to sort, and to keep the \<open>k\<close> best values.
  \<^item> \<open>Go_Strings\<close>: what the code uses of \<^verbatim>\<open>strconv\<close>, \<^verbatim>\<open>strings\<close> and \<^verbatim>\<open>fmt\<close> (integers in any base,
    prefixes, version triples), with the parse/print lemmas.
  \<^item> \<open>Field_Infos\<close> (\<^verbatim>\<open>spi/field_info.go\<close>, \<^verbatim>\<open>spi/field_infos.go\<close>, the user-data encoding in
    \<^verbatim>\<open>spi/segment_infos.go\<close>): the properties of a field, their consistency rules, the collection
    of a segment's fields and the registry of field numbers; the registry's invariant over all
    reachable states, and the round trip of attributes.
  \<^item> \<open>Segment_Info\<close>, \<open>Segment_Infos\<close> (\<^verbatim>\<open>spi/segment_info.go\<close>, \<^verbatim>\<open>segment_commit_info.go\<close>,
    \<^verbatim>\<open>segment_commit_info_generations.go\<close>, the list part of \<^verbatim>\<open>segment_infos.go\<close>): infos, commit
    infos and field tables as objects of a heap, so that sharing is visible, and the list of
    commit infos; merges, the copy of a list with what it shares and what it does not, fresh
    names, generations of file names.
  \<^item> \<open>Segment_Commit\<close> (the rest of \<^verbatim>\<open>spi/segment_infos.go\<close>): writer and reader of \<^verbatim>\<open>segments_N\<close>, the
    legacy reader, the search for the latest commit, and the two-phase commit, over the
    record of operations of any directory.
  \<^item> \<open>Segment_Format\<close>: the bytes of a commit; the writer appends them to every output that keeps
    \<open>checksum_sink\<close>, and the reader returns what was written from every input that keeps
    \<open>index_reader\<close>.
  \<^item> \<open>Commit_Protocol\<close>: the locale \<open>commit_directory\<close> and its interpretation on the in-memory
    directory; a commit can be read back, older commits stay readable, and in every state a
    writer reaches the index opens as the commit that was finished last.

  \<^bold>\<open>Not modelled.\<close>  Files on disk, memory mapping, locks and rate limiting (system
  calls); index writing and merging above the segment list (goroutines and their
  locks); the readers and writers of \<^verbatim>\<open>.si\<close> files, postings, doc values, points and
  vector codecs (the commit reader takes the registered \<^verbatim>\<open>.si\<close> reader as an argument); queries, scorers and two-phase iteration above the conjunctions; analysis,
  stemmers and automata.  They are listed in the manifest with the reason for each.
\<close>

end
